(* ===== verification/Prelude.thy ===== *)
theory Prelude
  imports Complex_Main
begin

text \<open>
  What every component of the development shares: Go's dynamic values (the contents of an
  \<open>any\<close>), times and durations as integers of nanoseconds, effectful programs over an
  arbitrary world state with panics as results, contexts as observers of that state,
  the choice a \<^verbatim>\<open>select\<close> statement makes, decimal rendering of integers, and the
  list and map lemmas the component proofs rewrite with.

  A Go function with effects is a \<open>('s, 'a) prog\<close>: it takes the world and gives back a
  result and the new world. The result is \<open>Val x\<close> when the function returned \<open>x\<close> and
  \<open>Pan v\<close> when a panic with value \<open>v\<close> is unwinding.
\<close>

named_theorems prog_simps \<open>unfolding of the program combinators\<close>
named_theorems store_simps \<open>unfolding of the store operations\<close>
named_theorems err_simps \<open>unfolding of error constructors and classifiers\<close>

section \<open>Go values, time, integers\<close>

type_synonym time = int
type_synonym duration = int

abbreviation Millisecond :: duration where "Millisecond \<equiv> 1000000"
abbreviation Second :: duration where "Second \<equiv> 1000000000"
abbreviation Minute :: duration where "Minute \<equiv> 60000000000"

abbreviation MaxInt64 :: int where "MaxInt64 \<equiv> 9223372036854775807"
abbreviation MinInt64 :: int where "MinInt64 \<equiv> - 9223372036854775808"

text \<open>\<^verbatim>\<open>time.Time{}\<close> is midnight UTC of the first of January of the year 1.\<close>

abbreviation zeroTime :: time where "zeroTime \<equiv> - 62135596800000000000"

text \<open>Two's complement wrap-around of a 64-bit signed integer, written out.\<close>

definition wrap64 :: "int \<Rightarrow> int" where
  "wrap64 x = (x + 9223372036854775808) mod 18446744073709551616 - 9223372036854775808"

text \<open>
  A \<^verbatim>\<open>float64\<close> held by a header: a finite value, an infinity or a NaN. The conversion
  \<^verbatim>\<open>int(f)\<close> truncates towards zero; where the value does not fit, the language leaves the
  result to the implementation, so that result is the argument \<open>oor\<close>.
\<close>

datatype float64 = Float64 rat | Float64Inf bool | Float64NaN

definition truncate :: "rat \<Rightarrow> int" where
  "truncate r = (if r < 0 then - \<lfloor>- r\<rfloor> else \<lfloor>r\<rfloor>)"

definition float64_to_int :: "int \<Rightarrow> float64 \<Rightarrow> int" where
  "float64_to_int oor f =
     (case f of
        Float64 r \<Rightarrow> (let t = truncate r in if MinInt64 \<le> t \<and> t \<le> MaxInt64 then t else oor)
      | _ \<Rightarrow> oor)"

text \<open>
  The dynamic value of an \<open>any\<close>: untyped nil, the types the library itself switches on,
  and every other type by its name and a value of it.
\<close>

datatype goval =
    GNil
  | GString string
  | GInt int
  | GInt64 int
  | GFloat64 float64
  | GBool bool
  | GTime time
  | GBytes string
  | GValue string nat

text \<open>
  The type assertion \<^verbatim>\<open>v.(T)\<close>: \<open>cast\<close> stands for the type \<open>T\<close> (which dynamic values are
  of it, and what they are there). An untyped nil has no dynamic type, so the assertion
  fails for every \<open>T\<close>.
\<close>

definition type_assert :: "(goval \<Rightarrow> 'a option) \<Rightarrow> goval \<Rightarrow> 'a option" where
  "type_assert cast v = (if v = GNil then None else cast v)"

fun as_string :: "goval \<Rightarrow> string option" where
  "as_string (GString s) = Some s"
| "as_string _ = None"

fun as_int :: "goval \<Rightarrow> int option" where
  "as_int (GInt n) = Some n"
| "as_int _ = None"

fun as_time :: "goval \<Rightarrow> time option" where
  "as_time (GTime t) = Some t"
| "as_time _ = None"

fun as_bytes :: "goval \<Rightarrow> string option" where
  "as_bytes (GBytes b) = Some b"
| "as_bytes _ = None"

definition as_any :: "goval \<Rightarrow> goval option" where
  "as_any v = Some v"

text \<open>\<^verbatim>\<open>strconv.Itoa\<close>: decimal digits, with a sign in front of a negative number.\<close>

definition digit_char :: "nat \<Rightarrow> char" where
  "digit_char d = char_of (48 + d)"

fun nat_digits :: "nat \<Rightarrow> string" where
  "nat_digits n = (if n < 10 then [digit_char n] else nat_digits (n div 10) @ [digit_char (n mod 10)])"

declare nat_digits.simps [simp del]

definition itoa :: "int \<Rightarrow> string" where
  "itoa i = (if i < 0 then CHR ''-'' # nat_digits (nat (- i)) else nat_digits (nat i))"

section \<open>Programs over a world, with panics\<close>

datatype 'a res = Val 'a | Pan goval

type_synonym ('s, 'a) prog = "'s \<Rightarrow> 'a res \<times> 's"

definition returnP :: "'a \<Rightarrow> ('s, 'a) prog" where
  "returnP x s = (Val x, s)"

definition bindP :: "('s, 'a) prog \<Rightarrow> ('a \<Rightarrow> ('s, 'b) prog) \<Rightarrow> ('s, 'b) prog" where
  "bindP m f s = (case m s of (Val x, s') \<Rightarrow> f x s' | (Pan p, s') \<Rightarrow> (Pan p, s'))"

definition readP :: "('s \<Rightarrow> 'a) \<Rightarrow> ('s, 'a) prog" where
  "readP f s = (Val (f s), s)"

definition modifyP :: "('s \<Rightarrow> 's) \<Rightarrow> ('s, unit) prog" where
  "modifyP f s = (Val (), f s)"

text \<open>A deferred call runs on a return and on a panic; if it panics itself, its panic replaces.\<close>

definition deferP :: "('s, 'a) prog \<Rightarrow> ('s, 'b) prog \<Rightarrow> ('s, 'a) prog" where
  "deferP m d s =
     (case m s of (r, s') \<Rightarrow> (case d s' of (Val _, s'') \<Rightarrow> (r, s'') | (Pan p, s'') \<Rightarrow> (Pan p, s'')))"

text \<open>\<^verbatim>\<open>recover\<close> in a deferred function that sets the named result.\<close>

definition recoverP :: "('s, 'a) prog \<Rightarrow> (goval \<Rightarrow> 'a) \<Rightarrow> ('s, 'a) prog" where
  "recoverP m h s = (case m s of (Val x, s') \<Rightarrow> (Val x, s') | (Pan p, s') \<Rightarrow> (Val (h p), s'))"

text \<open>A call whose error ends the caller.\<close>

definition bindE :: "('s, 'e + 'a) prog \<Rightarrow> ('a \<Rightarrow> ('s, 'e + 'b) prog) \<Rightarrow> ('s, 'e + 'b) prog" where
  "bindE m f = bindP m (\<lambda>r. case r of Inl e \<Rightarrow> returnP (Inl e) | Inr a \<Rightarrow> f a)"

text \<open>
  A program with a loop that need not end: \<open>None\<close> is not returning. \<open>bindO\<close> runs a program
  that returns and goes on with one that may not.
\<close>

type_synonym ('s, 'a) oprog = "'s \<Rightarrow> ('a res \<times> 's) option"

definition returnO :: "'a \<Rightarrow> ('s, 'a) oprog" where
  "returnO x s = Some (Val x, s)"

definition liftO :: "('s, 'a) prog \<Rightarrow> ('s, 'a) oprog" where
  "liftO m s = Some (m s)"

definition bindO :: "('s, 'a) prog \<Rightarrow> ('a \<Rightarrow> ('s, 'b) oprog) \<Rightarrow> ('s, 'b) oprog" where
  "bindO m f s = (case m s of (Val x, s') \<Rightarrow> f x s' | (Pan p, s') \<Rightarrow> Some (Pan p, s'))"

definition bindOO :: "('s, 'a) oprog \<Rightarrow> ('a \<Rightarrow> ('s, 'b) oprog) \<Rightarrow> ('s, 'b) oprog" where
  "bindOO m f s =
     (case m s of None \<Rightarrow> None | Some (Val x, s') \<Rightarrow> f x s' | Some (Pan p, s') \<Rightarrow> Some (Pan p, s'))"

lemma bindO_mono [partial_function_mono]:
  assumes "\<And>x s'. mono_option (\<lambda>f. g f x s')"
  shows "mono_option (\<lambda>f. bindO m (g f) s)"
proof (cases "m s")
  case (Pair r s')
  then show ?thesis using assms by (cases r) (simp_all add: bindO_def option.const_mono)
qed

lemmas oprog_defs [prog_simps] = returnO_def liftO_def bindO_def bindOO_def

lemmas prog_defs [prog_simps] =
  returnP_def bindP_def readP_def modifyP_def deferP_def recoverP_def

section \<open>What a program yields\<close>

text \<open>
  \<open>yields m Q s\<close>: the program returns, and its result and state satisfy \<open>Q\<close>. The rules push \<open>Q\<close>
  backwards through a program, one call at a time.
\<close>

definition yields :: "('s, 'a) prog \<Rightarrow> ('a \<Rightarrow> 's \<Rightarrow> bool) \<Rightarrow> 's \<Rightarrow> bool" where
  "yields m Q s \<longleftrightarrow> (case m s of (Val r, s') \<Rightarrow> Q r s' | (Pan p, s') \<Rightarrow> False)"

lemma yields_returnP [simp]: "yields (returnP x) Q s \<longleftrightarrow> Q x s"
  by (simp add: yields_def returnP_def)

lemma yields_bindP [simp]: "yields (bindP m f) Q s \<longleftrightarrow> yields m (\<lambda>r. yields (f r) Q) s"
  by (simp add: yields_def bindP_def split: prod.splits res.splits)

lemma yields_bindE [simp]:
  "yields (bindE m f) Q s \<longleftrightarrow> yields m (\<lambda>r. case r of Inl e \<Rightarrow> Q (Inl e) | Inr a \<Rightarrow> yields (f a) Q) s"
proof -
  have "(\<lambda>r. yields (case r of Inl e \<Rightarrow> returnP (Inl e) | Inr a \<Rightarrow> f a) Q)
      = (\<lambda>r. case r of Inl e \<Rightarrow> Q (Inl e) | Inr a \<Rightarrow> yields (f a) Q)"
    by (intro ext) (simp split: sum.split)
  then show ?thesis by (simp add: bindE_def)
qed

lemma yields_mono: "yields m Q s \<Longrightarrow> (\<And>r s'. Q r s' \<Longrightarrow> R r s') \<Longrightarrow> yields m R s"
  by (auto simp: yields_def split: prod.splits res.splits)

lemma yields_run: "yields m Q s \<Longrightarrow> m s = (r, s') \<Longrightarrow> \<exists>x. r = Val x \<and> Q x s'"
  by (auto simp: yields_def split: res.splits)

section \<open>Contexts and select\<close>

text \<open>
  A \<^verbatim>\<open>context.Context\<close> is what can be read off the world through it: \<open>None\<close> while it is
  live, \<open>Some e\<close> once it is done, with \<open>e\<close> its \<^verbatim>\<open>Err()\<close>. The error type is a parameter here.
\<close>

type_synonym ('s, 'e) context_of = "'s \<Rightarrow> 'e option"

definition WithoutCancel :: "('s, 'e) context_of \<Rightarrow> ('s, 'e) context_of" where
  "WithoutCancel ctx = (\<lambda>_. None)"

text \<open>
  \<open>go_select ready pick\<close> is the case a \<^verbatim>\<open>select\<close> takes when exactly the cases flagged in
  \<open>ready\<close> can proceed: any of them, by the scheduler's \<open>pick\<close>; \<open>None\<close> when it blocks.
\<close>

definition go_select :: "bool list \<Rightarrow> nat \<Rightarrow> nat option" where
  "go_select ready pick =
     (let idx = filter (\<lambda>i. ready ! i) [0..<length ready]
      in if idx = [] then None else Some (idx ! (pick mod length idx)))"

section \<open>Shared lemmas\<close>

lemma wrap64_id [simp]: "MinInt64 \<le> x \<Longrightarrow> x \<le> MaxInt64 \<Longrightarrow> wrap64 x = x"
  by (simp add: wrap64_def)

lemma wrap64_bounds: "MinInt64 \<le> wrap64 x \<and> wrap64 x \<le> MaxInt64"
  by (simp add: wrap64_def)

lemma go_select_ready: "go_select ready pick = Some i \<Longrightarrow> i < length ready \<and> ready ! i"
proof -
  assume a: "go_select ready pick = Some i"
  let ?idx = "filter (\<lambda>i. ready ! i) [0..<length ready]"
  from a have "?idx \<noteq> []" and "i = ?idx ! (pick mod length ?idx)"
    by (auto simp: go_select_def Let_def split: if_splits)
  then have "i \<in> set ?idx" by (metis length_greater_0_conv mod_less_divisor nth_mem)
  then show ?thesis by simp
qed

lemma go_select_None: "go_select ready pick = None \<longleftrightarrow> (\<forall>i < length ready. \<not> ready ! i)"
  by (auto simp: go_select_def Let_def filter_empty_conv)

lemma type_assert_nil [simp]: "type_assert cast GNil = None"
  by (simp add: type_assert_def)

section \<open>Decimal rendering is injective\<close>

definition digits_value :: "string \<Rightarrow> nat" where
  "digits_value cs = foldl (\<lambda>n c. 10 * n + (of_char c - 48)) 0 cs"

lemma digit_char_value: "d < 10 \<Longrightarrow> of_char (digit_char d) - 48 = (d::nat)"
  by (simp add: digit_char_def of_char_of)

lemma digits_value_nat_digits: "digits_value (nat_digits n) = n"
proof (induction n rule: nat_digits.induct)
  case (1 n)
  show ?case
  proof (cases "n < 10")
    case True
    then show ?thesis by (simp add: digits_value_def nat_digits.simps [of n] digit_char_value)
  next
    case False
    with 1 have "digits_value (nat_digits (n div 10)) = n div 10" by simp
    with False show ?thesis
      by (simp add: digits_value_def nat_digits.simps [of n] digit_char_value)
  qed
qed

lemma nat_digits_inj: "nat_digits m = nat_digits n \<longleftrightarrow> m = n"
  by (metis digits_value_nat_digits)

lemma itoa_inj_nonneg: "0 \<le> i \<Longrightarrow> 0 \<le> j \<Longrightarrow> itoa i = itoa j \<longleftrightarrow> i = j"
  by (auto simp: itoa_def nat_digits_inj)

section \<open>Lists and finite maps\<close>

lemma in_set_tlD [dest]: "x \<in> set (tl xs) \<Longrightarrow> x \<in> set xs"
  by (cases xs) auto

lemma card_dom_update: "k \<notin> dom m \<Longrightarrow> finite (dom m) \<Longrightarrow> card (dom (m(k \<mapsto> v))) = Suc (card (dom m))"
  by simp

lemma card_dom_remove:
  assumes "finite (dom m)"
  shows "card (dom m) = card (dom (m(k := None))) + (if m k = None then 0 else 1)"
proof (cases "m k")
  case None
  then have "dom (m(k := None)) = dom m" by auto
  with None show ?thesis by simp
next
  case (Some v)
  then have "k \<in> dom m" by auto
  from card.remove [OF assms this] Some show ?thesis by simp
qed

end
