(* ===== verification/Errors.thy ===== *)
theory Errors
  imports Prelude
begin

text \<open>
  Errors as values (\<^verbatim>\<open>errors.go\<close>, \<^verbatim>\<open>reliability.go\<close>, \<^verbatim>\<open>retry.go\<close>): the package's
  sentinels, the wrapping the code does around them, and the classifiers the runtime
  settles on. A nil error is \<open>None\<close>. \<open>Errorf f args\<close> is the value \<^verbatim>\<open>fmt.Errorf(f, args...)\<close>
  kept unrendered: its \<open>ArgW\<close> arguments are the operands of \<^verbatim>\<open>%w\<close>, and they alone are
  reached by unwrapping. \<open>StatusError\<close> is the HTTP adapter's error for a response status
  (it unwraps to its sentinel) and \<open>UrlError\<close> is \<^verbatim>\<open>*url.Error\<close>, whose \<^verbatim>\<open>Unwrap\<close> is its cause.
  The lemmas show that the classifiers see through every wrapping,
  that a marker survives joining, and which marker wins.
\<close>

section \<open>Sentinels and error values\<close>

text \<open>
  The adapter packages declare sentinels of their own (\<^verbatim>\<open>adapter/http/errors.go\<close>,
  \<^verbatim>\<open>adapter/database/sql/errors.go\<close>, \<^verbatim>\<open>adapter/cron/errors.go\<close>); a name two of those packages
  share carries its package in front.
\<close>

datatype http_sentinel =
    ErrNilTarget | ErrInvalidMaxBodyBytes | ErrInvalidStatusCode | ErrDecodeRequest
  | ErrWriteResponse | ErrUnsupportedPayload | ErrEmptyURL | ErrInvalidURL
  | ErrInvalidMaxResponseBytes | ErrReplyTooLarge | ErrNilResponse | ErrOutboundStatus
  | ErrOutboundTransport | ErrInvalidEventField | ErrEventTooLarge | ErrInvalidMaxEventBytes
  | ErrInvalidMaxConnections | ErrInvalidConnectionBuffer | ErrInvalidSlowClientPolicy
  | ErrInvalidReplayBuffer | ErrInvalidHeartbeat | ErrInvalidWriteTimeout
  | ErrInvalidReconnectBackoff | ErrNotEventStream | ErrInvalidReadTimeout | ErrSSEServerClosed

datatype sql_sentinel =
    ErrInvalidTableName | ErrSchemaNotReady | ErrNilDialect | ErrInvalidLeaseTTL | ErrStaleLease
  | ErrInvalidStrategy | ErrLockStrategyUnsupported | ErrInvalidPayload | ErrNoSharedTransaction
  | ErrNilResolver | ErrNilTx | ErrInvalidRetention | ErrInboxNoUniqueConstraint
  | ErrInboxInsertFailed | ErrMissingMsgID

datatype cron_sentinel =
    ErrInvalidSchedule | ErrNilFactory | ErrConflictingCoordinator | ErrLockerRequiresGridSchedule
  | CronErrNilDialect | CronErrInvalidRetention | ErrLockerClaimFailed | CronErrInvalidLeaseTTL
  | ErrElectorAcquireFailed | CronErrInvalidTableName

datatype sentinel =
    ErrPayloadType | ErrPayloadDecode | ErrNilAdapter | ErrPayloadTooLarge
  | ErrUnexpectedCodec | ErrInvalidConcurrency | ErrUnsupportedSource | ErrHandlerPanic
  | ErrNoDeadLetter | ErrInvalidMaxAttempts | ErrInvalidRetryAfterCap | ErrInvalidRetryBudget
  | ErrUnboundedRetry | ErrRetryBudgetExhausted | ErrInvalidDeadLetterTimeout | ErrDeadLettered
  | ErrInvalidMaxInFlight | ErrInvalidRateLimit | ErrInvalidAttemptTTL | ErrOverflowDropped
  | ErrInvalidPollInterval | ErrInvalidPollMaxBatch | ErrChannelSubscribed | ErrNoSubscriber
  | ErrNilHandler | ErrNilSubscription | ErrSharedReplyChannel | ErrNilSink | ErrNilFunc
  | ErrNoRoute | ErrScheduledSendUnsupported | ErrNilStore | ErrInvalidCapacity
  | ErrNoCorrelation | ErrNilOutput | ErrExpiryChannelRequired | ErrNilMessageGroup
  | ErrGatewayClosed | ErrReplyTimeout | ErrNilExchange | ErrNilChannel
  | ErrInvalidReplyTimeout | ErrDuplicateCorrelation
  | MsgHttp http_sentinel | MsgSql sql_sentinel | MsgCron cron_sentinel

datatype err =
    Sentinel sentinel
  | Canceled
  | DeadlineExceeded
  | Foreign string nat
  | Errorf string "fmt_arg list"
  | Joined "err list"
  | PermanentError err
  | RetryAfterError err duration
  | StatusError int string
  | UrlError string string err
and fmt_arg =
    ArgW err
  | ArgE err
  | ArgS string
  | ArgD int
  | ArgV goval

type_synonym 's ctx = "('s, err) context_of"

text \<open>The nodes \<^verbatim>\<open>errors.Is\<close> and \<^verbatim>\<open>errors.As\<close> visit, in their pre-order.\<close>

fun err_tree :: "err \<Rightarrow> err list" and arg_tree :: "fmt_arg \<Rightarrow> err list" where
  "err_tree (Sentinel s) = [Sentinel s]"
| "err_tree Canceled = [Canceled]"
| "err_tree DeadlineExceeded = [DeadlineExceeded]"
| "err_tree (Foreign t n) = [Foreign t n]"
| "err_tree (Errorf f args) = Errorf f args # concat (map arg_tree args)"
| "err_tree (Joined es) = Joined es # concat (map err_tree es)"
| "err_tree (PermanentError e) = PermanentError e # err_tree e"
| "err_tree (RetryAfterError e d) = RetryAfterError e d # err_tree e"
| "err_tree (StatusError c x) = [StatusError c x, Sentinel (MsgHttp ErrOutboundStatus)]"
| "err_tree (UrlError op u e) = UrlError op u e # err_tree e"
| "arg_tree (ArgW e) = err_tree e"
| "arg_tree (ArgE e) = []"
| "arg_tree (ArgS s) = []"
| "arg_tree (ArgD i) = []"
| "arg_tree (ArgV v) = []"

definition errors_Is :: "err \<Rightarrow> sentinel \<Rightarrow> bool" where
  "errors_Is e t \<longleftrightarrow> Sentinel t \<in> set (err_tree e)"

text \<open>\<^verbatim>\<open>errors.Join\<close> drops nil operands and is nil when all of them are.\<close>

definition errors_Join :: "err option list \<Rightarrow> err option" where
  "errors_Join es =
     (let xs = List.map_filter id es in if xs = [] then None else Some (Joined xs))"

section \<open>Permanent and RetryAfter\<close>

definition Permanent :: "err option \<Rightarrow> err option" where
  "Permanent e = (case e of None \<Rightarrow> None | Some x \<Rightarrow> Some (PermanentError x))"

fun is_permanentError :: "err \<Rightarrow> bool" where
  "is_permanentError (PermanentError e) = True"
| "is_permanentError _ = False"

definition IsPermanent :: "err option \<Rightarrow> bool" where
  "IsPermanent e =
     (case e of
        None \<Rightarrow> False
      | Some x \<Rightarrow>
          (if find is_permanentError (err_tree x) \<noteq> None then True
           else errors_Is x ErrPayloadType \<or> errors_Is x ErrPayloadDecode
                \<or> errors_Is x ErrPayloadTooLarge))"

definition RetryAfter :: "err option \<Rightarrow> duration \<Rightarrow> err option" where
  "RetryAfter e d =
     (case e of
        None \<Rightarrow> None
      | Some x \<Rightarrow> (let d' = (if d < 0 then 0 else d) in Some (RetryAfterError x d')))"

fun retryAfter_delay :: "err \<Rightarrow> duration option" where
  "retryAfter_delay (RetryAfterError e d) = Some d"
| "retryAfter_delay _ = None"

definition RetryAfterOf :: "err option \<Rightarrow> duration option" where
  "RetryAfterOf e =
     (case e of
        None \<Rightarrow> None
      | Some x \<Rightarrow> (case List.map_filter retryAfter_delay (err_tree x) of [] \<Rightarrow> None | d # _ \<Rightarrow> Some d))"

section \<open>Option and range errors\<close>

text \<open>\<^verbatim>\<open>nilOptionAt\<close>, \<^verbatim>\<open>nilFuncAt\<close> and \<^verbatim>\<open>checkRange\<close> have the same body in every package.\<close>

definition nilOptionAt :: "string \<Rightarrow> nat \<Rightarrow> err" where
  "nilOptionAt ctor i =
     Errorf ''%w: %s: nil option at index %d'' [ArgW (Sentinel ErrNilFunc), ArgS ctor, ArgD (int i)]"

definition nilFuncAt :: "string \<Rightarrow> err" where
  "nilFuncAt position = Errorf ''%w: %s'' [ArgW (Sentinel ErrNilFunc), ArgS position]"

definition permanentNilOptionAt :: "string \<Rightarrow> nat \<Rightarrow> err" where
  "permanentNilOptionAt ctor i =
     Errorf ''%w: %s: nil option at index %d''
       [ArgW (PermanentError (Sentinel ErrNilFunc)), ArgS ctor, ArgD (int i)]"

definition checkRange :: "err \<Rightarrow> string \<Rightarrow> int \<Rightarrow> int \<Rightarrow> int \<Rightarrow> err option" where
  "checkRange sentinel site n lo hi =
     (if n \<ge> lo \<and> n \<le> hi then None
      else Some (Errorf ''%w: %s: %d not in [%d, %d]''
                   [ArgW sentinel, ArgS site, ArgD n, ArgD lo, ArgD hi]))"

text \<open>
  The constructors' apply loop: options run in order; a nil element stops it with the
  element's index. \<open>apply_latching\<close> is the variant of the constructors with no error
  return: it latches the first nil and goes on. \<open>nil_option\<close> is the pre-check of a constructor that
  forwards its options to another one: the index of the first nil element.
\<close>

fun apply_opts :: "nat \<Rightarrow> ('c \<Rightarrow> 'c) option list \<Rightarrow> 'c \<Rightarrow> nat + 'c" where
  "apply_opts i [] c = Inr c"
| "apply_opts i (None # os) c = Inl i"
| "apply_opts i (Some f # os) c = apply_opts (Suc i) os (f c)"

fun nil_option :: "nat \<Rightarrow> 'a option list \<Rightarrow> nat option" where
  "nil_option i [] = None"
| "nil_option i (None # os) = Some i"
| "nil_option i (Some f # os) = nil_option (Suc i) os"

fun apply_latching :: "nat \<Rightarrow> ('c \<Rightarrow> 'c) option list \<Rightarrow> 'c \<Rightarrow> nat option \<Rightarrow> 'c \<times> nat option" where
  "apply_latching i [] c l = (c, l)"
| "apply_latching i (None # os) c l = apply_latching (Suc i) os c (if l = None then Some i else l)"
| "apply_latching i (Some f # os) c l = apply_latching (Suc i) os (f c) l"


section \<open>Lemmas\<close>

lemma errors_Is_simps [err_simps, simp]:
  "errors_Is (Sentinel s) t \<longleftrightarrow> s = t"
  "\<not> errors_Is Canceled t"
  "\<not> errors_Is DeadlineExceeded t"
  "\<not> errors_Is (Foreign n i) t"
  "errors_Is (Errorf f args) t \<longleftrightarrow> (\<exists>e. ArgW e \<in> set args \<and> errors_Is e t)"
  "errors_Is (Joined es) t \<longleftrightarrow> (\<exists>e \<in> set es. errors_Is e t)"
  "errors_Is (PermanentError e) t \<longleftrightarrow> errors_Is e t"
  "errors_Is (RetryAfterError e d) t \<longleftrightarrow> errors_Is e t"
  "errors_Is (StatusError c x) t \<longleftrightarrow> t = MsgHttp ErrOutboundStatus"
  "errors_Is (UrlError op u e) t \<longleftrightarrow> errors_Is e t"
proof -
  have "Sentinel t \<in> set (arg_tree a) \<longleftrightarrow> (\<exists>e. a = ArgW e \<and> Sentinel t \<in> set (err_tree e))" for a
    by (cases a) auto
  then show "errors_Is (Errorf f args) t \<longleftrightarrow> (\<exists>e. ArgW e \<in> set args \<and> errors_Is e t)"
    by (auto simp: errors_Is_def)
qed (auto simp: errors_Is_def)

text \<open>Being marked permanent, as a predicate on the tree.\<close>

definition marked_permanent :: "err \<Rightarrow> bool" where
  "marked_permanent e \<longleftrightarrow> (\<exists>x \<in> set (err_tree e). is_permanentError x)"

lemma marked_permanent_simps [err_simps, simp]:
  "\<not> marked_permanent (Sentinel s)"
  "\<not> marked_permanent Canceled"
  "\<not> marked_permanent DeadlineExceeded"
  "\<not> marked_permanent (Foreign n i)"
  "marked_permanent (Errorf f args) \<longleftrightarrow> (\<exists>e. ArgW e \<in> set args \<and> marked_permanent e)"
  "marked_permanent (Joined es) \<longleftrightarrow> (\<exists>e \<in> set es. marked_permanent e)"
  "marked_permanent (PermanentError e)"
  "marked_permanent (RetryAfterError e d) \<longleftrightarrow> marked_permanent e"
  "\<not> marked_permanent (StatusError c x)"
  "marked_permanent (UrlError op u e) \<longleftrightarrow> marked_permanent e"
proof -
  have "(\<exists>x \<in> set (arg_tree a). is_permanentError x) \<longleftrightarrow>
        (\<exists>e. a = ArgW e \<and> (\<exists>x \<in> set (err_tree e). is_permanentError x))" for a
    by (cases a) auto
  then show "marked_permanent (Errorf f args) \<longleftrightarrow> (\<exists>e. ArgW e \<in> set args \<and> marked_permanent e)"
    by (auto simp: marked_permanent_def)
qed (auto simp: marked_permanent_def)

lemma IsPermanent_iff [err_simps]:
  "IsPermanent (Some e) \<longleftrightarrow>
     marked_permanent e \<or> errors_Is e ErrPayloadType \<or> errors_Is e ErrPayloadDecode
     \<or> errors_Is e ErrPayloadTooLarge"
  by (auto simp: IsPermanent_def marked_permanent_def find_None_iff)

lemma IsPermanent_None [simp]: "\<not> IsPermanent None"
  by (simp add: IsPermanent_def)

lemma Permanent_simps [simp]:
  "Permanent None = None"
  "Permanent (Some e) = Some (PermanentError e)"
  by (simp_all add: Permanent_def)

lemma errors_Join_simps [simp]:
  "errors_Join [] = None"
  "errors_Join [Some a, Some b] = Some (Joined [a, b])"
  by (simp_all add: errors_Join_def List.map_filter_simps)

lemma nilOptionAt_simps [err_simps, simp]:
  "errors_Is (nilOptionAt c i) t \<longleftrightarrow> t = ErrNilFunc"
  "errors_Is (nilFuncAt p) t \<longleftrightarrow> t = ErrNilFunc"
  "errors_Is (permanentNilOptionAt c i) t \<longleftrightarrow> t = ErrNilFunc"
  "\<not> marked_permanent (nilOptionAt c i)"
  "\<not> marked_permanent (nilFuncAt p)"
  "marked_permanent (permanentNilOptionAt c i)"
  by (auto simp: nilOptionAt_def nilFuncAt_def permanentNilOptionAt_def)

lemma checkRange_None [simp]: "checkRange e site n lo hi = None \<longleftrightarrow> lo \<le> n \<and> n \<le> hi"
  by (simp add: checkRange_def)

lemma checkRange_Some:
  "checkRange e site n lo hi = Some x \<Longrightarrow> errors_Is x t = errors_Is e t \<and> (n < lo \<or> hi < n)"
  by (auto simp: checkRange_def split: if_splits)

lemma apply_opts_Inl: "apply_opts i os c = Inl j \<Longrightarrow> i \<le> j \<and> j < i + length os \<and> os ! (j - i) = None"
proof (induction i os c rule: apply_opts.induct)
  case (3 i f os c)
  then have "Suc i \<le> j \<and> j < Suc i + length os \<and> os ! (j - Suc i) = None" by simp
  then show ?case by (auto simp: nth_Cons' Suc_diff_le)
qed auto

lemma apply_opts_Inr_all: "apply_opts i os c = Inr c' \<Longrightarrow> None \<notin> set os"
  by (induction i os c rule: apply_opts.induct) auto

lemma apply_latching_None: "snd (apply_latching i os c l) = None \<longleftrightarrow> l = None \<and> None \<notin> set os"
  by (induction i os c l rule: apply_latching.induct) auto

end
