(* ===== verification/Handlers.thy ===== *)
theory Handlers
  imports Message
begin

text \<open>
  The composition core: handlers, steps and chains (\<^verbatim>\<open>handler.go\<close>) and the linear endpoints
  that are steps (\<^verbatim>\<open>transform/transformer.go\<close>, \<^verbatim>\<open>endpoint/activator.go\<close>, \<^verbatim>\<open>routing/filter.go\<close>,
  \<^verbatim>\<open>routing/predicate.go\<close>, \<^verbatim>\<open>routing/router.go\<close>, \<^verbatim>\<open>routing/splitter.go\<close>). A handler is a
  program over an arbitrary world; a value an interface or function type may leave nil is
  an \<open>option\<close>. The lemmas: how a chain composes and where a nil step stops it, the
  behaviour of every endpoint on each branch, the Boolean laws of predicates with their
  errors and effects, and what the splitter stamps on each child.
\<close>

type_synonym 's handler = "'s ctx \<Rightarrow> msg \<Rightarrow> ('s, err option) prog"
type_synonym 's step = "'s handler \<Rightarrow> 's handler"
type_synonym 's channel = "'s ctx \<Rightarrow> msg \<Rightarrow> ('s, err option) prog"

section \<open>handler.go\<close>

definition discardHandler :: "'s handler" where
  "discardHandler ctx m = returnP None"

definition failPermanent :: "sentinel \<Rightarrow> string \<Rightarrow> 's handler" where
  "failPermanent s position ctx m =
     returnP (Some (Errorf ''%w: %s'' [ArgW (PermanentError (Sentinel s)), ArgS position]))"

definition nilFuncStep :: "string \<Rightarrow> 's step" where
  "nilFuncStep position nxt = failPermanent ErrNilFunc position"

definition nilStepPosition :: "nat \<Rightarrow> string" where
  "nilStepPosition i = ''msgin.Chain: nil step at index '' @ itoa (int i)"

fun chain_from :: "nat \<Rightarrow> 's step option list \<Rightarrow> 's handler" where
  "chain_from i [] = discardHandler"
| "chain_from i (s # steps) =
     (let step = (case s of None \<Rightarrow> nilFuncStep (nilStepPosition i) | Some f \<Rightarrow> f)
      in step (chain_from (Suc i) steps))"

definition Chain :: "'s step option list \<Rightarrow> 's handler" where
  "Chain steps = chain_from 0 steps"

definition To :: "'s channel option \<Rightarrow> 's step" where
  "To sink nxt ctx m =
     (case sink of
        None \<Rightarrow> returnP (Some (Errorf ''%w: msgin.To: nil sink'' [ArgW (PermanentError (Sentinel ErrNilSink))]))
      | Some send \<Rightarrow> send ctx m)"

section \<open>Transform, Activate, Consume\<close>

type_synonym ('s, 'a, 'b) transformer = "'s ctx \<Rightarrow> 'a message \<Rightarrow> ('s, err + 'b message) prog"

text \<open>The common body of \<open>Transform\<close> and \<open>Activate\<close>: assert, call, forward the boxed result.\<close>

definition map_step ::
  "string \<Rightarrow> (goval \<Rightarrow> 'a option) \<Rightarrow> ('b \<Rightarrow> goval) \<Rightarrow> ('s, 'a, 'b) transformer option \<Rightarrow> 's step" where
  "map_step position cast box fn =
     (case fn of
        None \<Rightarrow> nilFuncStep position
      | Some f \<Rightarrow> (\<lambda>nxt ctx m.
          (case PayloadOf cast m of
             Inl e \<Rightarrow> returnP (Some e)
           | Inr a \<Rightarrow> bindP (f ctx a) (\<lambda>r.
               (case r of Inl e \<Rightarrow> returnP (Some e) | Inr out \<Rightarrow> nxt ctx (boxMessage box out))))))"

definition Transform ::
  "(goval \<Rightarrow> 'a option) \<Rightarrow> ('b \<Rightarrow> goval) \<Rightarrow> ('s, 'a, 'b) transformer option \<Rightarrow> 's step" where
  "Transform = map_step ''transform.Transform: nil fn''"

definition Activate ::
  "(goval \<Rightarrow> 'a option) \<Rightarrow> ('b \<Rightarrow> goval) \<Rightarrow> ('s, 'a, 'b) transformer option \<Rightarrow> 's step" where
  "Activate = map_step ''endpoint.Activate: nil svc''"

definition Consume ::
  "(goval \<Rightarrow> 'a option) \<Rightarrow> ('s ctx \<Rightarrow> 'a message \<Rightarrow> ('s, err option) prog) option \<Rightarrow> 's step" where
  "Consume cast svc =
     (case svc of
        None \<Rightarrow> nilFuncStep ''endpoint.Consume: nil svc''
      | Some f \<Rightarrow> (\<lambda>nxt ctx m.
          (case PayloadOf cast m of Inl e \<Rightarrow> returnP (Some e) | Inr a \<Rightarrow> f ctx a)))"

section \<open>Predicates and Filter\<close>

type_synonym ('s, 'a) predicate = "'s ctx \<Rightarrow> 'a message \<Rightarrow> ('s, err + bool) prog"

definition nilPredicate :: "string \<Rightarrow> ('s, 'a) predicate" where
  "nilPredicate position ctx m =
     returnP (Inl (Errorf ''%w: %s'' [ArgW (PermanentError (Sentinel ErrNilFunc)), ArgS position]))"

definition Predicate_And :: "('s, 'a) predicate option \<Rightarrow> ('s, 'a) predicate option \<Rightarrow> ('s, 'a) predicate" where
  "Predicate_And p q =
     (case p of None \<Rightarrow> nilPredicate ''routing.Predicate.And: nil receiver''
      | Some p' \<Rightarrow>
        (case q of None \<Rightarrow> nilPredicate ''routing.Predicate.And: nil argument''
         | Some q' \<Rightarrow> (\<lambda>ctx m. bindP (p' ctx m) (\<lambda>r.
             (case r of
                Inl e \<Rightarrow> returnP (Inl e)
              | Inr ok \<Rightarrow> if \<not> ok then returnP (Inr False)
                  else bindP (q' ctx m) (\<lambda>r'. (case r' of Inl e \<Rightarrow> returnP (Inl e) | Inr ok' \<Rightarrow> returnP (Inr ok'))))))))"

definition Predicate_Or :: "('s, 'a) predicate option \<Rightarrow> ('s, 'a) predicate option \<Rightarrow> ('s, 'a) predicate" where
  "Predicate_Or p q =
     (case p of None \<Rightarrow> nilPredicate ''routing.Predicate.Or: nil receiver''
      | Some p' \<Rightarrow>
        (case q of None \<Rightarrow> nilPredicate ''routing.Predicate.Or: nil argument''
         | Some q' \<Rightarrow> (\<lambda>ctx m. bindP (p' ctx m) (\<lambda>r.
             (case r of
                Inl e \<Rightarrow> returnP (Inl e)
              | Inr ok \<Rightarrow> if ok then returnP (Inr True)
                  else bindP (q' ctx m) (\<lambda>r'. (case r' of Inl e \<Rightarrow> returnP (Inl e) | Inr ok' \<Rightarrow> returnP (Inr ok'))))))))"

definition Predicate_Not :: "('s, 'a) predicate option \<Rightarrow> ('s, 'a) predicate" where
  "Predicate_Not p =
     (case p of None \<Rightarrow> nilPredicate ''routing.Predicate.Not: nil receiver''
      | Some p' \<Rightarrow> (\<lambda>ctx m. bindP (p' ctx m) (\<lambda>r.
          (case r of Inl e \<Rightarrow> returnP (Inl e) | Inr ok \<Rightarrow> returnP (Inr (\<not> ok))))))"

record 's filterConfig =
  discard :: "'s channel option"

definition WithDiscardChannel :: "'s channel option \<Rightarrow> 's filterConfig \<Rightarrow> 's filterConfig" where
  "WithDiscardChannel ch c = c\<lparr>discard := ch\<rparr>"

definition Filter ::
  "(goval \<Rightarrow> 'a option) \<Rightarrow> ('s, 'a) predicate option \<Rightarrow> ('s filterConfig \<Rightarrow> 's filterConfig) option list \<Rightarrow> 's step" where
  "Filter cast pred opts =
     (case apply_opts 0 opts \<lparr>discard = None\<rparr> of
        Inl i \<Rightarrow> nilFuncStep (''routing.Filter: nil option at index '' @ itoa (int i))
      | Inr cfg \<Rightarrow>
        (case pred of
           None \<Rightarrow> nilFuncStep ''routing.Filter: nil pred''
         | Some p \<Rightarrow> (\<lambda>nxt ctx m.
             (case PayloadOf cast m of
                Inl e \<Rightarrow> returnP (Some e)
              | Inr a \<Rightarrow> bindP (p ctx a) (\<lambda>r.
                  (case r of
                     Inl e \<Rightarrow> returnP (Some e)
                   | Inr pass \<Rightarrow>
                       if pass then nxt ctx m
                       else (case discard cfg of Some send \<Rightarrow> send ctx m | None \<Rightarrow> returnP None)))))))"

section \<open>Router\<close>

record 's routerConfig =
  defaultCh :: "'s channel option"

type_synonym 's RouteFunc = "'s ctx \<Rightarrow> msg \<Rightarrow> ('s, err + 's channel option) prog"

record 's Router =
  pick :: "'s RouteFunc option"
  router_cfg :: "'s routerConfig"
  router_err :: "err option"

definition WithDefaultChannel :: "'s channel option \<Rightarrow> 's routerConfig \<Rightarrow> 's routerConfig" where
  "WithDefaultChannel ch c = c\<lparr>defaultCh := ch\<rparr>"

definition NewRouter :: "'s RouteFunc option \<Rightarrow> ('s routerConfig \<Rightarrow> 's routerConfig) option list \<Rightarrow> 's Router" where
  "NewRouter p opts =
     (case apply_latching 0 opts \<lparr>defaultCh = None\<rparr> None of
        (cfg, l) \<Rightarrow> \<lparr>pick = p, router_cfg = cfg,
                    router_err = map_option (permanentNilOptionAt ''routing.NewRouter'') l\<rparr>)"

definition Router_Handle :: "'s Router \<Rightarrow> 's handler" where
  "Router_Handle r ctx m =
     (case router_err r of
        Some e \<Rightarrow> returnP (Some e)
      | None \<Rightarrow>
        (case pick r of
           None \<Rightarrow> returnP (Some (Errorf ''%w: routing.Router.Handle: nil pick''
                                   [ArgW (PermanentError (Sentinel ErrNilFunc))]))
         | Some f \<Rightarrow> bindP (f ctx m) (\<lambda>res.
             (case res of
                Inl e \<Rightarrow> returnP (Some e)
              | Inr (Some send) \<Rightarrow> send ctx m
              | Inr None \<Rightarrow>
                  (case defaultCh (router_cfg r) of
                     None \<Rightarrow> returnP (Some (Sentinel ErrNoRoute))
                   | Some send \<Rightarrow> send ctx m)))))"

section \<open>Splitter\<close>

type_synonym ('s, 'a, 'b) SplitFunc = "'s ctx \<Rightarrow> 'a message \<Rightarrow> ('s, err + 'b message list) prog"

definition stampSequence :: "'b message \<Rightarrow> msg \<Rightarrow> int \<Rightarrow> int \<Rightarrow> 'b message" where
  "stampSequence child parent num sz =
     (let out = WithHeader (WithHeader child HeaderSequenceNumber (GInt num)) HeaderSequenceSize (GInt sz);
          pid = ID parent
      in if pid \<noteq> '''' then
           (let out = WithHeader out HeaderMessageID (GString (pid @ ''#'' @ itoa num))
            in (case Header out HeaderCorrelationID of
                  None \<Rightarrow> WithHeader out HeaderCorrelationID (GString pid)
                | Some _ \<Rightarrow> out))
         else out)"

fun forward_children :: "('b \<Rightarrow> goval) \<Rightarrow> 's ctx \<Rightarrow> 's handler \<Rightarrow> msg \<Rightarrow> int \<Rightarrow> int \<Rightarrow> 'b message list \<Rightarrow> ('s, err option) prog" where
  "forward_children box ctx nxt parent n i [] = returnP None"
| "forward_children box ctx nxt parent n i (child # rest) =
     (let stamped = stampSequence child parent (i + 1) n
      in bindP (nxt ctx (boxMessage box stamped)) (\<lambda>e.
           (case e of Some x \<Rightarrow> returnP (Some x)
            | None \<Rightarrow> forward_children box ctx nxt parent n (i + 1) rest)))"

definition forwardSplit :: "('b \<Rightarrow> goval) \<Rightarrow> 's ctx \<Rightarrow> 's handler \<Rightarrow> msg \<Rightarrow> 'b message list \<Rightarrow> ('s, err option) prog" where
  "forwardSplit box ctx nxt parent children =
     forward_children box ctx nxt parent (int (length children)) 0 children"

definition Split :: "(goval \<Rightarrow> 'a option) \<Rightarrow> ('b \<Rightarrow> goval) \<Rightarrow> ('s, 'a, 'b) SplitFunc option \<Rightarrow> 's step" where
  "Split cast box fn =
     (case fn of
        None \<Rightarrow> nilFuncStep ''routing.Split: nil fn''
      | Some f \<Rightarrow> (\<lambda>nxt ctx m.
          (case PayloadOf cast m of
             Inl e \<Rightarrow> returnP (Some e)
           | Inr a \<Rightarrow> bindP (f ctx a) (\<lambda>r.
               (case r of Inl e \<Rightarrow> returnP (Some e) | Inr children \<Rightarrow> forwardSplit box ctx nxt m children)))))"

section \<open>Lemmas: chains and endpoints\<close>

lemma chain_from_somes: "chain_from i (map Some fs) = foldr (\<lambda>f. f) fs discardHandler"
  by (induction fs arbitrary: i) auto

lemma chain_from_nil_step:
  "chain_from i (map Some fs @ None # rest) =
     foldr (\<lambda>f. f) fs (failPermanent ErrNilFunc (nilStepPosition (i + length fs)))"
  by (induction fs arbitrary: i) (auto simp: nilFuncStep_def)

lemma failPermanent_run [simp]:
  "failPermanent s position ctx m w =
     (Val (Some (Errorf ''%w: %s'' [ArgW (PermanentError (Sentinel s)), ArgS position])), w)"
  by (simp add: failPermanent_def returnP_def)

text \<open>
  A chain runs its steps in order, each wrapped around the rest, down to a handler that
  consumes the message; a nil step is not skipped: it stops the chain there with a
  permanent \<open>ErrNilFunc\<close> naming its index, and everything after it is unreachable.
\<close>
theorem chain_composition:
  "Chain (map Some fs) = foldr (\<lambda>f. f) fs discardHandler \<and>
   Chain (map Some fs @ None # rest) =
     foldr (\<lambda>f. f) fs (failPermanent ErrNilFunc (nilStepPosition (length fs)))"
  by (simp add: Chain_def chain_from_somes chain_from_nil_step)

text \<open>
  For predicates that are not nil, \<open>Not\<close>, \<open>And\<close> and \<open>Or\<close> satisfy De Morgan's law as
  programs: the same result, the same error, the same effects and the same
  short-circuiting, whatever the two predicates do.
\<close>
theorem predicate_de_morgan:
  "Predicate_Not (Some (Predicate_And (Some p) (Some q))) =
   Predicate_Or (Some (Predicate_Not (Some p))) (Some (Predicate_Not (Some q)))"
  by (intro ext)
     (auto simp: Predicate_Not_def Predicate_And_def Predicate_Or_def prog_simps
           split: res.splits sum.splits prod.splits if_splits)

lemma Filter_run:
  "apply_opts 0 opts \<lparr>discard = None\<rparr> = Inr cfg \<Longrightarrow> PayloadOf cast m = Inr a \<Longrightarrow>
   p ctx a w = (Val (Inr pass), w') \<Longrightarrow>
   Filter cast (Some p) opts nxt ctx m w =
     (if pass then nxt ctx m w'
      else case discard cfg of Some send \<Rightarrow> send ctx m w' | None \<Rightarrow> (Val None, w'))"
  by (simp add: Filter_def prog_simps split: option.splits)

text \<open>
  A filter never alters and never duplicates a message: with its options and predicate
  in place, a message whose payload has the declared type goes, unchanged, to exactly one
  of the next handler (the predicate holds) and the discard channel (it does not), or is
  consumed where no discard channel is set; a predicate error is returned with neither.
\<close>
theorem filter_routes_once:
  assumes "apply_opts 0 opts \<lparr>discard = None\<rparr> = Inr cfg"
    and "PayloadOf cast m = Inr a"
    and "p ctx a w = (Val r, w')"
  shows "Filter cast (Some p) opts nxt ctx m w =
     (case r of
        Inl e \<Rightarrow> (Val (Some e), w')
      | Inr True \<Rightarrow> nxt ctx m w'
      | Inr False \<Rightarrow> (case discard cfg of Some send \<Rightarrow> send ctx m w' | None \<Rightarrow> (Val None, w')))"
  using assms by (auto simp: Filter_def prog_simps split: option.splits sum.splits bool.splits)

theorem filter_routes_once_witness:
  "Filter as_string (Some (\<lambda>ctx m s. (Val (Inr (payload m = ''keep'')), s + 1))) [Some (WithDiscardChannel None)]
     (\<lambda>ctx m s. (Val None, s + 100)) (\<lambda>_. None) (NewMessage (GString ''keep'') Map.empty) (0::nat) = (Val None, 101)"
  by (subst filter_routes_once [where cfg = "\<lparr>discard = None\<rparr>" and a = "NewMessage ''keep'' Map.empty"
        and r = "Inr True" and w' = 1])
     (simp_all add: WithDiscardChannel_def PayloadOf_def type_assert_def)

text \<open>
  The router's decision: a latched construction error, then a nil pick function, then
  the pick's own error win in that order; a picked channel receives the message; no pick
  falls back to the default channel, and without one the message is \<open>ErrNoRoute\<close>.
  Whenever it sends, it sends the message it was given, once, on one channel.
\<close>
theorem router_decision:
  "Router_Handle (NewRouter (Some f) opts) ctx m w =
     (case router_err (NewRouter (Some f) opts) of
        Some e \<Rightarrow> (Val (Some e), w)
      | None \<Rightarrow>
        (case f ctx m w of
           (Pan v, w') \<Rightarrow> (Pan v, w')
         | (Val (Inl e), w') \<Rightarrow> (Val (Some e), w')
         | (Val (Inr (Some send)), w') \<Rightarrow> send ctx m w'
         | (Val (Inr None), w') \<Rightarrow>
             (case defaultCh (router_cfg (NewRouter (Some f) opts)) of
                None \<Rightarrow> (Val (Some (Sentinel ErrNoRoute)), w')
              | Some send \<Rightarrow> send ctx m w')))
   \<and> (router_err (NewRouter (Some f) opts) = None \<longleftrightarrow> None \<notin> set opts)"
proof -
  have "(router_err (NewRouter (Some f) opts) = None) = (None \<notin> set opts)"
    using apply_latching_None [of 0 opts "\<lparr>defaultCh = None\<rparr>" None]
    by (auto simp: NewRouter_def split: prod.splits)
  moreover have "pick (NewRouter (Some f) opts) = Some f"
    by (simp add: NewRouter_def split: prod.splits)
  ultimately show ?thesis
    by (auto simp: Router_Handle_def prog_simps split: option.splits res.splits sum.splits prod.splits)
qed

section \<open>Lemmas: the splitter\<close>

text \<open>The children a split forwards, in order, and handling a list of messages up to an error.\<close>

definition stamped :: "('b \<Rightarrow> goval) \<Rightarrow> msg \<Rightarrow> int \<Rightarrow> int \<Rightarrow> 'b message list \<Rightarrow> msg list" where
  "stamped box parent n i children =
     map (\<lambda>(k, c). boxMessage box (stampSequence c parent (i + int k + 1) n)) (enumerate 0 children)"

fun handle_all :: "'s ctx \<Rightarrow> 's handler \<Rightarrow> msg list \<Rightarrow> ('s, err option) prog" where
  "handle_all ctx h [] = returnP None"
| "handle_all ctx h (m # ms) =
     bindP (h ctx m) (\<lambda>e. case e of Some x \<Rightarrow> returnP (Some x) | None \<Rightarrow> handle_all ctx h ms)"

lemma length_stamped [simp]: "length (stamped box parent n i cs) = length cs"
  by (simp add: stamped_def)

lemma nth_stamped:
  "k < length cs \<Longrightarrow>
   stamped box parent n i cs ! k = boxMessage box (stampSequence (cs ! k) parent (i + int k + 1) n)"
  by (simp add: stamped_def nth_enumerate_eq)

lemma stamped_Nil [simp]: "stamped box parent n i [] = []"
  by (simp add: stamped_def)

lemma stamped_Cons [simp]:
  "stamped box parent n i (c # cs) =
     boxMessage box (stampSequence c parent (i + 1) n) # stamped box parent n (i + 1) cs"
  by (rule nth_equalityI) (auto simp: nth_stamped nth_Cons algebra_simps split: nat.splits)

lemma forward_children_handle_all:
  "forward_children box ctx nxt parent n i cs = handle_all ctx nxt (stamped box parent n i cs)"
  by (induction cs arbitrary: i) (simp_all add: Let_def)

lemma stampSequence_headers:
  "Header (stampSequence c parent num sz) HeaderSequenceNumber = Some (GInt num)"
  "Header (stampSequence c parent num sz) HeaderSequenceSize = Some (GInt sz)"
  "ID parent \<noteq> '''' \<Longrightarrow> ID (stampSequence c parent num sz) = ID parent @ ''#'' @ itoa num"
  "ID parent \<noteq> '''' \<Longrightarrow>
   Header (stampSequence c parent num sz) HeaderCorrelationID =
     (case Header c HeaderCorrelationID of None \<Rightarrow> Some (GString (ID parent)) | Some v \<Rightarrow> Some v)"
  "payload (stampSequence c parent num sz) = payload c"
  by (auto simp: stampSequence_def Let_def split: option.splits)

lemma stamped_ids_distinct:
  assumes "ID parent \<noteq> ''''" and "0 \<le> i"
  shows "distinct (map ID (stamped box parent n i cs))"
  using assms
  by (auto simp: distinct_conv_nth nth_stamped stampSequence_headers itoa_inj_nonneg)

text \<open>
  Splitting a message whose payload has the declared type hands the next handler the
  split function's children in order, stopping at the first error, and every child that is
  handed on carries its position 1..n, the total n and its own payload; when the parent has
  an id, child ids are the parent's with the position appended, so they are pairwise
  distinct and the same on every redelivery, and a child that brings no correlation id
  gets the parent's id as one.
\<close>
theorem split_stamps_children:
  assumes "PayloadOf cast m = Inr a" and "f ctx a w = (Val (Inr cs), w')"
    and "out = stamped box m (int (length cs)) 0 cs"
  shows "Split cast box (Some f) nxt ctx m w = handle_all ctx nxt out w' \<and>
     length out = length cs \<and>
     (\<forall>k < length cs.
        payload (out ! k) = box (payload (cs ! k)) \<and>
        Header (out ! k) HeaderSequenceNumber = Some (GInt (int k + 1)) \<and>
        Header (out ! k) HeaderSequenceSize = Some (GInt (int (length cs))) \<and>
        (ID m \<noteq> '''' \<longrightarrow>
           ID (out ! k) = ID m @ ''#'' @ itoa (int k + 1) \<and>
           Header (out ! k) HeaderCorrelationID =
             (case Header (cs ! k) HeaderCorrelationID of None \<Rightarrow> Some (GString (ID m)) | Some v \<Rightarrow> Some v))) \<and>
     (ID m \<noteq> '''' \<longrightarrow> distinct (map ID out))"
proof -
  have "Split cast box (Some f) nxt ctx m w = handle_all ctx nxt out w'"
    using assms by (simp add: Split_def prog_simps forwardSplit_def forward_children_handle_all)
  then show ?thesis
    by (simp add: assms(3) nth_stamped stampSequence_headers stamped_ids_distinct)
qed

theorem split_stamps_children_witness:
  "Header (stamped GString (NewMessage (GString ''ab'') [HeaderMessageID \<mapsto> GString ''p'']) 2 0
        [NewMessage ''a'' Map.empty, NewMessage ''b'' Map.empty] ! 1) HeaderSequenceNumber = Some (GInt 2)"
proof -
  let ?m = "NewMessage (GString ''ab'') [HeaderMessageID \<mapsto> GString ''p'']"
  let ?cs = "[NewMessage ''a'' Map.empty, NewMessage ''b'' Map.empty]"
  let ?f = "\<lambda>ctx m s. (Val (Inr ?cs), s)"
  have p: "PayloadOf as_string ?m = Inr (NewMessage ''ab'' (headers ?m))"
    by (simp add: PayloadOf_def)
  have "\<forall>k < 2. Header (stamped GString ?m 2 0 ?cs ! k) HeaderSequenceNumber = Some (GInt (int k + 1))"
    using split_stamps_children [where f = ?f and cs = ?cs and box = GString and w = "0::nat" and w' = 0
        and nxt = discardHandler and ctx = "\<lambda>_. None", OF p _ refl] by simp
  then show ?thesis by (simp del: stamped_Cons add: less_2_cases_iff)
qed

end
