(* ===== verification/Consumer.thy ===== *)
theory Consumer
  imports Handlers
begin

text \<open>
  The consumer runtime (\<^verbatim>\<open>endpoint/consumer.go\<close>, \<^verbatim>\<open>endpoint/attempts.go\<close>, \<^verbatim>\<open>endpoint/credit.go\<close>,
  \<^verbatim>\<open>endpoint/flowcontrol.go\<close>, \<^verbatim>\<open>retry.go\<close>): decoding, the guarded calls, the attempt tracker, the
  credit gate, the settlement switch and the admission of deliveries. The state of a run is
  the tracker's map, the credit gate and everything else (\<open>ext\<close>); handlers, hooks, sinks,
  codecs, settle closures and governors are programs over it that may fail or panic. Logging
  is left out.

  The lemmas: every dispatch settles its delivery exactly once, whatever panics; which
  settlement it is on each branch; when a message is dead-lettered; that credits are
  conserved; and what the attempt tracker counts.
\<close>

section \<open>Policy, hooks and validation\<close>

type_synonym 's OutboundAdapter = "'s channel"
type_synonym 's BackoffStrategy = "int \<Rightarrow> ('s, duration) prog"

record 's RetryPolicy =
  MaxAttempts :: int
  Backoff :: "'s BackoffStrategy option"
  DeadLetter :: "'s OutboundAdapter option"

definition Validate :: "'s RetryPolicy \<Rightarrow> err option" where
  "Validate p =
     (if MaxAttempts p < 0 then Some (Sentinel ErrInvalidMaxAttempts)
      else if MaxAttempts p > 0 \<and> DeadLetter p = None then Some (Sentinel ErrNoDeadLetter)
      else None)"

type_synonym 's hook = "'s ctx \<Rightarrow> msg \<Rightarrow> err option \<Rightarrow> ('s, unit) prog"

record 's Hooks =
  OnRetry :: "'s hook option"
  OnDeadLetter :: "'s hook option"
  OnInvalidMessage :: "'s hook option"
  OnAck :: "'s hook option"

definition retryDelay :: "'s RetryPolicy \<Rightarrow> int \<Rightarrow> ('s, duration) prog" where
  "retryDelay p attempt = (case Backoff p of None \<Rightarrow> returnP 0 | Some delay \<Rightarrow> delay (attempt - 1))"

section \<open>State, deliveries and the attempt tracker\<close>

record attemptEntry =
  count :: int
  lastSeen :: time

text \<open>
  \<open>credits\<close> is the level of the gate's channel, \<open>fired\<close> the deliveries whose once-only release has
  run; \<open>stuck\<close> is set where a receive from an empty gate would block for ever.
\<close>

record 'x cstate =
  tracker :: "string \<rightharpoonup> attemptEntry"
  credits :: nat
  fired :: "nat set"
  stuck :: bool
  ext :: 'x

definition observe :: "time \<Rightarrow> string \<Rightarrow> (string \<rightharpoonup> attemptEntry) \<Rightarrow> (string \<rightharpoonup> attemptEntry) \<times> int" where
  "observe now i m =
     (let e = (case m i of None \<Rightarrow> \<lparr>count = 0, lastSeen = 0\<rparr> | Some x \<Rightarrow> x);
          e' = e\<lparr>count := count e + 1, lastSeen := now\<rparr>
      in (m(i \<mapsto> e'), count e'))"

definition evict :: "string \<Rightarrow> (string \<rightharpoonup> attemptEntry) \<Rightarrow> (string \<rightharpoonup> attemptEntry)" where
  "evict i m = m(i := None)"

definition sweep :: "time \<Rightarrow> duration \<Rightarrow> (string \<rightharpoonup> attemptEntry) \<Rightarrow> (string \<rightharpoonup> attemptEntry)" where
  "sweep now ttl m = (\<lambda>i. case m i of None \<Rightarrow> None | Some e \<Rightarrow> if now - lastSeen e \<ge> ttl then None else Some e)"

record 's Delivery =
  Msg :: msg
  Ack :: "'s ctx \<Rightarrow> ('s, err option) prog"
  Nack :: "'s ctx \<Rightarrow> bool \<Rightarrow> duration \<Rightarrow> ('s, err option) prog"

text \<open>The circuit breaker as the consumer sees it; a wake channel is what tells whether it is closed.\<close>

record 's CircuitBreaker =
  cb_Allow :: "('s, bool) prog"
  cb_Record :: "bool \<Rightarrow> ('s, unit) prog"
  cb_HalfOpen :: "('s, 's \<Rightarrow> bool) prog"
  cb_TryProbe :: "('s, bool) prog option"

text \<open>\<open>cast\<close> is the type assertion to the consumer's payload type, \<open>codec\<close> its \<open>Decode\<close>.\<close>

record ('s, 'a) consumer =
  c_handler :: "'s ctx \<Rightarrow> 'a message \<Rightarrow> ('s, err option) prog"
  c_cast :: "goval \<Rightarrow> 'a option"
  c_codec :: "string \<Rightarrow> ('s, err + 'a) prog"
  liveValue :: bool
  workers :: int
  c_policy :: "'s RetryPolicy"
  invalidSink :: "'s OutboundAdapter option"
  hooks :: "'s Hooks"
  shutdownTimeout :: duration
  c_clock :: "'s \<Rightarrow> time"
  nativeDeadLetter :: bool
  attemptTTL :: duration
  maxInFlight :: int
  rateLimiter :: "('s ctx \<Rightarrow> ('s, err option) prog) option"
  handlerTimeout :: duration
  c_breaker :: "'s CircuitBreaker option"
  c_overflow :: OverflowPolicy
  maxPayloadBytes :: int
  pollInterval :: duration
  pollMaxBatch :: int

section \<open>Guarded calls\<close>

definition safeHandle :: "('s, 'a) consumer \<Rightarrow> 's ctx \<Rightarrow> 'a message \<Rightarrow> ('s, err option) prog" where
  "safeHandle c ctx m =
     recoverP (c_handler c ctx m) (\<lambda>r. Some (Errorf ''%w: %v'' [ArgW (Sentinel ErrHandlerPanic), ArgV r]))"

definition safeSend :: "'s ctx \<Rightarrow> 's OutboundAdapter \<Rightarrow> msg \<Rightarrow> ('s, err option) prog" where
  "safeSend ctx sink m =
     recoverP (sink ctx m) (\<lambda>r. Some (Errorf ''msgin: OutboundAdapter.Send panicked: %v'' [ArgV r]))"

definition safeAck :: "'s ctx \<Rightarrow> 's Delivery \<Rightarrow> ('s, err option) prog" where
  "safeAck ctx d = recoverP (Ack d ctx) (\<lambda>r. Some (Errorf ''msgin: Delivery.Ack panicked: %v'' [ArgV r]))"

definition safeNack :: "'s ctx \<Rightarrow> 's Delivery \<Rightarrow> bool \<Rightarrow> duration \<Rightarrow> ('s, err option) prog" where
  "safeNack ctx d requeue delay =
     recoverP (Nack d ctx requeue delay) (\<lambda>r. Some (Errorf ''msgin: Delivery.Nack panicked: %v'' [ArgV r]))"

definition safeFire :: "'s hook option \<Rightarrow> 's ctx \<Rightarrow> msg \<Rightarrow> err option \<Rightarrow> ('s, unit) prog" where
  "safeFire hook ctx m cause = (case hook of None \<Rightarrow> returnP () | Some h \<Rightarrow> recoverP (h ctx m cause) (\<lambda>_. ()))"

definition safeDecode :: "('s, 'a) consumer \<Rightarrow> string \<Rightarrow> ('s, err + 'a) prog" where
  "safeDecode c b =
     recoverP
       (bindP (c_codec c b) (\<lambda>r.
          (case r of
             Inl e \<Rightarrow> returnP (Inl (Errorf ''%w: %v'' [ArgW (Sentinel ErrPayloadDecode), ArgE e]))
           | Inr v \<Rightarrow> returnP (Inr v))))
       (\<lambda>r. Inl (Errorf ''%w: %v'' [ArgW (Sentinel ErrPayloadDecode), ArgV r]))"

definition decode :: "('s, 'a) consumer \<Rightarrow> msg \<Rightarrow> ('s, err + 'a) prog" where
  "decode c m =
     (if liveValue c then
        (case type_assert (c_cast c) (payload m) of
           None \<Rightarrow> returnP (Inl (Sentinel ErrPayloadType))
         | Some v \<Rightarrow> returnP (Inr v))
      else
        (case type_assert as_bytes (payload m) of
           None \<Rightarrow> returnP (Inl (Sentinel ErrPayloadType))
         | Some b \<Rightarrow>
             if maxPayloadBytes c > 0 \<and> int (length b) > maxPayloadBytes c
             then returnP (Inl (Sentinel ErrPayloadTooLarge)) else safeDecode c b))"

section \<open>The settlement switch\<close>

definition tracker_observe :: "('x cstate, 'a) consumer \<Rightarrow> string \<Rightarrow> ('x cstate, int) prog" where
  "tracker_observe c i s = (case observe (c_clock c s) i (tracker s) of (m, n) \<Rightarrow> (Val n, s\<lparr>tracker := m\<rparr>))"

definition tracker_evict :: "string \<Rightarrow> ('x cstate, unit) prog" where
  "tracker_evict i s = (Val (), s\<lparr>tracker := evict i (tracker s)\<rparr>)"

definition attempts :: "('x cstate, 'a) consumer \<Rightarrow> 'x cstate Delivery \<Rightarrow> ('x cstate, int) prog" where
  "attempts c d =
     (case Headers_Int (headers (Msg d)) HeaderDeliveryCount of
        Some dc \<Rightarrow> returnP dc
      | None \<Rightarrow> tracker_observe c (ID (Msg d)))"

definition invalidTarget :: "('s, 'a) consumer \<Rightarrow> err \<Rightarrow> 's OutboundAdapter option \<times> bool" where
  "invalidTarget c cause =
     (case invalidSink c of
        Some sink \<Rightarrow> (Some sink, False)
      | None \<Rightarrow>
          if errors_Is cause ErrPayloadTooLarge then (None, False)
          else (DeadLetter (c_policy c), DeadLetter (c_policy c) \<noteq> None))"

text \<open>The end of both diverts: the terminal hook, the acknowledgement, whether it worked.\<close>

definition terminal_ack :: "'s ctx \<Rightarrow> 's Delivery \<Rightarrow> 's hook option \<Rightarrow> err option \<Rightarrow> ('s, bool) prog" where
  "terminal_ack ctx d hook hookErr =
     bindP (safeFire hook ctx (Msg d) hookErr) (\<lambda>_.
       bindP (safeAck ctx d) (\<lambda>ackErr. returnP (ackErr = None)))"

definition divertTerminal ::
  "'s ctx \<Rightarrow> 's OutboundAdapter option \<Rightarrow> 's Delivery \<Rightarrow> 's hook option \<Rightarrow> err \<Rightarrow> ('s, bool) prog" where
  "divertTerminal ctx sink d hook cause =
     (case sink of
        None \<Rightarrow> terminal_ack ctx d hook (Some cause)
      | Some out \<Rightarrow> bindP (safeSend ctx out (Msg d)) (\<lambda>sendErr.
          (case sendErr of
             None \<Rightarrow> terminal_ack ctx d hook (Some cause)
           | Some e \<Rightarrow> bindP (readP ctx) (\<lambda>ctxErr.
               if ctxErr \<noteq> None then bindP (safeNack ctx d True 0) (\<lambda>_. returnP False)
               else terminal_ack ctx d hook (errors_Join [Some cause, Some e])))))"

text \<open>\<open>DeadLetter\<close> is called through the interface: a nil one would be a nil dereference, which the
  guarded send turns into an error.\<close>

definition deadLetter_send :: "'s OutboundAdapter option \<Rightarrow> 's OutboundAdapter" where
  "deadLetter_send sink ctx m = (case sink of Some out \<Rightarrow> out ctx m | None \<Rightarrow> (\<lambda>s. (Pan (GValue ''runtime.Error'' 0), s)))"

definition divert ::
  "('s, 'a) consumer \<Rightarrow> 's ctx \<Rightarrow> 's OutboundAdapter option \<Rightarrow> 's Delivery \<Rightarrow> 's hook option \<Rightarrow> err \<Rightarrow> int \<Rightarrow> ('s, bool) prog" where
  "divert c ctx sink d hook cause attempt =
     bindP (safeSend ctx (deadLetter_send sink) (Msg d)) (\<lambda>sendErr.
       if sendErr \<noteq> None then
         bindP (safeFire (OnRetry (hooks c)) ctx (Msg d) (Some cause)) (\<lambda>_.
           bindP (retryDelay (c_policy c) attempt) (\<lambda>delay.
             bindP (safeNack ctx d True delay) (\<lambda>_. returnP False)))
       else terminal_ack ctx d hook (Some cause))"

text \<open>The handler's context: cancelled by its parent, or once the handler timeout has passed.\<close>

definition handlerContext :: "('s, 'a) consumer \<Rightarrow> 's ctx \<Rightarrow> time \<Rightarrow> 's ctx" where
  "handlerContext c parent start =
     (if handlerTimeout c \<le> 0 then parent
      else (\<lambda>s. case parent s of
                 Some e \<Rightarrow> Some e
               | None \<Rightarrow> if c_clock c s - start \<ge> handlerTimeout c then Some Canceled else None))"

definition dispatch_invalid ::
  "('x cstate, 'a) consumer \<Rightarrow> 'x cstate ctx \<Rightarrow> 'x cstate Delivery \<Rightarrow> err \<Rightarrow> ('x cstate, err option) prog" where
  "dispatch_invalid c settleCtx d e =
     bindP (divertTerminal settleCtx (fst (invalidTarget c e)) d (OnInvalidMessage (hooks c)) e) (\<lambda>settled.
       bindP (if settled then tracker_evict (ID (Msg d)) else returnP ()) (\<lambda>_. returnP (Some e)))"

definition dispatch_transient ::
  "('x cstate, 'a) consumer \<Rightarrow> 'x cstate ctx \<Rightarrow> 'x cstate Delivery \<Rightarrow> err \<Rightarrow> ('x cstate, err option) prog" where
  "dispatch_transient c settleCtx d e =
     bindP (attempts c d) (\<lambda>n.
       if MaxAttempts (c_policy c) > 0 \<and> n \<ge> MaxAttempts (c_policy c) \<and> \<not> nativeDeadLetter c then
         bindP (divert c settleCtx (DeadLetter (c_policy c)) d (OnDeadLetter (hooks c)) e n) (\<lambda>settled.
           bindP (if settled then tracker_evict (ID (Msg d)) else returnP ()) (\<lambda>_. returnP (Some e)))
       else
         bindP (safeFire (OnRetry (hooks c)) settleCtx (Msg d) (Some e)) (\<lambda>_.
           bindP (retryDelay (c_policy c) n) (\<lambda>delay.
             bindP (safeNack settleCtx d True delay) (\<lambda>_. returnP (Some e)))))"

definition dispatch_success ::
  "('x cstate, 'a) consumer \<Rightarrow> 'x cstate ctx \<Rightarrow> 'x cstate Delivery \<Rightarrow> ('x cstate, err option) prog" where
  "dispatch_success c settleCtx d =
     bindP (safeAck settleCtx d) (\<lambda>ackErr.
       if ackErr = None then
         bindP (safeFire (OnAck (hooks c)) settleCtx (Msg d) None) (\<lambda>_.
           bindP (tracker_evict (ID (Msg d))) (\<lambda>_. returnP None))
       else returnP None)"

definition dispatch_handled ::
  "('x cstate, 'a) consumer \<Rightarrow> 'x cstate ctx \<Rightarrow> 'x cstate Delivery \<Rightarrow> err option \<Rightarrow> ('x cstate, err option) prog" where
  "dispatch_handled c settleCtx d e =
     (case e of
        None \<Rightarrow> dispatch_success c settleCtx d
      | Some x \<Rightarrow>
          if IsPermanent (Some x) then dispatch_invalid c settleCtx d x else dispatch_transient c settleCtx d x)"

definition dispatch ::
  "('x cstate, 'a) consumer \<Rightarrow> 'x cstate ctx \<Rightarrow> 'x cstate ctx \<Rightarrow> 'x cstate Delivery \<Rightarrow> ('x cstate, err option) prog" where
  "dispatch c ctx settleCtx d =
     bindP (decode c (Msg d)) (\<lambda>r.
       (case r of
          Inl derr \<Rightarrow> dispatch_invalid c settleCtx d derr
        | Inr p \<Rightarrow>
            bindP (readP (c_clock c)) (\<lambda>start.
              bindP (safeHandle c (handlerContext c ctx start) (NewMessage p (headers (Msg d))))
                (dispatch_handled c settleCtx d))))"

section \<open>Credits and managed deliveries\<close>

definition tryAcquire :: "int \<Rightarrow> ('x cstate, bool) prog" where
  "tryAcquire cap s = (if int (credits s) < cap then (Val True, s\<lparr>credits := credits s + 1\<rparr>) else (Val False, s))"

text \<open>\<open>acquire\<close> blocks (\<open>None\<close>) when the gate is full and the context live.\<close>

definition acquire :: "int \<Rightarrow> ('x cstate \<Rightarrow> nat) \<Rightarrow> 'x cstate ctx \<Rightarrow> ('x cstate, err option) oprog" where
  "acquire cap pck ctx s =
     (case go_select [int (credits s) < cap, ctx s \<noteq> None] (pck s) of
        None \<Rightarrow> None
      | Some i \<Rightarrow> if i = 0 then Some (Val None, s\<lparr>credits := credits s + 1\<rparr>) else Some (Val (ctx s), s))"

definition gate_release :: "('x cstate, unit) prog" where
  "gate_release s = (Val (), if credits s > 0 then s\<lparr>credits := credits s - 1\<rparr> else s\<lparr>stuck := True\<rparr>)"

text \<open>\<^verbatim>\<open>sync.OnceFunc(gate.release)\<close> of delivery \<open>i\<close>.\<close>

definition once_release :: "nat \<Rightarrow> ('x cstate, unit) prog" where
  "once_release i s = (if i \<in> fired s then (Val (), s) else gate_release (s\<lparr>fired := insert i (fired s)\<rparr>))"

definition manage :: "'x cstate Delivery \<Rightarrow> nat \<Rightarrow> 'x cstate Delivery" where
  "manage d i =
     d\<lparr>Ack := (\<lambda>ctx. bindP (once_release i) (\<lambda>_. Ack d ctx)),
       Nack := (\<lambda>ctx requeue delay. bindP (once_release i) (\<lambda>_. Nack d ctx requeue delay))\<rparr>"

section \<open>Workers\<close>

definition safeAllow :: "'s CircuitBreaker \<Rightarrow> ('s, bool) prog" where
  "safeAllow b = recoverP (cb_Allow b) (\<lambda>_. True)"

definition safeTryProbe :: "('s, bool) prog \<Rightarrow> ('s, bool) prog" where
  "safeTryProbe probe = recoverP probe (\<lambda>_. True)"

definition safeRecord :: "'s CircuitBreaker \<Rightarrow> bool \<Rightarrow> ('s, unit) prog" where
  "safeRecord b success = recoverP (cb_Record b success) (\<lambda>_. ())"

definition safeHalfOpen :: "'s CircuitBreaker \<Rightarrow> ('s, ('s \<Rightarrow> bool) option) prog" where
  "safeHalfOpen b = recoverP (bindP (cb_HalfOpen b) (\<lambda>ch. returnP (Some ch))) (\<lambda>_. None)"

definition safeLimiterWait :: "('s ctx \<Rightarrow> ('s, err option) prog) \<Rightarrow> 's ctx \<Rightarrow> ('s, err option) prog" where
  "safeLimiterWait wait ctx = recoverP (wait ctx) (\<lambda>_. None)"

definition dispatchAllowed :: "'s CircuitBreaker \<Rightarrow> ('s, bool) prog" where
  "dispatchAllowed b = (case cb_TryProbe b of Some probe \<Rightarrow> safeTryProbe probe | None \<Rightarrow> safeAllow b)"

definition process_body ::
  "('x cstate, 'a) consumer \<Rightarrow> 'x cstate ctx \<Rightarrow> 'x cstate ctx \<Rightarrow> 'x cstate Delivery \<Rightarrow> ('x cstate, unit) prog" where
  "process_body c drainCtx settleCtx md =
     bindP (readP drainCtx) (\<lambda>dead.
       if dead \<noteq> None then bindP (safeNack settleCtx md True 0) (\<lambda>_. returnP ())
       else
         bindP (case c_breaker c of None \<Rightarrow> returnP True | Some b \<Rightarrow> dispatchAllowed b) (\<lambda>allowed.
           if \<not> allowed then bindP (safeNack settleCtx md True 0) (\<lambda>_. returnP ())
           else
             bindP (dispatch c drainCtx settleCtx md) (\<lambda>e.
               (case c_breaker c of
                  None \<Rightarrow> returnP ()
                | Some b \<Rightarrow> safeRecord b (e = None \<or> IsPermanent e)))))"

definition process ::
  "('x cstate, 'a) consumer \<Rightarrow> 'x cstate ctx \<Rightarrow> 'x cstate ctx \<Rightarrow> 'x cstate Delivery \<Rightarrow> nat \<Rightarrow> ('x cstate, unit) prog" where
  "process c drainCtx settleCtx md i = deferP (process_body c drainCtx settleCtx md) (once_release i)"

section \<open>Admission\<close>

text \<open>
  The wait for a breaker to allow: \<open>None\<close> is waiting for ever. \<open>env\<close> is what the world does while
  the select statement waits and \<open>pck\<close> its choice when both cases are ready.
\<close>

partial_function (option) breaker_loop ::
  "'s CircuitBreaker \<Rightarrow> ('s \<Rightarrow> 's) \<Rightarrow> ('s \<Rightarrow> nat) \<Rightarrow> 's ctx \<Rightarrow> ('s, bool) oprog" where
  "breaker_loop b env pck ctx s =
     bindO (safeAllow b) (\<lambda>ok s1.
       if ok then returnO True s1
       else bindO (safeHalfOpen b) (\<lambda>wake s2.
         (case wake of
            None \<Rightarrow> returnO True s2
          | Some woken \<Rightarrow>
              bindO (safeAllow b) (\<lambda>ok' s3.
                if ok' then returnO True s3
                else (case go_select [woken (env s3), ctx (env s3) \<noteq> None] (pck (env s3)) of
                        None \<Rightarrow> None
                      | Some i \<Rightarrow> if i = 0 then breaker_loop b env pck ctx (env s3) else returnO False (env s3))) s2)) s1) s"

definition admitBreaker :: "('s, 'a) consumer \<Rightarrow> ('s \<Rightarrow> 's) \<Rightarrow> ('s \<Rightarrow> nat) \<Rightarrow> 's ctx \<Rightarrow> ('s, bool) oprog" where
  "admitBreaker c env pck ctx =
     (case c_breaker c of None \<Rightarrow> returnO True | Some b \<Rightarrow> breaker_loop b env pck ctx)"

text \<open>
  What becomes of a delivery at admission: whether ingestion goes on, and the managed delivery
  when it was handed to the workers. \<open>out_ready\<close> says whether the worker channel takes it.
\<close>

definition admit_managed ::
  "'x cstate ctx \<Rightarrow> 'x cstate ctx \<Rightarrow> ('x cstate \<Rightarrow> nat) \<Rightarrow> ('x cstate \<Rightarrow> bool) \<Rightarrow> nat \<Rightarrow> 'x cstate Delivery
    \<Rightarrow> ('x cstate, bool \<times> 'x cstate Delivery option) oprog" where
  "admit_managed ctx settleCtx pck out_ready i d s =
     (let md = manage d i
      in (case go_select [out_ready s, ctx s \<noteq> None] (pck s) of
            None \<Rightarrow> None
          | Some k \<Rightarrow> if k = 0 then returnO (True, Some md) s
                      else bindO (safeNack settleCtx md True 0) (\<lambda>_. returnO (False, None)) s))"

definition admit ::
  "('x cstate, 'a) consumer \<Rightarrow> ('x cstate \<Rightarrow> 'x cstate) \<Rightarrow> ('x cstate \<Rightarrow> nat) \<Rightarrow> ('x cstate \<Rightarrow> bool)
    \<Rightarrow> 'x cstate ctx \<Rightarrow> 'x cstate ctx \<Rightarrow> nat \<Rightarrow> 'x cstate Delivery
    \<Rightarrow> ('x cstate, bool \<times> 'x cstate Delivery option) oprog" where
  "admit c env pck out_ready ctx settleCtx i d =
     bindO (case rateLimiter c of None \<Rightarrow> returnP None | Some wait \<Rightarrow> safeLimiterWait wait ctx) (\<lambda>limErr.
       if limErr \<noteq> None then bindO (safeNack settleCtx d True 0) (\<lambda>_. returnO (False, None))
       else bindOO (admitBreaker c env pck ctx) (\<lambda>ok.
         if \<not> ok then bindO (safeNack settleCtx d True 0) (\<lambda>_. returnO (False, None))
         else if sheds (c_overflow c) then
           bindO (tryAcquire (maxInFlight c)) (\<lambda>got.
             if \<not> got then
               bindO (safeFire (OnRetry (hooks c)) settleCtx (Msg d) (Some (Sentinel ErrOverflowDropped))) (\<lambda>_.
                 bindO (safeNack settleCtx d False 0) (\<lambda>_. returnO (True, None)))
             else admit_managed ctx settleCtx pck out_ready i d)
         else
           bindOO (acquire (maxInFlight c) pck ctx) (\<lambda>acqErr.
             if acqErr \<noteq> None then bindO (safeNack settleCtx d True 0) (\<lambda>_. returnO (False, None))
             else admit_managed ctx settleCtx pck out_ready i d)))"

section \<open>Programs that leave an observation alone\<close>

text \<open>
  \<open>keeps f p\<close>: running \<open>p\<close> does not change what \<open>f\<close> reads, panics included. \<open>adds f p\<close>: running
  it adds one. \<open>total p\<close>: it does not panic.
\<close>

definition keeps :: "('s \<Rightarrow> 'v) \<Rightarrow> ('s, 'a) prog \<Rightarrow> bool" where
  "keeps f p \<longleftrightarrow> (\<forall>s. f (snd (p s)) = f s)"

definition adds :: "('s \<Rightarrow> nat) \<Rightarrow> ('s, 'a) prog \<Rightarrow> bool" where
  "adds f p \<longleftrightarrow> (\<forall>s. f (snd (p s)) = Suc (f s))"

definition total :: "('s, 'a) prog \<Rightarrow> bool" where
  "total p \<longleftrightarrow> (\<forall>s. \<exists>x. fst (p s) = Val x)"

named_theorems keeps_intro \<open>programs that leave an observation alone\<close>
named_theorems total_intro \<open>programs that do not panic\<close>

lemma keepsD: "keeps f p \<Longrightarrow> p s = (r, s') \<Longrightarrow> f s' = f s"
  by (metis keeps_def snd_conv)

lemma addsD: "adds f p \<Longrightarrow> p s = (r, s') \<Longrightarrow> f s' = Suc (f s)"
  by (metis adds_def snd_conv)

lemma totalD: "total p \<Longrightarrow> \<exists>x s'. p s = (Val x, s')"
  by (metis total_def prod.collapse)

lemma keeps_basic [keeps_intro]:
  "keeps f (returnP x)" "keeps f (readP g)"
  by (simp_all add: keeps_def prog_simps)

lemma keeps_bindP [keeps_intro]: "keeps f m \<Longrightarrow> (\<And>x. keeps f (g x)) \<Longrightarrow> keeps f (bindP m g)"
  by (auto simp: keeps_def bindP_def split: res.splits prod.splits) (metis snd_conv)+

lemma keeps_recoverP [keeps_intro]: "keeps f m \<Longrightarrow> keeps f (recoverP m h)"
  by (auto simp: keeps_def recoverP_def split: res.splits prod.splits) (metis snd_conv)+

lemma keeps_if [keeps_intro]: "keeps f p \<Longrightarrow> keeps f q \<Longrightarrow> keeps f (if b then p else q)"
  by simp

lemma adds_recoverP: "adds f m \<Longrightarrow> adds f (recoverP m h)"
  by (auto simp: adds_def recoverP_def split: res.splits prod.splits) (metis snd_conv)+

lemma bindP_Val: "m s = (Val x, s') \<Longrightarrow> bindP m g s = g x s'"
  by (simp add: bindP_def)

lemma adds_bindP_left:
  assumes "adds f m" and "total m" and "\<And>x. keeps f (g x)"
  shows "adds f (bindP m g)"
  unfolding adds_def
proof
  fix s
  obtain x t where m: "m s = (Val x, t)" using totalD [OF assms(2)] by blast
  show "f (snd (bindP m g s)) = Suc (f s)"
    using assms(3) [of x] addsD [OF assms(1) m] by (simp add: bindP_Val m keeps_def)
qed

lemma adds_bindP_right:
  assumes "keeps f m" and "total m" and "\<And>x. adds f (g x)"
  shows "adds f (bindP m g)"
  unfolding adds_def
proof
  fix s
  obtain x t where m: "m s = (Val x, t)" using totalD [OF assms(2)] by blast
  show "f (snd (bindP m g s)) = Suc (f s)"
    using assms(3) [of x] keepsD [OF assms(1) m] by (simp add: bindP_Val m adds_def)
qed

lemma adds_if: "(b \<Longrightarrow> adds f p) \<Longrightarrow> (\<not> b \<Longrightarrow> adds f q) \<Longrightarrow> adds f (if b then p else q)"
  by simp

lemma total_basic [total_intro]: "total (returnP x)" "total (readP g)" "total (recoverP m h)"
  by (auto simp: total_def prog_simps split: res.splits prod.splits)

lemma total_bindP [total_intro]:
  assumes "total m" and "\<And>x. total (g x)"
  shows "total (bindP m g)"
  unfolding total_def
proof
  fix s
  obtain x t where m: "m s = (Val x, t)" using totalD [OF assms(1)] by blast
  show "\<exists>y. fst (bindP m g s) = Val y" using assms(2) [of x] by (simp add: bindP_Val m total_def)
qed

lemma total_if [total_intro]: "total p \<Longrightarrow> total q \<Longrightarrow> total (if b then p else q)"
  by simp

lemma total_safe [total_intro]:
  "total (safeHandle c ctx m)" "total (safeSend ctx out x)" "total (safeAck ctx d)"
  "total (safeNack ctx d requeue delay)" "total (safeDecode c b)" "total (safeRecord cb ok)"
  "total (safeAllow cb)" "total (safeTryProbe p)"
  by (simp_all add: safeHandle_def safeSend_def safeAck_def safeNack_def safeDecode_def safeRecord_def
      safeAllow_def safeTryProbe_def total_basic)

lemma total_safeFire [total_intro]: "total (safeFire hook ctx m e)"
  by (cases hook) (simp_all add: safeFire_def total_basic)

lemma total_decode [total_intro]: "total (decode c m)"
  by (auto simp: decode_def split: option.splits intro!: total_intro)

lemma total_tracker [total_intro]: "total (tracker_observe c i)" "total (tracker_evict i)" "total (attempts c d)"
proof -
  show o: "total (tracker_observe c i)" for i by (simp add: total_def tracker_observe_def observe_def Let_def)
  show "total (tracker_evict i)" by (simp add: total_def tracker_evict_def)
  show "total (attempts c d)" using o by (auto simp: attempts_def total_basic split: option.splits)
qed

lemma total_dispatchAllowed [total_intro]: "total (dispatchAllowed b)"
  by (auto simp: dispatchAllowed_def total_safe split: option.splits)

section \<open>Every dispatch settles once\<close>

text \<open>
  \<open>settles f d\<close>: \<open>f\<close> counts the settlements of \<open>d\<close>, each call of \<open>Ack\<close> or \<open>Nack\<close> being one, whatever
  it returns. \<open>bystanders f c\<close>: nothing the consumer calls besides the settle closures changes
  that count (handlers and hooks are not given the delivery).
\<close>

definition settles :: "('s \<Rightarrow> nat) \<Rightarrow> 's Delivery \<Rightarrow> bool" where
  "settles f d \<longleftrightarrow> (\<forall>ctx. adds f (Ack d ctx)) \<and> (\<forall>ctx requeue delay. adds f (Nack d ctx requeue delay))"

definition hook_keeps :: "('s \<Rightarrow> 'v) \<Rightarrow> 's hook option \<Rightarrow> bool" where
  "hook_keeps f h \<longleftrightarrow> (\<forall>g. h = Some g \<longrightarrow> (\<forall>ctx m e. keeps f (g ctx m e)))"

definition sink_keeps :: "('s \<Rightarrow> 'v) \<Rightarrow> 's OutboundAdapter option \<Rightarrow> bool" where
  "sink_keeps f out \<longleftrightarrow> (\<forall>g. out = Some g \<longrightarrow> (\<forall>ctx m. keeps f (g ctx m)))"

definition backoff_ok :: "('s \<Rightarrow> 'v) \<Rightarrow> 's RetryPolicy \<Rightarrow> bool" where
  "backoff_ok f p \<longleftrightarrow> (\<forall>g. Backoff p = Some g \<longrightarrow> (\<forall>n. keeps f (g n) \<and> total (g n)))"

definition bystanders :: "('x cstate \<Rightarrow> 'v) \<Rightarrow> ('x cstate, 'a) consumer \<Rightarrow> bool" where
  "bystanders f c \<longleftrightarrow>
     (\<forall>ctx m. keeps f (c_handler c ctx m)) \<and> (\<forall>b. keeps f (c_codec c b)) \<and>
     hook_keeps f (OnRetry (hooks c)) \<and> hook_keeps f (OnDeadLetter (hooks c)) \<and>
     hook_keeps f (OnInvalidMessage (hooks c)) \<and> hook_keeps f (OnAck (hooks c)) \<and>
     sink_keeps f (invalidSink c) \<and> sink_keeps f (DeadLetter (c_policy c)) \<and> backoff_ok f (c_policy c) \<and>
     (\<forall>b. c_breaker c = Some b \<longrightarrow> keeps f (cb_Allow b) \<and> (\<forall>ok. keeps f (cb_Record b ok)) \<and>
        (\<forall>p. cb_TryProbe b = Some p \<longrightarrow> keeps f p)) \<and>
     (\<forall>s m. f (s\<lparr>tracker := m\<rparr>) = f s)"

lemma keeps_safeFire [keeps_intro]: "hook_keeps f h \<Longrightarrow> keeps f (safeFire h ctx m e)"
  by (cases h) (auto simp: safeFire_def hook_keeps_def intro: keeps_intro)

lemma keeps_safeSend [keeps_intro]: "\<forall>ctx m. keeps f (out ctx m) \<Longrightarrow> keeps f (safeSend ctx out m)"
  by (auto simp: safeSend_def intro: keeps_intro)

lemma keeps_deadLetter: "sink_keeps f out \<Longrightarrow> keeps f (safeSend ctx (deadLetter_send out) m)"
proof (cases out)
  case None
  then show ?thesis by (simp add: safeSend_def deadLetter_send_def keeps_def recoverP_def)
qed (auto simp: safeSend_def deadLetter_send_def sink_keeps_def intro!: keeps_intro)

lemma keeps_retryDelay [keeps_intro]: "backoff_ok f p \<Longrightarrow> keeps f (retryDelay p n)"
  by (cases "Backoff p") (auto simp: retryDelay_def backoff_ok_def keeps_basic)

lemma total_retryDelay: "backoff_ok f p \<Longrightarrow> total (retryDelay p n)"
  by (cases "Backoff p") (auto simp: retryDelay_def backoff_ok_def total_basic)

lemma keeps_decode [keeps_intro]: "(\<forall>b. keeps f (c_codec c b)) \<Longrightarrow> keeps f (decode c m)"
  by (auto simp: decode_def safeDecode_def split: option.splits sum.splits intro!: keeps_intro)

lemma keeps_safeHandle [keeps_intro]: "(\<forall>ctx m. keeps f (c_handler c ctx m)) \<Longrightarrow> keeps f (safeHandle c ctx m)"
  by (auto simp: safeHandle_def intro: keeps_intro)

lemma keeps_tracker:
  assumes "\<forall>s m. f (s\<lparr>tracker := m\<rparr>) = f s"
  shows "keeps f (tracker_evict i)" "keeps f (attempts c d)"
  using assms
  by (auto simp: keeps_def tracker_evict_def attempts_def tracker_observe_def prog_simps split: option.splits prod.splits)

lemma adds_safe: "settles f d \<Longrightarrow> adds f (safeAck ctx d)" "settles f d \<Longrightarrow> adds f (safeNack ctx d requeue delay)"
  by (auto simp: settles_def safeAck_def safeNack_def intro: adds_recoverP)

lemma adds_terminal_ack: "settles f d \<Longrightarrow> hook_keeps f h \<Longrightarrow> adds f (terminal_ack ctx d h e)"
  unfolding terminal_ack_def
  by (intro adds_bindP_right adds_bindP_left keeps_intro total_intro adds_safe)

lemma adds_nack_then: "settles f d \<Longrightarrow> (\<And>x. keeps f (g x)) \<Longrightarrow> adds f (bindP (safeNack ctx d requeue delay) g)"
  by (intro adds_bindP_left adds_safe total_intro)

lemma adds_divertTerminal:
  assumes "settles f d" and "hook_keeps f h" and "sink_keeps f out"
  shows "adds f (divertTerminal ctx out d h cause)"
proof (cases out)
  case (Some g)
  then have k: "keeps f (safeSend ctx g (Msg d))" using assms(3) by (auto simp: sink_keeps_def intro: keeps_intro)
  have t: "adds f (terminal_ack ctx d h e)" for e using assms(1,2) by (rule adds_terminal_ack)
  have n: "adds f (bindP (safeNack ctx d True 0) (\<lambda>_. returnP False))"
    using assms(1) by (intro adds_nack_then keeps_intro)
  have "adds f (case sendErr of None \<Rightarrow> terminal_ack ctx d h (Some cause)
       | Some e \<Rightarrow> bindP (readP ctx) (\<lambda>ctxErr.
           if ctxErr \<noteq> None then bindP (safeNack ctx d True 0) (\<lambda>_. returnP False)
           else terminal_ack ctx d h (errors_Join [Some cause, Some e])))" for sendErr
    using t n by (cases sendErr) (auto intro!: adds_bindP_right keeps_intro total_intro)
  then show ?thesis
    unfolding divertTerminal_def Some option.case by (intro adds_bindP_right k total_intro)
qed (simp add: divertTerminal_def adds_terminal_ack assms)

lemma adds_divert:
  assumes "settles f d" and "hook_keeps f h" and "sink_keeps f out" and "hook_keeps f (OnRetry (hooks c))"
    and "backoff_ok f (c_policy c)"
  shows "adds f (divert c ctx out d h cause n)"
  unfolding divert_def
  by (intro adds_bindP_right adds_if adds_nack_then keeps_deadLetter keeps_intro total_intro
      adds_terminal_ack total_retryDelay [OF assms(5)] assms)

lemma total_divertTerminal [total_intro]: "total (divertTerminal ctx out d h cause)"
  by (cases out) (auto simp: divertTerminal_def terminal_ack_def split: option.splits intro!: total_intro)

lemma total_divert: "backoff_ok f (c_policy c) \<Longrightarrow> total (divert c ctx out d h cause n)"
  unfolding divert_def terminal_ack_def by (intro total_intro total_retryDelay)

lemma adds_dispatch_invalid:
  assumes "settles f d" and "bystanders f c"
  shows "adds f (dispatch_invalid c settleCtx d e)"
proof -
  have "sink_keeps f (fst (invalidTarget c e))" using assms(2) by (auto simp: invalidTarget_def bystanders_def sink_keeps_def split: option.splits)
  then have "adds f (divertTerminal settleCtx (fst (invalidTarget c e)) d (OnInvalidMessage (hooks c)) e)"
    using assms by (intro adds_divertTerminal) (auto simp: bystanders_def)
  moreover have "keeps f (tracker_evict (ID (Msg d)))" using assms(2) by (intro keeps_tracker) (simp add: bystanders_def)
  ultimately show ?thesis
    unfolding dispatch_invalid_def by (intro adds_bindP_left keeps_intro total_intro)
qed

lemma adds_dispatch_transient:
  assumes "settles f d" and "bystanders f c"
  shows "adds f (dispatch_transient c settleCtx d e)"
proof -
  have b: "backoff_ok f (c_policy c)" and h: "hook_keeps f (OnRetry (hooks c))" "hook_keeps f (OnDeadLetter (hooks c))"
    and s: "sink_keeps f (DeadLetter (c_policy c))" and t: "\<forall>s m. f (s\<lparr>tracker := m\<rparr>) = f s"
    using assms(2) by (simp_all add: bystanders_def)
  show ?thesis
    unfolding dispatch_transient_def
    by (intro adds_bindP_right [OF keeps_tracker(2) [OF t] total_tracker(3)] adds_if)
       (intro adds_bindP_left adds_divert total_divert [OF b] keeps_intro keeps_tracker(1) assms(1) h s b t,
        intro adds_bindP_right adds_nack_then keeps_intro total_intro total_retryDelay [OF b] assms(1) h b)
qed

lemma adds_dispatch:
  assumes "settles f d" and "bystanders f c"
  shows "adds f (dispatch c ctx settleCtx d)"
proof -
  have b: "\<forall>ctx m. keeps f (c_handler c ctx m)" "\<forall>b. keeps f (c_codec c b)" "hook_keeps f (OnAck (hooks c))"
    "\<forall>s m. f (s\<lparr>tracker := m\<rparr>) = f s" using assms(2) by (simp_all add: bystanders_def)
  have "adds f (dispatch_success c settleCtx d)"
    unfolding dispatch_success_def
    by (intro adds_bindP_left adds_safe keeps_intro keeps_tracker total_intro assms b)
  then have handled: "adds f (dispatch_handled c settleCtx d e)" for e
    using adds_dispatch_invalid [OF assms] adds_dispatch_transient [OF assms]
    by (cases e) (auto simp: dispatch_handled_def)
  have "adds f (case r of Inl derr \<Rightarrow> dispatch_invalid c settleCtx d derr
      | Inr p \<Rightarrow> bindP (readP (c_clock c)) (\<lambda>start.
          bindP (safeHandle c (handlerContext c ctx start) (NewMessage p (headers (Msg d)))) (dispatch_handled c settleCtx d)))" for r
    using handled adds_dispatch_invalid [OF assms]
    by (cases r) (auto intro!: adds_bindP_right keeps_intro total_intro b)
  then show ?thesis
    unfolding dispatch_def by (intro adds_bindP_right [OF keeps_decode [OF b(2)] total_decode])
qed

lemma total_dispatch:
  assumes "backoff_ok f (c_policy c)"
  shows "total (dispatch c ctx settleCtx d)"
proof -
  have i: "total (dispatch_invalid c settleCtx d e)" for e
    unfolding dispatch_invalid_def by (intro total_intro)
  have t: "total (dispatch_transient c settleCtx d e)" for e
    unfolding dispatch_transient_def by (intro total_intro total_divert [OF assms] total_retryDelay [OF assms])
  have "total (dispatch_success c settleCtx d)"
    unfolding dispatch_success_def by (intro total_intro)
  with i t have h: "total (dispatch_handled c settleCtx d e)" for e
    by (cases e) (auto simp: dispatch_handled_def)
  have "total (case r of Inl derr \<Rightarrow> dispatch_invalid c settleCtx d derr
      | Inr p \<Rightarrow> bindP (readP (c_clock c)) (\<lambda>start.
          bindP (safeHandle c (handlerContext c ctx start) (NewMessage p (headers (Msg d)))) (dispatch_handled c settleCtx d)))" for r
    using i h by (cases r) (auto intro!: total_intro)
  then show ?thesis unfolding dispatch_def by (intro total_intro)
qed

text \<open>
  C1. Every dispatch settles its delivery exactly once. Whatever the codec, the handler, the
  hooks, the sinks and the settle closures do, errors and panics included, a dispatch
  returns without a panic, and in the course of it exactly one of the delivery's \<open>Ack\<close> and
  \<open>Nack\<close> is called, once: never both, never none. The backoff strategy is assumed to return;
  it alone is called unguarded.
\<close>
theorem dispatch_settles_once:
  assumes "settles f d" and "bystanders f c"
  shows "f (snd (dispatch c ctx settleCtx d s)) = Suc (f s) \<and> (\<exists>e. fst (dispatch c ctx settleCtx d s) = Val e)"
proof -
  have "backoff_ok f (c_policy c)" using assms(2) by (simp add: bystanders_def)
  then show ?thesis
    using adds_dispatch [OF assms, of ctx settleCtx] total_dispatch [of f c ctx settleCtx d]
    unfolding adds_def total_def by blast
qed

section \<open>Credits\<close>

definition preserves :: "('s \<Rightarrow> bool) \<Rightarrow> ('s, 'a) prog \<Rightarrow> bool" where
  "preserves Q p \<longleftrightarrow> (\<forall>s. Q s \<longrightarrow> Q (snd (p s)))"

named_theorems preserves_intro \<open>programs that keep a predicate true\<close>

lemma preserves_basic [preserves_intro]: "preserves Q (returnP x)" "preserves Q (readP g)"
  by (simp_all add: preserves_def prog_simps)

lemma preserves_bindP [preserves_intro]: "preserves Q m \<Longrightarrow> (\<And>x. preserves Q (g x)) \<Longrightarrow> preserves Q (bindP m g)"
  by (auto simp: preserves_def bindP_def split: res.splits prod.splits)

lemma preserves_recoverP [preserves_intro]: "preserves Q m \<Longrightarrow> preserves Q (recoverP m h)"
  by (auto simp: preserves_def recoverP_def split: res.splits prod.splits)

lemma preserves_if [preserves_intro]: "preserves Q p \<Longrightarrow> preserves Q q \<Longrightarrow> preserves Q (if b then p else q)"
  by simp

lemma preserves_option [preserves_intro]:
  "preserves Q p \<Longrightarrow> (\<And>x. preserves Q (q x)) \<Longrightarrow> preserves Q (case v of None \<Rightarrow> p | Some x \<Rightarrow> q x)"
  by (cases v) auto

lemma preserves_sum [preserves_intro]:
  "(\<And>x. preserves Q (p x)) \<Longrightarrow> (\<And>x. preserves Q (q x)) \<Longrightarrow> preserves Q (case v of Inl x \<Rightarrow> p x | Inr x \<Rightarrow> q x)"
  by (cases v) auto

definition hook_preserves :: "('s \<Rightarrow> bool) \<Rightarrow> 's hook option \<Rightarrow> bool" where
  "hook_preserves Q h \<longleftrightarrow> (\<forall>g. h = Some g \<longrightarrow> (\<forall>ctx m e. preserves Q (g ctx m e)))"

definition sink_preserves :: "('s \<Rightarrow> bool) \<Rightarrow> 's OutboundAdapter option \<Rightarrow> bool" where
  "sink_preserves Q out \<longleftrightarrow> (\<forall>g. out = Some g \<longrightarrow> (\<forall>ctx m. preserves Q (g ctx m)))"

text \<open>Everything the consumer calls keeps \<open>Q\<close> true: the caller's functions, the breaker, the tracker.\<close>

definition callees_preserve :: "('x cstate \<Rightarrow> bool) \<Rightarrow> ('x cstate, 'a) consumer \<Rightarrow> bool" where
  "callees_preserve Q c \<longleftrightarrow>
     (\<forall>ctx m. preserves Q (c_handler c ctx m)) \<and> (\<forall>b. preserves Q (c_codec c b)) \<and>
     hook_preserves Q (OnRetry (hooks c)) \<and> hook_preserves Q (OnDeadLetter (hooks c)) \<and>
     hook_preserves Q (OnInvalidMessage (hooks c)) \<and> hook_preserves Q (OnAck (hooks c)) \<and>
     sink_preserves Q (invalidSink c) \<and> sink_preserves Q (DeadLetter (c_policy c)) \<and>
     (\<forall>g. Backoff (c_policy c) = Some g \<longrightarrow> (\<forall>n. preserves Q (g n))) \<and>
     (\<forall>b. c_breaker c = Some b \<longrightarrow> preserves Q (cb_Allow b) \<and> (\<forall>ok. preserves Q (cb_Record b ok)) \<and>
        (\<forall>p. cb_TryProbe b = Some p \<longrightarrow> preserves Q p)) \<and>
     (\<forall>s m. Q s \<longrightarrow> Q (s\<lparr>tracker := m\<rparr>))"

definition delivery_preserves :: "('s \<Rightarrow> bool) \<Rightarrow> 's Delivery \<Rightarrow> bool" where
  "delivery_preserves Q d \<longleftrightarrow> (\<forall>ctx. preserves Q (Ack d ctx)) \<and> (\<forall>ctx requeue delay. preserves Q (Nack d ctx requeue delay))"

lemma preserves_safe [preserves_intro]:
  "delivery_preserves Q d \<Longrightarrow> preserves Q (safeAck ctx d)"
  "delivery_preserves Q d \<Longrightarrow> preserves Q (safeNack ctx d requeue delay)"
  "\<forall>ctx m. preserves Q (c_handler c ctx m) \<Longrightarrow> preserves Q (safeHandle c ctx m')"
  "\<forall>b. preserves Q (c_codec c b) \<Longrightarrow> preserves Q (safeDecode c bs)"
  by (auto simp: safeAck_def safeNack_def safeHandle_def safeDecode_def delivery_preserves_def
      intro!: preserves_intro)

lemma preserves_safeFire [preserves_intro]: "hook_preserves Q h \<Longrightarrow> preserves Q (safeFire h ctx m e)"
  by (cases h) (auto simp: safeFire_def hook_preserves_def intro!: preserves_intro)

lemma preserves_send: "sink_preserves Q (Some out) \<Longrightarrow> preserves Q (safeSend ctx out m)"
  by (auto simp: safeSend_def sink_preserves_def intro: preserves_intro)

lemma preserves_deadLetter: "sink_preserves Q out \<Longrightarrow> preserves Q (safeSend ctx (deadLetter_send out) m)"
proof (cases out)
  case None
  then show ?thesis by (simp add: safeSend_def deadLetter_send_def preserves_def recoverP_def)
qed (auto simp: safeSend_def deadLetter_send_def sink_preserves_def intro!: preserves_intro)

lemma preserves_terminal_ack [preserves_intro]:
  "delivery_preserves Q d \<Longrightarrow> hook_preserves Q h \<Longrightarrow> preserves Q (terminal_ack ctx d h e)"
  unfolding terminal_ack_def by (intro preserves_intro)

lemma preserves_dispatch:
  assumes c: "callees_preserve Q c" and d: "delivery_preserves Q d"
  shows "preserves Q (dispatch c ctx settleCtx d)"
proof -
  have h: "hook_preserves Q (OnRetry (hooks c))" "hook_preserves Q (OnDeadLetter (hooks c))"
    "hook_preserves Q (OnInvalidMessage (hooks c))" "hook_preserves Q (OnAck (hooks c))"
    and s: "sink_preserves Q (invalidSink c)" "sink_preserves Q (DeadLetter (c_policy c))"
    and u: "\<forall>ctx m. preserves Q (c_handler c ctx m)" "\<forall>b. preserves Q (c_codec c b)"
    using c by (simp_all add: callees_preserve_def)
  have e: "preserves Q (tracker_evict i)" "preserves Q (tracker_observe c i)" for i
    using c by (auto simp: callees_preserve_def preserves_def tracker_evict_def tracker_observe_def split: prod.splits)
  have r: "preserves Q (retryDelay (c_policy c) n)" for n
    using c by (auto simp: retryDelay_def callees_preserve_def split: option.splits intro: preserves_intro)
  have t: "sink_preserves Q (fst (invalidTarget c x))" for x
    using s by (auto simp: invalidTarget_def sink_preserves_def split: option.splits)
  have dt: "preserves Q (divertTerminal settleCtx (fst (invalidTarget c x)) d (OnInvalidMessage (hooks c)) x)" for x
    using t [of x] by (cases "fst (invalidTarget c x)")
      (auto simp: divertTerminal_def intro!: preserves_intro preserves_send h d)
  have i: "preserves Q (dispatch_invalid c settleCtx d x)" for x
    unfolding dispatch_invalid_def by (intro preserves_intro dt e)
  have f: "preserves Q (dispatch_transient c settleCtx d x)" for x
    unfolding dispatch_transient_def attempts_def divert_def
    by (intro preserves_intro preserves_deadLetter e r h s d)
  have "preserves Q (dispatch_success c settleCtx d)"
    unfolding dispatch_success_def by (intro preserves_intro e h d)
  with i f have "preserves Q (dispatch_handled c settleCtx d x)" for x
    by (cases x) (auto simp: dispatch_handled_def)
  then show ?thesis
    unfolding dispatch_def decode_def by (intro preserves_intro i u)
qed

text \<open>What the credit gate is made of; and that it has \<open>n\<close> credits when delivery \<open>i\<close>'s is counted.\<close>

definition gate :: "'x cstate \<Rightarrow> nat \<times> nat set \<times> bool" where
  "gate s = (credits s, fired s, stuck s)"

definition credit_held :: "nat \<Rightarrow> nat \<Rightarrow> nat set \<Rightarrow> nat \<times> nat set \<times> bool \<Rightarrow> bool" where
  "credit_held i n F g \<longleftrightarrow> (case g of (cr, fd, st) \<Rightarrow>
     \<not> st \<and> (fd = F \<and> i \<notin> F \<and> cr = Suc n \<or> fd = insert i F \<and> cr = n))"

lemma keeps_preserves: "keeps g p \<Longrightarrow> preserves (\<lambda>s. R (g s)) p"
  by (simp add: keeps_def preserves_def)

lemma hook_sink_preserves:
  "hook_keeps g h \<Longrightarrow> hook_preserves (\<lambda>s. R (g s)) h" "sink_keeps g out \<Longrightarrow> sink_preserves (\<lambda>s. R (g s)) out"
  by (auto simp: hook_keeps_def hook_preserves_def sink_keeps_def sink_preserves_def intro: keeps_preserves)

lemma bystanders_preserve: "bystanders g c \<Longrightarrow> callees_preserve (\<lambda>s. R (g s)) c"
  by (simp add: bystanders_def callees_preserve_def hook_sink_preserves keeps_preserves backoff_ok_def)

lemma preserves_once_release: "preserves (\<lambda>s. credit_held i n F (gate s)) (once_release i)"
  by (auto simp: preserves_def once_release_def gate_release_def credit_held_def gate_def)

lemma once_release_fires: "i \<in> fired (snd (once_release i s))"
  by (simp add: once_release_def gate_release_def)

lemma preserves_manage:
  assumes "\<forall>ctx. keeps gate (Ack d ctx)" and "\<forall>ctx requeue delay. keeps gate (Nack d ctx requeue delay)"
  shows "delivery_preserves (\<lambda>s. credit_held i n F (gate s)) (manage d i)"
proof -
  have "preserves (\<lambda>s. credit_held i n F (gate s)) (Ack d ctx)"
    "preserves (\<lambda>s. credit_held i n F (gate s)) (Nack d ctx requeue delay)" for ctx requeue delay
    using assms by (auto intro: keeps_preserves)
  then show ?thesis
    by (auto simp: delivery_preserves_def manage_def intro!: preserves_bindP preserves_once_release)
qed

lemma settles_manage:
  assumes "settles f d" and "f = (\<lambda>s. g (ext s))"
  shows "settles f (manage d i)"
proof -
  have k: "keeps f (once_release i)"
    using assms(2) by (auto simp: keeps_def once_release_def gate_release_def)
  have t: "total (once_release i)" by (auto simp: total_def once_release_def gate_release_def)
  show ?thesis
    using assms(1) by (auto simp: settles_def manage_def intro!: adds_bindP_right k t)
qed

lemma adds_process_body:
  assumes "settles f md" and "bystanders f c"
  shows "adds f (process_body c drainCtx settleCtx md)"
proof -
  have br: "keeps f (case c_breaker c of None \<Rightarrow> returnP True | Some b \<Rightarrow> dispatchAllowed b)"
    using assms(2)
    by (auto simp: bystanders_def dispatchAllowed_def safeTryProbe_def safeAllow_def split: option.splits intro!: keeps_intro)
  have brt: "total (case c_breaker c of None \<Rightarrow> returnP True | Some b \<Rightarrow> dispatchAllowed b)"
    by (auto split: option.splits intro!: total_intro)
  have rec: "keeps f (case c_breaker c of None \<Rightarrow> returnP () | Some b \<Rightarrow> safeRecord b ok)" for ok
    using assms(2) by (auto simp: bystanders_def safeRecord_def split: option.splits intro!: keeps_intro)
  have td: "total (dispatch c drainCtx settleCtx md)"
    using total_dispatch [of f c] assms(2) by (simp add: bystanders_def)
  show ?thesis
    unfolding process_body_def
    by (intro adds_bindP_right [OF keeps_basic(2) total_basic(2)] adds_if adds_nack_then assms(1) keeps_basic
        adds_bindP_right [OF br brt] adds_bindP_left [OF adds_dispatch [OF assms] td rec])
qed

lemma total_process_body: "backoff_ok f (c_policy c) \<Longrightarrow> total (process_body c drainCtx settleCtx md)"
proof -
  assume b: "backoff_ok f (c_policy c)"
  have "total (case c_breaker c of None \<Rightarrow> returnP True | Some b \<Rightarrow> dispatchAllowed b)"
    "total (case c_breaker c of None \<Rightarrow> returnP () | Some b \<Rightarrow> safeRecord b ok)" for ok
    by (auto split: option.splits intro!: total_intro)
  then show ?thesis unfolding process_body_def by (intro total_intro total_dispatch [OF b])
qed

lemma preserves_process_body:
  assumes c: "callees_preserve Q c" and d: "delivery_preserves Q md"
  shows "preserves Q (process_body c drainCtx settleCtx md)"
proof -
  have br: "preserves Q (case c_breaker c of None \<Rightarrow> returnP True | Some b \<Rightarrow> dispatchAllowed b)"
    using c by (auto simp: callees_preserve_def dispatchAllowed_def safeTryProbe_def safeAllow_def
        split: option.splits intro!: preserves_intro)
  have rec: "preserves Q (case c_breaker c of None \<Rightarrow> returnP () | Some b \<Rightarrow> safeRecord b ok)" for ok
    using c by (auto simp: callees_preserve_def safeRecord_def split: option.splits intro!: preserves_intro)
  show ?thesis
    unfolding process_body_def
    by (intro preserves_intro preserves_dispatch [OF c d] br rec d)
qed

text \<open>
  C2. A worker frees what it was given. Processing an admitted delivery, on every path (shut
  down, refused by the breaker, decoded or not, handled, failed, panicked), calls exactly
  one of its settle closures exactly once, returns normally, and gives its credit back
  exactly once: the gate's level is one less than before, the release never blocks, and a
  late second release is a no-op.
\<close>
theorem process_settles_and_frees:
  assumes "settles f d" and "bystanders f c" and "f = (\<lambda>s. g (ext s))"
    and "bystanders gate c" and "\<forall>ctx. keeps gate (Ack d ctx)" and "\<forall>ctx requeue delay. keeps gate (Nack d ctx requeue delay)"
    and "i \<notin> fired s" and "credits s = Suc n" and "\<not> stuck s"
    and "process c drainCtx settleCtx (manage d i) i s = (r, s')"
  shows "r = Val () \<and> f s' = Suc (f s) \<and> credits s' = n \<and> fired s' = insert i (fired s) \<and> \<not> stuck s' \<and>
     once_release i s' = (Val (), s')"
proof -
  obtain r1 s1 where b: "process_body c drainCtx settleCtx (manage d i) s = (r1, s1)" by fastforce
  have bo: "backoff_ok f (c_policy c)" using assms(2) by (simp add: bystanders_def)
  from totalD [OF total_process_body [OF bo], of drainCtx settleCtx "manage d i" s] b
  have r1: "r1 = Val ()" by auto
  have f1: "f s1 = Suc (f s)"
    using addsD [OF adds_process_body [OF settles_manage [OF assms(1,3)] assms(2)] b] .
  have s': "s' = snd (once_release i s1)" "r = Val ()"
    using assms(10) b r1 by (auto simp: process_def deferP_def once_release_def gate_release_def split: if_splits)
  have "credit_held i n (fired s) (gate s)" using assms(7,8,9) by (simp add: credit_held_def gate_def)
  then have "credit_held i n (fired s) (gate s1)"
    using preserves_process_body [OF bystanders_preserve [OF assms(4)] preserves_manage [OF assms(5,6)]] b
    unfolding preserves_def by (metis snd_conv)
  then have h: "credit_held i n (fired s) (gate s')"
    using preserves_once_release unfolding preserves_def s' by blast
  have fi: "i \<in> fired s'" using once_release_fires s' by simp
  have "ext s' = ext s1" unfolding s' by (simp add: once_release_def gate_release_def)
  then have "f s' = f s1" using assms(3) by simp
  moreover have "credits s' = n \<and> fired s' = insert i (fired s) \<and> \<not> stuck s'"
    using h fi assms(7) by (auto simp: credit_held_def gate_def)
  ultimately show ?thesis using f1 s'(2) fi by (simp add: once_release_def)
qed

section \<open>Poison messages\<close>

definition tracked :: "(string \<rightharpoonup> attemptEntry) \<Rightarrow> string \<Rightarrow> int" where
  "tracked m i = (case m i of None \<Rightarrow> 0 | Some e \<Rightarrow> count e)"

lemma observe_tracked: "observe now i m = (m', n) \<Longrightarrow> n = tracked m i + 1 \<and> tracked m' i = n \<and> (\<forall>j. j \<noteq> i \<longrightarrow> m' j = m j)"
  by (auto simp: observe_def tracked_def Let_def split: option.splits)

lemma evict_tracked [simp]: "tracked (evict i m) i = 0" "evict i m i = None"
  by (simp_all add: tracked_def evict_def)

text \<open>
  A poison message: it decodes, its handler always fails with the same transient error, it
  carries no delivery count, acknowledgements and the dead-letter sink work, and nobody but the
  consumer touches the attempt tracker. \<open>nk\<close> counts negative acknowledgements with requeue, \<open>ak\<close>
  acknowledgements, \<open>dl\<close> sends to the dead-letter sink.
\<close>

definition poison ::
  "('x cstate \<Rightarrow> nat) \<Rightarrow> ('x cstate \<Rightarrow> nat) \<Rightarrow> ('x cstate \<Rightarrow> nat) \<Rightarrow> ('x cstate, 'a) consumer \<Rightarrow> 'x cstate Delivery \<Rightarrow> 'a \<Rightarrow> err \<Rightarrow> bool" where
  "poison nk ak dl c d p e \<longleftrightarrow>
     (let obs = (\<lambda>s. (tracker s, nk s, ak s, dl s)) in
       (\<forall>s. decode c (Msg d) s = (Val (Inr p), s)) \<and> Headers_Int (headers (Msg d)) HeaderDeliveryCount = None \<and>
       \<not> IsPermanent (Some e) \<and> (\<forall>ctx m s. fst (c_handler c ctx m s) = Val (Some e)) \<and>
       (\<forall>ctx m. keeps obs (c_handler c ctx m)) \<and>
       hook_keeps obs (OnRetry (hooks c)) \<and> hook_keeps obs (OnDeadLetter (hooks c)) \<and> backoff_ok obs (c_policy c) \<and>
       (\<forall>ctx del. adds nk (Nack d ctx True del) \<and> keeps (\<lambda>s. (tracker s, ak s, dl s)) (Nack d ctx True del)) \<and>
       (\<forall>ctx del. keeps obs (Nack d ctx False del)) \<and>
       (\<forall>ctx. adds ak (Ack d ctx) \<and> keeps (\<lambda>s. (tracker s, nk s, dl s)) (Ack d ctx) \<and> (\<forall>s. fst (Ack d ctx s) = Val None)) \<and>
       (\<exists>out. DeadLetter (c_policy c) = Some out \<and>
          (\<forall>ctx m. adds dl (out ctx m) \<and> keeps (\<lambda>s. (tracker s, nk s, ak s)) (out ctx m) \<and> (\<forall>s. fst (out ctx m s) = Val None))) \<and>
       (\<forall>s m. nk (s\<lparr>tracker := m\<rparr>) = nk s \<and> ak (s\<lparr>tracker := m\<rparr>) = ak s \<and> dl (s\<lparr>tracker := m\<rparr>) = dl s))"

lemma poison_transient:
  assumes p: "poison nk ak dl c d p e"
  shows "\<exists>s1. dispatch c ctx settleCtx d s = dispatch_transient c settleCtx d e s1 \<and>
     tracker s1 = tracker s \<and> nk s1 = nk s \<and> ak s1 = ak s \<and> dl s1 = dl s"
proof -
  let ?h = "c_handler c (handlerContext c ctx (c_clock c s)) (NewMessage p (headers (Msg d)))"
  have "fst (?h s) = Val (Some e)" using p by (simp add: poison_def Let_def)
  then obtain s1 where h: "?h s = (Val (Some e), s1)" by (metis prod.collapse)
  have "keeps (\<lambda>s. (tracker s, nk s, ak s, dl s)) ?h" using p by (simp add: poison_def Let_def)
  from keepsD [OF this h] have obs: "(tracker s1, nk s1, ak s1, dl s1) = (tracker s, nk s, ak s, dl s)" .
  have sh: "safeHandle c (handlerContext c ctx (c_clock c s)) (NewMessage p (headers (Msg d))) s = (Val (Some e), s1)"
    using h by (simp add: safeHandle_def recoverP_def)
  have dec: "decode c (Msg d) s = (Val (Inr p), s)" and np: "\<not> IsPermanent (Some e)" using p by (simp_all add: poison_def Let_def)
  have "dispatch c ctx settleCtx d s = dispatch_transient c settleCtx d e s1"
    by (simp add: dispatch_def bindP_def dec readP_def sh dispatch_handled_def np)
  with obs show ?thesis by auto
qed

lemma poison_attempt:
  assumes p: "poison nk ak dl c d p e"
  shows "\<exists>s2. attempts c d s1 = (Val (tracked (tracker s1) (ID (Msg d)) + 1), s2) \<and>
     tracked (tracker s2) (ID (Msg d)) = tracked (tracker s1) (ID (Msg d)) + 1 \<and> nk s2 = nk s1 \<and> ak s2 = ak s1 \<and> dl s2 = dl s1"
proof -
  obtain m n where o: "observe (c_clock c s1) (ID (Msg d)) (tracker s1) = (m, n)" by fastforce
  with observe_tracked [OF o] p show ?thesis
    by (auto simp: attempts_def tracker_observe_def poison_def Let_def)
qed

lemma poison_retry:
  assumes p: "poison nk ak dl c d p e" and lt: "tracked (tracker s) (ID (Msg d)) + 1 < MaxAttempts (c_policy c)"
    and r: "dispatch c ctx settleCtx d s = (r, s')"
  shows "tracked (tracker s') (ID (Msg d)) = tracked (tracker s) (ID (Msg d)) + 1 \<and> nk s' = Suc (nk s) \<and> ak s' = ak s \<and> dl s' = dl s"
proof -
  let ?obs = "\<lambda>s. (tracker s, nk s, ak s, dl s)"
  obtain s1 where d1: "dispatch c ctx settleCtx d s = dispatch_transient c settleCtx d e s1"
    and o1: "tracker s1 = tracker s" "nk s1 = nk s" "ak s1 = ak s" "dl s1 = dl s" using poison_transient [OF p] by blast
  obtain s2 where a: "attempts c d s1 = (Val (tracked (tracker s1) (ID (Msg d)) + 1), s2)"
    and o2: "tracked (tracker s2) (ID (Msg d)) = tracked (tracker s1) (ID (Msg d)) + 1" "nk s2 = nk s1" "ak s2 = ak s1" "dl s2 = dl s1"
    using poison_attempt [OF p] by blast
  let ?n = "tracked (tracker s1) (ID (Msg d)) + 1"
  obtain s3 where f: "safeFire (OnRetry (hooks c)) settleCtx (Msg d) (Some e) s2 = (Val (), s3)"
    using totalD [OF total_safeFire] by (metis old.unit.exhaust)
  have bo: "backoff_ok ?obs (c_policy c)" and hk: "hook_keeps ?obs (OnRetry (hooks c))" using p by (simp_all add: poison_def Let_def)
  obtain del s4 where rd: "retryDelay (c_policy c) ?n s3 = (Val del, s4)" using totalD [OF total_retryDelay [OF bo]] by blast
  have "total (safeNack settleCtx d True del)" by (rule total_intro)
  from totalD [OF this, of s4] obtain ne s5 where nk: "safeNack settleCtx d True del s4 = (Val ne, s5)" by blast
  have "s' = s5" using r d1 a f rd nk lt o1 by (simp add: dispatch_transient_def prog_simps)
  moreover have "?obs s4 = ?obs s2"
    using keepsD [OF keeps_safeFire [OF hk] f] keepsD [OF keeps_retryDelay [OF bo] rd] by simp
  moreover have an: "adds nk (safeNack settleCtx d True del)"
    and kn: "keeps (\<lambda>s. (tracker s, ak s, dl s)) (safeNack settleCtx d True del)"
    using p by (auto simp: poison_def Let_def safeNack_def intro: adds_recoverP keeps_recoverP)
  ultimately show ?thesis
    using addsD [OF an nk] keepsD [OF kn nk] o1 o2 by simp
qed

lemma poison_dead:
  assumes p: "poison nk ak dl c d p e" and ge: "tracked (tracker s) (ID (Msg d)) + 1 \<ge> MaxAttempts (c_policy c)"
    and pos: "MaxAttempts (c_policy c) > 0" and nat: "\<not> nativeDeadLetter c"
    and r: "dispatch c ctx settleCtx d s = (r, s')"
  shows "tracker s' (ID (Msg d)) = None \<and> nk s' = nk s \<and> ak s' = Suc (ak s) \<and> dl s' = Suc (dl s)"
proof -
  let ?obs = "\<lambda>s. (tracker s, nk s, ak s, dl s)"
  obtain s1 where d1: "dispatch c ctx settleCtx d s = dispatch_transient c settleCtx d e s1"
    and o1: "tracker s1 = tracker s" "nk s1 = nk s" "ak s1 = ak s" "dl s1 = dl s" using poison_transient [OF p] by blast
  obtain s2 where a: "attempts c d s1 = (Val (tracked (tracker s1) (ID (Msg d)) + 1), s2)"
    and o2: "nk s2 = nk s1" "ak s2 = ak s1" "dl s2 = dl s1" using poison_attempt [OF p] by blast
  obtain out where out: "DeadLetter (c_policy c) = Some out"
    and outs: "\<And>ctx m. adds dl (out ctx m)" "\<And>ctx m. keeps (\<lambda>s. (tracker s, nk s, ak s)) (out ctx m)" "\<And>ctx m s. fst (out ctx m s) = Val None"
    using p by (auto simp: poison_def Let_def)
  obtain s3 where se: "out settleCtx (Msg d) s2 = (Val None, s3)" using outs(3) by (metis prod.collapse)
  obtain s4 where f: "safeFire (OnDeadLetter (hooks c)) settleCtx (Msg d) (Some e) s3 = (Val (), s4)"
    using totalD [OF total_safeFire] by (metis old.unit.exhaust)
  have "fst (Ack d settleCtx s4) = Val None" using p by (simp add: poison_def Let_def)
  then obtain s5 where sa: "Ack d settleCtx s4 = (Val None, s5)" by (metis prod.collapse)
  have hk: "hook_keeps ?obs (OnDeadLetter (hooks c))" and ka: "adds ak (Ack d settleCtx)" "keeps (\<lambda>s. (tracker s, nk s, dl s)) (Ack d settleCtx)"
    using p by (simp_all add: poison_def Let_def)
  have "s' = s5\<lparr>tracker := evict (ID (Msg d)) (tracker s5)\<rparr>"
    using r d1 a se f sa ge pos nat o1 out
    by (simp add: dispatch_transient_def divert_def deadLetter_send_def safeSend_def terminal_ack_def safeAck_def
        tracker_evict_def prog_simps)
  moreover have "tracker s5 = tracker s3" "nk s5 = nk s3" "ak s5 = Suc (ak s3)" "dl s5 = dl s3"
    using keepsD [OF keeps_safeFire [OF hk] f] addsD [OF ka(1) sa] keepsD [OF ka(2) sa] by simp_all
  moreover have "dl s3 = Suc (dl s2)" "nk s3 = nk s2" "ak s3 = ak s2" using addsD [OF outs(1) se] keepsD [OF outs(2) se] by simp_all
  ultimately show ?thesis using p o1 o2 by (simp add: poison_def Let_def)
qed

text \<open>
  C33. A poison message is retried exactly up to its limit. The message carries no delivery count, so the
  consumer's tracker counts, and the tracker is not swept between the deliveries; the dead-letter sink is the
  consumer's own (the source has none), and it and the acknowledgement work. Then, with \<open>MaxAttempts\<close> set to
  \<open>k + 1\<close> and a handler that fails each time with a transient error, the first \<open>k\<close> deliveries are each
  negatively acknowledged with requeue, once, none of them is acknowledged or reaches the dead-letter sink; the
  next one goes to the dead-letter sink, once, is acknowledged, once, is not requeued, and the tracker forgets the
  message.
\<close>
theorem poison_dead_lettered_at_limit:
  assumes "poison nk ak dl c d p e" and "MaxAttempts (c_policy c) = int (Suc k)" and "\<not> nativeDeadLetter c"
    and "tracker s (ID (Msg d)) = None"
  shows "(\<forall>j \<le> k. let s' = ((\<lambda>s. snd (dispatch c ctx settleCtx d s)) ^^ j) s
        in nk s' = nk s + j \<and> ak s' = ak s \<and> dl s' = dl s) \<and>
     (let s' = ((\<lambda>s. snd (dispatch c ctx settleCtx d s)) ^^ Suc k) s
      in nk s' = nk s + k \<and> ak s' = Suc (ak s) \<and> dl s' = Suc (dl s) \<and> tracker s' (ID (Msg d)) = None)"
proof -
  let ?F = "\<lambda>s. snd (dispatch c ctx settleCtx d s)"
  have step: "tracked (tracker ((?F ^^ j) s)) (ID (Msg d)) = int j \<and> nk ((?F ^^ j) s) = nk s + j \<and> ak ((?F ^^ j) s) = ak s \<and> dl ((?F ^^ j) s) = dl s"
    if "j \<le> k" for j
    using that
  proof (induction j)
    case 0
    then show ?case using assms(4) by (simp add: tracked_def)
  next
    case (Suc j)
    let ?s = "(?F ^^ j) s"
    from Suc have ih: "tracked (tracker ?s) (ID (Msg d)) = int j" "nk ?s = nk s + j" "ak ?s = ak s" "dl ?s = dl s" by auto
    obtain r s' where d: "dispatch c ctx settleCtx d ?s = (r, s')" by fastforce
    have "tracked (tracker ?s) (ID (Msg d)) + 1 < MaxAttempts (c_policy c)" using ih assms(2) Suc.prems by simp
    from poison_retry [OF assms(1) this d] ih d show ?case by simp
  qed
  let ?s = "(?F ^^ k) s"
  obtain r s' where d: "dispatch c ctx settleCtx d ?s = (r, s')" by fastforce
  have "tracked (tracker ?s) (ID (Msg d)) + 1 \<ge> MaxAttempts (c_policy c)" "MaxAttempts (c_policy c) > 0"
    using step [of k] assms(2) by auto
  from poison_dead [OF assms(1) this assms(3) d] step [of k] d step show ?thesis by (simp add: Let_def)
qed

text \<open>A consumer and a delivery that log their calls, for use at concrete inputs.\<close>

definition demo_log :: "string \<Rightarrow> (string list cstate, err option) prog" where
  "demo_log what s = (Val None, s\<lparr>ext := what # ext s\<rparr>)"

definition demo_delivery :: "string list cstate Delivery" where
  "demo_delivery =
     \<lparr>Msg = NewMessage (GString ''p'') [HeaderMessageID \<mapsto> GString ''m''],
      Ack = (\<lambda>ctx. demo_log ''ack''), Nack = (\<lambda>ctx requeue delay. demo_log ''nack'')\<rparr>"

definition demo_consumer :: "int \<Rightarrow> err option \<Rightarrow> (string list cstate, string) consumer" where
  "demo_consumer mx result =
     \<lparr>c_handler = (\<lambda>ctx m. returnP result), c_cast = as_string, c_codec = (\<lambda>b. returnP (Inr b)), liveValue = True,
      workers = 1, c_policy = \<lparr>MaxAttempts = mx, Backoff = None, DeadLetter = Some (\<lambda>ctx m. demo_log ''dlq'')\<rparr>,
      invalidSink = None, hooks = \<lparr>OnRetry = None, OnDeadLetter = None, OnInvalidMessage = None, OnAck = None\<rparr>,
      shutdownTimeout = 0, c_clock = (\<lambda>_. 0), nativeDeadLetter = False, attemptTTL = 5 * Minute, maxInFlight = 4,
      rateLimiter = None, handlerTimeout = 0, c_breaker = None, c_overflow = OverflowBlock, maxPayloadBytes = 0,
      pollInterval = Second, pollMaxBatch = 100\<rparr>"

definition demo_state0 :: "string list cstate" where
  "demo_state0 = \<lparr>tracker = Map.empty, credits = 1, fired = {}, stuck = False, ext = []\<rparr>"

definition logged :: "string list \<Rightarrow> string list cstate \<Rightarrow> nat" where
  "logged whats s = length (filter (\<lambda>x. x \<in> set whats) (ext s))"

lemma demo_log_logged:
  "what \<in> set whats \<Longrightarrow> adds (logged whats) (demo_log what)"
  "what \<notin> set whats \<Longrightarrow> keeps (logged whats) (demo_log what)"
  "keeps gate (demo_log what)" "keeps tracker (demo_log what)"
  by (auto simp: adds_def keeps_def demo_log_def logged_def gate_def)

lemma demo_settles: "settles (logged [''ack'', ''nack'']) demo_delivery"
  by (simp add: settles_def demo_delivery_def demo_log_logged)

lemma demo_bystanders: "bystanders (logged [''ack'', ''nack'']) (demo_consumer mx r)" "bystanders gate (demo_consumer mx r)"
  by (auto simp: bystanders_def demo_consumer_def hook_keeps_def sink_keeps_def backoff_ok_def keeps_basic demo_log_logged
      logged_def gate_def)

text \<open>The same delivery, with the two ways to give it back told apart.\<close>

definition demo_requeue :: "string list cstate Delivery" where
  "demo_requeue = demo_delivery\<lparr>Nack := \<lambda>ctx requeue delay. demo_log (if requeue then ''nack'' else ''drop'')\<rparr>"

lemma demo_poison:
  "poison (logged [''nack'']) (logged [''ack'']) (logged [''dlq'']) (demo_consumer mx (Some (Foreign ''e'' 0))) demo_requeue ''p'' (Foreign ''e'' 0)"
  by (auto simp: poison_def Let_def demo_consumer_def demo_requeue_def demo_delivery_def decode_def returnP_def Headers_Int_def
      IsPermanent_iff hook_keeps_def backoff_ok_def demo_log_def adds_def keeps_def logged_def type_assert_def)

theorem dispatch_settles_once_witness:
  "logged [''ack'', ''nack''] (snd (dispatch (demo_consumer 1 None) (\<lambda>_. None) (\<lambda>_. None) demo_delivery demo_state0)) = 1"
  using dispatch_settles_once [OF demo_settles demo_bystanders(1), of 1 None "\<lambda>_. None" "\<lambda>_. None" demo_state0]
  by (simp add: logged_def demo_state0_def)

theorem process_settles_and_frees_witness:
  "credits (snd (process (demo_consumer 1 None) (\<lambda>_. None) (\<lambda>_. None) (manage demo_delivery 7) 7 demo_state0)) = 0"
proof -
  obtain r s' where p: "process (demo_consumer 1 None) (\<lambda>_. None) (\<lambda>_. None) (manage demo_delivery 7) 7 demo_state0 = (r, s')"
    by fastforce
  have g: "logged [''ack'', ''nack''] = (\<lambda>s. length (filter (\<lambda>x. x \<in> set [''ack'', ''nack'']) (ext s)))"
    by (simp add: logged_def fun_eq_iff)
  have k: "\<forall>ctx. keeps gate (Ack demo_delivery ctx)" "\<forall>ctx requeue delay. keeps gate (Nack demo_delivery ctx requeue delay)"
    by (simp_all add: demo_delivery_def demo_log_logged)
  have i: "7 \<notin> fired demo_state0" "credits demo_state0 = Suc 0" "\<not> stuck demo_state0" by (simp_all add: demo_state0_def)
  from process_settles_and_frees [OF demo_settles demo_bystanders(1) g demo_bystanders(2) k i p] p
  show ?thesis by simp
qed

theorem poison_dead_lettered_at_limit_witness:
  "logged [''dlq''] (((\<lambda>s. snd (dispatch (demo_consumer 3 (Some (Foreign ''e'' 0))) (\<lambda>_. None) (\<lambda>_. None) demo_requeue s)) ^^ 3) demo_state0) = 1"
proof -
  have m: "MaxAttempts (c_policy (demo_consumer 3 (Some (Foreign ''e'' 0)))) = int (Suc 2)"
    "\<not> nativeDeadLetter (demo_consumer 3 (Some (Foreign ''e'' 0)))" by (simp_all add: demo_consumer_def)
  have t: "tracker demo_state0 (ID (Msg demo_requeue)) = None" "logged [''dlq''] demo_state0 = 0"
    by (simp_all add: demo_state0_def logged_def)
  from poison_dead_lettered_at_limit [OF demo_poison m t(1), of "\<lambda>_. None" "\<lambda>_. None"] t(2)
  show ?thesis unfolding Let_def by (simp only: eval_nat_numeral)
qed

section \<open>A slow poison message\<close>

text \<open>
  The tracker forgets a message that is retried slowly. If, between any two deliveries of a
  poison message, the periodic sweep runs at least \<open>attemptTTL\<close> after the failed attempt (the
  redelivery delay or the handler takes that long), every delivery counts as the first one:
  for every number of rounds and every \<open>MaxAttempts\<close> above one, the message is negatively
  acknowledged each time and never reaches the dead-letter sink.
\<close>
theorem slow_poison_never_dead_lettered:
  assumes "poison nk ak dl c d p e" and "MaxAttempts (c_policy c) > 1"
    and "tracker s (ID (Msg d)) = None"
    and "\<And>t en. tracker t (ID (Msg d)) = Some en \<Longrightarrow> now t - lastSeen en \<ge> attemptTTL c"
  shows "nk (((\<lambda>s. let s1 = snd (dispatch c ctx settleCtx d s)
                  in s1\<lparr>tracker := sweep (now s1) (attemptTTL c) (tracker s1)\<rparr>) ^^ j) s) = nk s + j \<and>
     dl (((\<lambda>s. let s1 = snd (dispatch c ctx settleCtx d s)
                  in s1\<lparr>tracker := sweep (now s1) (attemptTTL c) (tracker s1)\<rparr>) ^^ j) s) = dl s"
proof -
  let ?F = "\<lambda>s. let s1 = snd (dispatch c ctx settleCtx d s) in s1\<lparr>tracker := sweep (now s1) (attemptTTL c) (tracker s1)\<rparr>"
  have "nk ((?F ^^ j) s) = nk s + j \<and> dl ((?F ^^ j) s) = dl s \<and> tracker ((?F ^^ j) s) (ID (Msg d)) = None"
  proof (induction j)
    case 0
    then show ?case using assms(3) by simp
  next
    case (Suc j)
    let ?s = "(?F ^^ j) s"
    obtain r s1 where d: "dispatch c ctx settleCtx d ?s = (r, s1)" by fastforce
    have "tracked (tracker ?s) (ID (Msg d)) + 1 < MaxAttempts (c_policy c)"
      using Suc.IH assms(2) by (simp add: tracked_def)
    note one = poison_retry [OF assms(1) this d]
    have gone: "sweep (now s1) (attemptTTL c) (tracker s1) (ID (Msg d)) = None"
      using assms(4) [of s1] by (auto simp: sweep_def split: option.splits)
    have keep: "nk (s1\<lparr>tracker := m\<rparr>) = nk s1 \<and> dl (s1\<lparr>tracker := m\<rparr>) = dl s1" for m
      using assms(1) by (simp add: poison_def Let_def)
    have step: "(?F ^^ Suc j) s = s1\<lparr>tracker := sweep (now s1) (attemptTTL c) (tracker s1)\<rparr>" using d by simp
    show ?case unfolding step using one Suc.IH gone keep by simp
  qed
  then show ?thesis by blast
qed

theorem slow_poison_never_dead_lettered_witness:
  "logged [''dlq''] (((\<lambda>s. let s1 = snd (dispatch (demo_consumer 2 (Some (Foreign ''e'' 0))) (\<lambda>_. None) (\<lambda>_. None) demo_requeue s)
      in s1\<lparr>tracker := sweep (case tracker s1 ''m'' of None \<Rightarrow> 0 | Some en \<Rightarrow> lastSeen en + 5 * Minute) (5 * Minute) (tracker s1)\<rparr>) ^^ 9) demo_state0) = 0"
proof -
  let ?c = "demo_consumer 2 (Some (Foreign ''e'' 0))"
  let ?now = "\<lambda>s1. case tracker s1 ''m'' of None \<Rightarrow> 0 | Some en \<Rightarrow> lastSeen en + 5 * Minute"
  have i: "ID (Msg demo_requeue) = ''m''" by (simp add: demo_requeue_def demo_delivery_def ID_def Headers_String_def)
  have m: "MaxAttempts (c_policy ?c) > 1" "attemptTTL ?c = 5 * Minute" by (simp_all add: demo_consumer_def)
  have t: "tracker demo_state0 (ID (Msg demo_requeue)) = None" "logged [''dlq''] demo_state0 = 0"
    by (simp_all add: demo_state0_def logged_def)
  have w: "\<And>t en. tracker t (ID (Msg demo_requeue)) = Some en \<Longrightarrow> ?now t - lastSeen en \<ge> attemptTTL ?c"
    using i m(2) by simp
  from slow_poison_never_dead_lettered [where now = ?now and ctx = "\<lambda>_. None" and settleCtx = "\<lambda>_. None" and j = 9,
      OF demo_poison m(1) t(1) w] t(2) m(2)
  show ?thesis by simp
qed

section \<open>Permanent failures\<close>

lemma keeps_terminal_ack: "\<forall>ctx. keeps f (Ack d ctx) \<Longrightarrow> hook_keeps f h \<Longrightarrow> keeps f (terminal_ack ctx d h e)"
  unfolding terminal_ack_def safeAck_def by (intro keeps_intro) auto

lemma read_live: "\<forall>s. ctx s = None \<Longrightarrow> bindP (readP ctx) (\<lambda>e. if e \<noteq> None then p else q) = q"
  by (auto simp: fun_eq_iff bindP_def readP_def)

lemma keeps_divertTerminal:
  assumes "\<forall>ctx. keeps f (Ack d ctx)" and "hook_keeps f h" and "sink_keeps f out" and "\<forall>s. ctx s = None"
  shows "keeps f (divertTerminal ctx out d h cause)"
proof (cases out)
  case (Some g)
  then have k: "keeps f (safeSend ctx g (Msg d))" using assms(3) by (auto simp: sink_keeps_def intro: keeps_intro)
  note live = read_live [OF assms(4)]
  have "keeps f (case sendErr of None \<Rightarrow> terminal_ack ctx d h (Some cause)
       | Some e \<Rightarrow> terminal_ack ctx d h (errors_Join [Some cause, Some e]))" for sendErr
    using keeps_terminal_ack [OF assms(1,2)] by (cases sendErr) auto
  then show ?thesis unfolding divertTerminal_def Some option.case live by (intro keeps_bindP k)
qed (simp add: divertTerminal_def keeps_terminal_ack assms)

text \<open>
  C34. A permanent failure is not redelivered while the consumer is not shutting down. When the payload does not decode, or the
  handler fails with an error classified permanent, and the settlement context is not done (after that,
  a send to the sink that fails makes the consumer requeue), the
  dispatch makes no negative acknowledgement at all, whatever the sinks, hooks and
  acknowledgement do: a poison message cannot loop; and the error it reports is one the
  circuit breaker counts as healthy.
\<close>
theorem permanent_never_requeued:
  assumes "bystanders nk c" and "\<forall>ctx. keeps nk (Ack d ctx)" and "\<forall>s. settleCtx s = None"
    and "(\<exists>e s1. decode c (Msg d) s = (Val (Inl e), s1)) \<or>
         (\<exists>p s1. decode c (Msg d) s = (Val (Inr p), s1) \<and>
            (\<forall>ctx s. \<exists>e. fst (c_handler c ctx (NewMessage p (headers (Msg d))) s) = Val (Some e) \<and> IsPermanent (Some e)))"
    and "dispatch c ctx settleCtx d s = (r, s')"
  shows "nk s' = nk s \<and> (\<exists>e. r = Val (Some e) \<and> IsPermanent (Some e))"
proof -
  have b: "\<forall>ctx m. keeps nk (c_handler c ctx m)" "\<forall>b. keeps nk (c_codec c b)" "hook_keeps nk (OnInvalidMessage (hooks c))"
    "\<forall>s m. nk (s\<lparr>tracker := m\<rparr>) = nk s" using assms(1) by (simp_all add: bystanders_def)
  have sk: "sink_keeps nk (fst (invalidTarget c e))" for e
    using assms(1) by (auto simp: invalidTarget_def bystanders_def sink_keeps_def split: option.splits)
  have inv: "\<exists>s2. dispatch_invalid c settleCtx d e s1 = (Val (Some e), s2) \<and> nk s2 = nk s1" for e s1
  proof -
    have k: "keeps nk (dispatch_invalid c settleCtx d e)"
      unfolding dispatch_invalid_def
      by (intro keeps_intro keeps_tracker keeps_divertTerminal assms(2,3) b sk)
    have "total (divertTerminal settleCtx (fst (invalidTarget c e)) d (OnInvalidMessage (hooks c)) e)" by (rule total_divertTerminal)
    from totalD [OF this, of s1]
    obtain ok s2 where "divertTerminal settleCtx (fst (invalidTarget c e)) d (OnInvalidMessage (hooks c)) e s1 = (Val ok, s2)" by blast
    then have "\<exists>s3. dispatch_invalid c settleCtx d e s1 = (Val (Some e), s3)"
      by (cases ok) (simp_all add: dispatch_invalid_def prog_simps tracker_evict_def)
    with keepsD [OF k] show ?thesis by blast
  qed
  have dperm: "IsPermanent (Some e)" if "decode c (Msg d) s = (Val (Inl e), s1)" for e s1
    using that
    by (auto simp: decode_def safeDecode_def IsPermanent_iff prog_simps split: if_splits option.splits prod.splits res.splits sum.splits)
  from assms(4) show ?thesis
  proof
    assume "\<exists>e s1. decode c (Msg d) s = (Val (Inl e), s1)"
    then obtain e s1 where dec: "decode c (Msg d) s = (Val (Inl e), s1)" by blast
    obtain s2 where "dispatch_invalid c settleCtx d e s1 = (Val (Some e), s2)" "nk s2 = nk s1" using inv by blast
    with assms(5) dec dperm [OF dec] keepsD [OF keeps_decode [OF b(2)] dec] show ?thesis
      by (auto simp: dispatch_def bindP_def)
  next
    assume "\<exists>p s1. decode c (Msg d) s = (Val (Inr p), s1) \<and>
            (\<forall>ctx s. \<exists>e. fst (c_handler c ctx (NewMessage p (headers (Msg d))) s) = Val (Some e) \<and> IsPermanent (Some e))"
    then obtain p s1 where dec: "decode c (Msg d) s = (Val (Inr p), s1)"
      and fails: "\<forall>ctx s. \<exists>e. fst (c_handler c ctx (NewMessage p (headers (Msg d))) s) = Val (Some e) \<and> IsPermanent (Some e)" by blast
    let ?m = "NewMessage p (headers (Msg d))" and ?ctx = "handlerContext c ctx (c_clock c s1)"
    from fails obtain e where "fst (c_handler c ?ctx ?m s1) = Val (Some e)" and pe: "IsPermanent (Some e)" by blast
    then obtain s2 where h: "c_handler c ?ctx ?m s1 = (Val (Some e), s2)" by (metis prod.collapse)
    obtain s3 where i: "dispatch_invalid c settleCtx d e s2 = (Val (Some e), s3)" "nk s3 = nk s2" using inv by blast
    have "keeps nk (c_handler c ?ctx ?m)" using b(1) by blast
    from keepsD [OF this h] have "nk s2 = nk s1" .
    moreover have "nk s1 = nk s" using keepsD [OF keeps_decode [OF b(2)] dec] .
    moreover have "dispatch c ctx settleCtx d s = (Val (Some e), s3)"
      using dec h pe i by (simp add: dispatch_def bindP_def readP_def safeHandle_def recoverP_def dispatch_handled_def)
    ultimately show ?thesis using assms(5) i(2) pe by simp
  qed
qed

theorem permanent_never_requeued_witness:
  "logged [''nack''] (snd (dispatch (demo_consumer 3 (Some (PermanentError (Foreign ''e'' 0)))) (\<lambda>_. None) (\<lambda>_. None)
      demo_delivery demo_state0)) = 0"
proof -
  let ?c = "demo_consumer 3 (Some (PermanentError (Foreign ''e'' 0)))"
  obtain r s' where d: "dispatch ?c (\<lambda>_. None) (\<lambda>_. None) demo_delivery demo_state0 = (r, s')" by fastforce
  have b: "bystanders (logged [''nack'']) ?c"
    by (auto simp: bystanders_def demo_consumer_def hook_keeps_def sink_keeps_def backoff_ok_def keeps_basic demo_log_logged logged_def)
  have a: "\<forall>ctx. keeps (logged [''nack'']) (Ack demo_delivery ctx)" by (simp add: demo_delivery_def demo_log_logged)
  have f: "decode ?c (Msg demo_delivery) demo_state0 = (Val (Inr ''p''), demo_state0)"
    by (simp add: decode_def demo_consumer_def demo_delivery_def returnP_def)
  have h: "\<forall>ctx s. \<exists>e. fst (c_handler ?c ctx m s) = Val (Some e) \<and> IsPermanent (Some e)" for m
    by (simp add: demo_consumer_def returnP_def IsPermanent_iff)
  have "logged [''nack''] s' = logged [''nack''] demo_state0"
    using permanent_never_requeued [OF b a _ _ d] f h by blast
  with d show ?thesis by (simp add: logged_def demo_state0_def)
qed

text \<open>
  The byte cap protects what is behind it. A wire payload longer than a positive
  \<open>maxPayloadBytes\<close>, on a consumer with no invalid-message sink, is settled without ever
  reaching the codec, the handler or the dead-letter sink: replacing all three by arbitrary
  others changes nothing.
\<close>
theorem oversize_reaches_nothing:
  assumes "\<not> liveValue c" and "payload (Msg d) = GBytes b" and "0 < maxPayloadBytes c"
    and "maxPayloadBytes c < int (length b)" and "invalidSink c = None"
  shows "dispatch c ctx settleCtx d =
     dispatch (c\<lparr>c_codec := codec', c_handler := handler', c_policy := (c_policy c)\<lparr>DeadLetter := sink'\<rparr>\<rparr>) ctx settleCtx d"
  using assms
  by (auto simp: dispatch_def decode_def type_assert_def prog_simps fun_eq_iff dispatch_invalid_def invalidTarget_def
      divertTerminal_def)

theorem oversize_reaches_nothing_witness:
  "ext (snd (dispatch ((demo_consumer 1 None)\<lparr>liveValue := False, maxPayloadBytes := 2\<rparr>) (\<lambda>_. None) (\<lambda>_. None)
      (demo_delivery\<lparr>Msg := NewMessage (GBytes ''abc'') Map.empty\<rparr>) demo_state0)) = [''ack'']"
  by (subst oversize_reaches_nothing [where codec' = "\<lambda>b s. (Pan GNil, s)" and handler' = "\<lambda>ctx m s. (Pan GNil, s)" and sink' = None
        and b = "''abc''"])
     (simp_all add: demo_consumer_def demo_delivery_def dispatch_def decode_def type_assert_def prog_simps dispatch_invalid_def
        invalidTarget_def divertTerminal_def terminal_ack_def safeFire_def safeAck_def demo_log_def demo_state0_def tracker_evict_def)

end
