(* ===== verification/Ingress.thy ===== *)
theory Ingress
  imports Consumer
begin

text \<open>
  How deliveries enter a consumer: its construction (\<open>NewConsumer\<close> of \<^verbatim>\<open>endpoint/consumer.go\<close> with
  the options of \<^verbatim>\<open>endpoint/consumer.go\<close> and \<^verbatim>\<open>endpoint/flowcontrol.go\<close>, \<open>resolveCodec\<close> of
  \<^verbatim>\<open>endpoint/producer.go\<close>), the pull loop (\<^verbatim>\<open>endpoint/poller.go\<close>) and the push loop (\<open>ingest\<close>).

  The lemmas: what a constructed consumer guarantees of its configuration; that a push
  admission either hands a delivery over with a credit of its own or settles it at once; that
  the pull loop conserves credits, never releases a negative number and never hands over more
  than it asked for; and the closed form of the poll-error backoff.
\<close>

section \<open>Construction\<close>

text \<open>
  A source is what its type assertions find: whether it streams, its \<open>Poll\<close>, what its
  \<open>EmitsLiveValue\<close> and \<open>NativeDeadLetter\<close> say when it has them.
\<close>

type_synonym 's Poll = "'s ctx \<Rightarrow> int \<Rightarrow> ('s, err + 's Delivery list) prog"

record 's source =
  src_streams :: bool
  src_poll :: "'s Poll option"
  src_live :: "bool option"
  src_nativeDeadLetter :: "bool option"

record ('s, 'a) consumerConfig =
  concurrency :: int
  cfg_codec :: "(string \<Rightarrow> ('s, err + 'a) prog) option"
  codecSet :: bool
  cfg_policy :: "'s RetryPolicy"
  cfg_invalidSink :: "'s OutboundAdapter option"
  cfg_hooks :: "'s Hooks"
  cfg_shutdownTimeout :: duration
  cfg_clock :: "'s \<Rightarrow> time"
  cfg_maxInFlight :: int
  maxInFlightSet :: bool
  cfg_rateLimiter :: "('s ctx \<Rightarrow> ('s, err option) prog) option"
  cfg_handlerTimeout :: duration
  cfg_breaker :: "'s CircuitBreaker option"
  cfg_overflow :: OverflowPolicy
  cfg_attemptTTL :: duration
  attemptTTLSet :: bool
  cfg_maxPayloadBytes :: int
  cfg_pollInterval :: duration
  pollIntervalSet :: bool
  cfg_pollMaxBatch :: int
  pollMaxBatchSet :: bool

type_synonym ('s, 'a) ConsumerOption = "('s, 'a) consumerConfig \<Rightarrow> ('s, 'a) consumerConfig"

abbreviation concurrencyCeiling :: int where "concurrencyCeiling \<equiv> 65536"
abbreviation defaultMaxInFlight :: int where "defaultMaxInFlight \<equiv> 1024"
abbreviation maxInFlightCeiling :: int where "maxInFlightCeiling \<equiv> 1048576"
abbreviation defaultAttemptTTL :: duration where "defaultAttemptTTL \<equiv> 5 * Minute"
abbreviation defaultPollInterval :: duration where "defaultPollInterval \<equiv> Second"
abbreviation defaultPollMaxBatch :: int where "defaultPollMaxBatch \<equiv> 100"
abbreviation maxPollErrorBackoff :: duration where "maxPollErrorBackoff \<equiv> 30 * Second"

definition WithConcurrency :: "int \<Rightarrow> ('s, 'a) ConsumerOption" where
  "WithConcurrency n cfg = cfg\<lparr>concurrency := n\<rparr>"

definition WithConsumerCodec :: "(string \<Rightarrow> ('s, err + 'a) prog) option \<Rightarrow> ('s, 'a) ConsumerOption" where
  "WithConsumerCodec c cfg = cfg\<lparr>cfg_codec := c, codecSet := True\<rparr>"

definition WithRetryPolicy :: "'s RetryPolicy \<Rightarrow> ('s, 'a) ConsumerOption" where
  "WithRetryPolicy p cfg = cfg\<lparr>cfg_policy := p\<rparr>"

definition WithInvalidMessageSink :: "'s OutboundAdapter option \<Rightarrow> ('s, 'a) ConsumerOption" where
  "WithInvalidMessageSink out cfg = cfg\<lparr>cfg_invalidSink := out\<rparr>"

definition WithHooks :: "'s Hooks \<Rightarrow> ('s, 'a) ConsumerOption" where
  "WithHooks h cfg = cfg\<lparr>cfg_hooks := h\<rparr>"

definition WithShutdownTimeout :: "duration \<Rightarrow> ('s, 'a) ConsumerOption" where
  "WithShutdownTimeout d cfg = cfg\<lparr>cfg_shutdownTimeout := d\<rparr>"

definition WithConsumerClock :: "('s \<Rightarrow> time) option \<Rightarrow> ('s, 'a) ConsumerOption" where
  "WithConsumerClock c cfg = (case c of None \<Rightarrow> cfg | Some clk \<Rightarrow> cfg\<lparr>cfg_clock := clk\<rparr>)"

definition WithMaxInFlight :: "int \<Rightarrow> ('s, 'a) ConsumerOption" where
  "WithMaxInFlight n cfg = cfg\<lparr>cfg_maxInFlight := n, maxInFlightSet := True\<rparr>"

definition WithRateLimit :: "('s ctx \<Rightarrow> ('s, err option) prog) option \<Rightarrow> ('s, 'a) ConsumerOption" where
  "WithRateLimit r cfg = (if r \<noteq> None then cfg\<lparr>cfg_rateLimiter := r\<rparr> else cfg)"

definition WithHandlerTimeout :: "duration \<Rightarrow> ('s, 'a) ConsumerOption" where
  "WithHandlerTimeout d cfg = cfg\<lparr>cfg_handlerTimeout := d\<rparr>"

definition WithCircuitBreaker :: "'s CircuitBreaker option \<Rightarrow> ('s, 'a) ConsumerOption" where
  "WithCircuitBreaker b cfg = (if b \<noteq> None then cfg\<lparr>cfg_breaker := b\<rparr> else cfg)"

definition WithOverflow :: "OverflowPolicy \<Rightarrow> ('s, 'a) ConsumerOption" where
  "WithOverflow p cfg = cfg\<lparr>cfg_overflow := p\<rparr>"

definition WithAttemptTTL :: "duration \<Rightarrow> ('s, 'a) ConsumerOption" where
  "WithAttemptTTL d cfg = cfg\<lparr>cfg_attemptTTL := d, attemptTTLSet := True\<rparr>"

definition WithMaxPayloadBytes :: "int \<Rightarrow> ('s, 'a) ConsumerOption" where
  "WithMaxPayloadBytes n cfg = cfg\<lparr>cfg_maxPayloadBytes := n\<rparr>"

definition WithPollInterval :: "duration \<Rightarrow> ('s, 'a) ConsumerOption" where
  "WithPollInterval d cfg = cfg\<lparr>cfg_pollInterval := d, pollIntervalSet := True\<rparr>"

definition WithPollMaxBatch :: "int \<Rightarrow> ('s, 'a) ConsumerOption" where
  "WithPollMaxBatch n cfg = cfg\<lparr>cfg_pollMaxBatch := n, pollMaxBatchSet := True\<rparr>"

definition isLiveValue :: "bool option \<Rightarrow> bool" where
  "isLiveValue emits \<longleftrightarrow> emits = Some True"

text \<open>
  \<open>resolveCodec emits codec explicit json\<close>: \<open>json\<close> is the default codec. A live-value adapter keeps
  the nil codec, which is never called.
\<close>

definition resolveCodec :: "bool option \<Rightarrow> 'c option \<Rightarrow> bool \<Rightarrow> 'c \<Rightarrow> err + 'c option \<times> bool" where
  "resolveCodec emits codec explicit json =
     (let live = isLiveValue emits in
      if live \<and> explicit then Inl (Sentinel ErrUnexpectedCodec)
      else if \<not> live \<and> codec = None then Inr (Some json, live)
      else Inr (codec, live))"

definition defaultConsumerConfig :: "('s \<Rightarrow> time) \<Rightarrow> ('s, 'a) consumerConfig" where
  "defaultConsumerConfig wall =
     \<lparr>concurrency = 1, cfg_codec = None, codecSet = False,
      cfg_policy = \<lparr>MaxAttempts = 0, Backoff = None, DeadLetter = None\<rparr>, cfg_invalidSink = None,
      cfg_hooks = \<lparr>OnRetry = None, OnDeadLetter = None, OnInvalidMessage = None, OnAck = None\<rparr>,
      cfg_shutdownTimeout = 0, cfg_clock = wall, cfg_maxInFlight = 0, maxInFlightSet = False,
      cfg_rateLimiter = None, cfg_handlerTimeout = 0, cfg_breaker = None, cfg_overflow = OverflowBlock,
      cfg_attemptTTL = 0, attemptTTLSet = False, cfg_maxPayloadBytes = 0, cfg_pollInterval = 0,
      pollIntervalSet = False, cfg_pollMaxBatch = 0, pollMaxBatchSet = False\<rparr>"

text \<open>The source a consumer reads: streaming wins over polling.\<close>

datatype 's reader = Streams | Polls "'s Poll"

definition consumer_of ::
  "('s, 'a) consumerConfig \<Rightarrow> ('s ctx \<Rightarrow> 'a message \<Rightarrow> ('s, err option) prog) \<Rightarrow> (goval \<Rightarrow> 'a option)
    \<Rightarrow> (string \<Rightarrow> ('s, err + 'a) prog) option \<Rightarrow> bool \<Rightarrow> bool option \<Rightarrow> ('s, 'a) consumer" where
  "consumer_of cfg h cast codec live native =
     \<lparr>c_handler = h, c_cast = cast,
      c_codec = (case codec of Some f \<Rightarrow> f | None \<Rightarrow> (\<lambda>_ s. (Pan (GValue ''runtime.Error'' 0), s))),
      liveValue = live, workers = concurrency cfg, c_policy = cfg_policy cfg, invalidSink = cfg_invalidSink cfg,
      hooks = cfg_hooks cfg, shutdownTimeout = cfg_shutdownTimeout cfg, c_clock = cfg_clock cfg,
      nativeDeadLetter = (native = Some True), attemptTTL = cfg_attemptTTL cfg, maxInFlight = cfg_maxInFlight cfg,
      rateLimiter = cfg_rateLimiter cfg, handlerTimeout = cfg_handlerTimeout cfg, c_breaker = cfg_breaker cfg,
      c_overflow = cfg_overflow cfg, maxPayloadBytes = cfg_maxPayloadBytes cfg,
      pollInterval = cfg_pollInterval cfg, pollMaxBatch = cfg_pollMaxBatch cfg\<rparr>"

text \<open>The checks and defaults of \<open>NewConsumer\<close>, in its order.\<close>

definition checkConsumerConfig :: "('s, 'a) consumerConfig \<Rightarrow> err + ('s, 'a) consumerConfig" where
  "checkConsumerConfig cfg =
     (case checkRange (Sentinel ErrInvalidConcurrency) ''endpoint.WithConcurrency'' (concurrency cfg) 1 concurrencyCeiling of
        Some e \<Rightarrow> Inl e
      | None \<Rightarrow>
     (case Validate (cfg_policy cfg) of
        Some e \<Rightarrow> Inl e
      | None \<Rightarrow>
     (case (if maxInFlightSet cfg
            then checkRange (Sentinel ErrInvalidMaxInFlight) ''endpoint.WithMaxInFlight'' (cfg_maxInFlight cfg) 1 maxInFlightCeiling
            else None) of
        Some e \<Rightarrow> Inl e
      | None \<Rightarrow>
          if attemptTTLSet cfg \<and> cfg_attemptTTL cfg \<le> 0 then Inl (Sentinel ErrInvalidAttemptTTL)
          else if pollIntervalSet cfg \<and> cfg_pollInterval cfg \<le> 0 then Inl (Sentinel ErrInvalidPollInterval)
          else if pollMaxBatchSet cfg \<and> cfg_pollMaxBatch cfg < 1 then Inl (Sentinel ErrInvalidPollMaxBatch)
          else Inr (cfg\<lparr>
            cfg_maxInFlight := (if maxInFlightSet cfg then cfg_maxInFlight cfg else defaultMaxInFlight),
            cfg_attemptTTL := (if attemptTTLSet cfg then cfg_attemptTTL cfg else defaultAttemptTTL),
            cfg_pollInterval := (if pollIntervalSet cfg then cfg_pollInterval cfg else defaultPollInterval),
            cfg_pollMaxBatch := (if pollMaxBatchSet cfg then cfg_pollMaxBatch cfg else defaultPollMaxBatch)\<rparr>))))"

definition NewConsumer ::
  "('s \<Rightarrow> time) \<Rightarrow> (goval \<Rightarrow> 'a option) \<Rightarrow> (string \<Rightarrow> ('s, err + 'a) prog) \<Rightarrow> 's source option
    \<Rightarrow> ('s ctx \<Rightarrow> 'a message \<Rightarrow> ('s, err option) prog) option \<Rightarrow> ('s, 'a) ConsumerOption option list
    \<Rightarrow> err + ('s, 'a) consumer \<times> 's reader" where
  "NewConsumer wall cast json src h opts =
     (case src of None \<Rightarrow> Inl (Sentinel ErrNilAdapter) | Some sr \<Rightarrow>
      (case h of None \<Rightarrow> Inl (nilFuncAt ''endpoint.NewConsumer: nil handler'') | Some handle \<Rightarrow>
      (case apply_opts 0 opts (defaultConsumerConfig wall) of Inl i \<Rightarrow> Inl (nilOptionAt ''endpoint.NewConsumer'' i) | Inr cfg0 \<Rightarrow>
      (case checkConsumerConfig cfg0 of Inl e \<Rightarrow> Inl e | Inr cfg \<Rightarrow>
      (case resolveCodec (src_live sr) (cfg_codec cfg) (codecSet cfg) json of
         Inl e \<Rightarrow> Inl e
       | Inr (codec, live) \<Rightarrow>
           (let c = consumer_of cfg handle cast codec live (src_nativeDeadLetter sr) in
            if src_streams sr then Inr (c, Streams)
            else (case src_poll sr of Some p \<Rightarrow> Inr (c, Polls p) | None \<Rightarrow> Inl (Sentinel ErrUnsupportedSource))))))))"

section \<open>The pull loop\<close>

text \<open>
  \<open>env\<close> is what the rest of the program does while the loop waits: workers finishing, time
  passing, a shutdown beginning. The worker channel is the programs that tell whether a send
  can proceed and that send.
\<close>

record 's workerCh =
  wc_ready :: "'s \<Rightarrow> bool"
  wc_put :: "nat \<Rightarrow> 's Delivery \<Rightarrow> 's \<Rightarrow> 's"

definition releaseN :: "int \<Rightarrow> ('x cstate, unit) prog" where
  "releaseN n s =
     (if n < 0 then (Pan (GString ''msgin: releaseN called with a negative count (credit-accounting bug)''), s)
      else (Val (), ((\<lambda>t. snd (gate_release t)) ^^ nat n) s))"

definition sleepCtx :: "('x cstate \<Rightarrow> time) \<Rightarrow> ('x cstate \<Rightarrow> 'x cstate) \<Rightarrow> ('x cstate \<Rightarrow> nat) \<Rightarrow> 'x cstate ctx \<Rightarrow> duration
    \<Rightarrow> ('x cstate, bool) oprog" where
  "sleepCtx clk env pck ctx d s =
     (if d \<le> 0 then returnO True s
      else (let s' = env s in
            case go_select [clk s + d \<le> clk s', ctx s' \<noteq> None] (pck s') of
              None \<Rightarrow> None
            | Some i \<Rightarrow> returnO (i = 0) s'))"

text \<open>The doubling loop runs at most \<open>n - 1\<close> times; \<open>wrap64\<close> is the product's width.\<close>

fun double_until :: "nat \<Rightarrow> duration \<Rightarrow> duration" where
  "double_until 0 d = d"
| "double_until (Suc k) d = (if d < maxPollErrorBackoff then double_until k (wrap64 (d * 2)) else d)"

definition pollErrorBackoff :: "('s, 'a) consumer \<Rightarrow> int \<Rightarrow> duration" where
  "pollErrorBackoff c n = min (double_until (nat (n - 1)) (pollInterval c)) maxPollErrorBackoff"

definition safePoll :: "'s Poll \<Rightarrow> 's ctx \<Rightarrow> int \<Rightarrow> ('s, err + 's Delivery list) prog" where
  "safePoll poll ctx mx =
     recoverP (poll ctx mx) (\<lambda>r. Inl (Errorf ''msgin: PollingSource.Poll panicked: %v'' [ArgV r]))"

fun nack_all :: "'s ctx \<Rightarrow> 's Delivery list \<Rightarrow> ('s, unit) prog" where
  "nack_all settleCtx [] = returnP ()"
| "nack_all settleCtx (d # ds) = bindP (safeNack settleCtx d True 0) (\<lambda>_. nack_all settleCtx ds)"

definition clampExcess :: "'s ctx \<Rightarrow> 's Delivery list \<Rightarrow> int \<Rightarrow> ('s, 's Delivery list) prog" where
  "clampExcess settleCtx rows held =
     bindP (nack_all settleCtx (drop (nat held) rows)) (\<lambda>_. returnP (take (nat held) rows))"

text \<open>The inner acquire loop: up to \<open>k\<close> further credits, as many as the gate gives.\<close>

fun acquire_more :: "int \<Rightarrow> nat \<Rightarrow> int \<Rightarrow> ('x cstate, int) prog" where
  "acquire_more cap 0 held = returnP held"
| "acquire_more cap (Suc k) held =
     bindP (tryAcquire cap) (\<lambda>ok. if ok then acquire_more cap k (held + 1) else returnP held)"

text \<open>
  The hand-over loop; the deliveries of one run of the pull loop are numbered from \<open>k\<close> on, the
  number standing for the delivery's own once-only release. \<open>False\<close>: a shutdown cut it short.
\<close>

fun hand_rows ::
  "'x cstate workerCh \<Rightarrow> ('x cstate \<Rightarrow> 'x cstate) \<Rightarrow> ('x cstate \<Rightarrow> nat) \<Rightarrow> 'x cstate ctx \<Rightarrow> 'x cstate ctx \<Rightarrow> nat \<Rightarrow> 'x cstate Delivery list
    \<Rightarrow> ('x cstate, bool) oprog" where
  "hand_rows ch env pck ctx settleCtx k [] s = returnO True s"
| "hand_rows ch env pck ctx settleCtx k (d # ds) s =
     (let md = manage d k; s' = env s in
      case go_select [wc_ready ch s', ctx s' \<noteq> None] (pck s') of
        None \<Rightarrow> None
      | Some i \<Rightarrow>
          if i = 0 then hand_rows ch env pck ctx settleCtx (Suc k) ds (wc_put ch k md s')
          else bindO (safeNack settleCtx md True 0) (\<lambda>_.
                 bindO (releaseN (int (length ds))) (\<lambda>_. returnO False)) s')"

definition poll_rows ::
  "('x cstate, 'a) consumer \<Rightarrow> 'x cstate workerCh \<Rightarrow> ('x cstate \<Rightarrow> 'x cstate) \<Rightarrow> ('x cstate \<Rightarrow> nat) \<Rightarrow> 'x cstate ctx \<Rightarrow> 'x cstate ctx
    \<Rightarrow> nat \<Rightarrow> int \<Rightarrow> 'x cstate Delivery list \<Rightarrow> ('x cstate, bool \<times> int \<times> nat) oprog" where
  "poll_rows c ch env pck ctx settleCtx k held rows =
     bindO (if int (length rows) > held then clampExcess settleCtx rows held else returnP rows) (\<lambda>kept.
       bindO (releaseN (held - int (length kept))) (\<lambda>_.
         bindOO (hand_rows ch env pck ctx settleCtx k kept) (\<lambda>ok.
           if \<not> ok then returnO (False, 0, k + length kept)
           else if kept = [] then
             bindOO (sleepCtx (c_clock c) env pck ctx (pollInterval c)) (\<lambda>awake. returnO (awake, 0, k))
           else returnO (True, 0, k + length kept))))"

text \<open>One round of the loop: whether it goes on, the consecutive error count and the next number.\<close>

definition poll_round ::
  "('x cstate, 'a) consumer \<Rightarrow> 'x cstate Poll \<Rightarrow> 'x cstate workerCh \<Rightarrow> ('x cstate \<Rightarrow> 'x cstate) \<Rightarrow> ('x cstate \<Rightarrow> nat) \<Rightarrow> 'x cstate ctx
    \<Rightarrow> 'x cstate ctx \<Rightarrow> int \<Rightarrow> nat \<Rightarrow> ('x cstate, bool \<times> int \<times> nat) oprog" where
  "poll_round c poll ch env pck ctx settleCtx errN k s =
     bindOO (acquire (maxInFlight c) pck ctx) (\<lambda>acqErr.
       if acqErr \<noteq> None then returnO (False, errN, k)
       else
         bindO (acquire_more (maxInFlight c) (nat (pollMaxBatch c - 1)) 1) (\<lambda>held.
           bindO (safePoll poll ctx held) (\<lambda>r.
             (case r of
                Inl e \<Rightarrow>
                  bindO (releaseN held) (\<lambda>_.
                    bindOO (sleepCtx (c_clock c) env pck ctx (pollErrorBackoff c (wrap64 (errN + 1)))) (\<lambda>awake.
                      returnO (awake, wrap64 (errN + 1), k)))
              | Inr rows \<Rightarrow> poll_rows c ch env pck ctx settleCtx k held rows)))) (env s)"

lemma bindOO_mono [partial_function_mono]:
  assumes "\<And>x s'. mono_option (\<lambda>f. g f x s')"
  shows "mono_option (\<lambda>f. bindOO m (g f) s)"
proof (cases "m s")
  case (Some p)
  then show ?thesis using assms by (cases p, cases "fst p") (simp_all add: bindOO_def option.const_mono)
qed (simp add: bindOO_def option.const_mono)

partial_function (option) pollLoop ::
  "('x cstate, 'a) consumer \<Rightarrow> 'x cstate Poll \<Rightarrow> 'x cstate workerCh \<Rightarrow> ('x cstate \<Rightarrow> 'x cstate) \<Rightarrow> ('x cstate \<Rightarrow> nat) \<Rightarrow> 'x cstate ctx
    \<Rightarrow> 'x cstate ctx \<Rightarrow> int \<Rightarrow> nat \<Rightarrow> ('x cstate, unit) oprog" where
  "pollLoop c poll ch env pck ctx settleCtx errN k s =
     bindOO (poll_round c poll ch env pck ctx settleCtx errN k) (\<lambda>(go, errN', k') s1.
       if go then pollLoop c poll ch env pck ctx settleCtx errN' k' s1 else returnO () s1) s"

section \<open>What construction guarantees\<close>

text \<open>
  A consumer that was constructed has a usable configuration, whatever options were given in
  whatever order: between one and \<open>concurrencyCeiling\<close> workers, a credit gate of at least one and
  at most \<open>maxInFlightCeiling\<close>, a positive attempt TTL and poll interval, a batch of at least one
  row, and a retry policy that names a dead-letter sink whenever it limits the attempts.
\<close>
theorem consumer_configuration:
  assumes "NewConsumer wall cast json src h opts = Inr (c, rd)"
  shows "1 \<le> workers c \<and> workers c \<le> concurrencyCeiling \<and> 1 \<le> maxInFlight c \<and> maxInFlight c \<le> maxInFlightCeiling \<and>
     0 < attemptTTL c \<and> 0 < pollInterval c \<and> 1 \<le> pollMaxBatch c \<and>
     0 \<le> MaxAttempts (c_policy c) \<and> (0 < MaxAttempts (c_policy c) \<longrightarrow> DeadLetter (c_policy c) \<noteq> None)"
proof -
  from assms obtain cfg0 cfg handle codec live native
    where "checkConsumerConfig cfg0 = Inr cfg" and c: "c = consumer_of cfg handle cast codec live native"
    by (auto simp: NewConsumer_def Let_def split: option.splits sum.splits if_splits)
  then have "1 \<le> concurrency cfg \<and> concurrency cfg \<le> concurrencyCeiling \<and> Validate (cfg_policy cfg) = None \<and>
      1 \<le> cfg_maxInFlight cfg \<and> cfg_maxInFlight cfg \<le> maxInFlightCeiling \<and>
      0 < cfg_attemptTTL cfg \<and> 0 < cfg_pollInterval cfg \<and> 1 \<le> cfg_pollMaxBatch cfg"
    by (auto simp: checkConsumerConfig_def checkRange_def split: option.splits if_splits)
  then show ?thesis by (auto simp: c consumer_of_def Validate_def split: if_splits)
qed

theorem consumer_configuration_witness:
  "\<exists>c. NewConsumer (\<lambda>_. 0) as_string (\<lambda>b. returnP (Inr b))
        (Some \<lparr>src_streams = True, src_poll = None, src_live = Some True, src_nativeDeadLetter = None\<rparr>)
        (Some (\<lambda>ctx m. returnP None)) [Some (WithMaxInFlight 1048576), Some (WithConcurrency 4)] = Inr (c :: (unit, string) consumer, Streams)
     \<and> workers c = 4 \<and> 1 \<le> pollMaxBatch c"
proof -
  let ?r = "NewConsumer (\<lambda>_. 0) as_string (\<lambda>b. returnP (Inr b))
        (Some \<lparr>src_streams = True, src_poll = None, src_live = Some True, src_nativeDeadLetter = None\<rparr>)
        (Some (\<lambda>ctx m. returnP None)) [Some (WithMaxInFlight 1048576), Some (WithConcurrency 4)]
        :: err + (unit, string) consumer \<times> unit reader"
  have "\<exists>c. ?r = Inr (c, Streams) \<and> workers c = 4"
    by (simp add: NewConsumer_def defaultConsumerConfig_def WithMaxInFlight_def WithConcurrency_def checkConsumerConfig_def
        checkRange_def Validate_def resolveCodec_def isLiveValue_def consumer_of_def Let_def)
  then obtain c where c: "?r = Inr (c, Streams)" "workers c = 4" by blast
  from consumer_configuration [OF c(1)] c show ?thesis by blast
qed

section \<open>The poll-error backoff\<close>

lemma double_until_closed:
  assumes "0 < d"
  shows "min (double_until k d) maxPollErrorBackoff = min (d * 2 ^ k) maxPollErrorBackoff"
  using assms
proof (induction k arbitrary: d)
  case (Suc k)
  show ?case
  proof (cases "d < maxPollErrorBackoff")
    case True
    then have "wrap64 (d * 2) = d * 2" using Suc.prems by simp
    with True Suc.IH [of "d * 2"] Suc.prems show ?thesis by (simp add: mult.assoc)
  next
    case False
    then have "maxPollErrorBackoff \<le> d * 2 ^ Suc k"
      using Suc.prems by (smt (verit) mult_le_cancel_left1 one_le_power)
    with False show ?thesis by (simp add: min_def)
  qed
qed simp

text \<open>
  The wait after the \<open>n\<close>-th consecutive poll error is the poll interval doubled \<open>n - 1\<close> times,
  capped at \<open>maxPollErrorBackoff\<close>, for every interval and every count: the doubling never wraps
  around, and the wait is never zero.
\<close>
theorem poll_error_backoff_closed:
  assumes "0 < pollInterval c" and "1 \<le> n"
  shows "pollErrorBackoff c n = min (pollInterval c * 2 ^ nat (n - 1)) maxPollErrorBackoff \<and> 0 < pollErrorBackoff c n"
proof -
  have "pollErrorBackoff c n = min (pollInterval c * 2 ^ nat (n - 1)) maxPollErrorBackoff"
    unfolding pollErrorBackoff_def by (rule double_until_closed [OF assms(1)])
  then show ?thesis using assms(1) by simp
qed

theorem poll_error_backoff_closed_witness:
  "pollErrorBackoff (demo_consumer 1 None\<lparr>pollInterval := Second\<rparr>) 4 = 8 * Second"
  using poll_error_backoff_closed [of "demo_consumer 1 None\<lparr>pollInterval := Second\<rparr>" 4] by simp

section \<open>Credits of the pull loop\<close>

text \<open>
  \<open>h\<close> reads off the world which numbers were handed to the workers. \<open>outside_ok\<close> is what the
  loop relies on: the workers release only credits of deliveries they were handed, each once
  and by its own once-only release; a send on the worker channel only hands over; polling and
  the source's settle closures do not touch the gate.
\<close>

definition gate_view :: "('x \<Rightarrow> nat set) \<Rightarrow> 'x cstate \<Rightarrow> nat set \<times> nat \<times> nat set \<times> bool" where
  "gate_view h s = (h (ext s), credits s, fired s, stuck s)"

definition worker_progress :: "('x \<Rightarrow> nat set) \<Rightarrow> 'x cstate \<Rightarrow> 'x cstate \<Rightarrow> bool" where
  "worker_progress h s t \<longleftrightarrow>
     h (ext t) = h (ext s) \<and> stuck t = stuck s \<and> fired s \<subseteq> fired t \<and> fired t - fired s \<subseteq> h (ext s) \<and>
     credits t + card (fired t - fired s) = credits s"

definition outside_ok ::
  "('x \<Rightarrow> nat set) \<Rightarrow> 'x cstate workerCh \<Rightarrow> ('x cstate \<Rightarrow> 'x cstate) \<Rightarrow> 'x cstate Poll \<Rightarrow> bool" where
  "outside_ok h ch env poll \<longleftrightarrow>
     (\<forall>s. worker_progress h s (env s)) \<and>
     (\<forall>k md s. gate_view h (wc_put ch k md s) = (insert k (h (ext s)), credits s, fired s, stuck s)) \<and>
     (\<forall>ctx n. keeps (gate_view h) (poll ctx n)) \<and>
     (\<forall>ctx n s ds s' d. poll ctx n s = (Val (Inr ds), s') \<longrightarrow> d \<in> set ds \<longrightarrow>
        (\<forall>ctx requeue delay. keeps (gate_view h) (Nack d ctx requeue delay)))"

text \<open>
  \<open>ledger_of h cap held k s\<close>: every credit taken is either one of the \<open>held\<close> the loop holds or
  belongs to a delivery handed over and not yet released; numbers from \<open>k\<close> on are unused.
\<close>

definition ledger_of :: "('x \<Rightarrow> nat set) \<Rightarrow> int \<Rightarrow> nat \<Rightarrow> nat \<Rightarrow> 'x cstate \<Rightarrow> bool" where
  "ledger_of h cap held k s \<longleftrightarrow>
     h (ext s) \<subseteq> {..<k} \<and> fired s \<subseteq> {..<k} \<and> credits s = card (h (ext s) - fired s) + held \<and>
     int (credits s) \<le> cap \<and> \<not> stuck s"

lemma ledger_of_view: "gate_view h t = gate_view h s \<Longrightarrow> ledger_of h cap held k t = ledger_of h cap held k s"
  by (simp add: ledger_of_def gate_view_def)

lemma ledger_of_keeps: "keeps (gate_view h) p \<Longrightarrow> p s = (r, t) \<Longrightarrow> ledger_of h cap held k t = ledger_of h cap held k s"
  by (rule ledger_of_view) (rule keepsD)

lemma ledger_of_env:
  assumes "ledger_of h cap held k s" and "worker_progress h s t"
  shows "ledger_of h cap held k t"
proof -
  let ?new = "fired t - fired s"
  have fin: "finite (h (ext s) - fired s)" using assms(1) by (auto simp: ledger_of_def intro: finite_subset)
  have new: "?new \<subseteq> h (ext s) - fired s" using assms(2) by (auto simp: worker_progress_def)
  have "h (ext t) - fired t = (h (ext s) - fired s) - ?new"
    using assms(2) by (auto simp: worker_progress_def)
  then have "card (h (ext t) - fired t) = card (h (ext s) - fired s) - card ?new"
    using new fin by (simp add: card_Diff_subset finite_subset)
  moreover have "card ?new \<le> card (h (ext s) - fired s)" using new fin by (rule card_mono [rotated])
  ultimately show ?thesis using assms by (auto simp: ledger_of_def worker_progress_def)
qed

lemma ledger_of_take:
  "ledger_of h cap held k s \<Longrightarrow> int (credits s) < cap \<Longrightarrow> ledger_of h cap (Suc held) k (s\<lparr>credits := credits s + 1\<rparr>)"
  by (simp add: ledger_of_def)

lemma ledger_of_give: "ledger_of h cap (Suc held) k s \<Longrightarrow> ledger_of h cap held k (snd (gate_release s))"
  by (simp add: ledger_of_def gate_release_def)

lemma ledger_of_acquire:
  assumes "ledger_of h cap 0 k s" and "acquire cap pck ctx s = Some (r, t)"
  shows "r = Val None \<and> ledger_of h cap 1 k t \<or> (\<exists>e. r = Val (Some e)) \<and> ledger_of h cap 0 k t"
proof -
  from assms(2) obtain i where i: "go_select [int (credits s) < cap, ctx s \<noteq> None] (pck s) = Some i"
    and t: "(r, t) = (if i = 0 then (Val None, s\<lparr>credits := credits s + 1\<rparr>) else (Val (ctx s), s))"
    by (auto simp: acquire_def split: option.splits if_splits)
  from go_select_ready [OF i] have "if i = 0 then int (credits s) < cap else ctx s \<noteq> None"
    by (auto simp: nth_Cons' split: if_splits)
  then show ?thesis using t assms(1) ledger_of_take [OF assms(1)] by (auto split: if_splits)
qed

lemma ledger_of_acquire_more:
  assumes "ledger_of h cap held k s"
  shows "\<exists>held' t. acquire_more cap n (int held) s = (Val (int held'), t) \<and> held \<le> held' \<and> held' \<le> held + n \<and> ledger_of h cap held' k t"
  using assms
proof (induction n arbitrary: held s)
  case (Suc n)
  show ?case
  proof (cases "int (credits s) < cap")
    case True
    from Suc.IH [OF ledger_of_take [OF Suc.prems True]] True show ?thesis
      by (auto simp: tryAcquire_def bindP_def add.commute)
  next
    case False
    with Suc.prems show ?thesis by (auto simp: tryAcquire_def prog_simps)
  qed
qed (auto simp: returnP_def)

lemma ledger_of_releaseN:
  assumes "ledger_of h cap (held + n) k s"
  shows "\<exists>t. releaseN (int n) s = (Val (), t) \<and> ledger_of h cap held k t"
proof -
  have "ledger_of h cap held k (((\<lambda>t. snd (gate_release t)) ^^ n) s)"
    using assms
  proof (induction n arbitrary: held)
    case (Suc n)
    from Suc.IH [of "Suc held"] Suc.prems have "ledger_of h cap (Suc held) k (((\<lambda>t. snd (gate_release t)) ^^ n) s)" by simp
    then show ?case by (simp add: ledger_of_give)
  qed simp
  then show ?thesis by (simp add: releaseN_def)
qed

lemma ledger_of_own_release:
  assumes "ledger_of h cap (Suc n) k s"
  shows "ledger_of h cap n (Suc k) (snd (once_release k s))"
proof -
  have k: "k \<notin> fired s" "k \<notin> h (ext s)" using assms by (auto simp: ledger_of_def)
  then have "h (ext s) - insert k (fired s) = h (ext s) - fired s" by auto
  with assms k show ?thesis by (auto simp: ledger_of_def once_release_def gate_release_def)
qed

lemma ledger_of_managed_nack:
  assumes "ledger_of h cap (Suc n) k s" and "keeps (gate_view h) (Nack d ctx requeue delay)"
  shows "\<exists>e t. safeNack ctx (manage d k) requeue delay s = (Val e, t) \<and> ledger_of h cap n (Suc k) t"
proof -
  obtain u where u: "once_release k s = (Val (), u)"
    by (cases "k \<in> fired s") (auto simp: once_release_def gate_release_def)
  obtain r t where t: "Nack d ctx requeue delay u = (r, t)" by fastforce
  from ledger_of_own_release [OF assms(1)] have "ledger_of h cap n (Suc k) t"
    using ledger_of_keeps [OF assms(2) t] u by simp
  then show ?thesis using u t by (cases r) (simp_all add: safeNack_def manage_def recoverP_def bindP_def)
qed

lemma ledger_of_put:
  assumes "ledger_of h cap (Suc n) k s" and "gate_view h t = (insert k (h (ext s)), credits s, fired s, stuck s)"
  shows "ledger_of h cap n (Suc k) t"
proof -
  have k: "k \<notin> fired s" "k \<notin> h (ext s)" "finite (h (ext s))" using assms(1) by (auto simp: ledger_of_def intro: finite_subset)
  then have "card (insert k (h (ext s)) - fired s) = Suc (card (h (ext s) - fired s))" by (simp add: insert_Diff_if)
  with assms k show ?thesis by (auto simp: ledger_of_def gate_view_def)
qed

lemma ledger_of_unused: "ledger_of h cap n k s \<Longrightarrow> k \<le> k' \<Longrightarrow> ledger_of h cap n k' s"
  by (auto simp: ledger_of_def)

lemma ledger_of_hand_rows:
  assumes "ledger_of h cap (length ds) k s" and "outside_ok h ch env poll"
    and "\<forall>d \<in> set ds. \<forall>ctx requeue delay. keeps (gate_view h) (Nack d ctx requeue delay)"
    and "hand_rows ch env pck ctx settleCtx k ds s = Some (r, t)"
  shows "\<exists>b. r = Val b \<and> ledger_of h cap 0 (k + length ds) t"
  using assms(1,3,4)
proof (induction ds arbitrary: k s)
  case (Cons d ds)
  have led: "ledger_of h cap (Suc (length ds)) k (env s)"
    using ledger_of_env [of h cap _ k s] Cons.prems(1) assms(2) by (simp add: outside_ok_def)
  from Cons.prems(3) obtain i where i: "go_select [wc_ready ch (env s), ctx (env s) \<noteq> None] (pck (env s)) = Some i"
    by (auto simp: Let_def split: option.splits)
  show ?case
  proof (cases "i = 0")
    case True
    have "ledger_of h cap (length ds) (Suc k) (wc_put ch k (manage d k) (env s))"
      using ledger_of_put [OF led] assms(2) by (simp add: outside_ok_def)
    from Cons.IH [OF this] Cons.prems(2,3) i True show ?thesis by (simp add: Let_def)
  next
    case False
    have "keeps (gate_view h) (Nack d settleCtx True 0)" using Cons.prems(2) by simp
    from ledger_of_managed_nack [OF led this] obtain e u
      where u: "safeNack settleCtx (manage d k) True 0 (env s) = (Val e, u)" and lu: "ledger_of h cap (length ds) (Suc k) u" by blast
    from ledger_of_releaseN [of h cap 0 "length ds" "Suc k" u] lu obtain v
      where "releaseN (int (length ds)) u = (Val (), v)" and lv: "ledger_of h cap 0 (Suc k) v" by auto
    with Cons.prems(3) i False u have "r = Val False" and "t = v" by (auto simp: Let_def bindO_def returnO_def)
    with ledger_of_unused [OF lv, of "k + length (d # ds)"] show ?thesis by auto
  qed
qed (auto simp: returnO_def)

lemma ledger_of_nack_all:
  assumes "\<forall>d \<in> set ds. \<forall>ctx requeue delay. keeps (gate_view h) (Nack d ctx requeue delay)"
  shows "\<exists>t. nack_all settleCtx ds s = (Val (), t) \<and> gate_view h t = gate_view h s"
  using assms
proof (induction ds arbitrary: s)
  case (Cons d ds)
  have k: "keeps (gate_view h) (safeNack settleCtx d True 0)" unfolding safeNack_def using Cons.prems by (intro keeps_intro) auto
  have "total (safeNack settleCtx d True 0)" by (rule total_safe)
  from totalD [OF this, of s] obtain e u where u: "safeNack settleCtx d True 0 s = (Val e, u)" by blast
  from Cons.IH [of u] Cons.prems obtain t where "nack_all settleCtx ds u = (Val (), t)" "gate_view h t = gate_view h u" by auto
  with u keepsD [OF k u] show ?case by (simp add: bindP_def)
qed (simp add: returnP_def)

lemma sleepCtx_result:
  assumes "sleepCtx clk env pck ctx d s = Some (r, t)"
  shows "(\<exists>b. r = Val b) \<and> (t = s \<or> t = env s)"
  using assms by (auto simp: sleepCtx_def returnO_def Let_def split: if_splits option.splits)

lemma ledger_of_sleep:
  assumes "ledger_of h cap held k s" and "outside_ok h ch env poll" and "sleepCtx clk env pck ctx d s = Some (r, t)"
  shows "\<exists>b. r = Val b \<and> ledger_of h cap held k t"
  using sleepCtx_result [OF assms(3)] ledger_of_env [OF assms(1)] assms(1,2) by (auto simp: outside_ok_def)

lemma ledger_of_poll_rows:
  assumes "ledger_of h cap held k s" and "outside_ok h ch env poll"
    and "\<forall>d \<in> set rows. \<forall>ctx requeue delay. keeps (gate_view h) (Nack d ctx requeue delay)"
    and "poll_rows c ch env pck ctx settleCtx k (int held) rows s = Some (r, t)"
  shows "\<exists>q. r = Val q \<and> ledger_of h cap 0 (snd (snd q)) t"
proof -
  define kept where "kept = take held rows"
  then have short: "length kept \<le> held" by simp
  have "\<forall>d \<in> set (drop held rows). \<forall>ctx requeue delay. keeps (gate_view h) (Nack d ctx requeue delay)"
    using assms(3) by (auto dest: in_set_dropD)
  from ledger_of_nack_all [OF this, of settleCtx s]
  have "\<exists>u. (if int (length rows) > int held then clampExcess settleCtx rows (int held) else returnP rows) s = (Val kept, u)
      \<and> gate_view h u = gate_view h s"
    by (auto simp: kept_def clampExcess_def prog_simps)
  then obtain u where u: "(if int (length rows) > int held then clampExcess settleCtx rows (int held) else returnP rows) s = (Val kept, u)"
    and "ledger_of h cap held k u" using ledger_of_view assms(1) by blast
  then have "ledger_of h cap (length kept + (held - length kept)) k u" using short by simp
  from ledger_of_releaseN [OF this] obtain v where v: "releaseN (int (held - length kept)) u = (Val (), v)"
    and lv: "ledger_of h cap (length kept) k v" by blast
  have n: "int held - int (length kept) = int (held - length kept)" using short by (simp add: of_nat_diff)
  from assms(4) obtain b w where w: "hand_rows ch env pck ctx settleCtx k kept v = Some (b, w)"
    unfolding poll_rows_def bindO_def u by (auto simp: v n bindOO_def split: option.splits)
  have "\<forall>d \<in> set kept. \<forall>ctx requeue delay. keeps (gate_view h) (Nack d ctx requeue delay)"
    using assms(3) by (auto simp: kept_def dest: in_set_takeD)
  from ledger_of_hand_rows [OF lv assms(2) this w] obtain ok where b: "b = Val ok" and lw: "ledger_of h cap 0 (k + length kept) w" by blast
  have round: "poll_rows c ch env pck ctx settleCtx k (int held) rows s =
      (if \<not> ok then Some (Val (False, 0, k + length kept), w)
       else if kept = [] then bindOO (sleepCtx (c_clock c) env pck ctx (pollInterval c)) (\<lambda>awake. returnO (awake, 0, k)) w
       else Some (Val (True, 0, k + length kept), w))"
    unfolding poll_rows_def bindO_def u prod.case res.case n v by (simp add: bindOO_def w b returnO_def)
  show ?thesis
  proof (cases "ok \<and> kept = []")
    case True
    with assms(4) round obtain b' where sl: "sleepCtx (c_clock c) env pck ctx (pollInterval c) w = Some (b', t)"
      and "r = (case b' of Val awake \<Rightarrow> Val (awake, 0, k) | Pan p \<Rightarrow> Pan p)"
      by (auto simp: bindOO_def returnO_def split: option.splits res.splits)
    with ledger_of_sleep [OF lw assms(2) sl] True show ?thesis by auto
  next
    case False
    with assms(4) round have "r = Val (ok, 0, k + length kept)" and "t = w" by (auto split: if_splits)
    with lw show ?thesis by simp
  qed
qed

lemma ledger_of_poll_round:
  assumes "ledger_of h (maxInFlight c) 0 k s" and "outside_ok h ch env poll"
    and "poll_round c poll ch env pck ctx settleCtx errN k s = Some (r, t)"
  shows "\<exists>q. r = Val q \<and> ledger_of h (maxInFlight c) 0 (snd (snd q)) t"
proof -
  let ?L = "ledger_of h (maxInFlight c)"
  have l0: "?L 0 k (env s)" using ledger_of_env [OF assms(1)] assms(2) by (simp add: outside_ok_def)
  from assms(3) obtain a u where u: "acquire (maxInFlight c) pck ctx (env s) = Some (a, u)"
    by (auto simp: poll_round_def bindOO_def split: option.splits)
  from ledger_of_acquire [OF l0 u] show ?thesis
  proof
    assume "(\<exists>e. a = Val (Some e)) \<and> ?L 0 k u"
    with assms(3) u show ?thesis by (auto simp: poll_round_def bindOO_def returnO_def ex_bool_eq)
  next
    assume a: "a = Val None \<and> ?L 1 k u"
    from ledger_of_acquire_more [of h "maxInFlight c" 1 k u "nat (pollMaxBatch c - 1)"] a obtain held v
      where v: "acquire_more (maxInFlight c) (nat (pollMaxBatch c - 1)) 1 u = (Val (int held), v)" and lv: "?L held k v" by auto
    have kp: "keeps (gate_view h) (safePoll poll ctx (int held))"
      unfolding safePoll_def using assms(2) by (intro keeps_intro) (simp add: outside_ok_def)
    have "total (safePoll poll ctx (int held))" by (simp add: safePoll_def total_basic)
    from totalD [OF this, of v] obtain q w where w: "safePoll poll ctx (int held) v = (Val q, w)" by blast
    have lw: "?L held k w" using ledger_of_keeps [OF kp w] lv by simp
    show ?thesis
    proof (cases q)
      case (Inl e)
      from ledger_of_releaseN [of h "maxInFlight c" 0 held k w] lw obtain x
        where x: "releaseN (int held) w = (Val (), x)" and lx: "?L 0 k x" by auto
      from assms(3) u a v w Inl x obtain b where
        sl: "sleepCtx (c_clock c) env pck ctx (pollErrorBackoff c (wrap64 (errN + 1))) x = Some (b, t)"
        and r: "r = (case b of Val awake \<Rightarrow> Val (awake, wrap64 (errN + 1), k) | Pan p \<Rightarrow> Pan p)"
        by (auto simp: poll_round_def bindOO_def bindO_def returnO_def split: option.splits res.splits)
      from ledger_of_sleep [OF lx assms(2) sl] r show ?thesis by auto
    next
      case (Inr rows)
      then have "poll ctx (int held) v = (Val (Inr rows), w)"
        using w by (auto simp: safePoll_def recoverP_def split: prod.splits res.splits)
      then have rows: "\<forall>d \<in> set rows. \<forall>ctx requeue delay. keeps (gate_view h) (Nack d ctx requeue delay)"
        using assms(2) unfolding outside_ok_def by blast
      have "poll_rows c ch env pck ctx settleCtx k (int held) rows w = Some (r, t)"
        using assms(3) u a v w Inr by (simp add: poll_round_def bindOO_def bindO_def)
      from ledger_of_poll_rows [OF lw assms(2) rows this] show ?thesis .
    qed
  qed
qed

text \<open>
  C12. The pull loop conserves credits. Whatever the source returns (errors, panics, fewer or more
  rows than asked for), however the workers progress meanwhile and whenever the shutdown
  comes, a run of the loop that starts with every credit accounted for ends without a panic
  (it never releases a negative number) and without ever blocking on a release, and then the
  credits taken are exactly those of the deliveries handed over and not yet released: none
  leaked, none released twice, never more than the gate holds.
\<close>
theorem poll_loop_conserves_credits:
  assumes "pollLoop c poll ch env pck ctx settleCtx errN k s = Some (r, t)"
    and "outside_ok h ch env poll" and "ledger_of h (maxInFlight c) 0 k s"
  shows "r = Val () \<and> \<not> stuck t \<and> credits t = card (h (ext t) - fired t) \<and> int (credits t) \<le> maxInFlight c"
proof -
  have "\<forall>h. outside_ok h ch env poll \<longrightarrow> ledger_of h (maxInFlight c) 0 k s \<longrightarrow>
      fst (r, t) = Val () \<and> (\<exists>k'. ledger_of h (maxInFlight c) 0 k' (snd (r, t)))"
  proof (rule pollLoop.raw_induct [where P = "\<lambda>c poll ch env pck ctx settleCtx errN k s rt.
      \<forall>h. outside_ok h ch env poll \<longrightarrow> ledger_of h (maxInFlight c) 0 k s \<longrightarrow>
        fst rt = Val () \<and> (\<exists>k'. ledger_of h (maxInFlight c) 0 k' (snd rt))", OF _ assms(1)], intro allI impI, goal_cases)
    case (1 loop c poll ch env pck ctx settleCtx errN k s rt h)
    then obtain q u where q: "poll_round c poll ch env pck ctx settleCtx errN k s = Some (q, u)"
      by (auto simp: bindOO_def split: option.splits)
    from ledger_of_poll_round [OF 1(4,3) q] obtain go e k' where "q = Val (go, e, k')" and led: "ledger_of h (maxInFlight c) 0 k' u" by auto
    with 1(2) q have "if go then loop c poll ch env pck ctx settleCtx e k' u = Some rt else rt = (Val (), u)"
      by (auto simp: bindOO_def returnO_def)
    with 1(1,3) led show ?case by (cases go) auto
  qed
  with assms(2,3) show ?thesis by (auto simp: ledger_of_def)
qed

definition demo_puller :: "(nat list cstate, string) consumer" where
  "demo_puller = consumer_of ((defaultConsumerConfig (\<lambda>_. 0))\<lparr>cfg_maxInFlight := 3, cfg_pollMaxBatch := 2, cfg_pollInterval := Second\<rparr>)
     (\<lambda>ctx m. returnP None) as_string None True None"

text \<open>A source that returns one row too many, with a shutdown once the first row was handed over.\<close>

definition demo_row :: "'s Delivery" where
  "demo_row = \<lparr>Msg = NewMessage GNil Map.empty, Ack = (\<lambda>ctx. returnP None), Nack = (\<lambda>ctx requeue delay. returnP None)\<rparr>"

definition demo_pull :: "(unit res \<times> nat list cstate) option" where
  "demo_pull =
     pollLoop demo_puller (\<lambda>ctx n. returnP (Inr [demo_row, demo_row, demo_row]))
       \<lparr>wc_ready = (\<lambda>_. True), wc_put = (\<lambda>k md s. s\<lparr>ext := k # ext s\<rparr>)\<rparr> (\<lambda>s. s) (\<lambda>_. 1)
       (\<lambda>s. if ext s = [] then None else Some (Foreign ''done'' 0)) (\<lambda>_. None) 0 0
       \<lparr>tracker = Map.empty, credits = 0, fired = {}, stuck = False, ext = []\<rparr>"

lemma demo_pull_eq:
  "demo_pull = Some (Val (), \<lparr>tracker = Map.empty, credits = 1, fired = {1}, stuck = False, ext = [0]\<rparr>)"
proof -
  have n: "nat ((2::int) - 1) = Suc 0" by simp
  show ?thesis
    unfolding demo_pull_def
    by (subst pollLoop.simps)
      (simp add: poll_round_def poll_rows_def acquire_def go_select_def bindOO_def bindO_def tryAcquire_def bindP_def returnP_def
        returnO_def safePoll_def recoverP_def clampExcess_def safeNack_def releaseN_def manage_def once_release_def gate_release_def
        demo_puller_def consumer_of_def defaultConsumerConfig_def demo_row_def n upt_conv_Cons)
qed

theorem poll_loop_conserves_credits_witness:
  "case demo_pull of None \<Rightarrow> False | Some (r, t) \<Rightarrow> r = Val () \<and> credits t = card (set (ext t) - fired t)"
proof -
  let ?poll = "\<lambda>ctx n. returnP (Inr [demo_row, demo_row, demo_row])"
  let ?ch = "\<lparr>wc_ready = (\<lambda>_. True), wc_put = (\<lambda>k md s. s\<lparr>ext := k # ext s\<rparr>)\<rparr>"
  have o: "outside_ok set ?ch (\<lambda>s. s) ?poll"
    by (auto simp: outside_ok_def worker_progress_def gate_view_def keeps_def returnP_def demo_row_def)
  have l: "ledger_of set (maxInFlight demo_puller) 0 0 \<lparr>tracker = Map.empty, credits = 0, fired = {}, stuck = False, ext = []\<rparr>"
    by (simp add: ledger_of_def demo_puller_def consumer_of_def defaultConsumerConfig_def)
  obtain r t where d: "demo_pull = Some (r, t)" using demo_pull_eq by blast
  from poll_loop_conserves_credits [OF d [unfolded demo_pull_def] o l] show ?thesis unfolding d by simp
qed

section \<open>The push loop\<close>

text \<open>
  \<open>ingest\<close> over the deliveries the source streams, after which the raw channel is closed; the
  deliveries are numbered from \<open>i\<close> on.
\<close>

fun ingest ::
  "('x cstate, 'a) consumer \<Rightarrow> 'x cstate workerCh \<Rightarrow> ('x cstate \<Rightarrow> 'x cstate) \<Rightarrow> ('x cstate \<Rightarrow> nat) \<Rightarrow> 'x cstate ctx
    \<Rightarrow> 'x cstate ctx \<Rightarrow> nat \<Rightarrow> 'x cstate Delivery list \<Rightarrow> ('x cstate, unit) oprog" where
  "ingest c ch env pck ctx settleCtx i [] s = returnO () (env s)"
| "ingest c ch env pck ctx settleCtx i (d # ds) s =
     (let s1 = env s in
      if go_select [ctx s1 \<noteq> None, True] (pck s1) = Some 0 then returnO () s1
      else bindOO (admit c env pck (wc_ready ch) ctx settleCtx i d) (\<lambda>(go, md) s2.
             let s3 = (case md of None \<Rightarrow> s2 | Some x \<Rightarrow> wc_put ch i x s2)
             in if go then ingest c ch env pck ctx settleCtx (Suc i) ds s3 else returnO () s3) s1)"

text \<open>What admission calls besides the settle closures leaves \<open>Q\<close> alone.\<close>

definition governors_preserve :: "('s \<Rightarrow> bool) \<Rightarrow> ('s, 'a) consumer \<Rightarrow> ('s \<Rightarrow> 's) \<Rightarrow> bool" where
  "governors_preserve Q c env \<longleftrightarrow>
     (\<forall>wait ctx. rateLimiter c = Some wait \<longrightarrow> preserves Q (wait ctx)) \<and>
     (\<forall>b. c_breaker c = Some b \<longrightarrow> preserves Q (cb_Allow b) \<and> preserves Q (cb_HalfOpen b)) \<and>
     hook_preserves Q (OnRetry (hooks c)) \<and> (\<forall>s. Q s \<longrightarrow> Q (env s))"

lemma preservesD: "preserves Q p \<Longrightarrow> Q s \<Longrightarrow> p s = (r, t) \<Longrightarrow> Q t"
  by (metis preserves_def snd_conv)

lemma total_safeHalfOpen: "total (safeHalfOpen b)"
  by (simp add: safeHalfOpen_def total_basic)

lemma breaker_loop_preserves:
  assumes "breaker_loop b env pck ctx s = Some (r, t)" and "preserves Q (cb_Allow b)" and "preserves Q (cb_HalfOpen b)"
    and "\<forall>s. Q s \<longrightarrow> Q (env s)" and "Q s"
  shows "(\<exists>ok. r = Val ok) \<and> Q t"
proof -
  have "\<forall>Q. preserves Q (cb_Allow b) \<longrightarrow> preserves Q (cb_HalfOpen b) \<longrightarrow> (\<forall>s. Q s \<longrightarrow> Q (env s)) \<longrightarrow> Q s \<longrightarrow>
      (\<exists>ok. fst (r, t) = Val ok) \<and> Q (snd (r, t))"
  proof (rule breaker_loop.raw_induct [where P = "\<lambda>b env pck ctx s rt.
      \<forall>Q. preserves Q (cb_Allow b) \<longrightarrow> preserves Q (cb_HalfOpen b) \<longrightarrow> (\<forall>s. Q s \<longrightarrow> Q (env s)) \<longrightarrow> Q s \<longrightarrow>
        (\<exists>ok. fst rt = Val ok) \<and> Q (snd rt)", OF _ assms(1)], intro allI impI, goal_cases)
    case (1 loop b env pck ctx s rt Q)
    have a: "preserves Q (safeAllow b)" and h: "preserves Q (safeHalfOpen b)"
      unfolding safeAllow_def safeHalfOpen_def using 1(3,4) by (auto intro!: preserves_intro)
    obtain ok s1 where s1: "safeAllow b s = (Val ok, s1)" using totalD [OF total_safe(7), of b s] by blast
    obtain w s2 where s2: "safeHalfOpen b s1 = (Val w, s2)" using totalD [OF total_safeHalfOpen, of b s1] by blast
    obtain ok' s3 where s3: "safeAllow b s2 = (Val ok', s3)" using totalD [OF total_safe(7), of b s2] by blast
    have q: "Q s1" "Q s2" "Q s3" "Q (env s3)"
      using preservesD [OF a 1(6) s1] preservesD [OF h _ s2] preservesD [OF a _ s3] 1(5) by blast+
    show ?case
    proof (cases "ok \<or> w = None \<or> ok'")
      case True
      with 1(2) s1 s2 s3 have "rt = (Val True, s1) \<or> rt = (Val True, s2) \<or> rt = (Val True, s3)"
        by (auto simp: bindO_def returnO_def split: if_splits option.splits)
      with q show ?thesis by auto
    next
      case False
      then obtain woken where w: "w = Some woken" "\<not> ok" "\<not> ok'" by auto
      with 1(2) s1 s2 s3 obtain j :: nat where
        "(if j = 0 then loop b env pck ctx (env s3) else returnO False (env s3)) = Some rt"
        by (auto simp: bindO_def split: option.splits)
      with 1(1) [of b env pck ctx "env s3" rt] 1(3-5) q(4) show ?thesis by (auto simp: returnO_def split: if_splits)
    qed
  qed
  from this [THEN spec [of _ Q]] assms(2-) show ?thesis by simp
qed

lemma admitBreaker_preserves:
  assumes "admitBreaker c env pck ctx s = Some (r, t)" and "governors_preserve Q c env" and "Q s"
  shows "(\<exists>ok. r = Val ok) \<and> Q t"
  using assms breaker_loop_preserves [of _ env pck ctx s r t Q]
  by (auto simp: admitBreaker_def governors_preserve_def returnO_def split: option.splits)

text \<open>
  The ledger before and after an admission: \<open>f\<close> counts the settlements of the delivery. Either it
  goes to the workers with a credit of its own, unsettled, or it was settled once.
\<close>

definition admitted ::
  "('x \<Rightarrow> nat set) \<Rightarrow> int \<Rightarrow> ('x cstate \<Rightarrow> nat) \<Rightarrow> 'x cstate Delivery \<Rightarrow> nat \<Rightarrow> nat
    \<Rightarrow> (bool \<times> 'x cstate Delivery option) res \<times> 'x cstate \<Rightarrow> bool" where
  "admitted h cap f d i n = (\<lambda>(r, t). \<exists>go md. r = Val (go, md) \<and>
     (case md of
        Some x \<Rightarrow> go \<and> x = manage d i \<and> f t = n \<and> ledger_of h cap 1 i t
      | None \<Rightarrow> f t = Suc n \<and> ledger_of h cap 0 (Suc i) t))"

lemma nack_admitted:
  assumes "ledger_of h cap 0 i s" and "f s = n" and "settles f d" and "keeps (gate_view h) (Nack d ctx requeue 0)"
    and "bindO (safeNack ctx d requeue 0) (\<lambda>_. returnO (go, None)) s = Some rt"
  shows "admitted h cap f d i n rt"
proof -
  have "total (safeNack ctx d requeue 0)" by (rule total_safe)
  from totalD [OF this, of s] obtain e t where t: "safeNack ctx d requeue 0 s = (Val e, t)" by blast
  with assms(5) have "rt = (Val (go, None), t)" by (simp add: bindO_def returnO_def)
  moreover have "f t = Suc n" using addsD [OF adds_safe(2) [OF assms(3)] t] assms(2) by simp
  moreover have k: "keeps (gate_view h) (safeNack ctx d requeue 0)" unfolding safeNack_def by (intro keeps_intro assms(4))
  have "ledger_of h cap 0 (Suc i) t" using ledger_of_keeps [OF k t] ledger_of_unused [OF assms(1)] by simp
  ultimately show ?thesis by (simp add: admitted_def ex_bool_eq)
qed

lemma managed_admitted:
  assumes "ledger_of h cap 1 i s" and "f s = n" and "f = (\<lambda>s. g (ext s))" and "settles f d" and "keeps (gate_view h) (Nack d settleCtx True 0)"
    and "admit_managed ctx settleCtx pck out_ready i d s = Some rt"
  shows "admitted h cap f d i n rt"
proof -
  from assms(6) obtain k where k: "go_select [out_ready s, ctx s \<noteq> None] (pck s) = Some k"
    by (auto simp: admit_managed_def Let_def split: option.splits)
  show ?thesis
  proof (cases "k = 0")
    case True
    with assms(1,2,6) k show ?thesis by (auto simp: admit_managed_def Let_def returnO_def admitted_def)
  next
    case False
    from ledger_of_managed_nack [of h cap 0 i s d settleCtx True 0] assms(1,5) obtain e t
      where t: "safeNack settleCtx (manage d i) True 0 s = (Val e, t)" "ledger_of h cap 0 (Suc i) t" by auto
    have "f t = Suc n" using addsD [OF adds_safe(2) [OF settles_manage [OF assms(4,3)]] t(1)] assms(2) by simp
    with t False k assms(6) show ?thesis by (auto simp: admit_managed_def Let_def bindO_def returnO_def admitted_def ex_bool_eq)
  qed
qed

text \<open>
  C13. Admission of a streamed delivery either hands it to the workers, unsettled and holding one
  credit of its own, or settles it exactly once, with every credit accounted for: whatever
  the rate limiter, the breaker, the hooks and the settle closures do (panics included),
  whichever way a shutdown races the hand-over, and under every overflow policy. A delivery
  is never dropped silently and a credit is never leaked.
\<close>
theorem admission_hands_over_or_settles:
  assumes "admit c env pck out_ready ctx settleCtx i d s = Some rt"
    and "ledger_of h (maxInFlight c) 0 i s"
    and "governors_preserve (\<lambda>t. f t = f s \<and> ledger_of h (maxInFlight c) 0 i t) c env"
    and "settles f d" and "f = (\<lambda>s. g (ext s))" and "\<forall>ctx requeue delay. keeps (gate_view h) (Nack d ctx requeue delay)"
  shows "admitted h (maxInFlight c) f d i (f s) rt"
proof -
  let ?Q = "\<lambda>t. f t = f s \<and> ledger_of h (maxInFlight c) 0 i t"
  let ?wait = "case rateLimiter c of None \<Rightarrow> returnP None | Some wait \<Rightarrow> safeLimiterWait wait ctx"
  have pre: "preserves ?Q ?wait" and tot: "total ?wait"
    using assms(3) by (auto simp: governors_preserve_def safeLimiterWait_def total_basic split: option.splits intro!: preserves_intro)
  have nack: "admitted h (maxInFlight c) f d i (f s) rt"
    if "?Q u" "bindO (safeNack settleCtx d requeue 0) (\<lambda>_. returnO (go, None)) u = Some rt" for u requeue go
    using nack_admitted [OF _ _ assms(4) _ that(2), of h "maxInFlight c" i] that(1) assms(6) by blast
  obtain limErr s1 where s1: "?wait s = (Val limErr, s1)" using totalD [OF tot, of s] by blast
  have q1: "?Q s1" using preservesD [OF pre _ s1] assms(2) by simp
  show ?thesis
  proof (cases limErr)
    case (Some e)
    with assms(1) s1 have "bindO (safeNack settleCtx d True 0) (\<lambda>_. returnO (False, None)) s1 = Some rt"
      by (simp add: admit_def bindO_def)
    with q1 show ?thesis by (rule nack)
  next
    case None
    with assms(1) s1 obtain okr s2 where s2: "admitBreaker c env pck ctx s1 = Some (okr, s2)"
      by (auto simp: admit_def bindO_def bindOO_def split: option.splits)
    from admitBreaker_preserves [OF s2 assms(3) q1] obtain ok where ok: "okr = Val ok" and q2: "?Q s2" by blast
    have rest: "(if \<not> ok then bindO (safeNack settleCtx d True 0) (\<lambda>_. returnO (False, None))
        else if sheds (c_overflow c) then
           bindO (tryAcquire (maxInFlight c)) (\<lambda>got.
             if \<not> got then
               bindO (safeFire (OnRetry (hooks c)) settleCtx (Msg d) (Some (Sentinel ErrOverflowDropped))) (\<lambda>_.
                 bindO (safeNack settleCtx d False 0) (\<lambda>_. returnO (True, None)))
             else admit_managed ctx settleCtx pck out_ready i d)
         else
           bindOO (acquire (maxInFlight c) pck ctx) (\<lambda>acqErr.
             if acqErr \<noteq> None then bindO (safeNack settleCtx d True 0) (\<lambda>_. returnO (False, None))
             else admit_managed ctx settleCtx pck out_ready i d)) s2 = Some rt"
      using assms(1) s1 None s2 ok by (simp add: admit_def bindO_def bindOO_def)
    have handed: "admitted h (maxInFlight c) f d i (f s) rt"
      if "ledger_of h (maxInFlight c) 1 i u" "f u = f s" "admit_managed ctx settleCtx pck out_ready i d u = Some rt" for u
      using managed_admitted [OF that(1,2) assms(5,4) _ that(3)] assms(6) by blast
    consider (refused) "\<not> ok" | (shed) "ok" "sheds (c_overflow c)" | (block) "ok" "\<not> sheds (c_overflow c)" by blast
    then show ?thesis
    proof cases
      case refused
      with rest q2 show ?thesis by (auto intro: nack)
    next
      case shed
      show ?thesis
      proof (cases "int (credits s2) < maxInFlight c")
        case True
        with rest shed have "admit_managed ctx settleCtx pck out_ready i d (s2\<lparr>credits := credits s2 + 1\<rparr>) = Some rt"
          by (simp add: bindO_def tryAcquire_def)
        moreover have "f (s2\<lparr>credits := credits s2 + 1\<rparr>) = f s" using q2 assms(5) by simp
        moreover have "ledger_of h (maxInFlight c) 1 i (s2\<lparr>credits := credits s2 + 1\<rparr>)"
          using ledger_of_take [OF conjunct2 [OF q2] True] by simp
        ultimately show ?thesis by (intro handed)
      next
        case False
        have "total (safeFire (OnRetry (hooks c)) settleCtx (Msg d) (Some (Sentinel ErrOverflowDropped)))" by (rule total_safeFire)
        from totalD [OF this, of s2] obtain x s3
          where s3: "safeFire (OnRetry (hooks c)) settleCtx (Msg d) (Some (Sentinel ErrOverflowDropped)) s2 = (Val x, s3)" by blast
        have "hook_preserves ?Q (OnRetry (hooks c))" using assms(3) by (simp add: governors_preserve_def)
        from preservesD [OF preserves_safeFire [OF this] q2 s3] have "?Q s3" .
        moreover from rest shed False s3 have "bindO (safeNack settleCtx d False 0) (\<lambda>_. returnO (True, None)) s3 = Some rt"
          by (simp add: bindO_def tryAcquire_def)
        ultimately show ?thesis by (rule nack)
      qed
    next
      case block
      from rest block obtain a u where u: "acquire (maxInFlight c) pck ctx s2 = Some (a, u)"
        by (auto simp: bindOO_def split: option.splits)
      have fu: "f u = f s" using u q2 assms(5) by (auto simp: acquire_def split: option.splits if_splits)
      from ledger_of_acquire [OF conjunct2 [OF q2] u] show ?thesis
        using rest block u fu by (auto simp: bindOO_def intro: handed nack)
    qed
  qed
qed

theorem admission_hands_over_or_settles_witness:
  "case admit (demo_consumer 1 None) (\<lambda>s. s) (\<lambda>_. 0) (\<lambda>_. True) (\<lambda>_. None) (\<lambda>_. None) 0 demo_delivery (demo_state0\<lparr>credits := 0\<rparr>) of
     None \<Rightarrow> False | Some rt \<Rightarrow> admitted (\<lambda>_. {}) 4 (logged [''ack'', ''nack'']) demo_delivery 0 0 rt"
proof -
  let ?s = "demo_state0\<lparr>credits := 0\<rparr>" and ?f = "logged [''ack'', ''nack'']"
  let ?run = "admit (demo_consumer 1 None) (\<lambda>s. s) (\<lambda>_. 0) (\<lambda>_. True) (\<lambda>_. None) (\<lambda>_. None) 0 demo_delivery ?s"
  have "?run \<noteq> None"
    by (simp add: admit_def demo_consumer_def bindO_def returnP_def bindOO_def admitBreaker_def returnO_def acquire_def
        go_select_def demo_state0_def admit_managed_def Let_def)
  then obtain rt where rt: "?run = Some rt" by blast
  have m: "maxInFlight (demo_consumer 1 None) = 4" by (simp add: demo_consumer_def)
  have l: "ledger_of (\<lambda>_. {}) (maxInFlight (demo_consumer 1 None)) 0 0 ?s" by (simp add: ledger_of_def demo_state0_def m)
  have g: "governors_preserve Q (demo_consumer 1 None) (\<lambda>s. s)" for Q
    by (simp add: governors_preserve_def demo_consumer_def hook_preserves_def)
  have f: "?f = (\<lambda>s. length (filter (\<lambda>x. x \<in> set [''ack'', ''nack'']) (ext s)))" by (simp add: fun_eq_iff logged_def)
  have n: "\<forall>ctx requeue delay. keeps (gate_view (\<lambda>_. {})) (Nack demo_delivery ctx requeue delay)"
    by (simp add: keeps_def gate_view_def demo_delivery_def demo_log_def)
  from admission_hands_over_or_settles [OF rt l g demo_settles f n] have "admitted (\<lambda>_. {}) 4 ?f demo_delivery 0 (?f ?s) rt" unfolding m .
  moreover have "?f ?s = 0" by (simp add: logged_def demo_state0_def)
  ultimately show ?thesis unfolding rt by simp
qed

end
