(* ===== verification/Producer.thy ===== *)
theory Producer
  imports Ingress
begin

text \<open>
  The producer (\<^verbatim>\<open>endpoint/producer.go\<close>): construction, encoding, the plain send, the retry loop
  with its attempt limit, time budget and server-instructed delays, the dead-letter divert on
  a detached context, and scheduled sends. The adapter, the codec, hooks and sinks are
  programs over the world; the loop is partial, because a wait with no timer firing and no
  cancellation would not end.

  The lemmas: the delay before a retry is never below the floor and never undercuts the
  server; a send over a clock that advances always returns, within a number of attempts fixed
  by the budget; and every transient failure that ends the loop is offered to the dead-letter
  sink exactly once, with the outcome told apart from a delivery.
\<close>

section \<open>Construction\<close>

text \<open>An outbound adapter is its \<open>Send\<close> and what its type assertions find.\<close>

record 's outbound =
  out_Send :: "'s OutboundAdapter"
  out_SendAfter :: "('s ctx \<Rightarrow> msg \<Rightarrow> duration \<Rightarrow> ('s, err option) prog) option"
  out_live :: "bool option"

record ('s, 'a) producerConfig =
  pc_codec :: "('a \<Rightarrow> ('s, err + string) prog) option"
  pc_codecSet :: bool
  pc_clock :: "'s \<Rightarrow> time"
  pc_retry :: "'s RetryPolicy"
  pc_retrySet :: bool
  pc_retryAfterCap :: duration
  pc_retryAfterCapSet :: bool
  pc_retryBudget :: duration
  pc_retryBudgetSet :: bool
  pc_deadLetterTimeout :: duration
  pc_deadLetterTimeoutSet :: bool
  pc_hooks :: "'s Hooks"

type_synonym ('s, 'a) ProducerOption = "('s, 'a) producerConfig \<Rightarrow> ('s, 'a) producerConfig"

abbreviation defaultRetryAfterCap :: duration where "defaultRetryAfterCap \<equiv> 60 * Second"
abbreviation defaultRetryBudget :: duration where "defaultRetryBudget \<equiv> 2 * Minute"
abbreviation defaultDeadLetterTimeout :: duration where "defaultDeadLetterTimeout \<equiv> 30 * Second"
abbreviation minRetryDelay :: duration where "minRetryDelay \<equiv> 100 * Millisecond"

definition WithProducerCodec :: "('a \<Rightarrow> ('s, err + string) prog) option \<Rightarrow> ('s, 'a) ProducerOption" where
  "WithProducerCodec c cfg = cfg\<lparr>pc_codec := c, pc_codecSet := True\<rparr>"

definition WithProducerClock :: "('s \<Rightarrow> time) option \<Rightarrow> ('s, 'a) ProducerOption" where
  "WithProducerClock c cfg = (case c of None \<Rightarrow> cfg | Some clk \<Rightarrow> cfg\<lparr>pc_clock := clk\<rparr>)"

definition WithProducerRetry :: "'s RetryPolicy \<Rightarrow> ('s, 'a) ProducerOption" where
  "WithProducerRetry p cfg = cfg\<lparr>pc_retry := p, pc_retrySet := True\<rparr>"

definition WithProducerRetryAfterCap :: "duration \<Rightarrow> ('s, 'a) ProducerOption" where
  "WithProducerRetryAfterCap d cfg = cfg\<lparr>pc_retryAfterCap := d, pc_retryAfterCapSet := True\<rparr>"

definition WithProducerRetryBudget :: "duration \<Rightarrow> ('s, 'a) ProducerOption" where
  "WithProducerRetryBudget d cfg = cfg\<lparr>pc_retryBudget := d, pc_retryBudgetSet := True\<rparr>"

definition WithProducerDeadLetterTimeout :: "duration \<Rightarrow> ('s, 'a) ProducerOption" where
  "WithProducerDeadLetterTimeout d cfg = cfg\<lparr>pc_deadLetterTimeout := d, pc_deadLetterTimeoutSet := True\<rparr>"

definition WithProducerHooks :: "'s Hooks \<Rightarrow> ('s, 'a) ProducerOption" where
  "WithProducerHooks h cfg = cfg\<lparr>pc_hooks := h\<rparr>"

record ('s, 'a) producer =
  p_out :: "'s outbound"
  p_codec :: "'a \<Rightarrow> ('s, err + string) prog"
  p_liveValue :: bool
  p_clock :: "'s \<Rightarrow> time"
  p_retry :: "'s RetryPolicy"
  p_retrySet :: bool
  p_retryAfterCap :: duration
  p_retryBudget :: duration
  p_deadLetterTimeout :: duration
  p_hooks :: "'s Hooks"

definition defaultProducerConfig :: "('s \<Rightarrow> time) \<Rightarrow> ('s, 'a) producerConfig" where
  "defaultProducerConfig wall =
     \<lparr>pc_codec = None, pc_codecSet = False, pc_clock = wall,
      pc_retry = \<lparr>MaxAttempts = 0, Backoff = None, DeadLetter = None\<rparr>, pc_retrySet = False,
      pc_retryAfterCap = 0, pc_retryAfterCapSet = False, pc_retryBudget = 0, pc_retryBudgetSet = False,
      pc_deadLetterTimeout = 0, pc_deadLetterTimeoutSet = False,
      pc_hooks = \<lparr>OnRetry = None, OnDeadLetter = None, OnInvalidMessage = None, OnAck = None\<rparr>\<rparr>"

text \<open>The checks that follow the codec's resolution, in their order.\<close>

definition checkProducerConfig :: "('s, 'a) producerConfig \<Rightarrow> err option" where
  "checkProducerConfig cfg =
     (case (if pc_retrySet cfg then Validate (pc_retry cfg) else None) of
        Some e \<Rightarrow> Some e
      | None \<Rightarrow>
          if pc_retrySet cfg \<and> MaxAttempts (pc_retry cfg) = 0 \<and> Backoff (pc_retry cfg) = None
          then Some (Sentinel ErrUnboundedRetry)
          else if pc_retryAfterCapSet cfg \<and> pc_retryAfterCap cfg \<le> 0 then Some (Sentinel ErrInvalidRetryAfterCap)
          else if pc_retryBudgetSet cfg \<and> pc_retryBudget cfg \<le> 0 then Some (Sentinel ErrInvalidRetryBudget)
          else if pc_deadLetterTimeoutSet cfg \<and> pc_deadLetterTimeout cfg \<le> 0 then Some (Sentinel ErrInvalidDeadLetterTimeout)
          else None)"

definition NewProducer ::
  "('s \<Rightarrow> time) \<Rightarrow> ('a \<Rightarrow> ('s, err + string) prog) \<Rightarrow> 's outbound option \<Rightarrow> ('s, 'a) ProducerOption option list
    \<Rightarrow> err + ('s, 'a) producer" where
  "NewProducer wall json out opts =
     (case out of None \<Rightarrow> Inl (Sentinel ErrNilAdapter) | Some snk \<Rightarrow>
      (case apply_opts 0 opts (defaultProducerConfig wall) of Inl i \<Rightarrow> Inl (nilOptionAt ''endpoint.NewProducer'' i) | Inr cfg \<Rightarrow>
      (case resolveCodec (out_live snk) (pc_codec cfg) (pc_codecSet cfg) json of Inl e \<Rightarrow> Inl e | Inr (codec, live) \<Rightarrow>
      (case checkProducerConfig cfg of
         Some e \<Rightarrow> Inl e
       | None \<Rightarrow>
           Inr \<lparr>p_out = snk,
                p_codec = (case codec of Some f \<Rightarrow> f | None \<Rightarrow> (\<lambda>_ s. (Pan (GValue ''runtime.Error'' 0), s))),
                p_liveValue = live, p_clock = pc_clock cfg, p_retry = pc_retry cfg, p_retrySet = pc_retrySet cfg,
                p_retryAfterCap = (if pc_retryAfterCapSet cfg then pc_retryAfterCap cfg else defaultRetryAfterCap),
                p_retryBudget = (if pc_retryBudgetSet cfg then pc_retryBudget cfg else defaultRetryBudget),
                p_deadLetterTimeout = (if pc_deadLetterTimeoutSet cfg then pc_deadLetterTimeout cfg else defaultDeadLetterTimeout),
                p_hooks = pc_hooks cfg\<rparr>))))"

section \<open>Sending\<close>

definition producer_box :: "('a \<Rightarrow> goval) \<Rightarrow> ('s, 'a) producer \<Rightarrow> 'a message \<Rightarrow> ('s, err + msg) prog" where
  "producer_box inject p m =
     (if p_liveValue p then returnP (Inr (NewMessage (inject (payload m)) (headers m)))
      else bindP (p_codec p (payload m)) (\<lambda>r.
             (case r of
                Inl e \<Rightarrow> returnP (Inl (Errorf ''msgin: producer encode failed: %w'' [ArgW e]))
              | Inr b \<Rightarrow> returnP (Inr (NewMessage (GBytes b) (headers m))))))"

definition nextDelay :: "('s, 'a) producer \<Rightarrow> int \<Rightarrow> err \<Rightarrow> ('s, duration) prog" where
  "nextDelay p attempt e =
     bindP (retryDelay (p_retry p) attempt) (\<lambda>d0.
       let d = (case RetryAfterOf (Some e) of Some server \<Rightarrow> max d0 (min server (p_retryAfterCap p)) | None \<Rightarrow> d0)
       in returnP (max d minRetryDelay))"

text \<open>\<open>env d s\<close> is the world in which a wait for \<open>d\<close> begun in \<open>s\<close> is resolved.\<close>

definition producer_wait ::
  "('s, 'a) producer \<Rightarrow> (duration \<Rightarrow> 's \<Rightarrow> 's) \<Rightarrow> ('s \<Rightarrow> nat) \<Rightarrow> 's ctx \<Rightarrow> duration \<Rightarrow> ('s, err option) oprog" where
  "producer_wait p env pck ctx d s =
     (let s' = env d s in
      case go_select [ctx s' \<noteq> None, p_clock p s + d \<le> p_clock p s'] (pck s') of
        None \<Rightarrow> None
      | Some i \<Rightarrow> returnO (if i = 0 then ctx s' else None) s')"

definition safeDeadLetter :: "'s OutboundAdapter \<Rightarrow> 's ctx \<Rightarrow> msg \<Rightarrow> ('s, err option) prog" where
  "safeDeadLetter sink ctx m =
     recoverP (sink ctx m) (\<lambda>r. Some (Errorf ''msgin: producer DeadLetter.Send panicked: %v'' [ArgV r]))"

text \<open>\<open>fireHook\<close> has the body of the consumer's \<open>safeFire\<close>.\<close>

definition fireHook :: "'s hook option \<Rightarrow> 's ctx \<Rightarrow> msg \<Rightarrow> err option \<Rightarrow> ('s, unit) prog" where
  "fireHook h ctx m e = (case h of None \<Rightarrow> returnP () | Some f \<Rightarrow> recoverP (f ctx m e) (\<lambda>_. ()))"

text \<open>\<^verbatim>\<open>context.WithTimeout(context.WithoutCancel(ctx), d)\<close>, on the wall clock.\<close>

definition detached :: "('s \<Rightarrow> time) \<Rightarrow> time \<Rightarrow> duration \<Rightarrow> 's ctx" where
  "detached wall start d = (\<lambda>s. if start + d \<le> wall s then Some DeadlineExceeded else None)"

definition deadLetter :: "('s \<Rightarrow> time) \<Rightarrow> ('s, 'a) producer \<Rightarrow> msg \<Rightarrow> err \<Rightarrow> ('s, err option) prog" where
  "deadLetter wall p boxed cause =
     (case DeadLetter (p_retry p) of
        None \<Rightarrow> returnP (Some cause)
      | Some sink \<Rightarrow>
          bindP (readP wall) (\<lambda>start.
            let dlCtx = detached wall start (p_deadLetterTimeout p) in
            bindP (safeDeadLetter sink dlCtx boxed) (\<lambda>dlErr.
              let out = (case dlErr of
                           Some e \<Rightarrow> errors_Join [Some cause, Some e]
                         | None \<Rightarrow> Some (Errorf ''%w: %w'' [ArgW (Sentinel ErrDeadLettered), ArgW cause]))
              in bindP (fireHook (OnDeadLetter (p_hooks p)) dlCtx boxed out) (\<lambda>_. returnP out))))"

partial_function (option) sendRetrying ::
  "('s \<Rightarrow> time) \<Rightarrow> ('s, 'a) producer \<Rightarrow> (duration \<Rightarrow> 's \<Rightarrow> 's) \<Rightarrow> ('s \<Rightarrow> nat) \<Rightarrow> 's ctx \<Rightarrow> time \<Rightarrow> msg \<Rightarrow> int
    \<Rightarrow> ('s, err option) oprog" where
  "sendRetrying wall p env pck ctx deadline boxed attempt s =
     bindO (out_Send (p_out p) ctx boxed) (\<lambda>r s1.
       (case r of
          None \<Rightarrow> returnO None s1
        | Some e \<Rightarrow>
            if IsPermanent (Some e) then returnO (Some e) s1
            else if MaxAttempts (p_retry p) > 0 \<and> attempt \<ge> MaxAttempts (p_retry p) then liftO (deadLetter wall p boxed e) s1
            else bindO (nextDelay p attempt e) (\<lambda>wait s2.
              if p_clock p s2 + wait > deadline
              then liftO (deadLetter wall p boxed (Errorf ''%w: %w'' [ArgW (Sentinel ErrRetryBudgetExhausted), ArgW e])) s2
              else bindO (fireHook (OnRetry (p_hooks p)) ctx boxed (Some e)) (\<lambda>_ s3.
                bindOO (producer_wait p env pck ctx wait) (\<lambda>waitErr s4.
                  (case waitErr of
                     Some w \<Rightarrow> bindO (deadLetter wall p boxed e) (\<lambda>dl. returnO (errors_Join [dl, Some w])) s4
                   | None \<Rightarrow> sendRetrying wall p env pck ctx deadline boxed (attempt + 1) s4)) s3) s2) s1)) s"

definition producer_Send ::
  "('a \<Rightarrow> goval) \<Rightarrow> ('s \<Rightarrow> time) \<Rightarrow> ('s, 'a) producer \<Rightarrow> (duration \<Rightarrow> 's \<Rightarrow> 's) \<Rightarrow> ('s \<Rightarrow> nat) \<Rightarrow> 's ctx \<Rightarrow> 'a message
    \<Rightarrow> ('s, err option) oprog" where
  "producer_Send inject wall p env pck ctx m =
     bindO (producer_box inject p m) (\<lambda>r.
       (case r of
          Inl e \<Rightarrow> returnO (Some e)
        | Inr boxed \<Rightarrow>
            if \<not> p_retrySet p then liftO (out_Send (p_out p) ctx boxed)
            else (\<lambda>s. sendRetrying wall p env pck ctx (p_clock p s + p_retryBudget p) boxed 1 s)))"

definition producer_SendAfter ::
  "('a \<Rightarrow> goval) \<Rightarrow> ('s, 'a) producer \<Rightarrow> 's ctx \<Rightarrow> 'a message \<Rightarrow> duration \<Rightarrow> ('s, err option) prog" where
  "producer_SendAfter inject p ctx m delay =
     (case out_SendAfter (p_out p) of
        None \<Rightarrow> returnP (Some (Sentinel ErrScheduledSendUnsupported))
      | Some sched \<Rightarrow>
          bindP (producer_box inject p m) (\<lambda>r.
            (case r of Inl e \<Rightarrow> returnP (Some e) | Inr boxed \<Rightarrow> sched ctx boxed (if delay < 0 then 0 else delay))))"

text \<open>\<^verbatim>\<open>Time.Sub\<close> saturates at the bounds of a duration.\<close>

definition time_Sub :: "time \<Rightarrow> time \<Rightarrow> duration" where
  "time_Sub t u = max MinInt64 (min MaxInt64 (t - u))"

definition producer_SendAt ::
  "('a \<Rightarrow> goval) \<Rightarrow> ('s, 'a) producer \<Rightarrow> 's ctx \<Rightarrow> 'a message \<Rightarrow> time \<Rightarrow> ('s, err option) prog" where
  "producer_SendAt inject p ctx m t =
     bindP (readP (p_clock p)) (\<lambda>now. producer_SendAfter inject p ctx m (time_Sub t now))"

section \<open>The delay before a retry\<close>

lemma nextDelay_value:
  "nextDelay p attempt e s =
     (case retryDelay (p_retry p) attempt s of
        (Val d0, s') \<Rightarrow> (Val (max minRetryDelay (max d0 (case RetryAfterOf (Some e) of
            Some server \<Rightarrow> min server (p_retryAfterCap p) | None \<Rightarrow> minRetryDelay))), s')
      | (Pan x, s') \<Rightarrow> (Pan x, s'))"
  by (auto simp: nextDelay_def prog_simps max_def Let_def split: prod.splits res.splits option.splits)

lemma nextDelay_floor: "nextDelay p attempt e s = (Val w, t) \<Longrightarrow> minRetryDelay \<le> w"
  by (auto simp: nextDelay_value split: prod.splits res.splits)

section \<open>What a send relies on\<close>

text \<open>
  \<open>f\<close> counts the calls of the adapter's \<open>Send\<close>; nothing else the producer calls changes it, and no
  call turns the clock back. \<open>timer_fires\<close>: a wait is resolved by the timer or by the context.
\<close>

definition forward :: "('s \<Rightarrow> time) \<Rightarrow> ('s, 'a) prog \<Rightarrow> bool" where
  "forward clk q \<longleftrightarrow> (\<forall>s. clk s \<le> clk (snd (q s)))"

definition send_counted :: "('s \<Rightarrow> nat) \<Rightarrow> ('s, 'a) producer \<Rightarrow> (duration \<Rightarrow> 's \<Rightarrow> 's) \<Rightarrow> bool" where
  "send_counted f p env \<longleftrightarrow>
     (\<forall>ctx m. adds f (out_Send (p_out p) ctx m) \<and> forward (p_clock p) (out_Send (p_out p) ctx m)) \<and>
     (\<forall>g n. Backoff (p_retry p) = Some g \<longrightarrow> keeps f (g n) \<and> forward (p_clock p) (g n)) \<and>
     (\<forall>h. OnRetry (p_hooks p) = Some h \<longrightarrow> (\<forall>ctx m e. keeps f (h ctx m e) \<and> forward (p_clock p) (h ctx m e))) \<and>
     hook_keeps f (OnDeadLetter (p_hooks p)) \<and> sink_keeps f (DeadLetter (p_retry p)) \<and>
     (\<forall>d s. f (env d s) = f s)"

definition timer_fires :: "('s, 'a) producer \<Rightarrow> (duration \<Rightarrow> 's \<Rightarrow> 's) \<Rightarrow> 's ctx \<Rightarrow> bool" where
  "timer_fires p env ctx \<longleftrightarrow> (\<forall>d s. ctx (env d s) \<noteq> None \<or> p_clock p s + d \<le> p_clock p (env d s))"

lemma forwardD: "forward clk q \<Longrightarrow> q s = (r, t) \<Longrightarrow> clk s \<le> clk t"
  by (metis forward_def snd_conv)

lemma fireHook_safeFire: "fireHook = safeFire"
  by (simp add: fun_eq_iff fireHook_def safeFire_def)

lemma deadLetter_total: "total (deadLetter wall p boxed cause)"
  by (cases "DeadLetter (p_retry p)")
    (auto simp: deadLetter_def safeDeadLetter_def fireHook_safeFire Let_def intro!: total_intro)

lemma deadLetter_keeps:
  assumes "send_counted f p env"
  shows "keeps f (deadLetter wall p boxed cause)"
proof (cases "DeadLetter (p_retry p)")
  case (Some sink)
  with assms have "\<forall>ctx m. keeps f (sink ctx m)" and "hook_keeps f (OnDeadLetter (p_hooks p))"
    by (auto simp: send_counted_def sink_keeps_def)
  then show ?thesis using Some
    by (auto simp: deadLetter_def safeDeadLetter_def fireHook_safeFire Let_def intro!: keeps_intro)
qed (simp add: deadLetter_def keeps_basic)

lemma nextDelay_effects:
  assumes "send_counted f p env" and "nextDelay p attempt e s = (r, t)"
  shows "f t = f s \<and> p_clock p s \<le> p_clock p t"
proof (cases "Backoff (p_retry p)")
  case None
  with assms(2) show ?thesis by (auto simp: nextDelay_value retryDelay_def returnP_def)
next
  case (Some g)
  obtain r' where g: "g (attempt - 1) s = (r', t)"
    using assms(2) Some by (auto simp: nextDelay_value retryDelay_def split: prod.splits res.splits)
  have k: "keeps f (g (attempt - 1))" "forward (p_clock p) (g (attempt - 1))"
    using assms(1) Some by (auto simp: send_counted_def)
  show ?thesis using keepsD [OF k(1) g] forwardD [OF k(2) g] by simp
qed

lemma retry_hook_effects:
  assumes "send_counted f p env"
  shows "\<exists>t. fireHook (OnRetry (p_hooks p)) ctx m e s = (Val (), t) \<and> f t = f s \<and> p_clock p s \<le> p_clock p t"
proof (cases "OnRetry (p_hooks p)")
  case (Some h)
  obtain r t where t: "h ctx m e s = (r, t)" by fastforce
  have k: "keeps f (h ctx m e)" "forward (p_clock p) (h ctx m e)" using assms Some by (auto simp: send_counted_def)
  have "fireHook (OnRetry (p_hooks p)) ctx m e s = (Val (), t)"
    using t Some by (cases r) (simp_all add: fireHook_def recoverP_def)
  then show ?thesis using keepsD [OF k(1) t] forwardD [OF k(2) t] by blast
qed (simp add: fireHook_def returnP_def)

lemma producer_wait_result:
  assumes "timer_fires p env ctx"
  shows "\<exists>w. producer_wait p env pck ctx d s = Some (Val w, env d s) \<and>
     (case w of None \<Rightarrow> p_clock p s + d \<le> p_clock p (env d s) | Some e \<Rightarrow> ctx (env d s) = Some e)"
proof -
  let ?ready = "[ctx (env d s) \<noteq> None, p_clock p s + d \<le> p_clock p (env d s)]"
  have "go_select ?ready (pck (env d s)) \<noteq> None"
  proof
    assume "go_select ?ready (pck (env d s)) = None"
    then have "\<forall>i < 2. \<not> ?ready ! i" by (simp add: go_select_None)
    from this [rule_format, of 0] this [rule_format, of 1] assms [unfolded timer_fires_def, rule_format, of d s]
    show False by auto
  qed
  then obtain i where i: "go_select ?ready (pck (env d s)) = Some i" by blast
  from go_select_ready [OF i] have "i < 2" and "?ready ! i" by auto
  with i show ?thesis by (cases "i = 0") (auto simp: producer_wait_def Let_def returnO_def nth_Cons' less_2_cases_iff)
qed

text \<open>One attempt: it ends the loop, or the loop goes on at least \<open>minRetryDelay\<close> later, within the deadline.\<close>

lemma sendRetrying_attempt:
  assumes "send_counted f p env" and "timer_fires p env ctx"
  shows "(\<exists>r t. sendRetrying wall p env pck ctx deadline boxed attempt s = Some (r, t) \<and> f t = Suc (f s)) \<or>
    (\<exists>t. sendRetrying wall p env pck ctx deadline boxed attempt s = sendRetrying wall p env pck ctx deadline boxed (attempt + 1) t
      \<and> f t = Suc (f s) \<and> p_clock p s + minRetryDelay \<le> p_clock p t \<and> p_clock p s + minRetryDelay \<le> deadline
      \<and> (0 < MaxAttempts (p_retry p) \<longrightarrow> attempt < MaxAttempts (p_retry p)))"
  (is "?done \<or> ?again")
proof -
  let ?run = "sendRetrying wall p env pck ctx deadline boxed attempt s"
  obtain r s1 where s1: "out_Send (p_out p) ctx boxed s = (r, s1)" by fastforce
  have a: "adds f (out_Send (p_out p) ctx boxed)" "forward (p_clock p) (out_Send (p_out p) ctx boxed)"
    using assms(1) by (auto simp: send_counted_def)
  have f1: "f s1 = Suc (f s)" and c1: "p_clock p s \<le> p_clock p s1" using addsD [OF a(1) s1] forwardD [OF a(2) s1] by auto
  have dl: "\<exists>o' t. deadLetter wall p boxed c u = (Val o', t) \<and> f t = f u" for c u
    using totalD [OF deadLetter_total, of wall p boxed c u] keepsD [OF deadLetter_keeps [OF assms(1)]] by metis
  then have dlf [simp]: "(\<exists>r t. deadLetter wall p boxed c u = (r, t) \<and> f t = k) \<longleftrightarrow> f u = k" for c u k
    by (metis prod.inject)
  show ?thesis
  proof (cases "\<exists>e. r = Val (Some e) \<and> \<not> IsPermanent (Some e) \<and> \<not> (0 < MaxAttempts (p_retry p) \<and> MaxAttempts (p_retry p) \<le> attempt)")
    case False
    have ?done
      using False s1 f1 by (subst sendRetrying.simps) (auto simp: bindO_def returnO_def liftO_def split: res.splits option.splits)
    then show ?thesis ..
  next
    case True
    then obtain e where e: "r = Val (Some e)" "\<not> IsPermanent (Some e)"
      "0 < MaxAttempts (p_retry p) \<longrightarrow> attempt < MaxAttempts (p_retry p)" by auto
    obtain w s2 where s2: "nextDelay p attempt e s1 = (w, s2)" by fastforce
    note n = nextDelay_effects [OF assms(1) s2]
    show ?thesis
    proof (cases "\<exists>d. w = Val d \<and> p_clock p s2 + d \<le> deadline")
      case False
      have ?done
        using False s1 s2 e f1 n by (subst sendRetrying.simps) (auto simp: bindO_def liftO_def split: res.splits)
      then show ?thesis ..
    next
      case True
      then obtain d where d: "w = Val d" "p_clock p s2 + d \<le> deadline" by blast
      from retry_hook_effects [OF assms(1)] obtain s3
        where s3: "fireHook (OnRetry (p_hooks p)) ctx boxed (Some e) s2 = (Val (), s3)" "f s3 = f s2" "p_clock p s2 \<le> p_clock p s3" by blast
      from producer_wait_result [OF assms(2)] obtain x where x: "producer_wait p env pck ctx d s3 = Some (Val x, env d s3)"
        "case x of None \<Rightarrow> p_clock p s3 + d \<le> p_clock p (env d s3) | Some e \<Rightarrow> ctx (env d s3) = Some e" by blast
      have f4: "f (env d s3) = f s3" using assms(1) by (simp add: send_counted_def)
      have run: "?run = (case x of Some w \<Rightarrow> bindO (deadLetter wall p boxed e) (\<lambda>dl. returnO (errors_Join [dl, Some w])) (env d s3)
          | None \<Rightarrow> sendRetrying wall p env pck ctx deadline boxed (attempt + 1) (env d s3))"
        using s1 s2 e d s3 x by (subst sendRetrying.simps) (auto simp: bindO_def bindOO_def)
      show ?thesis
      proof (cases x)
        case None
        with x(2) nextDelay_floor [of p attempt e s1 d s2] s2 d have "p_clock p s + minRetryDelay \<le> p_clock p (env d s3)"
          and "p_clock p s + minRetryDelay \<le> deadline" using c1 n s3(3) by auto
        with run None f1 n s3 f4 e(3) show ?thesis by auto
      next
        case (Some w')
        from dl [of e "env d s3"] run Some f1 n s3(2) f4 have ?done by (auto simp: bindO_def returnO_def)
        then show ?thesis ..
      qed
    qed
  qed
qed

lemma sendRetrying_bounded:
  assumes "send_counted f p env" and "timer_fires p env ctx"
    and "0 < MaxAttempts (p_retry p) \<longrightarrow> attempt \<le> MaxAttempts (p_retry p)"
  shows "\<exists>r t. sendRetrying wall p env pck ctx deadline boxed attempt s = Some (r, t) \<and>
     f t \<le> f s + Suc (nat ((deadline - p_clock p s) div minRetryDelay)) \<and>
     (0 < MaxAttempts (p_retry p) \<longrightarrow> f t \<le> f s + nat (MaxAttempts (p_retry p) - attempt + 1))"
  using assms(3)
proof (induction "nat ((deadline - p_clock p s) div minRetryDelay)" arbitrary: attempt s rule: less_induct)
  case less
  from sendRetrying_attempt [OF assms(1,2), of wall pck deadline boxed attempt s] show ?case
  proof (elim disjE exE conjE)
    fix r t assume "sendRetrying wall p env pck ctx deadline boxed attempt s = Some (r, t)" "f t = Suc (f s)"
    then show ?thesis using less.prems by auto
  next
    fix t
    assume t: "sendRetrying wall p env pck ctx deadline boxed attempt s = sendRetrying wall p env pck ctx deadline boxed (attempt + 1) t"
      "f t = Suc (f s)" "p_clock p s + minRetryDelay \<le> p_clock p t" "p_clock p s + minRetryDelay \<le> deadline"
      "0 < MaxAttempts (p_retry p) \<longrightarrow> attempt < MaxAttempts (p_retry p)"
    let ?n = "(deadline - p_clock p s) div minRetryDelay" and ?n' = "(deadline - p_clock p t) div minRetryDelay"
    have "?n' \<le> (deadline - p_clock p s - minRetryDelay) div minRetryDelay" using t(3) by (intro zdiv_mono1) auto
    also have "\<dots> = ?n - 1" by simp
    finally have "?n' \<le> ?n - 1" .
    moreover have "1 \<le> ?n" using t(4) zdiv_mono1 [of minRetryDelay "deadline - p_clock p s" minRetryDelay] by simp
    ultimately have dec: "Suc (nat ?n') \<le> nat ?n" by simp
    from t(5) have "0 < MaxAttempts (p_retry p) \<longrightarrow> attempt + 1 \<le> MaxAttempts (p_retry p)" by linarith
    moreover have "nat ?n' < nat ?n" using dec by linarith
    ultimately obtain r u
      where u: "sendRetrying wall p env pck ctx deadline boxed (attempt + 1) t = Some (r, u)"
        "f u \<le> f t + Suc (nat ?n')" "0 < MaxAttempts (p_retry p) \<longrightarrow> f u \<le> f t + nat (MaxAttempts (p_retry p) - (attempt + 1) + 1)"
      using less.hyps [of t "attempt + 1"] by blast
    have "0 < MaxAttempts (p_retry p) \<longrightarrow> f u \<le> f s + nat (MaxAttempts (p_retry p) - attempt + 1)" using u(3) t(2,5) by auto
    moreover have "f u \<le> f s + Suc (nat ?n)" using u(2) t(2) dec by simp
    ultimately show ?thesis using t(1) u(1) by auto
  qed
qed

text \<open>
  C10. A send always returns, and the remote side is not hammered. Whatever the adapter, the
  backoff strategy, the hooks and the dead-letter sink do, errors and panics included, as
  long as the clock does not run backwards and each wait is ended by its timer or by the
  context, a retrying send returns after at most one attempt plus one per 100 ms of its
  budget, and, when the policy limits the attempts, after at most that many.
\<close>
theorem send_returns_within_budget:
  assumes "send_counted f p env" and "timer_fires p env ctx" and "p_retrySet p" and "\<forall>x. keeps f (p_codec p x)"
  shows "\<exists>r t. producer_Send inject wall p env pck ctx m s = Some (r, t) \<and>
     f t \<le> f s + Suc (nat (p_retryBudget p div minRetryDelay)) \<and>
     (0 < MaxAttempts (p_retry p) \<longrightarrow> f t \<le> f s + nat (MaxAttempts (p_retry p)))"
proof -
  obtain b u where u: "producer_box inject p m s = (b, u)" by fastforce
  have "keeps f (producer_box inject p m)"
    using assms(4) by (auto simp: producer_box_def split: sum.splits intro!: keeps_intro)
  then have fu: "f u = f s" using u by (rule keepsD)
  show ?thesis
  proof (cases "\<exists>boxed. b = Val (Inr boxed)")
    case True
    then obtain boxed where "b = Val (Inr boxed)" by blast
    with u assms(3) have "producer_Send inject wall p env pck ctx m s =
        sendRetrying wall p env pck ctx (p_clock p u + p_retryBudget p) boxed 1 u"
      by (simp add: producer_Send_def bindO_def)
    with sendRetrying_bounded [OF assms(1,2), of 1 wall pck "p_clock p u + p_retryBudget p" boxed u] fu
    show ?thesis by auto
  next
    case False
    with u fu show ?thesis by (auto simp: producer_Send_def bindO_def returnO_def split: res.splits sum.splits)
  qed
qed

section \<open>Where a failed message goes\<close>

text \<open>
  \<open>tally\<close> counts the calls of the dead-letter sink and the ones it accepted; nothing else the
  producer calls changes either.
\<close>

definition sink_counted :: "('s \<Rightarrow> nat \<times> nat) \<Rightarrow> ('s, 'a) producer \<Rightarrow> (duration \<Rightarrow> 's \<Rightarrow> 's) \<Rightarrow> bool" where
  "sink_counted tally p env \<longleftrightarrow>
     (\<forall>ctx m. keeps tally (out_Send (p_out p) ctx m)) \<and>
     backoff_ok tally (p_retry p) \<and>
     hook_keeps tally (OnRetry (p_hooks p)) \<and> hook_keeps tally (OnDeadLetter (p_hooks p)) \<and>
     (\<forall>sink ctx m s r t. DeadLetter (p_retry p) = Some sink \<longrightarrow> sink ctx m s = (r, t) \<longrightarrow>
        tally t = (Suc (fst (tally s)), snd (tally s) + (if r = Val None then 1 else 0))) \<and>
     (\<forall>d s. tally (env d s) = tally s)"

text \<open>The outcome \<open>r\<close> of a send, when the counts went from \<open>a\<close> to \<open>b\<close>.\<close>

definition accounted :: "bool \<Rightarrow> nat \<times> nat \<Rightarrow> err option \<Rightarrow> nat \<times> nat \<Rightarrow> bool" where
  "accounted has_sink a r b \<longleftrightarrow>
     (case r of
        None \<Rightarrow> b = a
      | Some e \<Rightarrow>
          b = a \<and> (IsPermanent (Some e) \<or> \<not> has_sink) \<or>
          b = (Suc (fst a), snd a) \<and> has_sink \<or>
          b = (Suc (fst a), Suc (snd a)) \<and> has_sink \<and> errors_Is e ErrDeadLettered)"

lemma nextDelay_tally:
  assumes "sink_counted tally p env"
  shows "keeps tally (nextDelay p n e)" "total (nextDelay p n e)"
proof -
  have b: "backoff_ok tally (p_retry p)" using assms by (simp add: sink_counted_def)
  show "keeps tally (nextDelay p n e)" unfolding nextDelay_def Let_def by (intro keeps_intro b)
  show "total (nextDelay p n e)" unfolding nextDelay_def Let_def by (intro total_intro total_retryDelay [OF b])
qed

lemma hooks_tally:
  assumes "sink_counted tally p env"
  shows "keeps tally (fireHook (OnRetry (p_hooks p)) ctx m x)" "keeps tally (fireHook (OnDeadLetter (p_hooks p)) ctx m x)"
  using assms by (auto simp: sink_counted_def fireHook_safeFire intro: keeps_intro)

lemma deadLetter_accounted:
  assumes "sink_counted tally p env" and "deadLetter wall p boxed cause s = (Val r, t)"
  shows "\<exists>e. r = Some e \<and>
     (DeadLetter (p_retry p) = None \<and> tally t = tally s \<or>
      DeadLetter (p_retry p) \<noteq> None \<and> (tally t = (Suc (fst (tally s)), snd (tally s)) \<or>
        tally t = (Suc (fst (tally s)), Suc (snd (tally s))) \<and> errors_Is e ErrDeadLettered))"
proof (cases "DeadLetter (p_retry p)")
  case (Some sink)
  let ?ctx = "detached wall (wall s) (p_deadLetterTimeout p)"
  obtain q u where u: "sink ?ctx boxed s = (q, u)" by fastforce
  with assms(1) Some have c: "tally u = (Suc (fst (tally s)), snd (tally s) + (if q = Val None then 1 else 0))"
    unfolding sink_counted_def by blast
  let ?dl = "case q of Val x \<Rightarrow> x | Pan v \<Rightarrow> Some (Errorf ''msgin: producer DeadLetter.Send panicked: %v'' [ArgV v])"
  let ?out = "case ?dl of Some e \<Rightarrow> errors_Join [Some cause, Some e]
      | None \<Rightarrow> Some (Errorf ''%w: %w'' [ArgW (Sentinel ErrDeadLettered), ArgW cause])"
  have "r = ?out \<and> fireHook (OnDeadLetter (p_hooks p)) ?ctx boxed ?out u = (Val (), t)"
    using assms(2) Some u
    by (auto simp: deadLetter_def safeDeadLetter_def Let_def bindP_def readP_def recoverP_def returnP_def split: res.splits prod.splits)
  then have r: "r = ?out" and "tally t = tally u" using keepsD [OF hooks_tally(2) [OF assms(1)]] by blast+
  with c Some show ?thesis by (cases q) (auto split: option.splits)
qed (use assms(2) in \<open>auto simp: deadLetter_def returnP_def\<close>)

lemma deadLetter_accounts:
  "sink_counted tally p env \<Longrightarrow> deadLetter wall p boxed cause s = (Val r, t)
    \<Longrightarrow> accounted (DeadLetter (p_retry p) \<noteq> None) (tally s) r (tally t)"
  using deadLetter_accounted [of tally p env wall boxed cause s r t] by (auto simp: accounted_def)

lemma deadLetter_joined_accounts:
  "sink_counted tally p env \<Longrightarrow> deadLetter wall p boxed cause s = (Val r, t)
    \<Longrightarrow> accounted (DeadLetter (p_retry p) \<noteq> None) (tally s) (errors_Join [r, Some w]) (tally t)"
  using deadLetter_accounted [of tally p env wall boxed cause s r t] by (auto simp: accounted_def)

text \<open>
  C11. No message vanishes in a retrying send. When the send returns, a nil error means that the
  adapter took the message and that the dead-letter sink was never called; an error means
  that the sink was called exactly once, unless the failure is permanent or the policy has no
  sink; and when the sink took the message the error says so (\<open>ErrDeadLettered\<close>), so a divert
  is never mistaken for a delivery.
\<close>
theorem failed_send_accounted:
  assumes "sendRetrying wall p env pck ctx deadline boxed attempt s = Some (Val r, t)"
    and "sink_counted tally p env"
  shows "accounted (DeadLetter (p_retry p) \<noteq> None) (tally s) r (tally t)"
proof -
  have "\<forall>r'. sink_counted tally p env \<longrightarrow> fst (Val r, t) = Val r' \<longrightarrow>
      accounted (DeadLetter (p_retry p) \<noteq> None) (tally s) r' (tally (snd (Val r, t)))"
  proof (rule sendRetrying.raw_induct [where P = "\<lambda>wall p env pck ctx deadline boxed attempt s rt.
      \<forall>r'. sink_counted tally p env \<longrightarrow> fst rt = Val r' \<longrightarrow>
        accounted (DeadLetter (p_retry p) \<noteq> None) (tally s) r' (tally (snd rt))", OF _ assms(1)], intro allI impI, goal_cases)
    case (1 loop wall p env pck ctx deadline boxed attempt s rt r')
    note sc = 1(3)
    obtain q s1 where s1: "out_Send (p_out p) ctx boxed s = (q, s1)" by fastforce
    have "keeps tally (out_Send (p_out p) ctx boxed)" using sc by (simp add: sink_counted_def)
    from keepsD [OF this s1] have t1: "tally s1 = tally s" .
    show ?case
    proof (cases "\<exists>e. q = Val (Some e) \<and> \<not> IsPermanent (Some e) \<and> \<not> (0 < MaxAttempts (p_retry p) \<and> MaxAttempts (p_retry p) \<le> attempt)")
      case False
      show ?thesis
      proof (cases "\<exists>e. q = Val (Some e) \<and> \<not> IsPermanent (Some e)")
        case True
        with False obtain e where e: "q = Val (Some e)" "\<not> IsPermanent (Some e)" "0 < MaxAttempts (p_retry p) \<and> MaxAttempts (p_retry p) \<le> attempt"
          by blast
        then have "deadLetter wall p boxed e s1 = rt" using 1(2) s1 by (simp add: bindO_def liftO_def)
        with 1(4) deadLetter_accounts [OF sc, of wall boxed e s1 r' "snd rt"] t1 show ?thesis by (cases rt) auto
      next
        case False
        with 1(2) s1 have "rt = (q, s1)"
          by (cases q) (auto simp: bindO_def returnO_def split: option.splits)
        with False 1(4) t1 show ?thesis by (auto simp: accounted_def split: option.splits)
      qed
    next
      case True
      then obtain e where e: "q = Val (Some e)" "\<not> IsPermanent (Some e)"
        "\<not> (0 < MaxAttempts (p_retry p) \<and> MaxAttempts (p_retry p) \<le> attempt)" by blast
      from totalD [OF nextDelay_tally(2) [OF sc], of attempt e s1] obtain d s2 where s2: "nextDelay p attempt e s1 = (Val d, s2)" by blast
      have t2: "tally s2 = tally s" using keepsD [OF nextDelay_tally(1) [OF sc] s2] t1 by simp
      from totalD [OF total_safeFire, of "OnRetry (p_hooks p)" ctx boxed "Some e" s2] obtain s3
        where s3: "fireHook (OnRetry (p_hooks p)) ctx boxed (Some e) s2 = (Val (), s3)" by (auto simp: fireHook_safeFire)
      have t3: "tally s3 = tally s" using keepsD [OF hooks_tally(1) [OF sc] s3] t2 by simp
      have t4: "tally (env d s3) = tally s" using sc t3 by (simp add: sink_counted_def)
      show ?thesis
      proof (cases "deadline < p_clock p s2 + d")
        case True
        with 1(2) s1 s2 e have "Some (deadLetter wall p boxed (Errorf ''%w: %w'' [ArgW (Sentinel ErrRetryBudgetExhausted), ArgW e]) s2) = Some rt"
          by (simp add: bindO_def liftO_def)
        with 1(4) deadLetter_accounts [OF sc, of wall boxed _ s2 r' "snd rt"] t2 show ?thesis by (cases rt) auto
      next
        case False
        with 1(2) s1 s2 s3 e obtain x where x: "producer_wait p env pck ctx d s3 = Some (Val x, env d s3)"
          and go: "(case x of Some w \<Rightarrow> bindO (deadLetter wall p boxed e) (\<lambda>dl. returnO (errors_Join [dl, Some w])) (env d s3)
            | None \<Rightarrow> loop wall p env pck ctx deadline boxed (attempt + 1) (env d s3)) = Some rt"
          by (auto simp: bindO_def bindOO_def producer_wait_def returnO_def Let_def split: option.splits)
        show ?thesis
        proof (cases x)
          case None
          then have "loop wall p env pck ctx deadline boxed (attempt + 1) (env d s3) = Some rt" using go by simp
          from 1(1) [OF this] sc 1(4) t4 show ?thesis by simp
        next
          case (Some w)
          obtain y t where y: "deadLetter wall p boxed e (env d s3) = (y, t)" by fastforce
          with go Some 1(4) obtain z where "y = Val z" "rt = (Val (errors_Join [z, Some w]), t)"
            by (cases y) (auto simp: bindO_def returnO_def)
          with deadLetter_joined_accounts [OF sc, of wall boxed e "env d s3" z t w] y 1(4) t4 show ?thesis by simp
        qed
      qed
    qed
  qed
  with assms(2) show ?thesis by simp
qed

section \<open>Witnesses\<close>

text \<open>A world with a clock and counts of sends, sink calls and accepted dead letters.\<close>

record demo_net =
  net_clock :: time
  net_sends :: nat
  net_tally :: "nat \<times> nat"

definition demo_net0 :: demo_net where
  "demo_net0 = \<lparr>net_clock = 0, net_sends = 0, net_tally = (0, 0)\<rparr>"

definition demo_producer :: "(demo_net, string) producer" where
  "demo_producer =
     \<lparr>p_out = \<lparr>out_Send = (\<lambda>ctx m s. (Val (Some (Foreign ''unavailable'' 0)), s\<lparr>net_sends := Suc (net_sends s)\<rparr>)),
               out_SendAfter = None, out_live = Some True\<rparr>,
      p_codec = (\<lambda>b. returnP (Inr b)), p_liveValue = True, p_clock = net_clock,
      p_retry = \<lparr>MaxAttempts = 3, Backoff = None,
                 DeadLetter = Some (\<lambda>ctx m s. (Val None, s\<lparr>net_tally := (Suc (fst (net_tally s)), Suc (snd (net_tally s)))\<rparr>))\<rparr>,
      p_retrySet = True, p_retryAfterCap = 60 * Second, p_retryBudget = 2 * Minute, p_deadLetterTimeout = 30 * Second,
      p_hooks = \<lparr>OnRetry = None, OnDeadLetter = None, OnInvalidMessage = None, OnAck = None\<rparr>\<rparr>"

definition demo_tick :: "duration \<Rightarrow> demo_net \<Rightarrow> demo_net" where
  "demo_tick d s = s\<lparr>net_clock := net_clock s + d\<rparr>"

theorem send_returns_within_budget_witness:
  "\<exists>r t. producer_Send GString net_clock demo_producer demo_tick (\<lambda>_. 0) (\<lambda>_. None) (NewMessage ''p'' Map.empty) demo_net0 = Some (r, t)
     \<and> net_sends t \<le> 3"
proof -
  have c: "send_counted net_sends demo_producer demo_tick"
    by (simp add: send_counted_def demo_producer_def adds_def forward_def hook_keeps_def sink_keeps_def keeps_def demo_tick_def)
  have w: "timer_fires demo_producer demo_tick (\<lambda>_. None)" by (simp add: timer_fires_def demo_producer_def demo_tick_def)
  have "p_retrySet demo_producer" and "\<forall>x. keeps net_sends (p_codec demo_producer x)" and m: "MaxAttempts (p_retry demo_producer) = 3"
    by (simp_all add: demo_producer_def keeps_basic)
  from send_returns_within_budget [OF c w this(1,2), of GString net_clock "\<lambda>_. 0" "NewMessage ''p'' Map.empty" demo_net0]
  show ?thesis unfolding m by (auto simp: demo_net0_def)
qed

theorem failed_send_accounted_witness:
  "\<exists>r t. sendRetrying net_clock demo_producer demo_tick (\<lambda>_. 0) (\<lambda>_. None) (2 * Minute) (NewMessage GNil Map.empty) 3 demo_net0 = Some (Val r, t)
     \<and> accounted True (0, 0) r (net_tally t)"
proof -
  let ?run = "sendRetrying net_clock demo_producer demo_tick (\<lambda>_. 0) (\<lambda>_. None) (2 * Minute) (NewMessage GNil Map.empty) 3 demo_net0"
  have "\<exists>r t. ?run = Some (Val r, t)"
    by (subst sendRetrying.simps)
      (simp add: demo_producer_def bindO_def IsPermanent_iff liftO_def deadLetter_def safeDeadLetter_def fireHook_def prog_simps Let_def)
  then obtain r t where run: "?run = Some (Val r, t)" by blast
  have "sink_counted net_tally demo_producer demo_tick"
    by (auto simp: sink_counted_def demo_producer_def backoff_ok_def hook_keeps_def keeps_def demo_tick_def)
  from failed_send_accounted [OF run this] run show ?thesis by (auto simp: demo_producer_def demo_net0_def)
qed

end
