(* ===== verification/Exchange.thy ===== *)
theory Exchange
  imports Handlers "HOL-Library.Multiset"
begin

text \<open>
  Request-reply (\<^verbatim>\<open>endpoint/exchange.go\<close>, \<^verbatim>\<open>endpoint/gateway.go\<close>). The reply correlator is a record with
  its table, its closed flag and the one-slot channels it made; its operations are the critical
  sections of the code. A run of a channel exchange is a step relation: every caller of
  \<open>Exchange\<close> is at a program point between its registration and its return, a reply that
  arrives claims its slot in one step and fills it in a later one, and \<open>Close\<close> may come at any
  time. The constructor, the reply receiver and the two gateways are functions.

  The lemmas: a reply only ever reaches the caller that waits for its correlation id; a reply
  that arrived is returned once or handed to the unmatched path once, never lost and never
  both; no caller and no reply sender is ever stuck on a slot; nothing is sent on a closed
  slot and no slot is closed twice; no table entry outlives its caller.
\<close>

section \<open>The reply correlator\<close>

record slot =
  s_buf :: "msg list"
  s_closed :: bool

record replyCorrelator =
  waiters :: "string \<rightharpoonup> nat"
  corr_closed :: bool
  slots :: "nat \<Rightarrow> slot"
  next_slot :: nat

definition newReplyCorrelator :: replyCorrelator where
  "newReplyCorrelator = \<lparr>waiters = Map.empty, corr_closed = False, slots = (\<lambda>_. \<lparr>s_buf = [], s_closed = False\<rparr>), next_slot = 0\<rparr>"

definition register :: "string \<Rightarrow> replyCorrelator \<Rightarrow> replyCorrelator \<times> (err + nat)" where
  "register i c =
     (if corr_closed c then (c, Inl (Sentinel ErrGatewayClosed))
      else if waiters c i \<noteq> None then (c, Inl (Sentinel ErrDuplicateCorrelation))
      else (c\<lparr>waiters := (waiters c)(i \<mapsto> next_slot c), slots := (slots c)(next_slot c := \<lparr>s_buf = [], s_closed = False\<rparr>),
              next_slot := Suc (next_slot c)\<rparr>, Inr (next_slot c)))"

definition deregister :: "string \<Rightarrow> nat \<Rightarrow> replyCorrelator \<Rightarrow> replyCorrelator \<times> bool" where
  "deregister i n c = (if waiters c i = Some n then (c\<lparr>waiters := (waiters c)(i := None)\<rparr>, True) else (c, False))"

text \<open>\<open>deliver\<close> in its two parts: the claim under the lock and the send after it.\<close>

definition deliver_claim :: "string \<Rightarrow> replyCorrelator \<Rightarrow> replyCorrelator \<times> nat option" where
  "deliver_claim i c = (c\<lparr>waiters := (waiters c)(i := None)\<rparr>, waiters c i)"

text \<open>A send on a slot panics when it is closed and blocks (\<open>None\<close>) when it is full.\<close>

definition slot_send :: "nat \<Rightarrow> msg \<Rightarrow> replyCorrelator \<Rightarrow> replyCorrelator res option" where
  "slot_send n r c =
     (if s_closed (slots c n) then Some (Pan (GString ''send on closed channel''))
      else if s_buf (slots c n) \<noteq> [] then None
      else Some (Val (c\<lparr>slots := (slots c)(n := (slots c n)\<lparr>s_buf := [r]\<rparr>)\<rparr>)))"

text \<open>A receive takes what is buffered, finds the slot closed (\<open>Some None\<close>) or blocks (\<open>None\<close>).\<close>

definition slot_recv :: "nat \<Rightarrow> replyCorrelator \<Rightarrow> (msg option \<times> replyCorrelator) option" where
  "slot_recv n c =
     (case s_buf (slots c n) of
        r # rs \<Rightarrow> Some (Some r, c\<lparr>slots := (slots c)(n := (slots c n)\<lparr>s_buf := rs\<rparr>)\<rparr>)
      | [] \<Rightarrow> if s_closed (slots c n) then Some (None, c) else None)"

definition closeAll :: "replyCorrelator \<Rightarrow> replyCorrelator res" where
  "closeAll c =
     (if corr_closed c then Val c
      else if \<exists>n \<in> ran (waiters c). s_closed (slots c n) then Pan (GString ''close of closed channel'')
      else Val (c\<lparr>corr_closed := True, waiters := Map.empty,
                  slots := (\<lambda>n. if n \<in> ran (waiters c) then (slots c n)\<lparr>s_closed := True\<rparr> else slots c n)\<rparr>))"

text \<open>
  \<open>deliver\<close> and \<open>giveUp\<close> with nothing happening in between; \<open>None\<close> is blocking. What \<open>giveUp\<close> hands
  to the unmatched path is its second result.
\<close>

definition deliver :: "string \<Rightarrow> msg \<Rightarrow> replyCorrelator \<Rightarrow> (replyCorrelator \<times> bool) res option" where
  "deliver i r c =
     (case deliver_claim i c of
        (c', None) \<Rightarrow> Some (Val (c', False))
      | (c', Some n) \<Rightarrow>
          (case slot_send n r c' of
             None \<Rightarrow> None
           | Some (Pan v) \<Rightarrow> Some (Pan v)
           | Some (Val c'') \<Rightarrow> Some (Val (c'', True))))"

definition giveUp :: "string \<Rightarrow> nat \<Rightarrow> replyCorrelator \<Rightarrow> (replyCorrelator \<times> msg option) option" where
  "giveUp i n c =
     (case deregister i n c of
        (c', True) \<Rightarrow> Some (c', None)
      | (c', False) \<Rightarrow> (case slot_recv n c' of None \<Rightarrow> None | Some (r, c'') \<Rightarrow> Some (c'', r)))"

section \<open>A running exchange\<close>

datatype outcome = Reply msg | Failed err | Panicked goval

text \<open>
  The program points of \<open>Exchange\<close> after a successful registration: in \<^verbatim>\<open>request.Send\<close>, in the
  select, in the deferred \<open>giveUp\<close> before \<open>deregister\<close>, draining the slot, returned.
\<close>

datatype caller_pc = NotStarted | Sending | Waiting | Abandoning outcome | Draining outcome | Done outcome

record xsys =
  corr :: replyCorrelator
  x_id :: "nat \<Rightarrow> string"
  x_pc :: "nat \<Rightarrow> caller_pc"
  committed :: "(nat \<times> msg) list"
  arrived :: "msg list"
  unmatched_out :: "msg list"

definition reply_id :: "msg \<Rightarrow> string" where
  "reply_id m = (case Headers_String (headers m) HeaderCorrelationID of Some i \<Rightarrow> i | None \<Rightarrow> '''')"

text \<open>
  \<open>receiver\<close>: the claim, and what is left to do: the pending slot send, or the unmatched path.
\<close>

definition receiver_claim :: "msg \<Rightarrow> xsys \<Rightarrow> xsys" where
  "receiver_claim r q =
     (let (c, hit) = deliver_claim (reply_id r) (corr q)
      in (case hit of
            Some n \<Rightarrow> q\<lparr>corr := c, committed := committed q @ [(n, r)], arrived := arrived q @ [r]\<rparr>
          | None \<Rightarrow> q\<lparr>corr := c, unmatched_out := unmatched_out q @ [r], arrived := arrived q @ [r]\<rparr>))"

text \<open>
  The steps. \<open>drain\<close> ends a \<open>giveUp\<close> whose \<open>deregister\<close> found the slot gone; the unmatched sink it
  calls may panic, and then that panic is the outcome.
\<close>

inductive xstep :: "xsys \<Rightarrow> xsys \<Rightarrow> bool" where
  start: "xstep q (q\<lparr>corr := c, x_id := (x_id q)(n := i), x_pc := (x_pc q)(n := Sending)\<rparr>)"
    if "i \<noteq> ''''" "register i (corr q) = (c, Inr n)"
| sent: "xstep q (q\<lparr>x_pc := (x_pc q)(n := Waiting)\<rparr>)" if "x_pc q n = Sending"
| send_error: "xstep q (q\<lparr>x_pc := (x_pc q)(n := Abandoning (Failed e))\<rparr>)" if "x_pc q n = Sending"
| send_panic: "xstep q (q\<lparr>x_pc := (x_pc q)(n := Abandoning (Panicked v))\<rparr>)" if "x_pc q n = Sending"
| reply: "xstep q (q\<lparr>corr := c, x_pc := (x_pc q)(n := Done (Reply r))\<rparr>)"
    if "x_pc q n = Waiting" "slot_recv n (corr q) = Some (Some r, c)"
| closed_slot: "xstep q (q\<lparr>corr := c, x_pc := (x_pc q)(n := Done (Failed (Sentinel ErrGatewayClosed)))\<rparr>)"
    if "x_pc q n = Waiting" "slot_recv n (corr q) = Some (None, c)"
| ctx_done: "xstep q (q\<lparr>x_pc := (x_pc q)(n := Abandoning (Failed e))\<rparr>)" if "x_pc q n = Waiting"
| timed_out: "xstep q (q\<lparr>x_pc := (x_pc q)(n := Abandoning (Failed (Sentinel ErrReplyTimeout)))\<rparr>)" if "x_pc q n = Waiting"
| deregistered: "xstep q (q\<lparr>corr := c, x_pc := (x_pc q)(n := Done x)\<rparr>)"
    if "x_pc q n = Abandoning x" "deregister (x_id q n) n (corr q) = (c, True)"
| too_late: "xstep q (q\<lparr>x_pc := (x_pc q)(n := Draining x)\<rparr>)"
    if "x_pc q n = Abandoning x" "deregister (x_id q n) n (corr q) = (c, False)"
| drain: "xstep q (q\<lparr>corr := c, x_pc := (x_pc q)(n := Done y), unmatched_out := unmatched_out q @ [r]\<rparr>)"
    if "x_pc q n = Draining x" "slot_recv n (corr q) = Some (Some r, c)" "y = x \<or> y = Panicked v"
| drain_closed: "xstep q (q\<lparr>corr := c, x_pc := (x_pc q)(n := Done x)\<rparr>)"
    if "x_pc q n = Draining x" "slot_recv n (corr q) = Some (None, c)"
| arrive: "xstep q (receiver_claim r q)"
| fill: "xstep q (q\<lparr>corr := c, committed := xs @ ys\<rparr>)"
    if "committed q = xs @ (n, r) # ys" "slot_send n r (corr q) = Some (Val c)"
| Close: "xstep q (q\<lparr>corr := c\<rparr>)" if "closeAll (corr q) = Val c"

inductive xreach :: "xsys \<Rightarrow> bool" where
  init: "xreach \<lparr>corr = newReplyCorrelator, x_id = (\<lambda>_. ''''), x_pc = (\<lambda>_. NotStarted), committed = [], arrived = [], unmatched_out = []\<rparr>"
| step: "xreach q \<Longrightarrow> xstep q q' \<Longrightarrow> xreach q'"

section \<open>The invariant\<close>

text \<open>
  What there is of slot \<open>n\<close>: whether the table still has it, the replies committed to it, its
  buffer, whether it is closed, and its caller. The table owns the slot, or a reply is
  committed to it, or it holds a reply, or it is closed: exactly one of these while its caller
  is under way, and none of the first three once the caller has returned.
\<close>

fun live :: "caller_pc \<Rightarrow> bool" where
  "live Sending = True"
| "live Waiting = True"
| "live (Abandoning x) = True"
| "live (Draining x) = True"
| "live pc = False"

definition view :: "xsys \<Rightarrow> nat \<Rightarrow> bool \<times> msg list \<times> slot \<times> string \<times> caller_pc" where
  "view q n = (waiters (corr q) (x_id q n) = Some n, map snd (filter (\<lambda>p. fst p = n) (committed q)),
     slots (corr q) n, x_id q n, x_pc q n)"

fun view_ok :: "bool \<times> msg list \<times> slot \<times> string \<times> caller_pc \<Rightarrow> bool" where
  "view_ok (own, com, sl, i, pc) \<longleftrightarrow>
     (if live pc then of_bool own + length com + length (s_buf sl) + of_bool (s_closed sl) = (1::nat)
      else \<not> own \<and> com = [] \<and> s_buf sl = []) \<and>
     (\<forall>x. pc = Draining x \<longrightarrow> \<not> own) \<and>
     (\<forall>r \<in> set com \<union> set (s_buf sl). reply_id r = i) \<and>
     (\<forall>r. pc \<in> {Done (Reply r), Abandoning (Reply r), Draining (Reply r)} \<longrightarrow> pc = Done (Reply r) \<and> reply_id r = i)"

definition returned :: "caller_pc \<Rightarrow> msg multiset" where
  "returned pc = (case pc of Done (Reply r) \<Rightarrow> {#r#} | _ \<Rightarrow> {#})"

definition xinv :: "xsys \<Rightarrow> bool" where
  "xinv q \<longleftrightarrow>
     (\<forall>i n. waiters (corr q) i = Some n \<longrightarrow> x_id q n = i \<and> n < next_slot (corr q)) \<and>
     (\<forall>n \<ge> next_slot (corr q). x_pc q n = NotStarted \<and> slots (corr q) n = \<lparr>s_buf = [], s_closed = False\<rparr>) \<and>
     (\<forall>n. view_ok (view q n)) \<and>
     mset (arrived q) = image_mset snd (mset (committed q)) + mset (unmatched_out q) +
       (\<Sum>n<next_slot (corr q). mset (s_buf (slots (corr q) n)) + returned (x_pc q n))"

lemma xinv_table: "xinv q \<Longrightarrow> waiters (corr q) i = Some n \<Longrightarrow> x_id q n = i \<and> n < next_slot (corr q)"
  unfolding xinv_def by blast

lemma xinv_fresh:
  "xinv q \<Longrightarrow> next_slot (corr q) \<le> n \<Longrightarrow> x_pc q n = NotStarted \<and> slots (corr q) n = \<lparr>s_buf = [], s_closed = False\<rparr>"
  unfolding xinv_def by blast

lemma xinv_view: "xinv q \<Longrightarrow> view_ok (view q n)"
  unfolding xinv_def by blast

lemma xinv_books: "xinv q \<Longrightarrow> mset (arrived q) = image_mset snd (mset (committed q)) + mset (unmatched_out q) +
    (\<Sum>n<next_slot (corr q). mset (s_buf (slots (corr q) n)) + returned (x_pc q n))"
  unfolding xinv_def by blast

lemma sum_one_changed:
  fixes f g :: "nat \<Rightarrow> 'a::comm_monoid_add"
  assumes "n < N" and "\<And>m. m \<noteq> n \<Longrightarrow> f m = g m"
  shows "sum f {..<N} + g n = sum g {..<N} + f n"
proof -
  have "sum f {..<N} = f n + sum f ({..<N} - {n})" "sum g {..<N} = g n + sum g ({..<N} - {n})"
    using assms(1) by (simp_all add: sum.remove)
  moreover have "sum f ({..<N} - {n}) = sum g ({..<N} - {n})" using assms(2) by (intro sum.cong) auto
  ultimately show ?thesis by (simp add: ac_simps)
qed

lemma xinv_init:
  "xinv \<lparr>corr = newReplyCorrelator, x_id = (\<lambda>_. ''''), x_pc = (\<lambda>_. NotStarted), committed = [], arrived = [], unmatched_out = []\<rparr>"
  by (simp add: xinv_def newReplyCorrelator_def view_def)

lemma live_bound: "xinv q \<Longrightarrow> live (x_pc q n) \<Longrightarrow> n < next_slot (corr q)"
  unfolding xinv_def by (metis leI live.simps(5))

text \<open>A step of one caller that touches neither the table nor the committed replies nor the slots.\<close>

lemma xinv_pc:
  assumes "xinv q" and "live (x_pc q n)" and "live pc" and "\<And>x. pc = Draining x \<Longrightarrow> waiters (corr q) (x_id q n) \<noteq> Some n"
    and "\<And>r. pc \<noteq> Abandoning (Reply r) \<and> pc \<noteq> Draining (Reply r)"
  shows "xinv (q\<lparr>x_pc := (x_pc q)(n := pc)\<rparr>)"
proof -
  let ?q = "q\<lparr>x_pc := (x_pc q)(n := pc)\<rparr>"
  note I = assms(1) [unfolded xinv_def]
  have n: "n < next_slot (corr q)" using live_bound assms(1,2) .
  have other: "view ?q m = view q m" if "m \<noteq> n" for m using that by (simp add: view_def)
  have "view_ok (view q n)" using I by blast
  then have "view_ok (view ?q n)" using assms(2-5) by (auto simp: view_def)
  with other I have v: "view_ok (view ?q m)" for m by (metis (full_types))
  have "returned pc = {#}" "returned (x_pc q n) = {#}"
    using assms(2,3) by (auto simp: returned_def split: caller_pc.splits)
  then have "(\<Sum>m<next_slot (corr q). mset (s_buf (slots (corr q) m)) + returned (x_pc ?q m)) =
      (\<Sum>m<next_slot (corr q). mset (s_buf (slots (corr q) m)) + returned (x_pc q m))"
    by (intro sum.cong) auto
  with I v n show ?thesis by (simp add: xinv_def) 
qed

text \<open>A step that concerns one slot and its caller.\<close>

lemma xinv_local:
  assumes inv: "xinv q" and n: "n < next_slot (corr q)"
    and same: "next_slot (corr q') = next_slot (corr q)" "x_id q' = x_id q"
      "\<And>m. m \<noteq> n \<Longrightarrow> slots (corr q') m = slots (corr q) m \<and> x_pc q' m = x_pc q m
         \<and> filter (\<lambda>p. fst p = m) (committed q') = filter (\<lambda>p. fst p = m) (committed q)"
    and table: "\<And>i m. waiters (corr q') i = Some m \<Longrightarrow> waiters (corr q) i = Some m"
      "\<And>m. m \<noteq> n \<Longrightarrow> waiters (corr q) (x_id q m) = Some m \<Longrightarrow> waiters (corr q') (x_id q m) = Some m"
    and own: "view_ok (view q' n)"
    and books: "mset (arrived q') + (mset (s_buf (slots (corr q) n)) + returned (x_pc q n)) + image_mset snd (mset (committed q)) + mset (unmatched_out q) =
      mset (arrived q) + (mset (s_buf (slots (corr q') n)) + returned (x_pc q' n)) + image_mset snd (mset (committed q')) + mset (unmatched_out q')"
  shows "xinv q'"
proof -
  note I = inv [unfolded xinv_def]
  have "view q' m = view q m" if "m \<noteq> n" for m
    using same(2) same(3) [OF that] table(1) [of "x_id q m" m] table(2) [OF that] by (auto simp: view_def)
  with I own have v: "\<forall>m. view_ok (view q' m)" by metis
  let ?f = "\<lambda>q m. mset (s_buf (slots (corr q) m)) + returned (x_pc q m)"
  have s: "sum (?f q') {..<next_slot (corr q)} + ?f q n = sum (?f q) {..<next_slot (corr q)} + ?f q' n"
    using same(3) by (intro sum_one_changed [OF n]) simp
  have a: "mset (arrived q) = image_mset snd (mset (committed q)) + mset (unmatched_out q) + sum (?f q) {..<next_slot (corr q)}"
    using I by simp
  have "mset (arrived q') + ?f q n + image_mset snd (mset (committed q)) + mset (unmatched_out q) =
      (image_mset snd (mset (committed q')) + mset (unmatched_out q') + sum (?f q') {..<next_slot (corr q)}) + ?f q n
        + image_mset snd (mset (committed q)) + mset (unmatched_out q)"
    using books s a by (smt (verit, ccfv_SIG) add.assoc add.commute)
  then have "mset (arrived q') = image_mset snd (mset (committed q')) + mset (unmatched_out q') + sum (?f q') {..<next_slot (corr q')}"
    using same(1) by simp
  moreover have "\<forall>i m. waiters (corr q') i = Some m \<longrightarrow> x_id q' m = i \<and> m < next_slot (corr q')" using I table(1) same by metis
  moreover have "\<forall>m \<ge> next_slot (corr q'). x_pc q' m = NotStarted \<and> slots (corr q') m = \<lparr>s_buf = [], s_closed = False\<rparr>"
    using I same n by (metis linorder_not_le)
  ultimately show ?thesis using v by (simp add: xinv_def)
qed

lemma slot_recv_cases:
  assumes "slot_recv n c = Some (x, c')"
  obtains r rs where "x = Some r" "s_buf (slots c n) = r # rs" "c' = c\<lparr>slots := (slots c)(n := (slots c n)\<lparr>s_buf := rs\<rparr>)\<rparr>"
  | "x = None" "s_buf (slots c n) = []" "s_closed (slots c n)" "c' = c"
  using assms by (auto simp: slot_recv_def split: list.splits if_splits)

lemma xinv_receive:
  assumes "xinv q" and "live (x_pc q n)" and "slot_recv n (corr q) = Some (Some r, c)"
    and "q' = q\<lparr>corr := c, x_pc := (x_pc q)(n := Done y), unmatched_out := unmatched_out q @ extra\<rparr>"
    and "y = Reply r \<and> extra = [] \<or> (\<forall>s. y \<noteq> Reply s) \<and> extra = [r]"
  shows "xinv q'"
proof -
  note I = assms(1) [unfolded xinv_def]
  obtain rs where b: "s_buf (slots (corr q) n) = r # rs" and c: "c = (corr q)\<lparr>slots := (slots (corr q))(n := (slots (corr q) n)\<lparr>s_buf := rs\<rparr>)\<rparr>"
    using assms(3) by (auto elim: slot_recv_cases)
  have ok: "view_ok (view q n)" using I by blast
  then have "rs = []" and "reply_id r = x_id q n" and nw: "waiters (corr q) (x_id q n) \<noteq> Some n"
    using assms(2) b by (auto simp: view_def)
  moreover have "filter (\<lambda>p. fst p = n) (committed q) = []" using ok assms(2) b by (auto simp: view_def)
  moreover have "returned (x_pc q n) = {#}" using assms(2) by (cases "x_pc q n") (auto simp: returned_def)
  ultimately show ?thesis
    using assms(4,5) b by (intro xinv_local [OF assms(1) live_bound [OF assms(1,2)]]) (auto simp: c view_def returned_def split: outcome.splits)
qed

lemma xinv_closed:
  assumes "xinv q" and "live (x_pc q n)" and "slot_recv n (corr q) = Some (None, c)" and "\<forall>s. y \<noteq> Reply s"
  shows "xinv (q\<lparr>corr := c, x_pc := (x_pc q)(n := Done y)\<rparr>)"
proof -
  have c: "s_buf (slots (corr q) n) = []" "s_closed (slots (corr q) n)" "c = corr q" using assms(3) by (auto elim: slot_recv_cases)
  have "view_ok (view q n)" using assms(1) by (auto simp: xinv_def)
  then have "waiters (corr q) (x_id q n) \<noteq> Some n" "filter (\<lambda>p. fst p = n) (committed q) = []"
    using assms(2) c by (auto simp: view_def)
  moreover have "returned (x_pc q n) = {#}" using assms(2) by (cases "x_pc q n") (auto simp: returned_def)
  ultimately show ?thesis
    using assms(4) c by (intro xinv_local [OF assms(1) live_bound [OF assms(1,2)]]) (auto simp: view_def returned_def split: outcome.splits)
qed

lemma xinv_deregistered:
  assumes "xinv q" and "x_pc q n = Abandoning x" and "deregister (x_id q n) n (corr q) = (c, True)"
  shows "xinv (q\<lparr>corr := c, x_pc := (x_pc q)(n := Done x)\<rparr>)"
proof -
  have w: "waiters (corr q) (x_id q n) = Some n" and c: "c = (corr q)\<lparr>waiters := (waiters (corr q))(x_id q n := None)\<rparr>"
    using assms(3) by (auto simp: deregister_def split: if_splits)
  have ok: "view_ok (view q n)" using assms(1) by (auto simp: xinv_def)
  then have "filter (\<lambda>p. fst p = n) (committed q) = []" "s_buf (slots (corr q) n) = []" "\<forall>r. x \<noteq> Reply r"
    using assms(2) w by (auto simp: view_def)
  with w show ?thesis
    using live_bound [OF assms(1)] assms(2)
    by (intro xinv_local [OF assms(1), of n]) (auto simp: c view_def returned_def split: outcome.splits if_splits)
qed

lemma xinv_fill:
  assumes "xinv q" and "committed q = xs @ (n, r) # ys" and "slot_send n r (corr q) = Some (Val c)"
  shows "xinv (q\<lparr>corr := c, committed := xs @ ys\<rparr>)"
proof -
  have c: "c = (corr q)\<lparr>slots := (slots (corr q))(n := (slots (corr q) n)\<lparr>s_buf := [r]\<rparr>)\<rparr>" "s_buf (slots (corr q) n) = []"
    using assms(3) by (auto simp: slot_send_def split: if_splits)
  have ok: "view_ok (view q n)" using assms(1) by (auto simp: xinv_def)
  with assms(2) have l: "live (x_pc q n)" by (auto simp: view_def split: if_splits)
  with ok assms(2) c(2) have "filter (\<lambda>p. fst p = n) xs = []" "filter (\<lambda>p. fst p = n) ys = []" "reply_id r = x_id q n"
    "waiters (corr q) (x_id q n) \<noteq> Some n" "\<not> s_closed (slots (corr q) n)" by (auto simp: view_def)
  moreover have "\<forall>r. x_pc q n \<noteq> Abandoning (Reply r) \<and> x_pc q n \<noteq> Draining (Reply r)" using ok by (auto simp: view_def)
  ultimately show ?thesis
    using l c assms(2) by (intro xinv_local [OF assms(1) live_bound [OF assms(1) l]]) (auto simp: view_def)
qed

lemma xinv_arrive:
  assumes "xinv q"
  shows "xinv (receiver_claim r q)"
proof (cases "waiters (corr q) (reply_id r)")
  case None
  let ?q = "receiver_claim r q"
  have w: "(waiters (corr q))(reply_id r := None) = waiters (corr q)" using None by auto
  have same: "waiters (corr ?q) = waiters (corr q)" "next_slot (corr ?q) = next_slot (corr q)" "slots (corr ?q) = slots (corr q)"
    "x_id ?q = x_id q" "x_pc ?q = x_pc q" "committed ?q = committed q" "arrived ?q = arrived q @ [r]" "unmatched_out ?q = unmatched_out q @ [r]"
    using None w by (simp_all add: receiver_claim_def deliver_claim_def)
  then have "view ?q = view q" by (simp add: fun_eq_iff view_def)
  moreover have "mset (arrived q) + {#r#} = image_mset snd (mset (committed q)) + (mset (unmatched_out q) + {#r#}) +
      (\<Sum>n<next_slot (corr q). mset (s_buf (slots (corr q) n)) + returned (x_pc q n))"
    unfolding xinv_books [OF assms] by simp
  ultimately show ?thesis
    using xinv_table [OF assms] xinv_fresh [OF assms] xinv_view [OF assms]
    unfolding xinv_def by (simp only: same mset_append mset.simps add_0_left) blast
next
  case (Some n)
  with assms have i: "x_id q n = reply_id r" "n < next_slot (corr q)" by (auto simp: xinv_def)
  have ok: "view_ok (view q n)" using assms by (auto simp: xinv_def)
  with Some i have l: "live (x_pc q n)" by (auto simp: view_def split: if_splits)
  with ok Some i have "filter (\<lambda>p. fst p = n) (committed q) = []" "s_buf (slots (corr q) n) = []" "\<not> s_closed (slots (corr q) n)"
    "\<forall>x. x_pc q n \<noteq> Abandoning (Reply x) \<and> x_pc q n \<noteq> Draining (Reply x)" by (auto simp: view_def)
  with Some i l show ?thesis
    by (intro xinv_local [OF assms i(2)]) (auto simp: receiver_claim_def deliver_claim_def Let_def view_def split: if_splits)
qed

lemma xinv_start:
  assumes "xinv q" and "register i (corr q) = (c, Inr n)"
  shows "xinv (q\<lparr>corr := c, x_id := (x_id q)(n := i), x_pc := (x_pc q)(n := Sending)\<rparr>)" (is "xinv ?q")
proof -
  note I = assms(1) [unfolded xinv_def]
  have n: "n = next_slot (corr q)" and w: "waiters (corr q) i = None"
    and c: "c = (corr q)\<lparr>waiters := (waiters (corr q))(i \<mapsto> n), slots := (slots (corr q))(n := \<lparr>s_buf = [], s_closed = False\<rparr>),
              next_slot := Suc n\<rparr>"
    using assms(2) by (auto simp: register_def split: if_splits)
  have ok: "view_ok (view q n)" and pc: "x_pc q n = NotStarted" using I n by auto
  have com: "filter (\<lambda>p. fst p = n) (committed q) = []" using ok pc by (simp add: view_def)
  have own: "view_ok (view ?q n)" using com by (simp add: view_def c)
  have "view ?q m = view q m" if "m \<noteq> n" for m using that w by (auto simp: view_def c)
  with I own have v: "\<forall>m. view_ok (view ?q m)" by metis
  have "(\<Sum>m<Suc n. mset (s_buf (slots (corr ?q) m)) + returned (x_pc ?q m)) =
      (\<Sum>m<n. mset (s_buf (slots (corr q) m)) + returned (x_pc q m))"
    by (simp add: c returned_def)
  then have books: "mset (arrived ?q) = image_mset snd (mset (committed ?q)) + mset (unmatched_out ?q) +
      (\<Sum>m<next_slot (corr ?q). mset (s_buf (slots (corr ?q) m)) + returned (x_pc ?q m))"
    using xinv_books [OF assms(1)] n by (simp add: c)
  have "x_id ?q j = k \<and> j < next_slot (corr ?q)" if "waiters (corr ?q) k = Some j" for j k
    using that xinv_table [OF assms(1), of k j] n by (cases "k = i") (auto simp: c)
  moreover have "x_pc ?q j = NotStarted \<and> slots (corr ?q) j = \<lparr>s_buf = [], s_closed = False\<rparr>" if "next_slot (corr ?q) \<le> j" for j
    using that xinv_fresh [OF assms(1), of j] n by (simp add: c)
  ultimately show ?thesis using v books unfolding xinv_def by blast
qed

lemma xinv_Close:
  assumes "xinv q" and "closeAll (corr q) = Val c"
  shows "xinv (q\<lparr>corr := c\<rparr>)"
proof (cases "corr_closed (corr q)")
  case True
  with assms(2) have "q\<lparr>corr := c\<rparr> = q" by (simp add: closeAll_def)
  with assms(1) show ?thesis by simp
next
  case False
  note I = assms(1) [unfolded xinv_def]
  have c: "c = (corr q)\<lparr>corr_closed := True, waiters := Map.empty,
      slots := (\<lambda>n. if n \<in> ran (waiters (corr q)) then (slots (corr q) n)\<lparr>s_closed := True\<rparr> else slots (corr q) n)\<rparr>"
    using assms(2) False by (auto simp: closeAll_def split: if_splits)
  have own: "n \<in> ran (waiters (corr q)) \<longleftrightarrow> waiters (corr q) (x_id q n) = Some n" for n using I by (auto simp: ran_def)
  have v: "view_ok (view (q\<lparr>corr := c\<rparr>) n)" for n
    using xinv_view [OF assms(1), of n] by (auto simp: view_def c own)
  have "(\<Sum>n<next_slot (corr q). mset (s_buf (slots c n)) + returned (x_pc q n)) =
      (\<Sum>n<next_slot (corr q). mset (s_buf (slots (corr q) n)) + returned (x_pc q n))"
    by (intro sum.cong) (auto simp: c)
  with xinv_books [OF assms(1)] have "mset (arrived q) = image_mset snd (mset (committed q)) + mset (unmatched_out q) +
    (\<Sum>n<next_slot c. mset (s_buf (slots c n)) + returned (x_pc q n))" by (simp add: c)
  moreover have "x_pc q n = NotStarted \<and> slots c n = \<lparr>s_buf = [], s_closed = False\<rparr>" if "next_slot c \<le> n" for n
  proof -
    have "n \<notin> ran (waiters (corr q))" using that xinv_table [OF assms(1)] by (force simp: ran_def c)
    then show ?thesis using xinv_fresh [OF assms(1), of n] that by (simp add: c)
  qed
  moreover have "waiters c = Map.empty" by (simp add: c)
  ultimately show ?thesis using v by (simp add: xinv_def)
qed

lemma xinv_step: "xstep q q' \<Longrightarrow> xinv q \<Longrightarrow> xinv q'"
proof (induction rule: xstep.induct)
  case (start i q c n)
  then show ?case by (intro xinv_start)
next
  case (reply q n r c)
  then show ?case by (intro xinv_receive [OF reply.prems _ reply.hyps(2), where y = "Reply r" and extra = "[]"]) simp_all
next
  case (closed_slot q n c)
  then show ?case by (intro xinv_closed) auto
next
  case (deregistered q n x c)
  then show ?case by (intro xinv_deregistered)
next
  case (too_late q n x c)
  have "view_ok (view q n)" using too_late.prems by (auto simp: xinv_def)
  then have "\<forall>r. x \<noteq> Reply r" using too_late.hyps by (auto simp: view_def)
  with too_late show ?case by (intro xinv_pc) (auto simp: deregister_def split: if_splits)
next
  case (drain q n x r c y v)
  have "view_ok (view q n)" using drain.prems by (auto simp: xinv_def)
  then have "\<forall>s. x \<noteq> Reply s" using drain.hyps by (auto simp: view_def)
  with drain.hyps show ?case by (intro xinv_receive [OF drain.prems _ drain.hyps(2), where y = y and extra = "[r]"]) auto
next
  case (drain_closed q n x c)
  have "view_ok (view q n)" using drain_closed.prems by (auto simp: xinv_def)
  then have "\<forall>s. x \<noteq> Reply s" using drain_closed.hyps by (auto simp: view_def)
  with drain_closed show ?case by (intro xinv_closed) auto
next
  case (arrive q r)
  then show ?case by (intro xinv_arrive)
next
  case (fill q xs n r ys c)
  then show ?case by (intro xinv_fill)
next
  case (Close q c)
  then show ?case by (intro xinv_Close)
qed (auto intro!: xinv_pc)

lemma xinv_reach: "xreach q \<Longrightarrow> xinv q"
  by (induction rule: xreach.induct) (auto intro: xinv_init xinv_step)

text \<open>
  C8. Replies are neither lost, duplicated nor misdelivered. In every state a channel exchange
  reaches, under every interleaving of callers, arriving replies, timeouts, cancellations,
  send errors, panics and a close: a caller that returned a reply returned one that carries
  its own correlation id; and the replies that arrived are exactly the ones still on their way
  to a slot, the ones waiting in a slot, the ones returned to callers and the ones given to
  the unmatched path, each counted once.
\<close>
theorem exchange_replies_accounted:
  assumes "xreach q"
  shows "(\<forall>n r. x_pc q n = Done (Reply r) \<longrightarrow> reply_id r = x_id q n) \<and>
     mset (arrived q) = image_mset snd (mset (committed q)) + mset (unmatched_out q) +
       (\<Sum>n<next_slot (corr q). mset (s_buf (slots (corr q) n)) + returned (x_pc q n))"
proof -
  have I: "xinv q" using assms by (rule xinv_reach)
  have "reply_id r = x_id q n" if "x_pc q n = Done (Reply r)" for n r
  proof -
    have "view_ok (view q n)" using I by (auto simp: xinv_def)
    with that show ?thesis by (auto simp: view_def)
  qed
  with I show ?thesis by (simp add: xinv_def)
qed

text \<open>
  C9. Nothing in a channel exchange gets stuck, panics on a slot, or leaks. In every state it
  reaches: a caller that abandoned its slot too late and now drains it finds the slot full or
  closed, or a reply is committed to it; a committed reply finds its slot open and empty, so
  its send neither blocks nor panics; \<open>Close\<close> closes no slot twice; and the table only holds
  slots of callers that have not returned, so every exit, a panic included, has given up its
  entry.
\<close>
theorem exchange_never_stuck:
  assumes "xreach q"
  shows "(\<forall>n x. x_pc q n = Draining x \<longrightarrow> slot_recv n (corr q) \<noteq> None \<or> n \<in> fst ` set (committed q)) \<and>
     (\<forall>n r. (n, r) \<in> set (committed q) \<longrightarrow> (\<exists>c. slot_send n r (corr q) = Some (Val c))) \<and>
     (\<exists>c. closeAll (corr q) = Val c) \<and>
     (\<forall>i n. waiters (corr q) i = Some n \<longrightarrow> x_id q n = i \<and> live (x_pc q n))"
proof -
  have I: "xinv q" using assms by (rule xinv_reach)
  have ok: "view_ok (view q n)" for n using I by (auto simp: xinv_def)
  have w: "x_id q n = i" if "waiters (corr q) i = Some n" for i n using I that by (auto simp: xinv_def)
  have "slot_recv n (corr q) \<noteq> None \<or> n \<in> fst ` set (committed q)" if "x_pc q n = Draining x" for n x
  proof (cases "filter (\<lambda>p. fst p = n) (committed q)")
    case Nil
    then show ?thesis using ok [of n] that by (auto simp: view_def slot_recv_def split: list.splits)
  next
    case (Cons p ps)
    then have "p \<in> set (filter (\<lambda>p. fst p = n) (committed q))" by simp
    then show ?thesis by auto
  qed
  moreover have "\<exists>c. slot_send n r (corr q) = Some (Val c)" if "(n, r) \<in> set (committed q)" for n r
  proof -
    have "filter (\<lambda>p. fst p = n) (committed q) \<noteq> []" using that by (force simp: filter_empty_conv)
    then obtain p ps where "filter (\<lambda>p. fst p = n) (committed q) = p # ps" by (meson list.exhaust)
    then show ?thesis using ok [of n] by (auto simp: view_def slot_send_def split: if_splits)
  qed
  moreover have "\<not> s_closed (slots (corr q) n) \<and> live (x_pc q n)" if "waiters (corr q) i = Some n" for i n
    using ok [of n] that w [OF that] by (auto simp: view_def split: if_splits)
  ultimately show ?thesis using w by (auto simp: closeAll_def ran_def)
qed

text \<open>The uninterrupted operations are runs of the steps.\<close>

lemma giveUp_steps:
  assumes "xreach q" and "x_pc q n = Abandoning x" and "giveUp (x_id q n) n (corr q) = Some (c, r)"
  shows "xreach (q\<lparr>corr := c, x_pc := (x_pc q)(n := Done x), unmatched_out := unmatched_out q @ (case r of None \<Rightarrow> [] | Some m \<Rightarrow> [m])\<rparr>)"
proof (cases "waiters (corr q) (x_id q n) = Some n")
  case True
  then have "deregister (x_id q n) n (corr q) = (c, True)" "r = None" using assms(3) by (auto simp: giveUp_def deregister_def)
  with xreach.step [OF assms(1) xstep.deregistered [OF assms(2)]] show ?thesis by simp
next
  case False
  let ?q = "q\<lparr>x_pc := (x_pc q)(n := Draining x)\<rparr>"
  have d: "deregister (x_id q n) n (corr q) = (corr q, False)" and s: "slot_recv n (corr q) = Some (r, c)"
    using False assms(3) by (auto simp: giveUp_def deregister_def split: option.splits)
  have q: "xreach ?q" using xreach.step [OF assms(1) xstep.too_late [OF assms(2) d]] .
  show ?thesis
  proof (cases r)
    case None
    with xreach.step [OF q xstep.drain_closed [of ?q n x c]] s show ?thesis by simp
  next
    case (Some m)
    with xreach.step [OF q xstep.drain [of ?q n x m c x]] s show ?thesis by simp
  qed
qed

lemma deliver_steps:
  assumes "xreach q" and "deliver (reply_id r) r (corr q) = Some (Val (c, True))"
  shows "xreach (q\<lparr>corr := c, arrived := arrived q @ [r]\<rparr>)"
proof -
  from assms(2) obtain n c1 where n: "deliver_claim (reply_id r) (corr q) = (c1, Some n)" "slot_send n r c1 = Some (Val c)"
    by (auto simp: deliver_def deliver_claim_def split: option.splits res.splits)
  let ?q = "q\<lparr>corr := c1, committed := committed q @ [(n, r)], arrived := arrived q @ [r]\<rparr>"
  have q: "xreach ?q" using xreach.step [OF assms(1) xstep.arrive [of q r]] n(1) by (simp add: receiver_claim_def)
  have "committed ?q = committed q @ (n, r) # []" "slot_send n r (corr ?q) = Some (Val c)" using n by simp_all
  from xreach.step [OF q xstep.fill [OF this]] show ?thesis by (cases q) simp
qed

section \<open>Witnesses\<close>

definition demo_reply :: msg where
  "demo_reply = NewMessage (GInt 7) [HeaderCorrelationID \<mapsto> GString ''a'']"

definition demo_waiting :: xsys where
  "demo_waiting = \<lparr>corr = \<lparr>waiters = [''a'' \<mapsto> 0], corr_closed = False, slots = (\<lambda>_. \<lparr>s_buf = [], s_closed = False\<rparr>), next_slot = 1\<rparr>,
     x_id = (\<lambda>_. '''')(0 := ''a''), x_pc = (\<lambda>_. NotStarted)(0 := Waiting), committed = [], arrived = [], unmatched_out = []\<rparr>"

lemma demo_waiting_reach: "xreach demo_waiting"
proof -
  let ?q0 = "\<lparr>corr = newReplyCorrelator, x_id = (\<lambda>_. ''''), x_pc = (\<lambda>_. NotStarted), committed = [], arrived = [], unmatched_out = []\<rparr>"
  let ?c = "\<lparr>waiters = [''a'' \<mapsto> 0], corr_closed = False, slots = (\<lambda>_. \<lparr>s_buf = [], s_closed = False\<rparr>), next_slot = 1\<rparr>"
  have "register ''a'' (corr ?q0) = (?c, Inr 0)" by (simp add: register_def newReplyCorrelator_def fun_upd_idem)
  from xstep.start [OF _ this] have "xreach (?q0\<lparr>corr := ?c, x_id := (x_id ?q0)(0 := ''a''), x_pc := (x_pc ?q0)(0 := Sending)\<rparr>)"
    by (intro xreach.step [OF xreach.init]) simp
  from xreach.step [OF this xstep.sent [of _ 0]] show ?thesis by (simp add: demo_waiting_def)
qed

text \<open>The reply arrives and is committed to the slot.\<close>

definition demo_committed :: xsys where
  "demo_committed = receiver_claim demo_reply demo_waiting"

lemma demo_committed_simps:
  "corr demo_committed = (corr demo_waiting)\<lparr>waiters := Map.empty\<rparr>" "committed demo_committed = [(0, demo_reply)]"
  "x_id demo_committed = x_id demo_waiting" "x_pc demo_committed = x_pc demo_waiting" "x_pc demo_waiting 0 = Waiting" "x_id demo_waiting 0 = ''a''"
  by (simp_all add: demo_committed_def receiver_claim_def deliver_claim_def demo_waiting_def demo_reply_def reply_id_def
      Headers_String_def NewMessage_def type_assert_def)

lemma demo_committed_reach: "xreach demo_committed"
  unfolding demo_committed_def by (rule xreach.step [OF demo_waiting_reach xstep.arrive])

theorem exchange_replies_accounted_witness:
  "\<exists>q. xreach q \<and> x_pc q 0 = Done (Reply demo_reply) \<and> reply_id demo_reply = ''a''"
proof -
  let ?c1 = "(corr demo_committed)\<lparr>slots := (slots (corr demo_committed))(0 := \<lparr>s_buf = [demo_reply], s_closed = False\<rparr>)\<rparr>"
  let ?q1 = "demo_committed\<lparr>corr := ?c1, committed := [] @ []\<rparr>"
  have "slot_send 0 demo_reply (corr demo_committed) = Some (Val ?c1)" by (simp add: slot_send_def demo_committed_simps demo_waiting_def)
  from xstep.fill [OF _ this, of "[]" "[]"] have r1: "xreach ?q1" by (intro xreach.step [OF demo_committed_reach]) (simp add: demo_committed_simps)
  have pc: "x_pc ?q1 0 = Waiting" by (simp add: demo_committed_simps)
  obtain c2 where "slot_recv 0 (corr ?q1) = Some (Some demo_reply, c2)" by (simp add: slot_recv_def)
  from xreach.step [OF r1 xstep.reply [OF pc this]]
  have r2: "xreach (?q1\<lparr>corr := c2, x_pc := (x_pc ?q1)(0 := Done (Reply demo_reply))\<rparr>)" .
  from conjunct1 [OF exchange_replies_accounted [OF r2], THEN spec [of _ 0], THEN spec [of _ demo_reply]]
  have "reply_id demo_reply = ''a''" by (simp add: demo_committed_simps)
  with r2 show ?thesis by (intro exI conjI) auto
qed

theorem exchange_never_stuck_witness:
  "\<exists>q. xreach q \<and> x_pc q 0 = Draining (Failed (Sentinel ErrReplyTimeout)) \<and>
     (slot_recv 0 (corr q) \<noteq> None \<or> 0 \<in> fst ` set (committed q))"
proof -
  let ?x = "Failed (Sentinel ErrReplyTimeout)"
  let ?q1 = "demo_committed\<lparr>x_pc := (x_pc demo_committed)(0 := Abandoning ?x)\<rparr>"
  have r1: "xreach ?q1" by (intro xreach.step [OF demo_committed_reach] xstep.timed_out) (simp add: demo_committed_simps)
  have "x_pc ?q1 0 = Abandoning ?x" "deregister (x_id ?q1 0) 0 (corr ?q1) = (corr ?q1, False)"
    by (simp_all add: demo_committed_simps deregister_def)
  from xreach.step [OF r1 xstep.too_late [OF this]] have r2: "xreach (?q1\<lparr>x_pc := (x_pc ?q1)(0 := Draining ?x)\<rparr>)" .
  with conjunct1 [OF exchange_never_stuck [OF r2], THEN spec [of _ 0], THEN spec [of _ ?x]] show ?thesis
    by (intro exI [of _ "?q1\<lparr>x_pc := (x_pc ?q1)(0 := Draining ?x)\<rparr>"] conjI) simp_all
qed

section \<open>Construction\<close>

text \<open>
  A reply channel is its \<open>Subscribe\<close> and, when it has one, its \<open>SingleSubscriber\<close>; a subscription
  is a handle that may be nil. \<open>receive\<close> stands for the exchange's receiver.
\<close>

record 's exchangeConfig =
  ex_timeout :: duration
  ex_timeoutSet :: bool
  ex_clock :: "'s \<Rightarrow> time"
  ex_unmatched :: "'s channel option"
  allowShared :: bool

abbreviation defaultReplyTimeout :: duration where "defaultReplyTimeout \<equiv> 30 * Second"

definition WithReplyTimeout :: "duration \<Rightarrow> 's exchangeConfig \<Rightarrow> 's exchangeConfig" where
  "WithReplyTimeout d c = c\<lparr>ex_timeout := d, ex_timeoutSet := True\<rparr>"

definition WithUnmatchedReplySink :: "'s channel option \<Rightarrow> 's exchangeConfig \<Rightarrow> 's exchangeConfig" where
  "WithUnmatchedReplySink out c = (if out \<noteq> None then c\<lparr>ex_unmatched := out\<rparr> else c)"

definition WithExchangeClock :: "('s \<Rightarrow> time) option \<Rightarrow> 's exchangeConfig \<Rightarrow> 's exchangeConfig" where
  "WithExchangeClock clk c = (case clk of None \<Rightarrow> c | Some f \<Rightarrow> c\<lparr>ex_clock := f\<rparr>)"

definition WithSharedReplyChannel :: "'s exchangeConfig \<Rightarrow> 's exchangeConfig" where
  "WithSharedReplyChannel c = c\<lparr>allowShared := True\<rparr>"

record 's replyChannel =
  rc_Subscribe :: "'s handler \<Rightarrow> ('s, err + nat option) prog"
  rc_SingleSubscriber :: "('s, bool) prog option"

record 's ChannelExchange =
  xc_request :: "'s channel"
  xc_replySub :: nat
  xc_timeout :: duration
  xc_clock :: "'s \<Rightarrow> time"
  xc_unmatched :: "'s channel option"

definition safeSingleSubscriber :: "('s, bool) prog \<Rightarrow> ('s, bool \<times> err option) prog" where
  "safeSingleSubscriber probe =
     recoverP (bindP probe (\<lambda>b. returnP (b, None)))
       (\<lambda>r. (False, Some (Errorf ''SingleSubscriber panicked: %v'' [ArgV r])))"

definition probe_error :: "bool \<times> err option \<Rightarrow> err option" where
  "probe_error = (\<lambda>(single, cause).
     if single then None
     else (case cause of
             Some e \<Rightarrow> Some (Errorf ''%w: %w'' [ArgW (Sentinel ErrSharedReplyChannel), ArgW e])
           | None \<Rightarrow> Some (Sentinel ErrSharedReplyChannel)))"

definition probe_reply :: "'s exchangeConfig \<Rightarrow> 's replyChannel \<Rightarrow> ('s, err option) prog" where
  "probe_reply cfg reply =
     (if allowShared cfg then returnP None
      else (case rc_SingleSubscriber reply of
              None \<Rightarrow> returnP None
            | Some probe \<Rightarrow> bindP (safeSingleSubscriber probe) (\<lambda>b. returnP (probe_error b))))"

definition NewChannelExchange ::
  "('s \<Rightarrow> time) \<Rightarrow> 's handler \<Rightarrow> 's channel option \<Rightarrow> 's replyChannel option \<Rightarrow> ('s exchangeConfig \<Rightarrow> 's exchangeConfig) option list
    \<Rightarrow> ('s, err + 's ChannelExchange) prog" where
  "NewChannelExchange wall receive request reply opts =
     (case (request, reply) of
        (Some req, Some rep) \<Rightarrow>
          (case apply_opts 0 opts \<lparr>ex_timeout = defaultReplyTimeout, ex_timeoutSet = False, ex_clock = wall, ex_unmatched = None, allowShared = False\<rparr> of
             Inl i \<Rightarrow> returnP (Inl (nilOptionAt ''endpoint.NewChannelExchange'' i))
           | Inr cfg \<Rightarrow>
               if ex_timeoutSet cfg \<and> ex_timeout cfg \<le> 0 then returnP (Inl (Sentinel ErrInvalidReplyTimeout))
               else bindP (probe_reply cfg rep) (\<lambda>rejected.
                 (case rejected of
                    Some e \<Rightarrow> returnP (Inl e)
                  | None \<Rightarrow>
                      bindP (rc_Subscribe rep receive) (\<lambda>r.
                        (case r of
                           Inl e \<Rightarrow> returnP (Inl e)
                         | Inr None \<Rightarrow> returnP (Inl (Sentinel ErrNilSubscription))
                         | Inr (Some sub) \<Rightarrow>
                             returnP (Inr \<lparr>xc_request = req, xc_replySub = sub, xc_timeout = ex_timeout cfg, xc_clock = ex_clock cfg,
                                           xc_unmatched = ex_unmatched cfg\<rparr>))))))
      | _ \<Rightarrow> returnP (Inl (Sentinel ErrNilChannel)))"

definition routeUnmatched :: "'s channel option \<Rightarrow> 's ctx \<Rightarrow> msg \<Rightarrow> ('s, unit) prog" where
  "routeUnmatched out ctx r = (case out of None \<Rightarrow> returnP () | Some send \<Rightarrow> bindP (send ctx r) (\<lambda>_. returnP ()))"

section \<open>Gateways\<close>

type_synonym 's RequestReplyExchange = "'s ctx \<Rightarrow> msg \<Rightarrow> ('s, err + msg) prog"

definition nilExchangeStep :: "string \<Rightarrow> 's step" where
  "nilExchangeStep position next ctx m = returnP (Some (Errorf ''%w: %s'' [ArgW (PermanentError (Sentinel ErrNilExchange)), ArgS position]))"

text \<open>\<open>fresh\<close> is the random bytes \<open>NewID\<close> draws for the call.\<close>

definition OutboundGateway :: "('s \<Rightarrow> string) \<Rightarrow> 's RequestReplyExchange option \<Rightarrow> 's step" where
  "OutboundGateway fresh x =
     (case x of
        None \<Rightarrow> nilExchangeStep ''endpoint.OutboundGateway: nil exchange''
      | Some exchange \<Rightarrow> (\<lambda>next ctx m.
          bindP (readP fresh) (\<lambda>i.
            bindP (exchange ctx (WithHeader m HeaderCorrelationID (GString (NewID i)))) (\<lambda>r.
              (case r of
                 Inl e \<Rightarrow> returnP (Some e)
               | Inr reply \<Rightarrow>
                   next ctx (case Header m HeaderCorrelationID of
                               Some v \<Rightarrow> WithHeader reply HeaderCorrelationID v
                             | None \<Rightarrow> WithoutHeader reply HeaderCorrelationID))))))"

definition NewGateway :: "'s RequestReplyExchange option \<Rightarrow> (unit \<Rightarrow> unit) option list \<Rightarrow> err + 's RequestReplyExchange" where
  "NewGateway x opts =
     (case x of
        None \<Rightarrow> Inl (Sentinel ErrNilExchange)
      | Some exchange \<Rightarrow> (case apply_opts 0 opts () of Inl i \<Rightarrow> Inl (nilOptionAt ''endpoint.NewGateway'' i) | Inr _ \<Rightarrow> Inr exchange))"

definition Request ::
  "('a \<Rightarrow> goval) \<Rightarrow> (goval \<Rightarrow> 'b option) \<Rightarrow> ('s \<Rightarrow> time) \<Rightarrow> ('s \<Rightarrow> string) \<Rightarrow> ('s \<Rightarrow> string) \<Rightarrow> 's RequestReplyExchange
    \<Rightarrow> 's ctx \<Rightarrow> 'a \<Rightarrow> ('s, err + 'b) prog" where
  "Request inject cast wall fresh fresh' exchange ctx req =
     bindP (readP (\<lambda>s. (wall s, fresh s, fresh' s))) (\<lambda>(now, i, j).
       bindP (exchange ctx (boxMessage inject (WithHeader (New now i req []) HeaderCorrelationID (GString (NewID j))))) (\<lambda>r.
         (case r of
            Inl e \<Rightarrow> returnP (Inl e)
          | Inr reply \<Rightarrow>
              (case PayloadOf cast reply of Inl e \<Rightarrow> returnP (Inl e) | Inr out \<Rightarrow> returnP (Inr (payload out))))))"

text \<open>
  An outbound gateway leaves the flow's own correlation intact. The exchange gets the
  message under a freshly minted correlation id; the reply that goes on to the next handler
  carries the correlation header the message came with, of whatever type, or none when it had
  none, and is otherwise the reply unchanged; an exchange error is returned and the next
  handler is not called.
\<close>
theorem outbound_gateway_restores_correlation:
  assumes "exchange ctx (WithHeader m HeaderCorrelationID (GString (NewID (fresh s)))) s = (Val r, s')"
  shows "case r of
       Inl e \<Rightarrow> OutboundGateway fresh (Some exchange) nxt ctx m s = (Val (Some e), s')
     | Inr reply \<Rightarrow> \<exists>m'. OutboundGateway fresh (Some exchange) nxt ctx m s = nxt ctx m' s' \<and>
         Header m' HeaderCorrelationID = Header m HeaderCorrelationID \<and> payload m' = payload reply \<and>
         (\<forall>k. k = HeaderCorrelationID \<or> Header m' k = Header reply k)"
proof (cases r)
  case (Inr reply)
  let ?m = "case Header m HeaderCorrelationID of Some v \<Rightarrow> WithHeader reply HeaderCorrelationID v | None \<Rightarrow> WithoutHeader reply HeaderCorrelationID"
  have "OutboundGateway fresh (Some exchange) nxt ctx m s = nxt ctx ?m s'"
    using assms Inr by (simp add: OutboundGateway_def bindP_def readP_def)
  moreover have "Header ?m HeaderCorrelationID = Header m HeaderCorrelationID" "payload ?m = payload reply"
    "\<forall>k. k = HeaderCorrelationID \<or> Header ?m k = Header reply k"
    by (auto simp: Header_def WithHeader_def WithoutHeader_def Headers_Get_def Headers_with_def Headers_without_def split: option.splits)
  ultimately show ?thesis using Inr by auto
qed (use assms in \<open>simp add: OutboundGateway_def bindP_def readP_def returnP_def\<close>)

theorem outbound_gateway_restores_correlation_witness:
  "\<exists>m'. OutboundGateway (\<lambda>_. ''x'') (Some (\<lambda>ctx m. returnP (Inr m))) (\<lambda>ctx m s. (Val None, [m])) (\<lambda>_. None) demo_reply [] = (Val None, [m'])
     \<and> Header m' HeaderCorrelationID = Some (GString ''a'')"
proof -
  have "Header demo_reply HeaderCorrelationID = Some (GString ''a'')" by (simp add: demo_reply_def Header_def Headers_Get_def NewMessage_def)
  with outbound_gateway_restores_correlation [of "\<lambda>ctx m. returnP (Inr m)" "\<lambda>_. None" demo_reply "\<lambda>_. ''x''" "[]" _ "[]" "\<lambda>ctx m s. (Val None, [m])",
      OF returnP_def]
  show ?thesis by auto
qed

text \<open>
  A reply channel that admits other recipients is turned away before anything is subscribed
  on it. Unless the caller opted out, a probe that answers no, or panics, makes the
  construction fail with \<open>ErrSharedReplyChannel\<close> in the state the probe left, whatever the
  channel's \<open>Subscribe\<close> would have done; with the opt-out the probe is not even run.
\<close>
theorem shared_reply_channel_rejected:
  assumes "apply_opts 0 opts \<lparr>ex_timeout = defaultReplyTimeout, ex_timeoutSet = False, ex_clock = wall, ex_unmatched = None, allowShared = False\<rparr> = Inr cfg"
    and "ex_timeoutSet cfg \<longrightarrow> 0 < ex_timeout cfg"
    and "rc_SingleSubscriber reply = Some probe" and "probe s = (r, s')" and "r \<noteq> Val True"
  shows "if allowShared cfg
     then NewChannelExchange wall receive (Some req) (Some reply) opts s = NewChannelExchange wall receive (Some req) (Some (reply\<lparr>rc_SingleSubscriber := None\<rparr>)) opts s
     else \<exists>e. NewChannelExchange wall receive (Some req) (Some reply) opts s = (Val (Inl e), s') \<and> errors_Is e ErrSharedReplyChannel"
proof -
  have t: "\<not> (ex_timeoutSet cfg \<and> ex_timeout cfg \<le> 0)" using assms(2) by auto
  show ?thesis
  proof (cases r)
    case (Val b)
    then show ?thesis using assms t
      by (auto simp: NewChannelExchange_def probe_reply_def safeSingleSubscriber_def probe_error_def prog_simps)
  next
    case (Pan v)
    then show ?thesis using assms t
      by (auto simp: NewChannelExchange_def probe_reply_def safeSingleSubscriber_def probe_error_def prog_simps)
  qed
qed

theorem shared_reply_channel_rejected_witness:
  "\<exists>e. NewChannelExchange (\<lambda>_. 0) (\<lambda>ctx m. returnP None) (Some (\<lambda>ctx m. returnP None))
       (Some \<lparr>rc_Subscribe = (\<lambda>h s. (Val (Inr (Some 0)), Suc s)), rc_SingleSubscriber = Some (\<lambda>s. (Pan GNil, s))\<rparr>) [] (0::nat) = (Val (Inl e), 0)
     \<and> errors_Is e ErrSharedReplyChannel"
  using shared_reply_channel_rejected [of "[]" "\<lambda>_. 0"
      "\<lparr>ex_timeout = defaultReplyTimeout, ex_timeoutSet = False, ex_clock = (\<lambda>_. 0), ex_unmatched = None, allowShared = False\<rparr>"
      "\<lparr>rc_Subscribe = (\<lambda>h s. (Val (Inr (Some 0)), Suc s)), rc_SingleSubscriber = Some (\<lambda>s. (Pan GNil, s))\<rparr>" "\<lambda>s. (Pan GNil, s)" "0::nat" "Pan GNil" 0
      "\<lambda>ctx m. returnP None" "\<lambda>ctx m. returnP None"] by simp

end
