(* ===== verification/Group_Store.thy ===== *)
theory Group_Store
  imports Message "HOL-Library.Multiset"
begin

text \<open>
  Correlation groups: the \<open>MessageGroupStore\<close> interface (\<^verbatim>\<open>groupstore.go\<close>) and the in-memory
  store that implements it (\<^verbatim>\<open>adapter/memory/groupstore.go\<close>). A group keeps its members in
  arrival order, the ids it has seen, and a lease: a claim freezes the first \<open>claimedLen\<close>
  members under an epoch. Every operation runs under the store's mutex, so a sequence of
  operations is an interleaving of its callers.

  The locale \<open>message_group_store\<close> states what the interface promises in terms of the members
  a store retains and the lease it records; its client lemma is that over any run in which
  each claim is ended once, the members of a key that were accepted are the released ones
  followed by the retained ones, in order. The in-memory store is an interpretation.
  The store's own lemmas: its bounds, that members are deduplicated, and what its epoch
  does when a group is deleted and formed again.
\<close>

section \<open>Groups, claims and the interface\<close>

record MessageGroup =
  Key :: string
  Messages :: "msg list"
  CreatedAt :: time

record MessageGroupClaim = MessageGroup +
  Epoch :: int

text \<open>An interface value of type \<open>MessageGroup\<close>: nil, a typed nil pointer, or a group.\<close>

datatype group_ref = NilGroup | TypedNilGroup | GroupRef MessageGroup

record 's MessageGroupStore =
  mgs_Add :: "'s ctx \<Rightarrow> string \<Rightarrow> msg \<Rightarrow> ('s, group_ref \<times> err option) prog"
  mgs_ClaimGroup :: "'s ctx \<Rightarrow> string \<Rightarrow> ('s, MessageGroupClaim option \<times> err option) prog"
  mgs_SettleGroup :: "'s ctx \<Rightarrow> MessageGroupClaim \<Rightarrow> ('s, err option) prog"
  mgs_AbandonGroup :: "'s ctx \<Rightarrow> MessageGroupClaim \<Rightarrow> ('s, err option) prog"
  mgs_Expired :: "'s ctx \<Rightarrow> time \<Rightarrow> ('s, MessageGroup list \<times> err option) prog"
  mgs_RecoverInterval :: duration
  mgs_EmitsLiveValue :: bool

section \<open>The in-memory store: state and construction\<close>

record groupState =
  g_msgs :: "msg list"
  g_ids :: "string set"
  g_createdAt :: time
  g_epoch :: int
  g_leased :: bool
  g_claimedLen :: nat

record GroupStore =
  groups :: "string \<rightharpoonup> groupState"
  maxGroups :: int
  maxGroupMembers :: int

record groupStoreConfig =
  cfg_maxGroups :: int
  cfg_maxGroupMembers :: int

abbreviation maxGroupsCeiling :: int where "maxGroupsCeiling \<equiv> 1048576"
abbreviation defaultMaxGroupMembers :: int where "defaultMaxGroupMembers \<equiv> 65536"
abbreviation maxGroupMembersCeiling :: int where "maxGroupMembersCeiling \<equiv> 1048576"

definition WithMaxGroups :: "int \<Rightarrow> groupStoreConfig \<Rightarrow> groupStoreConfig" where
  "WithMaxGroups n c = c\<lparr>cfg_maxGroups := n\<rparr>"

definition WithMaxGroupMembers :: "int \<Rightarrow> groupStoreConfig \<Rightarrow> groupStoreConfig" where
  "WithMaxGroupMembers n c = c\<lparr>cfg_maxGroupMembers := n\<rparr>"

definition NewGroupStore :: "(groupStoreConfig \<Rightarrow> groupStoreConfig) option list \<Rightarrow> err + GroupStore" where
  "NewGroupStore opts =
     (case apply_opts 0 opts \<lparr>cfg_maxGroups = 1024, cfg_maxGroupMembers = defaultMaxGroupMembers\<rparr> of
        Inl i \<Rightarrow> Inl (nilOptionAt ''memory.NewGroupStore'' i)
      | Inr cfg \<Rightarrow>
        (case checkRange (Sentinel ErrInvalidCapacity) ''memory.WithMaxGroups''
                (cfg_maxGroups cfg) 1 maxGroupsCeiling of
           Some e \<Rightarrow> Inl e
         | None \<Rightarrow>
           (case checkRange (Sentinel ErrInvalidCapacity) ''memory.WithMaxGroupMembers''
                   (cfg_maxGroupMembers cfg) 1 maxGroupMembersCeiling of
              Some e \<Rightarrow> Inl e
            | None \<Rightarrow> Inr \<lparr>groups = Map.empty, maxGroups = cfg_maxGroups cfg,
                          maxGroupMembers = cfg_maxGroupMembers cfg\<rparr>)))"

section \<open>The in-memory store: operations\<close>

definition live_snapshot :: "string \<Rightarrow> groupState \<Rightarrow> MessageGroup" where
  "live_snapshot key g = \<lparr>Key = key, Messages = drop (g_claimedLen g) (g_msgs g), CreatedAt = g_createdAt g\<rparr>"

definition groupsOverflow :: "string \<Rightarrow> int \<Rightarrow> int \<Rightarrow> err" where
  "groupsOverflow key n mx =
     Errorf ''%w: memory.GroupStore.Add: new group %q rejected: store holds %d groups, limit %d''
       [ArgW (Sentinel ErrOverflowDropped), ArgS key, ArgD n, ArgD mx]"

definition membersOverflow :: "string \<Rightarrow> int \<Rightarrow> int \<Rightarrow> err" where
  "membersOverflow key n mx =
     Errorf ''%w: memory.GroupStore.Add: group %q holds %d members, limit %d''
       [ArgW (Sentinel ErrOverflowDropped), ArgS key, ArgD n, ArgD mx]"

text \<open>The body of \<open>Add\<close> once the group is there.\<close>

definition add_member :: "string \<Rightarrow> msg \<Rightarrow> groupState \<Rightarrow> GroupStore \<Rightarrow> GroupStore \<times> group_ref \<times> err option" where
  "add_member key m g s =
     (let i = ID m
      in if i \<noteq> '''' \<and> i \<in> g_ids g then (s, GroupRef (live_snapshot key g), None)
         else if int (length (g_msgs g)) \<ge> maxGroupMembers s then
           (let e = membersOverflow key (int (length (g_msgs g))) (maxGroupMembers s)
            in if \<not> g_leased g then (s, GroupRef (live_snapshot key g), Permanent (Some e))
               else (s, GroupRef (live_snapshot key g), Some e))
         else
           (let ids = (if i \<noteq> '''' then insert i (g_ids g) else g_ids g);
                g' = g\<lparr>g_ids := ids, g_msgs := g_msgs g @ [m]\<rparr>
            in (s\<lparr>groups := (groups s)(key \<mapsto> g')\<rparr>, GroupRef (live_snapshot key g'), None)))"

definition GroupStore_Add :: "time \<Rightarrow> string \<Rightarrow> msg \<Rightarrow> GroupStore \<Rightarrow> GroupStore \<times> group_ref \<times> err option" where
  "GroupStore_Add now key m s =
     (case groups s key of
        Some g \<Rightarrow> add_member key m g s
      | None \<Rightarrow>
          if int (card (dom (groups s))) \<ge> maxGroups s then
            (s, NilGroup, Some (groupsOverflow key (int (card (dom (groups s)))) (maxGroups s)))
          else
            (let g = \<lparr>g_msgs = [], g_ids = {}, g_createdAt = now, g_epoch = 0, g_leased = False, g_claimedLen = 0\<rparr>
             in add_member key m g (s\<lparr>groups := (groups s)(key \<mapsto> g)\<rparr>)))"

definition GroupStore_ClaimGroup :: "string \<Rightarrow> GroupStore \<Rightarrow> GroupStore \<times> MessageGroupClaim option \<times> err option" where
  "GroupStore_ClaimGroup key s =
     (case groups s key of
        None \<Rightarrow> (s, None, None)
      | Some g \<Rightarrow>
          if g_leased g then (s, None, None)
          else
            (let g' = g\<lparr>g_epoch := g_epoch g + 1, g_leased := True, g_claimedLen := length (g_msgs g)\<rparr>;
                 claimed = take (g_claimedLen g') (g_msgs g')
             in (s\<lparr>groups := (groups s)(key \<mapsto> g')\<rparr>,
                 Some \<lparr>Key = key, Messages = claimed, CreatedAt = g_createdAt g', Epoch = g_epoch g'\<rparr>, None)))"

definition fence_miss :: "MessageGroupClaim \<Rightarrow> groupState \<Rightarrow> bool" where
  "fence_miss c g \<longleftrightarrow> \<not> g_leased g \<or> g_epoch g \<noteq> Epoch c"

definition GroupStore_SettleGroup :: "time \<Rightarrow> MessageGroupClaim \<Rightarrow> GroupStore \<Rightarrow> GroupStore \<times> err option" where
  "GroupStore_SettleGroup now c s =
     (case groups s (Key c) of
        None \<Rightarrow> (s, None)
      | Some g \<Rightarrow>
          if fence_miss c g then (s, None)
          else
            (let claimed = take (g_claimedLen g) (g_msgs g);
                 ids = g_ids g - {i \<in> set (map ID claimed). i \<noteq> ''''};
                 residual = drop (g_claimedLen g) (g_msgs g)
             in if length residual = 0 then (s\<lparr>groups := (groups s)(Key c := None)\<rparr>, None)
                else (s\<lparr>groups := (groups s)(Key c \<mapsto>
                        g\<lparr>g_ids := ids, g_msgs := residual, g_leased := False, g_claimedLen := 0,
                          g_createdAt := now\<rparr>)\<rparr>, None)))"

definition GroupStore_AbandonGroup :: "MessageGroupClaim \<Rightarrow> GroupStore \<Rightarrow> GroupStore \<times> err option" where
  "GroupStore_AbandonGroup c s =
     (case groups s (Key c) of
        None \<Rightarrow> (s, None)
      | Some g \<Rightarrow>
          if fence_miss c g then (s, None)
          else (s\<lparr>groups := (groups s)(Key c \<mapsto> g\<lparr>g_leased := False, g_claimedLen := 0\<rparr>)\<rparr>, None))"

text \<open>\<open>order\<close> is the order the range statement visits the map's keys in.\<close>

definition GroupStore_Expired :: "string list \<Rightarrow> time \<Rightarrow> GroupStore \<Rightarrow> MessageGroup list \<times> err option" where
  "GroupStore_Expired order before s =
     (List.map_filter (\<lambda>key.
        (case groups s key of
           None \<Rightarrow> None
         | Some g \<Rightarrow>
             if g_createdAt g < before \<and> \<not> g_leased g
             then Some \<lparr>Key = key, Messages = g_msgs g, CreatedAt = g_createdAt g\<rparr> else None)) order, None)"

definition GroupStore_RecoverInterval :: duration where
  "GroupStore_RecoverInterval = 0"

definition GroupStore_EmitsLiveValue :: bool where
  "GroupStore_EmitsLiveValue = True"

lemmas group_op_defs [store_simps] =
  add_member_def GroupStore_Add_def GroupStore_ClaimGroup_def GroupStore_SettleGroup_def
  GroupStore_AbandonGroup_def fence_miss_def live_snapshot_def

section \<open>Bounds and deduplication\<close>

text \<open>What each retained group keeps true, and what the store keeps true of its groups.\<close>

definition group_wf :: "int \<Rightarrow> groupState \<Rightarrow> bool" where
  "group_wf mx g \<longleftrightarrow>
     g_msgs g \<noteq> [] \<and> int (length (g_msgs g)) \<le> mx \<and> 0 \<le> g_epoch g \<and>
     g_claimedLen g \<le> length (g_msgs g) \<and> (\<not> g_leased g \<longrightarrow> g_claimedLen g = 0) \<and>
     g_ids g = {i \<in> set (map ID (g_msgs g)). i \<noteq> ''''} \<and>
     distinct (filter (\<lambda>i. i \<noteq> '''') (map ID (g_msgs g)))"

definition gs_wf :: "GroupStore \<Rightarrow> bool" where
  "gs_wf s \<longleftrightarrow> finite (dom (groups s)) \<and> int (card (dom (groups s))) \<le> maxGroups s \<and>
     1 \<le> maxGroupMembers s \<and> (\<forall>k g. groups s k = Some g \<longrightarrow> group_wf (maxGroupMembers s) g)"

lemma gs_wf_group: "gs_wf s \<Longrightarrow> groups s k = Some g \<Longrightarrow> group_wf (maxGroupMembers s) g"
  by (simp add: gs_wf_def)

lemma gs_wf_update:
  assumes "gs_wf s" and "groups s k = Some g" and "group_wf (maxGroupMembers s) g'"
  shows "gs_wf (s\<lparr>groups := (groups s)(k \<mapsto> g')\<rparr>)"
proof -
  have "insert k (dom (groups s)) = dom (groups s)" using assms(2) by auto
  with assms show ?thesis by (auto simp: gs_wf_def)
qed

lemma gs_wf_delete:
  assumes "gs_wf s"
  shows "gs_wf (s\<lparr>groups := (groups s)(k := None)\<rparr>)"
proof -
  have "int (card (dom (groups s) - {k})) \<le> maxGroups s"
    using assms card_Diff1_le [of "dom (groups s)" k] by (auto simp: gs_wf_def)
  with assms show ?thesis by (auto simp: gs_wf_def)
qed

lemma group_wf_append:
  assumes "int (length (g_msgs g)) < mx" and "g_msgs g = [] \<or> group_wf mx g"
    and "g_msgs g = [] \<Longrightarrow> g_ids g = {} \<and> g_claimedLen g = 0 \<and> 0 \<le> g_epoch g"
    and "ID m = '''' \<or> ID m \<notin> g_ids g"
  shows "group_wf mx (g\<lparr>g_ids := (if ID m \<noteq> '''' then insert (ID m) (g_ids g) else g_ids g),
                        g_msgs := g_msgs g @ [m]\<rparr>)"
proof (cases "g_msgs g = []")
  case True
  with assms(1,3) show ?thesis by (auto simp: group_wf_def)
next
  case False
  with assms show ?thesis by (auto simp: group_wf_def)
qed

lemma add_member_cases:
  assumes "add_member key m g s = (s', r, e)"
  obtains (seen) "ID m \<noteq> ''''" "ID m \<in> g_ids g" "s' = s" "e = None" "r = GroupRef (live_snapshot key g)"
  | (full) "ID m = '''' \<or> ID m \<notin> g_ids g" "maxGroupMembers s \<le> int (length (g_msgs g))" "s' = s"
      "r = GroupRef (live_snapshot key g)"
      "e = (let x = Some (membersOverflow key (int (length (g_msgs g))) (maxGroupMembers s))
            in if g_leased g then x else Permanent x)"
  | (appended) g' where "ID m = '''' \<or> ID m \<notin> g_ids g" "int (length (g_msgs g)) < maxGroupMembers s"
      "g' = g\<lparr>g_ids := (if ID m \<noteq> '''' then insert (ID m) (g_ids g) else g_ids g), g_msgs := g_msgs g @ [m]\<rparr>"
      "s' = s\<lparr>groups := (groups s)(key \<mapsto> g')\<rparr>" "e = None" "r = GroupRef (live_snapshot key g')"
  using assms unfolding add_member_def Let_def by (auto split: if_splits simp del: fun_upd_apply)

lemma Add_wf:
  assumes "gs_wf s" and "GroupStore_Add now key m s = (s', r, e)"
  shows "gs_wf s'"
proof (cases "groups s key")
  case (Some g)
  then have add: "add_member key m g s = (s', r, e)" using assms(2) by (simp add: GroupStore_Add_def)
  note gw = gs_wf_group [OF assms(1) Some]
  from add show ?thesis
  proof (cases rule: add_member_cases)
    case (appended g')
    with gw have "group_wf (maxGroupMembers s) g'"
      using group_wf_append [of g "maxGroupMembers s" m] by (simp add: group_wf_def)
    then show ?thesis using gs_wf_update [OF assms(1) Some] appended(4) by simp
  qed (use assms(1) in simp_all)
next
  case None
  show ?thesis
  proof (cases "int (card (dom (groups s))) \<ge> maxGroups s")
    case True
    with assms None show ?thesis by (auto simp: GroupStore_Add_def)
  next
    case False
    let ?g = "\<lparr>g_msgs = [], g_ids = {}, g_createdAt = now, g_epoch = 0, g_leased = False, g_claimedLen = 0\<rparr>"
    let ?s = "s\<lparr>groups := (groups s)(key \<mapsto> ?g)\<rparr>"
    have add: "add_member key m ?g ?s = (s', r, e)" using assms(2) None False by (simp add: GroupStore_Add_def Let_def)
    have pos: "1 \<le> maxGroupMembers s" and fin: "finite (dom (groups s))" using assms(1) by (simp_all add: gs_wf_def)
    have card: "card (insert key (dom (groups s))) = Suc (card (dom (groups s)))"
      using None fin by (simp add: domIff)
    from add show ?thesis
    proof (cases rule: add_member_cases)
      case (appended g')
      then have "group_wf (maxGroupMembers s) g'"
        using group_wf_append [of ?g "maxGroupMembers s" m] by simp
      then show ?thesis using appended(4) assms(1) card False by (auto simp: gs_wf_def)
    qed (use pos in simp_all)
  qed
qed

lemma ClaimGroup_wf:
  assumes "gs_wf s"
  shows "gs_wf (fst (GroupStore_ClaimGroup key s))"
proof (cases "groups s key")
  case (Some g)
  then have "group_wf (maxGroupMembers s) (g\<lparr>g_epoch := g_epoch g + 1, g_leased := True, g_claimedLen := length (g_msgs g)\<rparr>)"
    using gs_wf_group [OF assms Some] by (simp add: group_wf_def)
  from gs_wf_update [OF assms Some this] show ?thesis using Some assms by (simp add: GroupStore_ClaimGroup_def)
qed (use assms in \<open>simp add: GroupStore_ClaimGroup_def\<close>)

lemma AbandonGroup_wf:
  assumes "gs_wf s"
  shows "gs_wf (fst (GroupStore_AbandonGroup c s))"
proof (cases "groups s (Key c)")
  case (Some g)
  then have "group_wf (maxGroupMembers s) (g\<lparr>g_leased := False, g_claimedLen := 0\<rparr>)"
    using gs_wf_group [OF assms Some] by (simp add: group_wf_def)
  from gs_wf_update [OF assms Some this] show ?thesis using Some assms by (simp add: GroupStore_AbandonGroup_def)
qed (use assms in \<open>simp add: GroupStore_AbandonGroup_def\<close>)

text \<open>Deleting the claimed prefix keeps the id set equal to the ids of what is left.\<close>

lemma residual_ids:
  assumes "distinct (filter (\<lambda>i. i \<noteq> '''') (map ID ms))"
  shows "{i \<in> set (map ID ms). i \<noteq> ''''} - {i \<in> set (map ID (take n ms)). i \<noteq> ''''} =
     {i \<in> set (map ID (drop n ms)). i \<noteq> ''''}"
proof -
  have "distinct (filter (\<lambda>i. i \<noteq> '''') (map ID (take n ms @ drop n ms)))" using assms by simp
  then have "set (filter (\<lambda>i. i \<noteq> '''') (map ID (take n ms))) \<inter> set (filter (\<lambda>i. i \<noteq> '''') (map ID (drop n ms))) = {}"
    unfolding map_append filter_append distinct_append by blast
  moreover have "set ms = set (take n ms) \<union> set (drop n ms)" by (metis append_take_drop_id set_append)
  ultimately show ?thesis by auto
qed

lemma SettleGroup_wf:
  assumes "gs_wf s"
  shows "gs_wf (fst (GroupStore_SettleGroup now c s))"
proof (cases "groups s (Key c)")
  case (Some g)
  note gw = gs_wf_group [OF assms Some]
  let ?n = "g_claimedLen g"
  let ?g = "g\<lparr>g_ids := g_ids g - {i \<in> set (map ID (take ?n (g_msgs g))). i \<noteq> ''''},
      g_msgs := drop ?n (g_msgs g), g_leased := False, g_claimedLen := 0, g_createdAt := now\<rparr>"
  have d: "distinct (filter (\<lambda>i. i \<noteq> '''') (map ID (g_msgs g)))" using gw by (simp add: group_wf_def)
  then have "distinct (filter (\<lambda>i. i \<noteq> '''') (map ID (take ?n (g_msgs g) @ drop ?n (g_msgs g))))" by simp
  then have "distinct (filter (\<lambda>i. i \<noteq> '''') (map ID (drop ?n (g_msgs g))))"
    unfolding map_append filter_append distinct_append by blast
  then have "?n < length (g_msgs g) \<Longrightarrow> group_wf (maxGroupMembers s) ?g"
    using gw residual_ids [OF d, of ?n] by (simp add: group_wf_def)
  then show ?thesis
    using gs_wf_update [OF assms Some, of ?g] gs_wf_delete [OF assms, of "Key c"] assms Some gw
    by (simp add: GroupStore_SettleGroup_def Let_def group_wf_def)
qed (use assms in \<open>simp add: GroupStore_SettleGroup_def\<close>)

lemma NewGroupStore_wf: "NewGroupStore opts = Inr s \<Longrightarrow> gs_wf s \<and> groups s = Map.empty"
  by (auto simp: NewGroupStore_def gs_wf_def split: sum.splits option.splits)

section \<open>What a group store promises\<close>

text \<open>
  The operations as functions of the store's state; \<open>members g k\<close> is what the store retains
  for a key, in arrival order, and \<open>lease g k\<close> the epoch and the length of the claimed
  prefix while a claim is in flight.
\<close>

definition redelivered :: "msg \<Rightarrow> msg list \<Rightarrow> bool" where
  "redelivered m ms \<longleftrightarrow> ID m \<noteq> '''' \<and> ID m \<in> set (map ID ms)"

record 'g group_ops =
  op_add :: "time \<Rightarrow> string \<Rightarrow> msg \<Rightarrow> 'g \<Rightarrow> 'g \<times> group_ref \<times> err option"
  op_claim :: "string \<Rightarrow> 'g \<Rightarrow> 'g \<times> MessageGroupClaim option \<times> err option"
  op_settle :: "time \<Rightarrow> MessageGroupClaim \<Rightarrow> 'g \<Rightarrow> 'g \<times> err option"
  op_abandon :: "MessageGroupClaim \<Rightarrow> 'g \<Rightarrow> 'g \<times> err option"
  op_members :: "'g \<Rightarrow> string \<Rightarrow> msg list"

text \<open>
  Runs of a store. \<open>opn\<close> are the claims handed out and not ended yet; \<open>acc\<close> and \<open>rel\<close> are, per key, the
  members accepted (an \<open>Add\<close> that returned nil and was not a redelivery) and the members of the claims that
  were settled. Every event calls the store. In an \<open>orderly\<close> run the clients settle or abandon only claims
  they were handed and have not ended yet: each claim is ended at most once.
\<close>

datatype group_event =
    Arrive time string msg
  | Lease string
  | Finish time MessageGroupClaim
  | GiveUp MessageGroupClaim

type_synonym 'g group_ledger = "'g \<times> MessageGroupClaim list \<times> (string \<Rightarrow> msg list) \<times> (string \<Rightarrow> msg list)"

fun group_step :: "'g group_ops \<Rightarrow> group_event \<Rightarrow> 'g group_ledger \<Rightarrow> 'g group_ledger" where
  "group_step ops (Arrive now k m) (g, opn, acc, rel) =
     (case op_add ops now k m g of (g', r, e) \<Rightarrow>
        (g', opn, if e = None \<and> \<not> redelivered m (op_members ops g k) then acc(k := acc k @ [m]) else acc, rel))"
| "group_step ops (Lease k) (g, opn, acc, rel) =
     (case op_claim ops k g of
        (g', Some c, e) \<Rightarrow> (g', c # opn, acc, rel) | (g', None, e) \<Rightarrow> (g', opn, acc, rel))"
| "group_step ops (Finish now c) (g, opn, acc, rel) =
     (case op_settle ops now c g of
        (g', None) \<Rightarrow> (g', remove1 c opn, acc, rel(Key c := rel (Key c) @ Messages c))
      | (g', Some e) \<Rightarrow> (g', opn, acc, rel))"
| "group_step ops (GiveUp c) (g, opn, acc, rel) =
     (case op_abandon ops c g of
        (g', None) \<Rightarrow> (g', remove1 c opn, acc, rel) | (g', Some e) \<Rightarrow> (g', opn, acc, rel))"

fun group_run :: "'g group_ops \<Rightarrow> group_event list \<Rightarrow> 'g group_ledger \<Rightarrow> 'g group_ledger" where
  "group_run ops [] x = x"
| "group_run ops (e # es) x = group_run ops es (group_step ops e x)"

fun ends_open :: "group_event \<Rightarrow> MessageGroupClaim list \<Rightarrow> bool" where
  "ends_open (Finish now c) opn \<longleftrightarrow> c \<in> set opn"
| "ends_open (GiveUp c) opn \<longleftrightarrow> c \<in> set opn"
| "ends_open _ opn \<longleftrightarrow> True"

fun orderly :: "'g group_ops \<Rightarrow> group_event list \<Rightarrow> 'g group_ledger \<Rightarrow> bool" where
  "orderly ops [] x \<longleftrightarrow> True"
| "orderly ops (e # es) x \<longleftrightarrow> ends_open e (fst (snd x)) \<and> orderly ops es (group_step ops e x)"

locale message_group_store =
  fixes add :: "time \<Rightarrow> string \<Rightarrow> msg \<Rightarrow> 'g \<Rightarrow> 'g \<times> group_ref \<times> err option"
    and claim :: "string \<Rightarrow> 'g \<Rightarrow> 'g \<times> MessageGroupClaim option \<times> err option"
    and settle :: "time \<Rightarrow> MessageGroupClaim \<Rightarrow> 'g \<Rightarrow> 'g \<times> err option"
    and abandon :: "MessageGroupClaim \<Rightarrow> 'g \<Rightarrow> 'g \<times> err option"
    and members :: "'g \<Rightarrow> string \<Rightarrow> msg list"
    and lease :: "'g \<Rightarrow> string \<Rightarrow> (int \<times> nat) option"
    and invar :: "'g \<Rightarrow> bool"
  assumes add_law: "invar g \<Longrightarrow> add now k m g = (g', r, e) \<Longrightarrow>
      invar g' \<and> lease g' = lease g \<and>
      members g' = (if e = None \<and> \<not> redelivered m (members g k)
                    then (members g)(k := members g k @ [m]) else members g)"
    and claim_some: "invar g \<Longrightarrow> claim k g = (g', Some c, e) \<Longrightarrow>
      invar g' \<and> members g' = members g \<and> lease g k = None \<and> e = None \<and> Key c = k \<and>
      Messages c = members g k \<and> members g k \<noteq> [] \<and>
      lease g' = (lease g)(k \<mapsto> (Epoch c, length (members g k)))"
    and claim_none: "invar g \<Longrightarrow> claim k g = (g', None, e) \<Longrightarrow> invar g' \<and> members g' = members g \<and> lease g' = lease g"
    and settle_held: "invar g \<Longrightarrow> lease g (Key c) = Some (Epoch c, n) \<Longrightarrow> settle now c g = (g', None) \<Longrightarrow>
      invar g' \<and> members g' = (members g)(Key c := drop n (members g (Key c))) \<and>
      lease g' = (lease g)(Key c := None)"
    and settle_err: "invar g \<Longrightarrow> settle now c g = (g', Some x) \<Longrightarrow> invar g' \<and> members g' = members g \<and> lease g' = lease g"
    and abandon_held: "invar g \<Longrightarrow> lease g (Key c) = Some (Epoch c, n) \<Longrightarrow> abandon c g = (g', None) \<Longrightarrow>
      invar g' \<and> members g' = members g \<and> lease g' = (lease g)(Key c := None)"
    and abandon_err: "invar g \<Longrightarrow> abandon c g = (g', Some x) \<Longrightarrow> invar g' \<and> members g' = members g \<and> lease g' = lease g"
    and lease_bound: "invar g \<Longrightarrow> lease g k = Some (ep, n) \<Longrightarrow> n \<le> length (members g k)"
begin

text \<open>A store with the claims handed out and not ended, and the members accepted and released per key.\<close>

definition ledger_ok :: "'g \<times> MessageGroupClaim list \<times> (string \<Rightarrow> msg list) \<times> (string \<Rightarrow> msg list) \<Rightarrow> bool" where
  "ledger_ok x \<longleftrightarrow> (case x of (g, opn, acc, rel) \<Rightarrow> invar g \<and> (\<forall>k. acc k = rel k @ members g k) \<and>
     distinct (map Key opn) \<and>
     (\<forall>c \<in> set opn. \<exists>n. lease g (Key c) = Some (Epoch c, n) \<and> Messages c = take n (members g (Key c))) \<and>
     (\<forall>k. lease g k \<noteq> None \<longrightarrow> k \<in> Key ` set opn))"

lemma ledger_add:
  assumes ok: "ledger_ok (g, opn, acc, rel)" and a: "add now k m g = (g', r, e)"
    and acc': "acc' = (if e = None \<and> \<not> redelivered m (members g k) then acc(k := acc k @ [m]) else acc)"
  shows "ledger_ok (g', opn, acc', rel)"
proof -
  have law: "invar g' \<and> lease g' = lease g \<and>
      members g' = (if e = None \<and> \<not> redelivered m (members g k) then (members g)(k := members g k @ [m]) else members g)"
    using add_law [OF _ a] ok by (auto simp: ledger_ok_def)
  have bound: "\<And>k' ep n. lease g k' = Some (ep, n) \<Longrightarrow> n \<le> length (members g k')"
    using lease_bound ok by (auto simp: ledger_ok_def)
  have "\<exists>n. lease g' (Key c) = Some (Epoch c, n) \<and> Messages c = take n (members g' (Key c))" if "c \<in> set opn" for c
  proof -
    from ok that obtain n where n: "lease g (Key c) = Some (Epoch c, n)" "Messages c = take n (members g (Key c))"
      by (auto simp: ledger_ok_def)
    from bound [OF n(1)] have "take n (members g' (Key c)) = take n (members g (Key c))" using law by auto
    with n law show ?thesis by auto
  qed
  then show ?thesis using ok law acc' by (auto simp: ledger_ok_def)
qed

lemma ledger_claim_some:
  assumes ok: "ledger_ok (g, opn, acc, rel)" and c: "claim k g = (g', Some c, e)"
  shows "ledger_ok (g', c # opn, acc, rel)"
proof -
  have law: "invar g' \<and> members g' = members g \<and> lease g k = None \<and> Key c = k \<and> Messages c = members g k \<and>
      lease g' = (lease g)(k \<mapsto> (Epoch c, length (members g k)))"
    using claim_some [OF _ c] ok by (auto simp: ledger_ok_def)
  then have "Key c \<notin> Key ` set opn" using ok by (auto simp: ledger_ok_def)
  then show ?thesis using ok law by (auto simp: ledger_ok_def)
qed

lemma ledger_claim_none: "ledger_ok (g, opn, acc, rel) \<Longrightarrow> claim k g = (g', None, e) \<Longrightarrow> ledger_ok (g', opn, acc, rel)"
  using claim_none [of g k g' e] by (auto simp: ledger_ok_def)

lemma open_removed: "distinct (map Key opn) \<Longrightarrow> c \<in> set opn \<Longrightarrow> Key ` set (remove1 c opn) = Key ` set opn - {Key c}"
  by (induction opn) auto

lemma open_others:
  assumes "distinct (map Key opn)" and "c \<in> set opn" and "x \<in> set (remove1 c opn)"
  shows "Key x \<noteq> Key c \<and> x \<in> set opn"
  using open_removed [OF assms(1,2)] assms(3) set_remove1_subset [of c opn] by blast

lemma ledger_end:
  assumes ok: "ledger_ok (g, opn, acc, rel)" and c: "c \<in> set opn" and i: "invar g'"
    and l: "lease g' = (lease g)(Key c := None)"
    and m: "members g' = members g \<and> rel' = rel \<or>
      (\<exists>n. lease g (Key c) = Some (Epoch c, n) \<and> members g' = (members g)(Key c := drop n (members g (Key c)))) \<and>
      rel' = rel(Key c := rel (Key c) @ Messages c)"
  shows "ledger_ok (g', remove1 c opn, acc, rel')"
proof -
  have d: "distinct (map Key opn)" using ok by (auto simp: ledger_ok_def)
  then have d': "distinct (map Key (remove1 c opn))"
    using set_remove1_subset [of c opn] by (auto simp: distinct_map intro: inj_on_subset)
  obtain n where n: "lease g (Key c) = Some (Epoch c, n)" "Messages c = take n (members g (Key c))"
    using ok c by (auto simp: ledger_ok_def)
  have "acc k = rel' k @ members g' k" for k
    using m n ok by (auto simp: ledger_ok_def)
  moreover have "\<exists>n. lease g' (Key x) = Some (Epoch x, n) \<and> Messages x = take n (members g' (Key x))"
    if "x \<in> set (remove1 c opn)" for x
    using open_others [OF d c that] ok l m by (auto simp: ledger_ok_def)
  moreover have "k \<in> Key ` set (remove1 c opn)" if "lease g' k \<noteq> None" for k
    using open_removed [OF d c] that l ok by (auto simp: ledger_ok_def split: if_splits)
  ultimately show ?thesis using i d' by (auto simp: ledger_ok_def)
qed

abbreviation ops :: "'g group_ops" where
  "ops \<equiv> \<lparr>op_add = add, op_claim = claim, op_settle = settle, op_abandon = abandon, op_members = members\<rparr>"

lemma ledger_ok_D:
  assumes "ledger_ok (g, opn, acc, rel)"
  shows "invar g" and "c \<in> set opn \<Longrightarrow> \<exists>n. lease g (Key c) = Some (Epoch c, n)"
  using assms by (auto simp: ledger_ok_def)

lemma ledger_step:
  assumes x: "ledger_ok x" and opened: "ends_open ev (fst (snd x))"
  shows "ledger_ok (group_step ops ev x)"
proof -
  obtain g opn acc rel where xe: "x = (g, opn, acc, rel)" by (cases x) auto
  note ok = x [unfolded xe]
  show ?thesis
  proof (cases ev)
    case (Arrive now k m)
    then show ?thesis using ledger_add [OF ok _ refl] xe by (auto split: prod.splits)
  next
    case (Lease k)
    then show ?thesis
      using ledger_claim_some [OF ok] ledger_claim_none [OF ok] xe by (auto split: prod.splits option.splits)
  next
    case (Finish now c)
    with opened xe have c: "c \<in> set opn" by simp
    then obtain n where n: "lease g (Key c) = Some (Epoch c, n)" using ledger_ok_D [OF ok] by blast
    obtain g' r where s: "settle now c g = (g', r)" by fastforce
    have "r = None \<Longrightarrow> ledger_ok (g', remove1 c opn, acc, rel(Key c := rel (Key c) @ Messages c))"
      using settle_held [OF ledger_ok_D(1) [OF ok] n] s n by (intro ledger_end [OF ok c]) auto
    moreover have "r \<noteq> None \<Longrightarrow> ledger_ok (g', opn, acc, rel)"
      using settle_err [OF ledger_ok_D(1) [OF ok]] s ok by (auto simp: ledger_ok_def)
    ultimately show ?thesis using Finish xe s by (auto split: option.splits)
  next
    case (GiveUp c)
    with opened xe have c: "c \<in> set opn" by simp
    then obtain n where n: "lease g (Key c) = Some (Epoch c, n)" using ledger_ok_D [OF ok] by blast
    obtain g' r where s: "abandon c g = (g', r)" by fastforce
    have "r = None \<Longrightarrow> ledger_ok (g', remove1 c opn, acc, rel)"
      using abandon_held [OF ledger_ok_D(1) [OF ok] n] s n by (intro ledger_end [OF ok c]) auto
    moreover have "r \<noteq> None \<Longrightarrow> ledger_ok (g', opn, acc, rel)"
      using abandon_err [OF ledger_ok_D(1) [OF ok]] s ok by (auto simp: ledger_ok_def)
    ultimately show ?thesis using GiveUp xe s by (auto split: option.splits)
  qed
qed

lemma ledger_run: "ledger_ok x \<Longrightarrow> orderly ops es x \<Longrightarrow> ledger_ok (group_run ops es x)"
  by (induction es arbitrary: x) (simp_all add: ledger_step)

lemma loss_free:
  assumes "invar g" and "members g = (\<lambda>_. [])" and "lease g = (\<lambda>_. None)"
    and "orderly ops es (g, [], \<lambda>_. [], \<lambda>_. [])"
    and "group_run ops es (g, [], \<lambda>_. [], \<lambda>_. []) = (g', opn, acc, rel)"
  shows "acc k = rel k @ members g' k \<and> distinct (map Key opn) \<and>
     (\<forall>c \<in> set opn. \<exists>n. Messages c = take n (members g' (Key c)))"
proof -
  have "ledger_ok (g, [], \<lambda>_. [], \<lambda>_. [])" using assms(1-3) by (simp add: ledger_ok_def)
  from ledger_run [OF this assms(4)] assms(5) have "ledger_ok (g', opn, acc, rel)" by simp
  then show ?thesis by (auto simp: ledger_ok_def)
qed

end

section \<open>The in-memory store keeps the promise\<close>

definition gs_members :: "GroupStore \<Rightarrow> string \<Rightarrow> msg list" where
  "gs_members s k = (case groups s k of None \<Rightarrow> [] | Some g \<Rightarrow> g_msgs g)"

definition gs_lease :: "GroupStore \<Rightarrow> string \<Rightarrow> (int \<times> nat) option" where
  "gs_lease s k =
     (case groups s k of None \<Rightarrow> None | Some g \<Rightarrow> if g_leased g then Some (g_epoch g, g_claimedLen g) else None)"

lemma gs_members_upd [simp]:
  "gs_members (s\<lparr>groups := (groups s)(k \<mapsto> g)\<rparr>) = (gs_members s)(k := g_msgs g)"
  "gs_members (s\<lparr>groups := (groups s)(k := None)\<rparr>) = (gs_members s)(k := [])"
  by (auto simp: gs_members_def)

lemma gs_lease_upd [simp]:
  "gs_lease (s\<lparr>groups := (groups s)(k \<mapsto> g)\<rparr>) =
     (gs_lease s)(k := if g_leased g then Some (g_epoch g, g_claimedLen g) else None)"
  "gs_lease (s\<lparr>groups := (groups s)(k := None)\<rparr>) = (gs_lease s)(k := None)"
  by (auto simp: gs_lease_def)

lemma gs_views:
  assumes "groups s k = Some g"
  shows "gs_members s k = g_msgs g"
    and "gs_lease s k = (if g_leased g then Some (g_epoch g, g_claimedLen g) else None)"
  using assms by (simp_all add: gs_members_def gs_lease_def)

lemma ids_redelivered:
  "group_wf mx g \<Longrightarrow> (ID m \<noteq> '''' \<and> ID m \<in> g_ids g) = redelivered m (g_msgs g)"
  by (auto simp: group_wf_def redelivered_def)

lemma Add_law:
  assumes wf: "gs_wf s" and add: "GroupStore_Add now k m s = (s', r, e)"
  shows "gs_lease s' = gs_lease s \<and>
     gs_members s' = (if e = None \<and> \<not> redelivered m (gs_members s k)
                      then (gs_members s)(k := gs_members s k @ [m]) else gs_members s) \<and>
     (e = None \<longrightarrow> (\<exists>g. groups s' k = Some g \<and> r = GroupRef (live_snapshot k g)))"
proof (cases "groups s k")
  case (Some g)
  then have "add_member k m g s = (s', r, e)" using add by (simp add: GroupStore_Add_def)
  then show ?thesis
    using ids_redelivered [OF gs_wf_group [OF wf Some], of m] Some
    by (cases rule: add_member_cases) (auto simp: gs_views [OF Some] Let_def fun_upd_idem split: if_splits)
next
  case None
  show ?thesis
  proof (cases "int (card (dom (groups s))) \<ge> maxGroups s")
    case True
    with add None show ?thesis by (auto simp: GroupStore_Add_def)
  next
    case False
    let ?g = "\<lparr>g_msgs = [], g_ids = {}, g_createdAt = now, g_epoch = 0, g_leased = False, g_claimedLen = 0\<rparr>"
    have "add_member k m ?g (s\<lparr>groups := (groups s)(k \<mapsto> ?g)\<rparr>) = (s', r, e)"
      using add None False by (simp add: GroupStore_Add_def Let_def)
    moreover have "gs_members s k = []" "gs_lease s k = None" using None by (simp_all add: gs_members_def gs_lease_def)
    moreover have "1 \<le> maxGroupMembers s" using wf by (simp add: gs_wf_def)
    ultimately show ?thesis
      by (cases rule: add_member_cases) (auto simp: redelivered_def)
  qed
qed

lemma ClaimGroup_law:
  assumes "gs_wf s" and "GroupStore_ClaimGroup k s = (s', co, e)"
  shows "e = None \<and>
     (case co of
        None \<Rightarrow> s' = s \<and> (gs_members s k = [] \<or> gs_lease s k \<noteq> None)
      | Some c \<Rightarrow> gs_members s' = gs_members s \<and> gs_lease s k = None \<and> Key c = k \<and> Messages c = gs_members s k \<and>
          gs_members s k \<noteq> [] \<and> gs_lease s' = (gs_lease s)(k \<mapsto> (Epoch c, length (gs_members s k))))"
proof (cases "groups s k")
  case None
  with assms show ?thesis by (auto simp: GroupStore_ClaimGroup_def gs_members_def)
next
  case (Some g)
  note v = gs_views [OF Some]
  have "(gs_members s)(k := g_msgs g) = gs_members s" by (simp add: v fun_upd_idem)
  with Some v assms(2) gs_wf_group [OF assms(1) Some] show ?thesis
    by (cases "g_leased g") (auto simp: GroupStore_ClaimGroup_def Let_def group_wf_def)
qed

lemma SettleGroup_law:
  assumes "GroupStore_SettleGroup now c s = (s', e)"
  shows "e = None \<and>
     (\<forall>n. gs_lease s (Key c) = Some (Epoch c, n) \<longrightarrow>
        gs_members s' = (gs_members s)(Key c := drop n (gs_members s (Key c))) \<and> gs_lease s' = (gs_lease s)(Key c := None)) \<and>
     ((\<forall>n. gs_lease s (Key c) \<noteq> Some (Epoch c, n)) \<longrightarrow> s' = s)"
proof (cases "groups s (Key c)")
  case None
  with assms show ?thesis by (auto simp: GroupStore_SettleGroup_def gs_lease_def)
next
  case (Some g)
  with assms show ?thesis
    by (auto simp: GroupStore_SettleGroup_def fence_miss_def Let_def gs_views [OF Some] split: if_splits)
qed

lemma AbandonGroup_law:
  assumes "GroupStore_AbandonGroup c s = (s', e)"
  shows "e = None \<and> gs_members s' = gs_members s \<and>
     (\<forall>n. gs_lease s (Key c) = Some (Epoch c, n) \<longrightarrow> gs_lease s' = (gs_lease s)(Key c := None)) \<and>
     ((\<forall>n. gs_lease s (Key c) \<noteq> Some (Epoch c, n)) \<longrightarrow> s' = s)"
proof (cases "groups s (Key c)")
  case None
  with assms show ?thesis by (auto simp: GroupStore_AbandonGroup_def gs_lease_def)
next
  case (Some g)
  then have "(gs_members s)(Key c := g_msgs g) = gs_members s" by (simp add: gs_views [OF Some] fun_upd_idem)
  with Some assms show ?thesis
    by (auto simp: GroupStore_AbandonGroup_def fence_miss_def gs_views [OF Some] split: if_splits)
qed

lemma gs_lease_bound:
  assumes "gs_wf s" and "gs_lease s k = Some (ep, n)"
  shows "n \<le> length (gs_members s k)"
proof -
  from assms(2) obtain g where g: "groups s k = Some g" by (cases "groups s k") (auto simp: gs_lease_def)
  from gs_wf_group [OF assms(1) g] assms(2) show ?thesis
    by (auto simp: gs_views [OF g] group_wf_def split: if_splits)
qed

interpretation memg: message_group_store GroupStore_Add GroupStore_ClaimGroup GroupStore_SettleGroup
  GroupStore_AbandonGroup gs_members gs_lease gs_wf
proof (unfold_locales, goal_cases)
  case (1 g now k m g' r e)
  then show ?case using Add_wf Add_law by blast
next
  case (2 g k g' c e)
  then show ?case using ClaimGroup_wf [of g k] ClaimGroup_law [of g k g' "Some c" e] by auto
next
  case (3 g k g' e)
  then show ?case using ClaimGroup_law [of g k g' None e] by auto
next
  case (4 g c n now g')
  then show ?case using SettleGroup_wf [of g now c] SettleGroup_law [of now c g g' None] by auto
next
  case (5 g now c g' x)
  then show ?case using SettleGroup_law by blast
next
  case (6 g c n g')
  then show ?case using AbandonGroup_wf [of g c] AbandonGroup_law [of c g g' None] by auto
next
  case (7 g c g' x)
  then show ?case using AbandonGroup_law by blast
next
  case (8 g k ep n)
  then show ?case by (rule gs_lease_bound)
qed

section \<open>Properties\<close>

definition memory_group_ops :: "GroupStore group_ops" where
  "memory_group_ops =
     \<lparr>op_add = GroupStore_Add, op_claim = GroupStore_ClaimGroup, op_settle = GroupStore_SettleGroup,
      op_abandon = GroupStore_AbandonGroup, op_members = gs_members\<rparr>"

text \<open>
  C3. Aggregation loses nothing and releases exclusively, when each claim is ended at most once and only
  by a holder it was handed to (the store does not enforce this: after its group was deleted, a repeated
  settlement can hit a newer group of the same key). Then, after any interleaving of adds, claims, and
  settlements and abandonments of open claims on
  the in-memory store, the members accepted for a key are exactly the members of the settled
  claims followed by the retained ones, in arrival order; no key has two open claims, and an
  open claim covers a prefix of what is retained, so members that arrive during a lease
  survive its settlement.
\<close>
theorem group_loss_free:
  assumes "NewGroupStore opts = Inr s"
    and "orderly memory_group_ops es (s, [], \<lambda>_. [], \<lambda>_. [])"
    and "group_run memory_group_ops es (s, [], \<lambda>_. [], \<lambda>_. []) = (s', opn, acc, rel)"
  shows "acc k = rel k @ gs_members s' k \<and> distinct (map Key opn) \<and>
     (\<forall>c \<in> set opn. \<exists>n. Messages c = take n (gs_members s' (Key c)))"
proof -
  have "gs_wf s" "gs_members s = (\<lambda>_. [])" "gs_lease s = (\<lambda>_. None)"
    using NewGroupStore_wf [OF assms(1)] by (auto simp: gs_members_def gs_lease_def)
  from memg.loss_free [OF this, of es] assms(2,3) show ?thesis by (auto simp: memory_group_ops_def)
qed

definition group_demo :: "group_event list" where
  "group_demo =
     (let m = (\<lambda>i. NewMessage GNil [HeaderMessageID \<mapsto> GString i]);
          c = \<lparr>Key = ''k'', Messages = [m ''a''], CreatedAt = 1, Epoch = 1\<rparr>
      in [Arrive 1 ''k'' (m ''a''), Arrive 2 ''k'' (m ''a''), Lease ''k'', Arrive 3 ''k'' (m ''b''), Lease ''k'', Finish 4 c])"

theorem group_loss_free_witness:
  "\<exists>s' opn acc rel. group_run memory_group_ops group_demo
       (\<lparr>groups = Map.empty, maxGroups = 1024, maxGroupMembers = 65536\<rparr>, [], \<lambda>_. [], \<lambda>_. []) = (s', opn, acc, rel) \<and>
     map ID (acc ''k'') = [''a'', ''b''] \<and> map ID (gs_members s' ''k'') = [''b''] \<and> opn = [] \<and>
     acc ''k'' = rel ''k'' @ gs_members s' ''k''"
proof -
  have new: "NewGroupStore [] = Inr \<lparr>groups = Map.empty, maxGroups = 1024, maxGroupMembers = 65536\<rparr>"
    by (simp add: NewGroupStore_def checkRange_def)
  obtain s' opn acc rel where run: "group_run memory_group_ops group_demo
      (\<lparr>groups = Map.empty, maxGroups = 1024, maxGroupMembers = 65536\<rparr>, [], \<lambda>_. [], \<lambda>_. []) = (s', opn, acc, rel)"
    by (metis prod_cases4)
  have "map ID (acc ''k'') = [''a'', ''b''] \<and> map ID (gs_members s' ''k'') = [''b''] \<and> opn = []"
    using run
    by (auto simp: group_demo_def memory_group_ops_def Let_def store_simps redelivered_def gs_members_def
        ID_def Headers_String_def)
  moreover have ord: "orderly memory_group_ops group_demo
      (\<lparr>groups = Map.empty, maxGroups = 1024, maxGroupMembers = 65536\<rparr>, [], \<lambda>_. [], \<lambda>_. [])"
    by (auto simp: group_demo_def memory_group_ops_def Let_def store_simps redelivered_def gs_members_def
        ID_def Headers_String_def)
  ultimately show ?thesis using group_loss_free [OF new ord run, of "''k''"] run
    by - (rule exI [of _ s'], rule exI [of _ opn], rule exI [of _ acc], rule exI [of _ rel], auto)
qed

text \<open>Any use of the store at all, claims that were never issued included.\<close>

inductive gs_reach :: "GroupStore \<Rightarrow> GroupStore \<Rightarrow> bool" for s0 where
  gs_start: "gs_reach s0 s0"
| gs_add: "gs_reach s0 s \<Longrightarrow> gs_reach s0 (fst (GroupStore_Add now k m s))"
| gs_claim: "gs_reach s0 s \<Longrightarrow> gs_reach s0 (fst (GroupStore_ClaimGroup k s))"
| gs_settle: "gs_reach s0 s \<Longrightarrow> gs_reach s0 (fst (GroupStore_SettleGroup now c s))"
| gs_abandon: "gs_reach s0 s \<Longrightarrow> gs_reach s0 (fst (GroupStore_AbandonGroup c s))"

lemma Add_caps:
  "maxGroups (fst (GroupStore_Add now k m s)) = maxGroups s"
  "maxGroupMembers (fst (GroupStore_Add now k m s)) = maxGroupMembers s"
  by (auto simp: GroupStore_Add_def add_member_def Let_def split: option.splits)

lemma gs_caps [simp]:
  "maxGroups (fst (GroupStore_ClaimGroup k s)) = maxGroups s"
  "maxGroupMembers (fst (GroupStore_ClaimGroup k s)) = maxGroupMembers s"
  "maxGroups (fst (GroupStore_SettleGroup now c s)) = maxGroups s"
  "maxGroupMembers (fst (GroupStore_SettleGroup now c s)) = maxGroupMembers s"
  "maxGroups (fst (GroupStore_AbandonGroup c s)) = maxGroups s"
  "maxGroupMembers (fst (GroupStore_AbandonGroup c s)) = maxGroupMembers s"
  by (auto simp: GroupStore_ClaimGroup_def GroupStore_SettleGroup_def GroupStore_AbandonGroup_def Let_def
      split: option.splits)

lemma gs_reach_wf: "gs_reach s0 s \<Longrightarrow> gs_wf s0 \<Longrightarrow> gs_wf s \<and> maxGroups s = maxGroups s0 \<and> maxGroupMembers s = maxGroupMembers s0"
proof (induction rule: gs_reach.induct)
  case (gs_add s now k m)
  then show ?case using Add_wf [of s now k m] Add_caps [of now k m s] by (metis prod.collapse)
qed (simp_all add: ClaimGroup_wf SettleGroup_wf AbandonGroup_wf)

text \<open>
  The store's two bounds hold in every state any sequence of calls reaches, forged or stale
  claims included: at most \<open>maxGroups\<close> groups, and in each group at most \<open>maxGroupMembers\<close>
  members counting claimed and live ones together; no group is empty, and no two members of a
  group share a non-empty id, however often a member is redelivered.
\<close>
theorem group_store_bounds:
  assumes "NewGroupStore opts = Inr s0" and "gs_reach s0 s"
  shows "int (card (dom (groups s))) \<le> maxGroups s0 \<and> maxGroups s0 \<le> 1048576 \<and>
     (\<forall>k g. groups s k = Some g \<longrightarrow>
        g_msgs g \<noteq> [] \<and> int (length (g_msgs g)) \<le> maxGroupMembers s0 \<and>
        distinct (filter (\<lambda>i. i \<noteq> '''') (map ID (g_msgs g))))"
proof -
  have "gs_wf s0" using NewGroupStore_wf [OF assms(1)] by blast
  from gs_reach_wf [OF assms(2) this] have "gs_wf s \<and> maxGroups s = maxGroups s0 \<and> maxGroupMembers s = maxGroupMembers s0" .
  moreover have "maxGroups s0 \<le> 1048576"
    using assms(1) by (auto simp: NewGroupStore_def split: sum.splits option.splits)
  ultimately show ?thesis by (auto simp: gs_wf_def group_wf_def)
qed

theorem group_store_bounds_witness:
  "\<exists>s. gs_reach \<lparr>groups = Map.empty, maxGroups = 1024, maxGroupMembers = 65536\<rparr> s \<and>
     dom (groups s) = {''k''} \<and> int (card (dom (groups s))) \<le> 1024"
proof -
  let ?init = "\<lparr>groups = Map.empty, maxGroups = 1024, maxGroupMembers = 65536\<rparr>"
  let ?s = "fst (GroupStore_Add 0 ''k'' (NewMessage GNil Map.empty) ?init)"
  have new: "NewGroupStore [] = Inr ?init" by (simp add: NewGroupStore_def checkRange_def)
  have r: "gs_reach ?init ?s" by (intro gs_add gs_start)
  moreover have "dom (groups ?s) = {''k''}"
    by (simp add: GroupStore_Add_def add_member_def Let_def ID_def Headers_String_def)
  moreover have "int (card (dom (groups ?s))) \<le> maxGroups ?init" using group_store_bounds [OF new r] by (rule conjunct1)
  ultimately show ?thesis by (intro exI [of _ ?s] conjI) simp_all
qed

text \<open>
  Why runs have to be orderly: the fence does not survive the deletion of a group. A claim settles and its group, now
  empty, is deleted; a new group forms under the same key and is claimed: its epoch is again
  1, so a second settlement of the old claim passes the fence and deletes the new group's
  member, which nobody released.
\<close>
theorem epoch_reused_after_deletion:
  "let a = NewMessage (GInt 1) Map.empty; b = NewMessage (GInt 2) Map.empty;
       (s1, _, e1) = GroupStore_Add 0 ''k'' a \<lparr>groups = Map.empty, maxGroups = 1, maxGroupMembers = 1\<rparr>;
       (s2, old, _) = GroupStore_ClaimGroup ''k'' s1;
       (s3, _) = GroupStore_SettleGroup 1 (the old) s2;
       (s4, _, e4) = GroupStore_Add 2 ''k'' b s3;
       (s5, new, _) = GroupStore_ClaimGroup ''k'' s4;
       (s6, _) = GroupStore_SettleGroup 3 (the old) s5
   in e1 = None \<and> e4 = None \<and> old \<noteq> None \<and> new \<noteq> None \<and>
      Messages (the old) = [a] \<and> gs_members s3 ''k'' = [] \<and>
      Messages (the new) = [b] \<and> gs_members s5 ''k'' = [b] \<and> gs_members s6 ''k'' = []"
  by (simp add: store_simps Let_def ID_def Headers_String_def gs_members_def NewMessage_def)

end
