(* ===== verification/Aggregator.thy ===== *)
theory Aggregator
  imports Handlers Group_Store
begin

text \<open>
  The aggregator (\<^verbatim>\<open>routing/aggregator.go\<close>): correlate, add to the group store, decide the
  release, claim, aggregate, send, settle; and the reaper that recovers and expires groups.
  The store, the channels and the caller's strategies are programs over the world. \<open>release\<close>
  loops as long as residual groups keep completing, so it and everything that calls it is
  an \<open>oprog\<close>: \<open>None\<close> is not returning.

  The lemmas: a claim is ended on every path of a release, panics included; what the handler
  makes of a store's overflow error; and, in a world with the in-memory store, that a
  release returns, what it leaves behind, and what a panic of the caller's strategy leaves.
\<close>

section \<open>Configuration\<close>

type_synonym 's CorrelationStrategy = "msg \<Rightarrow> ('s, err + string) prog"
type_synonym 's ReleaseStrategy = "MessageGroup \<Rightarrow> ('s, err + bool) prog"

record 's aggregatorConfig =
  output_ch :: "'s channel option"
  correlate :: "'s CorrelationStrategy option"
  release_when :: "'s ReleaseStrategy option"
  timeout :: duration
  expired :: "'s channel option"
  clock :: "'s \<Rightarrow> time"
  completionSize :: int
  completionSizeSet :: bool

abbreviation completionSizeCeiling :: int where "completionSizeCeiling \<equiv> 65536"

definition WithOutputChannel :: "'s channel option \<Rightarrow> 's aggregatorConfig \<Rightarrow> 's aggregatorConfig" where
  "WithOutputChannel ch c = c\<lparr>output_ch := ch\<rparr>"

definition WithCorrelationStrategy :: "'s CorrelationStrategy option \<Rightarrow> 's aggregatorConfig \<Rightarrow> 's aggregatorConfig" where
  "WithCorrelationStrategy fn c = c\<lparr>correlate := fn\<rparr>"

definition WithReleaseStrategy :: "'s ReleaseStrategy option \<Rightarrow> 's aggregatorConfig \<Rightarrow> 's aggregatorConfig" where
  "WithReleaseStrategy fn c = c\<lparr>release_when := fn\<rparr>"

definition WithReleaseWhen :: "(MessageGroup \<Rightarrow> ('s, bool) prog) option \<Rightarrow> 's aggregatorConfig \<Rightarrow> 's aggregatorConfig" where
  "WithReleaseWhen fn c =
     (case fn of
        None \<Rightarrow> c\<lparr>release_when := None\<rparr>
      | Some f \<Rightarrow> c\<lparr>release_when := Some (\<lambda>g. bindP (f g) (\<lambda>b. returnP (Inr b)))\<rparr>)"

definition WithCompletionSize :: "int \<Rightarrow> 's aggregatorConfig \<Rightarrow> 's aggregatorConfig" where
  "WithCompletionSize n c =
     c\<lparr>completionSize := n, completionSizeSet := True,
       release_when := Some (\<lambda>g. returnP (Inr (int (length (Messages g)) \<ge> n)))\<rparr>"

definition WithGroupTimeout :: "duration \<Rightarrow> 's aggregatorConfig \<Rightarrow> 's aggregatorConfig" where
  "WithGroupTimeout d c = c\<lparr>timeout := d\<rparr>"

definition WithExpiredGroupChannel :: "'s channel option \<Rightarrow> 's aggregatorConfig \<Rightarrow> 's aggregatorConfig" where
  "WithExpiredGroupChannel ch c = c\<lparr>expired := ch\<rparr>"

definition WithAggregatorClock :: "('s \<Rightarrow> time) option \<Rightarrow> 's aggregatorConfig \<Rightarrow> 's aggregatorConfig" where
  "WithAggregatorClock cl c = (case cl of None \<Rightarrow> c | Some f \<Rightarrow> c\<lparr>clock := f\<rparr>)"

section \<open>Default strategies\<close>

definition defaultCorrelate :: "'s CorrelationStrategy" where
  "defaultCorrelate m =
     (case Headers_String (headers m) HeaderCorrelationID of
        Some s \<Rightarrow> if s \<noteq> '''' then returnP (Inr s) else returnP (Inl (PermanentError (Sentinel ErrNoCorrelation)))
      | None \<Rightarrow> returnP (Inl (PermanentError (Sentinel ErrNoCorrelation))))"

text \<open>\<open>oor\<close> is what the platform makes of a float that does not fit an \<open>int\<close>.\<close>

fun asInt :: "int \<Rightarrow> goval \<Rightarrow> int option" where
  "asInt oor (GInt n) = Some n"
| "asInt oor (GInt64 n) = Some n"
| "asInt oor (GFloat64 f) = Some (float64_to_int oor f)"
| "asInt oor _ = None"

definition firstHeader :: "msg list \<Rightarrow> string \<Rightarrow> goval" where
  "firstHeader ms key = (case Header (hd ms) key of None \<Rightarrow> GNil | Some v \<Rightarrow> v)"

definition defaultRelease :: "int \<Rightarrow> 's ReleaseStrategy" where
  "defaultRelease oor g =
     (let ms = Messages g
      in if length ms = 0 then returnP (Inr False)
         else (case asInt oor (firstHeader ms HeaderSequenceSize) of
                 None \<Rightarrow> returnP (Inr False)
               | Some sz \<Rightarrow> returnP (Inr (int (length ms) \<ge> sz))))"

section \<open>Construction\<close>

record 's Aggregator =
  store :: "'s MessageGroupStore"
  assert_payload :: "msg \<Rightarrow> err option"
  agg :: "'s ctx \<Rightarrow> msg list \<Rightarrow> ('s, err + msg) prog"
  cfg :: "'s aggregatorConfig"

type_synonym ('s, 'a, 'b) AggregateFunc = "'s ctx \<Rightarrow> 'a message list \<Rightarrow> ('s, err + 'b message) prog"

fun payloads_of :: "(goval \<Rightarrow> 'a option) \<Rightarrow> msg list \<Rightarrow> err + 'a message list" where
  "payloads_of cast [] = Inr []"
| "payloads_of cast (m # ms) =
     (case PayloadOf cast m of
        Inl e \<Rightarrow> Inl e
      | Inr a \<Rightarrow> (case payloads_of cast ms of Inl e \<Rightarrow> Inl e | Inr as \<Rightarrow> Inr (a # as)))"

definition boxAggFn :: "(goval \<Rightarrow> 'a option) \<Rightarrow> ('b \<Rightarrow> goval) \<Rightarrow> ('s, 'a, 'b) AggregateFunc
    \<Rightarrow> 's ctx \<Rightarrow> msg list \<Rightarrow> ('s, err + msg) prog" where
  "boxAggFn cast box fn ctx grp =
     (case payloads_of cast grp of
        Inl e \<Rightarrow> returnP (Inl e)
      | Inr typed \<Rightarrow> bindP (fn ctx typed) (\<lambda>r.
          (case r of Inl e \<Rightarrow> returnP (Inl e) | Inr out \<Rightarrow> returnP (Inr (boxMessage box out)))))"

text \<open>\<open>wall\<close> is the real clock.\<close>

definition NewAggregator ::
  "int \<Rightarrow> ('s \<Rightarrow> time) \<Rightarrow> (goval \<Rightarrow> 'a option) \<Rightarrow> ('b \<Rightarrow> goval) \<Rightarrow> 's MessageGroupStore option
    \<Rightarrow> ('s, 'a, 'b) AggregateFunc option \<Rightarrow> ('s aggregatorConfig \<Rightarrow> 's aggregatorConfig) option list
    \<Rightarrow> err + 's Aggregator" where
  "NewAggregator oor wall cast box st fn opts =
     (case st of
        None \<Rightarrow> Inl (Sentinel ErrNilStore)
      | Some st' \<Rightarrow>
        (case fn of
           None \<Rightarrow> Inl (nilFuncAt ''routing.NewAggregator: nil fn'')
         | Some f \<Rightarrow>
           (case apply_opts 0 opts
                   \<lparr>output_ch = None, correlate = Some defaultCorrelate, release_when = Some (defaultRelease oor),
                    timeout = 0, expired = None, clock = wall, completionSize = 0, completionSizeSet = False\<rparr> of
              Inl i \<Rightarrow> Inl (nilOptionAt ''routing.NewAggregator'' i)
            | Inr c \<Rightarrow>
                if correlate c = None then Inl (nilFuncAt ''routing.NewAggregator: nil correlation strategy'')
                else if release_when c = None then Inl (nilFuncAt ''routing.NewAggregator: nil release strategy'')
                else
                  (case (if completionSizeSet c
                         then checkRange (Sentinel ErrInvalidCapacity) ''routing.WithCompletionSize''
                                (completionSize c) 1 completionSizeCeiling
                         else None) of
                     Some e \<Rightarrow> Inl e
                   | None \<Rightarrow>
                       if output_ch c = None then Inl (Sentinel ErrNilOutput)
                       else if timeout c > 0 \<and> expired c = None then Inl (Sentinel ErrExpiryChannelRequired)
                       else Inr \<lparr>store = st',
                                 assert_payload = (\<lambda>m. case PayloadOf cast m of Inl e \<Rightarrow> Some e | Inr _ \<Rightarrow> None),
                                 agg = boxAggFn cast box f, cfg = c\<rparr>))))"

section \<open>Release\<close>

text \<open>A channel or strategy the constructor checked; calling a nil one is a nil dereference.\<close>

abbreviation nilDereference :: goval where "nilDereference \<equiv> GValue ''runtime.Error'' 0"

definition send_on :: "'s channel option \<Rightarrow> 's ctx \<Rightarrow> msg \<Rightarrow> ('s, err option) prog" where
  "send_on ch ctx m = (case ch of None \<Rightarrow> (\<lambda>s. (Pan nilDereference, s)) | Some send \<Rightarrow> send ctx m)"

definition call_release :: "'s Aggregator \<Rightarrow> MessageGroup \<Rightarrow> ('s, err + bool) prog" where
  "call_release a g = (case release_when (cfg a) of None \<Rightarrow> (\<lambda>s. (Pan nilDereference, s)) | Some f \<Rightarrow> f g)"

definition call_correlate :: "'s Aggregator \<Rightarrow> msg \<Rightarrow> ('s, err + string) prog" where
  "call_correlate a m = (case correlate (cfg a) of None \<Rightarrow> (\<lambda>s. (Pan nilDereference, s)) | Some f \<Rightarrow> f m)"

text \<open>The body of \<open>releaseOnce\<close>: its error and whether it set \<open>settled\<close>.\<close>

definition releaseOnce_body :: "'s Aggregator \<Rightarrow> 's ctx \<Rightarrow> MessageGroupClaim \<Rightarrow> ('s, err option \<times> bool) prog" where
  "releaseOnce_body a ctx c =
     bindP (agg a ctx (Messages c)) (\<lambda>r.
       (case r of
          Inl e \<Rightarrow> returnP (Some e, False)
        | Inr out \<Rightarrow> bindP (send_on (output_ch (cfg a)) ctx out) (\<lambda>sendErr.
            (case sendErr of
               Some e \<Rightarrow> returnP (Some e, False)
             | None \<Rightarrow> bindP (mgs_SettleGroup (store a) ctx c) (\<lambda>settleErr.
                 (case settleErr of Some e \<Rightarrow> returnP (Some e, False) | None \<Rightarrow> returnP (None, True)))))))"

definition releaseOnce :: "'s Aggregator \<Rightarrow> 's ctx \<Rightarrow> MessageGroupClaim \<Rightarrow> ('s, err option) prog" where
  "releaseOnce a ctx c s =
     (case releaseOnce_body a ctx c s of
        (Val (e, settled), s') \<Rightarrow>
          if settled then (Val e, s') else deferP (returnP e) (mgs_AbandonGroup (store a) ctx c) s'
      | (Pan p, s') \<Rightarrow> deferP (\<lambda>t. (Pan p, t)) (mgs_AbandonGroup (store a) ctx c) s')"

text \<open>The loop of \<open>release\<close> over residual groups.\<close>

partial_function (option) residual_loop :: "'s Aggregator \<Rightarrow> 's ctx \<Rightarrow> string \<Rightarrow> ('s, err option) oprog" where
  "residual_loop a ctx key s =
     bindO (mgs_ClaimGroup (store a) ctx key) (\<lambda>(nxt, e) s1.
       (case nxt of
          None \<Rightarrow> returnO None s1
        | Some c \<Rightarrow>
            if e \<noteq> None then returnO None s1
            else bindO (call_release a (MessageGroup.truncate c)) (\<lambda>r s2.
              if r \<noteq> Inr True then bindO (mgs_AbandonGroup (store a) ctx c) (\<lambda>_. returnO None) s2
              else bindO (releaseOnce a ctx c) (\<lambda>relErr s3.
                if relErr \<noteq> None then returnO None s3 else residual_loop a ctx key s3) s2) s1)) s"

definition release :: "'s Aggregator \<Rightarrow> 's ctx \<Rightarrow> MessageGroupClaim \<Rightarrow> ('s, err option) oprog" where
  "release a ctx c =
     bindO (releaseOnce a ctx c) (\<lambda>e.
       (case e of Some x \<Rightarrow> returnO (Some x) | None \<Rightarrow> residual_loop a ctx (Key c)))"

section \<open>Handle\<close>

fun isNilGroup :: "group_ref \<Rightarrow> bool" where
  "isNilGroup NilGroup = True"
| "isNilGroup TypedNilGroup = True"
| "isNilGroup (GroupRef g) = False"

text \<open>\<open>reason\<close> is rendered into the text: an error inside it is not wrapped.\<close>

definition overflowRetryable :: "string \<Rightarrow> fmt_arg list \<Rightarrow> err" where
  "overflowRetryable key reason =
     Errorf ''%w: routing.Aggregator.Handle: group %q %s; retry to admit the rejected member''
       ([ArgW (Sentinel ErrOverflowDropped), ArgS key] @ reason)"

text \<open>The arm of \<open>Handle\<close> for an \<open>Add\<close> that failed with \<open>e\<close>.\<close>

definition handle_add_error :: "'s Aggregator \<Rightarrow> 's ctx \<Rightarrow> string \<Rightarrow> group_ref \<Rightarrow> err \<Rightarrow> ('s, err option) oprog" where
  "handle_add_error a ctx key grp e =
     (if \<not> errors_Is e ErrOverflowDropped then returnO (Some e)
      else if isNilGroup grp then returnO (Some e)
      else
        (case grp of
           GroupRef g \<Rightarrow>
             if length (Messages g) = 0 then returnO (Some e)
             else bindO (call_release a g) (\<lambda>r.
               (case r of
                  Inl rerr \<Rightarrow> returnO (errors_Join [Some e, Some rerr])
                | Inr ok \<Rightarrow>
                    if \<not> ok then returnO (Some e)
                    else bindO (mgs_ClaimGroup (store a) ctx key) (\<lambda>(cl, cerr).
                      (case cerr of
                         Some x \<Rightarrow> returnO (Some x)
                       | None \<Rightarrow>
                         (case cl of
                            None \<Rightarrow> returnO (Some (overflowRetryable key
                                      [ArgS ''is held by another holder, whose lease is draining it'']))
                          | Some c \<Rightarrow> bindOO (release a ctx c) (\<lambda>relErr.
                              (case relErr of
                                 Some x \<Rightarrow> returnO (Some (overflowRetryable key
                                   [ArgS ''was claimed but its release FAILED (%v), so it did not drain'', ArgE x]))
                               | None \<Rightarrow> returnO (Some (overflowRetryable key [ArgS ''drained by this release'']))))))))) 
         | _ \<Rightarrow> returnO (Some e)))"

text \<open>The arm for an \<open>Add\<close> that succeeded.\<close>

definition handle_added :: "'s Aggregator \<Rightarrow> 's ctx \<Rightarrow> string \<Rightarrow> group_ref \<Rightarrow> ('s, err option) oprog" where
  "handle_added a ctx key grp =
     (case grp of
        GroupRef g \<Rightarrow> bindO (call_release a g) (\<lambda>r.
          (case r of
             Inl e \<Rightarrow> returnO (Some e)
           | Inr ok \<Rightarrow>
               if \<not> ok then returnO None
               else bindO (mgs_ClaimGroup (store a) ctx key) (\<lambda>(cl, cerr).
                 (case cerr of
                    Some x \<Rightarrow> returnO (Some x)
                  | None \<Rightarrow> (case cl of None \<Rightarrow> returnO None | Some c \<Rightarrow> release a ctx c)))))
      | _ \<Rightarrow> returnO (Some (Errorf
          ''%w: routing.Aggregator.Handle: MessageGroupStore.Add returned a nil group with a nil error''
          [ArgW (PermanentError (Sentinel ErrNilMessageGroup))])))"

definition Aggregator_Handle :: "'s Aggregator \<Rightarrow> 's ctx \<Rightarrow> msg \<Rightarrow> ('s, err option) oprog" where
  "Aggregator_Handle a ctx m =
     (case assert_payload a m of
        Some e \<Rightarrow> returnO (Some e)
      | None \<Rightarrow> bindO (call_correlate a m) (\<lambda>k.
          (case k of
             Inl e \<Rightarrow> returnO (Some e)
           | Inr key \<Rightarrow> bindO (mgs_Add (store a) ctx key m) (\<lambda>(grp, e).
               (case e of
                  Some x \<Rightarrow> handle_add_error a ctx key grp x
                | None \<Rightarrow> handle_added a ctx key grp)))))"

section \<open>The reaper\<close>

definition reapInterval :: "'s Aggregator \<Rightarrow> duration" where
  "reapInterval a =
     (let interval = timeout (cfg a); storeInterval = mgs_RecoverInterval (store a)
      in if storeInterval > 0 \<and> (interval \<le> 0 \<or> storeInterval < interval) then storeInterval else interval)"

fun expire_members :: "'s Aggregator \<Rightarrow> 's ctx \<Rightarrow> msg list \<Rightarrow> ('s, err option) prog" where
  "expire_members a ctx [] = returnP None"
| "expire_members a ctx (m # ms) =
     bindP (send_on (expired (cfg a)) ctx m) (\<lambda>e.
       (case e of Some x \<Rightarrow> returnP (Some x) | None \<Rightarrow> expire_members a ctx ms))"

definition reapGroup :: "'s Aggregator \<Rightarrow> 's ctx \<Rightarrow> MessageGroup \<Rightarrow> time \<Rightarrow> ('s, unit) oprog" where
  "reapGroup a ctx g cutoff =
     bindO (mgs_ClaimGroup (store a) ctx (Key g)) (\<lambda>(cl, e).
       (case cl of
          None \<Rightarrow> returnO ()
        | Some c \<Rightarrow>
            if e \<noteq> None then returnO ()
            else bindO (call_release a (MessageGroup.truncate c)) (\<lambda>r.
              if r = Inr True then bindOO (release a ctx c) (\<lambda>_. returnO ())
              else if cutoff \<noteq> zeroTime \<and> CreatedAt c < cutoff then
                bindO (expire_members a ctx (Messages c)) (\<lambda>sendErr.
                  (case sendErr of
                     Some _ \<Rightarrow> bindO (mgs_AbandonGroup (store a) ctx c) (\<lambda>_. returnO ())
                   | None \<Rightarrow> bindO (mgs_SettleGroup (store a) ctx c) (\<lambda>_. returnO ())))
              else bindO (mgs_AbandonGroup (store a) ctx c) (\<lambda>_. returnO ()))))"

fun reap_all :: "'s Aggregator \<Rightarrow> 's ctx \<Rightarrow> time \<Rightarrow> MessageGroup list \<Rightarrow> ('s, unit) oprog" where
  "reap_all a ctx cutoff [] = returnO ()"
| "reap_all a ctx cutoff (g # gs) = bindOO (reapGroup a ctx g cutoff) (\<lambda>_. reap_all a ctx cutoff gs)"

definition reap :: "'s Aggregator \<Rightarrow> 's ctx \<Rightarrow> ('s, unit) oprog" where
  "reap a ctx s =
     (let cutoff = (if timeout (cfg a) > 0 then clock (cfg a) s - timeout (cfg a) else zeroTime)
      in bindO (mgs_Expired (store a) ctx cutoff) (\<lambda>(gs, e).
           (case e of Some _ \<Rightarrow> returnO () | None \<Rightarrow> reap_all a ctx cutoff gs)) s)"

text \<open>
  \<open>Run\<close>, for a run in which the select statement takes the ticker \<open>n\<close> times before it takes
  the context's end; \<open>env\<close> is what the world does between two iterations.
\<close>

fun run_ticks :: "'s Aggregator \<Rightarrow> 's ctx \<Rightarrow> ('s \<Rightarrow> 's) \<Rightarrow> nat \<Rightarrow> ('s, err option) oprog" where
  "run_ticks a ctx env 0 s = returnO (ctx s) s"
| "run_ticks a ctx env (Suc n) s = bindOO (reap a ctx) (\<lambda>_ s'. run_ticks a ctx env n (env s')) s"

definition Aggregator_Run :: "'s Aggregator \<Rightarrow> 's ctx \<Rightarrow> ('s \<Rightarrow> 's) \<Rightarrow> nat \<Rightarrow> ('s, err option) oprog" where
  "Aggregator_Run a ctx env n s =
     (if reapInterval a \<le> 0 then returnO (ctx (env s)) (env s) else run_ticks a ctx env n (env s))"

section \<open>Every path of a release ends its claim\<close>

text \<open>
  One release ends its claim on every path, panics of the aggregate function, the output
  channel or the store included: either \<open>SettleGroup\<close> succeeded on the claim as its last act
  and it returns nil, or \<open>AbandonGroup\<close> was called on the claim as its last act and it
  returns an error or panics.
\<close>
theorem release_ends_claim:
  "(\<exists>t. mgs_SettleGroup (store a) ctx c t = (Val None, snd (releaseOnce a ctx c s)) \<and>
        fst (releaseOnce a ctx c s) = Val None) \<or>
   (\<exists>t. snd (mgs_AbandonGroup (store a) ctx c t) = snd (releaseOnce a ctx c s) \<and>
        fst (releaseOnce a ctx c s) \<noteq> Val None)"
proof (cases "releaseOnce_body a ctx c s")
  case (Pair r s')
  show ?thesis
  proof (cases r)
    case (Pan p)
    with Pair show ?thesis
      by (intro disjI2 exI [of _ s'])
         (auto simp: releaseOnce_def prog_simps split: prod.splits res.splits)
  next
    case (Val x)
    obtain e settled where x: "x = (e, settled)" by fastforce
    have body: "settled \<longrightarrow> e = None \<and> (\<exists>t. mgs_SettleGroup (store a) ctx c t = (Val None, s'))"
      "\<not> settled \<longrightarrow> e \<noteq> None"
      using Pair Val x
      by (auto simp: releaseOnce_body_def prog_simps split: prod.splits res.splits sum.splits option.splits)
    show ?thesis
    proof (cases settled)
      case True
      with body(1) Pair Val x show ?thesis by (auto simp: releaseOnce_def)
    next
      case False
      with body(2) Pair Val x show ?thesis
        by (intro disjI2 exI [of _ s'])
           (auto simp: releaseOnce_def prog_simps split: prod.splits res.splits)
    qed
  qed
qed

section \<open>What Handle makes of an overflow\<close>

lemma overflowRetryable_transient:
  "errors_Is (overflowRetryable key [ArgS t]) ErrOverflowDropped" "\<not> IsPermanent (Some (overflowRetryable key [ArgS t]))"
  "errors_Is (overflowRetryable key [ArgS t, ArgE x]) ErrOverflowDropped"
  "\<not> IsPermanent (Some (overflowRetryable key [ArgS t, ArgE x]))"
  by (auto simp: overflowRetryable_def IsPermanent_iff)

lemma handle_add_error_cases:
  assumes "handle_add_error a ctx key grp e s = Some (r, s')" and "errors_Is e ErrOverflowDropped"
  obtains p where "r = Pan p"
  | "r = Val (Some e)"
  | g rerr t where "grp = GroupRef g" "call_release a g s = (Val (Inl rerr), t)" "r = Val (Some (Joined [e, rerr]))"
  | t cl x t' where "mgs_ClaimGroup (store a) ctx key t = (Val (cl, Some x), t')" "r = Val (Some x)"
  | x where "r = Val (Some x)" "errors_Is x ErrOverflowDropped" "\<not> IsPermanent (Some x)"
proof -
  consider "isNilGroup grp" | g where "grp = GroupRef g" by (cases grp) auto
  then show thesis
  proof cases
    case 1
    then show ?thesis using assms that(2) by (auto simp: handle_add_error_def prog_simps split: group_ref.splits)
  next
    case (2 g)
    then show ?thesis
      using assms that overflowRetryable_transient
      by (auto simp: handle_add_error_def prog_simps
          split: prod.splits res.splits sum.splits option.splits if_splits)
  qed
qed

text \<open>
  An overflow rejection of the store is never upgraded by the aggregator itself. When \<open>Add\<close>
  fails with \<open>ErrOverflowDropped\<close> and \<open>Handle\<close> returns, it returns an error, never nil, and
  that error is one of four: the store's, unchanged; the store's joined with the caller's
  release strategy's own error; the fault of a failed claim; or a fresh overflow error that
  is not permanent. So a permanent result was marked permanent by the store, by the
  caller's strategy or by the claim.
\<close>
theorem overflow_never_upgraded:
  assumes "assert_payload a m = None" and "call_correlate a m s = (Val (Inr key), s1)"
    and "mgs_Add (store a) ctx key m s1 = (Val (grp, Some e), s2)" and "errors_Is e ErrOverflowDropped"
    and "Aggregator_Handle a ctx m s = Some (Val r, s')"
  shows "\<exists>x. r = Some x \<and>
     (x = e
      \<or> (\<exists>g rerr t. grp = GroupRef g \<and> call_release a g s2 = (Val (Inl rerr), t) \<and> x = Joined [e, rerr])
      \<or> (\<exists>t cl t'. mgs_ClaimGroup (store a) ctx key t = (Val (cl, Some x), t'))
      \<or> (errors_Is x ErrOverflowDropped \<and> \<not> IsPermanent (Some x)))"
proof -
  have "handle_add_error a ctx key grp e s2 = Some (Val r, s')"
    using assms(1,2,3,5) by (simp add: Aggregator_Handle_def prog_simps)
  then show ?thesis
    by (rule handle_add_error_cases [OF _ assms(4)]) auto
qed

section \<open>A world with the in-memory group store\<close>

record 'x agg_world =
  w_store :: GroupStore
  w_now :: time
  w_rest :: 'x

text \<open>\<open>order\<close> is the order in which the store's map is ranged over.\<close>

definition memory_mgs :: "('x agg_world \<Rightarrow> string list) \<Rightarrow> 'x agg_world MessageGroupStore" where
  "memory_mgs order =
     \<lparr>mgs_Add = (\<lambda>ctx key m s. case GroupStore_Add (w_now s) key m (w_store s) of
                    (g, r, e) \<Rightarrow> (Val (r, e), s\<lparr>w_store := g\<rparr>)),
      mgs_ClaimGroup = (\<lambda>ctx key s. case GroupStore_ClaimGroup key (w_store s) of
                    (g, c, e) \<Rightarrow> (Val (c, e), s\<lparr>w_store := g\<rparr>)),
      mgs_SettleGroup = (\<lambda>ctx c s. case GroupStore_SettleGroup (w_now s) c (w_store s) of
                    (g, e) \<Rightarrow> (Val e, s\<lparr>w_store := g\<rparr>)),
      mgs_AbandonGroup = (\<lambda>ctx c s. case GroupStore_AbandonGroup c (w_store s) of
                    (g, e) \<Rightarrow> (Val e, s\<lparr>w_store := g\<rparr>)),
      mgs_Expired = (\<lambda>ctx before s. (Val (GroupStore_Expired (order s) before (w_store s)), s)),
      mgs_RecoverInterval = GroupStore_RecoverInterval,
      mgs_EmitsLiveValue = GroupStore_EmitsLiveValue\<rparr>"

lemma memory_mgs_simps [simp]:
  "mgs_Add (memory_mgs order) ctx key m s =
     (case GroupStore_Add (w_now s) key m (w_store s) of (g, r, e) \<Rightarrow> (Val (r, e), s\<lparr>w_store := g\<rparr>))"
  "mgs_ClaimGroup (memory_mgs order) ctx key s =
     (case GroupStore_ClaimGroup key (w_store s) of (g, c, e) \<Rightarrow> (Val (c, e), s\<lparr>w_store := g\<rparr>))"
  "mgs_SettleGroup (memory_mgs order) ctx c s =
     (case GroupStore_SettleGroup (w_now s) c (w_store s) of (g, e) \<Rightarrow> (Val e, s\<lparr>w_store := g\<rparr>))"
  "mgs_AbandonGroup (memory_mgs order) ctx c s =
     (case GroupStore_AbandonGroup c (w_store s) of (g, e) \<Rightarrow> (Val e, s\<lparr>w_store := g\<rparr>))"
  "mgs_RecoverInterval (memory_mgs order) = 0"
  by (simp_all add: memory_mgs_def GroupStore_RecoverInterval_def)

text \<open>A program of the caller's that leaves the group store alone.\<close>

definition frames :: "('x agg_world, 'a) prog \<Rightarrow> bool" where
  "frames p \<longleftrightarrow> (\<forall>s. w_store (snd (p s)) = w_store s)"

definition caller_frames :: "'x agg_world Aggregator \<Rightarrow> 'x agg_world ctx \<Rightarrow> bool" where
  "caller_frames a ctx \<longleftrightarrow>
     (\<forall>ms. frames (agg a ctx ms)) \<and> (\<forall>m. frames (send_on (output_ch (cfg a)) ctx m)) \<and>
     (\<forall>g. frames (call_release a g))"

lemma framesD: "frames p \<Longrightarrow> p s = (r, s') \<Longrightarrow> w_store s' = w_store s"
  by (metis frames_def snd_conv)

lemma releaseOnce_memory:
  assumes st: "store a = memory_mgs order" and fr: "caller_frames a ctx"
    and r: "releaseOnce a ctx c s = (r, s')" and l: "gs_lease (w_store s) (Key c) = Some (Epoch c, n)"
    and wf: "gs_wf (w_store s)"
  shows "gs_wf (w_store s') \<and> gs_lease (w_store s') = (gs_lease (w_store s))(Key c := None) \<and>
     gs_members (w_store s') =
       (if r = Val None then (gs_members (w_store s))(Key c := drop n (gs_members (w_store s) (Key c)))
        else gs_members (w_store s))"
proof -
  obtain b t where b: "releaseOnce_body a ctx c s = (b, t)" by fastforce
  have agg: "\<And>ms u x v. agg a ctx ms u = (x, v) \<Longrightarrow> w_store v = w_store u"
    and send: "\<And>m u x v. send_on (output_ch (cfg a)) ctx m u = (x, v) \<Longrightarrow> w_store v = w_store u"
    using fr framesD unfolding caller_frames_def by blast+
  have settle_ok: "\<And>now g e. GroupStore_SettleGroup now c (w_store s) = (g, e) \<Longrightarrow> e = None"
    using SettleGroup_law by blast
  have body: "b = Val (None, True) \<and> (\<exists>now. GroupStore_SettleGroup now c (w_store s) = (w_store t, None))
      \<or> (\<forall>e. b \<noteq> Val (e, True)) \<and> b \<noteq> Val (None, False) \<and> w_store t = w_store s"
    using b agg send settle_ok unfolding releaseOnce_body_def st
    by (fastforce simp: prog_simps split: prod.splits res.splits sum.splits option.splits)
  show ?thesis
  proof (cases "b = Val (None, True)")
    case True
    with body obtain now where g: "GroupStore_SettleGroup now c (w_store s) = (w_store t, None)" by auto
    with True b r have "s' = t" "r = Val None" by (simp_all add: releaseOnce_def)
    with SettleGroup_law [OF g] l SettleGroup_wf [OF wf, of now c] g show ?thesis by simp
  next
    case False
    with body have u: "w_store t = w_store s" by blast
    obtain g where g: "GroupStore_AbandonGroup c (w_store s) = (g, None)"
      using AbandonGroup_law by (metis surj_pair)
    from False body b r g u st have "w_store s' = g" "r \<noteq> Val None"
      by (auto simp: releaseOnce_def prog_simps split: res.splits prod.splits if_splits)
    with AbandonGroup_law [OF g] l AbandonGroup_wf [OF wf, of c] g show ?thesis by simp
  qed
qed

text \<open>The members were aggregated and the output channel took the result.\<close>

definition emitted :: "'s Aggregator \<Rightarrow> 's ctx \<Rightarrow> msg list \<Rightarrow> 's \<Rightarrow> bool" where
  "emitted a ctx ms s \<longleftrightarrow>
     (\<exists>out t t'. agg a ctx ms s = (Val (Inr out), t) \<and> send_on (output_ch (cfg a)) ctx out t = (Val None, t'))"

lemma releaseOnce_emits: "releaseOnce a ctx c s = (Val None, s') \<Longrightarrow> emitted a ctx (Messages c) s"
  by (auto simp: releaseOnce_def releaseOnce_body_def emitted_def prog_simps
      split: prod.splits res.splits sum.splits option.splits if_splits)

text \<open>
  What becomes of the members that arrived during a lease, once the claimed ones are settled: they stay,
  unleased; or the release strategy approved them and they were aggregated and sent as well; or the strategy panicked on
  them, and then they stay.
\<close>

definition late_outcome ::
  "'x agg_world Aggregator \<Rightarrow> 'x agg_world ctx \<Rightarrow> string \<Rightarrow> msg list \<Rightarrow> err option res \<Rightarrow> GroupStore \<Rightarrow> bool" where
  "late_outcome a ctx k late r g \<longleftrightarrow>
     gs_members g k = late \<and> gs_lease g k = None \<and> (\<forall>e. r \<noteq> Val (Some e))
     \<or> late \<noteq> [] \<and> (\<exists>(d :: MessageGroupClaim) t t'. Messages d = late \<and>
          (r = Val None \<and> call_release a (MessageGroup.truncate d) t = (Val (Inr True), t') \<and> emitted a ctx late t'
             \<and> gs_members g k = [] \<and> gs_lease g k = None
           \<or> (\<exists>p. r = Pan p \<and> call_release a (MessageGroup.truncate d) t = (Pan p, t') \<and> gs_members g k = late)))"

text \<open>The loop over residual groups, when nothing is added meanwhile: at most one more release.\<close>

lemma residual_loop_memory:
  assumes st: "store a = memory_mgs order" and fr: "caller_frames a ctx"
    and wf: "gs_wf (w_store s)" and l: "gs_lease (w_store s) k = None"
  shows "\<exists>r s'. residual_loop a ctx k s = Some (r, s') \<and> gs_wf (w_store s') \<and>
     late_outcome a ctx k (gs_members (w_store s) k) r (w_store s')"
  (is "\<exists>r s'. ?P r s'")
proof -
  obtain g co where cl: "GroupStore_ClaimGroup k (w_store s) = (g, co, None)"
    using ClaimGroup_law [OF wf] prod_cases3 by (metis (no_types, lifting))
  note law = ClaimGroup_law [OF wf cl]
  have gwf: "gs_wf g" using ClaimGroup_wf [OF wf, of k] cl by simp
  note unfold = residual_loop.simps [of a ctx k s] st cl prog_simps
  show ?thesis
  proof (cases co)
    case None
    with law have "g = w_store s" by simp
    with None wf l show ?thesis by (auto simp: unfold late_outcome_def)
  next
    case (Some c)
    let ?s1 = "s\<lparr>w_store := g\<rparr>"
    have key: "Key c = k" and lease: "gs_lease g (Key c) = Some (Epoch c, length (gs_members g k))"
      and mem: "gs_members g = gs_members (w_store s)"
      and late: "Messages c = gs_members (w_store s) k" "gs_members (w_store s) k \<noteq> []" using law Some by auto
    obtain r2 s2 where r2: "call_release a (MessageGroup.truncate c) ?s1 = (r2, s2)" by fastforce
    have "frames (call_release a (MessageGroup.truncate c))" using fr by (simp add: caller_frames_def)
    from framesD [OF this r2] have w2: "w_store s2 = g" by simp
    obtain g3 where ab: "GroupStore_AbandonGroup c g = (g3, None)" using AbandonGroup_law by (metis surj_pair)
    have ab': "gs_wf g3" "gs_lease g3 k = None" "gs_members g3 = gs_members g"
      using AbandonGroup_law [OF ab] AbandonGroup_wf [OF gwf, of c] ab lease key by auto
    obtain r3 s3 where r3: "releaseOnce a ctx c s2 = (r3, s3)" by fastforce
    have o3: "gs_wf (w_store s3)" "gs_lease (w_store s3) k = None"
      "r3 = Val None \<Longrightarrow> gs_members (w_store s3) k = []" "r3 \<noteq> Val None \<Longrightarrow> gs_members (w_store s3) = gs_members g"
      using releaseOnce_memory [OF st fr r3] w2 lease gwf key by auto
    have stop: "residual_loop a ctx k s3 = Some (Val None, s3)" if "r3 = Val None"
    proof -
      from o3(3) [OF that] have "GroupStore_ClaimGroup k (w_store s3) = (w_store s3, None, None)"
        using ClaimGroup_law [OF o3(1), of k] by (cases "GroupStore_ClaimGroup k (w_store s3)") (auto split: option.splits)
      then show ?thesis by (simp add: residual_loop.simps [of a ctx k s3] st prog_simps)
    qed
    let ?out = "\<lambda>r s'. late_outcome a ctx k (gs_members (w_store s) k) r (w_store s')"
    consider "r2 = Val (Inr True)" "r3 = Val None" | "r2 = Val (Inr True)" "r3 \<noteq> Val None"
      | d where "r2 = Val d" "d \<noteq> Inr True" | p where "r2 = Pan p" by (cases r2) auto
    then show ?thesis
    proof cases
      case 1
      have "?out (Val None) s3"
        unfolding late_outcome_def using 1 r2 late releaseOnce_emits [OF r3 [unfolded 1]] o3 by (auto intro!: exI [of _ c])
      then show ?thesis using 1 Some r2 r3 o3(1) stop by (auto simp: unfold)
    next
      case 2
      then obtain q where q: "residual_loop a ctx k s = Some (q, s3)" "\<forall>e. q \<noteq> Val (Some e)"
        using Some r2 r3 by (cases r3) (auto simp: unfold split: option.splits)
      have "?out q s3" unfolding late_outcome_def using o3 2 mem q(2) by simp
      then show ?thesis using q(1) o3(1) by blast
    next
      case 3
      have "?out (Val None) (s2\<lparr>w_store := g3\<rparr>)" unfolding late_outcome_def using ab' mem by simp
      then show ?thesis using 3 Some r2 w2 ab ab'(1) by (auto simp: unfold)
    next
      case 4
      have "?out (Pan p) s2" unfolding late_outcome_def using 4 r2 w2 mem late by (auto intro!: exI [of _ c])
      then show ?thesis using 4 Some r2 w2 gwf by (auto simp: unfold)
    qed
  qed
qed

lemma release_memory:
  assumes st: "store a = memory_mgs order" and fr: "caller_frames a ctx"
    and wf: "gs_wf (w_store s)" and l: "gs_lease (w_store s) (Key c) = Some (Epoch c, n)"
  shows "\<exists>r s'. release a ctx c s = Some (r, s') \<and> gs_wf (w_store s') \<and>
     (r \<noteq> Val None \<and> gs_lease (w_store s') (Key c) = None \<and> gs_members (w_store s') (Key c) = gs_members (w_store s) (Key c)
      \<or> emitted a ctx (Messages c) s
        \<and> late_outcome a ctx (Key c) (drop n (gs_members (w_store s) (Key c))) r (w_store s'))"
proof -
  obtain r1 s1 where r1: "releaseOnce a ctx c s = (r1, s1)" by fastforce
  note once = releaseOnce_memory [OF st fr r1 l wf]
  show ?thesis
  proof (cases "r1 = Val None")
    case False
    then have "release a ctx c s = Some (r1, s1)" using r1 by (cases r1) (auto simp: release_def prog_simps split: option.splits)
    with False once show ?thesis by auto
  next
    case True
    with once have l1: "gs_lease (w_store s1) (Key c) = None" and wf1: "gs_wf (w_store s1)"
      and m1: "gs_members (w_store s1) (Key c) = drop n (gs_members (w_store s) (Key c))" by auto
    have eq: "release a ctx c s = residual_loop a ctx (Key c) s1" using True r1 by (simp add: release_def prog_simps)
    show ?thesis
      unfolding eq using residual_loop_memory [OF st fr wf1 l1] releaseOnce_emits [OF r1 [unfolded True]] unfolding m1 by blast
  qed
qed

text \<open>
  C35. When the caller's functions (the aggregation, the output channel, the release strategy) leave the
  in-memory store alone, a release returns or unwinds with a panic of theirs: the loop over residual groups ends.
  Either it fails, with an error or a panic, and then every member is still there and the lease is gone; or the
  claimed members were aggregated, sent and removed. In the second case the members that arrived during the lease are still there,
  unleased, and no error is reported; or the release strategy approved exactly these, they were aggregated
  and sent as well, and nothing remains; or the strategy panicked on exactly these, they are still there, and only
  then can the group stay leased.
\<close>
theorem release_returns_and_frees:
  assumes "store a = memory_mgs order" and "caller_frames a ctx"
    and "gs_wf (w_store s)" and "gs_lease (w_store s) (Key c) = Some (Epoch c, n)"
  shows "\<exists>r s'. release a ctx c s = Some (r, s') \<and>
     (r \<noteq> Val None \<and> gs_lease (w_store s') (Key c) = None \<and> gs_members (w_store s') (Key c) = gs_members (w_store s) (Key c)
      \<or> emitted a ctx (Messages c) s
        \<and> late_outcome a ctx (Key c) (drop n (gs_members (w_store s) (Key c))) r (w_store s'))"
  using release_memory [OF assms] by blast

text \<open>An aggregator over the in-memory store that sends the first member of a complete group to
  a list, for use at concrete inputs; \<open>decide\<close> is its release strategy.\<close>

definition demo_aggregator :: "msg list agg_world ReleaseStrategy \<Rightarrow> msg list agg_world Aggregator" where
  "demo_aggregator decide =
     \<lparr>store = memory_mgs (\<lambda>_. []), assert_payload = (\<lambda>_. None), agg = (\<lambda>ctx ms s. (Val (Inr (hd ms)), s)),
      cfg = \<lparr>output_ch = Some (\<lambda>ctx m s. (Val None, s\<lparr>w_rest := w_rest s @ [m]\<rparr>)),
             correlate = Some (\<lambda>m. returnP (Inr ''k'')), release_when = Some decide, timeout = 0, expired = None,
             clock = w_now, completionSize = 0, completionSizeSet = False\<rparr>\<rparr>"

text \<open>One claimed member \<open>x\<close>, and \<open>y\<close> added during the lease.\<close>

definition demo_state :: "msg \<Rightarrow> msg \<Rightarrow> groupState" where
  "demo_state x y = \<lparr>g_msgs = [x, y], g_ids = {}, g_createdAt = 0, g_epoch = 1, g_leased = True, g_claimedLen = 1\<rparr>"

definition demo_world :: "msg \<Rightarrow> msg \<Rightarrow> msg list agg_world" where
  "demo_world x y =
     \<lparr>w_store = \<lparr>groups = [''k'' \<mapsto> demo_state x y], maxGroups = 8, maxGroupMembers = 8\<rparr>, w_now = 5, w_rest = []\<rparr>"

definition demo_claim :: "msg \<Rightarrow> MessageGroupClaim" where
  "demo_claim x = \<lparr>Key = ''k'', Messages = [x], CreatedAt = 0, Epoch = 1\<rparr>"

lemma demo_lease:
  "gs_lease (w_store (demo_world x y)) (Key (demo_claim x)) = Some (Epoch (demo_claim x), 1)"
  "gs_wf (w_store (demo_world (NewMessage GNil Map.empty) (NewMessage GNil Map.empty)))"
  by (simp_all add: gs_lease_def demo_world_def demo_claim_def demo_state_def gs_wf_def group_wf_def ID_def Headers_String_def)

text \<open>The strategy does not approve the late member: it is still there, unleased.\<close>

theorem release_returns_and_frees_witness:
  "\<exists>r s'. release (demo_aggregator (\<lambda>g. returnP (Inr False))) (\<lambda>_. None) (demo_claim (NewMessage GNil Map.empty))
      (demo_world (NewMessage GNil Map.empty) (NewMessage GNil Map.empty)) = Some (r, s')
     \<and> gs_lease (w_store s') ''k'' = None \<and> gs_members (w_store s') ''k'' \<noteq> []"
proof -
  let ?a = "demo_aggregator (\<lambda>g. returnP (Inr False))"
  have st: "store ?a = memory_mgs (\<lambda>_. [])" by (simp add: demo_aggregator_def)
  have fr: "caller_frames ?a (\<lambda>_. None)"
    by (simp add: caller_frames_def frames_def demo_aggregator_def send_on_def call_release_def returnP_def)
  have no: "call_release ?a g t = (Val (Inr False), t)" for g t by (simp add: call_release_def demo_aggregator_def returnP_def)
  have ms: "gs_members (w_store (demo_world m m)) ''k'' = [m, m]" for m by (simp add: gs_members_def demo_world_def demo_state_def)
  have k: "Key (demo_claim m) = ''k''" for m by (simp add: demo_claim_def)
  from release_returns_and_frees [OF st fr demo_lease(2) demo_lease(1)] show ?thesis
    unfolding k ms late_outcome_def no by auto
qed

text \<open>
  A panic of the caller's release strategy while a residual group is being re-examined
  leaves that group leased for good: the release of the claimed members succeeded, members
  that arrived during the lease form a residual, the residual is claimed, the strategy
  panics, and no deferred call abandons this second claim. The lease stays, every later
  \<open>ClaimGroup\<close> of the key is refused, and the residual is never released or expired.
\<close>
theorem strategy_panic_strands_residual:
  assumes "store a = memory_mgs order" and "caller_frames a ctx"
    and "gs_wf (w_store s)" and "gs_lease (w_store s) (Key c) = Some (Epoch c, n)"
    and "n < length (gs_members (w_store s) (Key c))"
    and "releaseOnce a ctx c s = (Val None, s1)"
    and "\<And>g t. \<exists>t'. call_release a g t = (Pan p, t')"
  shows "\<exists>s'. release a ctx c s = Some (Pan p, s') \<and>
     gs_members (w_store s') (Key c) = drop n (gs_members (w_store s) (Key c)) \<and>
     gs_lease (w_store s') (Key c) \<noteq> None \<and>
     GroupStore_ClaimGroup (Key c) (w_store s') = (w_store s', None, None) \<and>
     (\<forall>order before. \<forall>g \<in> set (fst (GroupStore_Expired order before (w_store s'))). Key g \<noteq> Key c)"
proof -
  note once = releaseOnce_memory [OF assms(1,2,6,4,3)]
  then have wf1: "gs_wf (w_store s1)" and l1: "gs_lease (w_store s1) (Key c) = None"
    and m1: "gs_members (w_store s1) (Key c) = drop n (gs_members (w_store s) (Key c))" by auto
  obtain g co where cl: "GroupStore_ClaimGroup (Key c) (w_store s1) = (g, co, None)"
    using ClaimGroup_law [OF wf1] prod_cases3 by (metis (no_types, lifting))
  note law = ClaimGroup_law [OF wf1 cl]
  from law l1 m1 assms(5) obtain d where d: "co = Some d" by (cases co) auto
  obtain s2 where s2: "call_release a (MessageGroup.truncate d) (s1\<lparr>w_store := g\<rparr>) = (Pan p, s2)"
    using assms(7) by blast
  have "frames (call_release a (MessageGroup.truncate d))" using assms(2) by (simp add: caller_frames_def)
  from framesD [OF this s2] have w2: "w_store s2 = g" by simp
  have run: "release a ctx c s = Some (Pan p, s2)"
    using assms(1,6) cl d s2 by (simp add: release_def prog_simps residual_loop.simps [of a ctx "Key c" s1])
  have lease: "gs_lease g (Key c) \<noteq> None" and mem: "gs_members g = gs_members (w_store s1)" using law d by auto
  from lease obtain gr where gr: "groups g (Key c) = Some gr" "g_leased gr"
    by (auto simp: gs_lease_def split: option.splits if_splits)
  then have "GroupStore_ClaimGroup (Key c) g = (g, None, None)" by (simp add: GroupStore_ClaimGroup_def)
  moreover have "\<forall>order before. \<forall>x \<in> set (fst (GroupStore_Expired order before g)). Key x \<noteq> Key c"
    using gr by (auto simp: GroupStore_Expired_def List.map_filter_def split: option.splits if_splits)
  ultimately show ?thesis
    using run w2 lease mem m1 by (intro exI [of _ s2]) simp
qed

theorem strategy_panic_strands_residual_witness:
  "\<exists>s'. release (demo_aggregator (\<lambda>g t. (Pan GNil, t))) (\<lambda>_. None) (demo_claim (NewMessage GNil Map.empty))
      (demo_world (NewMessage GNil Map.empty) (NewMessage GNil Map.empty)) = Some (Pan GNil, s') \<and>
    gs_lease (w_store s') ''k'' \<noteq> None"
proof -
  let ?m = "NewMessage GNil Map.empty"
  let ?a = "demo_aggregator (\<lambda>g t. (Pan GNil, t))"
  have st: "store ?a = memory_mgs (\<lambda>_. [])" by (simp add: demo_aggregator_def)
  have fr: "caller_frames ?a (\<lambda>_. None)"
    by (simp add: caller_frames_def frames_def demo_aggregator_def send_on_def call_release_def)
  have len: "1 < length (gs_members (w_store (demo_world ?m ?m)) (Key (demo_claim ?m)))"
    by (simp add: gs_members_def demo_world_def demo_claim_def demo_state_def)
  have "fst (releaseOnce ?a (\<lambda>_. None) (demo_claim ?m) (demo_world ?m ?m)) = Val None"
    by (simp add: releaseOnce_def releaseOnce_body_def demo_aggregator_def demo_claim_def demo_world_def demo_state_def
        send_on_def prog_simps GroupStore_SettleGroup_def fence_miss_def Let_def)
  then obtain s1 where once: "releaseOnce ?a (\<lambda>_. None) (demo_claim ?m) (demo_world ?m ?m) = (Val None, s1)"
    by (metis prod.collapse)
  have pan: "\<And>g t. \<exists>t'. call_release ?a g t = (Pan GNil, t')" by (simp add: call_release_def demo_aggregator_def)
  from strategy_panic_strands_residual [OF st fr demo_lease(2) demo_lease(1) len once pan]
  show ?thesis by (auto simp: demo_claim_def)
qed

theorem overflow_never_upgraded_witness:
  "\<exists>e x s'. errors_Is e ErrOverflowDropped \<and> IsPermanent (Some e) \<and>
     Aggregator_Handle (demo_aggregator (\<lambda>g. returnP (Inr True))) (\<lambda>_. None) (NewMessage (GInt 2) Map.empty)
       \<lparr>w_store = \<lparr>groups = [''k'' \<mapsto> (demo_state (NewMessage (GInt 1) Map.empty) (NewMessage (GInt 1) Map.empty))
           \<lparr>g_leased := False, g_claimedLen := 0\<rparr>], maxGroups = 1, maxGroupMembers = 2\<rparr>, w_now = 0, w_rest = []\<rparr>
     = Some (Val (Some x), s') \<and> (x = e \<or> \<not> IsPermanent (Some x))"
proof -
  let ?a = "demo_aggregator (\<lambda>g. returnP (Inr True))" and ?m = "NewMessage (GInt 2) Map.empty"
  let ?g = "(demo_state (NewMessage (GInt 1) Map.empty) (NewMessage (GInt 1) Map.empty))\<lparr>g_leased := False, g_claimedLen := 0\<rparr>"
  let ?s = "\<lparr>w_store = \<lparr>groups = [''k'' \<mapsto> ?g], maxGroups = 1, maxGroupMembers = 2\<rparr>, w_now = 0, w_rest = []\<rparr>"
  let ?e = "PermanentError (membersOverflow ''k'' 2 2)"
  have as: "assert_payload ?a ?m = None" and co: "call_correlate ?a ?m ?s = (Val (Inr ''k''), ?s)"
    by (simp_all add: demo_aggregator_def call_correlate_def returnP_def)
  have add: "mgs_Add (store ?a) (\<lambda>_. None) ''k'' ?m ?s = (Val (GroupRef (live_snapshot ''k'' ?g), Some ?e), ?s)"
    by (simp add: demo_aggregator_def demo_state_def GroupStore_Add_def add_member_def Let_def ID_def Headers_String_def)
  have ov: "errors_Is ?e ErrOverflowDropped" by (simp add: membersOverflow_def)
  have perm: "IsPermanent (Some ?e)" by (simp add: IsPermanent_iff)
  have "fst (the (Aggregator_Handle ?a (\<lambda>_. None) ?m ?s)) = Val (Some (overflowRetryable ''k'' [ArgS ''drained by this release''])) \<and>
      Aggregator_Handle ?a (\<lambda>_. None) ?m ?s \<noteq> None"
    by (simp add: Aggregator_Handle_def as co add [unfolded prod.case] handle_add_error_def ov prog_simps live_snapshot_def
        demo_aggregator_def call_release_def demo_state_def GroupStore_ClaimGroup_def Let_def release_def
        releaseOnce_def releaseOnce_body_def send_on_def GroupStore_SettleGroup_def fence_miss_def
        residual_loop.simps call_correlate_def GroupStore_Add_def add_member_def ID_def Headers_String_def membersOverflow_def)
  then obtain x s' where h: "Aggregator_Handle ?a (\<lambda>_. None) ?m ?s = Some (Val (Some x), s')" by auto
  have decided: "call_release ?a g t = (Val (Inr True), t)" for g t
    by (simp add: call_release_def demo_aggregator_def returnP_def)
  have claims: "mgs_ClaimGroup (store ?a) (\<lambda>_. None) ''k'' t \<noteq> (Val (cl, Some y), t')" for t cl y t'
    by (auto simp: demo_aggregator_def GroupStore_ClaimGroup_def Let_def split: option.splits if_splits prod.splits)
  from overflow_never_upgraded [OF as co add ov h] have "x = ?e \<or> \<not> IsPermanent (Some x)"
    unfolding decided using claims by auto
  with h ov perm show ?thesis by blast
qed

section \<open>Split, then aggregate\<close>

fun aggregate_all :: "'s Aggregator \<Rightarrow> 's ctx \<Rightarrow> msg list \<Rightarrow> ('s, err option) oprog" where
  "aggregate_all a ctx [] = returnO None"
| "aggregate_all a ctx (m # ms) =
     bindOO (Aggregator_Handle a ctx m) (\<lambda>e. case e of Some x \<Rightarrow> returnO (Some x) | None \<Rightarrow> aggregate_all a ctx ms)"

text \<open>The store with an unclaimed group of the members \<open>ms\<close> put under a key.\<close>

definition gathering :: "string \<Rightarrow> time \<Rightarrow> msg list \<Rightarrow> groupState" where
  "gathering k t ms =
     \<lparr>g_msgs = ms, g_ids = set (map ID ms), g_createdAt = t, g_epoch = 0, g_leased = False, g_claimedLen = 0\<rparr>"

definition gathered :: "string \<Rightarrow> msg list \<Rightarrow> 'x agg_world \<Rightarrow> 'x agg_world" where
  "gathered k ms s =
     (if ms = [] then s
      else s\<lparr>w_store := (w_store s)\<lparr>groups := (groups (w_store s))(k \<mapsto> gathering k (w_now s) ms)\<rparr>\<rparr>)"

text \<open>Room for a new group of \<open>n\<close> members under a key that is not in use.\<close>

definition has_room :: "string \<Rightarrow> nat \<Rightarrow> GroupStore \<Rightarrow> bool" where
  "has_room k n s \<longleftrightarrow> groups s k = None \<and> int (card (dom (groups s))) < maxGroups s \<and> int n \<le> maxGroupMembers s"

lemma Add_gathered:
  assumes "has_room k n (w_store s)" and "length ms < n" and "ID p \<noteq> ''''" and "ID p \<notin> set (map ID ms)"
  shows "GroupStore_Add (w_now s) k p (w_store (gathered k ms s)) =
     (w_store (gathered k (ms @ [p]) s), GroupRef \<lparr>Key = k, Messages = ms @ [p], CreatedAt = w_now s\<rparr>, None)"
  using assms
  by (cases "ms = []")
     (auto simp: has_room_def gathered_def gathering_def GroupStore_Add_def add_member_def live_snapshot_def Let_def)

lemma gathered_now [simp]: "w_now (gathered k ms s) = w_now s" "w_rest (gathered k ms s) = w_rest s"
  by (simp_all add: gathered_def)

lemma gathered_store [simp]: "(gathered k ms s)\<lparr>w_store := w_store (gathered k ms' s)\<rparr> = gathered k ms' s"
  by (simp add: gathered_def)

text \<open>A part the split stamped with the size \<open>n\<close> for the key \<open>k\<close>, of a payload the aggregator accepts.\<close>

definition part_of :: "(goval \<Rightarrow> 'a option) \<Rightarrow> string \<Rightarrow> nat \<Rightarrow> msg \<Rightarrow> bool" where
  "part_of cast k n p \<longleftrightarrow> Header p HeaderCorrelationID = Some (GString k) \<and>
     Header p HeaderSequenceSize = Some (GInt (int n)) \<and> ID p \<noteq> '''' \<and> (\<exists>x. PayloadOf cast p = Inr x)"

definition gathers :: "int \<Rightarrow> (goval \<Rightarrow> 'a option) \<Rightarrow> ('x agg_world \<Rightarrow> string list) \<Rightarrow> 'x agg_world Aggregator \<Rightarrow> bool" where
  "gathers oor cast order a \<longleftrightarrow> store a = memory_mgs order \<and>
     assert_payload a = (\<lambda>m. case PayloadOf cast m of Inl e \<Rightarrow> Some e | Inr _ \<Rightarrow> None) \<and>
     correlate (cfg a) = Some defaultCorrelate \<and> release_when (cfg a) = Some (defaultRelease oor)"

lemma NewAggregator_gathers:
  assumes "NewAggregator oor wall cast box (Some (memory_mgs order)) (Some fn) [Some (WithOutputChannel (Some send))] = Inr a"
  shows "gathers oor cast order a \<and> output_ch (cfg a) = Some send \<and> agg a = boxAggFn cast box fn"
  using assms by (auto simp: NewAggregator_def WithOutputChannel_def gathers_def)

lemma part_correlate:
  assumes "part_of cast k n p" and "k \<noteq> ''''" and "gathers oor cast order a"
  shows "assert_payload a p = None" and "call_correlate a p s = (Val (Inr k), s)"
  using assms
  by (auto simp: part_of_def gathers_def call_correlate_def defaultCorrelate_def Headers_String_def Header_def
      Headers_Get_def returnP_def)

lemma part_release:
  assumes "gathers oor cast order a" and "Messages g \<noteq> []" and "\<forall>p \<in> set (Messages g). part_of cast k n p"
  shows "call_release a g s = (Val (Inr (n \<le> length (Messages g))), s)"
proof -
  have "part_of cast k n (hd (Messages g))" using assms(2,3) by simp
  with assms(1,2) show ?thesis
    by (simp add: part_of_def gathers_def call_release_def defaultRelease_def firstHeader_def Let_def returnP_def)
qed

lemma Handle_gathers:
  assumes g: "gathers oor cast order a" and room: "has_room k n (w_store s)" and k: "k \<noteq> ''''"
    and parts: "\<forall>p \<in> set (ms @ [p]). part_of cast k n p" and fresh: "ID p \<notin> set (map ID ms)"
    and len: "Suc (length ms) < n"
  shows "Aggregator_Handle a ctx p (gathered k ms s) = Some (Val None, gathered k (ms @ [p]) s)"
proof -
  let ?grp = "\<lparr>Key = k, Messages = ms @ [p], CreatedAt = w_now s\<rparr>"
  have p: "part_of cast k n p" using parts by simp
  have st: "store a = memory_mgs order" using g by (simp add: gathers_def)
  have ne: "ID p \<noteq> ''''" using p by (simp add: part_of_def)
  have lt: "length ms < n" using len by simp
  note add = Add_gathered [OF room lt ne fresh]
  have rel: "call_release a ?grp t = (Val (Inr False), t)" for t
    using part_release [OF g, of ?grp k n t] parts len by simp
  show ?thesis
    by (simp add: Aggregator_Handle_def part_correlate [OF p k g] st add rel handle_added_def prog_simps)
qed

text \<open>The last part: claim, aggregate, send, settle, and no residual.\<close>

lemma Handle_completes:
  assumes g: "gathers oor cast order a" and room: "has_room k n (w_store s)" and k: "k \<noteq> ''''"
    and parts: "\<forall>p \<in> set (ms @ [p]). part_of cast k n p" and fresh: "ID p \<notin> set (map ID ms)"
    and len: "Suc (length ms) = n"
    and agg: "\<And>t. agg a ctx (ms @ [p]) t = (Val (Inr out), t)"
    and send: "\<And>t. send_on (output_ch (cfg a)) ctx out t = (Val None, t\<lparr>w_rest := f (w_rest t)\<rparr>)"
  shows "Aggregator_Handle a ctx p (gathered k ms s) = Some (Val None, s\<lparr>w_rest := f (w_rest s)\<rparr>)"
proof -
  let ?ms = "ms @ [p]"
  let ?grp = "\<lparr>Key = k, Messages = ?ms, CreatedAt = w_now s\<rparr>"
  let ?c = "\<lparr>Key = k, Messages = ?ms, CreatedAt = w_now s, Epoch = 1\<rparr>"
  let ?gs = "(w_store s)\<lparr>groups := (groups (w_store s))(k \<mapsto>
      (gathering k (w_now s) ?ms)\<lparr>g_epoch := 1, g_leased := True, g_claimedLen := Suc (length ms)\<rparr>)\<rparr>"
  let ?s = "s\<lparr>w_rest := f (w_rest s)\<rparr>"
  have p: "part_of cast k n p" using parts by simp
  have st: "store a = memory_mgs order" using g by (simp add: gathers_def)
  have ne: "ID p \<noteq> ''''" using p by (simp add: part_of_def)
  have lt: "length ms < n" using len by simp
  have none: "groups (w_store s) k = None" using room by (simp add: has_room_def)
  note add = Add_gathered [OF room lt ne fresh]
  have rel: "call_release a ?grp t = (Val (Inr True), t)" for t
    using part_release [OF g, of ?grp k n t] parts len by simp
  have claim: "GroupStore_ClaimGroup k (w_store (gathered k ?ms s)) = (?gs, Some ?c, None)"
    by (simp add: GroupStore_ClaimGroup_def gathered_def gathering_def Let_def)
  have settle: "GroupStore_SettleGroup now ?c ?gs = (w_store s, None)" for now
    using none by (simp add: GroupStore_SettleGroup_def gathering_def fence_miss_def Let_def fun_upd_idem)
  have once: "releaseOnce a ctx ?c ((gathered k ?ms s)\<lparr>w_store := ?gs\<rparr>) = (Val None, ?s)"
    by (simp add: releaseOnce_def releaseOnce_body_def agg send st settle prog_simps gathered_def)
  have stop: "residual_loop a ctx k ?s = Some (Val None, ?s)"
    using none by (simp add: residual_loop.simps [of a ctx k] st prog_simps GroupStore_ClaimGroup_def)
  have "release a ctx ?c ((gathered k ?ms s)\<lparr>w_store := ?gs\<rparr>) = Some (Val None, ?s)"
    using once stop by (simp add: release_def prog_simps)
  then show ?thesis
    by (simp add: Aggregator_Handle_def part_correlate [OF p k g] st add rel claim handle_added_def prog_simps)
qed

lemma aggregate_all_parts:
  assumes g: "gathers oor cast order a" and room: "has_room k n (w_store s)" and k: "k \<noteq> ''''"
    and agg: "\<And>t. agg a ctx (ms @ ps) t = (Val (Inr out), t)"
    and send: "\<And>t. send_on (output_ch (cfg a)) ctx out t = (Val None, t\<lparr>w_rest := f (w_rest t)\<rparr>)"
    and parts: "\<forall>p \<in> set (ms @ ps). part_of cast k n p" and dist: "distinct (map ID (ms @ ps))"
    and len: "length (ms @ ps) = n" and ne: "ps \<noteq> []"
  shows "aggregate_all a ctx ps (gathered k ms s) = Some (Val None, s\<lparr>w_rest := f (w_rest s)\<rparr>)"
  using agg parts dist len ne
proof (induction ps arbitrary: ms)
  case (Cons p ps)
  have fresh: "ID p \<notin> set (map ID ms)" using Cons.prems(3) by auto
  have parts': "\<forall>q \<in> set (ms @ [p]). part_of cast k n q" using Cons.prems(2) by auto
  show ?case
  proof (cases "ps = []")
    case True
    with Handle_completes [OF g room k parts' fresh _ _ send] Cons.prems(1,4) show ?thesis
      by (simp add: prog_simps)
  next
    case False
    then have "Suc (length ms) < n" using Cons.prems(4) by auto
    from Handle_gathers [OF g room k parts' fresh this]
      Cons.IH [of "ms @ [p]"] Cons.prems False show ?thesis
      by (simp add: prog_simps)
  qed
qed simp

lemma payloads_of_Inr: "payloads_of cast ms = Inr as \<Longrightarrow> m \<in> set ms \<Longrightarrow> \<exists>x. PayloadOf cast m = Inr x"
  by (induction ms arbitrary: as) (auto split: sum.splits)

lemma stamped_part_of:
  assumes "ID m \<noteq> ''''" and "\<forall>c \<in> set cs. Header c HeaderCorrelationID = None"
    and "payloads_of cast (stamped box m (int (length cs)) 0 cs) = Inr typed"
    and "p \<in> set (stamped box m (int (length cs)) 0 cs)"
  shows "part_of cast (ID m) (length cs) p"
proof -
  from assms(4) obtain i where i: "i < length cs" "p = stamped box m (int (length cs)) 0 cs ! i"
    by (auto simp: in_set_conv_nth)
  then have "Header (cs ! i) HeaderCorrelationID = None" using assms(2) by simp
  with i assms(1) payloads_of_Inr [OF assms(3,4)] show ?thesis
    by (simp add: part_of_def nth_stamped stampSequence_headers)
qed



section \<open>Expiry\<close>

text \<open>
  The reaper drops nothing: an unleased group older than the cutoff that the release
  strategy does not release is either forwarded, every member in arrival order, to the
  expired-group channel and then deleted, or, when a send fails, kept whole and unleased for
  the next sweep; other groups are not touched.
\<close>
theorem reap_forwards_or_keeps:
  assumes "store a = memory_mgs order" and "gs_wf (w_store s)"
    and "groups (w_store s) (Key g) = Some gr" and "\<not> g_leased gr"
    and "cutoff \<noteq> zeroTime" and "g_createdAt gr < cutoff"
    and "GroupStore_ClaimGroup (Key g) (w_store s) = (gs1, Some c, None)"
    and "call_release a (MessageGroup.truncate c) (s\<lparr>w_store := gs1\<rparr>) = (Val r, s1)" and "r \<noteq> Inr True"
    and "expire_members a ctx (g_msgs gr) s1 = (Val e, s2)"
    and "w_store s1 = gs1" and "w_store s2 = gs1"
  shows "\<exists>s'. reapGroup a ctx g cutoff s = Some (Val (), s') \<and> gs_lease (w_store s') = gs_lease (w_store s) \<and>
     gs_members (w_store s') =
       (if e = None then (gs_members (w_store s))(Key g := []) else gs_members (w_store s))"
proof -
  note law = ClaimGroup_law [OF assms(2,7), simplified]
  have c: "Messages c = g_msgs gr" "CreatedAt c = g_createdAt gr" "Key c = Key g"
    using assms(3,4,7) by (auto simp: GroupStore_ClaimGroup_def Let_def)
  have l: "gs_lease gs1 (Key c) = Some (Epoch c, length (gs_members gs1 (Key c)))" using law c by simp
  have free: "(gs_lease gs1)(Key g := None) = gs_lease (w_store s)" using law by (simp add: fun_upd_idem)
  obtain g2 where ab: "GroupStore_AbandonGroup c gs1 = (g2, None)" using AbandonGroup_law by (metis surj_pair)
  obtain g3 where se: "GroupStore_SettleGroup (w_now s2) c gs1 = (g3, None)" using SettleGroup_law by (metis surj_pair)
  have r: "reapGroup a ctx g cutoff s = Some (Val (), s2\<lparr>w_store := (if e = None then g3 else g2)\<rparr>)"
    using assms c ab se by (cases e) (simp_all add: reapGroup_def prog_simps)
  show ?thesis
    using r AbandonGroup_law [OF ab] SettleGroup_law [OF se] l law free c by simp
qed

theorem reap_forwards_or_keeps_witness:
  "\<exists>s'. reapGroup ((demo_aggregator (\<lambda>g. returnP (Inr False)))
        \<lparr>cfg := (cfg (demo_aggregator (\<lambda>g. returnP (Inr False))))\<lparr>expired := Some (\<lambda>ctx m s. (Val (Some Canceled), s))\<rparr>\<rparr>)
      (\<lambda>_. None) \<lparr>Key = ''k'', Messages = [], CreatedAt = 0\<rparr> 3
      \<lparr>w_store = \<lparr>groups = [''k'' \<mapsto> gathering ''k'' 0 [NewMessage GNil [HeaderMessageID \<mapsto> GString ''i'']]],
        maxGroups = 8, maxGroupMembers = 8\<rparr>, w_now = 5, w_rest = []\<rparr> = Some (Val (), s') \<and>
    gs_members (w_store s') ''k'' = [NewMessage GNil [HeaderMessageID \<mapsto> GString ''i'']]"
proof -
  let ?b = "demo_aggregator (\<lambda>g. returnP (Inr False))"
  let ?a = "?b\<lparr>cfg := (cfg ?b)\<lparr>expired := Some (\<lambda>ctx m s. (Val (Some Canceled), s))\<rparr>\<rparr>"
  let ?m = "NewMessage GNil [HeaderMessageID \<mapsto> GString ''i'']"
  let ?gr = "gathering ''k'' 0 [?m]"
  let ?g = "\<lparr>Key = ''k'', Messages = [], CreatedAt = 0\<rparr>"
  let ?s = "\<lparr>w_store = \<lparr>groups = [''k'' \<mapsto> ?gr], maxGroups = 8, maxGroupMembers = 8\<rparr>, w_now = 5, w_rest = []\<rparr>"
  let ?gs = "\<lparr>groups = [''k'' \<mapsto> ?gr\<lparr>g_epoch := 1, g_leased := True, g_claimedLen := 1\<rparr>], maxGroups = 8, maxGroupMembers = 8\<rparr>"
  let ?c = "\<lparr>Key = ''k'', Messages = [?m], CreatedAt = 0, Epoch = 1\<rparr>"
  have st: "store ?a = memory_mgs (\<lambda>_. [])" by (simp add: demo_aggregator_def)
  have wf: "gs_wf (w_store ?s)"
    by (auto simp: gs_wf_def group_wf_def gathering_def ID_def Headers_String_def)
  have cl: "GroupStore_ClaimGroup (Key ?g) (w_store ?s) = (?gs, Some ?c, None)"
    by (simp add: GroupStore_ClaimGroup_def gathering_def Let_def)
  have rel: "call_release ?a (MessageGroup.truncate ?c) (?s\<lparr>w_store := ?gs\<rparr>) = (Val (Inr False), ?s\<lparr>w_store := ?gs\<rparr>)"
    by (simp add: call_release_def demo_aggregator_def returnP_def)
  have ex: "expire_members ?a (\<lambda>_. None) (g_msgs ?gr) (?s\<lparr>w_store := ?gs\<rparr>) = (Val (Some Canceled), ?s\<lparr>w_store := ?gs\<rparr>)"
    by (simp add: gathering_def send_on_def prog_simps)
  from reap_forwards_or_keeps [OF st wf _ _ _ _ cl rel _ ex, of 3]
  have "\<exists>s'. reapGroup ?a (\<lambda>_. None) ?g 3 ?s = Some (Val (), s') \<and> gs_members (w_store s') = gs_members (w_store ?s)"
    by (auto simp: gathering_def)
  then obtain s' where s': "reapGroup ?a (\<lambda>_. None) ?g 3 ?s = Some (Val (), s')"
    and "gs_members (w_store s') = gs_members (w_store ?s)" by blast
  then have "gs_members (w_store s') ''k'' = [?m]" by (simp add: gs_members_def gathering_def)
  with s' show ?thesis by blast
qed

end
