(* ===== verification/Channels.thy ===== *)
theory Channels
  imports Handlers "HOL-Library.Multiset"
begin

text \<open>
  The in-process channels: point-to-point (\<^verbatim>\<open>channel/direct.go\<close>), publish-subscribe
  (\<^verbatim>\<open>channel/pubsub.go\<close>), the topic registry over it (\<^verbatim>\<open>channel/pubsub_registry.go\<close>) and the
  channel-backed broker (\<^verbatim>\<open>adapter/memory/memory.go\<close>). A subscribed handler is an address;
  \<open>call\<close> says which handler is there. A subscription is the number it was given, so two
  subscriptions are equal only if they are the same object; topic channels are objects too,
  kept in a heap by address.

  The locale \<open>subscribable\<close> is the contract of \<open>SubscribableChannel\<close> and both channels
  interpret it. The lemmas: a fan-out reaches every subscriber once, in order, whatever
  errors or panics the others produce; under every interleaving of subscriptions and the two
  critical sections of a cancellation, the registry neither orphans a live subscriber nor
  keeps a topic nobody is cancelling.
\<close>

section \<open>Point-to-point\<close>

record 'h DirectChannel =
  dc_handler :: "'h option"
  dc_sub :: "nat option"
  dc_next :: nat

definition NewDirectChannel :: "'h DirectChannel" where
  "NewDirectChannel = \<lparr>dc_handler = None, dc_sub = None, dc_next = 0\<rparr>"

definition DirectChannel_SingleSubscriber :: "'h DirectChannel \<Rightarrow> bool" where
  "DirectChannel_SingleSubscriber c = True"

definition DirectChannel_Subscribe :: "'h option \<Rightarrow> 'h DirectChannel \<Rightarrow> 'h DirectChannel \<times> (err + nat)" where
  "DirectChannel_Subscribe h c =
     (case h of
        None \<Rightarrow> (c, Inl (Sentinel ErrNilHandler))
      | Some x \<Rightarrow>
          if dc_handler c \<noteq> None then (c, Inl (Sentinel ErrChannelSubscribed))
          else (c\<lparr>dc_handler := Some x, dc_sub := Some (dc_next c), dc_next := Suc (dc_next c)\<rparr>, Inr (dc_next c)))"

definition DirectChannel_release :: "nat \<Rightarrow> 'h DirectChannel \<Rightarrow> 'h DirectChannel" where
  "DirectChannel_release i c =
     (if dc_sub c = Some i then c\<lparr>dc_handler := None, dc_sub := None\<rparr> else c)"

text \<open>\<open>Cancel\<close> runs \<open>release\<close> once; \<open>fired\<close> says whether it has run before.\<close>

definition directSubscription_Cancel :: "nat \<Rightarrow> bool \<Rightarrow> 'h DirectChannel \<Rightarrow> 'h DirectChannel \<times> bool" where
  "directSubscription_Cancel i fired c = (if fired then (c, True) else (DirectChannel_release i c, True))"

definition DirectChannel_Send ::
  "('h \<Rightarrow> 's handler) \<Rightarrow> ('s \<Rightarrow> 'h DirectChannel) \<Rightarrow> 's ctx \<Rightarrow> msg \<Rightarrow> ('s, err option) prog" where
  "DirectChannel_Send call chan ctx m s =
     (case dc_handler (chan s) of
        None \<Rightarrow> (Val (Some (Sentinel ErrNoSubscriber)), s)
      | Some h \<Rightarrow> call h ctx m s)"

section \<open>Publish-subscribe\<close>

datatype FanOutPolicy = FanOutAllSucceed | FanOutBestEffort

record pubSubConfig =
  policy :: FanOutPolicy
  single :: bool

definition defaultPubSubConfig :: pubSubConfig where
  "defaultPubSubConfig = \<lparr>policy = FanOutAllSucceed, single = False\<rparr>"

definition WithFanOut :: "FanOutPolicy \<Rightarrow> pubSubConfig \<Rightarrow> pubSubConfig" where
  "WithFanOut p c = c\<lparr>policy := p\<rparr>"

definition WithSingleSubscriber :: "pubSubConfig \<Rightarrow> pubSubConfig" where
  "WithSingleSubscriber c = c\<lparr>single := True\<rparr>"

definition withConfig :: "pubSubConfig \<Rightarrow> pubSubConfig \<Rightarrow> pubSubConfig" where
  "withConfig cfg c = cfg"

record 'h PublishSubscribeChannel =
  subs :: "(nat \<times> 'h) list"
  ps_cfg :: pubSubConfig
  ps_err :: "err option"
  ps_next :: nat

definition NewPublishSubscribeChannel :: "(pubSubConfig \<Rightarrow> pubSubConfig) option list \<Rightarrow> 'h PublishSubscribeChannel" where
  "NewPublishSubscribeChannel opts =
     (case apply_latching 0 opts defaultPubSubConfig None of
        (cfg, l) \<Rightarrow> \<lparr>subs = [], ps_cfg = cfg,
                    ps_err = map_option (permanentNilOptionAt ''channel.NewPublishSubscribeChannel'') l, ps_next = 0\<rparr>)"

definition PublishSubscribeChannel_SingleSubscriber :: "'h PublishSubscribeChannel \<Rightarrow> bool" where
  "PublishSubscribeChannel_SingleSubscriber c = single (ps_cfg c)"

definition PublishSubscribeChannel_Subscribe ::
  "'h option \<Rightarrow> 'h PublishSubscribeChannel \<Rightarrow> 'h PublishSubscribeChannel \<times> (err + nat)" where
  "PublishSubscribeChannel_Subscribe h c =
     (case ps_err c of
        Some e \<Rightarrow> (c, Inl e)
      | None \<Rightarrow>
        (case h of
           None \<Rightarrow> (c, Inl (Sentinel ErrNilHandler))
         | Some x \<Rightarrow>
             if single (ps_cfg c) \<and> length (subs c) > 0 then (c, Inl (Sentinel ErrChannelSubscribed))
             else (c\<lparr>subs := subs c @ [(ps_next c, x)], ps_next := Suc (ps_next c)\<rparr>, Inr (ps_next c))))"

fun remove_sub :: "nat \<Rightarrow> (nat \<times> 'h) list \<Rightarrow> (nat \<times> 'h) list" where
  "remove_sub i [] = []"
| "remove_sub i (x # xs) = (if fst x = i then xs else x # remove_sub i xs)"

definition PublishSubscribeChannel_remove :: "nat \<Rightarrow> 'h PublishSubscribeChannel \<Rightarrow> 'h PublishSubscribeChannel" where
  "PublishSubscribeChannel_remove i c = c\<lparr>subs := remove_sub i (subs c)\<rparr>"

definition isEmpty :: "'h PublishSubscribeChannel \<Rightarrow> bool" where
  "isEmpty c \<longleftrightarrow> length (subs c) = 0"

definition safeFanOut :: "'s handler \<Rightarrow> 's ctx \<Rightarrow> msg \<Rightarrow> ('s, err option) prog" where
  "safeFanOut h ctx m =
     recoverP (h ctx m) (\<lambda>r. Some (Errorf ''%w: %v'' [ArgW (Sentinel ErrHandlerPanic), ArgV r]))"

text \<open>The loop over the snapshot; \<open>errs\<close> accumulates as in the code.\<close>

fun fan_out :: "('h \<Rightarrow> 's handler) \<Rightarrow> FanOutPolicy \<Rightarrow> 's ctx \<Rightarrow> msg \<Rightarrow> (nat \<times> 'h) list \<Rightarrow> err list \<Rightarrow> ('s, err list) prog" where
  "fan_out call p ctx m [] errs = returnP errs"
| "fan_out call p ctx m (x # xs) errs =
     bindP (safeFanOut (call (snd x)) ctx m) (\<lambda>e.
       (case e of
          None \<Rightarrow> fan_out call p ctx m xs errs
        | Some y \<Rightarrow> if p = FanOutBestEffort then fan_out call p ctx m xs errs
                    else fan_out call p ctx m xs (errs @ [y])))"

definition PublishSubscribeChannel_Send ::
  "('h \<Rightarrow> 's handler) \<Rightarrow> ('s \<Rightarrow> 'h PublishSubscribeChannel) \<Rightarrow> 's ctx \<Rightarrow> msg \<Rightarrow> ('s, err option) prog" where
  "PublishSubscribeChannel_Send call chan ctx m s =
     (case ps_err (chan s) of
        Some e \<Rightarrow> (Val (Some e), s)
      | None \<Rightarrow>
          bindP (fan_out call (policy (ps_cfg (chan s))) ctx m (subs (chan s)) [])
            (\<lambda>errs. returnP (errors_Join (map Some errs))) s)"

section \<open>The topic registry\<close>

record 'h PubSub =
  topics :: "string \<rightharpoonup> nat"
  heap :: "nat \<Rightarrow> 'h PublishSubscribeChannel"
  heap_next :: nat
  reg_cfg :: pubSubConfig
  reg_err :: "err option"

record topicSubscription =
  ts_topic :: string
  ts_ch :: nat
  ts_inner :: nat

definition NewPubSub :: "(pubSubConfig \<Rightarrow> pubSubConfig) option list \<Rightarrow> 'h PubSub" where
  "NewPubSub opts =
     (case apply_latching 0 opts defaultPubSubConfig None of
        (cfg, l) \<Rightarrow> \<lparr>topics = Map.empty, heap = (\<lambda>_. NewPublishSubscribeChannel []), heap_next = 0, reg_cfg = cfg,
                    reg_err = map_option (permanentNilOptionAt ''channel.NewPubSub'') l\<rparr>)"

definition Publish :: "('h \<Rightarrow> 's handler) \<Rightarrow> ('s \<Rightarrow> 'h PubSub) \<Rightarrow> 's ctx \<Rightarrow> string \<Rightarrow> msg \<Rightarrow> ('s, err option) prog" where
  "Publish call reg ctx topic m s =
     (case reg_err (reg s) of
        Some e \<Rightarrow> (Val (Some e), s)
      | None \<Rightarrow>
        (case topics (reg s) topic of
           None \<Rightarrow> (Val None, s)
         | Some ch \<Rightarrow> PublishSubscribeChannel_Send call (\<lambda>t. heap (reg t) ch) ctx m s))"

text \<open>The channel object of a topic: the one it has, or a new one entered for it.\<close>

definition topic_channel :: "string \<Rightarrow> 'h PubSub \<Rightarrow> 'h PubSub \<times> nat" where
  "topic_channel topic p =
     (case topics p topic of
        Some ch \<Rightarrow> (p, ch)
      | None \<Rightarrow>
          (let ch = heap_next p
           in (p\<lparr>heap := (heap p)(ch := NewPublishSubscribeChannel [Some (withConfig (reg_cfg p))]),
                heap_next := Suc ch, topics := (topics p)(topic \<mapsto> ch)\<rparr>, ch)))"

definition PubSub_Subscribe :: "string \<Rightarrow> 'h option \<Rightarrow> 'h PubSub \<Rightarrow> 'h PubSub \<times> (err + topicSubscription)" where
  "PubSub_Subscribe topic h p =
     (case reg_err p of
        Some e \<Rightarrow> (p, Inl e)
      | None \<Rightarrow>
        (case h of
           None \<Rightarrow> (p, Inl (Sentinel ErrNilHandler))
         | Some x \<Rightarrow>
             (let (p', ch) = topic_channel topic p;
                  (c, r) = PublishSubscribeChannel_Subscribe (Some x) (heap p' ch);
                  p'' = p'\<lparr>heap := (heap p')(ch := c)\<rparr>
              in (case r of
                    Inl e \<Rightarrow> (p'', Inl e)
                  | Inr i \<Rightarrow> (p'', Inr \<lparr>ts_topic = topic, ts_ch = ch, ts_inner = i\<rparr>)))))"

definition TopicCount :: "'h PubSub \<Rightarrow> nat" where
  "TopicCount p = card (dom (topics p))"

text \<open>\<open>Cancel\<close> is two critical sections: the inner subscription's under the channel's lock, then
  the clean-up under the registry's.\<close>

definition cancel_inner :: "topicSubscription \<Rightarrow> 'h PubSub \<Rightarrow> 'h PubSub" where
  "cancel_inner t p = p\<lparr>heap := (heap p)(ts_ch t := PublishSubscribeChannel_remove (ts_inner t) (heap p (ts_ch t)))\<rparr>"

definition cancel_cleanup :: "topicSubscription \<Rightarrow> 'h PubSub \<Rightarrow> 'h PubSub" where
  "cancel_cleanup t p =
     (if topics p (ts_topic t) = Some (ts_ch t) \<and> isEmpty (heap p (ts_ch t))
      then p\<lparr>topics := (topics p)(ts_topic t := None)\<rparr> else p)"

definition topicSubscription_Cancel :: "topicSubscription \<Rightarrow> 'h PubSub \<Rightarrow> 'h PubSub" where
  "topicSubscription_Cancel t p = cancel_cleanup t (cancel_inner t p)"

section \<open>The broker\<close>

record Broker =
  br_ch :: "msg list"
  br_cap :: nat
  br_err :: "err option"

definition WithBuffer :: "int \<Rightarrow> Broker \<Rightarrow> Broker" where
  "WithBuffer n b =
     (case checkRange (PermanentError (Sentinel ErrInvalidCapacity)) ''memory.WithBuffer'' n 0 1048576 of
        Some e \<Rightarrow> if br_err b = None then b\<lparr>br_err := Some e\<rparr> else b
      | None \<Rightarrow> b\<lparr>br_ch := [], br_cap := nat n\<rparr>)"

fun broker_opts :: "nat \<Rightarrow> (Broker \<Rightarrow> Broker) option list \<Rightarrow> Broker \<Rightarrow> Broker" where
  "broker_opts i [] b = b"
| "broker_opts i (None # os) b =
     broker_opts (Suc i) os (if br_err b = None then b\<lparr>br_err := Some (permanentNilOptionAt ''memory.New'' i)\<rparr> else b)"
| "broker_opts i (Some f # os) b = broker_opts (Suc i) os (f b)"

definition memory_New :: "(Broker \<Rightarrow> Broker) option list \<Rightarrow> Broker" where
  "memory_New opts = broker_opts 0 opts \<lparr>br_ch = [], br_cap = 0, br_err = None\<rparr>"

text \<open>A channel send can proceed when there is room, or when \<open>receiver\<close>: a goroutine waits to receive.\<close>

definition Broker_Send :: "err option \<Rightarrow> nat \<Rightarrow> bool \<Rightarrow> msg \<Rightarrow> Broker \<Rightarrow> (Broker \<times> err option) option" where
  "Broker_Send ctx pck receiver m b =
     (case br_err b of
        Some e \<Rightarrow> Some (b, Some e)
      | None \<Rightarrow>
        (case go_select [length (br_ch b) < br_cap b \<or> receiver, ctx \<noteq> None] pck of
           None \<Rightarrow> None
         | Some i \<Rightarrow> if i = 0 then Some (b\<lparr>br_ch := br_ch b @ [m]\<rparr>, None) else Some (b, ctx)))"

text \<open>
  One iteration of \<open>Stream\<close>: what it returned with, if it returned, and what it delivered.
  \<open>ctx1\<close> and \<open>ctx2\<close> are the context at the two select statements, \<open>out_ready\<close> whether the
  consumer takes the delivery.
\<close>

definition Stream_iter :: "err option \<Rightarrow> nat \<Rightarrow> err option \<Rightarrow> nat \<Rightarrow> bool \<Rightarrow> Broker
    \<Rightarrow> (Broker \<times> err option \<times> msg option) option" where
  "Stream_iter ctx1 pck1 ctx2 pck2 out_ready b =
     (case br_err b of
        Some e \<Rightarrow> Some (b, Some e, None)
      | None \<Rightarrow>
        (case go_select [ctx1 \<noteq> None, br_ch b \<noteq> []] pck1 of
           None \<Rightarrow> None
         | Some i \<Rightarrow>
             if i = 0 then Some (b, ctx1, None)
             else
               (let m = hd (br_ch b); b' = b\<lparr>br_ch := tl (br_ch b)\<rparr>
                in (case go_select [out_ready, ctx2 \<noteq> None] pck2 of
                      None \<Rightarrow> None
                    | Some j \<Rightarrow> if j = 0 then Some (b', None, Some m) else Some (b', ctx2, None)))))"

definition Broker_nackFunc :: "msg \<Rightarrow> err option \<Rightarrow> nat \<Rightarrow> bool \<Rightarrow> bool \<Rightarrow> duration \<Rightarrow> Broker \<Rightarrow> (Broker \<times> err option) option" where
  "Broker_nackFunc m ctx pck receiver requeue delay b =
     (if \<not> requeue then Some (b, None) else Broker_Send ctx pck receiver m b)"

definition Broker_EmitsLiveValue :: "Broker \<Rightarrow> bool" where
  "Broker_EmitsLiveValue b = True"

section \<open>What a subscribable channel promises\<close>

text \<open>\<open>active c\<close> are the subscriptions a send would reach, in the order they were made.\<close>

locale subscribable =
  fixes subscribe :: "'h option \<Rightarrow> 'c \<Rightarrow> 'c \<times> (err + nat)"
    and cancel :: "nat \<Rightarrow> 'c \<Rightarrow> 'c"
    and active :: "'c \<Rightarrow> (nat \<times> 'h) list"
    and fresh :: "'c \<Rightarrow> nat"
    and invar :: "'c \<Rightarrow> bool"
  assumes subscribe_err: "invar c \<Longrightarrow> subscribe ho c = (c', Inl e) \<Longrightarrow> c' = c"
    and subscribe_nil: "invar c \<Longrightarrow> \<exists>e. subscribe None c = (c, Inl e)"
    and subscribe_ok: "invar c \<Longrightarrow> subscribe (Some h) c = (c', Inr i) \<Longrightarrow>
      invar c' \<and> i = fresh c \<and> active c' = active c @ [(i, h)] \<and> fresh c' = Suc (fresh c)"
    and cancel_law: "invar c \<Longrightarrow>
      invar (cancel i c) \<and> active (cancel i c) = filter (\<lambda>x. fst x \<noteq> i) (active c) \<and> fresh (cancel i c) = fresh c"
    and ids_fresh: "invar c \<Longrightarrow> \<forall>x \<in> set (active c). fst x < fresh c"
    and ids_distinct: "invar c \<Longrightarrow> distinct (map fst (active c))"
begin

lemma cancel_idem: "invar c \<Longrightarrow> active (cancel i (cancel i c)) = active (cancel i c)"
  using cancel_law [of c i] cancel_law [of "cancel i c" i] by (simp add: filter_id_conv)

lemma cancel_others: "invar c \<Longrightarrow> x \<in> set (active c) \<Longrightarrow> fst x \<noteq> i \<Longrightarrow> x \<in> set (active (cancel i c))"
  using cancel_law [of c i] by simp

lemma subscribe_cancel:
  assumes "invar c" and "subscribe (Some h) c = (c', Inr i)"
  shows "active (cancel i c') = active c"
proof -
  from subscribe_ok [OF assms] have ok: "invar c'" "i = fresh c" "active c' = active c @ [(i, h)]" by auto
  then have "active (cancel i c') = filter (\<lambda>x. fst x \<noteq> i) (active c @ [(i, h)])" using cancel_law [of c' i] by simp
  also have "\<dots> = active c" using ids_fresh [OF assms(1)] ok(2) by (auto simp: filter_id_conv)
  finally show ?thesis .
qed

lemma stale_cancel:
  assumes "invar c" and "subscribe (Some h) c = (c', Inr i)" and "j < fresh c"
  shows "(i, h) \<in> set (active (cancel j c'))"
proof -
  from subscribe_ok [OF assms(1,2)] have "invar c'" "i = fresh c" "active c' = active c @ [(i, h)]" by auto
  with assms(3) cancel_law [of c' j] show ?thesis by simp
qed

end

definition dc_active :: "'h DirectChannel \<Rightarrow> (nat \<times> 'h) list" where
  "dc_active c = (case (dc_sub c, dc_handler c) of (Some i, Some h) \<Rightarrow> [(i, h)] | _ \<Rightarrow> [])"

definition dc_wf :: "'h DirectChannel \<Rightarrow> bool" where
  "dc_wf c \<longleftrightarrow> (dc_sub c = None) = (dc_handler c = None) \<and> (\<forall>i. dc_sub c = Some i \<longrightarrow> i < dc_next c)"

interpretation dch: subscribable DirectChannel_Subscribe DirectChannel_release dc_active dc_next dc_wf
  by unfold_locales
     (auto simp: DirectChannel_Subscribe_def DirectChannel_release_def dc_active_def dc_wf_def
        split: option.splits if_splits)

definition psc_wf :: "'h PublishSubscribeChannel \<Rightarrow> bool" where
  "psc_wf c \<longleftrightarrow> distinct (map fst (subs c)) \<and> (\<forall>x \<in> set (subs c). fst x < ps_next c)"

lemma remove_sub_filter: "distinct (map fst xs) \<Longrightarrow> remove_sub i xs = filter (\<lambda>x. fst x \<noteq> i) xs"
proof (induction xs)
  case (Cons x xs)
  then have "fst x \<notin> fst ` set xs" by simp
  then have "fst x = i \<Longrightarrow> \<forall>y \<in> set xs. fst y \<noteq> i" by (metis imageI)
  with Cons show ?case by (auto simp: filter_id_conv)
qed simp

interpretation psc: subscribable PublishSubscribeChannel_Subscribe PublishSubscribeChannel_remove subs ps_next psc_wf
proof (unfold_locales, goal_cases)
  case (1 c h c' e)
  then show ?case by (auto simp: PublishSubscribeChannel_Subscribe_def split: option.splits if_splits)
next
  case (2 c)
  then show ?case by (auto simp: PublishSubscribeChannel_Subscribe_def split: option.splits)
next
  case (3 c h c' i)
  then show ?case
    by (fastforce simp: PublishSubscribeChannel_Subscribe_def psc_wf_def split: option.splits if_splits)
next
  case (4 c i)
  then have "remove_sub i (subs c) = filter (\<lambda>x. fst x \<noteq> i) (subs c)" by (simp add: psc_wf_def remove_sub_filter)
  with 4 show ?case
    by (auto simp: PublishSubscribeChannel_remove_def psc_wf_def distinct_map_filter)
next
  case (5 c)
  then show ?case by (simp add: psc_wf_def)
next
  case (6 c)
  then show ?case by (simp add: psc_wf_def)
qed

section \<open>Fan-out\<close>

lemma safeFanOut_Val: "\<exists>e s'. safeFanOut h ctx m s = (Val e, s') \<and> snd (h ctx m s) = s'"
  by (cases "h ctx m s"; cases "fst (h ctx m s)") (auto simp: safeFanOut_def recoverP_def split: res.splits)

text \<open>Running every subscriber once, in order: their errors and the final world.\<close>

fun each_once :: "('h \<Rightarrow> 's handler) \<Rightarrow> 's ctx \<Rightarrow> msg \<Rightarrow> (nat \<times> 'h) list \<Rightarrow> 's \<Rightarrow> err list \<times> 's" where
  "each_once call ctx m [] s = ([], s)"
| "each_once call ctx m (x # xs) s =
     (case call (snd x) ctx m s of
        (r, s') \<Rightarrow>
          (case each_once call ctx m xs s' of
             (es, s'') \<Rightarrow>
               ((case r of
                   Val None \<Rightarrow> []
                 | Val (Some e) \<Rightarrow> [e]
                 | Pan p \<Rightarrow> [Errorf ''%w: %v'' [ArgW (Sentinel ErrHandlerPanic), ArgV p]]) @ es, s'')))"

lemma fan_out_each_once:
  "fan_out call p ctx m xs errs s =
     (Val (errs @ (if p = FanOutBestEffort then [] else fst (each_once call ctx m xs s))), snd (each_once call ctx m xs s))"
  by (induction xs arbitrary: errs s)
     (auto simp: prog_simps safeFanOut_def split: res.splits prod.splits option.splits)

lemma errors_Join_map_Some: "errors_Join (map Some es) = (if es = [] then None else Some (Joined es))"
  by (simp add: errors_Join_def List.map_filter_def comp_def)

text \<open>
  A fan-out reaches everyone: sending on a publish-subscribe channel runs every handler
  that was subscribed when the send began, once each, in subscription order, no matter
  which of them fail or panic; it never panics itself. Under all-succeed it reports the join
  of all failures, nil exactly when there is none, with each panic turned into an
  \<open>ErrHandlerPanic\<close>; under best-effort it reports nil.
\<close>
theorem fan_out_reaches_all:
  assumes "ps_err (chan s) = None" and "each_once call ctx m (subs (chan s)) s = (es, s')"
  shows "PublishSubscribeChannel_Send call chan ctx m s =
     (Val (if policy (ps_cfg (chan s)) = FanOutBestEffort \<or> es = [] then None else Some (Joined es)), s')"
  using assms
  by (simp add: PublishSubscribeChannel_Send_def prog_simps fan_out_each_once errors_Join_map_Some)

theorem fan_out_reaches_all_witness:
  "PublishSubscribeChannel_Send (\<lambda>h ctx m s. (if h = ''bad'' then Pan GNil else Val None, s @ [h]))
     (\<lambda>_. \<lparr>subs = [(0, ''a''), (1, ''bad''), (2, ''c'')], ps_cfg = defaultPubSubConfig, ps_err = None, ps_next = 3\<rparr>)
     (\<lambda>_. None) (NewMessage GNil Map.empty) []
   = (Val (Some (Joined [Errorf ''%w: %v'' [ArgW (Sentinel ErrHandlerPanic), ArgV GNil]])), [''a'', ''bad'', ''c''])"
  by (subst fan_out_reaches_all [where es = "[Errorf ''%w: %v'' [ArgW (Sentinel ErrHandlerPanic), ArgV GNil]]"
        and s' = "[''a'', ''bad'', ''c'']"])
     (simp_all add: defaultPubSubConfig_def)

text \<open>
  A subscription's cancellation is its own: on a publish-subscribe channel, cancelling a
  subscription just made leaves exactly the subscriptions that were there, cancelling twice
  is cancelling once, and cancelling an older subscription, however late, never removes the
  new one. The same holds of the single slot of a direct channel.
\<close>
theorem cancel_is_precise:
  assumes "psc_wf c" and "PublishSubscribeChannel_Subscribe (Some h) c = (c', Inr i)"
    and "dc_wf d" and "DirectChannel_Subscribe (Some h') d = (d', Inr k)"
  shows "subs (PublishSubscribeChannel_remove i c') = subs c \<and>
     (\<forall>j < ps_next c. (i, h) \<in> set (subs (PublishSubscribeChannel_remove j c'))) \<and>
     (\<forall>j. subs (PublishSubscribeChannel_remove j (PublishSubscribeChannel_remove j c)) = subs (PublishSubscribeChannel_remove j c)) \<and>
     dc_handler (DirectChannel_release k d') = None \<and>
     (\<forall>j < dc_next d. dc_handler (DirectChannel_release j d') = Some h')"
proof -
  have "dc_handler d = None" using assms(4) by (auto simp: DirectChannel_Subscribe_def split: if_splits)
  with assms(3) have d: "dc_active d = []" by (auto simp: dc_active_def dc_wf_def)
  have wf': "dc_wf d'" using dch.subscribe_ok [OF assms(3,4)] by simp
  have wfr: "dc_wf (DirectChannel_release j d')" for j using dch.cancel_law [OF wf'] by simp
  have "dc_active (DirectChannel_release k d') = []" using dch.subscribe_cancel [OF assms(3,4)] d by simp
  then have "dc_handler (DirectChannel_release k d') = None"
    using wfr [of k] by (auto simp: dc_active_def dc_wf_def split: option.splits)
  moreover have "dc_handler (DirectChannel_release j d') = Some h'" if "j < dc_next d" for j
    using dch.stale_cancel [OF assms(3,4) that] by (auto simp: dc_active_def split: option.splits)
  ultimately show ?thesis
    using psc.subscribe_cancel [OF assms(1,2)] psc.stale_cancel [OF assms(1,2)] psc.cancel_idem [OF assms(1)] by blast
qed

theorem cancel_is_precise_witness:
  "subs (PublishSubscribeChannel_remove 0 (fst (PublishSubscribeChannel_Subscribe (Some ''h'') (NewPublishSubscribeChannel [])))) = []"
proof -
  let ?c = "NewPublishSubscribeChannel [] :: string PublishSubscribeChannel"
  let ?d = "NewDirectChannel :: string DirectChannel"
  have c: "psc_wf ?c" "subs ?c = []" by (simp_all add: psc_wf_def NewPublishSubscribeChannel_def)
  have s: "PublishSubscribeChannel_Subscribe (Some ''h'') ?c = (?c\<lparr>subs := [(0, ''h'')], ps_next := 1\<rparr>, Inr 0)"
    by (simp add: PublishSubscribeChannel_Subscribe_def NewPublishSubscribeChannel_def defaultPubSubConfig_def)
  have d: "dc_wf ?d" by (simp add: dc_wf_def NewDirectChannel_def)
  have t: "DirectChannel_Subscribe (Some ''h'') ?d = (?d\<lparr>dc_handler := Some ''h'', dc_sub := Some 0, dc_next := 1\<rparr>, Inr 0)"
    by (simp add: DirectChannel_Subscribe_def NewDirectChannel_def)
  from cancel_is_precise [OF c(1) s d t] s c(2) show ?thesis by simp
qed

section \<open>The registry under concurrent subscriptions and cancellations\<close>

record 'h reg_sys =
  reg :: "'h PubSub"
  issued :: "topicSubscription list"
  cancelled :: "topicSubscription list"
  cleaning :: "topicSubscription list"

inductive reg_step :: "'h reg_sys \<Rightarrow> 'h reg_sys \<Rightarrow> bool" where
  reg_subscribe: "PubSub_Subscribe topic h (reg q) = (p, Inr t) \<Longrightarrow> reg_step q (q\<lparr>reg := p, issued := t # issued q\<rparr>)"
| reg_refuse: "PubSub_Subscribe topic h (reg q) = (p, Inl e) \<Longrightarrow> reg_step q (q\<lparr>reg := p\<rparr>)"
| reg_inner: "t \<in> set (issued q) \<Longrightarrow>
     reg_step q (q\<lparr>reg := cancel_inner t (reg q), cancelled := t # cancelled q, cleaning := t # cleaning q\<rparr>)"
| reg_cleanup: "t \<in> set (cleaning q) \<Longrightarrow>
     reg_step q (q\<lparr>reg := cancel_cleanup t (reg q), cleaning := remove1 t (cleaning q)\<rparr>)"

inductive reg_reach :: "'h reg_sys \<Rightarrow> 'h reg_sys \<Rightarrow> bool" for q0 where
  reg_start: "reg_reach q0 q0"
| reg_next: "reg_reach q0 q \<Longrightarrow> reg_step q q' \<Longrightarrow> reg_reach q0 q'"

definition sub_ids :: "'h PubSub \<Rightarrow> nat \<Rightarrow> nat set" where
  "sub_ids p ch = fst ` set (subs (heap p ch))"

text \<open>What the heap keeps true; what the issued subscriptions do; what an empty topic means.\<close>

definition heap_ok :: "'h PubSub \<Rightarrow> bool" where
  "heap_ok p \<longleftrightarrow> (\<forall>ch. psc_wf (heap p ch) \<and> ps_err (heap p ch) = None) \<and>
     (\<forall>k ch. topics p k = Some ch \<longrightarrow> ch < heap_next p) \<and>
     (\<forall>k k' ch. topics p k = Some ch \<longrightarrow> topics p k' = Some ch \<longrightarrow> k = k')"

definition sub_ok :: "'h PubSub \<Rightarrow> topicSubscription list \<Rightarrow> topicSubscription \<Rightarrow> bool" where
  "sub_ok p can t \<longleftrightarrow> ts_ch t < heap_next p \<and> ts_inner t < ps_next (heap p (ts_ch t)) \<and>
     (\<forall>k. topics p k = Some (ts_ch t) \<longrightarrow> k = ts_topic t) \<and>
     (ts_inner t \<in> sub_ids p (ts_ch t) \<longrightarrow> topics p (ts_topic t) = Some (ts_ch t)) \<and>
     (t \<notin> set can \<longrightarrow> ts_inner t \<in> sub_ids p (ts_ch t))"

definition issued_ok :: "'h PubSub \<Rightarrow> topicSubscription list \<Rightarrow> topicSubscription list \<Rightarrow> bool" where
  "issued_ok p iss can \<longleftrightarrow>
     (\<forall>t \<in> set iss. sub_ok p can t) \<and>
     (\<forall>t \<in> set iss. \<forall>u \<in> set iss. ts_ch t = ts_ch u \<longrightarrow> ts_inner t = ts_inner u \<longrightarrow> t = u)"

definition empties_ok :: "'h PubSub \<Rightarrow> topicSubscription list \<Rightarrow> bool" where
  "empties_ok p cl \<longleftrightarrow>
     (\<forall>k ch. topics p k = Some ch \<longrightarrow> sub_ids p ch = {} \<longrightarrow> (\<exists>t \<in> set cl. ts_topic t = k \<and> ts_ch t = ch))"

definition reg_inv :: "'h reg_sys \<Rightarrow> bool" where
  "reg_inv q \<longleftrightarrow> heap_ok (reg q) \<and> issued_ok (reg q) (issued q) (cancelled q) \<and> empties_ok (reg q) (cleaning q)"

lemma Subscribe_existing:
  assumes "heap_ok p" and "PubSub_Subscribe topic h p = (p', r)" and "topics p topic = Some ch" and "r = Inr t"
  shows "\<exists>c x. h = Some x \<and> PublishSubscribeChannel_Subscribe (Some x) (heap p ch) = (c, Inr (ts_inner t)) \<and>
     ts_topic t = topic \<and> ts_ch t = ch \<and> p' = p\<lparr>heap := (heap p)(ch := c)\<rparr>"
  using assms
  by (auto simp: PubSub_Subscribe_def topic_channel_def Let_def split: option.splits prod.splits sum.splits)

lemma Subscribe_new:
  assumes "PubSub_Subscribe topic h p = (p', r)" and "topics p topic = None" and "r = Inr t"
  shows "\<exists>c x. h = Some x \<and>
     PublishSubscribeChannel_Subscribe (Some x) (NewPublishSubscribeChannel [Some (withConfig (reg_cfg p))]) = (c, Inr (ts_inner t)) \<and>
     ts_topic t = topic \<and> ts_ch t = heap_next p \<and>
     p' = p\<lparr>heap := (heap p)(heap_next p := c), heap_next := Suc (heap_next p), topics := (topics p)(topic \<mapsto> heap_next p)\<rparr>"
  using assms
  by (auto simp: PubSub_Subscribe_def topic_channel_def Let_def split: option.splits prod.splits sum.splits)

lemma Subscribe_new_channel: "PublishSubscribeChannel_Subscribe (Some x) (NewPublishSubscribeChannel [Some f]) \<noteq> (c, Inl e)"
  by (simp add: PublishSubscribeChannel_Subscribe_def NewPublishSubscribeChannel_def)

lemma Subscribe_err_same: "PublishSubscribeChannel_Subscribe (Some x) c = (c', Inl e) \<Longrightarrow> c' = c"
  by (auto simp: PublishSubscribeChannel_Subscribe_def split: option.splits if_splits)

lemma Subscribe_refused:
  assumes "PubSub_Subscribe topic h p = (p', Inl e)"
  shows "p' = p"
  using assms
  by (auto simp: PubSub_Subscribe_def topic_channel_def Let_def Subscribe_new_channel
      split: option.splits prod.splits sum.splits dest!: Subscribe_err_same)

lemma psc_Subscribe_ok:
  assumes "psc_wf c" and "ps_err c = None" and "PublishSubscribeChannel_Subscribe (Some h) c = (c', Inr i)"
  shows "psc_wf c' \<and> ps_err c' = None \<and> i = ps_next c \<and> subs c' = subs c @ [(i, h)] \<and> ps_next c' = Suc (ps_next c)"
  using psc.subscribe_ok [OF assms(1,3)] assms(2,3)
  by (auto simp: PublishSubscribeChannel_Subscribe_def split: if_splits)

lemma reg_inv_subscribe:
  assumes inv: "reg_inv q" and s: "PubSub_Subscribe topic h (reg q) = (p, Inr t)"
  shows "reg_inv (q\<lparr>reg := p, issued := t # issued q\<rparr>)"
proof (cases "topics (reg q) topic")
  case (Some ch)
  have ho: "heap_ok (reg q)" using inv by (simp add: reg_inv_def)
  from Subscribe_existing [OF ho s Some refl] obtain c x where
    c: "PublishSubscribeChannel_Subscribe (Some x) (heap (reg q) ch) = (c, Inr (ts_inner t))"
    and t: "ts_topic t = topic" "ts_ch t = ch" and p: "p = (reg q)\<lparr>heap := (heap (reg q))(ch := c)\<rparr>" by blast
  have c': "psc_wf c \<and> ps_err c = None \<and> ts_inner t = ps_next (heap (reg q) ch) \<and>
      subs c = subs (heap (reg q) ch) @ [(ts_inner t, x)] \<and> ps_next c = Suc (ps_next (heap (reg q) ch))"
    using psc_Subscribe_ok [OF _ _ c] ho by (simp add: heap_ok_def)
  have "heap_ok p" using ho c' p by (auto simp: heap_ok_def)
  moreover have "issued_ok p (t # issued q) (cancelled q)"
    unfolding issued_ok_def
  proof (intro conjI ballI impI)
    fix u assume "u \<in> set (t # issued q)"
    then consider "u = t" | "sub_ok (reg q) (cancelled q) u" using inv by (auto simp: reg_inv_def issued_ok_def)
    then show "sub_ok p (cancelled q) u"
    proof cases
      case 1
      then show ?thesis using ho c' t Some unfolding p by (auto simp: sub_ok_def sub_ids_def heap_ok_def)
    next
      case 2
      then show ?thesis using c' Some unfolding p by (auto simp: sub_ok_def sub_ids_def)
    qed
  next
    fix u v assume "u \<in> set (t # issued q)" "v \<in> set (t # issued q)" "ts_ch u = ts_ch v" "ts_inner u = ts_inner v"
    moreover have "ts_ch w = ch \<Longrightarrow> ts_inner w \<noteq> ts_inner t" if "w \<in> set (issued q)" for w
      using that inv c' unfolding reg_inv_def issued_ok_def sub_ok_def by (metis less_irrefl_nat)
    moreover have "w = x" if "w \<in> set (issued q)" "x \<in> set (issued q)" "ts_ch w = ts_ch x" "ts_inner w = ts_inner x" for w x
      using that inv unfolding reg_inv_def issued_ok_def by blast
    ultimately show "u = v" using t by (metis set_ConsD)
  qed
  moreover have "empties_ok p (cleaning q)"
    using inv c' unfolding p reg_inv_def empties_ok_def sub_ids_def by auto
  ultimately show ?thesis by (simp add: reg_inv_def)
next
  case None
  have ho: "heap_ok (reg q)" using inv by (simp add: reg_inv_def)
  let ?n = "heap_next (reg q)"
  from Subscribe_new [OF s None refl] obtain c x where
    c: "PublishSubscribeChannel_Subscribe (Some x) (NewPublishSubscribeChannel [Some (withConfig (reg_cfg (reg q)))]) = (c, Inr (ts_inner t))"
    and t: "ts_topic t = topic" "ts_ch t = ?n"
    and p: "p = (reg q)\<lparr>heap := (heap (reg q))(?n := c), heap_next := Suc ?n, topics := (topics (reg q))(topic \<mapsto> ?n)\<rparr>" by blast
  have c': "psc_wf c \<and> ps_err c = None \<and> subs c = [(ts_inner t, x)] \<and> ps_next c = Suc (ts_inner t)"
    using psc_Subscribe_ok [OF _ _ c] by (simp add: NewPublishSubscribeChannel_def psc_wf_def)
  have lt: "\<And>k ch. topics (reg q) k = Some ch \<Longrightarrow> ch < ?n" using ho by (simp add: heap_ok_def)
  have "heap_ok p" using ho c' lt unfolding p heap_ok_def by (auto simp: less_Suc_eq dest: lt)
  moreover have "issued_ok p (t # issued q) (cancelled q)"
    unfolding issued_ok_def
  proof (intro conjI ballI impI)
    fix u assume "u \<in> set (t # issued q)"
    then consider "u = t" | "sub_ok (reg q) (cancelled q) u" using inv by (auto simp: reg_inv_def issued_ok_def)
    then show "sub_ok p (cancelled q) u"
    proof cases
      case 1
      then show ?thesis using c' t unfolding p by (auto simp: sub_ok_def sub_ids_def dest: lt)
    next
      case 2
      then have "ts_ch u < ?n" by (simp add: sub_ok_def)
      then have same: "sub_ids p (ts_ch u) = sub_ids (reg q) (ts_ch u)" "heap p (ts_ch u) = heap (reg q) (ts_ch u)"
        "\<And>k. topics p k = Some (ts_ch u) \<longleftrightarrow> k \<noteq> topic \<and> topics (reg q) k = Some (ts_ch u)"
        "ts_ch u < heap_next p" unfolding p by (auto simp: sub_ids_def)
      have "ts_inner u \<in> sub_ids (reg q) (ts_ch u) \<Longrightarrow> ts_topic u \<noteq> topic" using 2 None unfolding sub_ok_def by (metis option.distinct(1))
      with 2 same(4) show ?thesis unfolding sub_ok_def same(1-3) by blast
    qed
  next
    fix u v assume "u \<in> set (t # issued q)" "v \<in> set (t # issued q)" "ts_ch u = ts_ch v" "ts_inner u = ts_inner v"
    moreover have "ts_ch w \<noteq> ?n" if "w \<in> set (issued q)" for w
      using that inv unfolding reg_inv_def issued_ok_def sub_ok_def by (metis less_irrefl_nat)
    moreover have "w = x" if "w \<in> set (issued q)" "x \<in> set (issued q)" "ts_ch w = ts_ch x" "ts_inner w = ts_inner x" for w x
      using that inv unfolding reg_inv_def issued_ok_def by blast
    ultimately show "u = v" using t by (metis set_ConsD)
  qed
  moreover have "empties_ok p (cleaning q)"
    using inv c' lt unfolding p reg_inv_def empties_ok_def sub_ids_def by (auto dest: lt)
  ultimately show ?thesis by (simp add: reg_inv_def)
qed

lemma cancel_inner_ids:
  assumes "heap_ok p"
  shows "sub_ids (cancel_inner t p) ch = (if ch = ts_ch t then sub_ids p ch - {ts_inner t} else sub_ids p ch)"
    and "heap_ok (cancel_inner t p)"
    and "ps_next (heap (cancel_inner t p) ch) = ps_next (heap p ch)"
proof -
  have "psc_wf (heap p (ts_ch t))" using assms by (simp add: heap_ok_def)
  note law = psc.cancel_law [OF this, of "ts_inner t"]
  show "sub_ids (cancel_inner t p) ch = (if ch = ts_ch t then sub_ids p ch - {ts_inner t} else sub_ids p ch)"
    using law by (auto simp: sub_ids_def cancel_inner_def)
  show "heap_ok (cancel_inner t p)"
    using assms law by (auto simp: heap_ok_def cancel_inner_def PublishSubscribeChannel_remove_def)
  show "ps_next (heap (cancel_inner t p) ch) = ps_next (heap p ch)"
    using law by (simp add: cancel_inner_def)
qed

lemma cancel_inner_frame [simp]:
  "topics (cancel_inner t p) = topics p" "heap_next (cancel_inner t p) = heap_next p"
  by (simp_all add: cancel_inner_def)

lemma reg_inv_inner:
  assumes inv: "reg_inv q" and t: "t \<in> set (issued q)"
  shows "reg_inv (q\<lparr>reg := cancel_inner t (reg q), cancelled := t # cancelled q, cleaning := t # cleaning q\<rparr>)"
proof -
  have ho: "heap_ok (reg q)" and iss: "issued_ok (reg q) (issued q) (cancelled q)"
    and em: "empties_ok (reg q) (cleaning q)" using inv by (simp_all add: reg_inv_def)
  note ids = cancel_inner_ids [OF ho, of t]
  have "sub_ok (cancel_inner t (reg q)) (t # cancelled q) u" if u: "u \<in> set (issued q)" for u
  proof -
    have "sub_ok (reg q) (cancelled q) u" and "ts_ch t = ts_ch u \<longrightarrow> ts_inner t = ts_inner u \<longrightarrow> t = u"
      using iss t u unfolding issued_ok_def by blast+
    then show ?thesis
      unfolding sub_ok_def ids(3) ids(1) [of "ts_ch u"] cancel_inner_frame
      by (simp add: if_bool_eq_conj) metis
  qed
  then have "issued_ok (cancel_inner t (reg q)) (issued q) (t # cancelled q)"
    using iss unfolding issued_ok_def by blast
  moreover have "empties_ok (cancel_inner t (reg q)) (t # cleaning q)"
    unfolding empties_ok_def
  proof (intro allI impI)
    fix k ch assume k: "topics (cancel_inner t (reg q)) k = Some ch" and e: "sub_ids (cancel_inner t (reg q)) ch = {}"
    show "\<exists>u \<in> set (t # cleaning q). ts_topic u = k \<and> ts_ch u = ch"
    proof (cases "ch = ts_ch t")
      case True
      then have "k = ts_topic t" using iss t k by (auto simp: issued_ok_def sub_ok_def)
      with True show ?thesis by simp
    next
      case False
      with e ids(1) [of ch] em k show ?thesis by (auto simp: empties_ok_def)
    qed
  qed
  ultimately show ?thesis using ids(2) by (simp add: reg_inv_def)
qed

lemma reg_inv_cleanup:
  assumes inv: "reg_inv q"
  shows "reg_inv (q\<lparr>reg := cancel_cleanup t (reg q), cleaning := remove1 t (cleaning q)\<rparr>)"
proof -
  have ho: "heap_ok (reg q)" and iss: "issued_ok (reg q) (issued q) (cancelled q)"
    and em: "empties_ok (reg q) (cleaning q)" using inv by (simp_all add: reg_inv_def)
  have keep: "\<exists>u \<in> set (remove1 t (cleaning q)). ts_topic u = k \<and> ts_ch u = ch"
    if "topics (reg q) k = Some ch" "sub_ids (reg q) ch = {}" "\<not> (ts_topic t = k \<and> ts_ch t = ch)" for k ch
  proof -
    from em that obtain u where u: "u \<in> set (cleaning q)" "ts_topic u = k" "ts_ch u = ch" by (auto simp: empties_ok_def)
    with that(3) have "u \<noteq> t" by auto
    with u show ?thesis using in_set_remove1 by metis
  qed
  show ?thesis
  proof (cases "topics (reg q) (ts_topic t) = Some (ts_ch t) \<and> isEmpty (heap (reg q) (ts_ch t))")
    case True
    let ?p = "(reg q)\<lparr>topics := (topics (reg q))(ts_topic t := None)\<rparr>"
    have p: "cancel_cleanup t (reg q) = ?p" using True by (simp add: cancel_cleanup_def)
    have none: "sub_ids (reg q) (ts_ch t) = {}" using True by (simp add: sub_ids_def isEmpty_def)
    have ids: "sub_ids ?p = sub_ids (reg q)" by (simp add: sub_ids_def fun_eq_iff)
    have "heap_ok ?p" using ho unfolding heap_ok_def by auto
    moreover have "sub_ok ?p (cancelled q) u" if "sub_ok (reg q) (cancelled q) u" for u
      using that none True unfolding sub_ok_def ids by auto
    then have "issued_ok ?p (issued q) (cancelled q)"
      using iss unfolding issued_ok_def by blast
    moreover have "empties_ok ?p (remove1 t (cleaning q))"
      using keep unfolding empties_ok_def ids by (auto split: if_splits)
    ultimately show ?thesis using p by (simp add: reg_inv_def)
  next
    case False
    then have p: "cancel_cleanup t (reg q) = reg q" by (auto simp: cancel_cleanup_def)
    have "empties_ok (reg q) (remove1 t (cleaning q))"
      unfolding empties_ok_def
    proof (intro allI impI)
      fix k ch assume k: "topics (reg q) k = Some ch" "sub_ids (reg q) ch = {}"
      then have "\<not> (ts_topic t = k \<and> ts_ch t = ch)" using False by (auto simp: isEmpty_def sub_ids_def)
      with keep k show "\<exists>u \<in> set (remove1 t (cleaning q)). ts_topic u = k \<and> ts_ch u = ch" by blast
    qed
    with p ho iss show ?thesis by (simp add: reg_inv_def)
  qed
qed

lemma reg_inv_step: "reg_step q q' \<Longrightarrow> reg_inv q \<Longrightarrow> reg_inv q'"
proof (induction rule: reg_step.induct)
  case (reg_refuse topic h q p e)
  then show ?case using Subscribe_refused [OF reg_refuse(1)] by simp
qed (auto intro: reg_inv_subscribe reg_inv_inner reg_inv_cleanup)

lemma reg_inv_reach: "reg_reach q0 q \<Longrightarrow> reg_inv q0 \<Longrightarrow> reg_inv q"
  by (induction rule: reg_reach.induct) (auto intro: reg_inv_step)

definition reg_init :: "(pubSubConfig \<Rightarrow> pubSubConfig) option list \<Rightarrow> 'h reg_sys" where
  "reg_init opts = \<lparr>reg = NewPubSub opts, issued = [], cancelled = [], cleaning = []\<rparr>"

lemma reg_inv_init: "reg_inv (reg_init opts)"
  by (auto simp: reg_inv_def reg_init_def heap_ok_def issued_ok_def empties_ok_def NewPubSub_def
      NewPublishSubscribeChannel_def psc_wf_def split: prod.splits)

text \<open>
  C4. The topic registry neither orphans nor leaks, under every interleaving of subscriptions
  with the two critical sections of cancellations, each subscription cancelled any number of
  times: a subscription that was issued and not cancelled is on the channel its topic
  currently names, so a publish on the topic reaches it; and a topic whose channel has no
  subscriber exists only while a cancellation is about to clean it up.
\<close>
theorem registry_neither_orphans_nor_leaks:
  assumes "reg_reach (reg_init opts) q"
  shows "(\<forall>t \<in> set (issued q). t \<notin> set (cancelled q) \<longrightarrow>
        topics (reg q) (ts_topic t) = Some (ts_ch t) \<and> (\<exists>h. (ts_inner t, h) \<in> set (subs (heap (reg q) (ts_ch t))))) \<and>
     (\<forall>k ch. topics (reg q) k = Some ch \<longrightarrow> subs (heap (reg q) ch) = [] \<longrightarrow>
        (\<exists>t \<in> set (cleaning q). ts_topic t = k \<and> ts_ch t = ch))"
proof -
  have inv: "reg_inv q" by (rule reg_inv_reach [OF assms reg_inv_init])
  have "\<forall>t \<in> set (issued q). t \<notin> set (cancelled q) \<longrightarrow> ts_inner t \<in> sub_ids (reg q) (ts_ch t) \<and>
      topics (reg q) (ts_topic t) = Some (ts_ch t)"
    using inv by (simp add: reg_inv_def issued_ok_def sub_ok_def)
  then have "\<forall>t \<in> set (issued q). t \<notin> set (cancelled q) \<longrightarrow>
      topics (reg q) (ts_topic t) = Some (ts_ch t) \<and> (\<exists>h. (ts_inner t, h) \<in> set (subs (heap (reg q) (ts_ch t))))"
    by (force simp: sub_ids_def)
  moreover have "empties_ok (reg q) (cleaning q)" using inv by (simp add: reg_inv_def)
  ultimately show ?thesis by (simp add: empties_ok_def sub_ids_def)
qed

theorem registry_neither_orphans_nor_leaks_witness:
  "\<exists>q. reg_reach (reg_init [] :: string reg_sys) q \<and> issued q \<noteq> [] \<and>
     topics (reg q) ''t'' = Some 0"
proof -
  let ?q = "reg_init [] :: string reg_sys"
  obtain p t where s: "PubSub_Subscribe ''t'' (Some ''h'') (reg ?q) = (p, Inr t)"
    and t: "ts_topic t = ''t'' \<and> ts_ch t = 0"
    by (simp add: PubSub_Subscribe_def topic_channel_def reg_init_def NewPubSub_def NewPublishSubscribeChannel_def
        PublishSubscribeChannel_Subscribe_def withConfig_def defaultPubSubConfig_def Let_def)
  let ?q' = "?q\<lparr>reg := p, issued := t # issued ?q\<rparr>"
  have r: "reg_reach ?q ?q'" by (rule reg_next [OF reg_start reg_subscribe [OF s]])
  have i: "t \<in> set (issued ?q')" "t \<notin> set (cancelled ?q')" by (simp_all add: reg_init_def)
  have "topics (reg ?q') (ts_topic t) = Some (ts_ch t)"
    using registry_neither_orphans_nor_leaks [OF r] i by blast
  with r t i show ?thesis by (intro exI [of _ ?q']) (auto simp: reg_init_def)
qed

end
