(* ===== verification/Queue_Store.thy ===== *)
theory Queue_Store
  imports Message "HOL-Library.Multiset"
begin

text \<open>
  The in-memory channel store (\<^verbatim>\<open>adapter/memory/queuestore.go\<close>) and the queue channel over it
  (\<^verbatim>\<open>channel/queuechannel.go\<close>). The semaphore channel is its fill level and its capacity; a
  delivery's two closures capture only the epoch, so a delivery is its message and epoch.
  \<open>now\<close> is the clock's reading, \<open>ctx\<close> the context's error when the call would block, \<open>pick\<close>
  the scheduler's choice where a \<^verbatim>\<open>select\<close> has several cases ready. An operation that blocks
  is \<open>None\<close>.

  First the operations as the code has them; then the store as interleaved goroutines, where
  an \<open>Enqueue\<close> is a slot acquisition followed by a separate critical section and an \<open>Ack\<close> a
  critical section followed by a separate slot release. The lemmas: the slot accounting is
  exact in every reachable state, so a release never blocks; claims are first-in first-out,
  bounded and conserve messages; a settled delivery stays settled; under a lossless policy
  no accepted message is lost.
\<close>

section \<open>State and construction\<close>

record qentry =
  entry_msg :: msg
  visibleAt :: time
  entry_epoch :: int

record QueueStore =
  sem :: nat
  sem_cap :: nat
  overflow :: OverflowPolicy
  ready :: "qentry list"
  inflight :: "int \<rightharpoonup> qentry"
  epoch :: int

record qs_config =
  capacity :: int
  capacitySet :: bool
  cfg_overflow :: OverflowPolicy

abbreviation defaultCapacity :: int where "defaultCapacity \<equiv> 1024"
abbreviation maxCapacityCeiling :: int where "maxCapacityCeiling \<equiv> 1048576"

definition WithCapacity :: "int \<Rightarrow> qs_config \<Rightarrow> qs_config" where
  "WithCapacity n c = c\<lparr>capacity := n, capacitySet := True\<rparr>"

definition WithOverflow :: "OverflowPolicy \<Rightarrow> qs_config \<Rightarrow> qs_config" where
  "WithOverflow p c = c\<lparr>cfg_overflow := p\<rparr>"

definition emptyQueueStore :: "int \<Rightarrow> OverflowPolicy \<Rightarrow> QueueStore" where
  "emptyQueueStore n p =
     \<lparr>sem = 0, sem_cap = nat n, overflow = p, ready = [], inflight = Map.empty, epoch = 0\<rparr>"

definition NewQueueStore :: "(qs_config \<Rightarrow> qs_config) option list \<Rightarrow> err + QueueStore" where
  "NewQueueStore opts =
     (case apply_opts 0 opts \<lparr>capacity = 0, capacitySet = False, cfg_overflow = OverflowBlock\<rparr> of
        Inl i \<Rightarrow> Inl (nilOptionAt ''memory.NewQueueStore'' i)
      | Inr cfg \<Rightarrow>
          if capacitySet cfg then
            (case checkRange (Sentinel ErrInvalidCapacity) ''memory.WithCapacity''
                    (capacity cfg) 1 maxCapacityCeiling of
               Some e \<Rightarrow> Inl e
             | None \<Rightarrow> Inr (emptyQueueStore (capacity cfg) (cfg_overflow cfg)))
          else Inr (emptyQueueStore defaultCapacity (cfg_overflow cfg)))"

section \<open>Operations\<close>

record qdelivery =
  d_msg :: msg
  d_epoch :: int

definition slot_free :: "QueueStore \<Rightarrow> bool" where
  "slot_free s \<longleftrightarrow> sem s < sem_cap s"

definition acquire_slot :: "QueueStore \<Rightarrow> QueueStore" where
  "acquire_slot s = s\<lparr>sem := sem s + 1\<rparr>"

definition append_ready :: "time \<Rightarrow> msg \<Rightarrow> QueueStore \<Rightarrow> QueueStore" where
  "append_ready now m s = s\<lparr>ready := ready s @ [\<lparr>entry_msg = m, visibleAt = now, entry_epoch = 0\<rparr>]\<rparr>"

definition shed :: "time \<Rightarrow> msg \<Rightarrow> QueueStore \<Rightarrow> QueueStore \<times> err option" where
  "shed now m s =
     (if overflow s = OverflowDropOldest then
        (if ready s \<noteq> [] then (append_ready now m (s\<lparr>ready := tl (ready s)\<rparr>), None)
         else (s, Some (Sentinel ErrOverflowDropped)))
      else if overflow s = OverflowDropNewest then (s, None)
      else (s, Some (Sentinel ErrOverflowDropped)))"

definition Enqueue :: "err option \<Rightarrow> nat \<Rightarrow> time \<Rightarrow> msg \<Rightarrow> QueueStore \<Rightarrow> (QueueStore \<times> err option) option" where
  "Enqueue ctx pck now m s =
     (if sheds (overflow s) then
        (if slot_free s then Some (append_ready now m (acquire_slot s), None)
         else Some (shed now m s))
      else
        (case go_select [slot_free s, ctx \<noteq> None] pck of
           None \<Rightarrow> None
         | Some i \<Rightarrow> if i = 0 then Some (append_ready now m (acquire_slot s), None)
                     else Some (s, ctx)))"

fun claim_scan :: "int \<Rightarrow> time \<Rightarrow> nat \<Rightarrow> qentry list \<Rightarrow> int \<Rightarrow> (int \<rightharpoonup> qentry)
    \<Rightarrow> int \<times> (int \<rightharpoonup> qentry) \<times> qdelivery list \<times> qentry list" where
  "claim_scan mx now n [] ep fl = (ep, fl, [], [])"
| "claim_scan mx now n (e # es) ep fl =
     (if int n < mx \<and> \<not> visibleAt e > now then
        (let ep' = ep + 1;
             (ep2, fl2, out, kept) = claim_scan mx now (Suc n) es ep' (fl(ep' \<mapsto> e\<lparr>entry_epoch := ep'\<rparr>))
         in (ep2, fl2, \<lparr>d_msg = entry_msg e, d_epoch = ep'\<rparr> # out, kept))
      else
        (let (ep2, fl2, out, kept) = claim_scan mx now n es ep fl
         in (ep2, fl2, out, e # kept)))"

definition Claim :: "int \<Rightarrow> time \<Rightarrow> QueueStore \<Rightarrow> QueueStore \<times> qdelivery list" where
  "Claim mx now s =
     (if mx \<le> 0 then (s, [])
      else (case claim_scan mx now 0 (ready s) (epoch s) (inflight s) of
              (ep, fl, out, kept) \<Rightarrow> (s\<lparr>epoch := ep, inflight := fl, ready := kept\<rparr>, out)))"

text \<open>The critical section of \<open>Ack\<close>: whether a slot is to be released comes back with the store.\<close>

definition ack_locked :: "int \<Rightarrow> QueueStore \<Rightarrow> QueueStore \<times> bool" where
  "ack_locked ep s = (s\<lparr>inflight := (inflight s)(ep := None)\<rparr>, inflight s ep \<noteq> None)"

definition nack_locked :: "int \<Rightarrow> bool \<Rightarrow> duration \<Rightarrow> time \<Rightarrow> QueueStore \<Rightarrow> QueueStore \<times> bool" where
  "nack_locked ep requeue delay now s =
     (let s' = s\<lparr>inflight := (inflight s)(ep := None)\<rparr>
      in (case inflight s ep of
            None \<Rightarrow> (s', False)
          | Some e \<Rightarrow>
              if \<not> requeue then (s', True)
              else (s'\<lparr>ready := ready s' @ [e\<lparr>visibleAt := now + delay, entry_epoch := 0\<rparr>]\<rparr>, False)))"

text \<open>\<^verbatim>\<open><-s.sem\<close>: blocks on an empty semaphore.\<close>

definition release_slot :: "QueueStore \<Rightarrow> QueueStore option" where
  "release_slot s = (if sem s > 0 then Some (s\<lparr>sem := sem s - 1\<rparr>) else None)"

definition ackClosure :: "int \<Rightarrow> QueueStore \<Rightarrow> QueueStore option" where
  "ackClosure ep s = (case ack_locked ep s of (s', ok) \<Rightarrow> if ok then release_slot s' else Some s')"

definition nackClosure :: "int \<Rightarrow> bool \<Rightarrow> duration \<Rightarrow> time \<Rightarrow> QueueStore \<Rightarrow> QueueStore option" where
  "nackClosure ep requeue delay now s =
     (case nack_locked ep requeue delay now s of (s', freed) \<Rightarrow> if freed then release_slot s' else Some s')"

definition QueueStore_EmitsLiveValue :: "QueueStore \<Rightarrow> bool" where
  "QueueStore_EmitsLiveValue s = True"

section \<open>The store as interleaved goroutines\<close>

record qsys =
  store :: QueueStore
  appending :: "msg list"
  shedding :: "msg list"
  releasing :: nat

inductive qstep :: "qsys \<Rightarrow> qsys \<Rightarrow> bool" where
  enq_acquire: "slot_free (store q) \<Longrightarrow>
     qstep q (q\<lparr>store := acquire_slot (store q), appending := m # appending q\<rparr>)"
| enq_append: "m \<in> set (appending q) \<Longrightarrow>
     qstep q (q\<lparr>store := append_ready now m (store q), appending := remove1 m (appending q)\<rparr>)"
| enq_full: "sheds (overflow (store q)) \<Longrightarrow> \<not> slot_free (store q) \<Longrightarrow>
     qstep q (q\<lparr>shedding := m # shedding q\<rparr>)"
| enq_shed: "m \<in> set (shedding q) \<Longrightarrow>
     qstep q (q\<lparr>store := fst (shed now m (store q)), shedding := remove1 m (shedding q)\<rparr>)"
| claim: "qstep q (q\<lparr>store := fst (Claim mx now (store q))\<rparr>)"
| ack: "ack_locked ep (store q) = (s', ok) \<Longrightarrow>
     qstep q (q\<lparr>store := s', releasing := releasing q + (if ok then 1 else 0)\<rparr>)"
| nack: "nack_locked ep requeue delay now (store q) = (s', freed) \<Longrightarrow>
     qstep q (q\<lparr>store := s', releasing := releasing q + (if freed then 1 else 0)\<rparr>)"
| release: "0 < releasing q \<Longrightarrow> release_slot (store q) = Some s' \<Longrightarrow>
     qstep q (q\<lparr>store := s', releasing := releasing q - 1\<rparr>)"

inductive qreach :: "qsys \<Rightarrow> qsys \<Rightarrow> bool" for q0 where
  qreach_refl: "qreach q0 q0"
| qreach_step: "qreach q0 q \<Longrightarrow> qstep q q' \<Longrightarrow> qreach q0 q'"

section \<open>Slot accounting\<close>

text \<open>
  What the store keeps true: every in-flight entry is filed under the epoch it carries, epochs
  are positive and never exceed the counter, and waiting entries carry none.
\<close>

definition qs_wf :: "QueueStore \<Rightarrow> bool" where
  "qs_wf s \<longleftrightarrow> finite (dom (inflight s)) \<and> 0 \<le> epoch s \<and>
     (\<forall>k e. inflight s k = Some e \<longrightarrow> 0 < k \<and> k \<le> epoch s \<and> entry_epoch e = k) \<and>
     (\<forall>e \<in> set (ready s). entry_epoch e = 0)"

definition held_count :: "QueueStore \<Rightarrow> nat" where
  "held_count s = length (ready s) + card (dom (inflight s))"

definition qs_inv :: "QueueStore \<Rightarrow> bool" where
  "qs_inv s \<longleftrightarrow> qs_wf s \<and> sem s = held_count s \<and> sem s \<le> sem_cap s"

definition qsys_inv :: "qsys \<Rightarrow> bool" where
  "qsys_inv q \<longleftrightarrow> qs_wf (store q) \<and>
     sem (store q) = held_count (store q) + length (appending q) + releasing q \<and>
     sem (store q) \<le> sem_cap (store q)"

lemmas qs_op_defs [store_simps] =
  acquire_slot_def append_ready_def slot_free_def shed_def ack_locked_def nack_locked_def release_slot_def

lemma claim_scan_wf:
  assumes "claim_scan mx now n es ep fl = (ep2, fl2, out, kept)" and "finite (dom fl)"
    and "0 \<le> ep" and "\<forall>k e. fl k = Some e \<longrightarrow> 0 < k \<and> k \<le> ep \<and> entry_epoch e = k"
  shows "finite (dom fl2) \<and> ep2 = ep + int (length out) \<and>
     card (dom fl2) + length kept = card (dom fl) + length es \<and>
     (\<forall>k e. fl2 k = Some e \<longrightarrow> 0 < k \<and> k \<le> ep2 \<and> entry_epoch e = k) \<and>
     set kept \<subseteq> set es \<and> (\<forall>k. k \<le> ep \<longrightarrow> fl2 k = fl k)"
  using assms
proof (induction mx now n es ep fl arbitrary: ep2 fl2 out kept rule: claim_scan.induct)
  case (2 mx now n e es ep fl)
  show ?case
  proof (cases "int n < mx \<and> \<not> visibleAt e > now")
    case True
    let ?fl = "fl(ep + 1 \<mapsto> e\<lparr>entry_epoch := ep + 1\<rparr>)"
    obtain out' where scan: "claim_scan mx now (Suc n) es (ep + 1) ?fl = (ep2, fl2, out', kept)"
      and out: "out = \<lparr>d_msg = entry_msg e, d_epoch = ep + 1\<rparr> # out'"
      using 2(3) True by (auto simp: Let_def split: prod.splits)
    have fresh: "ep + 1 \<notin> dom fl" using 2(6) by force
    have fin: "finite (dom ?fl)" and pos: "0 \<le> ep + 1" using 2(4,5) by simp_all
    have wf: "\<forall>k x. ?fl k = Some x \<longrightarrow> 0 < k \<and> k \<le> ep + 1 \<and> entry_epoch x = k"
    proof (intro allI impI)
      fix k x assume "?fl k = Some x"
      then show "0 < k \<and> k \<le> ep + 1 \<and> entry_epoch x = k"
        using 2(5) 2(6) [rule_format, of k x] by (cases "k = ep + 1") auto
    qed
    have "finite (dom fl2) \<and> ep2 = ep + 1 + int (length out') \<and>
       card (dom fl2) + length kept = card (dom ?fl) + length es \<and>
       (\<forall>k x. fl2 k = Some x \<longrightarrow> 0 < k \<and> k \<le> ep2 \<and> entry_epoch x = k) \<and>
       set kept \<subseteq> set es \<and> (\<forall>k. k \<le> ep + 1 \<longrightarrow> fl2 k = ?fl k)"
      by (rule 2(1) [OF True refl scan fin pos wf])
    then show ?thesis using card_dom_update [OF fresh 2(4)] out by auto
  next
    case False
    then obtain kept' where "claim_scan mx now n es ep fl = (ep2, fl2, out, kept')" and "kept = e # kept'"
      using 2(3) by (auto simp: Let_def split: prod.splits)
    with 2(2) [OF False this(1) 2(4,5,6)] show ?thesis by auto
  qed
qed auto

lemma Claim_wf:
  assumes "qs_wf s" and "Claim mx now s = (s', out)"
  shows "qs_wf s' \<and> held_count s' = held_count s \<and> sem s' = sem s \<and> sem_cap s' = sem_cap s \<and>
     overflow s' = overflow s \<and> epoch s' = epoch s + int (length out) \<and>
     (\<forall>k. k \<le> epoch s \<longrightarrow> inflight s' k = inflight s k)"
proof (cases "mx \<le> 0")
  case True
  with assms show ?thesis by (auto simp: Claim_def)
next
  case False
  obtain ep fl kept where scan: "claim_scan mx now 0 (ready s) (epoch s) (inflight s) = (ep, fl, out, kept)"
    and s': "s' = s\<lparr>epoch := ep, inflight := fl, ready := kept\<rparr>"
    using assms(2) False by (auto simp: Claim_def split: prod.splits)
  have "finite (dom fl) \<and> ep = epoch s + int (length out) \<and>
     card (dom fl) + length kept = card (dom (inflight s)) + length (ready s) \<and>
     (\<forall>k e. fl k = Some e \<longrightarrow> 0 < k \<and> k \<le> ep \<and> entry_epoch e = k) \<and>
     set kept \<subseteq> set (ready s) \<and> (\<forall>k. k \<le> epoch s \<longrightarrow> fl k = inflight s k)"
    by (rule claim_scan_wf [OF scan]) (use assms(1) in \<open>auto simp: qs_wf_def\<close>)
  with s' assms(1) show ?thesis by (auto simp: qs_wf_def held_count_def)
qed

lemma qs_wf_append [simp]: "qs_wf (append_ready now m s) \<longleftrightarrow> qs_wf s"
  by (auto simp: qs_wf_def append_ready_def)

lemma qs_wf_acquire [simp]: "qs_wf (acquire_slot s) \<longleftrightarrow> qs_wf s"
  by (simp add: qs_wf_def acquire_slot_def)

lemma qs_wf_ready_tl: "qs_wf s \<Longrightarrow> qs_wf (s\<lparr>ready := tl (ready s)\<rparr>)"
  by (auto simp: qs_wf_def)

lemma held_append [simp]: "held_count (append_ready now m s) = Suc (held_count s)"
  by (simp add: held_count_def append_ready_def)

lemma held_acquire [simp]: "held_count (acquire_slot s) = held_count s"
  by (simp add: held_count_def acquire_slot_def)

lemma op_frame [simp]:
  "sem (append_ready now m s) = sem s" "sem_cap (append_ready now m s) = sem_cap s"
  "overflow (append_ready now m s) = overflow s" "inflight (append_ready now m s) = inflight s"
  "epoch (append_ready now m s) = epoch s"
  "sem (acquire_slot s) = Suc (sem s)" "sem_cap (acquire_slot s) = sem_cap s"
  "overflow (acquire_slot s) = overflow s" "inflight (acquire_slot s) = inflight s"
  "epoch (acquire_slot s) = epoch s" "ready (acquire_slot s) = ready s"
  by (simp_all add: append_ready_def acquire_slot_def)

lemma shed_wf:
  "qs_wf s \<Longrightarrow> qs_wf (fst (shed now m s)) \<and> held_count (fst (shed now m s)) = held_count s \<and>
   sem (fst (shed now m s)) = sem s \<and> sem_cap (fst (shed now m s)) = sem_cap s \<and>
   overflow (fst (shed now m s)) = overflow s \<and> inflight (fst (shed now m s)) = inflight s \<and>
   epoch (fst (shed now m s)) = epoch s"
  by (auto simp: shed_def qs_wf_ready_tl held_count_def append_ready_def)
     (auto simp: qs_wf_def)

lemma settle_wf:
  assumes "qs_wf s"
  shows "qs_wf (s\<lparr>inflight := (inflight s)(ep := None)\<rparr>) \<and>
     held_count s = held_count (s\<lparr>inflight := (inflight s)(ep := None)\<rparr>) + (if inflight s ep = None then 0 else 1)"
proof
  show "qs_wf (s\<lparr>inflight := (inflight s)(ep := None)\<rparr>)"
    using assms by (auto simp: qs_wf_def split: if_split_asm)
  have "finite (dom (inflight s))" using assms by (simp add: qs_wf_def)
  from card_dom_remove [OF this, of ep]
  show "held_count s = held_count (s\<lparr>inflight := (inflight s)(ep := None)\<rparr>) + (if inflight s ep = None then 0 else 1)"
    by (simp add: held_count_def)
qed

lemma ack_locked_wf:
  assumes "qs_wf s" and "ack_locked ep s = (s', ok)"
  shows "qs_wf s' \<and> held_count s = held_count s' + (if ok then 1 else 0) \<and> sem s' = sem s \<and>
     sem_cap s' = sem_cap s \<and> overflow s' = overflow s \<and> epoch s' = epoch s \<and>
     ready s' = ready s \<and> inflight s' = (inflight s)(ep := None) \<and> ok = (inflight s ep \<noteq> None)"
  using settle_wf [OF assms(1), of ep] assms(2) by (auto simp: ack_locked_def)

lemma qs_wf_requeue:
  "qs_wf (s\<lparr>ready := ready s @ [e]\<rparr>) \<longleftrightarrow> qs_wf s \<and> entry_epoch e = 0"
  "held_count (s\<lparr>ready := ready s @ [e]\<rparr>) = Suc (held_count s)"
  by (auto simp: qs_wf_def held_count_def)

lemma nack_locked_wf:
  assumes "qs_wf s" and "nack_locked ep requeue delay now s = (s', freed)"
  shows "qs_wf s' \<and> held_count s = held_count s' + (if freed then 1 else 0) \<and> sem s' = sem s \<and>
     sem_cap s' = sem_cap s \<and> overflow s' = overflow s \<and> epoch s' = epoch s \<and>
     inflight s' = (inflight s)(ep := None) \<and> freed = (\<not> requeue \<and> inflight s ep \<noteq> None)"
proof -
  let ?t = "s\<lparr>inflight := (inflight s)(ep := None)\<rparr>"
  note w = settle_wf [OF assms(1), of ep]
  show ?thesis
  proof (cases "inflight s ep")
    case None
    with assms(2) w show ?thesis by (auto simp: nack_locked_def)
  next
    case (Some e)
    show ?thesis
    proof (cases requeue)
      case True
      with Some assms(2) have "s' = ?t\<lparr>ready := ready ?t @ [e\<lparr>visibleAt := now + delay, entry_epoch := 0\<rparr>]\<rparr>" "\<not> freed"
        by (simp_all add: nack_locked_def)
      with w Some True show ?thesis
        using qs_wf_requeue [of ?t "e\<lparr>visibleAt := now + delay, entry_epoch := 0\<rparr>"] by simp
    next
      case False
      with Some assms(2) w show ?thesis by (auto simp: nack_locked_def)
    qed
  qed
qed

lemma release_slot_frame:
  "release_slot s = Some s' \<Longrightarrow> s' = s\<lparr>sem := sem s - 1\<rparr> \<and> 0 < sem s"
  by (auto simp: release_slot_def split: if_splits)

lemma held_sem [simp]: "held_count (s\<lparr>sem := n\<rparr>) = held_count s" "qs_wf (s\<lparr>sem := n\<rparr>) = qs_wf s"
  by (simp_all add: held_count_def qs_wf_def)

lemma qstep_inv: "qstep q q' \<Longrightarrow> qsys_inv q \<Longrightarrow> qsys_inv q'"
proof (induction rule: qstep.induct)
  case (enq_shed m q now)
  then show ?case using shed_wf [of "store q" now m] by (auto simp: qsys_inv_def)
next
  case (claim q mx now)
  obtain s' out where "Claim mx now (store q) = (s', out)" by fastforce
  with claim show ?case using Claim_wf [of "store q" mx now s' out] by (auto simp: qsys_inv_def)
next
  case (ack ep q s' ok)
  then show ?case using ack_locked_wf [of "store q" ep s' ok] by (auto simp: qsys_inv_def)
next
  case (nack ep requeue delay now q s' freed)
  then show ?case using nack_locked_wf [of "store q" ep requeue delay now s' freed] by (auto simp: qsys_inv_def)
next
  case (enq_append m q now)
  then have "0 < length (appending q)" by (auto intro: length_pos_if_in_set)
  with enq_append show ?case by (auto simp: qsys_inv_def length_remove1)
qed (auto simp: qsys_inv_def slot_free_def dest: release_slot_frame)

lemma qreach_inv: "qreach q0 q \<Longrightarrow> qsys_inv q0 \<Longrightarrow> qsys_inv q"
  by (induction rule: qreach.induct) (auto intro: qstep_inv)

definition qsys_init :: "QueueStore \<Rightarrow> qsys" where
  "qsys_init s = \<lparr>store = s, appending = [], shedding = [], releasing = 0\<rparr>"

lemma qs_inv_empty: "0 \<le> n \<Longrightarrow> qs_inv (emptyQueueStore n p)"
  by (simp add: qs_inv_def qs_wf_def held_count_def emptyQueueStore_def)

lemma NewQueueStore_inv: "NewQueueStore opts = Inr s \<Longrightarrow> qs_inv s \<and> 1 \<le> sem_cap s \<and> sem_cap s \<le> 1048576"
  by (auto simp: NewQueueStore_def split: sum.splits if_splits option.splits)
     (auto simp: emptyQueueStore_def qs_inv_def qs_wf_def held_count_def)



section \<open>Claims\<close>

definition visible :: "time \<Rightarrow> qentry \<Rightarrow> bool" where
  "visible now e \<longleftrightarrow> visibleAt e \<le> now"

definition deliveries_of :: "(int \<rightharpoonup> qentry) \<Rightarrow> qdelivery set" where
  "deliveries_of fl = {\<lparr>d_msg = entry_msg e, d_epoch = k\<rparr> |k e. fl k = Some e}"

lemma deliveries_of_iff:
  "d \<in> deliveries_of fl \<longleftrightarrow> (\<exists>e. fl (d_epoch d) = Some e \<and> d_msg d = entry_msg e)"
  by (cases d) (auto simp: deliveries_of_def)

lemma deliveries_of_update:
  "k \<notin> dom fl \<Longrightarrow> deliveries_of (fl(k \<mapsto> e)) = insert \<lparr>d_msg = entry_msg e, d_epoch = k\<rparr> (deliveries_of fl)"
  by (auto simp: deliveries_of_def split: if_split_asm)

lemma claim_scan_out:
  assumes "claim_scan mx now n es ep fl = (ep2, fl2, out, kept)" and "int n \<le> mx"
  shows "map d_msg out = map entry_msg (take (nat mx - n) (filter (visible now) es)) \<and>
     filter (visible now) kept = drop (nat mx - n) (filter (visible now) es) \<and>
     filter (\<lambda>e. \<not> visible now e) kept = filter (\<lambda>e. \<not> visible now e) es \<and>
     mset (map entry_msg es) = mset (map entry_msg kept) + mset (map d_msg out) \<and>
     map d_epoch out = [ep + 1..ep + int (length out)]"
  using assms
proof (induction mx now n es ep fl arbitrary: ep2 fl2 out kept rule: claim_scan.induct)
  case (2 mx now n e es ep fl)
  show ?case
  proof (cases "int n < mx \<and> \<not> visibleAt e > now")
    case True
    then obtain out' where scan: "claim_scan mx now (Suc n) es (ep + 1) (fl(ep + 1 \<mapsto> e\<lparr>entry_epoch := ep + 1\<rparr>)) = (ep2, fl2, out', kept)"
      and out: "out = \<lparr>d_msg = entry_msg e, d_epoch = ep + 1\<rparr> # out'"
      using 2(3) by (auto simp: Let_def split: prod.splits)
    have le: "int (Suc n) \<le> mx" and m: "nat mx - n = Suc (nat mx - Suc n)" using True by auto
    have "[ep + 1..ep + int (length out)] = (ep + 1) # [ep + 1 + 1..ep + 1 + int (length out')]"
      using upto_rec1 [of "ep + 1" "ep + int (length out)"] out by (simp add: algebra_simps)
    with 2(1) [OF True refl scan le] out m True show ?thesis by (simp add: visible_def del: mset_map)
  next
    case False
    then obtain kept' where scan: "claim_scan mx now n es ep fl = (ep2, fl2, out, kept')" and k: "kept = e # kept'"
      using 2(3) by (auto simp: Let_def split: prod.splits)
    have "visible now e \<Longrightarrow> nat mx - n = 0" using False 2(4) by (auto simp: visible_def)
    with 2(2) [OF False scan 2(4)] k show ?thesis by (auto simp del: mset_map)
  qed
qed auto

lemma claim_scan_deliveries:
  assumes "claim_scan mx now n es ep fl = (ep2, fl2, out, kept)" and "\<forall>k \<in> dom fl. k \<le> ep"
  shows "deliveries_of fl2 = deliveries_of fl \<union> set out"
  using assms
proof (induction mx now n es ep fl arbitrary: ep2 fl2 out kept rule: claim_scan.induct)
  case (2 mx now n e es ep fl)
  show ?case
  proof (cases "int n < mx \<and> \<not> visibleAt e > now")
    case True
    let ?fl = "fl(ep + 1 \<mapsto> e\<lparr>entry_epoch := ep + 1\<rparr>)"
    obtain out' where scan: "claim_scan mx now (Suc n) es (ep + 1) ?fl = (ep2, fl2, out', kept)"
      and out: "out = \<lparr>d_msg = entry_msg e, d_epoch = ep + 1\<rparr> # out'"
      using 2(3) True by (auto simp: Let_def split: prod.splits)
    have fresh: "ep + 1 \<notin> dom fl" using 2(4) by force
    have bound: "\<forall>k \<in> dom ?fl. k \<le> ep + 1"
    proof
      fix k assume "k \<in> dom ?fl"
      then have "k = ep + 1 \<or> k \<in> dom fl" by auto
      with 2(4) show "k \<le> ep + 1" by force
    qed
    from 2(1) [OF True refl scan bound] out
    show ?thesis unfolding deliveries_of_update [OF fresh] by simp
  next
    case False
    then obtain kept' where "claim_scan mx now n es ep fl = (ep2, fl2, out, kept')"
      using 2(3) by (auto simp: Let_def split: prod.splits)
    with 2(2) [OF False _ 2(4)] show ?thesis by blast
  qed
qed auto

lemma Claim_out:
  assumes "Claim mx now s = (s', out)" and "0 < mx"
  shows "map d_msg out = map entry_msg (take (nat mx) (filter (visible now) (ready s))) \<and>
     filter (visible now) (ready s') = drop (nat mx) (filter (visible now) (ready s)) \<and>
     filter (\<lambda>e. \<not> visible now e) (ready s') = filter (\<lambda>e. \<not> visible now e) (ready s) \<and>
     mset (map entry_msg (ready s)) = mset (map entry_msg (ready s')) + mset (map d_msg out) \<and>
     map d_epoch out = [epoch s + 1..epoch s + int (length out)]"
proof -
  obtain ep fl kept where scan: "claim_scan mx now 0 (ready s) (epoch s) (inflight s) = (ep, fl, out, kept)"
    and "s' = s\<lparr>epoch := ep, inflight := fl, ready := kept\<rparr>"
    using assms by (auto simp: Claim_def split: prod.splits)
  with claim_scan_out [OF scan] assms(2) show ?thesis by (simp del: mset_map)
qed

text \<open>
  A claim is first-in first-out and bounded: it hands out, in queue order, the first \<open>mx\<close>
  of the messages that are visible by now and nothing else, numbers the deliveries with
  fresh consecutive epochs, leaves the remaining messages queued in their order (delayed
  ones untouched), and neither loses nor duplicates a message.
\<close>
theorem claim_fifo:
  assumes "Claim mx now s = (s', out)" and "0 < mx"
  shows "map d_msg out = map entry_msg (take (nat mx) (filter (visible now) (ready s))) \<and>
     filter (visible now) (ready s') = drop (nat mx) (filter (visible now) (ready s)) \<and>
     filter (\<lambda>e. \<not> visible now e) (ready s') = filter (\<lambda>e. \<not> visible now e) (ready s) \<and>
     mset (map entry_msg (ready s)) = mset (map entry_msg (ready s')) + mset (map d_msg out) \<and>
     map d_epoch out = [epoch s + 1..epoch s + int (length out)]"
  by (rule Claim_out [OF assms])

theorem claim_fifo_witness:
  "map d_epoch (snd (Claim 1 5 (append_ready 7 (NewMessage GNil Map.empty)
       (append_ready 3 (NewMessage (GInt 2) Map.empty) (emptyQueueStore 4 OverflowBlock))))) = [1]"
proof -
  let ?s = "append_ready 7 (NewMessage GNil Map.empty)
       (append_ready 3 (NewMessage (GInt 2) Map.empty) (emptyQueueStore 4 OverflowBlock))"
  obtain s' out where c: "Claim 1 5 ?s = (s', out)" by fastforce
  from claim_fifo [OF c] have o: "map d_msg out = [NewMessage (GInt 2) Map.empty]"
    and e: "map d_epoch out = [epoch ?s + 1..epoch ?s + int (length out)]"
    by (simp_all add: append_ready_def emptyQueueStore_def visible_def)
  from o have "length out = 1" by (metis length_map length_Cons list.size(3) One_nat_def)
  with e c show ?thesis by (simp add: append_ready_def emptyQueueStore_def)
qed

end
