(* ===== verification/Channel_Store.thy ===== *)
theory Channel_Store
  imports Queue_Store
begin

text \<open>
  The \<open>ChannelStore\<close> interface (\<^verbatim>\<open>store.go\<close>), the queue channel that is its client
  (\<^verbatim>\<open>channel/queuechannel.go\<close>), and what the interface promises, as the locale
  \<open>channel_store\<close>: messages move between waiting, outstanding and settled, claims are
  bounded and hand out fresh deliveries, a settled delivery is spent. The client theorem is
  the ledger: over any run of the channel's operations, what was accepted is exactly what
  is waiting, outstanding or settled. The in-memory store is an interpretation for its two
  lossless overflow policies.
\<close>

section \<open>The interface and the queue channel\<close>

record ('q, 'd) ChannelStore =
  cs_Enqueue :: "err option \<Rightarrow> nat \<Rightarrow> time \<Rightarrow> msg \<Rightarrow> 'q \<Rightarrow> ('q \<times> err option) option"
  cs_Claim :: "int \<Rightarrow> time \<Rightarrow> 'q \<Rightarrow> 'q \<times> 'd list"
  cs_Ack :: "'d \<Rightarrow> 'q \<Rightarrow> 'q option"
  cs_Nack :: "'d \<Rightarrow> bool \<Rightarrow> duration \<Rightarrow> time \<Rightarrow> 'q \<Rightarrow> 'q option"
  cs_EmitsLiveValue :: "'q \<Rightarrow> bool"
  cs_native :: "(bool \<times> bool) option"

record ('q, 'd) QueueChannel =
  qc_store :: "('q, 'd) ChannelStore"

definition NewQueueChannel :: "('q, 'd) ChannelStore option \<Rightarrow> err + ('q, 'd) QueueChannel" where
  "NewQueueChannel st = (case st of None \<Rightarrow> Inl (Sentinel ErrNilStore) | Some x \<Rightarrow> Inr \<lparr>qc_store = x\<rparr>)"

definition QueueChannel_Send ::
  "('q, 'd) QueueChannel \<Rightarrow> err option \<Rightarrow> nat \<Rightarrow> time \<Rightarrow> msg \<Rightarrow> 'q \<Rightarrow> ('q \<times> err option) option" where
  "QueueChannel_Send qc = cs_Enqueue (qc_store qc)"

definition QueueChannel_Poll :: "('q, 'd) QueueChannel \<Rightarrow> int \<Rightarrow> time \<Rightarrow> 'q \<Rightarrow> 'q \<times> 'd list" where
  "QueueChannel_Poll qc = cs_Claim (qc_store qc)"

definition QueueChannel_EmitsLiveValue :: "('q, 'd) QueueChannel \<Rightarrow> 'q \<Rightarrow> bool" where
  "QueueChannel_EmitsLiveValue qc = cs_EmitsLiveValue (qc_store qc)"

text \<open>\<open>cs_native\<close> is \<open>Some (redelivery, deadLetter)\<close> when the store also implements \<open>NativeReliability\<close>.\<close>

definition QueueChannel_NativeRedelivery :: "('q, 'd) QueueChannel \<Rightarrow> bool" where
  "QueueChannel_NativeRedelivery qc = (case cs_native (qc_store qc) of Some nr \<Rightarrow> fst nr | None \<Rightarrow> False)"

definition QueueChannel_NativeDeadLetter :: "('q, 'd) QueueChannel \<Rightarrow> bool" where
  "QueueChannel_NativeDeadLetter qc = (case cs_native (qc_store qc) of Some nr \<Rightarrow> snd nr | None \<Rightarrow> False)"

text \<open>The in-memory store as a value of the interface.\<close>

definition memory_channel_store :: "(QueueStore, qdelivery) ChannelStore" where
  "memory_channel_store =
     \<lparr>cs_Enqueue = Enqueue, cs_Claim = Claim,
      cs_Ack = (\<lambda>d. ackClosure (d_epoch d)), cs_Nack = (\<lambda>d. nackClosure (d_epoch d)),
      cs_EmitsLiveValue = QueueStore_EmitsLiveValue, cs_native = None\<rparr>"

section \<open>Runs of a channel, with a ledger\<close>

datatype 'd qevent =
    Sent "err option" nat time msg
  | Polled int time
  | Acked 'd
  | Nacked 'd bool duration time

text \<open>What the channel's users know: the messages whose \<open>Send\<close> returned nil, the deliveries they
  were handed, the ones they settled, and the messages their first settlement let go of.\<close>

record 'd ledger =
  accepted :: "msg multiset"
  issued :: "'d set"
  closed :: "'d set"
  finished :: "msg multiset"

definition empty_ledger :: "'d ledger" where
  "empty_ledger = \<lparr>accepted = {#}, issued = {}, closed = {}, finished = {#}\<rparr>"

definition close_delivery :: "('d \<Rightarrow> msg) \<Rightarrow> bool \<Rightarrow> 'd \<Rightarrow> 'd ledger \<Rightarrow> 'd ledger" where
  "close_delivery dm ends d l =
     l\<lparr>closed := insert d (closed l),
       finished := finished l + (if ends \<and> d \<notin> closed l then {#dm d#} else {#})\<rparr>"

fun channel_step :: "('q, 'd) QueueChannel \<Rightarrow> ('d \<Rightarrow> msg) \<Rightarrow> 'd qevent \<Rightarrow> 'q \<times> 'd ledger \<Rightarrow> 'q \<times> 'd ledger" where
  "channel_step qc dm (Sent ctx pck now m) (q, l) =
     (case QueueChannel_Send qc ctx pck now m q of
        None \<Rightarrow> (q, l)
      | Some (q', None) \<Rightarrow> (q', l\<lparr>accepted := add_mset m (accepted l)\<rparr>)
      | Some (q', Some e) \<Rightarrow> (q', l))"
| "channel_step qc dm (Polled mx now) (q, l) =
     (case QueueChannel_Poll qc mx now q of (q', ds) \<Rightarrow> (q', l\<lparr>issued := issued l \<union> set ds\<rparr>))"
| "channel_step qc dm (Acked d) (q, l) =
     (if d \<in> issued l then
        (case cs_Ack (qc_store qc) d q of None \<Rightarrow> (q, l) | Some q' \<Rightarrow> (q', close_delivery dm True d l))
      else (q, l))"
| "channel_step qc dm (Nacked d requeue delay now) (q, l) =
     (if d \<in> issued l then
        (case cs_Nack (qc_store qc) d requeue delay now q of
           None \<Rightarrow> (q, l) | Some q' \<Rightarrow> (q', close_delivery dm (\<not> requeue) d l))
      else (q, l))"

fun channel_run :: "('q, 'd) QueueChannel \<Rightarrow> ('d \<Rightarrow> msg) \<Rightarrow> 'd qevent list \<Rightarrow> 'q \<times> 'd ledger \<Rightarrow> 'q \<times> 'd ledger" where
  "channel_run qc dm [] x = x"
| "channel_run qc dm (e # es) x = channel_run qc dm es (channel_step qc dm e x)"

section \<open>What a channel store promises\<close>

locale channel_store =
  fixes st :: "('q, 'd) ChannelStore"
    and delivered :: "'d \<Rightarrow> msg"
    and waiting :: "'q \<Rightarrow> msg multiset"
    and outstanding :: "'q \<Rightarrow> 'd set"
    and spent :: "'q \<Rightarrow> 'd set"
    and invar :: "'q \<Rightarrow> bool"
  assumes enqueue_ok: "invar q \<Longrightarrow> cs_Enqueue st ctx pck now m q = Some (q', None) \<Longrightarrow>
      invar q' \<and> waiting q' = waiting q + {#m#} \<and> outstanding q' = outstanding q \<and> spent q \<subseteq> spent q'"
    and enqueue_err: "invar q \<Longrightarrow> cs_Enqueue st ctx pck now m q = Some (q', Some e) \<Longrightarrow> q' = q"
    and claim_law: "invar q \<Longrightarrow> cs_Claim st mx now q = (q', ds) \<Longrightarrow>
      invar q' \<and> length ds \<le> nat mx \<and> waiting q = waiting q' + mset (map delivered ds) \<and> distinct ds \<and>
      set ds \<inter> outstanding q = {} \<and> set ds \<inter> spent q = {} \<and>
      outstanding q' = outstanding q \<union> set ds \<and> spent q \<subseteq> spent q'"
    and ack_law: "invar q \<Longrightarrow> d \<in> outstanding q \<Longrightarrow> \<exists>q'. cs_Ack st d q = Some q' \<and> invar q' \<and>
      waiting q' = waiting q \<and> outstanding q' = outstanding q - {d} \<and> insert d (spent q) \<subseteq> spent q'"
    and nack_law: "invar q \<Longrightarrow> d \<in> outstanding q \<Longrightarrow> \<exists>q'. cs_Nack st d requeue delay now q = Some q' \<and> invar q' \<and>
      waiting q' = waiting q + (if requeue then {#delivered d#} else {#}) \<and>
      outstanding q' = outstanding q - {d} \<and> insert d (spent q) \<subseteq> spent q'"
    and ack_spent: "invar q \<Longrightarrow> d \<in> spent q \<Longrightarrow> cs_Ack st d q = Some q"
    and nack_spent: "invar q \<Longrightarrow> d \<in> spent q \<Longrightarrow> cs_Nack st d requeue delay now q = Some q"
    and outstanding_finite: "invar q \<Longrightarrow> finite (outstanding q)"
    and spent_not_outstanding: "invar q \<Longrightarrow> outstanding q \<inter> spent q = {}"
begin

definition balanced :: "'q \<times> 'd ledger \<Rightarrow> bool" where
  "balanced x \<longleftrightarrow> (case x of (q, l) \<Rightarrow> invar q \<and>
     issued l \<subseteq> outstanding q \<union> spent q \<and> closed l = issued l \<inter> spent q \<and> outstanding q \<subseteq> issued l \<and>
     accepted l = waiting q + image_mset delivered (mset_set (outstanding q)) + finished l)"

lemma balanced_invar: "balanced (q, l) \<Longrightarrow> invar q"
  by (simp add: balanced_def)

lemma balanced_Sent:
  assumes b: "balanced (q, l)" and r: "cs_Enqueue st ctx pck now m q = Some (q', None)"
  shows "balanced (q', l\<lparr>accepted := add_mset m (accepted l)\<rparr>)"
proof -
  from enqueue_ok [OF balanced_invar [OF b] r]
  have law: "invar q' \<and> waiting q' = waiting q + {#m#} \<and> outstanding q' = outstanding q \<and> spent q \<subseteq> spent q'" .
  moreover from this spent_not_outstanding [of q'] have "outstanding q \<inter> spent q' = {}" by auto
  ultimately show ?thesis using b by (auto simp: balanced_def)
qed

lemma balanced_Polled:
  assumes b: "balanced (q, l)" and c: "cs_Claim st mx now q = (q', ds)"
  shows "balanced (q', l\<lparr>issued := issued l \<union> set ds\<rparr>)"
proof -
  note law = claim_law [OF balanced_invar [OF b] c]
  then have sp: "outstanding q' \<inter> spent q' = {}" using spent_not_outstanding by blast
  have "mset_set (outstanding q') = mset_set (outstanding q) + mset ds"
    using law outstanding_finite [OF balanced_invar [OF b]]
    by (simp add: mset_set_Union mset_set_set Int_commute)
  then show ?thesis using b law sp by (auto simp: balanced_def)
qed

lemma balanced_close:
  assumes b: "balanced (q, l)" and d: "d \<in> issued l"
    and out: "d \<in> outstanding q \<Longrightarrow> invar q' \<and> outstanding q' = outstanding q - {d} \<and>
      waiting q' = waiting q + (if ends then {#} else {#delivered d#}) \<and> insert d (spent q) \<subseteq> spent q'"
    and gone: "d \<in> spent q \<Longrightarrow> q' = q"
  shows "balanced (q', close_delivery delivered ends d l)"
proof (cases "d \<in> outstanding q")
  case True
  from out [OF True] have i': "invar q'" and o': "outstanding q' = outstanding q - {d}"
    and w': "waiting q' = waiting q + (if ends then {#} else {#delivered d#})"
    and s': "insert d (spent q) \<subseteq> spent q'" by auto
  have fin: "finite (outstanding q)" using b outstanding_finite by (simp add: balanced_def)
  have m: "mset_set (outstanding q) = add_mset d (mset_set (outstanding q'))"
    using mset_set.remove [OF fin True] o' by simp
  have nd: "d \<notin> closed l" using True b spent_not_outstanding [of q] by (auto simp: balanced_def)
  have "outstanding q' \<inter> spent q' = {}" using spent_not_outstanding [OF i'] .
  then show ?thesis
    using b d i' o' s' w' m nd by (auto simp: balanced_def close_delivery_def)
next
  case False
  with b d have "d \<in> spent q" by (auto simp: balanced_def)
  with gone have "q' = q" by blast
  with b d \<open>d \<in> spent q\<close> show ?thesis by (auto simp: balanced_def close_delivery_def)
qed

lemma balanced_Acked:
  assumes b: "balanced (q, l)" and d: "d \<in> issued l" and r: "cs_Ack st d q = Some q'"
  shows "balanced (q', close_delivery delivered True d l)"
  by (rule balanced_close [OF b d])
     (use r ack_law [OF balanced_invar [OF b]] ack_spent [OF balanced_invar [OF b]] in force)+

lemma balanced_Nacked:
  assumes b: "balanced (q, l)" and d: "d \<in> issued l" and r: "cs_Nack st d requeue delay now q = Some q'"
  shows "balanced (q', close_delivery delivered (\<not> requeue) d l)"
  by (rule balanced_close [OF b d])
     (use r nack_law [OF balanced_invar [OF b], of d requeue delay now]
        nack_spent [OF balanced_invar [OF b], of d requeue delay now] in force)+

lemma balanced_step: "balanced (q, l) \<Longrightarrow> balanced (channel_step \<lparr>qc_store = st\<rparr> delivered e (q, l))"
  by (cases e)
     (auto simp: QueueChannel_Send_def QueueChannel_Poll_def split: option.splits prod.splits
        intro: balanced_Sent balanced_Polled balanced_Acked balanced_Nacked
        dest: enqueue_err [OF balanced_invar])

lemma balanced_run: "balanced x \<Longrightarrow> balanced (channel_run \<lparr>qc_store = st\<rparr> delivered es x)"
  by (induction es arbitrary: x) (simp, metis balanced_step channel_run.simps(2) surj_pair)

lemma ledger_balances:
  assumes "invar q" and "waiting q = {#}" and "outstanding q = {}"
    and "channel_run \<lparr>qc_store = st\<rparr> delivered es (q, empty_ledger) = (q', l)"
  shows "accepted l = waiting q' + image_mset delivered (mset_set (outstanding q')) + finished l"
proof -
  have "balanced (q, empty_ledger)" using assms(1-3) by (simp add: balanced_def empty_ledger_def)
  then have "balanced (q', l)" using balanced_run [of "(q, empty_ledger)" es] assms(4) by simp
  then show ?thesis by (simp add: balanced_def)
qed

end

section \<open>The in-memory store\<close>

definition qs_waiting :: "QueueStore \<Rightarrow> msg multiset" where
  "qs_waiting s = mset (map entry_msg (ready s))"

definition qs_outstanding :: "QueueStore \<Rightarrow> qdelivery set" where
  "qs_outstanding s = deliveries_of (inflight s)"

definition qs_spent :: "QueueStore \<Rightarrow> qdelivery set" where
  "qs_spent s = {d. d_epoch d \<le> epoch s \<and> inflight s (d_epoch d) = None}"

definition lossless :: "OverflowPolicy \<Rightarrow> bool" where
  "lossless p \<longleftrightarrow> p \<noteq> OverflowDropNewest \<and> p \<noteq> OverflowDropOldest"

definition qs_lossless :: "QueueStore \<Rightarrow> bool" where
  "qs_lossless s \<longleftrightarrow> qs_inv s \<and> lossless (overflow s)"

lemma Enqueue_None_error:
  assumes "lossless (overflow s)" and "Enqueue ctx pck now m s = Some (s', r)"
  shows "(r = None \<and> slot_free s \<and> s' = append_ready now m (acquire_slot s)) \<or> (r \<noteq> None \<and> s' = s)"
proof (cases "sheds (overflow s)")
  case True
  with assms show ?thesis
    by (cases "overflow s") (auto simp: Enqueue_def shed_def lossless_def split: if_splits)
next
  case False
  with assms(2) obtain i where i: "go_select [slot_free s, ctx \<noteq> None] pck = Some i"
    by (auto simp: Enqueue_def split: option.splits)
  from go_select_ready [OF i] have "i = 0 \<and> slot_free s \<or> i = 1 \<and> ctx \<noteq> None"
    by (auto simp: less_Suc_eq)
  with False assms(2) i show ?thesis by (auto simp: Enqueue_def)
qed

lemma qs_lossless_append:
  "qs_lossless s \<Longrightarrow> slot_free s \<Longrightarrow> qs_lossless (append_ready now m (acquire_slot s))"
  by (auto simp: qs_lossless_def qs_inv_def slot_free_def)

lemma delivery_inflight: "d \<in> qs_outstanding s \<Longrightarrow> \<exists>e. inflight s (d_epoch d) = Some e \<and> d_msg d = entry_msg e"
  by (simp add: qs_outstanding_def deliveries_of_iff)

lemma outstanding_remove:
  "d \<in> qs_outstanding s \<Longrightarrow> deliveries_of ((inflight s)(d_epoch d := None)) = qs_outstanding s - {d}"
  by (rule set_eqI) (auto simp: qs_outstanding_def deliveries_of_iff intro: qdelivery.equality)

lemma settle_frees_slot:
  assumes "qs_inv s" and "inflight s k = Some e" and "t = s\<lparr>inflight := (inflight s)(k := None)\<rparr>"
  shows "release_slot t = Some (t\<lparr>sem := sem s - 1\<rparr>) \<and> qs_inv (t\<lparr>sem := sem s - 1\<rparr>)"
  using settle_wf [of s k] assms by (auto simp: qs_inv_def release_slot_def)

lemma ackClosure_outstanding:
  assumes "qs_inv s" and "inflight s k = Some e"
  shows "ackClosure k s = Some (s\<lparr>inflight := (inflight s)(k := None), sem := sem s - 1\<rparr>) \<and>
     qs_inv (s\<lparr>inflight := (inflight s)(k := None), sem := sem s - 1\<rparr>)"
  using settle_frees_slot [OF assms refl] assms(2) by (simp add: ackClosure_def ack_locked_def)

lemma nackClosure_requeue:
  assumes "qs_inv s" and "inflight s k = Some e"
    and "s' = s\<lparr>inflight := (inflight s)(k := None),
           ready := ready s @ [e\<lparr>visibleAt := now + delay, entry_epoch := 0\<rparr>]\<rparr>"
  shows "nackClosure k True delay now s = Some s' \<and> qs_inv s'"
proof -
  have "nack_locked k True delay now s = (s', False)" using assms by (simp add: nack_locked_def Let_def)
  moreover from this nack_locked_wf [of s k True delay now s' False] assms(1) have "qs_inv s'"
    by (auto simp: qs_inv_def)
  ultimately show ?thesis by (simp add: nackClosure_def)
qed

lemma nackClosure_drop:
  assumes "qs_inv s" and "inflight s k = Some e"
  shows "nackClosure k False delay now s = ackClosure k s"
  using assms by (simp add: nackClosure_def nack_locked_def ackClosure_def ack_locked_def Let_def)

lemma settle_absent:
  assumes "inflight s k = None"
  shows "ackClosure k s = Some s" and "nackClosure k requeue delay now s = Some s"
proof -
  have "s\<lparr>inflight := (inflight s)(k := None)\<rparr> = s" using assms by (simp add: fun_upd_idem)
  with assms show "ackClosure k s = Some s" and "nackClosure k requeue delay now s = Some s"
    by (simp_all add: ackClosure_def ack_locked_def nackClosure_def nack_locked_def)
qed

lemma Claim_law:
  assumes "qs_lossless s" and c: "Claim mx now s = (s', ds)"
  shows "qs_lossless s' \<and> length ds \<le> nat mx \<and> qs_waiting s = qs_waiting s' + mset (map d_msg ds) \<and>
     distinct ds \<and> (\<forall>d \<in> set ds. epoch s < d_epoch d) \<and>
     qs_outstanding s' = qs_outstanding s \<union> set ds \<and> epoch s \<le> epoch s' \<and>
     (\<forall>k. k \<le> epoch s \<longrightarrow> inflight s' k = inflight s k)"
proof (cases "0 < mx")
  case False
  with assms show ?thesis by (auto simp: Claim_def)
next
  case True
  note wf = Claim_wf [OF _ c]
  note out = Claim_out [OF c True]
  have inv: "qs_wf s" using assms(1) by (simp add: qs_lossless_def qs_inv_def)
  have ep: "map d_epoch ds = [epoch s + 1..epoch s + int (length ds)]" using out by blast
  have dist: "distinct ds" using ep distinct_upto distinct_map by metis
  have fresh: "\<forall>d \<in> set ds. epoch s < d_epoch d"
  proof
    fix d assume "d \<in> set ds"
    then have "d_epoch d \<in> set (map d_epoch ds)" by simp
    then show "epoch s < d_epoch d" unfolding ep by simp
  qed
  have len: "length ds \<le> nat mx"
    using arg_cong [of _ _ length, OF conjunct1 [OF out]] by simp
  obtain ep' fl kept where scan: "claim_scan mx now 0 (ready s) (epoch s) (inflight s) = (ep', fl, ds, kept)"
    and s': "s' = s\<lparr>epoch := ep', inflight := fl, ready := kept\<rparr>"
    using c True by (auto simp: Claim_def split: prod.splits)
  have "\<forall>k \<in> dom (inflight s). k \<le> epoch s" using inv by (auto simp: qs_wf_def)
  from claim_scan_deliveries [OF scan this] s'
  have "qs_outstanding s' = qs_outstanding s \<union> set ds" by (simp add: qs_outstanding_def)
  moreover have "qs_waiting s = qs_waiting s' + mset (map d_msg ds)"
    unfolding qs_waiting_def using out by blast
  ultimately show ?thesis
    using wf [OF inv] dist fresh len assms(1) by (auto simp: qs_lossless_def qs_inv_def)
qed

interpretation memq: channel_store memory_channel_store d_msg qs_waiting qs_outstanding qs_spent qs_lossless
proof (unfold_locales, goal_cases)
  case (1 q ctx pck now m q')
  then have "slot_free q \<and> q' = append_ready now m (acquire_slot q)"
    using Enqueue_None_error by (fastforce simp: memory_channel_store_def qs_lossless_def)
  with 1 show ?case
    using qs_lossless_append [of q now m]
    by (auto simp: qs_waiting_def qs_outstanding_def qs_spent_def append_ready_def acquire_slot_def)
next
  case (2 q ctx pck now m q' e)
  then show ?case
    using Enqueue_None_error by (fastforce simp: memory_channel_store_def qs_lossless_def)
next
  case (3 q mx now q' ds)
  then have c: "Claim mx now q = (q', ds)" by (simp add: memory_channel_store_def)
  note law = Claim_law [OF 3(1) c]
  have old: "\<forall>d \<in> qs_outstanding q. d_epoch d \<le> epoch q"
    using 3(1) by (auto simp: qs_lossless_def qs_inv_def qs_wf_def dest!: delivery_inflight)
  have "set ds \<inter> qs_outstanding q = {}" "set ds \<inter> qs_spent q = {}"
    using law old by (force simp: qs_spent_def)+
  moreover have "qs_spent q \<subseteq> qs_spent q'" using law by (force simp: qs_spent_def)
  ultimately show ?case using law by simp
next
  case (4 q d)
  then obtain e where e: "inflight q (d_epoch d) = Some e" using delivery_inflight by blast
  then have le: "d_epoch d \<le> epoch q" using 4(1) by (auto simp: qs_lossless_def qs_inv_def qs_wf_def)
  let ?q = "q\<lparr>inflight := (inflight q)(d_epoch d := None), sem := sem q - 1\<rparr>"
  have "ackClosure (d_epoch d) q = Some ?q \<and> qs_inv ?q"
    using ackClosure_outstanding e 4(1) by (simp add: qs_lossless_def)
  then show ?case
    using 4 le outstanding_remove [OF 4(2)]
    by (auto simp: memory_channel_store_def qs_lossless_def qs_waiting_def qs_outstanding_def qs_spent_def)
next
  case (5 q d requeue delay now)
  then obtain e where e: "inflight q (d_epoch d) = Some e" "d_msg d = entry_msg e" using delivery_inflight by blast
  then have le: "d_epoch d \<le> epoch q" using 5(1) by (auto simp: qs_lossless_def qs_inv_def qs_wf_def)
  have i: "qs_inv q" using 5(1) by (simp add: qs_lossless_def)
  show ?case
  proof (cases requeue)
    case True
    from nackClosure_requeue [OF i e(1) refl, where now = now and delay = delay] show ?thesis
      using 5 True le e outstanding_remove [OF 5(2)]
      by (auto simp: memory_channel_store_def qs_lossless_def qs_waiting_def qs_outstanding_def qs_spent_def)
  next
    case False
    with nackClosure_drop [OF i e(1)] ackClosure_outstanding [OF i e(1)] show ?thesis
      using 5 le outstanding_remove [OF 5(2)]
      by (auto simp: memory_channel_store_def qs_lossless_def qs_waiting_def qs_outstanding_def qs_spent_def)
  qed
next
  case (6 q d)
  then show ?case by (simp add: memory_channel_store_def qs_spent_def settle_absent)
next
  case (7 q d requeue delay now)
  then show ?case by (simp add: memory_channel_store_def qs_spent_def settle_absent)
next
  case (8 q)
  have "qs_outstanding q = (\<lambda>k. \<lparr>d_msg = entry_msg (the (inflight q k)), d_epoch = k\<rparr>) ` dom (inflight q)"
    by (auto simp: qs_outstanding_def deliveries_of_def image_iff)
  with 8 show ?case by (simp add: qs_lossless_def qs_inv_def qs_wf_def)
next
  case (9 q)
  then show ?case by (auto simp: qs_spent_def dest: delivery_inflight)
qed

section \<open>Properties of the queue channel over the in-memory store\<close>

lemma NewQueueStore_fresh:
  assumes "NewQueueStore opts = Inr s"
  shows "qs_waiting s = {#} \<and> qs_outstanding s = {}"
  using assms
  by (auto simp: NewQueueStore_def qs_waiting_def qs_outstanding_def deliveries_of_def emptyQueueStore_def
        split: sum.splits if_splits option.splits)

text \<open>
  C5. Nothing is lost: a queue channel over an in-memory store with a lossless overflow policy
  (block or reject), driven by any sequence of sends, polls, acknowledgements and negative
  acknowledgements with or without requeue, each settlement possibly repeated, keeps its
  books: the messages it accepted are exactly the ones still queued, plus the ones handed
  out and not settled, plus the ones whose first settlement was an ack or a nack without
  requeue.
\<close>
theorem queue_channel_ledger:
  assumes "NewQueueStore opts = Inr s" and "lossless (overflow s)"
    and "NewQueueChannel (Some memory_channel_store) = Inr qc"
    and "channel_run qc d_msg es (s, empty_ledger) = (s', l)"
  shows "accepted l = mset (map entry_msg (ready s'))
      + image_mset d_msg (mset_set (deliveries_of (inflight s'))) + finished l"
proof -
  have "qc = \<lparr>qc_store = memory_channel_store\<rparr>" using assms(3) by (simp add: NewQueueChannel_def)
  moreover have "qs_lossless s" using NewQueueStore_inv [OF assms(1)] assms(2) by (simp add: qs_lossless_def)
  ultimately show ?thesis
    using memq.ledger_balances [of s es s' l] NewQueueStore_fresh [OF assms(1)] assms(4)
    by (simp add: qs_waiting_def qs_outstanding_def)
qed

text \<open>Two messages through a store of capacity one: the second is rejected, the first is
  polled, requeued, polled again and acknowledged twice.\<close>

definition ledger_demo :: "qdelivery qevent list" where
  "ledger_demo =
     (let m = NewMessage (GInt 1) Map.empty
      in [Sent None 0 0 m, Sent None 0 0 (NewMessage (GInt 2) Map.empty), Polled 5 0,
          Nacked \<lparr>d_msg = m, d_epoch = 1\<rparr> True 3 0, Polled 5 1, Polled 5 3,
          Acked \<lparr>d_msg = m, d_epoch = 2\<rparr>, Acked \<lparr>d_msg = m, d_epoch = 2\<rparr>])"

theorem queue_channel_ledger_witness:
  "accepted (snd (channel_run \<lparr>qc_store = memory_channel_store\<rparr> d_msg ledger_demo
      (emptyQueueStore 1 OverflowReject, empty_ledger))) = {#NewMessage (GInt 1) Map.empty#}"
proof -
  let ?s = "emptyQueueStore 1 OverflowReject"
  have new: "NewQueueStore [Some (WithCapacity 1), Some (WithOverflow OverflowReject)] = Inr ?s"
    by (simp add: NewQueueStore_def WithCapacity_def WithOverflow_def checkRange_def)
  have ll: "lossless (overflow ?s)" by (simp add: lossless_def emptyQueueStore_def)
  have qc: "NewQueueChannel (Some memory_channel_store) = Inr \<lparr>qc_store = memory_channel_store\<rparr>"
    by (simp add: NewQueueChannel_def)
  obtain s' l where run: "channel_run \<lparr>qc_store = memory_channel_store\<rparr> d_msg ledger_demo (?s, empty_ledger) = (s', l)"
    by fastforce
  have "ready s' = [] \<and> inflight s' = Map.empty \<and> finished l = {#NewMessage (GInt 1) Map.empty#}"
    using run
    by (auto simp: ledger_demo_def emptyQueueStore_def empty_ledger_def close_delivery_def Let_def
        memory_channel_store_def QueueChannel_Send_def QueueChannel_Poll_def Enqueue_def Claim_def
        ackClosure_def nackClosure_def store_simps)
  with queue_channel_ledger [OF new ll qc run] run show ?thesis by (simp add: deliveries_of_def)
qed

section \<open>Fencing of settled deliveries\<close>

lemma qstep_spent:
  assumes "qstep q q'" and "qsys_inv q"
  shows "qs_spent (store q) \<subseteq> qs_spent (store q')"
  using assms
proof (induction rule: qstep.induct)
  case (enq_shed m q now)
  then show ?case using shed_wf [of "store q" now m] by (auto simp: qsys_inv_def qs_spent_def)
next
  case (claim q mx now)
  obtain s' out where "Claim mx now (store q) = (s', out)" by fastforce
  with claim show ?case using Claim_wf [of "store q" mx now s' out] by (auto simp: qsys_inv_def qs_spent_def)
next
  case (ack ep q s' ok)
  then show ?case using ack_locked_wf [of "store q" ep s' ok] by (auto simp: qsys_inv_def qs_spent_def)
next
  case (nack ep requeue delay now q s' freed)
  then show ?case
    using nack_locked_wf [of "store q" ep requeue delay now s' freed] by (auto simp: qsys_inv_def qs_spent_def)
qed (auto simp: qs_spent_def dest: release_slot_frame)

lemma qstep_epoch: "qstep q q' \<Longrightarrow> qsys_inv q \<Longrightarrow> epoch (store q) \<le> epoch (store q')"
proof (induction rule: qstep.induct)
  case (claim q mx now)
  obtain s' out where "Claim mx now (store q) = (s', out)" by fastforce
  with claim show ?case using Claim_wf [of "store q" mx now s' out] by (auto simp: qsys_inv_def)
qed (auto simp: shed_def nack_locked_def ack_locked_def Let_def split: if_splits option.splits dest: release_slot_frame)

lemma qreach_spent: "qreach q q' \<Longrightarrow> qsys_inv q \<Longrightarrow> qs_spent (store q) \<subseteq> qs_spent (store q')"
proof (induction rule: qreach.induct)
  case (qreach_step a b)
  then show ?case using qstep_spent [of a b] qreach_inv [of q a] by auto
qed simp

lemma settle_idle:
  "inflight s k = None \<Longrightarrow> ack_locked k s = (s, False) \<and> nack_locked k requeue delay now s = (s, False)"
  by (simp add: ack_locked_def nack_locked_def fun_upd_idem)

text \<open>
  Settlement is fenced under every interleaving: once a delivery has been acknowledged or
  negatively acknowledged, every later \<open>Ack\<close> or \<open>Nack\<close> of it, in any state reached
  afterwards, changes nothing and frees no slot, even when its message has been requeued
  and handed out again under another epoch.
\<close>
theorem settled_delivery_fenced:
  assumes "NewQueueStore opts = Inr s" and "qreach (qsys_init s) q"
    and "qstep q q1" and "inflight (store q) k = Some e" and "inflight (store q1) k = None"
    and "qreach q1 q2"
  shows "ack_locked k (store q2) = (store q2, False) \<and>
     nack_locked k requeue delay now (store q2) = (store q2, False)"
proof -
  have "qsys_inv (qsys_init s)"
    using NewQueueStore_inv [OF assms(1)] by (auto simp: qsys_inv_def qsys_init_def qs_inv_def)
  then have iq: "qsys_inv q" by (rule qreach_inv [OF assms(2)])
  have "k \<le> epoch (store q)" using iq assms(4) by (auto simp: qsys_inv_def qs_wf_def)
  then have "k \<le> epoch (store q1)" using qstep_epoch [OF assms(3) iq] by simp
  then have "\<lparr>d_msg = entry_msg e, d_epoch = k\<rparr> \<in> qs_spent (store q1)"
    using assms(5) by (simp add: qs_spent_def)
  then have "\<lparr>d_msg = entry_msg e, d_epoch = k\<rparr> \<in> qs_spent (store q2)"
    using qreach_spent [OF assms(6) qstep_inv [OF assms(3) iq]] by blast
  then show ?thesis by (simp add: qs_spent_def settle_idle)
qed

theorem settled_delivery_fenced_witness:
  "\<exists>q1. qreach (qsys_init (emptyQueueStore 1 OverflowReject)) q1 \<and> ready (store q1) \<noteq> [] \<and>
     ack_locked 1 (store q1) = (store q1, False)"
proof -
  let ?s = "emptyQueueStore 1 OverflowReject"
  let ?m = "NewMessage GNil Map.empty"
  let ?a = "(qsys_init ?s)\<lparr>store := acquire_slot ?s, appending := [?m]\<rparr>"
  let ?b = "?a\<lparr>store := append_ready 0 ?m (store ?a), appending := []\<rparr>"
  let ?c = "?b\<lparr>store := fst (Claim 1 0 (store ?b))\<rparr>"
  let ?q1 = "?c\<lparr>store := fst (nack_locked 1 True 0 0 (store ?c)),
               releasing := releasing ?c + (if snd (nack_locked 1 True 0 0 (store ?c)) then 1 else 0)\<rparr>"
  have new: "NewQueueStore [Some (WithCapacity 1), Some (WithOverflow OverflowReject)] = Inr ?s"
    by (simp add: NewQueueStore_def WithCapacity_def WithOverflow_def checkRange_def)
  have "qstep (qsys_init ?s) ?a"
    using enq_acquire [of "qsys_init ?s" ?m] by (simp add: slot_free_def qsys_init_def emptyQueueStore_def)
  moreover have "qstep ?a ?b" using enq_append [of ?m ?a 0] by simp
  moreover have "qstep ?b ?c" by (rule claim)
  ultimately have r: "qreach (qsys_init ?s) ?c" using qreach_refl qreach_step by meson
  have fl: "inflight (store ?c) 1 \<noteq> None"
    by (simp add: Claim_def append_ready_def acquire_slot_def emptyQueueStore_def qsys_init_def)
  have rd: "ready (store ?q1) \<noteq> []"
    by (simp add: Claim_def append_ready_def acquire_slot_def emptyQueueStore_def qsys_init_def nack_locked_def)
  have "qstep ?c ?q1" by (rule nack) simp
  with r have r1: "qreach (qsys_init ?s) ?q1" by (rule qreach_step)
  have gone: "inflight (store ?q1) 1 = None" by (simp add: nack_locked_def Let_def split: option.splits)
  from fl obtain e where fl': "inflight (store ?c) 1 = Some e" by blast
  from settled_delivery_fenced [OF new r \<open>qstep ?c ?q1\<close> fl' gone qreach_refl]
  have "ack_locked 1 (store ?q1) = (store ?q1, False)" by blast
  with r1 rd show ?thesis by blast
qed

end
