(* ===== verification/Resilience.thy ===== *)
theory Resilience
  imports Errors
begin

text \<open>
  The circuit breaker (\<^verbatim>\<open>resilience/breaker.go\<close>) as a state machine and the exponential
  backoff (\<^verbatim>\<open>resilience/backoff.go\<close>). The breaker's clock appears as its pending timer: armed
  when the breaker opens, firing as a step of its own. The backoff's floating-point results
  (a product with \<^verbatim>\<open>math.Pow\<close>, a random spread) are arguments, so its lemmas hold of every
  value those may have.

  The lemmas: which breaker states are reachable, that an open breaker always has a pending
  timer that leads to half-open, that half-open admits one probe, how many failures open it;
  that a delay is never negative, never above its cap and never the result of an
  out-of-range conversion.
\<close>

section \<open>The circuit breaker\<close>

datatype breakerState = breakerClosed | breakerOpen | breakerHalfOpen

record breaker =
  threshold :: int
  cooldown :: duration
  state :: breakerState
  fails :: int
  probeInFlight :: bool
  wake :: nat
  wake_closed :: "nat set"
  timer :: "duration option"

text \<open>\<open>wake\<close> names the current wake channel and \<open>wake_closed\<close> the ones that have been closed;
  \<open>timer\<close> is the delay of the pending timer.\<close>

definition WithBreakerThreshold :: "int \<Rightarrow> breaker \<Rightarrow> breaker" where
  "WithBreakerThreshold n b = (if n \<ge> 1 then b\<lparr>threshold := n\<rparr> else b)"

definition WithBreakerCooldown :: "duration \<Rightarrow> breaker \<Rightarrow> breaker" where
  "WithBreakerCooldown d b = (if d > 0 then b\<lparr>cooldown := d\<rparr> else b)"

definition newBreaker :: breaker where
  "newBreaker = \<lparr>threshold = 5, cooldown = 30 * Second, state = breakerClosed, fails = 0, probeInFlight = False,
     wake = 0, wake_closed = {}, timer = None\<rparr>"

definition NewCircuitBreaker :: "(breaker \<Rightarrow> breaker) option list \<Rightarrow> err + breaker" where
  "NewCircuitBreaker opts =
     (case apply_opts 0 opts newBreaker of
        Inl i \<Rightarrow> Inl (nilOptionAt ''resilience.NewCircuitBreaker'' i)
      | Inr b \<Rightarrow> Inr b)"

definition Allow :: "breaker \<Rightarrow> bool" where
  "Allow b \<longleftrightarrow> state b \<noteq> breakerOpen"

definition TryProbe :: "breaker \<Rightarrow> breaker \<times> bool" where
  "TryProbe b =
     (case state b of
        breakerOpen \<Rightarrow> (b, False)
      | breakerHalfOpen \<Rightarrow> if probeInFlight b then (b, False) else (b\<lparr>probeInFlight := True\<rparr>, True)
      | breakerClosed \<Rightarrow> (b, True))"

definition openLocked :: "breaker \<Rightarrow> breaker" where
  "openLocked b = b\<lparr>state := breakerOpen, timer := Some (cooldown b)\<rparr>"

definition Record :: "bool \<Rightarrow> breaker \<Rightarrow> breaker" where
  "Record success b =
     (if success then
        (let b' = b\<lparr>fails := 0\<rparr>
         in if state b' = breakerHalfOpen then b'\<lparr>state := breakerClosed, probeInFlight := False\<rparr> else b')
      else
        (let b' = b\<lparr>fails := fails b + 1\<rparr>
         in (case state b' of
               breakerClosed \<Rightarrow> if fails b' \<ge> threshold b' then openLocked b' else b'
             | breakerHalfOpen \<Rightarrow> openLocked (b'\<lparr>probeInFlight := False\<rparr>)
             | breakerOpen \<Rightarrow> b')))"

definition HalfOpen :: "breaker \<Rightarrow> nat" where
  "HalfOpen b = wake b"

definition toHalfOpen :: "breaker \<Rightarrow> breaker" where
  "toHalfOpen b =
     (if state b \<noteq> breakerOpen then b
      else b\<lparr>state := breakerHalfOpen, probeInFlight := False, wake_closed := insert (wake b) (wake_closed b),
             wake := wake b + 1\<rparr>)"

text \<open>The timer's goroutine: it fires once, and calls \<open>toHalfOpen\<close>.\<close>

inductive breaker_step :: "breaker \<Rightarrow> breaker \<Rightarrow> bool" where
  br_probe: "breaker_step b (fst (TryProbe b))"
| br_record: "breaker_step b (Record success b)"
| br_fire: "timer b \<noteq> None \<Longrightarrow> breaker_step b ((toHalfOpen b)\<lparr>timer := None\<rparr>)"

inductive breaker_reach :: "breaker \<Rightarrow> breaker \<Rightarrow> bool" for b0 where
  br_start: "breaker_reach b0 b0"
| br_next: "breaker_reach b0 b \<Longrightarrow> breaker_step b b' \<Longrightarrow> breaker_reach b0 b'"

definition breaker_inv :: "breaker \<Rightarrow> bool" where
  "breaker_inv b \<longleftrightarrow> 1 \<le> threshold b \<and> 0 < cooldown b \<and> 0 \<le> fails b \<and>
     (state b = breakerClosed \<longrightarrow> fails b < threshold b) \<and>
     (state b = breakerOpen \<longleftrightarrow> timer b \<noteq> None) \<and> (\<forall>d. timer b = Some d \<longrightarrow> 0 < d) \<and>
     (probeInFlight b \<longrightarrow> state b = breakerHalfOpen) \<and>
     (\<forall>w \<in> wake_closed b. w < wake b)"

lemma breaker_inv_step: "breaker_step b b' \<Longrightarrow> breaker_inv b \<Longrightarrow> breaker_inv b'"
proof (induction rule: breaker_step.induct)
  case (br_probe b)
  then show ?case by (cases "state b") (auto simp: breaker_inv_def TryProbe_def)
next
  case (br_record b success)
  then show ?case
    by (cases "state b"; cases success) (auto simp: breaker_inv_def Record_def openLocked_def Let_def)
next
  case (br_fire b)
  then show ?case by (auto simp: breaker_inv_def toHalfOpen_def less_SucI)
qed

lemma breaker_inv_reach: "breaker_reach b0 b \<Longrightarrow> breaker_inv b0 \<Longrightarrow> breaker_inv b"
  by (induction rule: breaker_reach.induct) (auto intro: breaker_inv_step)

text \<open>The options the package offers.\<close>

definition breaker_option :: "(breaker \<Rightarrow> breaker) \<Rightarrow> bool" where
  "breaker_option f \<longleftrightarrow> (\<exists>n. f = WithBreakerThreshold n) \<or> (\<exists>d. f = WithBreakerCooldown d)"

lemma breaker_option_inv: "breaker_option f \<Longrightarrow> breaker_inv b \<Longrightarrow> state b = breakerClosed \<Longrightarrow> fails b = 0 \<Longrightarrow>
   breaker_inv (f b) \<and> state (f b) = breakerClosed \<and> fails (f b) = 0"
  by (auto simp: breaker_option_def breaker_inv_def WithBreakerThreshold_def WithBreakerCooldown_def split: if_splits)

lemma apply_breaker_options:
  "apply_opts i opts b = Inr b' \<Longrightarrow> \<forall>f \<in> set opts. \<forall>g. f = Some g \<longrightarrow> breaker_option g \<Longrightarrow>
   breaker_inv b \<Longrightarrow> state b = breakerClosed \<Longrightarrow> fails b = 0 \<Longrightarrow>
   breaker_inv b' \<and> state b' = breakerClosed \<and> fails b' = 0"
proof (induction i opts b rule: apply_opts.induct)
  case (3 i f opts b)
  then show ?case using breaker_option_inv [of f b] by auto
qed auto

lemma newBreaker_inv: "breaker_inv newBreaker \<and> state newBreaker = breakerClosed \<and> fails newBreaker = 0"
  by (simp add: breaker_inv_def newBreaker_def)

text \<open>
  C37. In every state a breaker reaches from its construction: closed means fewer consecutive
  failures than the threshold; open means that it admits nothing, no probe either, and that
  a timer is pending whose firing moves it to half-open, so it cannot stay open for good;
  half-open admits exactly one probe until an outcome is recorded; and the wake channel
  that waiters hold has not been closed before.
\<close>
theorem breaker_protocol:
  assumes "NewCircuitBreaker opts = Inr b0" and "\<forall>f \<in> set opts. \<forall>g. f = Some g \<longrightarrow> breaker_option g"
    and "breaker_reach b0 b"
  shows "(case state b of
       breakerClosed \<Rightarrow> fails b < threshold b \<and> Allow b \<and> snd (TryProbe b)
     | breakerOpen \<Rightarrow> \<not> Allow b \<and> TryProbe b = (b, False) \<and>
         (\<exists>d > 0. timer b = Some d) \<and> state (toHalfOpen b) = breakerHalfOpen
     | breakerHalfOpen \<Rightarrow> Allow b \<and> \<not> snd (TryProbe (fst (TryProbe b))) \<and> (snd (TryProbe b) \<longleftrightarrow> \<not> probeInFlight b)) \<and>
   HalfOpen b \<notin> wake_closed b \<and> (state b \<noteq> breakerHalfOpen \<longrightarrow> \<not> probeInFlight b)"
proof -
  have "breaker_inv b0"
    using assms(1,2) apply_breaker_options [of 0 opts newBreaker b0] newBreaker_inv
    by (auto simp: NewCircuitBreaker_def split: sum.splits)
  then have "breaker_inv b" by (rule breaker_inv_reach [OF assms(3)])
  then show ?thesis
    by (auto simp: Allow_def TryProbe_def toHalfOpen_def HalfOpen_def breaker_inv_def split: breakerState.splits)
qed

theorem breaker_protocol_witness:
  "TryProbe (Record False (newBreaker\<lparr>threshold := 1\<rparr>)) = (Record False (newBreaker\<lparr>threshold := 1\<rparr>), False)"
proof -
  let ?b = "newBreaker\<lparr>threshold := 1\<rparr>"
  have new: "NewCircuitBreaker [Some (WithBreakerThreshold 1)] = Inr ?b"
    by (simp add: NewCircuitBreaker_def WithBreakerThreshold_def)
  have opt: "\<forall>f \<in> set [Some (WithBreakerThreshold 1)]. \<forall>g. f = Some g \<longrightarrow> breaker_option g"
    by (auto simp: breaker_option_def)
  have r: "breaker_reach ?b (Record False ?b)" by (rule br_next [OF br_start br_record])
  have "state (Record False ?b) = breakerOpen" by (simp add: Record_def newBreaker_def openLocked_def)
  with breaker_protocol [OF new opt r] show ?thesis by simp
qed

lemma failures_counted:
  "state b = breakerClosed \<Longrightarrow> 0 \<le> fails b \<Longrightarrow> fails b + int k < threshold b \<Longrightarrow>
   (Record False ^^ k) b = b\<lparr>fails := fails b + int k\<rparr>"
proof (induction k)
  case (Suc k)
  then have "(Record False ^^ k) b = b\<lparr>fails := fails b + int k\<rparr>" by simp
  moreover have "Record False (b\<lparr>fails := fails b + int k\<rparr>) = b\<lparr>fails := fails b + int (Suc k)\<rparr>"
    using Suc.prems by (simp add: Record_def Let_def)
  ultimately show ?case by simp
qed simp

text \<open>
  The threshold is exact: a closed breaker with no failures counted stays closed through
  fewer consecutive failures than its threshold and is open, with its cooldown running, at
  the threshold itself; a success in between starts the count again.
\<close>
theorem breaker_opens_at_threshold:
  assumes "state b = breakerClosed" and "fails b = 0" and "threshold b = int (Suc n)"
  shows "(\<forall>k \<le> n. state ((Record False ^^ k) b) = breakerClosed) \<and>
     state ((Record False ^^ Suc n) b) = breakerOpen \<and> timer ((Record False ^^ Suc n) b) = Some (cooldown b) \<and>
     (\<forall>k \<le> n. fails (Record True ((Record False ^^ k) b)) = 0 \<and> state (Record True ((Record False ^^ k) b)) = breakerClosed)"
proof -
  have below: "(Record False ^^ k) b = b\<lparr>fails := int k\<rparr>" if "k \<le> n" for k
    using failures_counted [of b k] assms that by simp
  have "(Record False ^^ Suc n) b = Record False (b\<lparr>fails := int n\<rparr>)" using below [of n] by simp
  then show ?thesis using below assms by (simp add: Record_def openLocked_def Let_def)
qed

theorem breaker_opens_at_threshold_witness:
  "state ((Record False ^^ 5) newBreaker) = breakerOpen"
  using breaker_opens_at_threshold [of newBreaker 4] by (simp add: newBreaker_def eval_nat_numeral)

section \<open>Exponential backoff\<close>

record ExponentialBackoff =
  Initial :: duration
  Max :: duration
  Mult :: float64
  RandomizationFactor :: float64

fun float_gt :: "float64 \<Rightarrow> rat \<Rightarrow> bool" where
  "float_gt (Float64 r) c = (r > c)"
| "float_gt (Float64Inf neg) c = (\<not> neg)"
| "float_gt Float64NaN c = False"

fun float_ge :: "float64 \<Rightarrow> rat \<Rightarrow> bool" where
  "float_ge (Float64 r) c = (r \<ge> c)"
| "float_ge (Float64Inf neg) c = (\<not> neg)"
| "float_ge Float64NaN c = False"

fun float_lt :: "float64 \<Rightarrow> rat \<Rightarrow> bool" where
  "float_lt (Float64 r) c = (r < c)"
| "float_lt (Float64Inf neg) c = neg"
| "float_lt Float64NaN c = False"

fun float_le :: "float64 \<Rightarrow> rat \<Rightarrow> bool" where
  "float_le (Float64 r) c = (r \<le> c)"
| "float_le (Float64Inf neg) c = neg"
| "float_le Float64NaN c = False"

definition IsNaN :: "float64 \<Rightarrow> bool" where
  "IsNaN f \<longleftrightarrow> f = Float64NaN"

text \<open>\<^verbatim>\<open>float64(math.MaxInt64)\<close> rounds up to two to the power of 63.\<close>

abbreviation maxInt64_float :: rat where "maxInt64_float \<equiv> 9223372036854775808"

text \<open>\<open>spread d f\<close> is the value \<^verbatim>\<open>lo + rand.Float64()*(2*delta)\<close>; \<open>oor\<close> is the platform's result of an
  out-of-range conversion.\<close>

definition jitter :: "int \<Rightarrow> (duration \<Rightarrow> float64 \<Rightarrow> float64) \<Rightarrow> duration \<Rightarrow> float64 \<Rightarrow> duration" where
  "jitter oor spread d f =
     (let j = spread d f;
          j' = (if float_lt j 0 then Float64 0 else j)
      in if IsNaN j' \<or> float_ge j' maxInt64_float then MaxInt64 else float64_to_int oor j')"

text \<open>\<open>grow i m n\<close> is the value \<^verbatim>\<open>float64(i) * math.Pow(m, float64(n))\<close>.\<close>

definition Delay :: "int \<Rightarrow> (duration \<Rightarrow> float64 \<Rightarrow> int \<Rightarrow> float64) \<Rightarrow> (duration \<Rightarrow> float64 \<Rightarrow> float64)
    \<Rightarrow> ExponentialBackoff \<Rightarrow> int \<Rightarrow> duration" where
  "Delay oor grow spread b attempt =
     (let attempt' = (if attempt < 0 then 0 else attempt)
      in if Initial b \<le> 0 then 0
         else
           (let mult = (if float_le (Mult b) 0 then Float64 1 else Mult b);
                d = grow (Initial b) mult attempt'
            in if IsNaN d \<or> float_ge d maxInt64_float then (if Max b > 0 then Max b else Initial b)
               else
                 (let out = float64_to_int oor d;
                      out = (if Max b > 0 \<and> out > Max b then Max b else out)
                  in if float_gt (RandomizationFactor b) 0 then
                       (let out = jitter oor spread out (RandomizationFactor b)
                        in if Max b > 0 \<and> out > Max b then Max b else out)
                     else out)))"

lemma float64_to_int_in_range:
  assumes "\<not> IsNaN f" and "\<not> float_lt f 0" and "\<not> float_ge f maxInt64_float"
  shows "0 \<le> float64_to_int oor f \<and> float64_to_int oor f \<le> MaxInt64 \<and> (\<exists>r. f = Float64 r \<and> float64_to_int oor f = \<lfloor>r\<rfloor>)"
proof (cases f)
  case (Float64 r)
  then have r: "0 \<le> r" "r < maxInt64_float" using assms by auto
  then have "0 \<le> \<lfloor>r\<rfloor>" "\<lfloor>r\<rfloor> < 9223372036854775808" by (auto simp: floor_less_iff)
  then show ?thesis using Float64 r by (simp add: float64_to_int_def Prelude.truncate_def Let_def)
qed (use assms in \<open>auto simp: IsNaN_def\<close>)

lemma jitter_bounds: "0 \<le> jitter oor spread d f \<and> jitter oor spread d f \<le> MaxInt64"
proof (cases "float_lt (spread d f) 0")
  case True
  then show ?thesis by (simp add: jitter_def Let_def IsNaN_def float64_to_int_def Prelude.truncate_def)
next
  case False
  then show ?thesis using float64_to_int_in_range [of "spread d f" oor] by (auto simp: jitter_def Let_def)
qed

text \<open>
  A backoff delay is always usable: for every configuration in range, every attempt number
  and whatever the floating-point growth and jitter evaluate to (infinities and NaN
  included), as long as the growth of a positive delay is not negative, the delay lies
  between zero and the cap when one is set, and in any case within the range of a duration;
  no result depends on what the platform makes of an out-of-range conversion.
\<close>
theorem backoff_delay_bounds:
  assumes "Initial b \<le> MaxInt64" and "Max b \<le> MaxInt64"
    and "\<And>i m n. 0 < i \<Longrightarrow> \<not> float_lt (grow i m n) 0"
  shows "0 \<le> Delay oor grow spread b attempt \<and> Delay oor grow spread b attempt \<le> MaxInt64 \<and>
     (0 < Max b \<longrightarrow> Delay oor grow spread b attempt \<le> Max b) \<and>
     Delay oor grow spread b attempt = Delay oor' grow spread b attempt"
proof (cases "Initial b \<le> 0")
  case True
  then show ?thesis by (simp add: Delay_def Let_def)
next
  case False
  let ?d = "grow (Initial b) (if float_le (Mult b) 0 then Float64 1 else Mult b) (if attempt < 0 then 0 else attempt)"
  show ?thesis
  proof (cases "IsNaN ?d \<or> float_ge ?d maxInt64_float")
    case True
    with False assms(1,2) show ?thesis by (simp add: Delay_def Let_def)
  next
    case small: False
    then have rng: "0 \<le> float64_to_int x ?d \<and> float64_to_int x ?d \<le> MaxInt64" for x
      using float64_to_int_in_range [of ?d x] assms(3) False by auto
    have same: "float64_to_int oor ?d = float64_to_int oor' ?d"
      using float64_to_int_in_range [of ?d oor] float64_to_int_in_range [of ?d oor'] assms(3) False small by auto
    have jsame: "jitter oor spread d f = jitter oor' spread d f" for d f
    proof (cases "float_lt (spread d f) 0")
      case True
      then show ?thesis by (simp add: jitter_def Let_def float64_to_int_def Prelude.truncate_def)
    next
      case False
      then show ?thesis
        using float64_to_int_in_range [of "spread d f" oor] float64_to_int_in_range [of "spread d f" oor']
        by (auto simp: jitter_def Let_def)
    qed
    show ?thesis
      using False small rng [of oor] jitter_bounds [of oor spread] assms(2)
      by (auto simp: Delay_def Let_def same jsame)
  qed
qed

theorem backoff_delay_bounds_witness:
  "Delay 0 (\<lambda>i m n. Float64Inf False) (\<lambda>d f. Float64NaN)
     \<lparr>Initial = Second, Max = Minute, Mult = Float64 2, RandomizationFactor = Float64 1\<rparr> 70 \<le> Minute"
  using backoff_delay_bounds [of "\<lparr>Initial = Second, Max = Minute, Mult = Float64 2, RandomizationFactor = Float64 1\<rparr>"
      "\<lambda>i m n. Float64Inf False" 0 "\<lambda>d f. Float64NaN" 70 0] by simp

end
