(* ===== verification/Http_Config.thy ===== *)
theory Http_Config
  imports Message
begin

text \<open>
  The settings of the HTTP adapters (\<^verbatim>\<open>adapter/http/options.go\<close>, \<^verbatim>\<open>adapter/http/helpers.go\<close>),
  and the parts of \<^verbatim>\<open>net/http\<close> the adapters share: header maps with canonical keys, bodies
  that end or fail, requests and responses. \<open>Config\<close> keeps one field per field of the
  struct. A callback of the caller is a program over the world; a nil callback, clock or
  logger is \<open>None\<close>. The lemmas: which option lists \<open>NewConfig\<close> accepts, that what it
  returns is within every documented range, and that the accessors give a value in range
  for every config, a hand-built one included.
\<close>

section \<open>Header maps\<close>

text \<open>
  \<^verbatim>\<open>textproto.CanonicalMIMEHeaderKey\<close>: a key made of token bytes gets an upper-case letter at
  its start and after each hyphen and lower-case letters elsewhere; any other key is kept.
\<close>

definition is_upper :: "char \<Rightarrow> bool" where
  "is_upper c \<longleftrightarrow> 65 \<le> (of_char c :: nat) \<and> (of_char c :: nat) \<le> 90"

definition is_lower :: "char \<Rightarrow> bool" where
  "is_lower c \<longleftrightarrow> 97 \<le> (of_char c :: nat) \<and> (of_char c :: nat) \<le> 122"

definition is_digit :: "char \<Rightarrow> bool" where
  "is_digit c \<longleftrightarrow> 48 \<le> (of_char c :: nat) \<and> (of_char c :: nat) \<le> 57"

definition to_lower :: "char \<Rightarrow> char" where
  "to_lower c = (if is_upper c then char_of ((of_char c :: nat) + 32) else c)"

definition to_upper :: "char \<Rightarrow> char" where
  "to_upper c = (if is_lower c then char_of ((of_char c :: nat) - 32) else c)"

definition validHeaderFieldByte :: "char \<Rightarrow> bool" where
  "validHeaderFieldByte c \<longleftrightarrow>
     is_upper c \<or> is_lower c \<or> is_digit c \<or> c \<in> set ''!#$%&*+-.^_|~'' \<or> c = char_of (39::nat) \<or> c = char_of (96::nat)"

fun canonical_from :: "bool \<Rightarrow> string \<Rightarrow> string" where
  "canonical_from up [] = []"
| "canonical_from up (c # cs) =
     (if up then to_upper c else to_lower c) # canonical_from (c = CHR ''-'') cs"

definition CanonicalHeaderKey :: "string \<Rightarrow> string" where
  "CanonicalHeaderKey k = (if list_all validHeaderFieldByte k then canonical_from True k else k)"

type_synonym HttpHeader = "string \<rightharpoonup> string list"

definition hdr_get :: "HttpHeader \<Rightarrow> string \<Rightarrow> string" where
  "hdr_get h k = (case h (CanonicalHeaderKey k) of Some (v # vs) \<Rightarrow> v | _ \<Rightarrow> '''')"

definition hdr_set :: "HttpHeader \<Rightarrow> string \<Rightarrow> string \<Rightarrow> HttpHeader" where
  "hdr_set h k v = h(CanonicalHeaderKey k \<mapsto> [v])"

definition hdr_add :: "HttpHeader \<Rightarrow> string \<Rightarrow> string \<Rightarrow> HttpHeader" where
  "hdr_add h k v =
     h(CanonicalHeaderKey k \<mapsto> (case h (CanonicalHeaderKey k) of None \<Rightarrow> [] | Some vs \<Rightarrow> vs) @ [v])"

text \<open>
  \<^verbatim>\<open>strings.HasPrefix(strings.ToLower(k), p)\<close> for an ASCII lower-case \<open>p\<close>, over the UTF-8 bytes
  of \<open>k\<close>. Two runes outside ASCII have an ASCII lower case: U+0130 (bytes C4 B0), whose lower
  case is \<open>i\<close>, and U+212A (bytes E2 84 AA), whose lower case is \<open>k\<close>.
\<close>

fun has_prefix_lower :: "string \<Rightarrow> string \<Rightarrow> bool" where
  "has_prefix_lower [] s = True"
| "has_prefix_lower (p # ps) [] = False"
| "has_prefix_lower (p # ps) (c # s) =
     (if (of_char c :: nat) < 128 then to_lower c = p \<and> has_prefix_lower ps s
      else if p = CHR ''i'' \<and> c = CHR 0xC4 \<and> take 1 s = [CHR 0xB0] then has_prefix_lower ps (List.drop 1 s)
      else if p = CHR ''k'' \<and> c = CHR 0xE2 \<and> take 2 s = [CHR 0x84, CHR 0xAA] then has_prefix_lower ps (List.drop 2 s)
      else False)"

abbreviation reservedHeaderPrefix :: string where "reservedHeaderPrefix \<equiv> ''msgin.''"

text \<open>
  \<^verbatim>\<open>strings.EqualFold(s, t)\<close> for an ASCII \<open>t\<close>: U+017F (bytes C5 BF) folds with \<open>s\<close> and U+212A with \<open>k\<close>.
\<close>

fun equal_fold :: "string \<Rightarrow> string \<Rightarrow> bool" where
  "equal_fold [] t = (t = [])"
| "equal_fold (c # s) [] = False"
| "equal_fold (c # s) (d # t) =
     (if (of_char c :: nat) < 128 then to_lower c = to_lower d \<and> equal_fold s t
      else if to_lower d = CHR ''s'' \<and> c = CHR 0xC5 \<and> take 1 s = [CHR 0xBF] then equal_fold (List.drop 1 s) t
      else if to_lower d = CHR ''k'' \<and> c = CHR 0xE2 \<and> take 2 s = [CHR 0x84, CHR 0xAA] then equal_fold (List.drop 2 s) t
      else False)"

text \<open>
  \<^verbatim>\<open>strings.TrimSpace\<close>: the white space runes by their UTF-8 bytes (ASCII, U+0085, U+00A0, U+1680,
  U+2000 to U+200A, U+2028, U+2029, U+202F, U+205F, U+3000).
\<close>

definition space_runes :: "string list" where
  "space_runes =
     map (\<lambda>n. [char_of (n :: nat)]) [9, 10, 11, 12, 13, 32]
     @ [[CHR 0xC2, CHR 0x85], [CHR 0xC2, CHR 0xA0], [CHR 0xE1, CHR 0x9A, CHR 0x80]]
     @ map (\<lambda>n. [CHR 0xE2, CHR 0x80, char_of (128 + n :: nat)]) [0..<11]
     @ [[CHR 0xE2, CHR 0x80, CHR 0xA8], [CHR 0xE2, CHR 0x80, CHR 0xA9], [CHR 0xE2, CHR 0x80, CHR 0xAF],
        [CHR 0xE2, CHR 0x81, CHR 0x9F], [CHR 0xE3, CHR 0x80, CHR 0x80]]"

definition leading :: "string list \<Rightarrow> string \<Rightarrow> string option" where
  "leading rs s = find (\<lambda>r. r \<noteq> [] \<and> take (length r) s = r) rs"

lemma leading_Some: "leading rs s = Some r \<Longrightarrow> r \<noteq> [] \<and> take (length r) s = r"
  by (auto simp: leading_def find_Some_iff)

function trim_left :: "string list \<Rightarrow> string \<Rightarrow> string" where
  "trim_left rs s = (case leading rs s of None \<Rightarrow> s | Some r \<Rightarrow> trim_left rs (List.drop (length r) s))"
  by pat_completeness auto

termination trim_left
proof (relation "measure (\<lambda>(rs, s). length s)")
  fix rs s r
  assume "leading rs s = Some r"
  then have "r \<noteq> []" "take (length r) s = r" using leading_Some by auto
  then show "((rs, List.drop (length r) s), rs, s) \<in> measure (\<lambda>(rs, s). length s)"
    by (cases s; cases r) auto
qed simp

declare trim_left.simps [simp del]

definition trim_space :: "string \<Rightarrow> string" where
  "trim_space s = rev (trim_left (map rev space_runes) (rev (trim_left space_runes s)))"

section \<open>Bodies, requests, responses\<close>

text \<open>
  An \<open>io.Reader\<close> as what it delivers: its bytes, then the end of the stream (\<open>None\<close>) or an error.
\<close>

record body =
  b_bytes :: string
  b_end :: "err option"

abbreviation NoBody :: body where "NoBody \<equiv> \<lparr>b_bytes = '''', b_end = None\<rparr>"

abbreviation io_EOF :: err where "io_EOF \<equiv> Foreign ''io.EOF'' 0"
abbreviation io_ErrUnexpectedEOF :: err where "io_ErrUnexpectedEOF \<equiv> Foreign ''io.ErrUnexpectedEOF'' 0"
abbreviation MaxBytesError :: "int \<Rightarrow> err" where "MaxBytesError n \<equiv> Foreign ''*http.MaxBytesError'' (nat n)"

definition io_ReadAll :: "body \<Rightarrow> string \<times> err option" where
  "io_ReadAll b = (b_bytes b, b_end b)"

text \<open>\<^verbatim>\<open>io.LimitReader\<close> ends the stream after \<open>n\<close> bytes; \<^verbatim>\<open>http.MaxBytesReader\<close> fails there instead.\<close>

definition LimitReader :: "body \<Rightarrow> int \<Rightarrow> body" where
  "LimitReader b n =
     (if int (length (b_bytes b)) < n then b else \<lparr>b_bytes = take (nat n) (b_bytes b), b_end = None\<rparr>)"

definition MaxBytesReader :: "body \<Rightarrow> int \<Rightarrow> body" where
  "MaxBytesReader b n =
     (if int (length (b_bytes b)) \<le> n then b
      else \<lparr>b_bytes = take (nat n) (b_bytes b), b_end = Some (MaxBytesError n)\<rparr>)"

record httpRequest =
  rq_Method :: string
  rq_Path :: string
  rq_RawQuery :: string
  rq_Header :: HttpHeader
  rq_Body :: "body option"
  rq_RemoteAddr :: string

record httpResponse =
  rs_StatusCode :: int
  rs_Header :: HttpHeader
  rs_Body :: "body option"

text \<open>
  The parts of an \<open>http.Client\<close> the adapters read or replace: its timeout, its redirect policy
  (\<open>UseLastResponse\<close> is the one they install) and the identity of its transport.
\<close>

datatype redirectPolicy = UseLastResponse | CallerPolicy nat

record httpClient =
  hc_Timeout :: duration
  hc_CheckRedirect :: "redirectPolicy option"
  hc_Transport :: nat

section \<open>Config and options\<close>

datatype SlowClientPolicy = SlowClientDrop | SlowClientDisconnect | SlowClientOther int

abbreviation defaultMaxBodyBytes :: int where "defaultMaxBodyBytes \<equiv> 1048576"
abbreviation defaultMaxResponseBytes :: int where "defaultMaxResponseBytes \<equiv> 1048576"
abbreviation defaultMaxEventBytes :: int where "defaultMaxEventBytes \<equiv> 1048576"
abbreviation byteCapCeiling :: int where "byteCapCeiling \<equiv> 2147483647"
abbreviation defaultMaxConnections :: int where "defaultMaxConnections \<equiv> 1024"
abbreviation maxConnectionsCeiling :: int where "maxConnectionsCeiling \<equiv> 65536"
abbreviation defaultConnectionBuffer :: int where "defaultConnectionBuffer \<equiv> 16"
abbreviation maxConnBufferCeiling :: int where "maxConnBufferCeiling \<equiv> 65536"
abbreviation replayBufferCeiling :: int where "replayBufferCeiling \<equiv> 65536"
abbreviation defaultWriteTimeout :: duration where "defaultWriteTimeout \<equiv> 30 * Second"
abbreviation defaultHTTPClientTimeout :: duration where "defaultHTTPClientTimeout \<equiv> 30 * Second"
abbreviation defaultReconnectMin :: duration where "defaultReconnectMin \<equiv> 500 * Millisecond"
abbreviation defaultReconnectMax :: duration where "defaultReconnectMax \<equiv> 30 * Second"
abbreviation errorBodyExcerptMax :: int where "errorBodyExcerptMax \<equiv> 256"

record 's Config =
  maxBodyBytes :: int
  maxBodyBytesSet :: bool
  successStatus :: int
  successStatusSet :: bool
  correlationID :: "(httpRequest \<Rightarrow> ('s, string) prog) option"
  trustedCorrelation :: "(httpRequest \<Rightarrow> ('s, string) prog) option"
  requestHeaders :: "string list"
  responseHeaders :: "string list"
  errorStatus :: "(err \<Rightarrow> ('s, int) prog) option"
  logger :: "nat option"
  httpClient :: "httpClient option"
  followRedirects :: bool
  outboundHeaders :: "string list"
  replyHeaders :: "string list"
  maxResponseBytes :: int
  maxResponseBytesSet :: bool
  clock :: "('s \<Rightarrow> time) option"
  errorBodyExcerpt :: bool
  eventName :: string
  eventNameSet :: bool
  maxEventBytes :: int
  maxEventBytesSet :: bool
  maxConnections :: int
  maxConnectionsSet :: bool
  connectionBuffer :: int
  connectionBufferSet :: bool
  slowClientPolicy :: SlowClientPolicy
  slowClientPolicySet :: bool
  replayBuffer :: int
  replayBufferSet :: bool
  heartbeat :: duration
  heartbeatSet :: bool
  writeTimeout :: duration
  writeTimeoutSet :: bool
  sseClock :: "('s \<Rightarrow> time) option"
  httpClientSet :: bool
  connectHeaders :: "HttpHeader option"
  reconnectMin :: duration
  reconnectMax :: duration
  reconnectBackoffSet :: bool
  readTimeout :: duration
  readTimeoutSet :: bool

definition zeroConfig :: "'s Config" where
  "zeroConfig =
     \<lparr>maxBodyBytes = 0, maxBodyBytesSet = False, successStatus = 0, successStatusSet = False,
      correlationID = None, trustedCorrelation = None, requestHeaders = [], responseHeaders = [],
      errorStatus = None, logger = None, httpClient = None, followRedirects = False,
      outboundHeaders = [], replyHeaders = [], maxResponseBytes = 0, maxResponseBytesSet = False,
      clock = None, errorBodyExcerpt = False, eventName = '''', eventNameSet = False,
      maxEventBytes = 0, maxEventBytesSet = False, maxConnections = 0, maxConnectionsSet = False,
      connectionBuffer = 0, connectionBufferSet = False, slowClientPolicy = SlowClientDrop,
      slowClientPolicySet = False, replayBuffer = 0, replayBufferSet = False, heartbeat = 0,
      heartbeatSet = False, writeTimeout = 0, writeTimeoutSet = False, sseClock = None,
      httpClientSet = False, connectHeaders = None, reconnectMin = 0, reconnectMax = 0,
      reconnectBackoffSet = False, readTimeout = 0, readTimeoutSet = False\<rparr>"

type_synonym 's Option = "('s Config \<Rightarrow> 's Config) option"

section \<open>Error statuses\<close>

text \<open>\<^verbatim>\<open>errors.As\<close> with a \<^verbatim>\<open>*http.MaxBytesError\<close> target.\<close>

definition as_MaxBytesError :: "err \<Rightarrow> bool" where
  "as_MaxBytesError e \<longleftrightarrow>
     list_ex (\<lambda>x. case x of Foreign t n \<Rightarrow> t = ''*http.MaxBytesError'' | _ \<Rightarrow> False) (err_tree e)"

definition DefaultErrorStatus :: "err \<Rightarrow> int" where
  "DefaultErrorStatus e =
     (if errors_Is e ErrReplyTimeout then 504
      else if errors_Is e ErrGatewayClosed then 503
      else if errors_Is e ErrDuplicateCorrelation then 409
      else if errors_Is e ErrNoCorrelation \<or> errors_Is e (MsgHttp ErrUnsupportedPayload)
              \<or> errors_Is e (MsgHttp ErrWriteResponse) then 500
      else if as_MaxBytesError e then 413
      else if errors_Is e (MsgHttp ErrDecodeRequest) then 400
      else 500)"

section \<open>Accessors\<close>

text \<open>A nil \<^verbatim>\<open>*Config\<close> is \<open>None\<close>; the accessors of the streaming server take a config only.\<close>

definition maxBody :: "'s Config option \<Rightarrow> int" where
  "maxBody c = (case c of None \<Rightarrow> defaultMaxBodyBytes
      | Some c \<Rightarrow> if maxBodyBytes c \<le> 0 then defaultMaxBodyBytes else maxBodyBytes c)"

definition successStatusOrDefault :: "'s Config option \<Rightarrow> int" where
  "successStatusOrDefault c = (case c of None \<Rightarrow> 202
      | Some c \<Rightarrow> if successStatus c < 100 \<or> successStatus c > 599 then 202 else successStatus c)"

definition errStatus :: "'s Config option \<Rightarrow> err \<Rightarrow> ('s, int) prog" where
  "errStatus c =
     (case Option.bind c errorStatus of
        None \<Rightarrow> (\<lambda>e. returnP (DefaultErrorStatus e))
      | Some f \<Rightarrow> f)"

definition advisoryCorrelationID :: "'s Config option \<Rightarrow> (httpRequest \<Rightarrow> ('s, string) prog) option" where
  "advisoryCorrelationID c = Option.bind c correlationID"

definition trustedCorrelationID :: "'s Config option \<Rightarrow> (httpRequest \<Rightarrow> ('s, string) prog) option" where
  "trustedCorrelationID c = Option.bind c trustedCorrelation"

definition allowedRequestHeaders :: "'s Config option \<Rightarrow> string list" where
  "allowedRequestHeaders c = (case c of None \<Rightarrow> [] | Some c \<Rightarrow> requestHeaders c)"

definition allowedResponseHeaders :: "'s Config option \<Rightarrow> string list" where
  "allowedResponseHeaders c = (case c of None \<Rightarrow> [] | Some c \<Rightarrow> responseHeaders c)"

definition allowedOutboundHeaders :: "'s Config option \<Rightarrow> string list" where
  "allowedOutboundHeaders c = (case c of None \<Rightarrow> [] | Some c \<Rightarrow> outboundHeaders c)"

definition allowedReplyHeaders :: "'s Config \<Rightarrow> string list" where
  "allowedReplyHeaders c = replyHeaders c"

definition clockOrDefault :: "('s \<Rightarrow> time) \<Rightarrow> 's Config option \<Rightarrow> 's \<Rightarrow> time" where
  "clockOrDefault wall c = (case Option.bind c clock of None \<Rightarrow> wall | Some k \<Rightarrow> k)"

definition errorBodyExcerptEnabled :: "'s Config option \<Rightarrow> bool" where
  "errorBodyExcerptEnabled c = (case c of None \<Rightarrow> False | Some c \<Rightarrow> errorBodyExcerpt c)"

definition eventNameOrDefault :: "'s Config option \<Rightarrow> string" where
  "eventNameOrDefault c = (case c of None \<Rightarrow> '''' | Some c \<Rightarrow> eventName c)"

definition maxConns :: "'s Config \<Rightarrow> int" where "maxConns c = maxConnections c"
definition connBuffer :: "'s Config \<Rightarrow> int" where "connBuffer c = connectionBuffer c"
definition heartbeatInterval :: "'s Config \<Rightarrow> duration" where "heartbeatInterval c = heartbeat c"
definition slowPolicy :: "'s Config \<Rightarrow> SlowClientPolicy" where "slowPolicy c = slowClientPolicy c"
definition replaySize :: "'s Config \<Rightarrow> int" where "replaySize c = replayBuffer c"

section \<open>Options\<close>

definition WithMaxBodyBytes :: "int \<Rightarrow> 's Option" where
  "WithMaxBodyBytes n = Some (\<lambda>c. c\<lparr>maxBodyBytes := n, maxBodyBytesSet := True\<rparr>)"

definition WithAdvisoryCorrelationID :: "(httpRequest \<Rightarrow> ('s, string) prog) option \<Rightarrow> 's Option" where
  "WithAdvisoryCorrelationID f = Some (\<lambda>c. if f \<noteq> None then c\<lparr>correlationID := f\<rparr> else c)"

definition WithTrustedCorrelationID :: "(httpRequest \<Rightarrow> ('s, string) prog) option \<Rightarrow> 's Option" where
  "WithTrustedCorrelationID f = Some (\<lambda>c. if f \<noteq> None then c\<lparr>trustedCorrelation := f\<rparr> else c)"

definition WithRequestHeaders :: "string list \<Rightarrow> 's Option" where
  "WithRequestHeaders hs = Some (\<lambda>c. c\<lparr>requestHeaders := hs\<rparr>)"

definition WithResponseHeaders :: "string list \<Rightarrow> 's Option" where
  "WithResponseHeaders hs = Some (\<lambda>c. c\<lparr>responseHeaders := hs\<rparr>)"

definition WithSuccessStatus :: "int \<Rightarrow> 's Option" where
  "WithSuccessStatus code = Some (\<lambda>c. c\<lparr>successStatus := code, successStatusSet := True\<rparr>)"

definition WithErrorStatus :: "(err \<Rightarrow> ('s, int) prog) option \<Rightarrow> 's Option" where
  "WithErrorStatus f = Some (\<lambda>c. if f \<noteq> None then c\<lparr>errorStatus := f\<rparr> else c)"

definition WithLogger :: "nat option \<Rightarrow> 's Option" where
  "WithLogger l = Some (\<lambda>c. if l \<noteq> None then c\<lparr>logger := l\<rparr> else c)"

definition WithHTTPClient :: "httpClient option \<Rightarrow> 's Option" where
  "WithHTTPClient k = Some (\<lambda>c. if k \<noteq> None then c\<lparr>httpClient := k, httpClientSet := True\<rparr> else c)"

definition WithFollowRedirects :: "'s Option" where
  "WithFollowRedirects = Some (\<lambda>c. c\<lparr>followRedirects := True\<rparr>)"

definition WithOutboundHeaders :: "string list \<Rightarrow> 's Option" where
  "WithOutboundHeaders hs = Some (\<lambda>c. c\<lparr>outboundHeaders := hs\<rparr>)"

definition WithOutboundReplyHeaders :: "string list \<Rightarrow> 's Option" where
  "WithOutboundReplyHeaders hs = Some (\<lambda>c. c\<lparr>replyHeaders := hs\<rparr>)"

definition WithMaxResponseBytes :: "int \<Rightarrow> 's Option" where
  "WithMaxResponseBytes n = Some (\<lambda>c. c\<lparr>maxResponseBytes := n, maxResponseBytesSet := True\<rparr>)"

definition WithOutboundClock :: "('s \<Rightarrow> time) option \<Rightarrow> 's Option" where
  "WithOutboundClock k = Some (\<lambda>c. if k \<noteq> None then c\<lparr>clock := k\<rparr> else c)"

definition WithErrorBodyExcerpt :: "'s Option" where
  "WithErrorBodyExcerpt = Some (\<lambda>c. c\<lparr>errorBodyExcerpt := True\<rparr>)"

definition WithEventName :: "string \<Rightarrow> 's Option" where
  "WithEventName n = Some (\<lambda>c. c\<lparr>eventName := n, eventNameSet := True\<rparr>)"

definition WithMaxEventBytes :: "int \<Rightarrow> 's Option" where
  "WithMaxEventBytes n = Some (\<lambda>c. c\<lparr>maxEventBytes := n, maxEventBytesSet := True\<rparr>)"

definition WithMaxConnections :: "int \<Rightarrow> 's Option" where
  "WithMaxConnections n = Some (\<lambda>c. c\<lparr>maxConnections := n, maxConnectionsSet := True\<rparr>)"

definition WithConnectionBuffer :: "int \<Rightarrow> 's Option" where
  "WithConnectionBuffer n = Some (\<lambda>c. c\<lparr>connectionBuffer := n, connectionBufferSet := True\<rparr>)"

definition WithSlowClientPolicy :: "SlowClientPolicy \<Rightarrow> 's Option" where
  "WithSlowClientPolicy p = Some (\<lambda>c. c\<lparr>slowClientPolicy := p, slowClientPolicySet := True\<rparr>)"

definition WithReplayBuffer :: "int \<Rightarrow> 's Option" where
  "WithReplayBuffer n = Some (\<lambda>c. c\<lparr>replayBuffer := n, replayBufferSet := True\<rparr>)"

definition WithHeartbeat :: "duration \<Rightarrow> 's Option" where
  "WithHeartbeat d = Some (\<lambda>c. c\<lparr>heartbeat := d, heartbeatSet := True\<rparr>)"

definition WithWriteTimeout :: "duration \<Rightarrow> 's Option" where
  "WithWriteTimeout d = Some (\<lambda>c. c\<lparr>writeTimeout := d, writeTimeoutSet := True\<rparr>)"

definition WithSSEClock :: "('s \<Rightarrow> time) option \<Rightarrow> 's Option" where
  "WithSSEClock k = Some (\<lambda>c. if k \<noteq> None then c\<lparr>sseClock := k\<rparr> else c)"

definition reservedConnectHeaderNames :: "string list" where
  "reservedConnectHeaderNames = [''Accept'', ''Cache-Control'', ''Last-Event-ID'']"

definition WithConnectHeaders :: "HttpHeader option \<Rightarrow> 's Option" where
  "WithConnectHeaders h =
     Some (\<lambda>c. case h of
         None \<Rightarrow> c
       | Some m \<Rightarrow> c\<lparr>connectHeaders := Some (\<lambda>name.
           if list_ex (equal_fold name) reservedConnectHeaderNames then None else m name)\<rparr>)"

definition WithReconnectBackoff :: "duration \<Rightarrow> duration \<Rightarrow> 's Option" where
  "WithReconnectBackoff mn mx =
     Some (\<lambda>c. c\<lparr>reconnectMin := mn, reconnectMax := mx, reconnectBackoffSet := True\<rparr>)"

definition WithReadTimeout :: "duration \<Rightarrow> 's Option" where
  "WithReadTimeout d = Some (\<lambda>c. c\<lparr>readTimeout := d, readTimeoutSet := True\<rparr>)"

section \<open>NewConfig\<close>

definition validSSEField :: "string \<Rightarrow> bool" where
  "validSSEField s \<longleftrightarrow> \<not> list_ex (\<lambda>c. c \<in> {CHR 0x0D, CHR 0x0A, CHR 0x00}) s"

text \<open>
  The value checks of \<open>NewConfig\<close>, in the order of the code. Each step either reports an error
  or back-fills the default of an option left unset; \<open>wall\<close> is the real clock, and the
  discarding logger is the logger 0.
\<close>

definition http_err :: "http_sentinel \<Rightarrow> err" where
  "http_err s = Sentinel (MsgHttp s)"

definition check_body :: "'s Config \<Rightarrow> err + 's Config" where
  "check_body c =
     (case (if \<not> maxBodyBytesSet c then None
            else checkRange (http_err ErrInvalidMaxBodyBytes) ''msghttp.WithMaxBodyBytes'' (maxBodyBytes c) 1 byteCapCeiling)
      of Some e \<Rightarrow> Inl e | None \<Rightarrow>
      let c = (if maxBodyBytesSet c then c else c\<lparr>maxBodyBytes := defaultMaxBodyBytes\<rparr>) in
      if successStatusSet c \<and> (successStatus c < 100 \<or> successStatus c > 599)
      then Inl (http_err ErrInvalidStatusCode)
      else Inr (if successStatusSet c then c else c\<lparr>successStatus := 202\<rparr>))"

definition check_events :: "'s Config \<Rightarrow> err + 's Config" where
  "check_events c =
     (case (if \<not> maxResponseBytesSet c then None
            else checkRange (http_err ErrInvalidMaxResponseBytes) ''msghttp.WithMaxResponseBytes'' (maxResponseBytes c) 1 byteCapCeiling)
      of Some e \<Rightarrow> Inl e | None \<Rightarrow>
      let c = (if maxResponseBytesSet c then c else c\<lparr>maxResponseBytes := defaultMaxResponseBytes\<rparr>) in
      if eventNameSet c \<and> \<not> validSSEField (eventName c) then Inl (http_err ErrInvalidEventField)
      else case (if \<not> maxEventBytesSet c then None
                 else checkRange (http_err ErrInvalidMaxEventBytes) ''msghttp.WithMaxEventBytes'' (maxEventBytes c) 1 byteCapCeiling)
           of Some e \<Rightarrow> Inl e | None \<Rightarrow>
           Inr (if maxEventBytesSet c then c else c\<lparr>maxEventBytes := defaultMaxEventBytes\<rparr>))"

definition check_conns :: "'s Config \<Rightarrow> err + 's Config" where
  "check_conns c =
     (case (if \<not> maxConnectionsSet c then None
            else checkRange (http_err ErrInvalidMaxConnections) ''msghttp.WithMaxConnections'' (maxConnections c) 1 maxConnectionsCeiling)
      of Some e \<Rightarrow> Inl e | None \<Rightarrow>
      let c = (if maxConnectionsSet c then c else c\<lparr>maxConnections := defaultMaxConnections\<rparr>) in
      case (if \<not> connectionBufferSet c then None
            else checkRange (http_err ErrInvalidConnectionBuffer) ''msghttp.WithConnectionBuffer'' (connectionBuffer c) 1 maxConnBufferCeiling)
      of Some e \<Rightarrow> Inl e | None \<Rightarrow>
      let c = (if connectionBufferSet c then c else c\<lparr>connectionBuffer := defaultConnectionBuffer\<rparr>) in
      if slowClientPolicySet c \<and> slowClientPolicy c \<noteq> SlowClientDrop \<and> slowClientPolicy c \<noteq> SlowClientDisconnect
      then Inl (http_err ErrInvalidSlowClientPolicy)
      else Inr (if slowClientPolicySet c then c else c\<lparr>slowClientPolicy := SlowClientDrop\<rparr>))"

definition check_timing :: "'s Config \<Rightarrow> err + 's Config" where
  "check_timing c =
     (case (if \<not> replayBufferSet c then None
            else checkRange (http_err ErrInvalidReplayBuffer) ''msghttp.WithReplayBuffer'' (replayBuffer c) 1 replayBufferCeiling)
      of Some e \<Rightarrow> Inl e | None \<Rightarrow>
      if heartbeatSet c \<and> heartbeat c \<le> 0 then Inl (http_err ErrInvalidHeartbeat)
      else if writeTimeoutSet c \<and> writeTimeout c \<le> 0 then Inl (http_err ErrInvalidWriteTimeout)
      else Inr (if writeTimeoutSet c then c else c\<lparr>writeTimeout := defaultWriteTimeout\<rparr>))"

definition fill_client :: "('s \<Rightarrow> time) \<Rightarrow> 's Config \<Rightarrow> 's Config" where
  "fill_client wall c =
     (let c = (if httpClient c = None
               then c\<lparr>httpClient := Some \<lparr>hc_Timeout = defaultHTTPClientTimeout, hc_CheckRedirect = None, hc_Transport = 0\<rparr>\<rparr>
               else c);
          c = (if clock c = None then c\<lparr>clock := Some wall\<rparr> else c);
          c = (if errorStatus c = None then c\<lparr>errorStatus := Some (\<lambda>e. returnP (DefaultErrorStatus e))\<rparr> else c)
      in if logger c = None then c\<lparr>logger := Some 0\<rparr> else c)"

definition check_client :: "('s \<Rightarrow> time) \<Rightarrow> 's Config \<Rightarrow> err + 's Config" where
  "check_client wall c =
     (let c = (if sseClock c = None then c\<lparr>sseClock := Some wall\<rparr> else c) in
      if reconnectBackoffSet c \<and> (reconnectMin c \<le> 0 \<or> reconnectMax c < reconnectMin c)
      then Inl (http_err ErrInvalidReconnectBackoff)
      else let c = (if reconnectBackoffSet c then c
                    else c\<lparr>reconnectMin := defaultReconnectMin, reconnectMax := defaultReconnectMax\<rparr>) in
      if readTimeoutSet c \<and> readTimeout c \<le> 0 then Inl (http_err ErrInvalidReadTimeout)
      else Inr (fill_client wall c))"

definition NewConfig :: "('s \<Rightarrow> time) \<Rightarrow> 's Option list \<Rightarrow> err + 's Config" where
  "NewConfig wall opts =
     (case apply_opts 0 opts zeroConfig of
        Inl i \<Rightarrow> Inl (nilOptionAt ''msghttp.NewConfig'' i)
      | Inr c \<Rightarrow>
          (case check_body c of Inl e \<Rightarrow> Inl e | Inr c \<Rightarrow>
           case check_events c of Inl e \<Rightarrow> Inl e | Inr c \<Rightarrow>
           case check_conns c of Inl e \<Rightarrow> Inl e | Inr c \<Rightarrow>
           case check_timing c of Inl e \<Rightarrow> Inl e | Inr c \<Rightarrow> check_client wall c))"

text \<open>The pre-check of the five constructors that forward to \<open>NewConfig\<close>, under the caller's name.\<close>

definition delegate_config :: "string \<Rightarrow> ('s \<Rightarrow> time) \<Rightarrow> 's Option list \<Rightarrow> err + 's Config" where
  "delegate_config ctor wall opts =
     (case nil_option 0 opts of
        Some i \<Rightarrow> Inl (nilOptionAt ctor i)
      | None \<Rightarrow> NewConfig wall opts)"

section \<open>What NewConfig accepts\<close>

text \<open>The options applied in order, and the explicit values that are out of range, in the order they are checked.\<close>

definition applied :: "'s Option list \<Rightarrow> 's Config" where
  "applied opts = foldl (\<lambda>c f. the f c) zeroConfig opts"

definition in_range :: "int \<Rightarrow> int \<Rightarrow> int \<Rightarrow> bool" where
  "in_range lo hi n \<longleftrightarrow> lo \<le> n \<and> n \<le> hi"

definition body_violations :: "'s Config \<Rightarrow> http_sentinel list" where
  "body_violations c =
     (if maxBodyBytesSet c \<and> \<not> in_range 1 byteCapCeiling (maxBodyBytes c) then [ErrInvalidMaxBodyBytes] else [])
     @ (if successStatusSet c \<and> \<not> in_range 100 599 (successStatus c) then [ErrInvalidStatusCode] else [])"

definition event_violations :: "'s Config \<Rightarrow> http_sentinel list" where
  "event_violations c =
     (if maxResponseBytesSet c \<and> \<not> in_range 1 byteCapCeiling (maxResponseBytes c) then [ErrInvalidMaxResponseBytes] else [])
     @ (if eventNameSet c \<and> \<not> validSSEField (eventName c) then [ErrInvalidEventField] else [])
     @ (if maxEventBytesSet c \<and> \<not> in_range 1 byteCapCeiling (maxEventBytes c) then [ErrInvalidMaxEventBytes] else [])"

definition conn_violations :: "'s Config \<Rightarrow> http_sentinel list" where
  "conn_violations c =
     (if maxConnectionsSet c \<and> \<not> in_range 1 maxConnectionsCeiling (maxConnections c) then [ErrInvalidMaxConnections] else [])
     @ (if connectionBufferSet c \<and> \<not> in_range 1 maxConnBufferCeiling (connectionBuffer c) then [ErrInvalidConnectionBuffer] else [])
     @ (if slowClientPolicySet c \<and> slowClientPolicy c \<notin> {SlowClientDrop, SlowClientDisconnect} then [ErrInvalidSlowClientPolicy] else [])"

definition timing_violations :: "'s Config \<Rightarrow> http_sentinel list" where
  "timing_violations c =
     (if replayBufferSet c \<and> \<not> in_range 1 replayBufferCeiling (replayBuffer c) then [ErrInvalidReplayBuffer] else [])
     @ (if heartbeatSet c \<and> heartbeat c \<le> 0 then [ErrInvalidHeartbeat] else [])
     @ (if writeTimeoutSet c \<and> writeTimeout c \<le> 0 then [ErrInvalidWriteTimeout] else [])"

definition client_violations :: "'s Config \<Rightarrow> http_sentinel list" where
  "client_violations c =
     (if reconnectBackoffSet c \<and> (reconnectMin c \<le> 0 \<or> reconnectMax c < reconnectMin c) then [ErrInvalidReconnectBackoff] else [])
     @ (if readTimeoutSet c \<and> readTimeout c \<le> 0 then [ErrInvalidReadTimeout] else [])"

definition violations :: "'s Config \<Rightarrow> http_sentinel list" where
  "violations c =
     body_violations c @ event_violations c @ conn_violations c @ timing_violations c @ client_violations c"

text \<open>Every documented range, of a config ready for use.\<close>

definition body_ok :: "'s Config \<Rightarrow> bool" where
  "body_ok c \<longleftrightarrow> in_range 1 byteCapCeiling (maxBodyBytes c) \<and> in_range 100 599 (successStatus c)"

definition event_ok :: "'s Config \<Rightarrow> bool" where
  "event_ok c \<longleftrightarrow>
     in_range 1 byteCapCeiling (maxResponseBytes c) \<and> (eventNameSet c \<longrightarrow> validSSEField (eventName c))
     \<and> in_range 1 byteCapCeiling (maxEventBytes c)"

definition conns_ok :: "'s Config \<Rightarrow> bool" where
  "conns_ok c \<longleftrightarrow>
     in_range 1 maxConnectionsCeiling (maxConnections c) \<and> in_range 1 maxConnBufferCeiling (connectionBuffer c)
     \<and> slowClientPolicy c \<in> {SlowClientDrop, SlowClientDisconnect}"

definition timing_ok :: "'s Config \<Rightarrow> bool" where
  "timing_ok c \<longleftrightarrow>
     (replayBufferSet c \<longrightarrow> in_range 1 replayBufferCeiling (replayBuffer c))
     \<and> (heartbeatSet c \<longrightarrow> 0 < heartbeat c) \<and> 0 < writeTimeout c"

definition client_ok :: "'s Config \<Rightarrow> bool" where
  "client_ok c \<longleftrightarrow>
     0 < reconnectMin c \<and> reconnectMin c \<le> reconnectMax c \<and> (readTimeoutSet c \<longrightarrow> 0 < readTimeout c)
     \<and> sseClock c \<noteq> None \<and> httpClient c \<noteq> None \<and> clock c \<noteq> None \<and> errorStatus c \<noteq> None \<and> logger c \<noteq> None"

definition config_ok :: "'s Config \<Rightarrow> bool" where
  "config_ok c \<longleftrightarrow> body_ok c \<and> event_ok c \<and> conns_ok c \<and> timing_ok c \<and> client_ok c"

text \<open>A step of the check reports the first violation, or returns a config with the range.\<close>

definition reports :: "http_sentinel list \<Rightarrow> err + 'a \<Rightarrow> ('a \<Rightarrow> bool) \<Rightarrow> bool" where
  "reports vs r P \<longleftrightarrow>
     (case r of
        Inl e \<Rightarrow> vs \<noteq> [] \<and> (\<forall>t. errors_Is e t \<longleftrightarrow> t = MsgHttp (List.hd vs))
      | Inr c \<Rightarrow> vs = [] \<and> P c)"

lemma checkRange_in_range:
  "checkRange (http_err s) site n lo hi =
     (if in_range lo hi n then None
      else Some (Errorf ''%w: %s: %d not in [%d, %d]'' [ArgW (http_err s), ArgS site, ArgD n, ArgD lo, ArgD hi]))"
  by (simp add: checkRange_def in_range_def)

lemma http_err_Is [simp]: "errors_Is (http_err s) t \<longleftrightarrow> t = MsgHttp s"
  by (auto simp: http_err_def)

lemma in_range_defaults [simp]:
  "in_range 1 maxConnectionsCeiling defaultMaxConnections"
  "in_range 1 maxConnBufferCeiling defaultConnectionBuffer"
  "in_range 1 byteCapCeiling defaultMaxBodyBytes" "in_range 100 599 202"
  by (simp_all add: in_range_def)

lemma status_in_range: "n < 100 \<or> n > 599 \<longleftrightarrow> \<not> in_range 100 599 n"
  by (auto simp: in_range_def)

lemma check_body_reports:
  "reports (body_violations c) (check_body c)
     (\<lambda>c'. body_ok c' \<and> event_violations c' = event_violations c \<and> conn_violations c' = conn_violations c
        \<and> timing_violations c' = timing_violations c \<and> client_violations c' = client_violations c)"
  by (simp add: reports_def check_body_def body_violations_def checkRange_in_range body_ok_def Let_def
      event_violations_def conn_violations_def timing_violations_def client_violations_def status_in_range)

lemma check_events_reports:
  "body_ok c \<Longrightarrow> reports (event_violations c) (check_events c)
     (\<lambda>c'. body_ok c' \<and> event_ok c' \<and> conn_violations c' = conn_violations c
        \<and> timing_violations c' = timing_violations c \<and> client_violations c' = client_violations c)"
  by (simp add: reports_def check_events_def event_violations_def checkRange_in_range body_ok_def event_ok_def
      Let_def conn_violations_def timing_violations_def client_violations_def)

lemma check_conns_reports:
  "body_ok c \<Longrightarrow> event_ok c \<Longrightarrow> reports (conn_violations c) (check_conns c)
     (\<lambda>c'. body_ok c' \<and> event_ok c' \<and> conns_ok c' \<and> timing_violations c' = timing_violations c
        \<and> client_violations c' = client_violations c)"
  by (simp add: reports_def check_conns_def conn_violations_def checkRange_in_range body_ok_def event_ok_def
      conns_ok_def Let_def timing_violations_def client_violations_def)

lemma check_timing_reports:
  "body_ok c \<Longrightarrow> event_ok c \<Longrightarrow> conns_ok c \<Longrightarrow> reports (timing_violations c) (check_timing c)
     (\<lambda>c'. body_ok c' \<and> event_ok c' \<and> conns_ok c' \<and> timing_ok c' \<and> client_violations c' = client_violations c)"
  by (simp add: reports_def check_timing_def timing_violations_def checkRange_in_range body_ok_def event_ok_def
      conns_ok_def timing_ok_def Let_def client_violations_def not_le)

lemmas ok_defs = body_ok_def event_ok_def conns_ok_def timing_ok_def

lemma fill_client_config_ok:
  "config_ok (fill_client wall c) \<longleftrightarrow>
     body_ok c \<and> event_ok c \<and> conns_ok c \<and> timing_ok c \<and> 0 < reconnectMin c \<and> reconnectMin c \<le> reconnectMax c
     \<and> (readTimeoutSet c \<longrightarrow> 0 < readTimeout c) \<and> sseClock c \<noteq> None"
  by (simp add: fill_client_def config_ok_def ok_defs client_ok_def Let_def)

lemma ok_other_fields [simp]:
  "body_ok (c\<lparr>sseClock := k\<rparr>) = body_ok c" "event_ok (c\<lparr>sseClock := k\<rparr>) = event_ok c"
  "conns_ok (c\<lparr>sseClock := k\<rparr>) = conns_ok c" "timing_ok (c\<lparr>sseClock := k\<rparr>) = timing_ok c"
  "body_ok (c\<lparr>reconnectMin := a, reconnectMax := b\<rparr>) = body_ok c"
  "event_ok (c\<lparr>reconnectMin := a, reconnectMax := b\<rparr>) = event_ok c"
  "conns_ok (c\<lparr>reconnectMin := a, reconnectMax := b\<rparr>) = conns_ok c"
  "timing_ok (c\<lparr>reconnectMin := a, reconnectMax := b\<rparr>) = timing_ok c"
  by (simp_all add: ok_defs)

lemma check_client_reports:
  "body_ok c \<Longrightarrow> event_ok c \<Longrightarrow> conns_ok c \<Longrightarrow> timing_ok c \<Longrightarrow>
   reports (client_violations c) (check_client wall c) config_ok"
  by (simp add: reports_def check_client_def client_violations_def Let_def not_le fill_client_config_ok)

lemma apply_opts_applied: "None \<notin> set os \<Longrightarrow> apply_opts i os c = Inr (foldl (\<lambda>c f. the f c) c os)"
  by (induction i os c rule: apply_opts.induct) auto

lemma apply_opts_nil_option:
  "nil_option i os = Some j \<Longrightarrow> apply_opts i os c = Inl j"
  "nil_option i os = None \<longleftrightarrow> None \<notin> set os"
  by (induction i os c rule: apply_opts.induct) auto

lemma nil_option_least:
  "nil_option i os = Some j \<Longrightarrow> i \<le> j \<and> j < i + length os \<and> os ! (j - i) = None \<and> (\<forall>k < j - i. os ! k \<noteq> None)"
proof (induction i os rule: nil_option.induct)
  case (3 i f os)
  then have "Suc i \<le> j \<and> j < Suc i + length os \<and> os ! (j - Suc i) = None \<and> (\<forall>k < j - Suc i. os ! k \<noteq> None)"
    by simp
  then show ?case by (auto simp: nth_Cons' Suc_diff_le less_Suc_eq_0_disj)
qed auto

lemma reports_bind:
  assumes "reports vs r P" and "\<And>c. P c \<Longrightarrow> ws c = us \<and> reports (ws c) (f c) Q"
  shows "reports (vs @ us) (case r of Inl e \<Rightarrow> Inl e | Inr c \<Rightarrow> f c) Q"
  using assms by (cases r) (force simp: reports_def split: sum.splits)+

lemma NewConfig_reports:
  assumes "None \<notin> set opts"
  shows "reports (violations (applied opts)) (NewConfig wall opts) config_ok"
proof -
  let ?c = "applied opts"
  have t: "reports (timing_violations c @ client_violations c)
      (case check_timing c of Inl e \<Rightarrow> Inl e | Inr c \<Rightarrow> check_client wall c) config_ok"
    if "body_ok c" "event_ok c" "conns_ok c" for c
    by (rule reports_bind [OF check_timing_reports [OF that], where ws = client_violations])
      (blast intro: check_client_reports)
  have n: "reports (conn_violations c @ timing_violations c @ client_violations c)
      (case check_conns c of Inl e \<Rightarrow> Inl e | Inr c \<Rightarrow>
       case check_timing c of Inl e \<Rightarrow> Inl e | Inr c \<Rightarrow> check_client wall c) config_ok"
    if "body_ok c" "event_ok c" for c
    by (rule reports_bind [OF check_conns_reports [OF that], where ws = "\<lambda>c. timing_violations c @ client_violations c"])
      (metis t)
  have e: "reports (event_violations c @ conn_violations c @ timing_violations c @ client_violations c)
      (case check_events c of Inl e \<Rightarrow> Inl e | Inr c \<Rightarrow>
       case check_conns c of Inl e \<Rightarrow> Inl e | Inr c \<Rightarrow>
       case check_timing c of Inl e \<Rightarrow> Inl e | Inr c \<Rightarrow> check_client wall c) config_ok"
    if "body_ok c" for c
    by (rule reports_bind [OF check_events_reports [OF that],
          where ws = "\<lambda>c. conn_violations c @ timing_violations c @ client_violations c"])
      (metis n)
  show ?thesis
    using reports_bind [OF check_body_reports [of ?c],
        where ws = "\<lambda>c. event_violations c @ conn_violations c @ timing_violations c @ client_violations c"
          and us = "event_violations ?c @ conn_violations ?c @ timing_violations ?c @ client_violations ?c"
          and Q = config_ok, OF conjI [OF _ e]] assms
    by (simp add: NewConfig_def apply_opts_applied applied_def violations_def)
qed

text \<open>
  C22. \<open>NewConfig\<close> is total and decides by the options alone: the first nil element is reported
  by its index before any value is checked; otherwise the first explicit value that is out of
  its documented range is reported by its own sentinel and nothing else; otherwise the config
  is returned and every setting of it, explicit or default, is within its range, with no
  clock, client, mapper or logger left nil. What the accessors read off it are the settings
  themselves.
\<close>

theorem new_config_well_typed:
  "case NewConfig wall opts of
     Inl e \<Rightarrow>
       (\<exists>i < length opts. opts ! i = None \<and> list_all (\<lambda>f. f \<noteq> None) (take i opts)
          \<and> e = nilOptionAt ''msghttp.NewConfig'' i)
       \<or> (None \<notin> set opts \<and> violations (applied opts) \<noteq> []
          \<and> (\<forall>t. errors_Is e t \<longleftrightarrow> t = MsgHttp (List.hd (violations (applied opts)))))
   | Inr c \<Rightarrow>
       None \<notin> set opts \<and> violations (applied opts) = [] \<and> config_ok c
       \<and> maxBody (Some c) = maxBodyBytes c \<and> successStatusOrDefault (Some c) = successStatus c"
proof (cases "nil_option 0 opts")
  case None
  then have "None \<notin> set opts" by (simp add: apply_opts_nil_option)
  moreover from NewConfig_reports [OF this, of wall]
  have "reports (violations (applied opts)) (NewConfig wall opts) config_ok" .
  ultimately show ?thesis
    by (auto simp: reports_def config_ok_def body_ok_def in_range_def maxBody_def
        successStatusOrDefault_def split: sum.splits)
next
  case (Some i)
  from nil_option_least [OF this] have "i < length opts" "opts ! i = None" "\<forall>k<i. opts ! k \<noteq> None" by auto
  moreover from this have "list_all (\<lambda>f. f \<noteq> None) (take i opts)"
    by (auto simp: list_all_length)
  ultimately show ?thesis using apply_opts_nil_option(1) [OF Some] by (auto simp: NewConfig_def)
qed

lemma delegate_config_Inr:
  "delegate_config ctor wall opts = Inr c \<Longrightarrow> config_ok c"
  using NewConfig_reports [of opts wall]
  by (auto simp: delegate_config_def apply_opts_nil_option reports_def split: option.splits)

lemma delegate_config_Inl:
  "delegate_config ctor wall opts = Inl e \<Longrightarrow>
   (None \<in> set opts \<and> errors_Is e ErrNilFunc) \<or> violations (applied opts) \<noteq> []"
  using NewConfig_reports [of opts wall] apply_opts_nil_option(2) [of 0 opts]
  by (auto simp: delegate_config_def reports_def split: option.splits)

end
