(* ===== verification/Sse.thy ===== *)
theory Sse
  imports Http_Config "HOL-Library.Sublist"
begin

text \<open>
  Server-Sent Events on the wire (\<^verbatim>\<open>adapter/http/sse.go\<close>): the encoder and the parser. The parser
  is a record with the fields of the struct; its reader is what is left of the stream. \<open>Next\<close>
  is a recursive function whose measure is the number of unread bytes, so it always returns.
  The lemmas: a stream of encoded events parses back to those events, whatever bytes the
  payloads hold; no event longer than the cap is dispatched; and what a caller sees after an
  over-long line.
\<close>

section \<open>Encoding\<close>

abbreviation HeaderSSEEventName :: string where "HeaderSSEEventName \<equiv> ''http.sse-event''"
abbreviation HeaderSSEEventID :: string where "HeaderSSEEventID \<equiv> ''http.sse-event-id''"

abbreviation CR :: char where "CR \<equiv> CHR 0x0D"
abbreviation LF :: char where "LF \<equiv> CHR 0x0A"
abbreviation NUL :: char where "NUL \<equiv> CHR 0x00"

record SSEEvent =
  ev_ID :: string
  ev_Name :: string
  ev_Data :: string

text \<open>\<^verbatim>\<open>strings.ReplaceAll(s, "\r\n", "\n")\<close>, \<^verbatim>\<open>strings.ReplaceAll(s, "\r", "\n")\<close>, \<^verbatim>\<open>strings.Split(s, "\n")\<close>.\<close>

fun replace_crlf :: "string \<Rightarrow> string" where
  "replace_crlf [] = []"
| "replace_crlf [c] = [c]"
| "replace_crlf (c # d # s) =
     (if c = CR \<and> d = LF then LF # replace_crlf s else c # replace_crlf (d # s))"

definition replace_cr :: "string \<Rightarrow> string" where
  "replace_cr s = map (\<lambda>c. if c = CR then LF else c) s"

fun split_lf :: "string \<Rightarrow> string list" where
  "split_lf [] = [[]]"
| "split_lf (c # s) =
     (if c = LF then [] # split_lf s
      else (case split_lf s of [] \<Rightarrow> [[c]] | l # ls \<Rightarrow> (c # l) # ls))"

definition sse_normalize :: "string \<Rightarrow> string" where
  "sse_normalize d = replace_cr (replace_crlf d)"

definition sse_frame :: "SSEEvent \<Rightarrow> string" where
  "sse_frame ev =
     (if ev_ID ev \<noteq> '''' then ''id: '' @ ev_ID ev @ [LF] else '''')
     @ (if ev_Name ev \<noteq> '''' then ''event: '' @ ev_Name ev @ [LF] else '''')
     @ concat (map (\<lambda>line. ''data: '' @ line @ [LF]) (split_lf (sse_normalize (ev_Data ev))))
     @ [LF]"

definition EncodeSSEEvent :: "(string \<Rightarrow> ('s, err option) prog) \<Rightarrow> SSEEvent \<Rightarrow> ('s, err option) prog" where
  "EncodeSSEEvent w ev =
     (if \<not> validSSEField (ev_ID ev) \<or> \<not> validSSEField (ev_Name ev)
      then returnP (Some (http_err ErrInvalidEventField))
      else w (sse_frame ev))"

definition payloadBytes :: "msg \<Rightarrow> err + string" where
  "payloadBytes m =
     (case payload m of
        GBytes b \<Rightarrow> Inr b
      | GString s \<Rightarrow> Inr s
      | _ \<Rightarrow> Inl (http_err ErrUnsupportedPayload))"

definition SSEEventFromMessage :: "msg \<Rightarrow> 's Config option \<Rightarrow> err + SSEEvent" where
  "SSEEventFromMessage m cfg =
     (case payloadBytes m of
        Inl e \<Rightarrow> Inl e
      | Inr d \<Rightarrow>
          (let name = (case Headers_String (headers m) HeaderSSEEventName of
                         Some v \<Rightarrow> if v \<noteq> '''' then v else eventNameOrDefault cfg
                       | None \<Rightarrow> eventNameOrDefault cfg);
               ev = \<lparr>ev_ID = ID m, ev_Name = name, ev_Data = d\<rparr>
           in if \<not> validSSEField (ev_ID ev) \<or> \<not> validSSEField (ev_Name ev)
              then Inl (http_err ErrInvalidEventField) else Inr ev))"

section \<open>The parser\<close>

record SSEParser =
  p_r :: body
  p_maxEventBytes :: int
  dataBuf :: string
  typeBuf :: string
  idBuf :: string
  p_retry :: duration
  hasRetry :: bool

definition sseBOM :: string where
  "sseBOM = [CHR 0xEF, CHR 0xBB, CHR 0xBF]"

definition newSSEParserWithCap :: "body \<Rightarrow> int \<Rightarrow> SSEParser" where
  "newSSEParserWithCap r mx =
     (let br = (if take (length sseBOM) (b_bytes r) = sseBOM
                then r\<lparr>b_bytes := List.drop (length sseBOM) (b_bytes r)\<rparr> else r)
      in \<lparr>p_r = br, p_maxEventBytes = mx, dataBuf = '''', typeBuf = '''', idBuf = '''', p_retry = 0, hasRetry = False\<rparr>)"

definition NewSSEParser :: "('s \<Rightarrow> time) \<Rightarrow> body \<Rightarrow> 's Option list \<Rightarrow> err + SSEParser" where
  "NewSSEParser wall r opts =
     (case delegate_config ''msghttp.NewSSEParser'' wall opts of
        Inl e \<Rightarrow> Inl e
      | Inr cfg \<Rightarrow> Inr (newSSEParserWithCap r (maxEventBytes cfg)))"

definition RetryDelay :: "SSEParser \<Rightarrow> duration \<times> bool" where
  "RetryDelay p = (p_retry p, hasRetry p)"

definition LastEventID :: "SSEParser \<Rightarrow> string" where
  "LastEventID p = idBuf p"

definition resetEventBuffers :: "SSEParser \<Rightarrow> SSEParser" where
  "resetEventBuffers p = p\<lparr>dataBuf := '''', typeBuf := ''''\<rparr>"

text \<open>
  Reading lines. \<open>skip_lf\<close> consumes the line feed of a CRLF; \<open>drain_line\<close> is \<open>drainLine\<close>;
  \<open>read_line\<close> is the loop of \<open>readLine\<close> with its buffer, and tells whether the line was
  terminated, the bytes ran out, or the cap tripped.
\<close>

fun skip_lf :: "string \<Rightarrow> string" where
  "skip_lf [] = []"
| "skip_lf (c # s) = (if c = LF then s else c # s)"

fun drain_line :: "string \<Rightarrow> string" where
  "drain_line [] = []"
| "drain_line (c # s) = (if c = LF then s else if c = CR then skip_lf s else drain_line s)"

datatype line_read = Line string | NoMore string | TooLong

fun read_line :: "int \<Rightarrow> string \<Rightarrow> string \<Rightarrow> line_read \<times> string" where
  "read_line mx buf [] = (NoMore buf, [])"
| "read_line mx buf (c # s) =
     (if c = LF then (Line buf, s)
      else if c = CR then (Line buf, skip_lf s)
      else let buf' = buf @ [c]
           in if int (length buf') > mx then (TooLong, drain_line s) else read_line mx buf' s)"

definition read_err :: "body \<Rightarrow> err" where
  "read_err b = (case b_end b of None \<Rightarrow> io_EOF | Some e \<Rightarrow> e)"

definition is_EOF :: "err \<Rightarrow> bool" where
  "is_EOF e \<longleftrightarrow> io_EOF \<in> set (err_tree e)"

definition is_UnexpectedEOF :: "err \<Rightarrow> bool" where
  "is_UnexpectedEOF e \<longleftrightarrow> io_ErrUnexpectedEOF \<in> set (err_tree e)"

definition readLine :: "SSEParser \<Rightarrow> (err + string) \<times> SSEParser" where
  "readLine p =
     (let r = p_r p; (res, rest) = read_line (p_maxEventBytes p) '''' (b_bytes r);
          p' = p\<lparr>p_r := r\<lparr>b_bytes := rest\<rparr>\<rparr>
      in case res of
           Line l \<Rightarrow> (Inr l, p')
         | NoMore buf \<Rightarrow>
             (if is_EOF (read_err r)
              then (if buf = '''' then (Inl io_EOF, p') else (Inl io_ErrUnexpectedEOF, p'))
              else (Inl (read_err r), p'))
         | TooLong \<Rightarrow> (Inl (http_err ErrEventTooLarge), p'))"

definition parseRetryMillis :: "string \<Rightarrow> int option" where
  "parseRetryMillis v =
     (if v = '''' then None
      else if \<not> list_all is_digit v then None
      else if int (digits_value v) > MaxInt64 then None
      else Some (int (digits_value v)))"

definition processField :: "SSEParser \<Rightarrow> string \<Rightarrow> err option \<times> SSEParser" where
  "processField p line =
     (let (field, val) =
            (if CHR '':'' \<in> set line
             then (let v = tl (dropWhile (\<lambda>c. c \<noteq> CHR '':'') line)
                   in (takeWhile (\<lambda>c. c \<noteq> CHR '':'') line,
                       case v of [] \<Rightarrow> [] | c # cs \<Rightarrow> if c = CHR '' '' then cs else v))
             else (line, ''''))
      in if field = ''data'' then
           (let p' = p\<lparr>dataBuf := dataBuf p @ val @ [LF]\<rparr>
            in (if int (length (dataBuf p')) > p_maxEventBytes p
                then Some (http_err ErrEventTooLarge) else None, p'))
         else if field = ''event'' then (None, p\<lparr>typeBuf := val\<rparr>)
         else if field = ''id'' then (None, if NUL \<notin> set val then p\<lparr>idBuf := val\<rparr> else p)
         else if field = ''retry'' then
           (None, case parseRetryMillis val of
                    Some ms \<Rightarrow> p\<lparr>p_retry := wrap64 (ms * Millisecond), hasRetry := True\<rparr>
                  | None \<Rightarrow> p)
         else (None, p))"

lemma length_skip_lf: "length (skip_lf s) \<le> length s"
  by (cases s) auto

lemma read_line_Line_shorter: "read_line mx buf s = (Line l, rest) \<Longrightarrow> length rest < length s"
  by (induction mx buf s rule: read_line.induct)
    (auto simp: Let_def le_less_trans [OF length_skip_lf] split: if_splits)

lemma readLine_shorter:
  "(Inr l, p') = readLine p \<Longrightarrow> length (b_bytes (p_r p')) < length (b_bytes (p_r p))"
  by (auto simp: readLine_def Let_def dest: read_line_Line_shorter split: prod.splits line_read.splits if_splits)

lemma processField_reader: "p_r (snd (processField p l)) = p_r p"
  by (simp add: processField_def Let_def split: prod.splits option.splits)

lemma processField_reader': "(r, p') = processField p l \<Longrightarrow> p_r p' = p_r p"
  using processField_reader [of p l] by (metis snd_conv)

function Next :: "SSEParser \<Rightarrow> (err + SSEEvent) \<times> SSEParser" where
  "Next p =
     (case readLine p of
        (Inl e, p') \<Rightarrow>
          (if is_EOF e then
             (if length (dataBuf p') > 0 \<or> typeBuf p' \<noteq> ''''
              then (Inl io_ErrUnexpectedEOF, resetEventBuffers p') else (Inl io_EOF, p'))
           else if is_UnexpectedEOF e then (Inl io_ErrUnexpectedEOF, resetEventBuffers p')
           else (Inl e, resetEventBuffers p'))
      | (Inr line, p') \<Rightarrow>
          (case line of
             [] \<Rightarrow>
               (if length (dataBuf p') = 0 then Next (p'\<lparr>typeBuf := ''''\<rparr>)
                else (Inr \<lparr>ev_ID = idBuf p', ev_Name = typeBuf p', ev_Data = butlast (dataBuf p')\<rparr>,
                      resetEventBuffers p'))
           | c # cs \<Rightarrow>
               (if c = CHR '':'' then Next p'
                else (case processField p' line of
                        (Some e, p'') \<Rightarrow> (Inl e, resetEventBuffers p'')
                      | (None, p'') \<Rightarrow> Next p''))))"
  by pat_completeness auto

termination Next
  by (relation "measure (\<lambda>p. length (b_bytes (p_r p)))")
    (auto dest!: readLine_shorter processField_reader')

declare Next.simps [simp del]

section \<open>Reading back what the encoder wrote\<close>

definition no_term :: "string \<Rightarrow> bool" where
  "no_term s \<longleftrightarrow> CR \<notin> set s \<and> LF \<notin> set s"

definition at_rest :: "SSEParser \<Rightarrow> string \<Rightarrow> SSEParser" where
  "at_rest p s = p\<lparr>p_r := (p_r p)\<lparr>b_bytes := s\<rparr>\<rparr>"

lemma at_rest_simps [simp]:
  "b_bytes (p_r (at_rest p s)) = s" "b_end (p_r (at_rest p s)) = b_end (p_r p)"
  "p_maxEventBytes (at_rest p s) = p_maxEventBytes p" "dataBuf (at_rest p s) = dataBuf p"
  "typeBuf (at_rest p s) = typeBuf p" "idBuf (at_rest p s) = idBuf p"
  "p_retry (at_rest p s) = p_retry p" "hasRetry (at_rest p s) = hasRetry p"
  "at_rest (at_rest p s) t = at_rest p t" "at_rest (p\<lparr>dataBuf := d\<rparr>) s = (at_rest p s)\<lparr>dataBuf := d\<rparr>"
  "at_rest (p\<lparr>typeBuf := d\<rparr>) s = (at_rest p s)\<lparr>typeBuf := d\<rparr>"
  "at_rest (p\<lparr>idBuf := d\<rparr>) s = (at_rest p s)\<lparr>idBuf := d\<rparr>"
  by (simp_all add: at_rest_def)

lemma read_line_terminated:
  "no_term l \<Longrightarrow> int (length (buf @ l)) \<le> mx \<Longrightarrow> read_line mx buf (l @ LF # s) = (Line (buf @ l), s)"
  by (induction l arbitrary: buf) (auto simp: no_term_def Let_def)

lemma readLine_terminated:
  assumes "b_bytes (p_r p) = l @ LF # s" "no_term l" "int (length l) \<le> p_maxEventBytes p"
  shows "readLine p = (Inr l, at_rest p s)"
  using read_line_terminated [of l "[]" "p_maxEventBytes p" s] assms
  by (simp add: readLine_def at_rest_def)

lemma field_split:
  assumes "CHR '':'' \<notin> set f"
  shows "takeWhile (\<lambda>c. c \<noteq> CHR '':'') (f @ CHR '':'' # v) = f"
    and "dropWhile (\<lambda>c. c \<noteq> CHR '':'') (f @ CHR '':'' # v) = CHR '':'' # v"
  using assms by (induction f) auto

lemma processField_colon:
  "processField p (''data: '' @ v) =
     (let p' = p\<lparr>dataBuf := dataBuf p @ v @ [LF]\<rparr>
      in (if int (length (dataBuf p')) > p_maxEventBytes p then Some (http_err ErrEventTooLarge) else None, p'))"
  "processField p (''event: '' @ v) = (None, p\<lparr>typeBuf := v\<rparr>)"
  "NUL \<notin> set v \<Longrightarrow> processField p (''id: '' @ v) = (None, p\<lparr>idBuf := v\<rparr>)"
  using field_split [of "''data''" "CHR '' '' # v"] field_split [of "''event''" "CHR '' '' # v"]
    field_split [of "''id''" "CHR '' '' # v"]
  by (simp_all add: processField_def Let_def)

lemma Next_line:
  assumes "b_bytes (p_r p) = l @ LF # s" "no_term l" "int (length l) \<le> p_maxEventBytes p"
    and "l \<noteq> []" "List.hd l \<noteq> CHR '':''" "processField (at_rest p s) l = (None, p')"
  shows "Next p = Next p'"
proof -
  from assms(4) obtain c cs where "l = c # cs" by (cases l) auto
  then show ?thesis using assms readLine_terminated [OF assms(1-3)] by (subst Next.simps) simp
qed

lemma Next_data:
  assumes "b_bytes (p_r p) = ''data: '' @ v @ LF # s" "no_term v"
    and "int (length v) + 6 \<le> p_maxEventBytes p" "int (length (dataBuf p)) + int (length v) + 1 \<le> p_maxEventBytes p"
  shows "Next p = Next ((at_rest p s)\<lparr>dataBuf := dataBuf p @ v @ [LF]\<rparr>)"
proof (rule Next_line [where l = "''data: '' @ v" and s = s])
  show "processField (at_rest p s) (''data: '' @ v) = (None, (at_rest p s)\<lparr>dataBuf := dataBuf p @ v @ [LF]\<rparr>)"
    using assms by (subst processField_colon) (simp_all add: Let_def)
qed (use assms in \<open>simp_all add: no_term_def\<close>)

lemma Next_event:
  assumes "b_bytes (p_r p) = ''event: '' @ v @ LF # s" "no_term v" "int (length v) + 7 \<le> p_maxEventBytes p"
  shows "Next p = Next ((at_rest p s)\<lparr>typeBuf := v\<rparr>)"
proof (rule Next_line [where l = "''event: '' @ v" and s = s])
  show "processField (at_rest p s) (''event: '' @ v) = (None, (at_rest p s)\<lparr>typeBuf := v\<rparr>)"
    using assms by (subst processField_colon) (simp_all add: Let_def)
qed (use assms in \<open>simp_all add: no_term_def\<close>)

lemma Next_id:
  assumes "b_bytes (p_r p) = ''id: '' @ v @ LF # s" "no_term v" "NUL \<notin> set v" "int (length v) + 4 \<le> p_maxEventBytes p"
  shows "Next p = Next ((at_rest p s)\<lparr>idBuf := v\<rparr>)"
proof (rule Next_line [where l = "''id: '' @ v" and s = s])
  show "processField (at_rest p s) (''id: '' @ v) = (None, (at_rest p s)\<lparr>idBuf := v\<rparr>)"
    using assms by (subst processField_colon) (simp_all add: Let_def)
qed (use assms in \<open>simp_all add: no_term_def\<close>)

lemma Next_dispatch:
  assumes "b_bytes (p_r p) = LF # s" "0 \<le> p_maxEventBytes p" "dataBuf p \<noteq> ''''"
  shows "Next p = (Inr \<lparr>ev_ID = idBuf p, ev_Name = typeBuf p, ev_Data = butlast (dataBuf p)\<rparr>,
                   resetEventBuffers (at_rest p s))"
  using assms readLine_terminated [of p "[]" s]
  by (subst Next.simps) (simp add: no_term_def)

text \<open>The lines of a payload, and what their buffer adds up to.\<close>

abbreviation data_lines :: "string list \<Rightarrow> string" where
  "data_lines ls \<equiv> concat (map (\<lambda>line. ''data: '' @ line @ [LF]) ls)"

abbreviation unlines :: "string list \<Rightarrow> string" where
  "unlines ls \<equiv> concat (map (\<lambda>line. line @ [LF]) ls)"

lemma split_lf_lines: "unlines (split_lf s) = s @ [LF]" "split_lf s \<noteq> []"
  by (induction s) (auto split: list.splits)

lemma split_lf_no_term: "CR \<notin> set s \<Longrightarrow> l \<in> set (split_lf s) \<Longrightarrow> no_term l"
  by (induction s arbitrary: l) (auto simp: no_term_def split: list.splits if_splits)

lemma replace_crlf_no_new: "set (replace_crlf s) \<subseteq> set s \<union> {LF}"
  by (induction s rule: replace_crlf.induct) auto

lemma sse_normalize_no_CR: "CR \<notin> set (sse_normalize d)"
  by (auto simp: sse_normalize_def replace_cr_def)

lemma length_data_lines: "length (unlines ls) + 6 * length ls = length (data_lines ls)"
  by (induction ls) auto

lemma Next_data_lines:
  assumes "b_bytes (p_r p) = data_lines ls @ s" "\<forall>l \<in> set ls. no_term l"
    and "int (length (dataBuf p)) + int (length (data_lines ls)) \<le> p_maxEventBytes p"
  shows "Next p = Next ((at_rest p s)\<lparr>dataBuf := dataBuf p @ unlines ls\<rparr>)"
  using assms
proof (induction ls arbitrary: p)
  case Nil
  then have "(at_rest p s)\<lparr>dataBuf := dataBuf p\<rparr> = p" by (cases p) (simp add: at_rest_def)
  then show ?case by simp
next
  case (Cons l ls)
  let ?p' = "(at_rest p (data_lines ls @ s))\<lparr>dataBuf := dataBuf p @ l @ [LF]\<rparr>"
  have "Next p = Next ?p'" by (rule Next_data) (use Cons.prems in auto)
  also have "\<dots> = Next ((at_rest ?p' s)\<lparr>dataBuf := dataBuf ?p' @ unlines ls\<rparr>)"
    by (rule Cons.IH) (use Cons.prems in auto)
  finally show ?case by simp
qed

text \<open>The event a parser holding the last id \<open>i\<close> reports for an encoded event.\<close>

definition received :: "string \<Rightarrow> SSEEvent \<Rightarrow> SSEEvent" where
  "received i ev =
     ev\<lparr>ev_ID := (if ev_ID ev = '''' then i else ev_ID ev), ev_Data := sse_normalize (ev_Data ev)\<rparr>"

definition encodable :: "SSEEvent \<Rightarrow> bool" where
  "encodable ev \<longleftrightarrow> validSSEField (ev_ID ev) \<and> validSSEField (ev_Name ev)"

lemma validSSEField_no_term: "validSSEField s \<Longrightarrow> no_term s \<and> NUL \<notin> set s"
  by (auto simp: validSSEField_def no_term_def list_ex_iff)

definition between_events :: "SSEParser \<Rightarrow> bool" where
  "between_events p \<longleftrightarrow> dataBuf p = '''' \<and> typeBuf p = ''''"

lemma Next_frame:
  assumes "encodable ev" "between_events p" "b_bytes (p_r p) = sse_frame ev @ s"
    and "int (length (sse_frame ev)) \<le> p_maxEventBytes p"
  shows "Next p = (Inr (received (idBuf p) ev), (at_rest p s)\<lparr>idBuf := ev_ID (received (idBuf p) ev)\<rparr>)"
proof -
  let ?ls = "split_lf (sse_normalize (ev_Data ev))"
  let ?d = "data_lines ?ls @ LF # s"
  let ?n = "(if ev_Name ev \<noteq> '''' then ''event: '' @ ev_Name ev @ [LF] else '''') @ ?d"
  define p1 where "p1 = (if ev_ID ev = '''' then p else (at_rest p ?n)\<lparr>idBuf := ev_ID ev\<rparr>)"
  define p2 where "p2 = (if ev_Name ev = '''' then p1 else (at_rest p1 ?d)\<lparr>typeBuf := ev_Name ev\<rparr>)"
  have ok: "no_term (ev_ID ev)" "NUL \<notin> set (ev_ID ev)" "no_term (ev_Name ev)"
    using assms(1) validSSEField_no_term by (auto simp: encodable_def)
  have "Next p = Next p1"
  proof (cases "ev_ID ev = ''''")
    case False
    have "Next p = Next ((at_rest p ?n)\<lparr>idBuf := ev_ID ev\<rparr>)"
      by (rule Next_id) (use assms ok False in \<open>auto simp: sse_frame_def split: if_splits\<close>)
    with False show ?thesis by (simp add: p1_def)
  qed (simp add: p1_def)
  also have "\<dots> = Next p2"
  proof (cases "ev_Name ev = ''''")
    case False
    have "Next p1 = Next ((at_rest p1 ?d)\<lparr>typeBuf := ev_Name ev\<rparr>)"
      by (rule Next_event) (use assms ok False in \<open>auto simp: sse_frame_def p1_def split: if_splits\<close>)
    with False show ?thesis by (simp add: p2_def)
  qed (simp add: p2_def)
  also have "\<dots> = Next ((at_rest p2 (LF # s))\<lparr>dataBuf := dataBuf p2 @ unlines ?ls\<rparr>)"
    by (rule Next_data_lines) (use assms ok split_lf_no_term [OF sse_normalize_no_CR] in
        \<open>auto simp: sse_frame_def p1_def p2_def between_events_def split: if_splits\<close>)
  also have "\<dots> = (Inr (received (idBuf p) ev), (at_rest p s)\<lparr>idBuf := ev_ID (received (idBuf p) ev)\<rparr>)"
    using assms(2,4) by (subst Next_dispatch)
      (auto simp: split_lf_lines p2_def p1_def received_def between_events_def resetEventBuffers_def at_rest_def)
  finally show ?thesis .
qed

text \<open>Calling \<open>Next\<close> \<open>n\<close> times.\<close>

fun next_events :: "nat \<Rightarrow> SSEParser \<Rightarrow> (err + SSEEvent) list" where
  "next_events 0 p = []"
| "next_events (Suc n) p = (case Next p of (r, p') \<Rightarrow> r # next_events n p')"

fun received_all :: "string \<Rightarrow> SSEEvent list \<Rightarrow> SSEEvent list" where
  "received_all i [] = []"
| "received_all i (ev # evs) = received i ev # received_all (ev_ID (received i ev)) evs"

lemma Next_at_end:
  assumes "b_bytes (p_r p) = ''''" "b_end (p_r p) = None" "between_events p"
  shows "Next p = (Inl io_EOF, p)"
proof -
  have "p\<lparr>p_r := (p_r p)\<lparr>b_bytes := ''''\<rparr>\<rparr> = p" using assms(1) by (cases p) simp
  then have "readLine p = (Inl io_EOF, p)"
    using assms by (simp add: readLine_def read_err_def is_EOF_def)
  then show ?thesis using assms(3) by (subst Next.simps) (simp add: is_EOF_def between_events_def)
qed

lemma next_events_frames:
  assumes "\<forall>ev \<in> set evs. encodable ev \<and> int (length (sse_frame ev)) \<le> p_maxEventBytes p"
    and "between_events p" "p_r p = \<lparr>b_bytes = concat (map sse_frame evs), b_end = None\<rparr>"
  shows "next_events (Suc (length evs)) p = map Inr (received_all (idBuf p) evs) @ [Inl io_EOF]"
  using assms
proof (induction evs arbitrary: p)
  case (Cons ev evs)
  let ?p' = "(at_rest p (concat (map sse_frame evs)))\<lparr>idBuf := ev_ID (received (idBuf p) ev)\<rparr>"
  have "Next p = (Inr (received (idBuf p) ev), ?p')"
    by (rule Next_frame) (use Cons.prems in auto)
  moreover have "next_events (Suc (length evs)) ?p' = map Inr (received_all (idBuf ?p') evs) @ [Inl io_EOF]"
    by (rule Cons.IH) (use Cons.prems in \<open>auto simp: between_events_def at_rest_def\<close>)
  ultimately show ?case by simp
qed (simp add: Next_at_end)

text \<open>
  C14. The event stream round trip. Take events with ids and names that the encoder accepts, none of which encodes
  to more bytes than the parser's cap; their payloads are arbitrary (carriage returns, line feeds, colons, text that
  looks like fields or like blank lines). The stream of their encodings is parsed as one event for each, in order, and
  then ends cleanly: no such payload can forge, split, merge or hide an event. Each event arrives with its
  name, with its id (or, where it has none, the last id before it), and with its payload in
  which every CR, LF or CRLF is one LF.
\<close>

theorem sse_stream_round_trip:
  assumes "\<forall>ev \<in> set evs. encodable ev \<and> int (length (sse_frame ev)) \<le> mx"
  shows "next_events (Suc (length evs)) (newSSEParserWithCap \<lparr>b_bytes = concat (map sse_frame evs), b_end = None\<rparr> mx)
         = map Inr (received_all '''' evs) @ [Inl io_EOF]"
proof -
  let ?s = "concat (map sse_frame evs)"
  have "take (length sseBOM) ?s \<noteq> sseBOM"
  proof (cases evs)
    case (Cons ev es)
    have "split_lf (sse_normalize (ev_Data ev)) \<noteq> []" by (rule split_lf_lines)
    then have "\<exists>c t. sse_frame ev = c # t \<and> c \<noteq> CHR 0xEF"
      by (cases "split_lf (sse_normalize (ev_Data ev))") (auto simp: sse_frame_def)
    then show ?thesis by (auto simp: Cons sseBOM_def)
  qed (simp add: sseBOM_def)
  then show ?thesis
    using next_events_frames [of evs "newSSEParserWithCap \<lparr>b_bytes = ?s, b_end = None\<rparr> mx"] assms
    by (simp add: newSSEParserWithCap_def between_events_def)
qed

theorem sse_stream_round_trip_witness:
  "next_events 3 (newSSEParserWithCap \<lparr>b_bytes = concat (map sse_frame
       [\<lparr>ev_ID = ''7'', ev_Name = '''', ev_Data = ''a'' @ [CR, LF, LF] @ ''data: b''\<rparr>,
        \<lparr>ev_ID = '''', ev_Name = ''n'', ev_Data = ''''\<rparr>]), b_end = None\<rparr> 64)
   = [Inr \<lparr>ev_ID = ''7'', ev_Name = '''', ev_Data = ''a'' @ [LF, LF] @ ''data: b''\<rparr>,
      Inr \<lparr>ev_ID = ''7'', ev_Name = ''n'', ev_Data = ''''\<rparr>, Inl io_EOF]"
  using sse_stream_round_trip [of "[\<lparr>ev_ID = ''7'', ev_Name = '''', ev_Data = ''a'' @ [CR, LF, LF] @ ''data: b''\<rparr>,
        \<lparr>ev_ID = '''', ev_Name = ''n'', ev_Data = ''''\<rparr>]" 64]
  by (simp add: encodable_def validSSEField_def sse_frame_def sse_normalize_def replace_cr_def received_def numeral_3_eq_3)

section \<open>What Next returns, on every stream\<close>

lemma read_line_Line:
  "read_line mx buf s = (Line l, rest) \<Longrightarrow> no_term buf \<Longrightarrow> int (length buf) \<le> mx \<Longrightarrow> no_term l \<and> int (length l) \<le> mx"
  by (induction mx buf s rule: read_line.induct) (auto simp: no_term_def Let_def split: if_splits)

lemma suffix_skip_lf: "suffix (skip_lf s) s"
  by (cases s) (auto simp: suffix_def)

lemma suffix_drain_line: "suffix (drain_line s) s"
  by (induction s rule: drain_line.induct) (auto simp: suffix_Cons suffix_skip_lf)

lemma suffix_read_line: "suffix (snd (read_line mx buf s)) s"
  by (induction mx buf s rule: read_line.induct)
    (auto simp: suffix_Cons suffix_skip_lf suffix_drain_line Let_def)

definition parser_ok :: "SSEParser \<Rightarrow> bool" where
  "parser_ok p \<longleftrightarrow>
     0 \<le> p_maxEventBytes p \<and> int (length (dataBuf p)) \<le> p_maxEventBytes p
     \<and> no_term (typeBuf p) \<and> validSSEField (idBuf p)"

text \<open>The reader of \<open>q\<close> is further along the stream of \<open>p\<close>; the cap is the same.\<close>

definition further :: "SSEParser \<Rightarrow> SSEParser \<Rightarrow> bool" where
  "further p q \<longleftrightarrow>
     suffix (b_bytes (p_r q)) (b_bytes (p_r p)) \<and> b_end (p_r q) = b_end (p_r p)
     \<and> p_maxEventBytes q = p_maxEventBytes p"

lemma further_trans: "further p q \<Longrightarrow> further q r \<Longrightarrow> further p r"
  by (auto simp: further_def dest: suffix_order.order_trans)

lemma readLine_cases:
  assumes "readLine p = (r, p')" "0 \<le> p_maxEventBytes p"
  shows "further p p'"
    and "dataBuf p' = dataBuf p" "typeBuf p' = typeBuf p" "idBuf p' = idBuf p"
    and "case r of Inl e \<Rightarrow> e \<in> {io_EOF, io_ErrUnexpectedEOF, http_err ErrEventTooLarge, read_err (p_r p)}
         | Inr l \<Rightarrow> no_term l \<and> int (length l) \<le> p_maxEventBytes p"
proof -
  obtain res rest where r: "read_line (p_maxEventBytes p) '''' (b_bytes (p_r p)) = (res, rest)" by fastforce
  from suffix_read_line [of "p_maxEventBytes p" "''''" "b_bytes (p_r p)"] r
  have "suffix rest (b_bytes (p_r p))" by simp
  with r assms show "further p p'" "dataBuf p' = dataBuf p" "typeBuf p' = typeBuf p" "idBuf p' = idBuf p"
    by (auto simp: readLine_def further_def Let_def split: line_read.splits if_splits)
  show "case r of Inl e \<Rightarrow> e \<in> {io_EOF, io_ErrUnexpectedEOF, http_err ErrEventTooLarge, read_err (p_r p)}
         | Inr l \<Rightarrow> no_term l \<and> int (length l) \<le> p_maxEventBytes p"
    using r assms read_line_Line [of "p_maxEventBytes p" "''''" "b_bytes (p_r p)" _ rest]
    by (auto simp: readLine_def Let_def no_term_def split: line_read.splits if_splits)
qed

lemma validSSEField_iff: "validSSEField s \<longleftrightarrow> no_term s \<and> NUL \<notin> set s"
  by (auto simp: validSSEField_def no_term_def list_ex_iff)

lemma no_term_parts: "no_term l \<Longrightarrow> no_term (takeWhile P l) \<and> no_term (dropWhile P l) \<and> no_term (tl l)"
  by (auto simp: no_term_def dest: set_takeWhileD set_dropWhileD)

definition field_value :: "string \<Rightarrow> string \<times> string" where
  "field_value line =
     (if CHR '':'' \<in> set line
      then (let v = tl (dropWhile (\<lambda>c. c \<noteq> CHR '':'') line)
            in (takeWhile (\<lambda>c. c \<noteq> CHR '':'') line,
                case v of [] \<Rightarrow> [] | c # cs \<Rightarrow> if c = CHR '' '' then cs else v))
      else (line, ''''))"

lemma field_value_parts:
  assumes "no_term l" "field_value l = (f, v)"
  shows "no_term v" and "length f + length v \<le> length l"
proof -
  define w where "w = tl (dropWhile (\<lambda>c. c \<noteq> CHR '':'') l)"
  have w: "no_term w" using no_term_parts assms(1) unfolding w_def by blast
  have "length (takeWhile (\<lambda>c. c \<noteq> CHR '':'') l) + length (dropWhile (\<lambda>c. c \<noteq> CHR '':'') l) = length l"
    by (metis length_append takeWhile_dropWhile_id)
  moreover have "length w = length (dropWhile (\<lambda>c. c \<noteq> CHR '':'') l) - 1" by (simp add: w_def)
  ultimately have "length (takeWhile (\<lambda>c. c \<noteq> CHR '':'') l) + length w \<le> length l" by linarith
  with w assms(2) show "no_term v" "length f + length v \<le> length l"
    by (auto simp: field_value_def Let_def no_term_def w_def [symmetric] split: if_splits list.splits)
qed

lemma processField_value:
  "processField p line =
     (case field_value line of (field, val) \<Rightarrow>
        if field = ''data'' then
          (let p' = p\<lparr>dataBuf := dataBuf p @ val @ [LF]\<rparr>
           in (if int (length (dataBuf p')) > p_maxEventBytes p
               then Some (http_err ErrEventTooLarge) else None, p'))
        else if field = ''event'' then (None, p\<lparr>typeBuf := val\<rparr>)
        else if field = ''id'' then (None, if NUL \<notin> set val then p\<lparr>idBuf := val\<rparr> else p)
        else if field = ''retry'' then
          (None, case parseRetryMillis val of
                   Some ms \<Rightarrow> p\<lparr>p_retry := wrap64 (ms * Millisecond), hasRetry := True\<rparr>
                 | None \<Rightarrow> p)
        else (None, p))"
  unfolding processField_def field_value_def Let_def by (rule refl)

lemma processField_cases:
  assumes "processField p l = (r, p')" "parser_ok p" "no_term l" "int (length l) \<le> p_maxEventBytes p"
  shows "further p p'" "no_term (typeBuf p')" "validSSEField (idBuf p')"
    and "r = None \<Longrightarrow> parser_ok p'" "r = None \<or> r = Some (http_err ErrEventTooLarge)"
    and "int (length (dataBuf p')) \<le> 2 * p_maxEventBytes p"
proof -
  obtain f v where fv: "field_value l = (f, v)" by fastforce
  note v = field_value_parts [OF assms(3) fv]
  show "further p p'" "no_term (typeBuf p')" "validSSEField (idBuf p')"
    "r = None \<Longrightarrow> parser_ok p'" "r = None \<or> r = Some (http_err ErrEventTooLarge)"
    "int (length (dataBuf p')) \<le> 2 * p_maxEventBytes p"
    using assms v by (auto simp: processField_value fv further_def parser_ok_def validSSEField_iff Let_def
        split: if_splits option.splits)
qed

lemma resetEventBuffers_simps [simp]:
  "parser_ok p \<Longrightarrow> parser_ok (resetEventBuffers p)" "between_events (resetEventBuffers p)"
  "further p (resetEventBuffers q) = further p q" "p_r (resetEventBuffers p) = p_r p"
  by (auto simp: resetEventBuffers_def parser_ok_def between_events_def further_def no_term_def)

text \<open>What \<open>Next\<close> promises: the outcome, and the state the parser is left in.\<close>

definition next_ok :: "SSEParser \<Rightarrow> err + SSEEvent \<Rightarrow> SSEParser \<Rightarrow> bool" where
  "next_ok p r p' \<longleftrightarrow>
     further p p' \<and> parser_ok p' \<and> between_events p'
     \<and> (case r of
          Inl e \<Rightarrow> e \<in> {io_EOF, io_ErrUnexpectedEOF, http_err ErrEventTooLarge, read_err (p_r p)}
        | Inr ev \<Rightarrow> int (length (ev_Data ev)) < p_maxEventBytes p \<and> validSSEField (ev_ID ev)
            \<and> no_term (ev_Name ev) \<and> length (b_bytes (p_r p')) < length (b_bytes (p_r p)))"

lemma next_ok_further:
  assumes "further p q" "next_ok q r p'"
  shows "next_ok p r p'"
proof -
  have "length (b_bytes (p_r q)) \<le> length (b_bytes (p_r p))"
    using assms(1) by (auto simp: further_def suffix_length_le)
  moreover have "read_err (p_r q) = read_err (p_r p)"
    using assms(1) by (simp add: further_def read_err_def)
  ultimately show ?thesis
    using assms further_trans [OF assms(1), of p'] by (auto simp: next_ok_def further_def split: sum.splits)
qed

lemma next_ok_error:
  assumes "further p q" "parser_ok q" "e \<in> {io_EOF, io_ErrUnexpectedEOF, http_err ErrEventTooLarge, read_err (p_r p)}"
  shows "next_ok p (Inl e) (resetEventBuffers q)"
  using assms by (simp add: next_ok_def)

lemma processField_error_ok:
  assumes "processField q l = (Some e, q')" "parser_ok q" "no_term l" "int (length l) \<le> p_maxEventBytes q"
  shows "next_ok q (Inl e) (resetEventBuffers q')"
  using processField_cases [OF assms] assms(2)
  by (auto simp: next_ok_def resetEventBuffers_def parser_ok_def between_events_def further_def no_term_def)

lemma Next_contract: "parser_ok p \<Longrightarrow> Next p = (r, p') \<Longrightarrow> next_ok p r p'"
proof (induction p arbitrary: r p' rule: Next.induct)
  case (1 p)
  obtain l q where rl: "readLine p = (l, q)" by fastforce
  have "0 \<le> p_maxEventBytes p" using "1.prems" by (simp add: parser_ok_def)
  note q = readLine_cases [OF rl this]
  have qok: "parser_ok q" using q "1.prems" by (simp add: parser_ok_def further_def)
  have q0: "further p (q\<lparr>typeBuf := t\<rparr>)" "parser_ok (q\<lparr>typeBuf := ''''\<rparr>)" for t
    using q(1) qok by (auto simp: further_def parser_ok_def no_term_def)
  show ?case
  proof (cases l)
    case (Inl e)
    have "between_events q \<Longrightarrow> resetEventBuffers q = q" by (simp add: between_events_def resetEventBuffers_def)
    then show ?thesis using "1.prems"(2) next_ok_error [OF q(1) qok] q(5) Inl
      by (subst (asm) Next.simps) (auto simp: rl between_events_def split: if_splits)
  next
    case (Inr line)
    with rl have rl': "(Inr line, q) = readLine p" by simp
    have lok: "no_term line" "int (length line) \<le> p_maxEventBytes q"
      using q(1,5) Inr by (auto simp: further_def)
    show ?thesis
    proof (cases line)
      case Nil
      show ?thesis
      proof (cases "dataBuf q = ''''")
        case True
        then have "Next p = Next (q\<lparr>typeBuf := ''''\<rparr>)"
          by (subst Next.simps) (simp add: rl Inr Nil)
        with "1.prems"(2) "1.IH"(1) [OF rl [symmetric] Inr Nil] True q0 show ?thesis
          by (auto intro: next_ok_further)
      next
        case False
        then have "Next p = (Inr \<lparr>ev_ID = idBuf q, ev_Name = typeBuf q, ev_Data = butlast (dataBuf q)\<rparr>, resetEventBuffers q)"
          by (subst Next.simps) (simp add: rl Inr Nil)
        moreover have "int (length (butlast (dataBuf q))) < p_maxEventBytes p"
          using False qok q(1) by (cases "dataBuf q") (auto simp: parser_ok_def further_def)
        ultimately show ?thesis using "1.prems"(2) q(1) qok readLine_shorter [OF rl']
          by (auto simp: next_ok_def parser_ok_def resetEventBuffers_def no_term_def further_def between_events_def)
      qed
    next
      case (Cons c cs)
      obtain x q' where pf: "processField q line = (x, q')" by fastforce
      note f = processField_cases [OF pf qok lok]
      consider "c = CHR '':''" | "c \<noteq> CHR '':''" "x = None" | e where "c \<noteq> CHR '':''" "x = Some e"
        by (cases x) auto
      then show ?thesis
      proof cases
        case 1
        then have "Next p = Next q" by (subst Next.simps) (simp add: rl Inr Cons)
        with 1 "1.prems"(2) "1.IH"(2) [OF rl [symmetric] Inr Cons] qok q(1) show ?thesis
          by (auto intro: next_ok_further)
      next
        case 2
        then have "Next p = Next q'" using pf by (subst Next.simps) (simp add: rl Inr Cons)
        with 2 "1.prems"(2) "1.IH"(3) [OF rl [symmetric] Inr Cons _ pf [symmetric]] f(1,4) q(1) show ?thesis
          by (auto intro: next_ok_further further_trans)
      next
        case 3
        then have "Next p = (Inl e, resetEventBuffers q')"
          using pf by (subst Next.simps) (simp add: rl Inr Cons)
        with 3 "1.prems"(2) processField_error_ok [OF _ qok lok] pf q(1) show ?thesis
          by (auto intro: next_ok_further)
      qed
    qed
  qed
qed

text \<open>
  C17. What \<open>Next\<close> returns on every stream, well formed or not: it always returns; a dispatched
  event is shorter than the cap, its id can be put on the wire again (no CR, LF or NUL) and
  its name is a single line, and it used up part of the stream; an error is the clean end, the
  end inside an event, the cap, or the reader's own error. Either way the parser is left
  between two events, so nothing of a discarded event reaches a later one, and its reader is
  further along the same stream. Field by field the data buffer never holds more than twice
  the cap.
\<close>

theorem sse_next_contract:
  assumes "parser_ok p"
  shows "case Next p of (r, p') \<Rightarrow>
      parser_ok p' \<and> between_events p' \<and> suffix (b_bytes (p_r p')) (b_bytes (p_r p))
      \<and> (case r of
           Inl e \<Rightarrow> e \<in> {io_EOF, io_ErrUnexpectedEOF, http_err ErrEventTooLarge, read_err (p_r p)}
         | Inr ev \<Rightarrow> int (length (ev_Data ev)) < p_maxEventBytes p \<and> validSSEField (ev_ID ev)
             \<and> no_term (ev_Name ev) \<and> b_bytes (p_r p') \<noteq> b_bytes (p_r p))
      \<and> (\<forall>l. no_term l \<and> int (length l) \<le> p_maxEventBytes p
             \<longrightarrow> int (length (dataBuf (snd (processField p l)))) \<le> 2 * p_maxEventBytes p)"
proof -
  obtain r p' where n: "Next p = (r, p')" by fastforce
  have "int (length (dataBuf (snd (processField p l)))) \<le> 2 * p_maxEventBytes p"
    if "no_term l" "int (length l) \<le> p_maxEventBytes p" for l
    using processField_cases(6) [OF _ assms that] by (cases "processField p l") auto
  then show ?thesis using Next_contract [OF assms n] n
    by (auto simp: next_ok_def further_def split: sum.splits)
qed

lemma newSSEParserWithCap_ok: "0 \<le> mx \<Longrightarrow> parser_ok (newSSEParserWithCap r mx)"
  by (simp add: newSSEParserWithCap_def parser_ok_def no_term_def validSSEField_def Let_def)

theorem sse_next_contract_witness:
  "int (length (dataBuf (snd (processField (newSSEParserWithCap NoBody 8) ''data: ab'')))) \<le> 16
   \<and> between_events (snd (Next (newSSEParserWithCap \<lparr>b_bytes = ''data: abcdefgh'' @ [LF], b_end = Some Canceled\<rparr> 8)))"
proof -
  have "no_term ''data: ab''" by (simp add: no_term_def)
  then show ?thesis
    using sse_next_contract [OF newSSEParserWithCap_ok [of 8 NoBody]]
      sse_next_contract [OF newSSEParserWithCap_ok [of 8 "\<lparr>b_bytes = ''data: abcdefgh'' @ [LF], b_end = Some Canceled\<rparr>"]]
    by (auto simp: newSSEParserWithCap_def split: prod.splits)
qed

section \<open>After an over-long line\<close>

lemma read_line_too_long:
  "no_term l \<Longrightarrow> int (length buf) \<le> mx \<Longrightarrow> int (length (buf @ l)) > mx \<Longrightarrow> read_line mx buf (l @ LF # s) = (TooLong, s)"
proof (induction l arbitrary: buf)
  case (Cons c l)
  have drain: "drain_line (l @ LF # s) = s" if "no_term l" for l
    using that by (induction l) (auto simp: no_term_def)
  from Cons show ?case by (auto simp: no_term_def Let_def drain)
qed simp

text \<open>
  The documented recovery from an oversized event does not hold when the event has lines
  after the over-long one: \<open>Next\<close> reports \<open>ErrEventTooLarge\<close> once the over-long line is drained,
  and the call after it dispatches the remaining lines of that same event as an event of its
  own, under the oversized event's id when the id line came first. The documentation says
  that the oversized event is skipped and that the following call resumes at the next event.
\<close>

theorem oversized_event_tail_dispatched:
  assumes "between_events p" "0 \<le> p_maxEventBytes p"
    and "b_bytes (p_r p) = ''data: '' @ big @ LF # data_lines tails @ LF # s"
    and "no_term big" "p_maxEventBytes p < int (length big)"
    and "tails \<noteq> []" "\<forall>l \<in> set tails. no_term l" "int (length (data_lines tails)) \<le> p_maxEventBytes p"
  shows "fst (Next p) = Inl (http_err ErrEventTooLarge)
    \<and> fst (Next (snd (Next p))) = Inr \<lparr>ev_ID = idBuf p, ev_Name = '''', ev_Data = butlast (unlines tails)\<rparr>"
proof -
  let ?t = "data_lines tails @ LF # s"
  have rl: "readLine p = (Inl (http_err ErrEventTooLarge), at_rest p ?t)"
    using read_line_too_long [of "''data: '' @ big" "''''" "p_maxEventBytes p" ?t] assms
    by (simp add: readLine_def at_rest_def no_term_def)
  have reset: "resetEventBuffers (at_rest p t) = at_rest p t" for t
    using assms(1) by (simp add: resetEventBuffers_def between_events_def at_rest_def)
  have n: "Next p = (Inl (http_err ErrEventTooLarge), at_rest p ?t)"
    by (subst Next.simps) (simp add: rl reset is_EOF_def is_UnexpectedEOF_def http_err_def)
  have "Next (at_rest p ?t) = Next ((at_rest p (LF # s))\<lparr>dataBuf := dataBuf p @ unlines tails\<rparr>)"
    using Next_data_lines [of "at_rest p ?t" tails "LF # s"] assms by (simp add: between_events_def)
  also have "\<dots> = (Inr \<lparr>ev_ID = idBuf p, ev_Name = '''', ev_Data = butlast (unlines tails)\<rparr>, at_rest p s)"
    using assms(1,2,6) by (subst Next_dispatch)
      (auto simp: between_events_def resetEventBuffers_def at_rest_def neq_Nil_conv)
  finally show ?thesis by (simp add: n)
qed

theorem oversized_event_tail_dispatched_witness:
  "next_events 2 (newSSEParserWithCap \<lparr>b_bytes = ''data: 123456789'' @ [LF] @ ''data: x'' @ [LF, LF], b_end = None\<rparr> 8)
   = [Inl (http_err ErrEventTooLarge), Inr \<lparr>ev_ID = '''', ev_Name = '''', ev_Data = ''x''\<rparr>]"
  using oversized_event_tail_dispatched [of "newSSEParserWithCap \<lparr>b_bytes = ''data: 123456789'' @ [LF] @ ''data: x'' @ [LF, LF], b_end = None\<rparr> 8"
      "''123456789''" "[''x'']" "''''"]
  by (auto simp: newSSEParserWithCap_def between_events_def sseBOM_def no_term_def numeral_2_eq_2 split: prod.splits)


end
