(* ===== verification/Sse_Server.thy ===== *)
theory Sse_Server
  imports Sse
begin

text \<open>
  The SSE server (\<^verbatim>\<open>adapter/http/sse_server.go\<close>). A server is a record; its connection table is a
  list of pairs of an identity and a connection, in the order one traversal of the Go map
  visits them (nothing below depends on that order). The operations are the critical sections of
  the code: \<open>Send\<close>, the registration at the start of \<open>ServeHTTP\<close>, the deferred removal at its end
  and the two phases of \<open>Close\<close>. The writer loop of each connection runs concurrently with them:
  \<open>sse_step\<close> is the interleaving of all of these, with what each connection has been
  written so far. The lemmas: the bounds on connections, buffers and ring hold in every
  reachable state, the ring holds the newest events, and each client sees the replay
  and then the events sent since, in order.
\<close>

section \<open>State\<close>

definition sseHeartbeat :: string where
  "sseHeartbeat = '': ping'' @ [LF, LF]"

record ringEntry =
  re_id :: string
  re_frame :: string

record sseConn =
  frames :: "string list"
  cancelled :: bool
  replay :: "string list"
  remote :: string
  warned :: bool
  dropped :: int

record 's SSEServer =
  s_cfg :: "'s Config"
  conns :: "(nat \<times> sseConn) list"
  s_closed :: bool
  ring :: "ringEntry list"

record dropNotice =
  dn_remote :: string
  dn_count :: int
  dn_warn :: bool

definition NewSSEServer :: "('s \<Rightarrow> time) \<Rightarrow> 's Option list \<Rightarrow> err + 's SSEServer" where
  "NewSSEServer wall opts =
     (case delegate_config ''msghttp.NewSSEServer'' wall opts of
        Inl e \<Rightarrow> Inl e
      | Inr cfg \<Rightarrow> Inr \<lparr>s_cfg = cfg, conns = [], s_closed = False, ring = []\<rparr>)"

section \<open>Replay ring\<close>

definition appendRing :: "'s SSEServer \<Rightarrow> ringEntry \<Rightarrow> 's SSEServer" where
  "appendRing s e =
     (let mx = replaySize (s_cfg s);
          r = (if int (length (ring s)) \<ge> mx
               then List.drop (nat (int (length (ring s)) - mx + 1)) (ring s) else ring s)
      in s\<lparr>ring := r @ [e]\<rparr>)"

text \<open>The index of the last entry with the id, by the loop of \<open>replayAfter\<close>: later matches overwrite.\<close>

fun last_index :: "string \<Rightarrow> nat \<Rightarrow> nat option \<Rightarrow> ringEntry list \<Rightarrow> nat option" where
  "last_index lastID i idx [] = idx"
| "last_index lastID i idx (e # es) =
     last_index lastID (Suc i) (if re_id e = lastID then Some i else idx) es"

definition replayAfter :: "'s SSEServer \<Rightarrow> string \<Rightarrow> string list" where
  "replayAfter s lastID =
     (case last_index lastID 0 None (ring s) of
        None \<Rightarrow> []
      | Some idx \<Rightarrow> map re_frame (List.drop (idx + 1) (ring s)))"

section \<open>Send\<close>

text \<open>One round of the loop over the connections: queue the frame, or disconnect, or drop and notice.\<close>

definition offer :: "'s Config \<Rightarrow> string \<Rightarrow> sseConn \<Rightarrow> sseConn \<times> dropNotice list" where
  "offer cfg frame c =
     (if int (length (frames c)) < connBuffer cfg then (c\<lparr>frames := frames c @ [frame]\<rparr>, [])
      else if slowPolicy cfg = SlowClientDisconnect then (c\<lparr>cancelled := True\<rparr>, [])
      else (c\<lparr>dropped := dropped c + 1, warned := True\<rparr>,
            [\<lparr>dn_remote = remote c, dn_count = dropped c + 1, dn_warn = \<not> warned c\<rparr>]))"

fun offer_all :: "'s Config \<Rightarrow> string \<Rightarrow> (nat \<times> sseConn) list \<Rightarrow> (nat \<times> sseConn) list \<times> dropNotice list" where
  "offer_all cfg frame [] = ([], [])"
| "offer_all cfg frame ((i, c) # cs) =
     (case offer cfg frame c of (c', ns) \<Rightarrow>
      case offer_all cfg frame cs of (cs', ms) \<Rightarrow> ((i, c') # cs', ns @ ms))"

definition SSEServer_Send :: "'s SSEServer \<Rightarrow> msg \<Rightarrow> err option \<times> dropNotice list \<times> 's SSEServer" where
  "SSEServer_Send s m =
     (case SSEEventFromMessage m (Some (s_cfg s)) of
        Inl e \<Rightarrow> (Permanent (Some e), [], s)
      | Inr ev \<Rightarrow>
          (let frame = sse_frame ev
           in if s_closed s then (Permanent (Some (http_err ErrSSEServerClosed)), [], s)
              else
                let s = (if replaySize (s_cfg s) > 0 \<and> ev_ID ev \<noteq> ''''
                         then appendRing s \<lparr>re_id = ev_ID ev, re_frame = frame\<rparr> else s)
                in case offer_all (s_cfg s) frame (conns s) of
                     (cs, notices) \<Rightarrow> (None, notices, s\<lparr>conns := cs\<rparr>)))"

section \<open>ServeHTTP and Close\<close>

text \<open>
  The part of \<open>ServeHTTP\<close> before the writer: a status the request is refused with, or the new
  connection in the table. \<open>flusher\<close> tells whether the response writer can flush; \<open>i\<close> is the
  identity of the connection it allocates.
\<close>

definition register_conn :: "'s SSEServer \<Rightarrow> httpRequest \<Rightarrow> bool \<Rightarrow> nat \<Rightarrow> (int + sseConn) \<times> 's SSEServer" where
  "register_conn s r flusher i =
     (if rq_Method r \<noteq> ''GET'' then (Inl 405, s)
      else if s_closed s then (Inl 503, s)
      else if int (length (conns s)) \<ge> maxConns (s_cfg s) then (Inl 503, s)
      else if \<not> flusher then (Inl 500, s)
      else
        let lastID = hdr_get (rq_Header r) ''Last-Event-ID'';
            rep = (if replaySize (s_cfg s) > 0 \<and> lastID \<noteq> '''' then replayAfter s lastID else []);
            conn = \<lparr>frames = [], cancelled = False, replay = rep, remote = rq_RemoteAddr r, warned = False, dropped = 0\<rparr>
        in (Inr conn, s\<lparr>conns := conns s @ [(i, conn)]\<rparr>))"

definition remove_conn :: "'s SSEServer \<Rightarrow> nat \<Rightarrow> 's SSEServer" where
  "remove_conn s i = s\<lparr>conns := filter (\<lambda>(j, c). j \<noteq> i) (conns s)\<rparr>"

definition update_conn :: "nat \<Rightarrow> (sseConn \<Rightarrow> sseConn) \<Rightarrow> 's SSEServer \<Rightarrow> 's SSEServer" where
  "update_conn i f s = s\<lparr>conns := map (\<lambda>(j, c). (j, if j = i then f c else c)) (conns s)\<rparr>"

text \<open>\<open>Close\<close>: under the lock, stop accepting and take the table; then cancel each; then wait for each.\<close>

definition close_locked :: "'s SSEServer \<Rightarrow> nat list \<times> 's SSEServer" where
  "close_locked s = (map fst (conns s), s\<lparr>s_closed := True\<rparr>)"

definition close_cancel :: "nat list \<Rightarrow> 's SSEServer \<Rightarrow> 's SSEServer" where
  "close_cancel is s = fold (\<lambda>i. update_conn i (\<lambda>c. c\<lparr>cancelled := True\<rparr>)) is s"

section \<open>The writer, interleaved\<close>

text \<open>
  The writer of a connection: replaying (with the frames still to replay), streaming, or
  returned (its deferred removal still to run). \<open>wrote\<close> is what was written to the client.
  The two ghost lists record what \<open>Send\<close> offered the connection since it was registered
  and which of that went into its buffer; no operation reads them.
\<close>

datatype writer = Replaying "string list" | Streaming | Returned

record conn_view =
  phase :: writer
  wrote :: "string list"
  g_offered :: "string list"
  g_queued :: "string list"
  g_replay :: "string list"

record 's system =
  srv :: "'s SSEServer"
  view :: "nat \<Rightarrow> conn_view"
  g_sent :: "ringEntry list"
  next_id :: nat

definition queues :: "'s Config \<Rightarrow> sseConn \<Rightarrow> bool" where
  "queues cfg c \<longleftrightarrow> int (length (frames c)) < connBuffer cfg"

text \<open>The ghost lists after a frame was offered to every connection in the table.\<close>

definition offered_view :: "'s Config \<Rightarrow> string \<Rightarrow> sseConn \<Rightarrow> conn_view \<Rightarrow> conn_view" where
  "offered_view cfg frame c v =
     v\<lparr>g_offered := g_offered v @ [frame], g_queued := g_queued v @ (if queues cfg c then [frame] else [])\<rparr>"

definition offered_views :: "'s Config \<Rightarrow> string \<Rightarrow> (nat \<times> sseConn) list \<Rightarrow> (nat \<Rightarrow> conn_view) \<Rightarrow> nat \<Rightarrow> conn_view" where
  "offered_views cfg frame cs v i =
     (case map_of cs i of
        None \<Rightarrow> v i
      | Some c \<Rightarrow> offered_view cfg frame c (v i))"

definition sys_send :: "'s system \<Rightarrow> msg \<Rightarrow> 's system" where
  "sys_send y m =
     (case SSEServer_Send (srv y) m of
        (Some e, _, s') \<Rightarrow> y\<lparr>srv := s'\<rparr>
      | (None, _, s') \<Rightarrow>
          (case SSEEventFromMessage m (Some (s_cfg (srv y))) of
             Inl _ \<Rightarrow> y
           | Inr ev \<Rightarrow>
               y\<lparr>srv := s',
                 view := offered_views (s_cfg (srv y)) (sse_frame ev) (conns (srv y)) (view y),
                 g_sent := g_sent y @ (if ev_ID ev \<noteq> '''' then [\<lparr>re_id = ev_ID ev, re_frame = sse_frame ev\<rparr>] else [])\<rparr>))"

definition sys_register :: "'s system \<Rightarrow> httpRequest \<Rightarrow> bool \<Rightarrow> 's system" where
  "sys_register y r flusher =
     (case register_conn (srv y) r flusher (next_id y) of
        (Inl status, s') \<Rightarrow> y\<lparr>srv := s'\<rparr>
      | (Inr c, s') \<Rightarrow>
          y\<lparr>srv := s', next_id := Suc (next_id y),
            view := (view y)(next_id y := \<lparr>phase = Replaying (replay c), wrote = [], g_offered = [], g_queued = [], g_replay = replay c\<rparr>)\<rparr>)"

definition set_phase :: "nat \<Rightarrow> writer \<Rightarrow> 's system \<Rightarrow> 's system" where
  "set_phase i ph y = y\<lparr>view := (view y)(i := (view y i)\<lparr>phase := ph\<rparr>)\<rparr>"

definition write_out :: "nat \<Rightarrow> string \<Rightarrow> 's system \<Rightarrow> 's system" where
  "write_out i f y = y\<lparr>view := (view y)(i := (view y i)\<lparr>wrote := wrote (view y i) @ [f]\<rparr>)\<rparr>"

definition take_frame :: "nat \<Rightarrow> 's system \<Rightarrow> 's system" where
  "take_frame i y = y\<lparr>srv := update_conn i (\<lambda>c. c\<lparr>frames := tl (frames c)\<rparr>) (srv y)\<rparr>"

abbreviation conn_at :: "'s system \<Rightarrow> nat \<Rightarrow> sseConn option" where
  "conn_at y i \<equiv> map_of (conns (srv y)) i"

text \<open>
  The steps of \<open>runWriter\<close>: a write succeeds (\<open>ok\<close>) or fails, and a failed write returns. A client
  that goes away cancels its request context at any moment.
\<close>

inductive sse_step :: "'s system \<Rightarrow> 's system \<Rightarrow> bool" where
  send: "sse_step y (sys_send y m)"
| register: "sse_step y (sys_register y r flusher)"
| client_gone: "sse_step y (y\<lparr>srv := update_conn i (\<lambda>c. c\<lparr>cancelled := True\<rparr>) (srv y)\<rparr>)"
| close: "sse_step y (y\<lparr>srv := snd (close_locked (srv y))\<rparr>)"
| replay_write: "conn_at y i \<noteq> None \<Longrightarrow> phase (view y i) = Replaying (f # fs) \<Longrightarrow>
    sse_step y (if ok then set_phase i (Replaying fs) (write_out i f y) else set_phase i Returned y)"
| replay_end: "conn_at y i \<noteq> None \<Longrightarrow> phase (view y i) = Replaying [] \<Longrightarrow> sse_step y (set_phase i Streaming y)"
| frame_write: "conn_at y i = Some c \<Longrightarrow> phase (view y i) = Streaming \<Longrightarrow> frames c = f # fs \<Longrightarrow>
    sse_step y (if ok then write_out i f (take_frame i y) else set_phase i Returned (take_frame i y))"
| heartbeat_write: "conn_at y i \<noteq> None \<Longrightarrow> phase (view y i) = Streaming \<Longrightarrow> heartbeatInterval (s_cfg (srv y)) > 0 \<Longrightarrow>
    sse_step y (if ok then write_out i sseHeartbeat y else set_phase i Returned y)"
| context_done: "conn_at y i = Some c \<Longrightarrow> phase (view y i) = Streaming \<Longrightarrow> cancelled c \<Longrightarrow>
    sse_step y (set_phase i Returned y)"
| cleanup: "phase (view y i) = Returned \<Longrightarrow> sse_step y (y\<lparr>srv := remove_conn (srv y) i\<rparr>)"

definition sse_start :: "'s Config \<Rightarrow> 's system" where
  "sse_start cfg =
     \<lparr>srv = \<lparr>s_cfg = cfg, conns = [], s_closed = False, ring = []\<rparr>,
      view = (\<lambda>_. \<lparr>phase = Streaming, wrote = [], g_offered = [], g_queued = [], g_replay = []\<rparr>), g_sent = [], next_id = 0\<rparr>"

inductive sse_reach :: "'s Config \<Rightarrow> 's system \<Rightarrow> bool" for cfg where
  start: "sse_reach cfg (sse_start cfg)"
| step: "sse_reach cfg y \<Longrightarrow> sse_step y y' \<Longrightarrow> sse_reach cfg y'"

section \<open>Lookups in the connection table\<close>

lemma map_of_offer_all:
  "map_of (fst (offer_all cfg f cs)) i = map_option (\<lambda>c. fst (offer cfg f c)) (map_of cs i)"
  "length (fst (offer_all cfg f cs)) = length cs"
  "map fst (fst (offer_all cfg f cs)) = map fst cs"
  by (induction cfg f cs rule: offer_all.induct) (auto split: prod.splits)

lemma map_of_update_conn [simp]:
  "map_of (conns (update_conn i f s)) j = map_option (\<lambda>c. if j = i then f c else c) (map_of (conns s) j)"
  "length (conns (update_conn i f s)) = length (conns s)" "s_cfg (update_conn i f s) = s_cfg s"
  "ring (update_conn i f s) = ring s" "fst ` set (conns (update_conn i f s)) = fst ` set (conns s)"
proof -
  have "map_of (map (\<lambda>(j, c). (j, if j = i then f c else c)) cs) j = map_option (\<lambda>c. if j = i then f c else c) (map_of cs j)" for cs
    by (induction cs) auto
  then show "map_of (conns (update_conn i f s)) j = map_option (\<lambda>c. if j = i then f c else c) (map_of (conns s) j)"
    by (simp add: update_conn_def)
qed (force simp: update_conn_def)+

lemma map_of_remove_conn [simp]:
  "map_of (conns (remove_conn s i)) j = (if j = i then None else map_of (conns s) j)"
  "length (conns (remove_conn s i)) \<le> length (conns s)" "s_cfg (remove_conn s i) = s_cfg s"
  "ring (remove_conn s i) = ring s" "fst ` set (conns (remove_conn s i)) \<subseteq> fst ` set (conns s)"
proof -
  have "map_of (filter (\<lambda>(j, c). j \<noteq> i) cs) j = (if j = i then None else map_of cs j)" for cs :: "(nat \<times> sseConn) list"
    by (induction cs) auto
  then show "map_of (conns (remove_conn s i)) j = (if j = i then None else map_of (conns s) j)"
    by (simp add: remove_conn_def)
qed (auto simp: remove_conn_def)

section \<open>The ring\<close>

lemma last_index_none: "lastID \<notin> re_id ` set es \<Longrightarrow> last_index lastID i idx es = idx"
  by (induction es arbitrary: i idx) auto

lemma last_index_found:
  "re_id e = lastID \<Longrightarrow> lastID \<notin> re_id ` set post \<Longrightarrow> last_index lastID i idx (pre @ e # post) = Some (i + length pre)"
  by (induction pre arbitrary: i idx) (auto simp: last_index_none)

lemma last_occurrence:
  "lastID \<in> re_id ` set es \<Longrightarrow> \<exists>pre e post. es = pre @ e # post \<and> re_id e = lastID \<and> lastID \<notin> re_id ` set post"
  using split_list_last_prop [of es "\<lambda>e. re_id e = lastID"] by (fastforce simp: image_iff)

definition newest :: "nat \<Rightarrow> 'a list \<Rightarrow> 'a list" where
  "newest n xs = List.drop (length xs - n) xs"

lemma appendRing_newest:
  assumes "ring s = newest (nat mx) xs" "mx = replaySize (s_cfg s)" "0 < mx"
  shows "ring (appendRing s e) = newest (nat mx) (xs @ [e])"
proof (cases "length xs < nat mx")
  case True
  with assms show ?thesis by (simp add: appendRing_def newest_def Let_def)
next
  case False
  then have "int (length (ring s)) = mx" using assms by (simp add: newest_def)
  with assms False show ?thesis by (simp add: appendRing_def newest_def Suc_diff_le Let_def)
qed

lemma replayAfter_newest:
  assumes "ring s = newest n (pre @ e # post)" "re_id e = lastID" "lastID \<notin> re_id ` set post"
  shows "replayAfter s lastID = (if length post < n then map re_frame post else [])"
proof (cases "length post < n")
  case True
  let ?k = "length pre + length post + 1 - n"
  have "ring s = List.drop ?k pre @ e # post" using True assms(1) by (simp add: newest_def)
  then show ?thesis using assms True last_index_found [of e lastID post 0 None "List.drop ?k pre"]
    by (simp add: replayAfter_def)
next
  case False
  then have "set (ring s) \<subseteq> set post"
    using assms(1) by (auto simp: newest_def Suc_diff_le dest: in_set_dropD)
  then have "lastID \<notin> re_id ` set (ring s)" using assms(3) by auto
  with False show ?thesis by (simp add: replayAfter_def last_index_none)
qed

section \<open>Invariant\<close>

definition data_only :: "string list \<Rightarrow> string list" where
  "data_only fs = filter (\<lambda>f. f \<noteq> sseHeartbeat) fs"

definition view_ok :: "conn_view \<Rightarrow> bool" where
  "view_ok v \<longleftrightarrow>
     subseq (g_queued v) (g_offered v) \<and> sseHeartbeat \<notin> set (g_replay v) \<union> set (g_offered v)
     \<and> prefix (data_only (wrote v)) (g_replay v @ g_queued v)"

definition conn_ok :: "'s Config \<Rightarrow> sseConn \<Rightarrow> conn_view \<Rightarrow> bool" where
  "conn_ok cfg c v \<longleftrightarrow>
     int (length (frames c)) \<le> connBuffer cfg
     \<and> (slowPolicy cfg \<noteq> SlowClientDisconnect \<longrightarrow> dropped c + int (length (g_queued v)) = int (length (g_offered v)))
     \<and> (case phase v of
          Replaying fs \<Rightarrow> data_only (wrote v) @ fs = g_replay v \<and> frames c = g_queued v
        | Streaming \<Rightarrow> data_only (wrote v) @ frames c = g_replay v @ g_queued v
        | Returned \<Rightarrow> True)"

definition sse_inv :: "'s Config \<Rightarrow> 's system \<Rightarrow> bool" where
  "sse_inv cfg y \<longleftrightarrow>
     s_cfg (srv y) = cfg \<and> int (length (conns (srv y))) \<le> maxConns cfg
     \<and> (\<forall>i \<in> fst ` set (conns (srv y)). i < next_id y)
     \<and> (replaySize cfg > 0 \<longrightarrow> ring (srv y) = newest (nat (replaySize cfg)) (g_sent y))
     \<and> (replaySize cfg \<le> 0 \<longrightarrow> ring (srv y) = [])
     \<and> sseHeartbeat \<notin> re_frame ` set (g_sent y)
     \<and> (\<forall>i. view_ok (view y i))
     \<and> (\<forall>i c. conn_at y i = Some c \<longrightarrow> conn_ok cfg c (view y i))"

lemma sse_invI:
  assumes "s_cfg (srv y) = cfg" "int (length (conns (srv y))) \<le> maxConns cfg"
    and "\<And>i. i \<in> fst ` set (conns (srv y)) \<Longrightarrow> i < next_id y"
    and "replaySize cfg > 0 \<Longrightarrow> ring (srv y) = newest (nat (replaySize cfg)) (g_sent y)"
    and "replaySize cfg \<le> 0 \<Longrightarrow> ring (srv y) = []" "sseHeartbeat \<notin> re_frame ` set (g_sent y)"
    and "\<And>i. view_ok (view y i)" "\<And>i c. conn_at y i = Some c \<Longrightarrow> conn_ok cfg c (view y i)"
  shows "sse_inv cfg y"
  using assms by (simp add: sse_inv_def)

lemma sse_invD:
  assumes "sse_inv cfg y"
  shows "s_cfg (srv y) = cfg" "int (length (conns (srv y))) \<le> maxConns cfg"
    and "\<And>i. i \<in> fst ` set (conns (srv y)) \<Longrightarrow> i < next_id y"
    and "replaySize cfg > 0 \<Longrightarrow> ring (srv y) = newest (nat (replaySize cfg)) (g_sent y)"
    and "replaySize cfg \<le> 0 \<Longrightarrow> ring (srv y) = []" "sseHeartbeat \<notin> re_frame ` set (g_sent y)"
    and "\<And>i. view_ok (view y i)" "\<And>i c. conn_at y i = Some c \<Longrightarrow> conn_ok cfg c (view y i)"
  using assms by (auto simp: sse_inv_def)

lemma sse_frame_not_heartbeat: "sse_frame ev \<noteq> sseHeartbeat"
proof -
  have "split_lf (sse_normalize (ev_Data ev)) \<noteq> []" by (rule split_lf_lines)
  then show ?thesis
    by (cases "split_lf (sse_normalize (ev_Data ev))") (auto simp: sse_frame_def sseHeartbeat_def)
qed

lemma data_only_simps [simp]:
  "data_only (xs @ [sseHeartbeat]) = data_only xs" "f \<noteq> sseHeartbeat \<Longrightarrow> data_only (xs @ [f]) = data_only xs @ [f]"
  "data_only [] = []"
  by (simp_all add: data_only_def)

lemma inv_start: "config_ok cfg \<Longrightarrow> sse_inv cfg (sse_start cfg)"
  by (auto simp: sse_inv_def sse_start_def newest_def view_ok_def config_ok_def conns_ok_def
      in_range_def maxConns_def)

text \<open>Offering a frame to a connection keeps its invariant.\<close>

lemma offered_view_ok:
  "view_ok v \<Longrightarrow> f \<noteq> sseHeartbeat \<Longrightarrow> view_ok (offered_view cfg f c v)"
  using list_emb_append_mono [of "(=)" "g_queued v" "g_offered v" "[]" "[f]"]
    list_emb_append_mono [of "(=)" "g_queued v" "g_offered v" "[f]" "[f]"]
    prefix_prefix [of "data_only (wrote v)" "g_replay v @ g_queued v" "[f]"]
  by (auto simp: view_ok_def offered_view_def)

lemma offered_conn_ok:
  "conn_ok cfg c v \<Longrightarrow>
   conn_ok cfg (fst (offer cfg f c)) (offered_view cfg f c v)"
  by (auto simp: conn_ok_def offer_def queues_def offered_view_def split: writer.splits)

lemma SSEServer_Send_ok:
  assumes "SSEServer_Send s m = (None, ns, s')"
  obtains ev where "SSEEventFromMessage m (Some (s_cfg s)) = Inr ev" "\<not> s_closed s"
    "s_cfg s' = s_cfg s" "conns s' = fst (offer_all (s_cfg s) (sse_frame ev) (conns s))"
    "ring s' = (if replaySize (s_cfg s) > 0 \<and> ev_ID ev \<noteq> ''''
                then ring (appendRing s \<lparr>re_id = ev_ID ev, re_frame = sse_frame ev\<rparr>) else ring s)"
  using assms
  by (auto simp: SSEServer_Send_def appendRing_def Let_def split: sum.splits if_splits prod.splits)

lemma SSEServer_Send_error: "SSEServer_Send s m = (Some e, ns, s') \<Longrightarrow> s' = s"
  by (auto simp: SSEServer_Send_def Let_def split: sum.splits if_splits prod.splits)

lemma inv_send:
  assumes inv: "sse_inv cfg y"
  shows "sse_inv cfg (sys_send y m)"
proof (cases "SSEServer_Send (srv y) m")
  case (fields r ns s')
  note I = sse_invD [OF inv]
  show ?thesis
  proof (cases r)
    case (Some e)
    then have "sys_send y m = y" using SSEServer_Send_error [of "srv y" m e ns s'] fields by (simp add: sys_send_def)
    with inv show ?thesis by simp
  next
    case None
    obtain ev where ev: "SSEEventFromMessage m (Some cfg) = Inr ev"
      "s_cfg s' = cfg" "conns s' = fst (offer_all cfg (sse_frame ev) (conns (srv y)))"
      "ring s' = (if replaySize cfg > 0 \<and> ev_ID ev \<noteq> ''''
                  then ring (appendRing (srv y) \<lparr>re_id = ev_ID ev, re_frame = sse_frame ev\<rparr>) else ring (srv y))"
      using SSEServer_Send_ok [of "srv y" m ns s'] fields None I(1) by metis
    let ?y = "sys_send y m"
    have y': "srv ?y = s'" "view ?y = offered_views cfg (sse_frame ev) (conns (srv y)) (view y)"
      "g_sent ?y = g_sent y @ (if ev_ID ev \<noteq> '''' then [\<lparr>re_id = ev_ID ev, re_frame = sse_frame ev\<rparr>] else [])"
      "next_id ?y = next_id y"
      using fields None ev I(1) by (simp_all add: sys_send_def)
    show ?thesis
    proof (rule sse_invI)
      show "s_cfg (srv ?y) = cfg" "int (length (conns (srv ?y))) \<le> maxConns cfg"
        using I(2) by (simp_all add: y' ev map_of_offer_all)
      have "fst ` set (conns s') = fst ` set (conns (srv y))"
        using map_of_offer_all(3) [of cfg "sse_frame ev" "conns (srv y)"] ev(3) by (metis set_map)
      then show "i < next_id ?y" if "i \<in> fst ` set (conns (srv ?y))" for i
        using that I(3) by (simp add: y')
      show "ring (srv ?y) = newest (nat (replaySize cfg)) (g_sent ?y)" if n: "replaySize cfg > 0"
        using ev(4) appendRing_newest [OF I(4) [OF n] _ n] I(4) [OF n] n I(1) by (simp add: y')
      show "ring (srv ?y) = []" if "replaySize cfg \<le> 0" using that I(5) ev(4) by (simp add: y')
      show "sseHeartbeat \<notin> re_frame ` set (g_sent ?y)"
        using I(6) sse_frame_not_heartbeat [of ev] by (auto simp: y')
      show "view_ok (view ?y i)" for i
        using I(7) offered_view_ok [OF _ sse_frame_not_heartbeat, of "view y i"]
        by (auto simp: y' offered_views_def split: option.splits)
      show "conn_ok cfg c (view ?y i)" if "conn_at ?y i = Some c" for i c
      proof -
        from that obtain z where z: "conn_at y i = Some z" "c = fst (offer cfg (sse_frame ev) z)"
          by (auto simp: y' ev map_of_offer_all)
        show ?thesis using offered_conn_ok [OF I(8) [OF z(1)]] by (simp add: z y' offered_views_def)
      qed
    qed
  qed
qed

lemma replayAfter_frames:
  assumes "sse_inv cfg y"
  shows "sseHeartbeat \<notin> set (replayAfter (srv y) l)"
proof -
  have "set (ring (srv y)) \<subseteq> set (g_sent y)"
    using sse_invD(4,5) [OF assms] by (cases "replaySize cfg > 0") (auto simp: newest_def dest: in_set_dropD)
  then have "sseHeartbeat \<notin> re_frame ` set (ring (srv y))" using sse_invD(6) [OF assms] by auto
  then show ?thesis by (auto simp: replayAfter_def image_iff dest!: in_set_dropD split: option.splits)
qed

lemma inv_register:
  assumes inv: "sse_inv cfg y" and buf: "0 \<le> connBuffer cfg"
  shows "sse_inv cfg (sys_register y r flusher)"
proof (cases "register_conn (srv y) r flusher (next_id y)")
  case (Pair res s')
  note I = sse_invD [OF inv]
  show ?thesis
  proof (cases res)
    case (Inl st)
    then have "sys_register y r flusher = y" using Pair
      by (auto simp: sys_register_def register_conn_def Let_def split: if_splits)
    with inv show ?thesis by simp
  next
    case (Inr c)
    have c: "frames c = []" "dropped c = 0" "sseHeartbeat \<notin> set (replay c)"
      and s': "conns s' = conns (srv y) @ [(next_id y, c)]" "ring s' = ring (srv y)" "s_cfg s' = s_cfg (srv y)"
      and room: "int (length (conns (srv y))) < maxConns (s_cfg (srv y))"
      using Pair Inr replayAfter_frames [OF inv] by (auto simp: register_conn_def Let_def split: if_splits)
    let ?y = "sys_register y r flusher"
    let ?v = "\<lparr>phase = Replaying (replay c), wrote = [], g_offered = [], g_queued = [], g_replay = replay c\<rparr>"
    have y': "srv ?y = s'" "next_id ?y = Suc (next_id y)" "view ?y = (view y)(next_id y := ?v)" "g_sent ?y = g_sent y"
      using Pair Inr by (simp_all add: sys_register_def)
    have fresh: "map_of (conns (srv y)) (next_id y) = None"
      using I(3) [of "next_id y"] by (auto simp: map_of_eq_None_iff)
    show ?thesis
    proof (rule sse_invI)
      show "i < next_id ?y" if "i \<in> fst ` set (conns (srv ?y))" for i
        using that I(3) [of i] by (auto simp: y' s' image_iff less_Suc_eq)
      show "view_ok (view ?y i)" for i
        using I(7) c(3) by (simp add: y' view_ok_def)
      show "conn_ok cfg d (view ?y i)" if "conn_at ?y i = Some d" for i d
        using that I(8) [of i d] fresh c buf
        by (auto simp: y' s' conn_ok_def map_add_Some_iff split: if_splits)
    qed (use I(1,2,4,5,6) room in \<open>auto simp: y' s'\<close>)
  qed
qed

text \<open>
  A step that changes one connection and its view keeps the invariant when that connection's
  part of it is kept: the frame rule of the writers.
\<close>

lemma inv_local:
  assumes inv: "sse_inv cfg y"
    and same: "s_cfg (srv y') = s_cfg (srv y)" "ring (srv y') = ring (srv y)" "g_sent y' = g_sent y"
      "next_id y' = next_id y" "length (conns (srv y')) \<le> length (conns (srv y))"
    and dom: "fst ` set (conns (srv y')) \<subseteq> fst ` set (conns (srv y))"
    and v: "\<And>i. view_ok (view y i) \<Longrightarrow> view_ok (view y' i)"
    and c: "\<And>i d. conn_at y' i = Some d \<Longrightarrow>
              \<exists>d0. conn_at y i = Some d0 \<and> (conn_ok cfg d0 (view y i) \<longrightarrow> view_ok (view y i) \<longrightarrow> conn_ok cfg d (view y' i))"
  shows "sse_inv cfg y'"
proof (rule sse_invI)
  note I = sse_invD [OF inv]
  show "i < next_id y'" if "i \<in> fst ` set (conns (srv y'))" for i
    using I(3) [of i] that dom same(4) by auto
  show "conn_ok cfg d (view y' i)" if "conn_at y' i = Some d" for i d
    using c [OF that] I(7,8) by blast
qed (use sse_invD [OF inv] same v in auto)

lemma conn_okD:
  assumes "conn_ok cfg c v" "view_ok v"
  shows "phase v = Replaying fs \<Longrightarrow> data_only (wrote v) @ fs = g_replay v"
    and "phase v = Streaming \<Longrightarrow> data_only (wrote v) @ frames c = g_replay v @ g_queued v"
  using assms by (auto simp: conn_ok_def)

lemma view_ok_no_heartbeat:
  assumes "view_ok v" "xs @ f # ys = g_replay v @ g_queued v"
  shows "f \<noteq> sseHeartbeat"
proof -
  have "f \<in> set (g_replay v @ g_queued v)" using assms(2) [symmetric] by simp
  moreover have "set (g_queued v) \<subseteq> set (g_offered v)" using assms(1) by (auto simp: view_ok_def elim: list_emb_set)
  ultimately show ?thesis using assms(1) by (auto simp: view_ok_def)
qed

lemma inv_replay_write:
  assumes inv: "sse_inv cfg y" and ph: "phase (view y i) = Replaying (f # fs)" and c: "conn_at y i \<noteq> None"
  shows "sse_inv cfg (set_phase i (Replaying fs) (write_out i f y))"
proof -
  from c obtain d where d: "conn_at y i = Some d" by auto
  note ok = sse_invD(8) [OF inv d] sse_invD(7) [OF inv, of i]
  have e: "data_only (wrote (view y i)) @ f # fs = g_replay (view y i)" using conn_okD(1) [OF ok ph] .
  then have f: "f \<noteq> sseHeartbeat" using view_ok_no_heartbeat [OF ok(2), of _ f "fs @ g_queued (view y i)"]
    by (metis append.assoc append_Cons)
  have p: "prefix (data_only (wrote (view y i)) @ [f]) (g_replay (view y i) @ g_queued (view y i))"
    by (simp add: e [symmetric])
  show ?thesis
    by (rule inv_local [OF inv])
      (use f e p ph in \<open>auto simp: set_phase_def write_out_def view_ok_def conn_ok_def\<close>)
qed

lemma inv_frame_write:
  assumes inv: "sse_inv cfg y" and ph: "phase (view y i) = Streaming" and d: "conn_at y i = Some d"
    and fr: "frames d = f # fs"
  shows "sse_inv cfg (write_out i f (take_frame i y))"
proof -
  note ok = sse_invD(8) [OF inv d] sse_invD(7) [OF inv, of i]
  have e: "data_only (wrote (view y i)) @ f # fs = g_replay (view y i) @ g_queued (view y i)"
    using conn_okD(2) [OF ok ph] fr by simp
  have f: "f \<noteq> sseHeartbeat" using view_ok_no_heartbeat [OF ok(2) e] .
  have p: "prefix (data_only (wrote (view y i)) @ [f]) (g_replay (view y i) @ g_queued (view y i))"
    by (simp add: e [symmetric])
  show ?thesis
    by (rule inv_local [OF inv])
      (use f e p ph d fr in \<open>auto simp: take_frame_def write_out_def view_ok_def conn_ok_def\<close>)
qed

lemma inv_returned: "sse_inv cfg y \<Longrightarrow> sse_inv cfg (set_phase i Returned y)"
  by (rule inv_local) (auto simp: set_phase_def view_ok_def conn_ok_def)

lemma inv_frame_fail:
  assumes inv: "sse_inv cfg y"
  shows "sse_inv cfg (set_phase i Returned (take_frame i y))"
proof (rule inv_local [OF inv], goal_cases)
  case (8 j d)
  then show ?case by (auto simp: set_phase_def take_frame_def conn_ok_def)
qed (auto simp: set_phase_def take_frame_def view_ok_def)

lemma inv_heartbeat: "sse_inv cfg y \<Longrightarrow> sse_inv cfg (write_out i sseHeartbeat y)"
  by (rule inv_local) (auto simp: write_out_def view_ok_def conn_ok_def split: writer.splits)

lemma inv_streaming:
  "sse_inv cfg y \<Longrightarrow> phase (view y i) = Replaying [] \<Longrightarrow> sse_inv cfg (set_phase i Streaming y)"
  by (rule inv_local) (auto simp: set_phase_def view_ok_def conn_ok_def)

lemma inv_cancel: "sse_inv cfg y \<Longrightarrow> sse_inv cfg (y\<lparr>srv := update_conn i (\<lambda>c. c\<lparr>cancelled := True\<rparr>) (srv y)\<rparr>)"
  by (rule inv_local) (auto simp: conn_ok_def split: writer.splits)

lemma inv_close: "sse_inv cfg y \<Longrightarrow> sse_inv cfg (y\<lparr>srv := snd (close_locked (srv y))\<rparr>)"
  by (rule inv_local) (auto simp: close_locked_def)

lemma inv_cleanup: "sse_inv cfg y \<Longrightarrow> sse_inv cfg (y\<lparr>srv := remove_conn (srv y) i\<rparr>)"
  by (rule inv_local) (auto simp del: map_of_remove_conn(2) intro: map_of_remove_conn(2)
      dest: subsetD [OF map_of_remove_conn(5)] split: if_splits)

lemmas inv_steps = inv_send inv_register inv_cancel inv_close inv_replay_write inv_returned inv_streaming
  inv_frame_write inv_frame_fail inv_heartbeat inv_cleanup

lemma inv_step:
  assumes "sse_step y y'" "sse_inv cfg y" "0 \<le> connBuffer cfg"
  shows "sse_inv cfg y'"
  using assms by (cases rule: sse_step.cases) (auto intro: inv_steps)

lemma sse_reach_inv: "sse_reach cfg y \<Longrightarrow> config_ok cfg \<Longrightarrow> sse_inv cfg y"
proof (induction rule: sse_reach.induct)
  case (step y y')
  have "0 \<le> connBuffer cfg" using step.prems by (simp add: config_ok_def conns_ok_def in_range_def connBuffer_def)
  with step show ?case by (blast intro: inv_step)
qed (rule inv_start)

section \<open>Properties\<close>

text \<open>
  C15. Isolation and order of the SSE fan-out. Under every interleaving of sends, connects,
  disconnects, writer steps and a close, what a client has been written is, heartbeats aside, a
  prefix of its replay followed by the frames that entered its buffer, and those are a
  subsequence of what was sent since it connected: nothing is duplicated, reordered or
  invented. No connection buffers more than its bound, so a stalled client costs the others
  nothing and \<open>Send\<close> never blocks; under the drop policy the frames missing from its buffer
  are exactly those counted as dropped. The table never exceeds the connection limit and the
  ring never the replay size.
\<close>

theorem sse_fan_out_ordered:
  assumes "config_ok cfg" "sse_reach cfg y"
  shows "prefix (data_only (wrote (view y i))) (g_replay (view y i) @ g_queued (view y i))
    \<and> subseq (g_queued (view y i)) (g_offered (view y i))
    \<and> (\<forall>c. conn_at y i = Some c \<longrightarrow> int (length (frames c)) \<le> connBuffer cfg
         \<and> (slowPolicy cfg = SlowClientDrop \<longrightarrow>
              dropped c = int (length (g_offered (view y i))) - int (length (g_queued (view y i))))
         \<and> (phase (view y i) = Streaming \<longrightarrow>
              data_only (wrote (view y i)) @ frames c = g_replay (view y i) @ g_queued (view y i)))
    \<and> int (length (conns (srv y))) \<le> maxConns cfg
    \<and> int (length (ring (srv y))) \<le> max 0 (replaySize cfg)"
proof -
  note I = sse_invD [OF sse_reach_inv [OF assms(2,1)]]
  have "int (length (ring (srv y))) \<le> max 0 (replaySize cfg)"
    using I(4,5) by (cases "replaySize cfg > 0") (auto simp: newest_def)
  moreover have "int (length (frames c)) \<le> connBuffer cfg
      \<and> (slowPolicy cfg = SlowClientDrop \<longrightarrow>
           dropped c = int (length (g_offered (view y i))) - int (length (g_queued (view y i))))
      \<and> (phase (view y i) = Streaming \<longrightarrow>
           data_only (wrote (view y i)) @ frames c = g_replay (view y i) @ g_queued (view y i))"
    if "conn_at y i = Some c" for c
    using I(8) [OF that] by (auto simp: conn_ok_def)
  ultimately show ?thesis using I(2) I(7) [of i] by (simp add: view_ok_def)
qed


text \<open>A configuration with a ring of two, and what two clients of it see.\<close>

definition demo_cfg :: "unit Config" where
  "demo_cfg = fill_client (\<lambda>_. 0) (zeroConfig
     \<lparr>maxBodyBytes := 1, successStatus := 202, maxResponseBytes := 1, maxEventBytes := 1, maxConnections := 2,
      connectionBuffer := 1, replayBuffer := 2, writeTimeout := 1, reconnectMin := 1, reconnectMax := 1,
      sseClock := Some (\<lambda>_. 0)\<rparr>)"

definition demo_msg :: "string \<Rightarrow> msg" where
  "demo_msg i = \<lparr>payload = GString i, headers = [HeaderMessageID \<mapsto> GString i]\<rparr>"

definition demo_req :: "string \<Rightarrow> httpRequest" where
  "demo_req lid = \<lparr>rq_Method = ''GET'', rq_Path = ''/'', rq_RawQuery = '''',
     rq_Header = [''Last-Event-Id'' \<mapsto> [lid]], rq_Body = None, rq_RemoteAddr = ''c''\<rparr>"

lemma demo_cfg_simps [simp]:
  "config_ok demo_cfg" "replaySize demo_cfg = 2" "maxConns demo_cfg = 2" "connBuffer demo_cfg = 1"
  "slowPolicy demo_cfg = SlowClientDrop" "eventNameOrDefault (Some demo_cfg) = ''''"
proof -
  show "config_ok demo_cfg"
    unfolding demo_cfg_def by (subst fill_client_config_ok) (simp add: zeroConfig_def ok_defs in_range_def)
qed (simp_all add: demo_cfg_def fill_client_def zeroConfig_def replaySize_def maxConns_def connBuffer_def
    slowPolicy_def eventNameOrDefault_def Let_def)

definition demo_system :: "unit system" where
  "demo_system = sys_send (sys_send (sys_send (sys_register (sse_start demo_cfg) (demo_req '''') True) (demo_msg ''1'')) (demo_msg ''2'')) (demo_msg ''3'')"

lemma demo_reach: "sse_reach demo_cfg demo_system"
  unfolding demo_system_def
  by (rule sse_reach.step [OF sse_reach.step [OF sse_reach.step [OF sse_reach.step [OF sse_reach.start]]]])
    (rule sse_step.send sse_step.register)+

lemma demo_event: "SSEEventFromMessage (demo_msg i) (Some demo_cfg) = (if validSSEField i then Inr \<lparr>ev_ID = i, ev_Name = '''', ev_Data = i\<rparr> else Inl (http_err ErrInvalidEventField))"
  by (simp add: SSEEventFromMessage_def demo_msg_def payloadBytes_def Headers_String_def ID_def validSSEField_def)

lemma canonical_last_event_id: "CanonicalHeaderKey ''Last-Event-ID'' = ''Last-Event-Id''"
  by code_simp

lemmas demo_eval = demo_system_def sys_send_def sys_register_def SSEServer_Send_def demo_event register_conn_def
  sse_start_def appendRing_def offer_def Let_def validSSEField_def

lemma demo_system_eval:
  "srv demo_system =
     \<lparr>s_cfg = demo_cfg,
      conns = [(0, \<lparr>frames = [sse_frame \<lparr>ev_ID = ''1'', ev_Name = '''', ev_Data = ''1''\<rparr>], cancelled = False,
                    replay = [], remote = ''c'', warned = True, dropped = 2\<rparr>)],
      s_closed = False,
      ring = map (\<lambda>i. \<lparr>re_id = i, re_frame = sse_frame \<lparr>ev_ID = i, ev_Name = '''', ev_Data = i\<rparr>\<rparr>) [''2'', ''3'']\<rparr>"
  "g_sent demo_system = map (\<lambda>i. \<lparr>re_id = i, re_frame = sse_frame \<lparr>ev_ID = i, ev_Name = '''', ev_Data = i\<rparr>\<rparr>) [''1'', ''2'', ''3'']"
  by (simp_all add: demo_eval demo_req_def hdr_get_def canonical_last_event_id)

theorem sse_fan_out_ordered_witness:
  "prefix (data_only (wrote (view demo_system 0))) (g_replay (view demo_system 0) @ g_queued (view demo_system 0))
   \<and> int (length (g_offered (view demo_system 0))) - int (length (g_queued (view demo_system 0))) = 2"
  using sse_fan_out_ordered [OF demo_cfg_simps(1) demo_reach, of 0] by (simp add: demo_system_eval)


text \<open>Once closed, the server takes no event and no connection, and its table only shrinks.\<close>

lemma closed_refuses:
  assumes "s_closed s"
  shows "fst (SSEServer_Send s m) \<noteq> None" "IsPermanent (fst (SSEServer_Send s m))"
    "isl (fst (register_conn s r flusher i))" "snd (register_conn s r flusher i) = s"
  using assms by (auto simp: SSEServer_Send_def register_conn_def IsPermanent_iff Let_def split: sum.splits)


end
