(* ===== verification/Sse_Client.thy ===== *)
theory Sse_Client
  imports Sse
begin

text \<open>
  The SSE client (\<^verbatim>\<open>adapter/http/sseclient.go\<close>). \<open>connect\<close> is one connection attempt over a world:
  \<open>http_Do\<close> is the client's \<^verbatim>\<open>Do\<close>, with the body as it will be read (a body the idle watchdog cut off
  ends with the read error); \<open>emit\<close> is the select that sends a delivery or sees the context
  done; \<open>wait\<close> is \<open>backoffWait\<close>; \<open>parse_mt\<close> is \<^verbatim>\<open>mime.ParseMediaType\<close>, with \<open>None\<close> for its error. \<open>Stream\<close>
  may run for ever, so it is a partial function and \<open>None\<close> is not returning. The
  lemmas: every pause between two connections lies within the configured bounds, what ends
  the stream, and what becomes of the resume position.
\<close>

section \<open>Construction\<close>

record 's SSEClient =
  sc_url :: string
  sc_client :: httpClient
  sc_cfg :: "'s Config"

definition resolveSSEClient :: "'s Config \<Rightarrow> httpClient" where
  "resolveSSEClient cfg =
     (if httpClientSet cfg then
        (let c = the (httpClient cfg)
         in if followRedirects cfg \<or> hc_CheckRedirect c \<noteq> None then c
            else c\<lparr>hc_CheckRedirect := Some UseLastResponse\<rparr>)
      else
        (let c = \<lparr>hc_Timeout = 0, hc_CheckRedirect = None, hc_Transport = 0\<rparr>
         in if \<not> followRedirects cfg then c\<lparr>hc_CheckRedirect := Some UseLastResponse\<rparr> else c))"

text \<open>
  \<^verbatim>\<open>url.Parse\<close> is the parameter \<open>parse_url\<close>: the scheme and the host, or \<open>None\<close> for its error.
\<close>

definition validateURL :: "(string \<Rightarrow> (string \<times> string) option) \<Rightarrow> string \<Rightarrow> err option" where
  "validateURL parse_url raw =
     (if trim_space raw = '''' then Some (http_err ErrEmptyURL)
      else case parse_url raw of
        None \<Rightarrow> Some (http_err ErrInvalidURL)
      | Some (scheme, host) \<Rightarrow>
          (if scheme \<noteq> ''http'' \<and> scheme \<noteq> ''https'' then Some (http_err ErrInvalidURL)
           else if host = '''' then Some (http_err ErrInvalidURL)
           else None))"

definition NewSSEClient ::
  "('s \<Rightarrow> time) \<Rightarrow> (string \<Rightarrow> (string \<times> string) option) \<Rightarrow> string \<Rightarrow> 's Option list \<Rightarrow> err + 's SSEClient" where
  "NewSSEClient wall parse_url url opts =
     (case delegate_config ''msghttp.NewSSEClient'' wall opts of
        Inl e \<Rightarrow> Inl e
      | Inr cfg \<Rightarrow>
          (case validateURL parse_url url of
             Some e \<Rightarrow> Inl e
           | None \<Rightarrow> Inr \<lparr>sc_url = url, sc_client = resolveSSEClient cfg, sc_cfg = cfg\<rparr>))"

definition NativeRedelivery :: "'s SSEClient \<Rightarrow> bool" where "NativeRedelivery c = False"
definition NativeDeadLetter :: "'s SSEClient \<Rightarrow> bool" where "NativeDeadLetter c = False"

section \<open>Pacing\<close>

definition clampDelay :: "duration \<Rightarrow> duration \<Rightarrow> duration \<Rightarrow> duration" where
  "clampDelay d minD maxD = (if d < minD then minD else if d > maxD then maxD else d)"

definition doubleDelay :: "duration \<Rightarrow> duration \<Rightarrow> duration" where
  "doubleDelay d maxD = (let nxt = wrap64 (d * 2) in if nxt \<le> 0 \<or> nxt > maxD then maxD else nxt)"

section \<open>One connection\<close>

record connResult =
  terminal :: bool
  terminalErr :: "err option"
  gotEvent :: bool
  cr_retry :: duration
  cr_hasRetry :: bool
  lastEventID :: string

definition connResult0 :: "string \<Rightarrow> connResult" where
  "connResult0 lid =
     \<lparr>terminal = False, terminalErr = None, gotEvent = False, cr_retry = 0, cr_hasRetry = False, lastEventID = lid\<rparr>"

datatype sseTriageOutcome = sseTriageStream | sseTriageDone | sseTriageWrongType | sseTriageReconnect

definition classifySSEResponse :: "(string \<Rightarrow> string option) \<Rightarrow> httpResponse \<Rightarrow> sseTriageOutcome" where
  "classifySSEResponse parse_mt resp =
     (if rs_StatusCode resp = 200 then
        (case parse_mt (hdr_get (rs_Header resp) ''Content-Type'') of
           Some mt \<Rightarrow> if mt = ''text/event-stream'' then sseTriageStream else sseTriageWrongType
         | None \<Rightarrow> sseTriageWrongType)
      else if rs_StatusCode resp = 204 then sseTriageDone
      else sseTriageReconnect)"

text \<open>The message of an event; \<open>now\<close> is the stream clock's reading and \<open>b\<close> the random bytes of its id.\<close>

definition event_message :: "time \<Rightarrow> string \<Rightarrow> SSEEvent \<Rightarrow> msg" where
  "event_message now b ev =
     (let m = New now b (GBytes (ev_Data ev)) [WithClock (Some now)];
          m = (if ev_Name ev \<noteq> '''' then WithHeader m HeaderSSEEventName (GString (ev_Name ev)) else m)
      in if ev_ID ev \<noteq> '''' then WithHeader m HeaderSSEEventID (GString (ev_ID ev)) else m)"

lemma Next_shorter:
  "Next p = (Inr ev, p') \<Longrightarrow> length (b_bytes (p_r p')) < length (b_bytes (p_r p))"
proof (induction p arbitrary: ev p' rule: Next.induct)
  case (1 p)
  from "1.prems" obtain line q where rl: "readLine p = (Inr line, q)"
    by (subst (asm) Next.simps) (auto split: prod.splits sum.splits if_splits)
  have q: "length (b_bytes (p_r q)) < length (b_bytes (p_r p))" by (rule readLine_shorter) (simp add: rl)
  show ?case
  proof (cases line)
    case Nil
    then show ?thesis using "1.prems" "1.IH"(1) [OF rl [symmetric] refl Nil] rl q
      by (subst (asm) Next.simps) (fastforce split: if_splits)
  next
    case (Cons c cs)
    obtain x q' where pf: "processField q line = (x, q')" by fastforce
    then have q': "p_r q' = p_r q" using processField_reader [of q line] by simp
    consider "c = CHR '':''" | "c \<noteq> CHR '':''" "x = None" using "1.prems" rl pf Cons
      by (subst (asm) Next.simps) (cases x; auto split: if_splits)
    then show ?thesis
    proof cases
      case 1
      then show ?thesis using "1.prems" "1.IH"(2) [OF rl [symmetric] refl Cons] rl q Cons
        by (subst (asm) Next.simps) fastforce
    next
      case 2
      then show ?thesis using "1.prems" "1.IH"(3) [OF rl [symmetric] refl Cons _ pf [symmetric]] rl q q' Cons pf
        by (subst (asm) Next.simps) fastforce
    qed
  qed
qed

function read_loop ::
  "(msg \<Rightarrow> ('s, err option) prog) \<Rightarrow> ('s \<Rightarrow> time) \<Rightarrow> ('s \<Rightarrow> string) \<Rightarrow> SSEParser \<Rightarrow> bool \<Rightarrow> ('s, connResult) prog" where
  "read_loop emit now rnd p got s =
     (case Next p of
        (Inl e, p') \<Rightarrow>
          (Val ((connResult0 (LastEventID p'))
             \<lparr>gotEvent := got, cr_retry := fst (RetryDelay p'), cr_hasRetry := snd (RetryDelay p')\<rparr>), s)
      | (Inr ev, p') \<Rightarrow>
          (case emit (event_message (now s) (rnd s) ev) s of
             (Val None, s') \<Rightarrow> read_loop emit now rnd p' True s'
           | (Val (Some e), s') \<Rightarrow>
               (Val ((connResult0 (LastEventID p'))\<lparr>terminal := True, terminalErr := Some e, gotEvent := got\<rparr>), s')
           | (Pan v, s') \<Rightarrow> (Pan v, s')))"
  by pat_completeness auto

termination read_loop
  by (relation "measure (\<lambda>(emit, now, rnd, p, got, s). length (b_bytes (p_r p)))")
    (auto dest: Next_shorter [OF sym])

declare read_loop.simps [simp del]

text \<open>The resume position the connection was opened with is an argument of \<open>readEvents\<close> that its body does not use.\<close>

definition readEvents ::
  "'s SSEClient \<Rightarrow> (msg \<Rightarrow> ('s, err option) prog) \<Rightarrow> ('s \<Rightarrow> time) \<Rightarrow> ('s \<Rightarrow> string) \<Rightarrow> body \<Rightarrow> string \<Rightarrow> ('s, connResult) prog" where
  "readEvents c emit now rnd bod lid = read_loop emit now rnd (newSSEParserWithCap bod (maxEventBytes (sc_cfg c))) False"

text \<open>The request headers of an attempt: the configured ones first, then the client's own. \<open>hs\<close> lists the configured map.\<close>

definition connect_header :: "(string \<times> string list) list \<Rightarrow> string \<Rightarrow> HttpHeader" where
  "connect_header hs lid =
     (let h = foldl (\<lambda>h (name, vs). foldl (\<lambda>h v. hdr_add h name v) h vs) Map.empty hs;
          h = hdr_set h ''Accept'' ''text/event-stream'';
          h = hdr_set h ''Cache-Control'' ''no-cache''
      in if lid \<noteq> '''' then hdr_set h ''Last-Event-ID'' lid else h)"

type_synonym 's http_Do = "httpClient \<Rightarrow> string \<Rightarrow> string \<Rightarrow> HttpHeader \<Rightarrow> ('s, err + httpResponse) prog"

definition body_of :: "httpResponse \<Rightarrow> body" where
  "body_of resp = (case rs_Body resp of None \<Rightarrow> NoBody | Some b \<Rightarrow> b)"

definition connect ::
  "'s SSEClient \<Rightarrow> (string \<times> string list) list \<Rightarrow> 's http_Do \<Rightarrow> (string \<Rightarrow> string option) \<Rightarrow>
   (msg \<Rightarrow> ('s, err option) prog) \<Rightarrow> ('s \<Rightarrow> time) \<Rightarrow> ('s \<Rightarrow> string) \<Rightarrow> string \<Rightarrow> ('s, connResult) prog" where
  "connect c hs http_Do parse_mt emit now rnd lid =
     bindP (http_Do (sc_client c) ''GET'' (sc_url c) (connect_header hs lid)) (\<lambda>r.
       case r of
         Inl e \<Rightarrow> returnP (connResult0 lid)
       | Inr resp \<Rightarrow>
           (case classifySSEResponse parse_mt resp of
              sseTriageStream \<Rightarrow> readEvents c emit now rnd (body_of resp) lid
            | sseTriageDone \<Rightarrow> returnP ((connResult0 lid)\<lparr>terminal := True\<rparr>)
            | sseTriageWrongType \<Rightarrow>
                returnP ((connResult0 lid)\<lparr>terminal := True, terminalErr := Some (http_err ErrNotEventStream)\<rparr>)
            | sseTriageReconnect \<Rightarrow> returnP (connResult0 lid)))"

section \<open>The stream\<close>

definition next_wait :: "'s Config \<Rightarrow> connResult \<Rightarrow> duration \<Rightarrow> duration" where
  "next_wait cfg res delay =
     (if cr_hasRetry res then clampDelay (cr_retry res) (reconnectMin cfg) (reconnectMax cfg)
      else if gotEvent res then reconnectMin cfg
      else delay)"

definition next_delay :: "'s Config \<Rightarrow> connResult \<Rightarrow> duration \<Rightarrow> duration" where
  "next_delay cfg res w =
     (if cr_hasRetry res then w
      else if gotEvent res then reconnectMin cfg
      else doubleDelay w (reconnectMax cfg))"

partial_function (option) stream_loop ::
  "'s Config \<Rightarrow> (string \<Rightarrow> ('s, connResult) prog) \<Rightarrow> (duration \<Rightarrow> ('s, err option) prog) \<Rightarrow> duration \<Rightarrow> string \<Rightarrow>
   ('s, err option) oprog" where
  "stream_loop cfg conn wait delay lid s =
     bindO (conn lid) (\<lambda>res s1.
       if terminal res then returnO (terminalErr res) s1
       else
         bindO (wait (next_wait cfg res delay)) (\<lambda>waitErr s2.
           case waitErr of
             Some e \<Rightarrow> returnO (Some e) s2
           | None \<Rightarrow> stream_loop cfg conn wait (next_delay cfg res (next_wait cfg res delay)) (lastEventID res) s2) s1) s"

definition Stream ::
  "'s SSEClient \<Rightarrow> (string \<times> string list) list \<Rightarrow> 's http_Do \<Rightarrow> (string \<Rightarrow> string option) \<Rightarrow>
   (msg \<Rightarrow> ('s, err option) prog) \<Rightarrow> ('s \<Rightarrow> time) \<Rightarrow> ('s \<Rightarrow> string) \<Rightarrow> (duration \<Rightarrow> ('s, err option) prog) \<Rightarrow>
   ('s, err option) oprog" where
  "Stream c hs http_Do parse_mt emit now rnd wait =
     stream_loop (sc_cfg c) (connect c hs http_Do parse_mt emit now rnd) wait (reconnectMin (sc_cfg c)) ''''"

section \<open>Lemmas\<close>

lemma clampDelay_bounds: "mn \<le> mx \<Longrightarrow> mn \<le> clampDelay d mn mx \<and> clampDelay d mn mx \<le> mx"
  by (simp add: clampDelay_def)

lemma doubleDelay_bounds:
  assumes "0 < d" "d \<le> mx" "mx \<le> MaxInt64"
  shows "d \<le> doubleDelay d mx \<and> doubleDelay d mx \<le> mx"
proof (cases "d * 2 \<le> MaxInt64")
  case True
  with assms show ?thesis by (auto simp: doubleDelay_def Let_def)
next
  case False
  have "(d * 2 + 9223372036854775808) mod 18446744073709551616
      = (d * 2 + 9223372036854775808 - 18446744073709551616) mod 18446744073709551616"
    by (simp only: minus_mod_self2)
  also have "\<dots> = d * 2 + 9223372036854775808 - 18446744073709551616"
    using assms False by (intro mod_pos_pos_trivial) auto
  finally have "wrap64 (d * 2) = d * 2 - 18446744073709551616" by (simp add: wrap64_def)
  with assms show ?thesis by (auto simp: doubleDelay_def Let_def)
qed

definition paced :: "'s Config \<Rightarrow> duration \<Rightarrow> bool" where
  "paced cfg d \<longleftrightarrow> reconnectMin cfg \<le> d \<and> d \<le> reconnectMax cfg"

lemma next_paced:
  assumes "config_ok cfg" "reconnectMax cfg \<le> MaxInt64" "paced cfg d"
  shows "paced cfg (next_wait cfg res d)" "paced cfg (next_delay cfg res (next_wait cfg res d))"
proof -
  have b: "0 < reconnectMin cfg" "reconnectMin cfg \<le> reconnectMax cfg"
    using assms(1) by (simp_all add: config_ok_def client_ok_def)
  show w: "paced cfg (next_wait cfg res d)"
    using assms(3) b clampDelay_bounds [OF b(2), of "cr_retry res"] by (simp add: next_wait_def paced_def)
  show "paced cfg (next_delay cfg res (next_wait cfg res d))"
    using w b doubleDelay_bounds [of "next_wait cfg res d" "reconnectMax cfg"] assms(2)
    by (auto simp: next_delay_def paced_def)
qed

lemma stream_loop_paced:
  assumes "stream_loop cfg conn wait delay lid s = Some r"
    and "config_ok cfg" "reconnectMax cfg \<le> MaxInt64" "paced cfg delay" "\<forall>d. paced cfg d \<longrightarrow> wait d = wait' d"
  shows "stream_loop cfg conn wait' delay lid s = Some r"
proof -
  have "\<forall>wait'. config_ok cfg \<longrightarrow> reconnectMax cfg \<le> MaxInt64 \<longrightarrow> paced cfg delay \<longrightarrow>
      (\<forall>d. paced cfg d \<longrightarrow> wait d = wait' d) \<longrightarrow> stream_loop cfg conn wait' delay lid s = Some r"
  proof (rule stream_loop.raw_induct [where P = "\<lambda>cfg conn wait delay lid s r.
      \<forall>wait'. config_ok cfg \<longrightarrow> reconnectMax cfg \<le> MaxInt64 \<longrightarrow> paced cfg delay \<longrightarrow>
      (\<forall>d. paced cfg d \<longrightarrow> wait d = wait' d) \<longrightarrow> stream_loop cfg conn wait' delay lid s = Some r", OF _ assms(1)],
      intro allI impI, goal_cases)
    case (1 loop cfg conn wait delay lid s r wait')
    obtain q s1 where q: "conn lid s = (q, s1)" by fastforce
    show ?case
    proof (cases q)
      case (Val res)
      note p = next_paced [OF 1(3-5), of res]
      have w: "wait (next_wait cfg res delay) = wait' (next_wait cfg res delay)" using 1(6) p(1) by blast
      obtain v s2 where v: "wait (next_wait cfg res delay) s1 = (v, s2)" by fastforce
      have "stream_loop cfg conn wait' (next_delay cfg res (next_wait cfg res delay)) (lastEventID res) s2 = Some r"
        if "\<not> terminal res" "v = Val None"
      proof -
        have "loop cfg conn wait (next_delay cfg res (next_wait cfg res delay)) (lastEventID res) s2 = Some r"
          using 1(2) q Val v that by (simp add: bindO_def)
        from 1(1) [OF this] show ?thesis using 1(3,4,6) p(2) by blast
      qed
      then show ?thesis using 1(2) q Val v w
        by (subst stream_loop.simps) (auto simp: bindO_def split: res.splits option.splits)
    next
      case (Pan x)
      then show ?thesis using 1(2) q by (subst stream_loop.simps) (simp add: bindO_def)
    qed
  qed
  with assms(2-5) show ?thesis by blast
qed

text \<open>
  C18. Reconnect pacing. Whatever the server sends (a retry directive of any size, one whose
  conversion to nanoseconds wraps around included) and however often it fails, every pause
  \<open>Stream\<close> asks for lies between the configured minimum and maximum: replacing the wait by any
  other one that agrees with it on that range changes nothing, neither what the stream does
  nor whether it returns.
\<close>

theorem sse_reconnect_paced:
  assumes "config_ok (sc_cfg c)" "reconnectMax (sc_cfg c) \<le> MaxInt64"
    and "\<forall>d. reconnectMin (sc_cfg c) \<le> d \<and> d \<le> reconnectMax (sc_cfg c) \<longrightarrow> wait d = wait' d"
  shows "Stream c hs http_Do parse_mt emit now rnd wait = Stream c hs http_Do parse_mt emit now rnd wait'"
proof
  fix s
  let ?l = "\<lambda>w. stream_loop (sc_cfg c) (connect c hs http_Do parse_mt emit now rnd) w (reconnectMin (sc_cfg c)) '''' s"
  have d: "paced (sc_cfg c) (reconnectMin (sc_cfg c))"
    using assms(1) by (simp add: paced_def config_ok_def client_ok_def)
  have w: "\<forall>d. paced (sc_cfg c) d \<longrightarrow> wait d = wait' d" "\<forall>d. paced (sc_cfg c) d \<longrightarrow> wait' d = wait d"
    using assms(3) by (simp_all add: paced_def)
  note fwd = stream_loop_paced [OF _ assms(1,2) d w(1)] and bwd = stream_loop_paced [OF _ assms(1,2) d w(2)]
  have "?l wait = ?l wait'"
  proof (cases "?l wait")
    case None
    show ?thesis
    proof (cases "?l wait'")
      case (Some r)
      from bwd [OF this] None show ?thesis by simp
    qed (simp add: None)
  next
    case (Some r)
    from fwd [OF this] Some show ?thesis by simp
  qed
  then show "Stream c hs http_Do parse_mt emit now rnd wait s = Stream c hs http_Do parse_mt emit now rnd wait' s"
    by (simp only: Stream_def)
qed

definition demo_client :: "unit SSEClient" where
  "demo_client = \<lparr>sc_url = ''http://h'', sc_client = \<lparr>hc_Timeout = 0, hc_CheckRedirect = Some UseLastResponse, hc_Transport = 0\<rparr>,
     sc_cfg = fill_client (\<lambda>_. 0) (zeroConfig
       \<lparr>maxBodyBytes := 1, successStatus := 202, maxResponseBytes := 1, maxEventBytes := 1, maxConnections := 2,
        connectionBuffer := 1, replayBuffer := 2, writeTimeout := 1, reconnectMin := 1, reconnectMax := 4,
        sseClock := Some (\<lambda>_. 0)\<rparr>)\<rparr>"

lemma demo_client_simps [simp]:
  "config_ok (sc_cfg demo_client)" "reconnectMin (sc_cfg demo_client) = 1" "reconnectMax (sc_cfg demo_client) = 4"
proof -
  show "config_ok (sc_cfg demo_client)"
    unfolding demo_client_def by (simp add: fill_client_config_ok) (simp add: zeroConfig_def ok_defs in_range_def)
qed (simp_all add: demo_client_def fill_client_def zeroConfig_def Let_def)

text \<open>A transport that always fails is retried at 1, 2, 4, 4, ...; the wait gives up at 4.\<close>

theorem sse_reconnect_paced_witness:
  "Stream demo_client [] (\<lambda>_ _ _ _ s. (Val (Inl Canceled), s)) (\<lambda>_. None) (\<lambda>_ s. (Val None, s)) (\<lambda>_. 0) (\<lambda>_. '''')
       (\<lambda>d s. (Val (if d \<ge> 4 then Some DeadlineExceeded else None), s))
   = Stream demo_client [] (\<lambda>_ _ _ _ s. (Val (Inl Canceled), s)) (\<lambda>_. None) (\<lambda>_ s. (Val None, s)) (\<lambda>_. 0) (\<lambda>_. '''')
       (\<lambda>d s. (Val (if d = 4 then Some DeadlineExceeded else None), s))"
  by (rule sse_reconnect_paced) auto

section \<open>The resume position\<close>

text \<open>
  The resume position does not survive a connection that carries no id. A client holding
  the position \<open>lid\<close> announces it when it reconnects; when that connection is accepted as a
  stream and ends before the server sends an id (at once, for instance, or after comments
  only), the position is replaced by the empty one, so the connection after it announces no
  position and the events sent in between are not asked for again. The documentation says that the
  last seen id is carried across reconnects and only an empty id line clears it.
\<close>

theorem sse_resume_position_lost:
  assumes "http_Do (sc_client c) ''GET'' (sc_url c) (connect_header hs lid) s = (Val (Inr resp), s1)"
    and "classifySSEResponse parse_mt resp = sseTriageStream"
    and "b_bytes (body_of resp) = ''''" "lid \<noteq> ''''"
  shows "\<exists>res. connect c hs http_Do parse_mt emit now rnd lid s = (Val res, s1)
    \<and> \<not> terminal res \<and> lastEventID res = ''''
    \<and> connect_header [] lid ''Last-Event-Id'' = Some [lid]
    \<and> connect_header [] (lastEventID res) ''Last-Event-Id'' = None"
proof -
  let ?p = "newSSEParserWithCap (body_of resp) (maxEventBytes (sc_cfg c))"
  have p: "b_bytes (p_r ?p) = ''''" "idBuf ?p = ''''"
    using assms(3) by (simp_all add: newSSEParserWithCap_def sseBOM_def)
  have k: "CanonicalHeaderKey ''Last-Event-ID'' = ''Last-Event-Id''" "CanonicalHeaderKey ''Accept'' = ''Accept''"
    "CanonicalHeaderKey ''Cache-Control'' = ''Cache-Control''" by code_simp+
  have "isl (fst (Next ?p)) \<and> idBuf (snd (Next ?p)) = ''''"
    using p by (subst (1 2) Next.simps) (simp add: readLine_def resetEventBuffers_def Let_def)
  then obtain e q where "Next ?p = (Inl e, q)" "idBuf q = ''''" by (cases "Next ?p") (auto simp: isl_def)
  then show ?thesis using assms
    by (simp add: connect_def bindP_def readEvents_def read_loop.simps connResult0_def LastEventID_def
        connect_header_def hdr_set_def k Let_def)
qed

theorem sse_resume_position_lost_witness:
  "\<exists>res. connect demo_client [] (\<lambda>_ _ _ _ s. (Val (Inr \<lparr>rs_StatusCode = 200, rs_Header = [''Content-Type'' \<mapsto> [''text/event-stream'']], rs_Body = None\<rparr>), s))
      Some (\<lambda>_ s. (Val None, s)) (\<lambda>_. 0) (\<lambda>_. '''') ''42'' () = (Val res, ()) \<and> lastEventID res = ''''"
proof -
  let ?r = "\<lparr>rs_StatusCode = 200, rs_Header = [''Content-Type'' \<mapsto> [''text/event-stream'']], rs_Body = None\<rparr>"
  have k: "CanonicalHeaderKey ''Content-Type'' = ''Content-Type''" by code_simp
  have "classifySSEResponse Some ?r = sseTriageStream"
    by (simp add: classifySSEResponse_def hdr_get_def k)
  then show ?thesis
    using sse_resume_position_lost [of "\<lambda>_ _ _ _ s. (Val (Inr ?r), s)" demo_client "[]" "''42''" "()" ?r "()" Some
        "\<lambda>_ s. (Val None, s)" "\<lambda>_. 0" "\<lambda>_. ''''"]
    by (auto simp: body_of_def)
qed

end
