(* ===== verification/Http_Inbound.thy ===== *)
theory Http_Inbound
  imports Sse
begin

text \<open>
  The inbound half of the HTTP adapter (\<^verbatim>\<open>adapter/http/encode.go\<close>, \<^verbatim>\<open>adapter/http/inbound.go\<close>,
  \<^verbatim>\<open>adapter/http/stdlib/inbound.go\<close>): a request becomes a message, a message becomes a response.
  The response writer of \<^verbatim>\<open>net/http\<close> is part of the state: its header map, the informational statuses,
  the final status once one was sent, the body, and the flag of the response tracker.
  The lemmas: a client cannot forge a core header, a response carries no injected header line,
  a request is answered with exactly one final status whatever the flow does, and when it is not.
\<close>

section \<open>Decoding a request\<close>

abbreviation headerHTTPMethod :: string where "headerHTTPMethod \<equiv> ''http.method''"
abbreviation headerHTTPPath :: string where "headerHTTPPath \<equiv> ''http.path''"
abbreviation headerHTTPQuery :: string where "headerHTTPQuery \<equiv> ''http.query''"
abbreviation headerHTTPContentType :: string where "headerHTTPContentType \<equiv> ''http.content-type''"
abbreviation headerHTTPCorrelationID :: string where "headerHTTPCorrelationID \<equiv> ''http.correlation-id''"
abbreviation defaultResponseContentType :: string where "defaultResponseContentType \<equiv> ''application/octet-stream''"

definition reserved :: "string \<Rightarrow> bool" where
  "reserved k \<longleftrightarrow> has_prefix_lower reservedHeaderPrefix k"

definition copy_allowed :: "HttpHeader \<Rightarrow> string list \<Rightarrow> Headers" where
  "copy_allowed h names =
     foldl (\<lambda>m name. let v = hdr_get h name in if v \<noteq> '''' then m(name \<mapsto> GString v) else m) Map.empty names"

definition strip_reserved :: "Headers \<Rightarrow> Headers" where
  "strip_reserved m = (\<lambda>k. if reserved k then None else m k)"

text \<open>A resolver of the caller, when there is one: its value, or the empty string.\<close>

definition resolve_id :: "(httpRequest \<Rightarrow> ('s, string) prog) option \<Rightarrow> httpRequest \<Rightarrow> ('s, string) prog" where
  "resolve_id f r = (case f of None \<Rightarrow> returnP '''' | Some g \<Rightarrow> g r)"

definition request_headers :: "httpRequest \<Rightarrow> 's Config option \<Rightarrow> Headers" where
  "request_headers r cfg =
     (let h = strip_reserved (copy_allowed (rq_Header r) (allowedRequestHeaders cfg));
          ct = hdr_get (rq_Header r) ''Content-Type'';
          h = (if ct \<noteq> '''' then h(headerHTTPContentType \<mapsto> GString ct) else h);
          h = h(headerHTTPMethod \<mapsto> GString (rq_Method r));
          h = h(headerHTTPPath \<mapsto> GString (rq_Path r))
      in h(headerHTTPQuery \<mapsto> GString (rq_RawQuery r)))"

definition DecodeRequest ::
  "('s \<Rightarrow> time) \<Rightarrow> ('s \<Rightarrow> string) \<Rightarrow> httpRequest \<Rightarrow> 's Config option \<Rightarrow> ('s, err + msg) prog" where
  "DecodeRequest wall rnd r cfg =
     (let bod = (case rq_Body r of None \<Rightarrow> NoBody | Some b \<Rightarrow> b);
          (raw, e) = io_ReadAll (MaxBytesReader bod (maxBody cfg))
      in case e of
           Some x \<Rightarrow> returnP (Inl (Errorf ''%w: %w'' [ArgW (http_err ErrDecodeRequest), ArgW x]))
         | None \<Rightarrow>
             bindP (resolve_id (advisoryCorrelationID cfg) r) (\<lambda>adv.
               let h = request_headers r cfg;
                   h = (if adv \<noteq> '''' then h(headerHTTPCorrelationID \<mapsto> GString adv) else h)
               in bindP (readP (\<lambda>s. New (wall s) (rnd s) (GBytes raw) [WithHeaders h])) (\<lambda>m.
                  bindP (resolve_id (trustedCorrelationID cfg) r) (\<lambda>tr.
                    returnP (Inr (WithHeader m HeaderCorrelationID
                      (GString (if tr \<noteq> '''' then tr else ID m))))))))"

section \<open>The response writer\<close>

record 's hw =
  hw_world :: 's
  hw_header :: HttpHeader
  hw_info :: "int list"
  hw_final :: "int option"
  hw_body :: "string list"
  committed :: bool

definition liftW :: "('s, 'a) prog \<Rightarrow> ('s hw, 'a) prog" where
  "liftW m h = (case m (hw_world h) of (r, s) \<Rightarrow> (r, h\<lparr>hw_world := s\<rparr>))"

text \<open>
  \<^verbatim>\<open>ResponseWriter.WriteHeader\<close> of the server: a second final status is ignored, a code outside
  \<open>[100, 999]\<close> panics, and a code from 100 to 199 other than 101 is informational. \<^verbatim>\<open>Write\<close> sends an
  implicit 200 first; \<open>wr\<close> is the transport of the body. A handler that returns without a final
  status is answered with 200.
\<close>

definition net_WriteHeader :: "int \<Rightarrow> ('s hw, unit) prog" where
  "net_WriteHeader code h =
     (if hw_final h \<noteq> None then (Val (), h)
      else if code < 100 \<or> code > 999 then (Pan (GString ''invalid WriteHeader code''), h)
      else if code \<le> 199 \<and> code \<noteq> 101 then (Val (), h\<lparr>hw_info := hw_info h @ [code]\<rparr>)
      else (Val (), h\<lparr>hw_final := Some code\<rparr>))"

definition net_Write :: "(string \<Rightarrow> ('s, err option) prog) \<Rightarrow> string \<Rightarrow> ('s hw, err option) prog" where
  "net_Write wr b h =
     (let h = (if hw_final h = None then h\<lparr>hw_final := Some 200\<rparr> else h)
      in liftW (wr b) (h\<lparr>hw_body := hw_body h @ [b]\<rparr>))"

definition answered :: "'s hw \<Rightarrow> int" where
  "answered h = (case hw_final h of None \<Rightarrow> 200 | Some c \<Rightarrow> c)"

definition tracker_WriteHeader :: "int \<Rightarrow> ('s hw, unit) prog" where
  "tracker_WriteHeader code h = (if committed h then (Val (), h) else net_WriteHeader code (h\<lparr>committed := True\<rparr>))"

definition tracker_Write :: "(string \<Rightarrow> ('s, err option) prog) \<Rightarrow> string \<Rightarrow> ('s hw, err option) prog" where
  "tracker_Write wr b h = net_Write wr b (h\<lparr>committed := True\<rparr>)"

section \<open>Encoding a response\<close>

definition sanitizeHeaderValue :: "string \<Rightarrow> string" where
  "sanitizeHeaderValue v = filter (\<lambda>c. c \<noteq> LF) (filter (\<lambda>c. c \<noteq> CR) v)"

definition contentTypeOf :: "msg \<Rightarrow> string" where
  "contentTypeOf m =
     (let ct = sanitizeHeaderValue (case Headers_String (headers m) HeaderContentType of None \<Rightarrow> '''' | Some v \<Rightarrow> v)
      in if ct = '''' then defaultResponseContentType else ct)"

definition response_header :: "msg \<Rightarrow> string list \<Rightarrow> HttpHeader \<Rightarrow> HttpHeader" where
  "response_header m names h =
     (let h = foldl (\<lambda>h name. case Headers_String (headers m) name of
                               Some v \<Rightarrow> hdr_set h name (sanitizeHeaderValue v)
                             | None \<Rightarrow> h) h names;
          h = hdr_set h ''Content-Type'' (contentTypeOf m)
      in hdr_set h ''X-Content-Type-Options'' ''nosniff'')"

definition EncodeResponse ::
  "(string \<Rightarrow> ('s, err option) prog) \<Rightarrow> msg \<Rightarrow> 's Config option \<Rightarrow> ('s hw, err option) prog" where
  "EncodeResponse wr m cfg =
     (case payloadBytes m of
        Inl e \<Rightarrow> returnP (Some e)
      | Inr b \<Rightarrow>
          bindP (modifyP (\<lambda>h. h\<lparr>hw_header := response_header m (allowedResponseHeaders cfg) (hw_header h)\<rparr>)) (\<lambda>_.
          bindP (tracker_WriteHeader 200) (\<lambda>_.
          bindP (tracker_Write wr b) (\<lambda>e.
          returnP (map_option (\<lambda>x. Errorf ''%w: %w'' [ArgW (http_err ErrWriteResponse), ArgW x]) e)))))"

section \<open>The handlers\<close>

abbreviation ErrAbortHandler :: goval where "ErrAbortHandler \<equiv> GValue ''http.ErrAbortHandler'' 0"

definition recoverHandler :: "('s hw, unit) prog \<Rightarrow> ('s hw, unit) prog" where
  "recoverHandler m h =
     (case m h of
        (Val x, h') \<Rightarrow> (Val x, h')
      | (Pan v, h') \<Rightarrow> if v = ErrAbortHandler then (Pan v, h') else tracker_WriteHeader 500 h')"

definition answer_error :: "'s Config option \<Rightarrow> err \<Rightarrow> ('s hw, unit) prog" where
  "answer_error cfg e = bindP (liftW (errStatus cfg e)) tracker_WriteHeader"

definition ServeAsync ::
  "('s \<Rightarrow> time) \<Rightarrow> ('s \<Rightarrow> string) \<Rightarrow> httpRequest \<Rightarrow> (msg \<Rightarrow> ('s, err option) prog) \<Rightarrow> 's Config option \<Rightarrow> ('s hw, unit) prog" where
  "ServeAsync wall rnd r send cfg =
     recoverHandler
       (bindP (liftW (DecodeRequest wall rnd r cfg)) (\<lambda>d.
          case d of
            Inl e \<Rightarrow> answer_error cfg e
          | Inr m \<Rightarrow>
              bindP (liftW (send m)) (\<lambda>e.
                case e of
                  Some x \<Rightarrow> answer_error cfg x
                | None \<Rightarrow> tracker_WriteHeader (successStatusOrDefault cfg))))"

definition ServeGateway ::
  "('s \<Rightarrow> time) \<Rightarrow> ('s \<Rightarrow> string) \<Rightarrow> (string \<Rightarrow> ('s, err option) prog) \<Rightarrow> httpRequest \<Rightarrow>
   (msg \<Rightarrow> ('s, err + msg) prog) \<Rightarrow> 's Config option \<Rightarrow> ('s hw, unit) prog" where
  "ServeGateway wall rnd wr r exchange cfg =
     recoverHandler
       (bindP (liftW (DecodeRequest wall rnd r cfg)) (\<lambda>d.
          case d of
            Inl e \<Rightarrow> answer_error cfg e
          | Inr m \<Rightarrow>
              bindP (liftW (exchange m)) (\<lambda>x.
                case x of
                  Inl e \<Rightarrow> answer_error cfg e
                | Inr reply \<Rightarrow>
                    bindP (EncodeResponse wr reply cfg) (\<lambda>e.
                      case e of
                        None \<Rightarrow> returnP ()
                      | Some e \<Rightarrow> if errors_Is e (MsgHttp ErrWriteResponse) then returnP () else answer_error cfg e))))"

text \<open>The constructors of \<^verbatim>\<open>adapter/http/stdlib\<close>: a nil target or exchange is \<open>None\<close>.\<close>

definition NewInbound ::
  "('s \<Rightarrow> time) \<Rightarrow> ('s \<Rightarrow> string) \<Rightarrow> (msg \<Rightarrow> ('s, err option) prog) option \<Rightarrow> 's Option list \<Rightarrow>
   err + (httpRequest \<Rightarrow> ('s hw, unit) prog)" where
  "NewInbound wall rnd target opts =
     (case delegate_config ''stdlib.NewInbound'' wall opts of
        Inl e \<Rightarrow> Inl e
      | Inr cfg \<Rightarrow>
          (case target of
             None \<Rightarrow> Inl (http_err ErrNilTarget)
           | Some send \<Rightarrow> Inr (\<lambda>r. ServeAsync wall rnd r send (Some cfg))))"

definition NewInboundGateway ::
  "('s \<Rightarrow> time) \<Rightarrow> ('s \<Rightarrow> string) \<Rightarrow> (string \<Rightarrow> ('s, err option) prog) \<Rightarrow> (msg \<Rightarrow> ('s, err + msg) prog) option \<Rightarrow> 's Option list \<Rightarrow>
   err + (httpRequest \<Rightarrow> ('s hw, unit) prog)" where
  "NewInboundGateway wall rnd wr exchange opts =
     (case delegate_config ''stdlib.NewInboundGateway'' wall opts of
        Inl e \<Rightarrow> Inl e
      | Inr cfg \<Rightarrow>
          (case exchange of
             None \<Rightarrow> Inl (Sentinel ErrNilExchange)
           | Some x \<Rightarrow> Inr (\<lambda>r. ServeGateway wall rnd wr r x (Some cfg))))"

section \<open>No forged core header\<close>

lemma core_reserved:
  "reserved HeaderMessageID" "reserved HeaderTimestamp" "reserved HeaderCorrelationID" "reserved HeaderContentType"
  "\<not> reserved headerHTTPMethod" "\<not> reserved headerHTTPPath" "\<not> reserved headerHTTPQuery"
  "\<not> reserved headerHTTPContentType" "\<not> reserved headerHTTPCorrelationID"
  by code_simp+

lemma New_WithHeaders:
  "headers (New w b p [WithHeaders h]) = h(HeaderMessageID \<mapsto> GString (NewID b), HeaderTimestamp \<mapsto> GTime w)"
  "payload (New w b p [WithHeaders h]) = p" "ID (New w b p [WithHeaders h]) = NewID b"
  by (simp_all add: New_def WithHeaders_def Let_def ID_def Headers_String_def)

lemma bindP_Val_iff: "bindP m f s = (Val x, s') \<longleftrightarrow> (\<exists>y s1. m s = (Val y, s1) \<and> f y s1 = (Val x, s'))"
  by (auto simp: bindP_def split: prod.splits res.splits)

lemma request_headers_unreserved: "reserved k \<Longrightarrow> request_headers r cfg k = None"
  using core_reserved by (auto simp: request_headers_def strip_reserved_def Let_def)

lemma DecodeRequest_Inr:
  assumes "DecodeRequest wall rnd r cfg s = (Val (Inr m), s')"
  obtains h s1 tr where
    "let b = case rq_Body r of None \<Rightarrow> NoBody | Some b \<Rightarrow> b
     in b_end b = None \<and> int (length (b_bytes b)) \<le> maxBody cfg \<and> payload m = GBytes (b_bytes b)"
    "\<And>k. reserved k \<Longrightarrow> h k = None"
    "resolve_id (trustedCorrelationID cfg) r s1 = (Val tr, s')"
    "m = WithHeader (New (wall s1) (rnd s1) (payload m) [WithHeaders h])
           HeaderCorrelationID (GString (if tr \<noteq> [] then tr else NewID (rnd s1)))"
proof -
  let ?b = "case rq_Body r of None \<Rightarrow> NoBody | Some b \<Rightarrow> b"
  let ?h = "\<lambda>adv. if adv \<noteq> [] then (request_headers r cfg)(headerHTTPCorrelationID \<mapsto> GString adv) else request_headers r cfg"
  let ?m = "\<lambda>adv s. New (wall s) (rnd s) (GBytes (b_bytes (MaxBytesReader ?b (maxBody cfg)))) [WithHeaders (?h adv)]"
  have e: "b_end (MaxBytesReader ?b (maxBody cfg)) = None"
    using assms by (auto simp: DecodeRequest_def io_ReadAll_def Let_def returnP_def split: option.splits)
  define G :: "msg \<Rightarrow> ('a, err + msg) prog" where "G m = bindP (resolve_id (trustedCorrelationID cfg) r) (\<lambda>tr.
      returnP (Inr (WithHeader m HeaderCorrelationID (GString (if tr \<noteq> [] then tr else ID m)))))" for m
  define F where "F adv = bindP (readP (?m adv)) G" for adv
  have "DecodeRequest wall rnd r cfg = bindP (resolve_id (advisoryCorrelationID cfg) r) F"
    using e by (simp add: DecodeRequest_def io_ReadAll_def Let_def F_def [abs_def] G_def [abs_def])
  with assms obtain adv s1 where "F adv s1 = (Val (Inr m), s')" by (auto simp: bindP_Val_iff)
  then have "G (?m adv s1) s1 = (Val (Inr m), s')" by (simp add: F_def bindP_def readP_def)
  then obtain tr where r: "resolve_id (trustedCorrelationID cfg) r s1 = (Val tr, s')"
    "m = WithHeader (?m adv s1) HeaderCorrelationID (GString (if tr \<noteq> [] then tr else NewID (rnd s1)))"
    unfolding G_def bindP_Val_iff New_WithHeaders(3) returnP_def by auto
  have h: "?h adv k = None" if "reserved k" for k
    using that core_reserved request_headers_unreserved by auto
  have "b_end ?b = None" "int (length (b_bytes ?b)) \<le> maxBody cfg" and whole: "MaxBytesReader ?b (maxBody cfg) = ?b"
    using e by (simp_all add: MaxBytesReader_def split: if_splits)
  moreover have p: "payload m = GBytes (b_bytes (MaxBytesReader ?b (maxBody cfg)))" by (simp add: r(2) New_WithHeaders)
  ultimately have body: "let b = ?b in b_end b = None \<and> int (length (b_bytes b)) \<le> maxBody cfg \<and> payload m = GBytes (b_bytes b)"
    by (simp add: Let_def)
  have "m = WithHeader (New (wall s1) (rnd s1) (payload m) [WithHeaders (?h adv)])
      HeaderCorrelationID (GString (if tr \<noteq> [] then tr else NewID (rnd s1)))"
    unfolding p by (rule r(2))
  from that [OF body h r(1) this] show thesis .
qed

text \<open>
  C20. A client cannot forge a core header. Whatever headers a request carries and whatever the
  allow-list names, however cased and with letters outside ASCII that fold to ASCII ones, the
  decoded message carries no key of the reserved namespace but its id, its timestamp and its
  correlation id; the id is the one the server minted and, unless the caller trusts client
  correlation ids, so is the correlation id. The payload is the whole request body (empty for a request without one), which ended
  cleanly and has at most the configured size.
\<close>

theorem decode_forges_no_core_header:
  assumes "DecodeRequest wall rnd r cfg s = (Val (Inr m), s')"
  shows "(\<forall>k. reserved k \<longrightarrow> headers m k \<noteq> None \<longrightarrow> k \<in> {HeaderMessageID, HeaderTimestamp, HeaderCorrelationID})
    \<and> (\<exists>s1. ID m = NewID (rnd s1) \<and> headers m HeaderTimestamp = Some (GTime (wall s1)))
    \<and> (trustedCorrelationID cfg = None \<longrightarrow> headers m HeaderCorrelationID = Some (GString (ID m)))
    \<and> (let b = case rq_Body r of None \<Rightarrow> NoBody | Some b \<Rightarrow> b
       in b_end b = None \<and> int (length (b_bytes b)) \<le> maxBody cfg \<and> payload m = GBytes (b_bytes b))"
proof -
  obtain h s1 tr where body: "let b = case rq_Body r of None \<Rightarrow> NoBody | Some b \<Rightarrow> b
       in b_end b = None \<and> int (length (b_bytes b)) \<le> maxBody cfg \<and> payload m = GBytes (b_bytes b)"
    and d: "\<And>k. reserved k \<Longrightarrow> h k = None" "resolve_id (trustedCorrelationID cfg) r s1 = (Val tr, s')"
    "m = WithHeader (New (wall s1) (rnd s1) (payload m) [WithHeaders h])
           HeaderCorrelationID (GString (if tr \<noteq> '''' then tr else NewID (rnd s1)))"
    by (rule DecodeRequest_Inr [OF assms]) blast
  have hs: "headers m = h(HeaderMessageID \<mapsto> GString (NewID (rnd s1)), HeaderTimestamp \<mapsto> GTime (wall s1),
      HeaderCorrelationID \<mapsto> GString (if tr \<noteq> '''' then tr else NewID (rnd s1)))"
    by (subst d(3)) (simp add: New_WithHeaders WithHeader_def Headers_with_def)
  have "tr = ''''" if "trustedCorrelationID cfg = None"
    using d(2) that by (simp add: resolve_id_def returnP_def)
  moreover have "ID m = NewID (rnd s1)" by (subst d(3)) (simp add: New_WithHeaders)
  moreover have "headers m HeaderTimestamp = Some (GTime (wall s1))" by (simp add: hs)
  moreover have "k \<in> {HeaderMessageID, HeaderTimestamp, HeaderCorrelationID}"
    if "reserved k" "headers m k \<noteq> None" for k
    using that d(1) [OF that(1)] by (auto simp: hs split: if_splits)
  ultimately show ?thesis using body by (auto simp: hs)
qed

definition demo_request :: httpRequest where
  "demo_request = \<lparr>rq_Method = ''POST'', rq_Path = ''/'', rq_RawQuery = '''',
     rq_Header = [''Msgin.delivery-Count'' \<mapsto> [''9''], ''Msgin.delivery-count'' \<mapsto> [''7'']], rq_Body = Some \<lparr>b_bytes = ''x'', b_end = None\<rparr>, rq_RemoteAddr = ''''\<rparr>"

text \<open>An allow-list that names a reserved header lets nothing through.\<close>

theorem decode_forges_no_core_header_witness:
  "\<exists>m. DecodeRequest (\<lambda>_. 5) (\<lambda>_. ''A'') demo_request (Some (zeroConfig\<lparr>requestHeaders := [''mSgin.delivery-count'']\<rparr>)) () = (Val (Inr m), ())
     \<and> headers m ''mSgin.delivery-count'' = None \<and> headers m HeaderCorrelationID = Some (GString ''41'')"
proof -
  let ?c = "Some (zeroConfig\<lparr>requestHeaders := [''mSgin.delivery-count'']\<rparr>) :: unit Config option"
  have cfg: "advisoryCorrelationID ?c = None" "trustedCorrelationID ?c = None" "maxBody ?c = 1048576"
    by (simp_all add: advisoryCorrelationID_def trustedCorrelationID_def maxBody_def zeroConfig_def)
  have "\<exists>m. DecodeRequest (\<lambda>_. 5) (\<lambda>_. ''A'') demo_request ?c () = (Val (Inr m), ())"
    by (simp add: DecodeRequest_def cfg demo_request_def MaxBytesReader_def io_ReadAll_def Let_def
        resolve_id_def bindP_def readP_def returnP_def)
  then obtain m where m: "DecodeRequest (\<lambda>_. 5) (\<lambda>_. ''A'') demo_request ?c () = (Val (Inr m), ())" by blast
  have "reserved ''mSgin.delivery-count''" "NewID ''A'' = ''41''" by code_simp+
  with m decode_forges_no_core_header [OF m] cfg(2) show ?thesis by fastforce
qed

section \<open>Responses\<close>

lemma canonical_response_keys:
  "CanonicalHeaderKey ''Content-Type'' = ''Content-Type''"
  "CanonicalHeaderKey ''X-Content-Type-Options'' = ''X-Content-Type-Options''"
  by code_simp+

lemma sanitize_no_term: "no_term (sanitizeHeaderValue v)"
  by (auto simp: sanitizeHeaderValue_def no_term_def)

lemma contentTypeOf_ok: "contentTypeOf m \<noteq> ''''" "no_term (contentTypeOf m)"
  using sanitize_no_term by (auto simp: contentTypeOf_def Let_def no_term_def)

definition clean :: "HttpHeader \<Rightarrow> bool" where
  "clean h \<longleftrightarrow> (\<forall>k vs. h k = Some vs \<longrightarrow> list_all no_term vs)"

lemma clean_set: "clean h \<Longrightarrow> no_term v \<Longrightarrow> clean (hdr_set h k v)"
  by (auto simp: clean_def hdr_set_def)

lemma response_header_clean:
  assumes "clean h"
  shows "clean (response_header m names h)"
proof -
  have "clean (foldl (\<lambda>h name. case Headers_String (headers m) name of
      Some v \<Rightarrow> hdr_set h name (sanitizeHeaderValue v) | None \<Rightarrow> h) h names)"
    using assms by (induction names arbitrary: h) (auto intro: clean_set sanitize_no_term split: option.splits)
  then show ?thesis
    by (auto simp: response_header_def Let_def intro!: clean_set contentTypeOf_ok) (simp add: no_term_def)
qed

lemma response_header_fixed:
  "response_header m names h ''Content-Type'' = Some [contentTypeOf m]"
  "response_header m names h ''X-Content-Type-Options'' = Some [''nosniff'']"
  by (simp_all add: response_header_def Let_def hdr_set_def canonical_response_keys)

section \<open>One answer per request\<close>

definition fresh :: "'s hw \<Rightarrow> bool" where
  "fresh h \<longleftrightarrow> hw_final h = None \<and> hw_info h = [] \<and> hw_body h = [] \<and> \<not> committed h"

definition no_abort :: "'a res \<times> 's \<Rightarrow> bool" where
  "no_abort r \<longleftrightarrow> fst r \<noteq> Pan ErrAbortHandler"

text \<open>The status an error is answered with: the mapper's, or 500 when the mapper panics.\<close>

definition mapped :: "'s Config option \<Rightarrow> err \<Rightarrow> 's \<Rightarrow> int" where
  "mapped cfg e s = (case fst (errStatus cfg e s) of Val c \<Rightarrow> c | Pan _ \<Rightarrow> 500)"

definition mapper_ok :: "'s Config option \<Rightarrow> bool" where
  "mapper_ok cfg \<longleftrightarrow> (\<forall>e s. no_abort (errStatus cfg e s) \<and> 200 \<le> mapped cfg e s \<and> mapped cfg e s \<le> 999)"

definition async_status ::
  "('s \<Rightarrow> time) \<Rightarrow> ('s \<Rightarrow> string) \<Rightarrow> httpRequest \<Rightarrow> (msg \<Rightarrow> ('s, err option) prog) \<Rightarrow> 's Config option \<Rightarrow> 's \<Rightarrow> int" where
  "async_status wall rnd r send cfg s =
     (case DecodeRequest wall rnd r cfg s of
        (Val d, s1) \<Rightarrow>
          (case d of
             Inl e \<Rightarrow> mapped cfg e s1
           | Inr m \<Rightarrow>
               (case send m s1 of
                  (Val e, s2) \<Rightarrow> (case e of Some e \<Rightarrow> mapped cfg e s2 | None \<Rightarrow> successStatusOrDefault cfg)
                | (Pan _, _) \<Rightarrow> 500))
      | (Pan _, _) \<Rightarrow> 500)"

lemma write_final:
  assumes "fresh h" "200 \<le> c" "c \<le> 999"
  shows "tracker_WriteHeader c h = (Val (), h\<lparr>committed := True, hw_final := Some c\<rparr>)"
  using assms by (simp add: tracker_WriteHeader_def net_WriteHeader_def fresh_def)

definition answers :: "('s hw, unit) prog \<Rightarrow> 's hw \<Rightarrow> int \<Rightarrow> bool" where
  "answers m h c \<longleftrightarrow> (\<exists>h'. recoverHandler m h = (Val (), h') \<and> hw_final h' = Some c \<and> hw_info h' = [])"

lemma answers_panic:
  assumes "m h = (Pan v, h')" "v \<noteq> ErrAbortHandler" "fresh h'"
  shows "answers m h 500"
  using assms write_final [OF assms(3), of 500] by (simp add: answers_def recoverHandler_def fresh_def)

lemma answers_bind:
  assumes "m h = (Val x, h1)" "answers (f x) h1 c"
  shows "answers (bindP m f) h c"
  using assms by (simp add: answers_def recoverHandler_def bindP_def)

lemma answers_bind_panic:
  assumes "m h = (Pan v, h1)" "v \<noteq> ErrAbortHandler" "fresh h1"
  shows "answers (bindP m f) h 500"
  by (rule answers_panic [of _ _ v h1]) (use assms in \<open>simp_all add: bindP_def\<close>)

lemma answers_write: "fresh h \<Longrightarrow> 200 \<le> c \<Longrightarrow> c \<le> 999 \<Longrightarrow> answers (tracker_WriteHeader c) h c"
  using write_final [of h c] by (simp add: answers_def recoverHandler_def fresh_def)

lemma fresh_world [simp]: "fresh (h\<lparr>hw_world := s\<rparr>) = fresh h"
  by (simp add: fresh_def)

lemma answers_lift:
  assumes "fresh h" "no_abort (m (hw_world h))"
    and "\<And>x s. m (hw_world h) = (Val x, s) \<Longrightarrow> answers (f x) (h\<lparr>hw_world := s\<rparr>) (g x s)"
  shows "answers (bindP (liftW m) f) h (case m (hw_world h) of (Val x, s) \<Rightarrow> g x s | (Pan _, _) \<Rightarrow> 500)"
proof (cases "m (hw_world h)")
  case (Pair r s)
  have l: "liftW m h = (r, h\<lparr>hw_world := s\<rparr>)" using Pair by (simp add: liftW_def)
  show ?thesis
  proof (cases r)
    case (Val x)
    with Pair l assms(3) [of x s] show ?thesis by (auto intro: answers_bind)
  next
    case (Pan v)
    with Pair l assms(1,2) show ?thesis by (auto simp: no_abort_def intro: answers_bind_panic)
  qed
qed

lemma answers_error:
  assumes "fresh h" "mapper_ok cfg"
  shows "answers (answer_error cfg e) h (mapped cfg e (hw_world h))"
proof -
  have ok: "no_abort (errStatus cfg e (hw_world h))" "200 \<le> mapped cfg e (hw_world h)" "mapped cfg e (hw_world h) \<le> 999"
    using assms(2) by (auto simp: mapper_ok_def)
  have "answers (answer_error cfg e) h (case errStatus cfg e (hw_world h) of (Val c, s) \<Rightarrow> c | (Pan _, _) \<Rightarrow> 500)"
    unfolding answer_error_def
    by (rule answers_lift) (use assms(1) ok in \<open>auto simp: mapped_def intro!: answers_write\<close>)
  then show ?thesis by (simp add: mapped_def split: prod.splits res.splits)
qed

lemma answers_async:
  assumes "fresh h" "mapper_ok cfg" "200 \<le> successStatusOrDefault cfg"
    and dec: "\<And>s. no_abort (DecodeRequest wall rnd r cfg s)" and snd: "\<And>m s. no_abort (send m s)"
  shows "answers (bindP (liftW (DecodeRequest wall rnd r cfg)) (\<lambda>d. case d of Inl e \<Rightarrow> answer_error cfg e | Inr m \<Rightarrow>
      bindP (liftW (send m)) (\<lambda>e. case e of Some x \<Rightarrow> answer_error cfg x
        | None \<Rightarrow> tracker_WriteHeader (successStatusOrDefault cfg)))) h (async_status wall rnd r send cfg (hw_world h))"
proof -
  have top: "successStatusOrDefault cfg \<le> 999"
    by (simp add: successStatusOrDefault_def split: option.splits)
  have err: "answers (answer_error cfg e) (h\<lparr>hw_world := s\<rparr>) (mapped cfg e s)" for e s
    using answers_error [of "h\<lparr>hw_world := s\<rparr>" cfg e] assms(1,2) by simp
  have sent: "answers (bindP (liftW (send m)) (\<lambda>e. case e of Some x \<Rightarrow> answer_error cfg x
        | None \<Rightarrow> tracker_WriteHeader (successStatusOrDefault cfg))) (h\<lparr>hw_world := s\<rparr>)
      (case send m s of (Val e, s2) \<Rightarrow> (case e of Some e \<Rightarrow> mapped cfg e s2 | None \<Rightarrow> successStatusOrDefault cfg) | (Pan _, _) \<Rightarrow> 500)" for m s
    using answers_lift [of "h\<lparr>hw_world := s\<rparr>" "send m" "\<lambda>e. case e of Some x \<Rightarrow> answer_error cfg x
        | None \<Rightarrow> tracker_WriteHeader (successStatusOrDefault cfg)"
        "\<lambda>e s2. case e of Some e \<Rightarrow> mapped cfg e s2 | None \<Rightarrow> successStatusOrDefault cfg"] assms(1,3) snd err top
    by (simp add: answers_write split: option.splits)
  show ?thesis unfolding async_status_def
    by (rule answers_lift [OF assms(1) dec]) (use err sent in \<open>auto split: sum.splits\<close>)
qed

text \<open>The same for the gateway, whose reply is encoded as the response.\<close>

definition gateway_status ::
  "('s \<Rightarrow> time) \<Rightarrow> ('s \<Rightarrow> string) \<Rightarrow> httpRequest \<Rightarrow> (msg \<Rightarrow> ('s, err + msg) prog) \<Rightarrow> 's Config option \<Rightarrow> 's \<Rightarrow> int" where
  "gateway_status wall rnd r exchange cfg s =
     (case DecodeRequest wall rnd r cfg s of
        (Val d, s1) \<Rightarrow>
          (case d of
             Inl e \<Rightarrow> mapped cfg e s1
           | Inr m \<Rightarrow>
               (case exchange m s1 of
                  (Val x, s2) \<Rightarrow>
                    (case x of
                       Inl e \<Rightarrow> mapped cfg e s2
                     | Inr reply \<Rightarrow> (case payloadBytes reply of Inl e \<Rightarrow> mapped cfg e s2 | Inr _ \<Rightarrow> 200))
                | (Pan _, _) \<Rightarrow> 500))
      | (Pan _, _) \<Rightarrow> 500)"

lemma EncodeResponse_bytes:
  assumes "payloadBytes m = Inr b" "fresh h"
  shows "\<exists>e h'. EncodeResponse wr m cfg h = (e, h') \<and> hw_final h' = Some 200 \<and> hw_info h' = [] \<and> committed h'
    \<and> hw_body h' = [b] \<and> hw_header h' = response_header m (allowedResponseHeaders cfg) (hw_header h)
    \<and> (\<forall>x. e = Val (Some x) \<longrightarrow> errors_Is x (MsgHttp ErrWriteResponse))
    \<and> (\<forall>v. e = Pan v \<longrightarrow> fst (wr b (hw_world h)) = Pan v)"
proof (cases "wr b (hw_world h)")
  case (Pair e s)
  have "errors_Is (Errorf ''%w: %w'' [ArgW (http_err ErrWriteResponse), ArgW z]) (MsgHttp ErrWriteResponse)" for z by auto
  then show ?thesis using assms Pair
    by (cases e) (auto simp: EncodeResponse_def bindP_def modifyP_def returnP_def tracker_WriteHeader_def net_WriteHeader_def
        tracker_Write_def net_Write_def liftW_def fresh_def Let_def simp del: errors_Is_simps)
qed

lemma answers_encode:
  assumes "fresh h" "mapper_ok cfg" "\<And>b s. no_abort (wr b s)"
  shows "answers (bindP (EncodeResponse wr reply cfg) (\<lambda>e. case e of None \<Rightarrow> returnP ()
           | Some e \<Rightarrow> if errors_Is e (MsgHttp ErrWriteResponse) then returnP () else answer_error cfg e)) h
         (case payloadBytes reply of Inl e \<Rightarrow> mapped cfg e (hw_world h) | Inr _ \<Rightarrow> 200)"
proof (cases "payloadBytes reply")
  case (Inl e)
  then have e: "e = http_err ErrUnsupportedPayload" by (auto simp: payloadBytes_def split: goval.splits)
  have "EncodeResponse wr reply cfg h = (Val (Some e), h)" using Inl by (simp add: EncodeResponse_def returnP_def)
  with answers_bind [where m = "EncodeResponse wr reply cfg" and h = h and x = "Some e" and ?h1.0 = h and c = "mapped cfg e (hw_world h)"]
  show ?thesis using Inl answers_error [OF assms(1,2), of e] e by simp
next
  case (Inr b)
  obtain e h' where e: "EncodeResponse wr reply cfg h = (e, h')" "hw_final h' = Some 200" "hw_info h' = []" "committed h'"
    "\<forall>x. e = Val (Some x) \<longrightarrow> errors_Is x (MsgHttp ErrWriteResponse)" "\<forall>v. e = Pan v \<longrightarrow> fst (wr b (hw_world h)) = Pan v"
    using EncodeResponse_bytes [OF Inr assms(1), of wr cfg] by auto
  have "e \<noteq> Pan ErrAbortHandler" using e(6) assms(3) [of b "hw_world h"] by (auto simp: no_abort_def)
  then show ?thesis using e Inr
    by (cases e) (auto simp: answers_def recoverHandler_def bindP_def returnP_def tracker_WriteHeader_def split: option.splits)
qed

lemma answers_gateway:
  assumes "fresh h" "mapper_ok cfg" "\<And>b s. no_abort (wr b s)"
    and dec: "\<And>s. no_abort (DecodeRequest wall rnd r cfg s)" and ex: "\<And>m s. no_abort (exchange m s)"
  shows "\<exists>h'. ServeGateway wall rnd wr r exchange cfg h = (Val (), h') \<and> hw_info h' = []
    \<and> hw_final h' = Some (gateway_status wall rnd r exchange cfg (hw_world h))"
proof -
  let ?enc = "\<lambda>reply. bindP (EncodeResponse wr reply cfg) (\<lambda>e. case e of None \<Rightarrow> returnP ()
      | Some e \<Rightarrow> if errors_Is e (MsgHttp ErrWriteResponse) then returnP () else answer_error cfg e)"
  let ?next = "\<lambda>x. case x of Inl e \<Rightarrow> answer_error cfg e | Inr reply \<Rightarrow> ?enc reply"
  let ?st = "\<lambda>x s2. case x of Inl e \<Rightarrow> mapped cfg e s2
      | Inr reply \<Rightarrow> (case payloadBytes reply of Inl e \<Rightarrow> mapped cfg e s2 | Inr _ \<Rightarrow> 200)"
  have f: "fresh (h\<lparr>hw_world := s\<rparr>)" for s using assms(1) by simp
  have err: "answers (answer_error cfg e) (h\<lparr>hw_world := s\<rparr>) (mapped cfg e s)" for e s
    using answers_error [OF f assms(2), of e s] by simp
  have enc: "answers (?enc reply) (h\<lparr>hw_world := s\<rparr>) (case payloadBytes reply of Inl e \<Rightarrow> mapped cfg e s | Inr _ \<Rightarrow> 200)" for reply s
    using answers_encode [where h = "h\<lparr>hw_world := s\<rparr>" and wr = wr and reply = reply, OF f assms(2,3)]
    by (cases "payloadBytes reply") simp_all
  have "answers (?next x) (h\<lparr>hw_world := s\<rparr>) (?st x s)" for x s
    using err enc by (cases x) simp_all
  then have sent: "answers (bindP (liftW (exchange m)) ?next) (h\<lparr>hw_world := s\<rparr>)
      (case exchange m s of (Val x, s2) \<Rightarrow> ?st x s2 | (Pan _, _) \<Rightarrow> 500)" for m s
    using answers_lift [OF f [of s], of "exchange m" ?next ?st] ex by simp
  have "answers (bindP (liftW (DecodeRequest wall rnd r cfg)) (\<lambda>d. case d of Inl e \<Rightarrow> answer_error cfg e
      | Inr m \<Rightarrow> bindP (liftW (exchange m)) ?next)) h (gateway_status wall rnd r exchange cfg (hw_world h))"
    unfolding gateway_status_def
    by (rule answers_lift [OF assms(1) dec]) (use err sent in \<open>auto split: sum.splits\<close>)
  then show ?thesis by (auto simp: answers_def ServeGateway_def)
qed

text \<open>
  C19. One honest answer per request, when the configuration names final statuses only and nobody aborts. That is: the status mapper
  returns codes from 200 to 999 or panics, the success status is at least 200 (the option also accepts 100 to 199), and
  the resolvers, the flow, the mapper and the transport do not raise the server's abort value.
  Then for every request both handlers return (no panic of any of these escapes) and the client
  gets exactly one final status and no informational one: the mapped status of a decode, send, exchange or encode
  error; 500 for a panic; the configured success status, or 200 for a gateway reply, otherwise.
  A panic after the reply was committed does not add a second status.
\<close>

theorem request_answered_once:
  assumes "fresh h" "mapper_ok cfg" "200 \<le> successStatusOrDefault cfg"
    and "\<forall>s. no_abort (DecodeRequest wall rnd r cfg s)" "\<forall>m s. no_abort (send m s)"
    and "\<forall>m s. no_abort (exchange m s)" "\<forall>b s. no_abort (wr b s)"
  shows "(\<exists>h'. ServeAsync wall rnd r send cfg h = (Val (), h') \<and> hw_info h' = []
            \<and> hw_final h' = Some (async_status wall rnd r send cfg (hw_world h)))
    \<and> (\<exists>h'. ServeGateway wall rnd wr r exchange cfg h = (Val (), h') \<and> hw_info h' = []
            \<and> hw_final h' = Some (gateway_status wall rnd r exchange cfg (hw_world h)))"
proof -
  have "answers (bindP (liftW (DecodeRequest wall rnd r cfg)) (\<lambda>d. case d of Inl e \<Rightarrow> answer_error cfg e | Inr m \<Rightarrow>
      bindP (liftW (send m)) (\<lambda>e. case e of Some x \<Rightarrow> answer_error cfg x
        | None \<Rightarrow> tracker_WriteHeader (successStatusOrDefault cfg)))) h (async_status wall rnd r send cfg (hw_world h))"
    by (rule answers_async) (use assms in auto)
  moreover have "\<exists>h'. ServeGateway wall rnd wr r exchange cfg h = (Val (), h') \<and> hw_info h' = []
      \<and> hw_final h' = Some (gateway_status wall rnd r exchange cfg (hw_world h))"
    by (rule answers_gateway) (use assms in auto)
  ultimately show ?thesis by (auto simp: answers_def ServeAsync_def)
qed

lemma DefaultErrorStatus_range: "200 \<le> DefaultErrorStatus e" "DefaultErrorStatus e \<le> 999"
  by (simp_all add: DefaultErrorStatus_def)

lemma default_mapper_ok: "mapper_ok None"
  using DefaultErrorStatus_range
  by (auto simp: mapper_ok_def mapped_def errStatus_def no_abort_def returnP_def)

definition idle_writer :: "unit hw" where
  "idle_writer = \<lparr>hw_world = (), hw_header = Map.empty, hw_info = [], hw_final = None, hw_body = [], committed = False\<rparr>"

text \<open>A flow that panics is answered 500; an oversize body never reaches the exchange and is answered 413.\<close>

theorem request_answered_once_witness:
  "(\<exists>h'. ServeAsync (\<lambda>_. 0) (\<lambda>_. ''A'') (demo_request\<lparr>rq_Body := None\<rparr>) (\<lambda>m s. (Pan (GInt 1), s)) None idle_writer = (Val (), h')
      \<and> hw_final h' = Some 500)
   \<and> (\<exists>h'. ServeGateway (\<lambda>_. 0) (\<lambda>_. ''A'') (\<lambda>b s. (Val None, s)) (demo_request\<lparr>rq_Body := None\<rparr>) (\<lambda>m s. (Val (Inl (Sentinel ErrReplyTimeout)), s)) None idle_writer
      = (Val (), h') \<and> hw_final h' = Some 504)"
proof -
  let ?r = "demo_request\<lparr>rq_Body := None\<rparr>"
  have f: "fresh idle_writer" by (simp add: fresh_def idle_writer_def)
  have m: "maxBody None = 1048576" by (simp add: maxBody_def)
  have d: "\<exists>m. DecodeRequest (\<lambda>_. 0) (\<lambda>_. ''A'') ?r None s = (Val (Inr m), s)" for s :: unit
    by (simp add: DecodeRequest_def m MaxBytesReader_def io_ReadAll_def resolve_id_def advisoryCorrelationID_def
        trustedCorrelationID_def bindP_def readP_def returnP_def Let_def)
  then have n: "\<forall>s :: unit. no_abort (DecodeRequest (\<lambda>_. 0) (\<lambda>_. ''A'') ?r None s)"
    by (metis fst_conv no_abort_def res.distinct(1))
  have "successStatusOrDefault (None :: unit Config option) = 202" by (simp add: successStatusOrDefault_def)
  moreover obtain m where "DecodeRequest (\<lambda>_. 0) (\<lambda>_. ''A'') ?r None (hw_world idle_writer) = (Val (Inr m), hw_world idle_writer)"
    using d by blast
  ultimately show ?thesis
    using request_answered_once [OF f default_mapper_ok _ n, of "\<lambda>m s. (Pan (GInt 1), s)"
        "\<lambda>m s. (Val (Inl (Sentinel ErrReplyTimeout)), s)" "\<lambda>b s. (Val None, s)"]
    by (auto simp: no_abort_def async_status_def gateway_status_def mapped_def errStatus_def returnP_def DefaultErrorStatus_def)
qed

text \<open>
  What reaches the client of a gateway. When the reply's payload can be encoded, the response
  is a 200 with that payload as its one body chunk; every header value in it is a single line,
  so no header value taken from a message splits the response; its media type is never empty
  and sniffing is switched off, whatever the allow-list names. When the payload cannot be
  encoded, nothing at all is written.
\<close>

theorem response_headers_safe:
  assumes "fresh h" "clean (hw_header h)"
  shows "case payloadBytes reply of
      Inl e \<Rightarrow> EncodeResponse wr reply cfg h = (Val (Some e), h)
    | Inr b \<Rightarrow> \<exists>e h'. EncodeResponse wr reply cfg h = (e, h') \<and> hw_final h' = Some 200 \<and> hw_body h' = [b]
        \<and> clean (hw_header h') \<and> hw_header h' ''X-Content-Type-Options'' = Some [''nosniff'']
        \<and> (\<exists>ct. hw_header h' ''Content-Type'' = Some [ct] \<and> ct \<noteq> '''')"
proof (cases "payloadBytes reply")
  case (Inl e)
  then show ?thesis by (simp add: EncodeResponse_def returnP_def)
next
  case (Inr b)
  then show ?thesis using EncodeResponse_bytes [OF Inr assms(1), of wr cfg] response_header_clean [OF assms(2)]
      response_header_fixed contentTypeOf_ok(1) by fastforce
qed

theorem response_headers_safe_witness:
  "\<exists>e h'. EncodeResponse (\<lambda>b s. (Val None, s)) \<lparr>payload = GString ''ok'', headers = [''X-A'' \<mapsto> GString (''v'' @ [CR, LF] @ ''Set-Cookie: x'')]\<rparr>
       (Some (zeroConfig\<lparr>responseHeaders := [''X-A'']\<rparr>)) idle_writer = (e, h') \<and> clean (hw_header h')"
  using response_headers_safe [where h = idle_writer and wr = "\<lambda>b s. (Val None, s)"
      and reply = "\<lparr>payload = GString ''ok'', headers = [''X-A'' \<mapsto> GString (''v'' @ [CR, LF] @ ''Set-Cookie: x'')]\<rparr>"
      and cfg = "Some (zeroConfig\<lparr>responseHeaders := [''X-A'']\<rparr>)"]
  by (auto simp: fresh_def clean_def idle_writer_def payloadBytes_def)

text \<open>
  C38. A status mapper that returns a code the server rejects turns a failure into a success: the
  tracker marks the response as committed before it calls the server, the server panics on
  the code, the recovery sees a committed response and writes nothing, and the server then
  answers the request with its implicit 200. The documentation says that a recovered panic
  is answered with 500 when the response has not been committed yet.
\<close>

theorem rejected_status_answers_ok:
  assumes "fresh h" "errStatus cfg e (hw_world h) = (Val c, hw_world h)" "c < 100 \<or> 999 < c"
    and "DecodeRequest wall rnd r cfg (hw_world h) = (Val (Inl e), hw_world h)"
  shows "\<exists>h'. ServeAsync wall rnd r send cfg h = (Val (), h') \<and> hw_final h' = None \<and> answered h' = 200"
  using assms
  by (auto simp: ServeAsync_def recoverHandler_def bindP_def liftW_def answer_error_def tracker_WriteHeader_def
      net_WriteHeader_def fresh_def answered_def)

text \<open>A mapper that returns 0 for a body of more than one byte.\<close>

theorem rejected_status_answers_ok_witness:
  "\<exists>h'. ServeAsync (\<lambda>_. 0) (\<lambda>_. '''') (demo_request\<lparr>rq_Body := Some \<lparr>b_bytes = ''xy'', b_end = None\<rparr>\<rparr>) (\<lambda>m s. (Val None, s))
      (Some (zeroConfig\<lparr>maxBodyBytes := 1, errorStatus := Some (\<lambda>e s. (Val 0, s))\<rparr>)) idle_writer = (Val (), h') \<and> answered h' = 200"
proof -
  let ?c = "Some (zeroConfig\<lparr>maxBodyBytes := 1, errorStatus := Some (\<lambda>e s. (Val 0, s))\<rparr>) :: unit Config option"
  let ?r = "demo_request\<lparr>rq_Body := Some \<lparr>b_bytes = ''xy'', b_end = None\<rparr>\<rparr>"
  have m: "maxBody ?c = 1" "\<And>e s. errStatus ?c e s = (Val 0, s)" by (simp_all add: maxBody_def errStatus_def)
  have "\<exists>e. DecodeRequest (\<lambda>_. 0) (\<lambda>_. '''') ?r ?c (hw_world idle_writer) = (Val (Inl e), hw_world idle_writer)"
    by (simp add: DecodeRequest_def m MaxBytesReader_def io_ReadAll_def returnP_def Let_def)
  then obtain e where "DecodeRequest (\<lambda>_. 0) (\<lambda>_. '''') ?r ?c (hw_world idle_writer) = (Val (Inl e), hw_world idle_writer)" by blast
  from rejected_status_answers_ok [OF _ m(2) _ this, of "\<lambda>m s. (Val None, s)"] show ?thesis
    by (auto simp: fresh_def idle_writer_def)
qed


end
