(* ===== verification/Http_Outbound.thy ===== *)
theory Http_Outbound
  imports Http_Inbound Sse_Client
begin

text \<open>
  The outbound half of the HTTP adapter (\<^verbatim>\<open>adapter/http/outbound.go\<close>, \<^verbatim>\<open>adapter/http/exchange.go\<close>): a
  message becomes a request, the response becomes an error the producer retries on, or a reply.
  Parameters: \<open>new_req\<close> is the error of \<^verbatim>\<open>http.NewRequestWithContext\<close> for a method and URL, \<open>http_Do\<close> the
  client's \<^verbatim>\<open>Do\<close>, \<open>close\<close> the close of a response body, \<open>quote\<close> is \<^verbatim>\<open>strconv.Quote\<close> and \<open>parse_time\<close> is
  \<^verbatim>\<open>http.ParseTime\<close>. A response body is a value, so the best-effort drain before its close, which only
  lets the connection be reused, is not a step. The lemmas: what every status is classified as, that a server-instructed delay is a
  duration, that a transport error names no URL, and that a reply is the whole body.
\<close>

section \<open>Requests\<close>

record outRequest =
  or_Method :: string
  or_URL :: string
  or_Header :: HttpHeader
  or_Body :: string

definition request_header :: "msg \<Rightarrow> string list \<Rightarrow> HttpHeader" where
  "request_header m names =
     (let h = foldl (\<lambda>h name.
                if reserved name then h
                else case Headers_String (headers m) name of
                       Some v \<Rightarrow> hdr_set h name (sanitizeHeaderValue v)
                     | None \<Rightarrow> h) Map.empty names
      in hdr_set h ''Content-Type'' (contentTypeOf m))"

definition EncodeRequest ::
  "(string \<Rightarrow> string \<Rightarrow> err option) \<Rightarrow> string \<Rightarrow> string \<Rightarrow> msg \<Rightarrow> 's Config option \<Rightarrow> err + outRequest" where
  "EncodeRequest new_req meth url m cfg =
     (case payloadBytes m of
        Inl e \<Rightarrow> Inl e
      | Inr b \<Rightarrow>
          (case new_req meth url of
             Some e \<Rightarrow> Inl e
           | None \<Rightarrow> Inr \<lparr>or_Method = meth, or_URL = url,
                          or_Header = request_header m (allowedOutboundHeaders cfg), or_Body = b\<rparr>))"

definition resolveClient :: "'s Config \<Rightarrow> httpClient" where
  "resolveClient cfg =
     (let c = the (httpClient cfg)
      in if followRedirects cfg \<or> hc_CheckRedirect c \<noteq> None then c
         else c\<lparr>hc_CheckRedirect := Some UseLastResponse\<rparr>)"

section \<open>Classification\<close>

text \<open>\<^verbatim>\<open>strconv.ParseInt(v, 10, 64)\<close>: an optional sign, then digits only, within an int64.\<close>

definition parse_int64 :: "string \<Rightarrow> int option" where
  "parse_int64 v =
     (let (neg, ds) = (case v of [] \<Rightarrow> (False, []) | c # cs \<Rightarrow>
            if c = CHR ''-'' then (True, cs) else if c = CHR ''+'' then (False, cs) else (False, v))
      in if ds = [] \<or> \<not> list_all is_digit ds then None
         else let n = (if neg then - int (digits_value ds) else int (digits_value ds))
              in if n < MinInt64 \<or> n > MaxInt64 then None else Some n)"

text \<open>\<^verbatim>\<open>t.Sub(now)\<close> saturates at the bounds of a duration.\<close>

definition time_Sub :: "time \<Rightarrow> time \<Rightarrow> duration" where
  "time_Sub t now = (if t - now > MaxInt64 then MaxInt64 else if t - now < MinInt64 then MinInt64 else t - now)"

abbreviation maxRetryAfterSeconds :: int where "maxRetryAfterSeconds \<equiv> 9223372036"

definition parseRetryAfter :: "(string \<Rightarrow> time option) \<Rightarrow> string \<Rightarrow> time \<Rightarrow> duration option" where
  "parseRetryAfter parse_time v now =
     (let v = trim_space v
      in if v = '''' then None
         else case parse_int64 v of
                Some secs \<Rightarrow> if secs < 0 \<or> secs > maxRetryAfterSeconds then None else Some (wrap64 (secs * Second))
              | None \<Rightarrow>
                  (case parse_time v of
                     Some t \<Rightarrow> (let d = time_Sub t now in if d < 0 then Some 0 else Some d)
                   | None \<Rightarrow> None))"

definition readExcerpt :: "(string \<Rightarrow> string) \<Rightarrow> body \<Rightarrow> string" where
  "readExcerpt quote b = quote (fst (io_ReadAll (LimitReader b errorBodyExcerptMax)))"

definition ClassifyResponse ::
  "(string \<Rightarrow> string) \<Rightarrow> (string \<Rightarrow> time option) \<Rightarrow> time \<Rightarrow> httpResponse option \<Rightarrow> 's Config option \<Rightarrow> err option" where
  "ClassifyResponse quote parse_time now resp cfg =
     (case resp of
        None \<Rightarrow> Some (http_err ErrNilResponse)
      | Some resp \<Rightarrow>
          (let code = rs_StatusCode resp
           in if code \<ge> 200 \<and> code < 300 then None
              else
                let statusErr = StatusError code
                      (if errorBodyExcerptEnabled cfg
                       then (case rs_Body resp of None \<Rightarrow> '''' | Some b \<Rightarrow> readExcerpt quote b) else '''')
                in if code < 500 \<and> code \<noteq> 408 \<and> code \<noteq> 429 then Permanent (Some statusErr)
                   else if code = 429 \<or> code = 503 then
                     (case parseRetryAfter parse_time (hdr_get (rs_Header resp) ''Retry-After'') now of
                        Some d \<Rightarrow> RetryAfter (Some statusErr) d
                      | None \<Rightarrow> Some statusErr)
                   else Some statusErr))"

section \<open>Outbound\<close>

record 's Outbound =
  ob_url :: string
  ob_client :: httpClient
  ob_cfg :: "'s Config"

definition NewOutbound ::
  "('s \<Rightarrow> time) \<Rightarrow> (string \<Rightarrow> (string \<times> string) option) \<Rightarrow> string \<Rightarrow> 's Option list \<Rightarrow> err + 's Outbound" where
  "NewOutbound wall parse_url url opts =
     (case delegate_config ''msghttp.NewOutbound'' wall opts of
        Inl e \<Rightarrow> Inl e
      | Inr cfg \<Rightarrow>
          (case validateURL parse_url url of
             Some e \<Rightarrow> Inl e
           | None \<Rightarrow> Inr \<lparr>ob_url = url, ob_client = resolveClient cfg, ob_cfg = cfg\<rparr>))"

definition permanentEncode :: "err \<Rightarrow> err option" where
  "permanentEncode e = Permanent (Some e)"

fun is_UrlError :: "err \<Rightarrow> bool" where
  "is_UrlError (UrlError op u e) = True"
| "is_UrlError _ = False"

definition redactTransport :: "err \<Rightarrow> err" where
  "redactTransport e =
     (let (op, inner) = (case find is_UrlError (err_tree e) of
                           Some (UrlError op u x) \<Rightarrow> (op, x)
                         | _ \<Rightarrow> (''Post'', e))
      in Errorf ''%w: %s: %w'' [ArgW (http_err ErrOutboundTransport), ArgS op, ArgW inner])"

type_synonym 's do_request = "httpClient \<Rightarrow> outRequest \<Rightarrow> ('s, err + httpResponse) prog"

definition Outbound_Send ::
  "(string \<Rightarrow> string \<Rightarrow> err option) \<Rightarrow> 's do_request \<Rightarrow> ('s, unit) prog \<Rightarrow> (string \<Rightarrow> string) \<Rightarrow> (string \<Rightarrow> time option) \<Rightarrow>
   ('s \<Rightarrow> time) \<Rightarrow> 's Outbound \<Rightarrow> msg \<Rightarrow> ('s, err option) prog" where
  "Outbound_Send new_req http_Do close quote parse_time wall ob m =
     (case EncodeRequest new_req ''POST'' (ob_url ob) m (Some (ob_cfg ob)) of
        Inl e \<Rightarrow> returnP (permanentEncode e)
      | Inr req \<Rightarrow>
          bindP (http_Do (ob_client ob) req) (\<lambda>r.
            case r of
              Inl e \<Rightarrow> returnP (Some (redactTransport e))
            | Inr resp \<Rightarrow>
                deferP (readP (\<lambda>s. ClassifyResponse quote parse_time (clockOrDefault wall (Some (ob_cfg ob)) s)
                                    (Some resp) (Some (ob_cfg ob)))) close))"

section \<open>Exchange\<close>

record 's HttpExchange =
  hx_url :: string
  hx_client :: httpClient
  hx_cfg :: "'s Config"

definition NewExchange ::
  "('s \<Rightarrow> time) \<Rightarrow> (string \<Rightarrow> (string \<times> string) option) \<Rightarrow> string \<Rightarrow> 's Option list \<Rightarrow> err + 's HttpExchange" where
  "NewExchange wall parse_url url opts =
     (case delegate_config ''msghttp.NewExchange'' wall opts of
        Inl e \<Rightarrow> Inl e
      | Inr cfg \<Rightarrow>
          (case validateURL parse_url url of
             Some e \<Rightarrow> Inl e
           | None \<Rightarrow> Inr \<lparr>hx_url = url, hx_client = resolveClient cfg, hx_cfg = cfg\<rparr>))"

definition reply_base :: "msg \<Rightarrow> Headers" where
  "reply_base req =
     (headers req)(HeaderMessageID := None, HeaderTimestamp := None, HeaderContentType := None,
       headerHTTPMethod := None, headerHTTPPath := None, headerHTTPQuery := None, headerHTTPContentType := None)"

text \<open>One turn of the loop over the allow-listed reply headers.\<close>

definition reply_copy :: "HttpHeader \<Rightarrow> msg \<Rightarrow> string \<Rightarrow> msg" where
  "reply_copy h reply name =
     (if reserved name then reply
      else let v = hdr_get h name
           in if v \<noteq> '''' then WithHeader reply name (GString (sanitizeHeaderValue v)) else reply)"

definition buildReply :: "'s Config \<Rightarrow> time \<Rightarrow> string \<Rightarrow> msg \<Rightarrow> httpResponse \<Rightarrow> string \<Rightarrow> msg" where
  "buildReply cfg now b req resp bod =
     (let reply = New now b (GBytes bod) [WithHeaders (reply_base req)];
          ct = hdr_get (rs_Header resp) ''Content-Type'';
          reply = (if ct \<noteq> '''' then WithHeader reply headerHTTPContentType (GString (sanitizeHeaderValue ct)) else reply)
      in foldl (reply_copy (rs_Header resp)) reply (allowedReplyHeaders cfg))"

text \<open>
  Reading the reply: at most the cap, and one byte more to tell a body of exactly the cap from a
  longer one.
\<close>

definition read_reply :: "body \<Rightarrow> int \<Rightarrow> err + string" where
  "read_reply b mx =
     (case io_ReadAll (LimitReader b mx) of
        (bod, Some e) \<Rightarrow> Inl e
      | (bod, None) \<Rightarrow>
          (if int (length bod) = mx then
             (case List.drop (length bod) (b_bytes b) of
                _ # _ \<Rightarrow> Inl (http_err ErrReplyTooLarge)
              | [] \<Rightarrow> if is_EOF (read_err b) then Inr bod else Inl (read_err b))
           else Inr bod))"

definition HttpExchange_Exchange ::
  "(string \<Rightarrow> string \<Rightarrow> err option) \<Rightarrow> 's do_request \<Rightarrow> ('s, unit) prog \<Rightarrow> (string \<Rightarrow> string) \<Rightarrow> (string \<Rightarrow> time option) \<Rightarrow>
   ('s \<Rightarrow> time) \<Rightarrow> ('s \<Rightarrow> string) \<Rightarrow> 's HttpExchange \<Rightarrow> msg \<Rightarrow> ('s, err + msg) prog" where
  "HttpExchange_Exchange new_req http_Do close quote parse_time wall rnd x req =
     (case EncodeRequest new_req ''POST'' (hx_url x) req (Some (hx_cfg x)) of
        Inl e \<Rightarrow> returnP (Inl (PermanentError e))
      | Inr hreq \<Rightarrow>
          bindP (http_Do (hx_client x) hreq) (\<lambda>r.
            case r of
              Inl e \<Rightarrow> returnP (Inl (redactTransport e))
            | Inr resp \<Rightarrow>
                deferP (readP (\<lambda>s.
                  case ClassifyResponse quote parse_time (clockOrDefault wall (Some (hx_cfg x)) s) (Some resp) (Some (hx_cfg x)) of
                    Some e \<Rightarrow> Inl e
                  | None \<Rightarrow>
                      (case read_reply (body_of resp) (maxResponseBytes (hx_cfg x)) of
                         Inl e \<Rightarrow> Inl e
                       | Inr bod \<Rightarrow> Inr (buildReply (hx_cfg x) (wall s) (rnd s) req resp bod)))) close))"

section \<open>Properties\<close>

lemma parseRetryAfter_range:
  assumes "parseRetryAfter parse_time v now = Some d"
  shows "0 \<le> d \<and> d \<le> MaxInt64"
proof (cases "parse_int64 (trim_space v)")
  case None
  then show ?thesis using assms
    by (auto simp: parseRetryAfter_def time_Sub_def Let_def split: if_splits option.splits)
next
  case (Some secs)
  then have "0 \<le> secs" "secs \<le> maxRetryAfterSeconds" "d = wrap64 (secs * Second)"
    using assms by (auto simp: parseRetryAfter_def Let_def split: if_splits)
  then show ?thesis by simp
qed

text \<open>
  The classification of every response status, whatever integer it is. No error exactly for
  2xx; otherwise an error that is the outbound status sentinel and no other, so that no status
  of a remote server passes for a payload fault; permanent exactly below 500 outside 408 and
  429; and a server-instructed delay only on 429 and 503, as the header's value, never negative
  and never beyond what a duration holds, whichever of the two forms the header uses.
\<close>

theorem response_classification:
  "case ClassifyResponse quote parse_time now (Some resp) cfg of
     None \<Rightarrow> 200 \<le> rs_StatusCode resp \<and> rs_StatusCode resp < 300
   | Some e \<Rightarrow>
       \<not> (200 \<le> rs_StatusCode resp \<and> rs_StatusCode resp < 300)
       \<and> (\<forall>t. errors_Is e t \<longleftrightarrow> t = MsgHttp ErrOutboundStatus)
       \<and> (IsPermanent (Some e) \<longleftrightarrow> rs_StatusCode resp < 500 \<and> rs_StatusCode resp \<notin> {408, 429})
       \<and> RetryAfterOf (Some e) =
           (if rs_StatusCode resp \<in> {429, 503} then parseRetryAfter parse_time (hdr_get (rs_Header resp) ''Retry-After'') now else None)
       \<and> (\<forall>d. RetryAfterOf (Some e) = Some d \<longrightarrow> 0 \<le> d \<and> d \<le> MaxInt64)"
proof (cases "parseRetryAfter parse_time (hdr_get (rs_Header resp) ''Retry-After'') now")
  case None
  then show ?thesis
    by (auto simp: ClassifyResponse_def Let_def IsPermanent_iff RetryAfterOf_def List.map_filter_simps)
next
  case (Some d)
  with parseRetryAfter_range [OF Some] show ?thesis
    by (auto simp: ClassifyResponse_def Let_def IsPermanent_iff RetryAfterOf_def RetryAfter_def List.map_filter_simps)
qed

section \<open>Redaction\<close>

text \<open>
  A transport failure is redacted and still diagnosable. What the send reports for the
  client's error, wrapped or not, is the transport sentinel, keeps every sentinel, the
  cancellation and the deadline of the cause below the URL error, is permanent only when that
  cause is, and holds no URL error of the client: the one it had is cut out of the tree, so the
  target's host, path and query reach no error string.
\<close>

theorem transport_error_redacted:
  assumes "err_tree e = pre @ UrlError op u cause # post" "\<not> list_ex is_UrlError pre"
  shows "(\<forall>t. errors_Is (redactTransport e) t \<longleftrightarrow> t = MsgHttp ErrOutboundTransport \<or> errors_Is cause t)
    \<and> (Canceled \<in> set (err_tree (redactTransport e)) \<longleftrightarrow> Canceled \<in> set (err_tree cause))
    \<and> (DeadlineExceeded \<in> set (err_tree (redactTransport e)) \<longleftrightarrow> DeadlineExceeded \<in> set (err_tree cause))
    \<and> (IsPermanent (Some (redactTransport e)) \<longleftrightarrow> IsPermanent (Some cause))
    \<and> filter is_UrlError (err_tree (redactTransport e)) = filter is_UrlError (err_tree cause)"
proof -
  have "find is_UrlError pre = None" using assms(2) by (auto simp: find_None_iff list_ex_iff)
  then have "find is_UrlError (err_tree e) = Some (UrlError op u cause)"
    unfolding assms(1) by (induction pre) (auto split: if_splits)
  then have r: "redactTransport e = Errorf ''%w: %s: %w'' [ArgW (http_err ErrOutboundTransport), ArgS op, ArgW cause]"
    by (simp add: redactTransport_def)
  show ?thesis unfolding r by (auto simp: IsPermanent_iff http_err_def)
qed

theorem transport_error_redacted_witness:
  "errors_Is (redactTransport (UrlError ''Post'' ''https://u:p@h/t?k=1'' (Sentinel ErrClosed))) ErrClosed
   \<and> filter is_UrlError (err_tree (redactTransport (UrlError ''Post'' ''https://u:p@h/t?k=1'' (Sentinel ErrClosed)))) = []"
  using transport_error_redacted [where e = "UrlError ''Post'' ''https://u:p@h/t?k=1'' (Sentinel ErrClosed)" and pre = "[]"]
  by auto

section \<open>Replies\<close>

lemma read_reply_whole:
  assumes "read_reply b mx = Inr bod" "0 < mx"
  shows "bod = b_bytes b \<and> int (length bod) \<le> mx \<and> is_EOF (read_err b)"
proof (cases "int (length (b_bytes b)) < mx")
  case True
  then show ?thesis using assms
    by (auto simp: read_reply_def LimitReader_def io_ReadAll_def read_err_def is_EOF_def split: option.splits)
next
  case False
  then have l: "length (take (nat mx) (b_bytes b)) = nat mx" by auto
  then have n: "read_reply b mx = (case List.drop (nat mx) (b_bytes b) of _ # _ \<Rightarrow> Inl (http_err ErrReplyTooLarge)
      | [] \<Rightarrow> if is_EOF (read_err b) then Inr (take (nat mx) (b_bytes b)) else Inl (read_err b))"
    using False assms(2) by (simp add: read_reply_def LimitReader_def io_ReadAll_def)
  have d: "List.drop (nat mx) (b_bytes b) = []" using assms(1) n by (cases "List.drop (nat mx) (b_bytes b)") simp_all
  then have "take (nat mx) (b_bytes b) = b_bytes b" by simp
  then show ?thesis using assms n d False by (auto split: if_splits)
qed

lemma reply_copy_headers:
  "headers (reply_copy h m n) k = headers m k \<or> (\<not> reserved k \<and> (\<exists>v. headers (reply_copy h m n) k = Some (GString v) \<and> no_term v))"
  using sanitize_no_term by (auto simp: reply_copy_def Let_def)

lemma copied_reply_headers:
  "headers (foldl (reply_copy h) m names) k = headers m k
   \<or> (\<not> reserved k \<and> (\<exists>v. headers (foldl (reply_copy h) m names) k = Some (GString v) \<and> no_term v))"
proof (induction names arbitrary: m)
  case (Cons n names)
  show ?case using Cons.IH [of "reply_copy h m n"] reply_copy_headers [of h m n k] by auto
qed simp

lemma copied_reply_payload: "payload (foldl (reply_copy h) m names) = payload m"
  by (induction names arbitrary: m) (auto simp: reply_copy_def Let_def)

lemma buildReply_payload: "payload (buildReply cfg now b req resp bod) = GBytes bod"
  by (simp add: buildReply_def copied_reply_payload New_WithHeaders Let_def)

text \<open>Where a header of the reply comes from: minted here, carried from the request, or copied from the response.\<close>

lemma buildReply_headers:
  "headers (buildReply cfg now b req resp bod) k =
     (if k = HeaderMessageID then Some (GString (NewID b)) else if k = HeaderTimestamp then Some (GTime now) else reply_base req k)
   \<or> (\<not> reserved k \<and> (\<exists>v. headers (buildReply cfg now b req resp bod) k = Some (GString v) \<and> no_term v))"
proof -
  let ?m = "New now b (GBytes bod) [WithHeaders (reply_base req)]"
  let ?ct = "hdr_get (rs_Header resp) ''Content-Type''"
  let ?r = "if ?ct \<noteq> '''' then WithHeader ?m headerHTTPContentType (GString (sanitizeHeaderValue ?ct)) else ?m"
  have "headers (buildReply cfg now b req resp bod) k = headers ?r k
      \<or> (\<not> reserved k \<and> (\<exists>v. headers (buildReply cfg now b req resp bod) k = Some (GString v) \<and> no_term v))"
    using copied_reply_headers [where m = ?r and h = "rs_Header resp" and names = "allowedReplyHeaders cfg" and k = k]
    by (simp add: buildReply_def Let_def)
  moreover have "headers ?r k = headers ?m k \<or> (\<not> reserved k \<and> (\<exists>v. headers ?r k = Some (GString v) \<and> no_term v))"
    using core_reserved(8) sanitize_no_term by auto
  moreover have "headers ?m k = (if k = HeaderMessageID then Some (GString (NewID b)) else if k = HeaderTimestamp then Some (GTime now) else reply_base req k)"
    by (simp add: New_WithHeaders)
  ultimately show ?thesis by auto
qed

lemma ClassifyResponse_None:
  "ClassifyResponse quote parse_time now (Some resp) cfg = None \<longleftrightarrow> 200 \<le> rs_StatusCode resp \<and> rs_StatusCode resp < 300"
  by (auto simp: ClassifyResponse_def Let_def RetryAfter_def split: option.splits)

lemma reserved_not_http:
  assumes "reserved k"
  shows "k \<noteq> headerHTTPMethod" "k \<noteq> headerHTTPPath" "k \<noteq> headerHTTPQuery" "k \<noteq> headerHTTPContentType"
  using assms by (rule contrapos_pn, simp add: core_reserved)+

lemma unreserved_not_core:
  assumes "\<not> reserved k"
  shows "k \<noteq> HeaderMessageID" "k \<noteq> HeaderTimestamp"
  using assms by (rule contrapos_nn, simp add: core_reserved)+

lemma HttpExchange_Inr:
  assumes "HttpExchange_Exchange new_req http_Do close quote parse_time wall rnd x req s = (Val (Inr reply), s')"
  obtains hreq resp s1 bod v where
    "EncodeRequest new_req ''POST'' (hx_url x) req (Some (hx_cfg x)) = Inr hreq"
    "http_Do (hx_client x) hreq s = (Val (Inr resp), s1)" "close s1 = (Val v, s')"
    "200 \<le> rs_StatusCode resp" "rs_StatusCode resp < 300"
    "read_reply (body_of resp) (maxResponseBytes (hx_cfg x)) = Inr bod"
    "reply = buildReply (hx_cfg x) (wall s1) (rnd s1) req resp bod"
proof -
  obtain hreq where h: "EncodeRequest new_req ''POST'' (hx_url x) req (Some (hx_cfg x)) = Inr hreq"
    using assms by (auto simp: HttpExchange_Exchange_def returnP_def split: sum.splits)
  obtain r s1 where r: "http_Do (hx_client x) hreq s = (r, s1)" by fastforce
  have "\<exists>resp. r = Val (Inr resp)"
    using assms h r by (auto simp: HttpExchange_Exchange_def bindP_def returnP_def split: sum.splits res.splits)
  then obtain resp where resp: "r = Val (Inr resp)" by blast
  let ?q = "\<lambda>s. case ClassifyResponse quote parse_time (clockOrDefault wall (Some (hx_cfg x)) s) (Some resp) (Some (hx_cfg x)) of
      Some e \<Rightarrow> Inl e
    | None \<Rightarrow> (case read_reply (body_of resp) (maxResponseBytes (hx_cfg x)) of
        Inl e \<Rightarrow> Inl e | Inr bod \<Rightarrow> Inr (buildReply (hx_cfg x) (wall s) (rnd s) req resp bod))"
  have "deferP (readP ?q) close s1 = (Val (Inr reply), s')"
    using assms h r resp by (simp add: HttpExchange_Exchange_def bindP_def)
  then obtain v where v: "?q s1 = Inr reply" "close s1 = (Val v, s')"
    by (auto simp: deferP_def readP_def split: prod.splits res.splits)
  then have "ClassifyResponse quote parse_time (clockOrDefault wall (Some (hx_cfg x)) s1) (Some resp) (Some (hx_cfg x)) = None"
    by (auto split: option.splits)
  then have c: "200 \<le> rs_StatusCode resp" "rs_StatusCode resp < 300"
    and "(case read_reply (body_of resp) (maxResponseBytes (hx_cfg x)) of
        Inl e \<Rightarrow> Inl e | Inr bod \<Rightarrow> Inr (buildReply (hx_cfg x) (wall s1) (rnd s1) req resp bod)) = Inr reply"
    using v(1) ClassifyResponse_None [of quote parse_time "clockOrDefault wall (Some (hx_cfg x)) s1" resp "Some (hx_cfg x)"] by simp_all
  then obtain bod where "read_reply (body_of resp) (maxResponseBytes (hx_cfg x)) = Inr bod"
    "reply = buildReply (hx_cfg x) (wall s1) (rnd s1) req resp bod"
    by (cases "read_reply (body_of resp) (maxResponseBytes (hx_cfg x))") simp_all
  from that [OF h r [unfolded resp] v(2) c this] show thesis .
qed

text \<open>
  C21. A reply is whole and its core headers are ours. When the exchange returns a reply, the one
  request it made went to the configured URL with the whole payload, the remote answered 2xx and
  its body was closed; the reply's payload is the entire body, of at most the configured size,
  read to its clean end (a body cut off at the very cap is no reply); its id and timestamp are
  minted here, every other reserved header is the request's, its media type alone dropped, so
  sequence and correlation survive the hop and the remote can forge none; and any header that
  differs from the request's is a single line.
\<close>

theorem exchange_reply_whole:
  assumes "HttpExchange_Exchange new_req http_Do close quote parse_time wall rnd x req s = (Val (Inr reply), s')"
    and "0 < maxResponseBytes (hx_cfg x)"
  shows "\<exists>hreq resp s1 v.
      http_Do (hx_client x) hreq s = (Val (Inr resp), s1) \<and> close s1 = (Val v, s')
    \<and> or_Method hreq = ''POST'' \<and> or_URL hreq = hx_url x \<and> payloadBytes req = Inr (or_Body hreq)
    \<and> 200 \<le> rs_StatusCode resp \<and> rs_StatusCode resp < 300
    \<and> payload reply = GBytes (b_bytes (body_of resp)) \<and> is_EOF (read_err (body_of resp))
    \<and> int (length (b_bytes (body_of resp))) \<le> maxResponseBytes (hx_cfg x)
    \<and> ID reply = NewID (rnd s1) \<and> headers reply HeaderTimestamp = Some (GTime (wall s1))
    \<and> headers reply HeaderContentType = None
    \<and> (\<forall>k. reserved k \<longrightarrow> k \<notin> {HeaderMessageID, HeaderTimestamp, HeaderContentType} \<longrightarrow> headers reply k = headers req k)
    \<and> (\<forall>k v. \<not> reserved k \<longrightarrow> headers reply k = Some v \<longrightarrow> headers req k = Some v \<or> (\<exists>t. v = GString t \<and> no_term t))"
proof -
  obtain hreq resp s1 bod v where d: "EncodeRequest new_req ''POST'' (hx_url x) req (Some (hx_cfg x)) = Inr hreq"
    "http_Do (hx_client x) hreq s = (Val (Inr resp), s1)" "close s1 = (Val v, s')"
    "200 \<le> rs_StatusCode resp" "rs_StatusCode resp < 300"
    "read_reply (body_of resp) (maxResponseBytes (hx_cfg x)) = Inr bod"
    "reply = buildReply (hx_cfg x) (wall s1) (rnd s1) req resp bod"
    by (rule HttpExchange_Inr [OF assms(1)])
  note fields = buildReply_headers [of "hx_cfg x" "wall s1" "rnd s1" req resp bod, folded d(7)]
  have res: "headers reply k = (if k = HeaderMessageID then Some (GString (NewID (rnd s1)))
      else if k = HeaderTimestamp then Some (GTime (wall s1)) else reply_base req k)" if "reserved k" for k
    using fields [of k] that by blast
  have b: "reply_base req k = headers req k" if "reserved k" "k \<notin> {HeaderMessageID, HeaderTimestamp, HeaderContentType}" for k
  proof -
    have "k \<noteq> headerHTTPMethod" "k \<noteq> headerHTTPPath" "k \<noteq> headerHTTPQuery" "k \<noteq> headerHTTPContentType"
      using reserved_not_http [OF that(1)] by simp_all
    then show ?thesis using that(2) by (simp add: reply_base_def)
  qed
  have n: "reply_base req k = None \<or> reply_base req k = headers req k" for k by (auto simp: reply_base_def)
  have m: "headers reply HeaderMessageID = Some (GString (NewID (rnd s1)))" "headers reply HeaderTimestamp = Some (GTime (wall s1))"
    "headers reply HeaderContentType = None"
    by (simp_all add: res core_reserved reply_base_def)
  have r: "or_Method hreq = ''POST'' \<and> or_URL hreq = hx_url x \<and> payloadBytes req = Inr (or_Body hreq)"
    using d(1) by (auto simp: EncodeRequest_def split: sum.splits option.splits)
  have p: "payload reply = GBytes (b_bytes (body_of resp)) \<and> is_EOF (read_err (body_of resp))
      \<and> int (length (b_bytes (body_of resp))) \<le> maxResponseBytes (hx_cfg x)"
    using read_reply_whole [OF d(6) assms(2)] buildReply_payload d(7) by auto
  have k1: "headers reply k = headers req k" if "reserved k" "k \<notin> {HeaderMessageID, HeaderTimestamp, HeaderContentType}" for k
    using res [OF that(1)] b [OF that] that(2) by simp
  have k2: "headers req k = Some w \<or> (\<exists>t. w = GString t \<and> no_term t)" if "\<not> reserved k" "headers reply k = Some w" for k w
  proof -
    have "k \<noteq> HeaderMessageID" "k \<noteq> HeaderTimestamp" using unreserved_not_core [OF that(1)] by simp_all
    then show ?thesis using fields [of k] n [of k] that by auto
  qed
  have "ID reply = NewID (rnd s1)" using m(1) by (simp add: ID_def Headers_String_def)
  with d(2-5) r p m(2,3) k1 k2 show ?thesis
    by (intro exI [of _ hreq] exI [of _ resp] exI [of _ s1] exI [of _ v] conjI) (fast | (elim conjE, assumption))+
qed

definition demo_exchange :: "unit HttpExchange" where
  "demo_exchange = \<lparr>hx_url = ''http://h/'', hx_client = \<lparr>hc_Timeout = 0, hc_CheckRedirect = None, hc_Transport = 0\<rparr>, hx_cfg = zeroConfig\<lparr>maxResponseBytes := 2\<rparr>\<rparr>"

definition demo_response :: httpResponse where
  "demo_response = \<lparr>rs_StatusCode = 200, rs_Header = Map.empty, rs_Body = Some \<lparr>b_bytes = ''ok'', b_end = None\<rparr>\<rparr>"

text \<open>A body of exactly the cap is a reply, and it carries the request's correlation id.\<close>

theorem exchange_reply_whole_witness:
  "\<exists>reply. HttpExchange_Exchange (\<lambda>m u. None) (\<lambda>c r s. (Val (Inr demo_response), s)) (\<lambda>s. (Val (), s)) id (\<lambda>_. None) (\<lambda>_. 5) (\<lambda>_. ''A'')
       demo_exchange \<lparr>payload = GString ''q'', headers = [HeaderCorrelationID \<mapsto> GString ''c1'']\<rparr> () = (Val (Inr reply), ())
     \<and> payload reply = GBytes ''ok'' \<and> headers reply HeaderCorrelationID = Some (GString ''c1'')"
proof -
  let ?req = "\<lparr>payload = GString ''q'', headers = [HeaderCorrelationID \<mapsto> GString ''c1'']\<rparr> :: msg"
  let ?do = "\<lambda>(c :: httpClient) (r :: outRequest) (s :: unit). (Val (Inr demo_response), s) :: (err + httpResponse) res \<times> unit"
  have "\<exists>reply. HttpExchange_Exchange (\<lambda>m u. None) ?do (\<lambda>s. (Val (), s)) id (\<lambda>_. None) (\<lambda>_. 5) (\<lambda>_. ''A'') demo_exchange ?req ()
      = (Val (Inr reply), ())"
    by (simp add: HttpExchange_Exchange_def EncodeRequest_def payloadBytes_def bindP_def deferP_def readP_def ClassifyResponse_def
        demo_response_def demo_exchange_def read_reply_def body_of_def LimitReader_def io_ReadAll_def read_err_def is_EOF_def Let_def)
  then obtain reply where r: "HttpExchange_Exchange (\<lambda>m u. None) ?do (\<lambda>s. (Val (), s)) id (\<lambda>_. None) (\<lambda>_. 5) (\<lambda>_. ''A'') demo_exchange ?req ()
      = (Val (Inr reply), ())" by blast
  have "payload reply = GBytes (b_bytes (body_of demo_response))"
    "\<forall>k. reserved k \<longrightarrow> k \<notin> {HeaderMessageID, HeaderTimestamp, HeaderContentType} \<longrightarrow> headers reply k = headers ?req k"
    using exchange_reply_whole [OF r] by (auto simp: demo_exchange_def)
  with r show ?thesis by (simp add: core_reserved body_of_def demo_response_def)
qed

end
