(* ===== verification/Sql_Lease.thy ===== *)
theory Sql_Lease
  imports Consumer Resilience "HOL-Library.Char_ord"
begin

text \<open>
  The table-backed queue of the SQL adapter (\<^verbatim>\<open>adapter/database/sql\<close>): header framing, options,
  construction, the polling source with its two claim strategies, the outbound adapter with its
  shared-transaction policy, and the queue store that pairs them. A dialect is a record of the
  operations of \<^verbatim>\<open>LeaseDialect\<close> (and of \<^verbatim>\<open>LockDialect\<close>, when the value implements it); \<open>'q\<close> is the
  type of its \<^verbatim>\<open>Querier\<close> handles and \<open>'t\<close> that of transactions. What a lease dialect promises about its
  table is the locale \<open>lease_dialect\<close>; the client lemmas about deliveries are proved there.

  \<open>golib\<close> collects what the code uses of the standard library and cannot be written out: the text of
  a JSON object, RFC 3339 times, the rounding of numbers, and the enumeration of a map's keys.
\<close>

section \<open>Identifiers\<close>

abbreviation sql_err :: "sql_sentinel \<Rightarrow> err" where "sql_err s \<equiv> Sentinel (MsgSql s)"

definition is_letter :: "char \<Rightarrow> bool" where
  "is_letter c \<longleftrightarrow> (CHR ''A'' \<le> c \<and> c \<le> CHR ''Z'') \<or> (CHR ''a'' \<le> c \<and> c \<le> CHR ''z'')"

definition ident_start :: "char \<Rightarrow> bool" where
  "ident_start c \<longleftrightarrow> is_letter c \<or> c = CHR ''_''"

definition ident_char :: "char \<Rightarrow> bool" where
  "ident_char c \<longleftrightarrow> ident_start c \<or> (CHR ''0'' \<le> c \<and> c \<le> CHR ''9'')"

definition identPattern :: "string \<Rightarrow> bool" where
  "identPattern name = (case name of [] \<Rightarrow> False | c # cs \<Rightarrow> ident_start c \<and> list_all ident_char cs)"

definition ValidateIdent :: "string \<Rightarrow> err option" where
  "ValidateIdent name =
     (if identPattern name then None else Some (Errorf ''%w: %q'' [ArgW (sql_err ErrInvalidTableName), ArgS name]))"

section \<open>Header framing\<close>

text \<open>
  A JSON value. \<open>JTree\<close> is an array or an object. \<open>j_text\<close> and \<open>j_parse\<close> convert between an object and its
  text, \<open>j_round\<close> is the \<^verbatim>\<open>float64\<close> nearest to a number, \<open>j_utf8\<close> replaces bytes that are not UTF-8,
  \<open>j_other\<close> marshals a value of a type the library does not know, \<open>j_keys\<close> lists the keys of a map in the
  order of \<^verbatim>\<open>json.Marshal\<close>, \<open>t_format\<close> and \<open>t_parse\<close> are RFC 3339 with nanoseconds and \<open>t_error\<close> the error of
  marshalling a time as JSON. \<open>f_oor\<close>, \<open>f_grow\<close> and \<open>f_spread\<close> are the floating-point arguments of a
  backoff delay.
\<close>

datatype jval = JNull | JBool bool | JNumber rat | JString string | JTree nat

record golib =
  j_text :: "(string \<rightharpoonup> jval) \<Rightarrow> string"
  j_parse :: "string \<Rightarrow> err + (string \<rightharpoonup> jval)"
  j_round :: "rat \<Rightarrow> float64"
  j_utf8 :: "string \<Rightarrow> string"
  j_base64 :: "string \<Rightarrow> string"
  j_other :: "string \<Rightarrow> nat \<Rightarrow> err + jval"
  j_keys :: "Headers \<Rightarrow> string list"
  t_format :: "time \<Rightarrow> string"
  t_parse :: "string \<Rightarrow> time option"
  t_error :: "time \<Rightarrow> err option"
  f_oor :: int
  f_grow :: "duration \<Rightarrow> float64 \<Rightarrow> int \<Rightarrow> float64"
  f_spread :: "duration \<Rightarrow> float64 \<Rightarrow> float64"

fun json_value :: "golib \<Rightarrow> goval \<Rightarrow> err + jval" where
  "json_value L GNil = Inr JNull"
| "json_value L (GString s) = Inr (JString (j_utf8 L s))"
| "json_value L (GInt n) = Inr (JNumber (of_int n))"
| "json_value L (GInt64 n) = Inr (JNumber (of_int n))"
| "json_value L (GFloat64 (Float64 r)) = Inr (JNumber r)"
| "json_value L (GFloat64 _) = Inl (Foreign ''json.UnsupportedValueError'' 0)"
| "json_value L (GBool b) = Inr (JBool b)"
| "json_value L (GTime t) = (case t_error L t of Some e \<Rightarrow> Inl e | None \<Rightarrow> Inr (JString (t_format L t)))"
| "json_value L (GBytes b) = Inr (JString (j_base64 L b))"
| "json_value L (GValue ty n) = j_other L ty n"

fun json_fields :: "golib \<Rightarrow> Headers \<Rightarrow> string list \<Rightarrow> (string \<rightharpoonup> jval) \<Rightarrow> err + (string \<rightharpoonup> jval)" where
  "json_fields L m [] acc = Inr acc"
| "json_fields L m (k # ks) acc =
     (case json_value L (the (m k)) of
        Inl e \<Rightarrow> Inl e
      | Inr v \<Rightarrow> json_fields L m ks (acc(j_utf8 L k \<mapsto> v)))"

definition json_Marshal :: "golib \<Rightarrow> Headers \<Rightarrow> err + string" where
  "json_Marshal L m =
     (case json_fields L m (j_keys L m) Map.empty of Inl e \<Rightarrow> Inl e | Inr doc \<Rightarrow> Inr (j_text L doc))"

fun json_any :: "golib \<Rightarrow> jval \<Rightarrow> goval" where
  "json_any L JNull = GNil"
| "json_any L (JBool b) = GBool b"
| "json_any L (JNumber r) = GFloat64 (j_round L r)"
| "json_any L (JString s) = GString s"
| "json_any L (JTree n) = GValue ''json'' n"

definition json_Unmarshal :: "golib \<Rightarrow> string \<Rightarrow> err + Headers" where
  "json_Unmarshal L b =
     (case j_parse L b of Inl e \<Rightarrow> Inl e | Inr doc \<Rightarrow> Inr (\<lambda>k. map_option (json_any L) (doc k)))"

definition frame_headers :: "golib \<Rightarrow> Headers \<Rightarrow> Headers" where
  "frame_headers L h =
     (case h HeaderTimestamp of
        Some (GTime t) \<Rightarrow> h(HeaderTimestamp \<mapsto> GString (t_format L t))
      | _ \<Rightarrow> h)"

definition EncodeHeaders :: "golib \<Rightarrow> Headers \<Rightarrow> err + string" where
  "EncodeHeaders L h =
     (case json_Marshal L (frame_headers L h) of
        Inl e \<Rightarrow> Inl (Errorf ''msgin/sql: encode headers: %w'' [ArgW e])
      | Inr b \<Rightarrow> Inr b)"

text \<open>The switch on a decoded key: the timestamp becomes a time again, a count an integer.\<close>

definition restore_header :: "golib \<Rightarrow> string \<Rightarrow> goval \<Rightarrow> goval" where
  "restore_header L k v =
     (if k = HeaderTimestamp then
        (case v of GString s \<Rightarrow> (case t_parse L s of Some t \<Rightarrow> GTime t | None \<Rightarrow> v) | _ \<Rightarrow> v)
      else if k = HeaderDeliveryCount \<or> k = HeaderSequenceNumber \<or> k = HeaderSequenceSize then
        (case v of GFloat64 f \<Rightarrow> GInt (float64_to_int (f_oor L) f) | _ \<Rightarrow> v)
      else v)"

definition DecodeHeaders :: "golib \<Rightarrow> string \<Rightarrow> err + Headers" where
  "DecodeHeaders L b =
     (if b = '''' then Inr (NewHeaders Map.empty)
      else case json_Unmarshal L b of
             Inl e \<Rightarrow> Inl (Errorf ''msgin/sql: decode headers: %w'' [ArgW e])
           | Inr raw \<Rightarrow> Inr (NewHeaders (\<lambda>k. map_option (restore_header L k) (raw k))))"

section \<open>Dialects\<close>

record ClaimedRow =
  cr_ID :: int
  cr_MsgID :: string
  cr_Headers :: string
  cr_Payload :: string
  cr_DeliveryCount :: int
  cr_LeaseEpoch :: int

record 't LockedRow =
  lr_ID :: int
  lr_MsgID :: string
  lr_Headers :: string
  lr_Payload :: string
  lr_DeliveryCount :: int
  lr_Tx :: 't

record ('s, 'q, 't) LockDialect =
  kd_ClaimLock :: "'s ctx \<Rightarrow> 'q \<Rightarrow> string \<Rightarrow> string \<Rightarrow> ('s, err + 't LockedRow option) prog"
  kd_AckLock :: "'s ctx \<Rightarrow> 't LockedRow \<Rightarrow> string \<Rightarrow> ('s, err option) prog"
  kd_NackLock :: "'s ctx \<Rightarrow> 't LockedRow \<Rightarrow> string \<Rightarrow> duration \<Rightarrow> ('s, err option) prog"

text \<open>\<open>ld_lock\<close> is the dialect as a \<^verbatim>\<open>LockDialect\<close>, when the type assertion succeeds.\<close>

record ('s, 'q, 't) LeaseDialect =
  ld_Claim :: "'s ctx \<Rightarrow> 'q \<Rightarrow> string \<Rightarrow> int \<Rightarrow> string \<Rightarrow> duration \<Rightarrow> ('s, err + ClaimedRow list) prog"
  ld_Ack :: "'s ctx \<Rightarrow> 'q \<Rightarrow> string \<Rightarrow> int \<Rightarrow> string \<Rightarrow> int \<Rightarrow> ('s, err + bool) prog"
  ld_Nack :: "'s ctx \<Rightarrow> 'q \<Rightarrow> string \<Rightarrow> int \<Rightarrow> string \<Rightarrow> int \<Rightarrow> duration \<Rightarrow> ('s, err + bool) prog"
  ld_Insert :: "'s ctx \<Rightarrow> 'q \<Rightarrow> string \<Rightarrow> string \<Rightarrow> string \<Rightarrow> string \<Rightarrow> duration \<Rightarrow> ('s, err option) prog"
  ld_EnsureSchema :: "'s ctx \<Rightarrow> 'q \<Rightarrow> string \<Rightarrow> ('s, err option) prog"
  ld_SchemaExists :: "'s ctx \<Rightarrow> 'q \<Rightarrow> string \<Rightarrow> ('s, err + bool) prog"
  ld_lock :: "('s, 'q, 't) LockDialect option"

section \<open>Options\<close>

abbreviation defaultLeaseTTL :: duration where "defaultLeaseTTL \<equiv> 5 * Minute"
abbreviation (input) StrategyLeaseClaim :: int where "StrategyLeaseClaim \<equiv> 0"
abbreviation (input) StrategyLockForUpdate :: int where "StrategyLockForUpdate \<equiv> 1"

type_synonym ('s, 'q) TransactionResolver = "'s ctx \<Rightarrow> ('s, err + 'q option) prog"

record ('s, 'q) sql_config =
  so_strategy :: int
  so_leaseTTL :: duration
  so_leaseTTLSet :: bool
  so_lockedBy :: string
  so_txResolver :: "('s, 'q) TransactionResolver option"
  so_txResolverSet :: bool
  so_txStrict :: bool

type_synonym ('s, 'q) sql_option = "(('s, 'q) sql_config \<Rightarrow> ('s, 'q) sql_config) option"

definition sql_defaults :: "('s, 'q) sql_config" where
  "sql_defaults = \<lparr>so_strategy = StrategyLeaseClaim, so_leaseTTL = 0, so_leaseTTLSet = False, so_lockedBy = '''',
     so_txResolver = None, so_txResolverSet = False, so_txStrict = False\<rparr>"

definition WithStrategy :: "int \<Rightarrow> ('s, 'q) sql_option" where
  "WithStrategy st = Some (\<lambda>c. c\<lparr>so_strategy := st\<rparr>)"

definition WithLeaseTTL :: "duration \<Rightarrow> ('s, 'q) sql_option" where
  "WithLeaseTTL d = Some (\<lambda>c. c\<lparr>so_leaseTTL := d, so_leaseTTLSet := True\<rparr>)"

definition WithLockedBy :: "string \<Rightarrow> ('s, 'q) sql_option" where
  "WithLockedBy i = Some (\<lambda>c. c\<lparr>so_lockedBy := i\<rparr>)"

definition WithSharedTransaction :: "('s, 'q) TransactionResolver option \<Rightarrow> ('s, 'q) sql_option" where
  "WithSharedTransaction r = Some (\<lambda>c. c\<lparr>so_txResolver := r, so_txResolverSet := True, so_txStrict := True\<rparr>)"

definition WithOpportunisticSharedTransaction :: "('s, 'q) TransactionResolver option \<Rightarrow> ('s, 'q) sql_option" where
  "WithOpportunisticSharedTransaction r = Some (\<lambda>c. c\<lparr>so_txResolver := r, so_txResolverSet := True, so_txStrict := False\<rparr>)"

definition randomLockedBy :: "string \<Rightarrow> string" where
  "randomLockedBy b = NewID b"

section \<open>The shared base\<close>

record ('s, 'q, 't) adapterBase =
  ab_db :: 'q
  ab_table :: string
  ab_dialect :: "('s, 'q, 't) LeaseDialect"

definition newAdapterBase :: "'q option \<Rightarrow> string \<Rightarrow> ('s, 'q, 't) LeaseDialect option \<Rightarrow> err + ('s, 'q, 't) adapterBase" where
  "newAdapterBase db table dialect =
     (case db of
        None \<Rightarrow> Inl (Sentinel ErrNilAdapter)
      | Some q \<Rightarrow>
          (case ValidateIdent table of
             Some e \<Rightarrow> Inl e
           | None \<Rightarrow>
               (case dialect of
                  None \<Rightarrow> Inl (sql_err ErrNilDialect)
                | Some d \<Rightarrow> Inr \<lparr>ab_db = q, ab_table = table, ab_dialect = d\<rparr>)))"

definition EnsureSchema :: "('s, 'q, 't) adapterBase \<Rightarrow> 's ctx \<Rightarrow> ('s, err option) prog" where
  "EnsureSchema b ctx = ld_EnsureSchema (ab_dialect b) ctx (ab_db b) (ab_table b)"

definition schemaNotReady :: "string \<Rightarrow> err" where
  "schemaNotReady table =
     Errorf ''%w: table %q not initialized; run EnsureSchema or apply the DDL'' [ArgW (sql_err ErrSchemaNotReady), ArgS table]"

definition Ready :: "('s, 'q, 't) adapterBase \<Rightarrow> 's ctx \<Rightarrow> ('s, err option) prog" where
  "Ready b ctx =
     bindP (ld_SchemaExists (ab_dialect b) ctx (ab_db b) (ab_table b)) (\<lambda>r.
       returnP (case r of
           Inl e \<Rightarrow> Some e
         | Inr ex \<Rightarrow> if ex then None else Some (schemaNotReady (ab_table b))))"

definition classifyQueryErr :: "('s, 'q, 't) adapterBase \<Rightarrow> 's ctx \<Rightarrow> err \<Rightarrow> ('s, err) prog" where
  "classifyQueryErr b ctx e =
     bindP (ld_SchemaExists (ab_dialect b) ctx (ab_db b) (ab_table b)) (\<lambda>r.
       returnP (case r of Inr False \<Rightarrow> schemaNotReady (ab_table b) | _ \<Rightarrow> e))"

section \<open>The polling source\<close>

record ('s, 'q, 't) Source =
  sr_base :: "('s, 'q, 't) adapterBase"
  sr_strategy :: int
  sr_leaseTTL :: duration
  sr_lockedBy :: string
  sr_lockDialect :: "('s, 'q, 't) LockDialect option"

text \<open>The checks of \<^verbatim>\<open>NewPollingSource\<close> after its option loop; \<open>rnd\<close> is the random bytes of a default owner.\<close>

definition source_of :: "string \<Rightarrow> ('s, 'q, 't) adapterBase \<Rightarrow> ('s, 'q) sql_config \<Rightarrow> err + ('s, 'q, 't) Source" where
  "source_of rnd b cfg =
     (if so_strategy cfg \<noteq> StrategyLeaseClaim \<and> so_strategy cfg \<noteq> StrategyLockForUpdate
      then Inl (Errorf ''%w: %d'' [ArgW (sql_err ErrInvalidStrategy), ArgD (so_strategy cfg)])
      else if so_strategy cfg = StrategyLockForUpdate \<and> ld_lock (ab_dialect b) = None
      then Inl (Errorf ''%w: dialect %T'' [ArgW (sql_err ErrLockStrategyUnsupported)])
      else if so_leaseTTLSet cfg \<and> so_leaseTTL cfg \<le> 0
      then Inl (Errorf ''%w: %v'' [ArgW (sql_err ErrInvalidLeaseTTL), ArgD (so_leaseTTL cfg)])
      else Inr \<lparr>sr_base = b, sr_strategy = so_strategy cfg,
                sr_leaseTTL = (if so_leaseTTLSet cfg then so_leaseTTL cfg else defaultLeaseTTL),
                sr_lockedBy = (if so_lockedBy cfg = '''' then randomLockedBy rnd else so_lockedBy cfg),
                sr_lockDialect = (if so_strategy cfg = StrategyLockForUpdate then ld_lock (ab_dialect b) else None)\<rparr>)"

definition NewPollingSource ::
  "string \<Rightarrow> 'q option \<Rightarrow> string \<Rightarrow> ('s, 'q, 't) LeaseDialect option \<Rightarrow> ('s, 'q) sql_option list \<Rightarrow> err + ('s, 'q, 't) Source" where
  "NewPollingSource rnd db table dialect opts =
     (case apply_opts 0 opts sql_defaults of
        Inl i \<Rightarrow> Inl (nilOptionAt ''sql.NewPollingSource'' i)
      | Inr cfg \<Rightarrow>
          (case newAdapterBase db table dialect of
             Inl e \<Rightarrow> Inl e
           | Inr b \<Rightarrow> source_of rnd b cfg))"

abbreviation corruptRowInitialBackoff :: duration where "corruptRowInitialBackoff \<equiv> 30 * Second"
abbreviation corruptRowMaxBackoff :: duration where "corruptRowMaxBackoff \<equiv> 60 * Minute"

definition corrupt_penalty :: "golib \<Rightarrow> int \<Rightarrow> duration" where
  "corrupt_penalty L n =
     Delay (f_oor L) (f_grow L) (f_spread L)
       \<lparr>Initial = corruptRowInitialBackoff, Max = corruptRowMaxBackoff, Mult = Float64 2, RandomizationFactor = Float64 0\<rparr> (n - 1)"

text \<open>The fenced settlement of the row leased at an id and epoch.\<close>

definition lease_ackClosure :: "('s, 'q, 't) Source \<Rightarrow> int \<Rightarrow> int \<Rightarrow> 's ctx \<Rightarrow> ('s, err option) prog" where
  "lease_ackClosure sr i ep ctx =
     (let b = sr_base sr
      in bindP (ld_Ack (ab_dialect b) ctx (ab_db b) (ab_table b) i (sr_lockedBy sr) ep) (\<lambda>r.
           returnP (case r of Inl e \<Rightarrow> Some e | Inr applied \<Rightarrow> if applied then None else Some (sql_err ErrStaleLease))))"

definition lease_nackClosure :: "('s, 'q, 't) Source \<Rightarrow> int \<Rightarrow> int \<Rightarrow> 's ctx \<Rightarrow> bool \<Rightarrow> duration \<Rightarrow> ('s, err option) prog" where
  "lease_nackClosure sr i ep ctx requeue delay =
     (let b = sr_base sr; d = (if requeue then delay else 0)
      in bindP (ld_Nack (ab_dialect b) ctx (ab_db b) (ab_table b) i (sr_lockedBy sr) ep d) (\<lambda>r.
           returnP (case r of Inl e \<Rightarrow> Some e | Inr applied \<Rightarrow> if applied then None else Some (sql_err ErrStaleLease))))"

definition lease_delivery :: "('s, 'q, 't) Source \<Rightarrow> Headers \<Rightarrow> ClaimedRow \<Rightarrow> 's Delivery" where
  "lease_delivery sr h row =
     \<lparr>Msg = WithHeader (NewMessage (GBytes (cr_Payload row)) h) HeaderDeliveryCount (GInt (cr_DeliveryCount row)),
      Ack = lease_ackClosure sr (cr_ID row) (cr_LeaseEpoch row),
      Nack = lease_nackClosure sr (cr_ID row) (cr_LeaseEpoch row)\<rparr>"

text \<open>The loop of \<^verbatim>\<open>pollLease\<close>: a row that does not decode is given back with a penalty, whatever that returns.\<close>

fun lease_rows :: "golib \<Rightarrow> ('s, 'q, 't) Source \<Rightarrow> 's ctx \<Rightarrow> ClaimedRow list \<Rightarrow> ('s, 's Delivery list) prog" where
  "lease_rows L sr ctx [] = returnP []"
| "lease_rows L sr ctx (row # rows) =
     (case DecodeHeaders L (cr_Headers row) of
        Inl e \<Rightarrow>
          bindP (ld_Nack (ab_dialect (sr_base sr)) ctx (ab_db (sr_base sr)) (ab_table (sr_base sr)) (cr_ID row) (sr_lockedBy sr)
                   (cr_LeaseEpoch row) (corrupt_penalty L (cr_DeliveryCount row))) (\<lambda>_.
          lease_rows L sr ctx rows)
      | Inr h \<Rightarrow> bindP (lease_rows L sr ctx rows) (\<lambda>ds. returnP (lease_delivery sr h row # ds)))"

definition pollLease :: "golib \<Rightarrow> ('s, 'q, 't) Source \<Rightarrow> 's ctx \<Rightarrow> int \<Rightarrow> ('s, err + 's Delivery list) prog" where
  "pollLease L sr ctx mx =
     (let b = sr_base sr
      in bindP (ld_Claim (ab_dialect b) ctx (ab_db b) (ab_table b) mx (sr_lockedBy sr) (sr_leaseTTL sr)) (\<lambda>r.
           case r of
             Inl e \<Rightarrow> bindP (classifyQueryErr b ctx e) (\<lambda>e'. returnP (Inl e'))
           | Inr rows \<Rightarrow> bindP (lease_rows L sr ctx rows) (\<lambda>ds. returnP (Inr ds))))"

definition lock_ackClosure :: "('s, 'q, 't) Source \<Rightarrow> 't LockedRow \<Rightarrow> 's ctx \<Rightarrow> ('s, err option) prog" where
  "lock_ackClosure sr lr ctx = kd_AckLock (the (sr_lockDialect sr)) ctx lr (ab_table (sr_base sr))"

definition lock_nackClosure :: "('s, 'q, 't) Source \<Rightarrow> 't LockedRow \<Rightarrow> 's ctx \<Rightarrow> bool \<Rightarrow> duration \<Rightarrow> ('s, err option) prog" where
  "lock_nackClosure sr lr ctx requeue delay =
     kd_NackLock (the (sr_lockDialect sr)) ctx lr (ab_table (sr_base sr)) (if requeue then delay else 0)"

definition pollLock :: "golib \<Rightarrow> ('s, 'q, 't) Source \<Rightarrow> 's ctx \<Rightarrow> int \<Rightarrow> ('s, err + 's Delivery list) prog" where
  "pollLock L sr ctx mx =
     (let b = sr_base sr; k = the (sr_lockDialect sr)
      in bindP (kd_ClaimLock k (WithoutCancel ctx) (ab_db b) (ab_table b) (sr_lockedBy sr)) (\<lambda>r.
           case r of
             Inl e \<Rightarrow> bindP (classifyQueryErr b ctx e) (\<lambda>e'. returnP (Inl e'))
           | Inr None \<Rightarrow> returnP (Inr [])
           | Inr (Some lr) \<Rightarrow>
               (case DecodeHeaders L (lr_Headers lr) of
                  Inl e \<Rightarrow> bindP (kd_NackLock k ctx lr (ab_table b) (corrupt_penalty L (lr_DeliveryCount lr))) (\<lambda>_. returnP (Inr []))
                | Inr h \<Rightarrow> returnP (Inr [\<lparr>
                    Msg = WithHeader (NewMessage (GBytes (lr_Payload lr)) h) HeaderDeliveryCount (GInt (lr_DeliveryCount lr)),
                    Ack = lock_ackClosure sr lr, Nack = lock_nackClosure sr lr\<rparr>]))))"

definition Source_Poll :: "golib \<Rightarrow> ('s, 'q, 't) Source \<Rightarrow> 's ctx \<Rightarrow> int \<Rightarrow> ('s, err + 's Delivery list) prog" where
  "Source_Poll L sr ctx mx = (if sr_strategy sr = StrategyLockForUpdate then pollLock L sr ctx mx else pollLease L sr ctx mx)"

definition Source_NativeRedelivery :: bool where "Source_NativeRedelivery = True"
definition Source_NativeDeadLetter :: bool where "Source_NativeDeadLetter = False"

section \<open>The outbound adapter\<close>

record ('s, 'q, 't) SqlOutbound =
  so_base :: "('s, 'q, 't) adapterBase"
  so_resolver :: "('s, 'q) TransactionResolver option"
  so_strict :: bool

definition NewOutboundAdapter ::
  "'q option \<Rightarrow> string \<Rightarrow> ('s, 'q, 't) LeaseDialect option \<Rightarrow> ('s, 'q) sql_option list \<Rightarrow> err + ('s, 'q, 't) SqlOutbound" where
  "NewOutboundAdapter db table dialect opts =
     (case apply_opts 0 opts sql_defaults of
        Inl i \<Rightarrow> Inl (nilOptionAt ''sql.NewOutboundAdapter'' i)
      | Inr cfg \<Rightarrow>
          (if so_txResolverSet cfg \<and> so_txResolver cfg = None then Inl (sql_err ErrNilResolver)
           else case newAdapterBase db table dialect of
                  Inl e \<Rightarrow> Inl e
                | Inr b \<Rightarrow> Inr \<lparr>so_base = b, so_resolver = so_txResolver cfg, so_strict = so_txStrict cfg\<rparr>))"

definition resolveQuerier :: "('s, 'q, 't) SqlOutbound \<Rightarrow> 's ctx \<Rightarrow> ('s, err + 'q) prog" where
  "resolveQuerier ob ctx =
     (case so_resolver ob of
        None \<Rightarrow> returnP (Inr (ab_db (so_base ob)))
      | Some r \<Rightarrow>
          bindP (r ctx) (\<lambda>x. returnP (case x of
              Inl e \<Rightarrow> Inl (Errorf ''msgin/sql: resolving shared transaction: %w'' [ArgW e])
            | Inr (Some q) \<Rightarrow> Inr q
            | Inr None \<Rightarrow> if so_strict ob then Inl (sql_err ErrNoSharedTransaction) else Inr (ab_db (so_base ob)))))"

definition SqlOutbound_SendAfter ::
  "golib \<Rightarrow> ('s, 'q, 't) SqlOutbound \<Rightarrow> 's ctx \<Rightarrow> msg \<Rightarrow> duration \<Rightarrow> ('s, err option) prog" where
  "SqlOutbound_SendAfter L ob ctx m delay =
     (case EncodeHeaders L (headers m) of
        Inl e \<Rightarrow> returnP (Some e)
      | Inr hb \<Rightarrow>
          (case payload m of
             GBytes p \<Rightarrow>
               bindP (resolveQuerier ob ctx) (\<lambda>r.
                 case r of
                   Inl e \<Rightarrow> returnP (Some e)
                 | Inr q \<Rightarrow>
                     bindP (ld_Insert (ab_dialect (so_base ob)) ctx q (ab_table (so_base ob)) (ID m) hb p delay) (\<lambda>e.
                       case e of
                         None \<Rightarrow> returnP None
                       | Some x \<Rightarrow> bindP (classifyQueryErr (so_base ob) ctx x) (\<lambda>x'. returnP (Some x'))))
           | _ \<Rightarrow> returnP (Some (Errorf ''%w: got %T'' [ArgW (sql_err ErrInvalidPayload)]))))"

definition SqlOutbound_Send :: "golib \<Rightarrow> ('s, 'q, 't) SqlOutbound \<Rightarrow> 's ctx \<Rightarrow> msg \<Rightarrow> ('s, err option) prog" where
  "SqlOutbound_Send L ob ctx m = SqlOutbound_SendAfter L ob ctx m 0"

section \<open>The queue store\<close>

record ('s, 'q, 't) SqlQueueStore =
  sq_out :: "('s, 'q, 't) SqlOutbound"
  sq_src :: "('s, 'q, 't) Source"

definition NewSqlQueueStore ::
  "string \<Rightarrow> 'q option \<Rightarrow> string \<Rightarrow> ('s, 'q, 't) LeaseDialect option \<Rightarrow> ('s, 'q) sql_option list \<Rightarrow> err + ('s, 'q, 't) SqlQueueStore" where
  "NewSqlQueueStore rnd db table dialect opts =
     (case nil_option 0 opts of
        Some i \<Rightarrow> Inl (nilOptionAt ''sql.NewQueueStore'' i)
      | None \<Rightarrow>
          (case NewOutboundAdapter db table dialect opts of
             Inl e \<Rightarrow> Inl e
           | Inr out \<Rightarrow>
               (case NewPollingSource rnd db table dialect opts of
                  Inl e \<Rightarrow> Inl e
                | Inr src \<Rightarrow> Inr \<lparr>sq_out = out, sq_src = src\<rparr>)))"

definition SqlQueueStore_Enqueue :: "golib \<Rightarrow> ('s, 'q, 't) SqlQueueStore \<Rightarrow> 's ctx \<Rightarrow> msg \<Rightarrow> ('s, err option) prog" where
  "SqlQueueStore_Enqueue L q = SqlOutbound_Send L (sq_out q)"

definition SqlQueueStore_Claim :: "golib \<Rightarrow> ('s, 'q, 't) SqlQueueStore \<Rightarrow> 's ctx \<Rightarrow> int \<Rightarrow> ('s, err + 's Delivery list) prog" where
  "SqlQueueStore_Claim L q = Source_Poll L (sq_src q)"

definition SqlQueueStore_EmitsLiveValue :: bool where "SqlQueueStore_EmitsLiveValue = False"

definition SqlQueueStore_Ready :: "('s, 'q, 't) SqlQueueStore \<Rightarrow> 's ctx \<Rightarrow> ('s, err option) prog" where
  "SqlQueueStore_Ready q = Ready (sr_base (sq_src q))"

section \<open>What a lease dialect promises\<close>

text \<open>A row of the queue table as its users see it: its content, and who leases it at which epoch.\<close>

record lrow =
  lw_MsgID :: string
  lw_Headers :: string
  lw_Payload :: string
  lw_holder :: "string option"
  lw_epoch :: int
  lw_count :: int

type_synonym ltable = "int \<rightharpoonup> lrow"

definition lease_to :: "string \<Rightarrow> lrow \<Rightarrow> lrow" where
  "lease_to by w = w\<lparr>lw_holder := Some by, lw_epoch := lw_epoch w + 1, lw_count := lw_count w + 1\<rparr>"

definition unlease :: "lrow \<Rightarrow> lrow" where
  "unlease w = w\<lparr>lw_holder := None\<rparr>"

definition leased :: "ltable \<Rightarrow> int \<Rightarrow> string \<Rightarrow> int \<Rightarrow> bool" where
  "leased t i by ep \<longleftrightarrow> (\<exists>w. t i = Some w \<and> lw_holder w = Some by \<and> lw_epoch w = ep)"

definition same_content :: "lrow \<Rightarrow> lrow \<Rightarrow> bool" where
  "same_content w w' \<longleftrightarrow> lw_MsgID w' = lw_MsgID w \<and> lw_Headers w' = lw_Headers w \<and> lw_Payload w' = lw_Payload w"

text \<open>A later state of the same row.\<close>

definition later :: "lrow \<Rightarrow> lrow \<Rightarrow> bool" where
  "later w w' \<longleftrightarrow> same_content w w' \<and> lw_epoch w \<le> lw_epoch w' \<and> lw_count w \<le> lw_count w'"

lemma later_refl: "later w w"
  by (simp add: later_def same_content_def)

lemma later_trans: "later u v \<Longrightarrow> later v w \<Longrightarrow> later u w"
  by (auto simp: later_def same_content_def)

lemma later_steps: "later w (lease_to by w)" "later w (unlease w)"
  by (simp_all add: later_def same_content_def lease_to_def unlease_def)

definition row_of :: "ClaimedRow \<Rightarrow> string \<Rightarrow> lrow" where
  "row_of x by = \<lparr>lw_MsgID = cr_MsgID x, lw_Headers = cr_Headers x, lw_Payload = cr_Payload x,
     lw_holder = Some by, lw_epoch = cr_LeaseEpoch x, lw_count = cr_DeliveryCount x\<rparr>"

definition new_row :: "string \<Rightarrow> string \<Rightarrow> string \<Rightarrow> lrow" where
  "new_row mid h p = \<lparr>lw_MsgID = mid, lw_Headers = h, lw_Payload = p, lw_holder = None, lw_epoch = 0, lw_count = 0\<rparr>"

text \<open>
  The documented contract. A claim leases some rows and leaves the others alone; when it returns
  rows they are the leased ones, at most as many as asked for. A settlement takes effect exactly
  when its fence holds. An operation that fails may have taken effect or not, since the failure
  may come after the statement. \<open>stored\<close> is the header text as its column keeps it.
\<close>

locale lease_dialect =
  fixes D :: "('s, 'q, 't) LeaseDialect" and q :: 'q and table :: string and rows :: "'s \<Rightarrow> ltable" and inv :: "'s \<Rightarrow> bool"
    and stored :: "string \<Rightarrow> string"
  assumes claim_law: "inv s \<Longrightarrow> ld_Claim D ctx q table n by ttl s = (Val r, s') \<Longrightarrow>
      inv s' \<and> (\<exists>ids. ids \<subseteq> dom (rows s) \<and> rows s' = (\<lambda>i. if i \<in> ids then map_option (lease_to by) (rows s i) else rows s i)
        \<and> (\<forall>rs. r = Inr rs \<longrightarrow> distinct (map cr_ID rs) \<and> cr_ID ` set rs = ids \<and> (0 \<le> n \<longrightarrow> int (length rs) \<le> n)
              \<and> (\<forall>x \<in> set rs. rows s' (cr_ID x) = Some (row_of x by))))"
    and ack_law: "inv s \<Longrightarrow> ld_Ack D ctx q table i by ep s = (Val ra, s') \<Longrightarrow>
      inv s' \<and> (case ra of
         Inr a \<Rightarrow> a = leased (rows s) i by ep \<and> rows s' = (if a then (rows s)(i := None) else rows s)
       | Inl e \<Rightarrow> rows s' = rows s \<or> leased (rows s) i by ep \<and> rows s' = (rows s)(i := None))"
    and nack_law: "inv s \<Longrightarrow> ld_Nack D ctx q table i by ep d s = (Val ra, s') \<Longrightarrow>
      inv s' \<and> (case ra of
         Inr a \<Rightarrow> a = leased (rows s) i by ep \<and> rows s' = (if a then (rows s)(i := map_option unlease (rows s i)) else rows s)
       | Inl e \<Rightarrow> rows s' = rows s \<or> leased (rows s) i by ep \<and> rows s' = (rows s)(i := map_option unlease (rows s i)))"
    and insert_law: "inv s \<Longrightarrow> ld_Insert D ctx q table mid h p d s = (Val ri, s') \<Longrightarrow> inv s' \<and> (
      (rows s' = rows s \<and> ri \<noteq> None) \<or> (\<exists>i. rows s i = None \<and> rows s' = (rows s)(i \<mapsto> new_row mid (stored h) p)))"
    and exists_law: "inv s \<Longrightarrow> ld_SchemaExists D ctx q table s = (Val ra, s') \<Longrightarrow> inv s' \<and> rows s' = rows s"
begin

text \<open>A worker is a source over this table.\<close>

definition worker :: "('s, 'q, 't) Source \<Rightarrow> bool" where
  "worker sr \<longleftrightarrow> sr_base sr = \<lparr>ab_db = q, ab_table = table, ab_dialect = D\<rparr> \<and> sr_strategy sr \<noteq> StrategyLockForUpdate"

lemma worker_base:
  assumes "worker sr"
  shows "ab_db (sr_base sr) = q" "ab_table (sr_base sr) = table" "ab_dialect (sr_base sr) = D"
  using assms by (simp_all add: worker_def)

text \<open>What an operation other than an acknowledgement does to the table: rows stay, with their content.\<close>

definition keeps_rows :: "'s \<Rightarrow> 's \<Rightarrow> bool" where
  "keeps_rows s s' \<longleftrightarrow> inv s' \<and> (\<forall>i w. rows s i = Some w \<longrightarrow> (\<exists>w'. rows s' i = Some w' \<and> later w w'))"

lemma keeps_rows_same: "inv s' \<Longrightarrow> rows s' = rows s \<Longrightarrow> keeps_rows s s'"
  by (simp add: keeps_rows_def later_refl)

lemma keeps_rows_refl: "inv s \<Longrightarrow> keeps_rows s s"
  by (rule keeps_rows_same) simp_all

lemma keeps_rows_trans: "keeps_rows s t \<Longrightarrow> keeps_rows t u \<Longrightarrow> keeps_rows s u"
  unfolding keeps_rows_def using later_trans by fast

lemma keeps_rows_claim:
  assumes "inv s" "ld_Claim D ctx q table n by ttl s = (Val r, s')"
  shows "keeps_rows s s'"
proof -
  obtain ids where "inv s'" and t: "rows s' = (\<lambda>i. if i \<in> ids then map_option (lease_to by) (rows s i) else rows s i)"
    using claim_law [OF assms] by blast
  have "rows s' i = (if i \<in> ids then map_option (lease_to by) (rows s i) else rows s i)" for i by (rule fun_cong [OF t])
  then show ?thesis using \<open>inv s'\<close> by (simp add: keeps_rows_def later_refl later_steps)
qed

lemma keeps_rows_nack:
  assumes "inv s" "ld_Nack D ctx q table i by ep d s = (Val r, s')"
  shows "keeps_rows s s'"
  using nack_law [OF assms]
  by (auto simp: keeps_rows_def later_refl later_steps split: sum.splits if_splits)

text \<open>The rows that decode are delivered, in the order of the claim, and stay leased; no row is lost.\<close>

definition decodes :: "golib \<Rightarrow> ClaimedRow \<Rightarrow> bool" where
  "decodes L x \<longleftrightarrow> \<not> isl (DecodeHeaders L (cr_Headers x))"

definition delivery_of :: "golib \<Rightarrow> ('s, 'q, 't) Source \<Rightarrow> ClaimedRow \<Rightarrow> 's Delivery" where
  "delivery_of L sr x = lease_delivery sr (projr (DecodeHeaders L (cr_Headers x))) x"

lemma lease_rows_deliver:
  assumes "worker sr" "inv s" "lease_rows L sr ctx rs s = (Val ds, s')" "distinct (map cr_ID rs)"
  shows "ds = map (delivery_of L sr) (filter (decodes L) rs) \<and> keeps_rows s s'
    \<and> (\<forall>i. i \<notin> cr_ID ` set (filter (\<lambda>x. \<not> decodes L x) rs) \<longrightarrow> rows s' i = rows s i)"
  using assms(2-4)
proof (induction rs arbitrary: s ds)
  case Nil
  then show ?case by (simp add: returnP_def keeps_rows_refl)
next
  case (Cons x xs)
  note base = worker_base [OF assms(1)]
  show ?case
  proof (cases "DecodeHeaders L (cr_Headers x)")
    case (Inl e)
    obtain r s1 where n: "ld_Nack D ctx q table (cr_ID x) (sr_lockedBy sr) (cr_LeaseEpoch x) (corrupt_penalty L (cr_DeliveryCount x)) s = (Val r, s1)"
      and l: "lease_rows L sr ctx xs s1 = (Val ds, s')"
      using Cons.prems(2) Inl by (auto simp: base bindP_def split: prod.splits res.splits)
    have "\<forall>i. i \<noteq> cr_ID x \<longrightarrow> rows s1 i = rows s i" using nack_law [OF Cons.prems(1) n] by (auto split: sum.splits if_splits)
    moreover note k = keeps_rows_nack [OF Cons.prems(1) n]
    moreover have "inv s1" using k by (simp add: keeps_rows_def)
    ultimately show ?thesis using Cons.IH [OF _ l] Cons.prems(3) Inl keeps_rows_trans [OF k]
      by (auto simp: decodes_def)
  next
    case (Inr h)
    obtain ds' where l: "lease_rows L sr ctx xs s = (Val ds', s')" and ds: "ds = lease_delivery sr h x # ds'"
      using Cons.prems(2) Inr by (auto simp: bindP_def returnP_def split: prod.splits res.splits)
    show ?thesis using Cons.IH [OF Cons.prems(1) l] Cons.prems(3) ds Inr by (auto simp: decodes_def delivery_of_def)
  qed
qed

lemma classify_keeps:
  assumes "worker sr" "inv s" "classifyQueryErr (sr_base sr) ctx e s = (Val x, s')"
  shows "inv s' \<and> rows s' = rows s"
  using assms(3)
  by (auto simp: worker_base [OF assms(1)] classifyQueryErr_def bindP_def returnP_def split: prod.splits res.splits dest: exists_law [OF assms(2)])

lemma poll_delivers:
  assumes "worker sr" "inv s" "Source_Poll L sr ctx mx s = (Val r, s')"
  shows "keeps_rows s s' \<and> (\<forall>ds. r = Inr ds \<longrightarrow> (0 \<le> mx \<longrightarrow> int (length ds) \<le> mx)
    \<and> (\<exists>xs. distinct (map cr_ID xs) \<and> ds = map (delivery_of L sr) xs
        \<and> (\<forall>x \<in> set xs. decodes L x \<and> rows s' (cr_ID x) = Some (row_of x (sr_lockedBy sr)) \<and> rows s (cr_ID x) \<noteq> None)))"
proof -
  note base = worker_base [OF assms(1)]
  have p: "pollLease L sr ctx mx s = (Val r, s')" using assms by (simp add: Source_Poll_def worker_def)
  obtain c s1 where c: "ld_Claim D ctx q table mx (sr_lockedBy sr) (sr_leaseTTL sr) s = (Val c, s1)"
    using p by (auto simp: base pollLease_def bindP_def Let_def split: prod.splits res.splits)
  note k = keeps_rows_claim [OF assms(2) c]
  then have i1: "inv s1" by (simp add: keeps_rows_def)
  show ?thesis
  proof (cases c)
    case (Inl e)
    obtain e' where "classifyQueryErr (sr_base sr) ctx e s1 = (Val e', s')" "r = Inl e'"
      using p c Inl by (auto simp: base pollLease_def bindP_def returnP_def Let_def split: prod.splits res.splits)
    then show ?thesis using classify_keeps [OF assms(1) i1] keeps_rows_trans [OF k] keeps_rows_same by fast
  next
    case (Inr rs)
    obtain ds where l: "lease_rows L sr ctx rs s1 = (Val ds, s')" and r: "r = Inr ds"
      using p c Inr by (auto simp: base pollLease_def bindP_def returnP_def Let_def split: prod.splits res.splits)
    obtain ids where ids: "ids \<subseteq> dom (rows s)" "distinct (map cr_ID rs)" "cr_ID ` set rs = ids" "0 \<le> mx \<longrightarrow> int (length rs) \<le> mx"
      "\<forall>x \<in> set rs. rows s1 (cr_ID x) = Some (row_of x (sr_lockedBy sr))"
      using claim_law [OF assms(2) c] Inr by auto
    note d = lease_rows_deliver [OF assms(1) i1 l ids(2)]
    let ?xs = "filter (decodes L) rs"
    have inj: "inj_on cr_ID (set rs)" using ids(2) by (simp add: distinct_map)
    have "rows s' (cr_ID x) = rows s1 (cr_ID x)" if "x \<in> set ?xs" for x
      using d that inj by (auto dest: inj_onD)
    then have "\<forall>x \<in> set ?xs. decodes L x \<and> rows s' (cr_ID x) = Some (row_of x (sr_lockedBy sr)) \<and> rows s (cr_ID x) \<noteq> None"
      using ids by (auto simp: subset_iff)
    moreover have "distinct (map cr_ID ?xs)" using ids(2) by (rule distinct_map_filter)
    moreover have "int (length ?xs) \<le> int (length rs)" by simp
    ultimately show ?thesis using d ids(4) r keeps_rows_trans [OF k]
      by (metis length_map order_trans sum.inject(2))
  qed
qed

end

section \<open>Runs of a queue\<close>

text \<open>
  Any interleaving of workers and senders over one table. \<open>env\<close> is what may happen in between (the
  database's clock, faults); \<open>view\<close> reads the table off the state. The list of a run holds the
  acknowledgements that were called while their fence held.
\<close>

inductive queue_run ::
  "golib \<Rightarrow> ('s, 'q, 't) adapterBase \<Rightarrow> ('s \<Rightarrow> ltable) \<Rightarrow> ('s \<Rightarrow> 's \<Rightarrow> bool) \<Rightarrow> (int \<times> string \<times> int) list \<Rightarrow> 's \<Rightarrow> 's \<Rightarrow> bool"
  for L b view env where
  start: "queue_run L b view env [] s s"
| world: "queue_run L b view env as s s1 \<Longrightarrow> env s1 s' \<Longrightarrow> queue_run L b view env as s s'"
| poll: "queue_run L b view env as s s1 \<Longrightarrow> sr_base sr = b \<Longrightarrow> sr_strategy sr = StrategyLeaseClaim \<Longrightarrow>
    Source_Poll L sr ctx mx s1 = (Val r, s') \<Longrightarrow> queue_run L b view env as s s'"
| ack: "queue_run L b view env as s s1 \<Longrightarrow> sr_base sr = b \<Longrightarrow>
    lease_ackClosure sr i ep ctx s1 = (Val e, s') \<Longrightarrow>
    queue_run L b view env (if leased (view s1) i (sr_lockedBy sr) ep then as @ [(i, sr_lockedBy sr, ep)] else as) s s'"
| nack: "queue_run L b view env as s s1 \<Longrightarrow> sr_base sr = b \<Longrightarrow>
    lease_nackClosure sr i ep ctx requeue d s1 = (Val e, s') \<Longrightarrow> queue_run L b view env as s s'"
| send: "queue_run L b view env as s s1 \<Longrightarrow> so_base ob = b \<Longrightarrow> so_resolver ob = None \<Longrightarrow>
    SqlOutbound_SendAfter L ob ctx m d s1 = (Val e, s') \<Longrightarrow> queue_run L b view env as s s'"

context lease_dialect
begin

abbreviation base :: "('s, 'q, 't) adapterBase" where
  "base \<equiv> \<lparr>ab_db = q, ab_table = table, ab_dialect = D\<rparr>"

lemma ack_effect:
  assumes "inv s" "sr_base sr = base" "lease_ackClosure sr i ep ctx s = (Val e, s')"
  shows "inv s' \<and> (leased (rows s) i (sr_lockedBy sr) ep \<and> (e = None \<or> rows s' = rows s \<or> rows s' = (rows s)(i := None)) \<or> rows s' = rows s)
    \<and> (e = None \<longrightarrow> leased (rows s) i (sr_lockedBy sr) ep \<and> rows s' = (rows s)(i := None))
    \<and> (\<forall>k. k \<noteq> i \<longrightarrow> rows s' k = rows s k)"
proof -
  obtain r where r: "ld_Ack D ctx q table i (sr_lockedBy sr) ep s = (Val r, s')"
    "e = (case r of Inl e \<Rightarrow> Some e | Inr applied \<Rightarrow> if applied then None else Some (sql_err ErrStaleLease))"
    using assms by (auto simp: lease_ackClosure_def bindP_def returnP_def Let_def split: prod.splits res.splits)
  show ?thesis using ack_law [OF assms(1) r(1)] r(2) by (auto split: sum.splits if_splits)
qed

lemma nack_effect:
  assumes "inv s" "sr_base sr = base" "lease_nackClosure sr i ep ctx requeue d s = (Val e, s')"
  shows "keeps_rows s s'"
proof -
  obtain r where "ld_Nack D ctx q table i (sr_lockedBy sr) ep (if requeue then d else 0) s = (Val r, s')"
    using assms by (auto simp: lease_nackClosure_def bindP_def returnP_def Let_def split: prod.splits res.splits)
  then show ?thesis by (rule keeps_rows_nack [OF assms(1)])
qed

lemma send_effect:
  assumes "inv s" "so_base ob = base" "so_resolver ob = None" "SqlOutbound_SendAfter L ob ctx m d s = (Val e, s')"
  shows "keeps_rows s s'"
proof (cases "\<exists>hb p. EncodeHeaders L (headers m) = Inr hb \<and> payload m = GBytes p")
  case False
  then have "s' = s" using assms
    by (auto simp: SqlOutbound_SendAfter_def returnP_def split: sum.splits goval.splits)
  then show ?thesis using assms(1) by (simp add: keeps_rows_refl)
next
  case True
  then obtain hb p where h: "EncodeHeaders L (headers m) = Inr hb" "payload m = GBytes p" by blast
  obtain r s1 where i: "ld_Insert D ctx q table (ID m) hb p d s = (Val r, s1)"
    using assms h by (auto simp: SqlOutbound_SendAfter_def resolveQuerier_def bindP_def returnP_def split: prod.splits res.splits)
  have k: "keeps_rows s s1" using insert_law [OF assms(1) i] by (auto simp: keeps_rows_def later_refl)
  then have i1: "inv s1" by (simp add: keeps_rows_def)
  show ?thesis
  proof (cases r)
    case None
    then have "s' = s1" using assms h i by (auto simp: SqlOutbound_SendAfter_def resolveQuerier_def bindP_def returnP_def)
    then show ?thesis using k by simp
  next
    case (Some x)
    then obtain y s2 where "ld_SchemaExists D ctx q table s1 = (Val y, s2)" "s' = s2"
      using assms h i by (auto simp: SqlOutbound_SendAfter_def resolveQuerier_def classifyQueryErr_def bindP_def returnP_def split: prod.splits res.splits)
    then have "inv s' \<and> rows s' = rows s1" using exists_law [OF i1] by blast
    then show ?thesis using k keeps_rows_same keeps_rows_trans by blast
  qed
qed

text \<open>A send that reports no error has stored its message as a new row, and changed no other.\<close>

lemma send_accepted:
  assumes "inv s" "so_base ob = base" "so_resolver ob = None" "SqlOutbound_SendAfter L ob ctx m d s = (Val None, s')"
  shows "\<exists>hb p i. EncodeHeaders L (headers m) = Inr hb \<and> payload m = GBytes p \<and> rows s i = None
    \<and> inv s' \<and> rows s' = (rows s)(i \<mapsto> new_row (ID m) (stored hb) p)"
proof -
  obtain hb p where h: "EncodeHeaders L (headers m) = Inr hb" "payload m = GBytes p"
    using assms(4) by (auto simp: SqlOutbound_SendAfter_def returnP_def split: sum.splits goval.splits)
  have i: "ld_Insert D ctx q table (ID m) hb p d s = (Val None, s')"
    using assms h by (auto simp: SqlOutbound_SendAfter_def resolveQuerier_def bindP_def returnP_def split: prod.splits res.splits option.splits)
  show ?thesis using insert_law [OF assms(1) i] h by blast
qed

text \<open>A row stays, with its content, until an acknowledgement is called while it is leased to the caller.\<close>

lemma at_least_once:
  assumes "queue_run L base rows env as s s'" and "\<And>t u. env t u \<Longrightarrow> inv t \<Longrightarrow> inv u \<and> rows u = rows t"
    and "inv s" "rows s i = Some w"
  shows "inv s' \<and> ((\<exists>w'. rows s' i = Some w' \<and> later w w') \<or> (\<exists>by ep. (i, by, ep) \<in> set as))"
  using assms(1,3,4)
proof (induction rule: queue_run.induct)
  case (start s)
  then show ?case using later_refl by blast
next
  case (world as s s1 s')
  then show ?case using assms(2) [OF world.hyps(2)] by auto
next
  case (poll as s s1 sr ctx mx r s')
  have "worker sr" using poll.hyps(2,3) by (simp add: worker_def)
  from poll_delivers [OF this _ poll.hyps(4)] poll.IH [OF poll.prems] have "keeps_rows s1 s'" by blast
  then show ?case using poll.IH [OF poll.prems] later_trans unfolding keeps_rows_def by blast
next
  case (ack as s s1 sr j ep ctx e s')
  have i1: "inv s1" using ack.IH [OF ack.prems] by blast
  note a = ack_effect [OF i1 ack.hyps(2,3)]
  show ?case
  proof (cases "leased (rows s1) j (sr_lockedBy sr) ep")
    case True
    then show ?thesis using a ack.IH [OF ack.prems] by (cases "j = i") auto
  next
    case False
    then have "rows s' = rows s1" using a by blast
    then show ?thesis using False ack.IH [OF ack.prems] a by simp
  qed
next
  case (nack as s s1 sr j ep ctx requeue d e s')
  have i1: "inv s1" using nack.IH [OF nack.prems] by blast
  from nack_effect [OF i1 nack.hyps(2,3)] show ?case
    using nack.IH [OF nack.prems] later_trans unfolding keeps_rows_def by blast
next
  case (send as s s1 ob ctx m d e s')
  have i1: "inv s1" using send.IH [OF send.prems] by blast
  from send_effect [OF i1 send.hyps(2,3,4)] show ?case
    using send.IH [OF send.prems] later_trans unfolding keeps_rows_def by blast
qed

end

section \<open>Framing\<close>

lemma json_fields_Inr:
  assumes "\<forall>k \<in> set ks. json_value L (the (m k)) = Inr (f k)" "\<forall>k \<in> set ks. j_utf8 L k = k"
  shows "json_fields L m ks acc = Inr (\<lambda>k. if k \<in> set ks then Some (f k) else acc k)"
  using assms
proof (induction ks arbitrary: acc)
  case (Cons k ks)
  then have "json_fields L m ks (acc(k \<mapsto> f k)) = Inr (\<lambda>x. if x \<in> set ks then Some (f x) else (acc(k \<mapsto> f k)) x)" by simp
  then show ?case using Cons.prems by (auto simp: fun_eq_iff)
qed simp

text \<open>The header values a wire format can carry: what is written is what is read back.\<close>

definition wire_value :: "golib \<Rightarrow> string \<Rightarrow> goval \<Rightarrow> bool" where
  "wire_value L k v =
     (if k = HeaderTimestamp then (case v of GTime t \<Rightarrow> t_parse L (t_format L t) = Some t \<and> j_utf8 L (t_format L t) = t_format L t | _ \<Rightarrow> False)
      else if k = HeaderDeliveryCount \<or> k = HeaderSequenceNumber \<or> k = HeaderSequenceSize then
        (case v of GInt n \<Rightarrow> j_round L (of_int n) = Float64 (of_int n) \<and> MinInt64 \<le> n \<and> n \<le> MaxInt64 | _ \<Rightarrow> False)
      else
        (case v of
           GNil \<Rightarrow> True | GBool b \<Rightarrow> True
         | GString s \<Rightarrow> j_utf8 L s = s
         | GFloat64 f \<Rightarrow> (case f of Float64 r \<Rightarrow> j_round L r = Float64 r | _ \<Rightarrow> False)
         | GInt n \<Rightarrow> j_round L (of_int n) = Float64 (of_int n)
         | _ \<Rightarrow> False))"

text \<open>A custom integer comes back as a float.\<close>

definition read_back :: "string \<Rightarrow> goval \<Rightarrow> goval" where
  "read_back k v =
     (if k = HeaderTimestamp \<or> k = HeaderDeliveryCount \<or> k = HeaderSequenceNumber \<or> k = HeaderSequenceSize then v
      else case v of GInt n \<Rightarrow> GFloat64 (Float64 (of_int n)) | _ \<Rightarrow> v)"

definition wire_json :: "golib \<Rightarrow> string \<Rightarrow> goval \<Rightarrow> jval" where
  "wire_json L k v =
     (case v of
        GTime t \<Rightarrow> JString (t_format L t) | GString s \<Rightarrow> JString s | GInt n \<Rightarrow> JNumber (of_int n)
      | GFloat64 (Float64 r) \<Rightarrow> JNumber r | GBool b \<Rightarrow> JBool b | _ \<Rightarrow> JNull)"

definition wire_doc :: "golib \<Rightarrow> Headers \<Rightarrow> string \<rightharpoonup> jval" where
  "wire_doc L h = (\<lambda>k. map_option (wire_json L k) (h k))"

lemma truncate_of_int [simp]: "Prelude.truncate (of_int n) = n"
  by (simp add: Prelude.truncate_def)

lemma frame_headers_value:
  assumes "\<And>k v. h k = Some v \<Longrightarrow> wire_value L k v" "h k = Some v"
  shows "json_value L (the (frame_headers L h k)) = Inr (wire_json L k v)"
proof (cases "k = HeaderTimestamp")
  case True
  then show ?thesis using assms(1) [OF assms(2)] assms(2)
    by (auto simp: frame_headers_def wire_value_def wire_json_def split: goval.splits)
next
  case False
  then have "frame_headers L h k = Some v" using assms(2) by (auto simp: frame_headers_def split: option.splits goval.splits)
  then show ?thesis using assms(1) [OF assms(2)] False
    by (auto simp: wire_value_def wire_json_def split: goval.splits float64.splits if_splits)
qed

lemma restore_wire:
  assumes "wire_value L k v"
  shows "restore_header L k (json_any L (wire_json L k v)) = read_back k v"
  using assms
  by (auto simp: wire_value_def wire_json_def restore_header_def read_back_def float64_to_int_def Let_def
      split: goval.splits float64.splits if_splits)

text \<open>
  C36. Headers survive the table. For every header map a wire format can carry (the timestamp a time,
  the delivery count and the sequence headers integers that a float represents, custom values
  strings, booleans, nil or numbers), what the source decodes from a row is what the
  outbound adapter encoded into it: the same keys, every core header with its Go type and
  value, and a custom value unchanged, save that a custom integer comes back as the float of
  that number. The JSON text conversion is assumed to read back what it wrote.
\<close>

theorem framing_round_trip:
  assumes "\<And>k v. h k = Some v \<Longrightarrow> wire_value L k v" and "\<And>k. h k \<noteq> None \<Longrightarrow> j_utf8 L k = k"
    and "set (j_keys L (frame_headers L h)) = dom h"
    and "j_parse L (j_text L (wire_doc L h)) = Inr (wire_doc L h)" and "j_text L (wire_doc L h) \<noteq> ''''"
  shows "\<exists>b. EncodeHeaders L h = Inr b \<and> DecodeHeaders L b = Inr (\<lambda>k. map_option (read_back k) (h k))"
proof -
  let ?ks = "j_keys L (frame_headers L h)"
  have "\<forall>k \<in> set ?ks. json_value L (the (frame_headers L h k)) = Inr (wire_json L k (the (h k)))"
    unfolding assms(3) using frame_headers_value [where h = h and L = L, OF assms(1)] by auto
  moreover have "\<forall>k \<in> set ?ks. j_utf8 L k = k" unfolding assms(3) using assms(2) by auto
  ultimately have "json_fields L (frame_headers L h) ?ks Map.empty = Inr (\<lambda>k. if k \<in> set ?ks then Some (wire_json L k (the (h k))) else None)"
    by (rule json_fields_Inr)
  also have "(\<lambda>k. if k \<in> set ?ks then Some (wire_json L k (the (h k))) else None) = wire_doc L h"
    unfolding assms(3) wire_doc_def by (auto simp: fun_eq_iff domIff)
  finally have e: "EncodeHeaders L h = Inr (j_text L (wire_doc L h))" by (simp add: EncodeHeaders_def json_Marshal_def)
  have "map_option (restore_header L k) (map_option (json_any L) (wire_doc L h k)) = map_option (read_back k) (h k)" for k
    using restore_wire [OF assms(1)] by (cases "h k") (simp_all add: wire_doc_def)
  then have "DecodeHeaders L (j_text L (wire_doc L h)) = Inr (\<lambda>k. map_option (read_back k) (h k))"
    using assms(4,5) by (simp add: DecodeHeaders_def json_Unmarshal_def NewHeaders_def)
  with e show ?thesis by blast
qed

definition demo_doc :: "string \<rightharpoonup> jval" where
  "demo_doc = [HeaderMessageID \<mapsto> JString ''a'', HeaderSequenceSize \<mapsto> JNumber 3, HeaderTimestamp \<mapsto> JString ''t7'', ''n'' \<mapsto> JNumber 5]"

definition demo_lib :: golib where
  "demo_lib = \<lparr>j_text = (\<lambda>_. ''doc''), j_parse = (\<lambda>b. if b = ''doc'' then Inr demo_doc else Inl Canceled), j_round = Float64, j_utf8 = id,
     j_base64 = id, j_other = (\<lambda>_ _. Inl Canceled), j_keys = (\<lambda>_. [HeaderMessageID, HeaderSequenceSize, HeaderTimestamp, ''n'']),
     t_format = (\<lambda>_. ''t7''), t_parse = (\<lambda>_. Some 7), t_error = (\<lambda>_. None), f_oor = 0, f_grow = (\<lambda>i m n. Float64 (of_int i)), f_spread = (\<lambda>d f. f)\<rparr>"

lemma demo_lib_simps [simp]:
  "j_text demo_lib d = ''doc''" "j_parse demo_lib ''doc'' = Inr demo_doc" "j_round demo_lib r = Float64 r" "j_utf8 demo_lib k = k"
  "j_keys demo_lib m = [HeaderMessageID, HeaderSequenceSize, HeaderTimestamp, ''n'']" "t_format demo_lib t = ''t7''"
  "t_parse demo_lib s = Some 7"
  by (simp_all add: demo_lib_def)

theorem framing_round_trip_witness:
  "\<exists>b h. EncodeHeaders demo_lib [HeaderMessageID \<mapsto> GString ''a'', HeaderSequenceSize \<mapsto> GInt 3, HeaderTimestamp \<mapsto> GTime 7, ''n'' \<mapsto> GInt 5] = Inr b
     \<and> DecodeHeaders demo_lib b = Inr h \<and> h HeaderSequenceSize = Some (GInt 3) \<and> h ''n'' = Some (GFloat64 (Float64 5))"
proof -
  let ?h = "[HeaderMessageID \<mapsto> GString ''a'', HeaderSequenceSize \<mapsto> GInt 3, HeaderTimestamp \<mapsto> GTime 7, ''n'' \<mapsto> GInt 5]"
  have doc: "wire_doc demo_lib ?h = demo_doc"
    by (auto simp: wire_doc_def demo_doc_def wire_json_def fun_eq_iff)
  have "\<exists>b. EncodeHeaders demo_lib ?h = Inr b \<and> DecodeHeaders demo_lib b = Inr (\<lambda>k. map_option (read_back k) (?h k))"
    by (rule framing_round_trip) (auto simp: doc wire_value_def split: if_splits)
  then show ?thesis by (auto simp: read_back_def)
qed

end
