(* ===== verification/Sql_Group.thy ===== *)
theory Sql_Group
  imports Sql_Lease Group_Store
begin

text \<open>
  The durable group store of the SQL adapter (\<^verbatim>\<open>adapter/database/sql/groupstore.go\<close>, the SPI of
  \<^verbatim>\<open>groupdialect.go\<close>): options, construction, the operations of \<^verbatim>\<open>MessageGroupStore\<close> over a dialect, and the
  decoding of stored members. The store is a value of the same interface the aggregator uses.
\<close>

section \<open>The dialect interface\<close>

record MemberRow =
  mr_MsgID :: string
  mr_Seq :: int
  mr_Headers :: string
  mr_Payload :: string

record GroupRows =
  gr_Key :: string
  gr_CreatedAt :: time
  gr_Members :: "MemberRow list"

record ClaimedGroup =
  cg_Rows :: GroupRows
  cg_Epoch :: int

definition noGroupRows :: GroupRows where
  "noGroupRows = \<lparr>gr_Key = '''', gr_CreatedAt = zeroTime, gr_Members = []\<rparr>"

record ('s, 'q) GroupDialect =
  gd_AddMember :: "'s ctx \<Rightarrow> 'q \<Rightarrow> string \<Rightarrow> string \<Rightarrow> string \<Rightarrow> int \<Rightarrow> string \<Rightarrow> string \<Rightarrow> int \<Rightarrow> duration \<Rightarrow> ('s, GroupRows \<times> err option) prog"
  gd_ClaimGroup :: "'s ctx \<Rightarrow> 'q \<Rightarrow> string \<Rightarrow> string \<Rightarrow> string \<Rightarrow> duration \<Rightarrow> ('s, err + ClaimedGroup option) prog"
  gd_SettleGroup :: "'s ctx \<Rightarrow> 'q \<Rightarrow> string \<Rightarrow> string \<Rightarrow> string \<Rightarrow> int \<Rightarrow> ('s, err + bool) prog"
  gd_AbandonGroup :: "'s ctx \<Rightarrow> 'q \<Rightarrow> string \<Rightarrow> string \<Rightarrow> string \<Rightarrow> int \<Rightarrow> ('s, err + bool) prog"
  gd_ExpiredGroups :: "'s ctx \<Rightarrow> 'q \<Rightarrow> string \<Rightarrow> time \<Rightarrow> duration \<Rightarrow> int \<Rightarrow> ('s, err + GroupRows list) prog"
  gd_EnsureGroupSchema :: "'s ctx \<Rightarrow> 'q \<Rightarrow> string \<Rightarrow> ('s, err option) prog"
  gd_SchemaExists :: "'s ctx \<Rightarrow> 'q \<Rightarrow> string \<Rightarrow> ('s, err + bool) prog"

abbreviation UnboundedGroupMembers :: int where "UnboundedGroupMembers \<equiv> - 1"

definition ValidateMaxMembers :: "string \<Rightarrow> int \<Rightarrow> err option" where
  "ValidateMaxMembers site n =
     (if n = UnboundedGroupMembers then None
      else if n \<ge> 1 \<and> n \<le> maxGroupMembersCeiling then None
      else Permanent (Some (Errorf ''%w: %s: %d not in [%d, %d] and not UnboundedGroupMembers (%d)''
             [ArgW (Sentinel ErrInvalidCapacity), ArgS site, ArgD n, ArgD 1, ArgD maxGroupMembersCeiling, ArgD UnboundedGroupMembers])))"

section \<open>The base, options and construction\<close>

record ('s, 'q) groupBase =
  gb_db :: 'q
  gb_table :: string
  gb_dialect :: "('s, 'q) GroupDialect"

definition newGroupBase :: "'q option \<Rightarrow> string \<Rightarrow> ('s, 'q) GroupDialect option \<Rightarrow> err + ('s, 'q) groupBase" where
  "newGroupBase db table dialect =
     (case db of
        None \<Rightarrow> Inl (Sentinel ErrNilAdapter)
      | Some q \<Rightarrow>
          (case ValidateIdent table of
             Some e \<Rightarrow> Inl e
           | None \<Rightarrow>
               (case dialect of
                  None \<Rightarrow> Inl (sql_err ErrNilDialect)
                | Some d \<Rightarrow> Inr \<lparr>gb_db = q, gb_table = table, gb_dialect = d\<rparr>)))"

definition groupBase_EnsureSchema :: "('s, 'q) groupBase \<Rightarrow> 's ctx \<Rightarrow> ('s, err option) prog" where
  "groupBase_EnsureSchema b ctx = gd_EnsureGroupSchema (gb_dialect b) ctx (gb_db b) (gb_table b)"

definition groupBase_Ready :: "('s, 'q) groupBase \<Rightarrow> 's ctx \<Rightarrow> ('s, err option) prog" where
  "groupBase_Ready b ctx =
     bindP (gd_SchemaExists (gb_dialect b) ctx (gb_db b) (gb_table b)) (\<lambda>r.
       returnP (case r of
           Inl e \<Rightarrow> Some e
         | Inr ex \<Rightarrow> if ex then None else Some (schemaNotReady (gb_table b))))"

definition groupBase_classifyQueryErr :: "('s, 'q) groupBase \<Rightarrow> 's ctx \<Rightarrow> err \<Rightarrow> ('s, err) prog" where
  "groupBase_classifyQueryErr b ctx e =
     bindP (gd_SchemaExists (gb_dialect b) ctx (gb_db b) (gb_table b)) (\<lambda>r.
       returnP (case r of Inr False \<Rightarrow> schemaNotReady (gb_table b) | _ \<Rightarrow> e))"

abbreviation defaultGroupLeaseTTL :: duration where "defaultGroupLeaseTTL \<equiv> 5 * Minute"
abbreviation defaultExpiredGroupsLimit :: int where "defaultExpiredGroupsLimit \<equiv> 100"

record sqlGroupConfig =
  gc_leaseTTL :: duration
  gc_leaseTTLSet :: bool
  gc_lockedBy :: string
  gc_maxGroupMembers :: int

definition WithGroupLeaseTTL :: "duration \<Rightarrow> (sqlGroupConfig \<Rightarrow> sqlGroupConfig) option" where
  "WithGroupLeaseTTL d = Some (\<lambda>c. c\<lparr>gc_leaseTTL := d, gc_leaseTTLSet := True\<rparr>)"

definition WithGroupLockedBy :: "string \<Rightarrow> (sqlGroupConfig \<Rightarrow> sqlGroupConfig) option" where
  "WithGroupLockedBy i = Some (\<lambda>c. c\<lparr>gc_lockedBy := i\<rparr>)"

definition SqlWithMaxGroupMembers :: "int \<Rightarrow> (sqlGroupConfig \<Rightarrow> sqlGroupConfig) option" where
  "SqlWithMaxGroupMembers n = Some (\<lambda>c. c\<lparr>gc_maxGroupMembers := n\<rparr>)"

record ('s, 'q) SqlGroupStore =
  sg_base :: "('s, 'q) groupBase"
  sg_leaseTTL :: duration
  sg_lockedBy :: string
  sg_maxGroupMembers :: int

definition NewSqlGroupStore ::
  "string \<Rightarrow> 'q option \<Rightarrow> string \<Rightarrow> ('s, 'q) GroupDialect option \<Rightarrow> (sqlGroupConfig \<Rightarrow> sqlGroupConfig) option list \<Rightarrow> err + ('s, 'q) SqlGroupStore" where
  "NewSqlGroupStore rnd db table dialect opts =
     (case apply_opts 0 opts \<lparr>gc_leaseTTL = 0, gc_leaseTTLSet = False, gc_lockedBy = '''', gc_maxGroupMembers = defaultMaxGroupMembers\<rparr> of
        Inl i \<Rightarrow> Inl (nilOptionAt ''sql.NewGroupStore'' i)
      | Inr cfg \<Rightarrow>
          (case newGroupBase db table dialect of
             Inl e \<Rightarrow> Inl e
           | Inr b \<Rightarrow>
               (if gc_leaseTTLSet cfg \<and> gc_leaseTTL cfg \<le> 0
                then Inl (Errorf ''%w: %v'' [ArgW (sql_err ErrInvalidLeaseTTL), ArgD (gc_leaseTTL cfg)])
                else
                  (case checkRange (Sentinel ErrInvalidCapacity) ''sql.WithMaxGroupMembers'' (gc_maxGroupMembers cfg) 1 maxGroupMembersCeiling of
                     Some e \<Rightarrow> Inl e
                   | None \<Rightarrow>
                       Inr \<lparr>sg_base = b,
                            sg_leaseTTL = (if gc_leaseTTLSet cfg then gc_leaseTTL cfg else defaultGroupLeaseTTL),
                            sg_lockedBy = (if gc_lockedBy cfg = '''' then randomLockedBy rnd else gc_lockedBy cfg),
                            sg_maxGroupMembers = gc_maxGroupMembers cfg\<rparr>))))"

section \<open>The operations\<close>

fun decode_members :: "golib \<Rightarrow> MemberRow list \<Rightarrow> err + msg list" where
  "decode_members L [] = Inr []"
| "decode_members L (m # ms) =
     (case DecodeHeaders L (mr_Headers m) of
        Inl e \<Rightarrow> Inl (Errorf ''msgin/sql: decode group member %q: %w'' [ArgS (mr_MsgID m), ArgW e])
      | Inr h \<Rightarrow>
          (case decode_members L ms of
             Inl e \<Rightarrow> Inl e
           | Inr xs \<Rightarrow> Inr (NewMessage (GBytes (mr_Payload m)) h # xs)))"

definition decodeGroupRows :: "golib \<Rightarrow> GroupRows \<Rightarrow> err + MessageGroup" where
  "decodeGroupRows L rows =
     (case decode_members L (gr_Members rows) of
        Inl e \<Rightarrow> Inl e
      | Inr ms \<Rightarrow> Inr \<lparr>Key = gr_Key rows, Messages = ms, CreatedAt = gr_CreatedAt rows\<rparr>)"

text \<open>The reply of \<open>Add\<close>: a decode error makes the group a zero snapshot, which is no nil interface.\<close>

definition zeroSnapshot :: MessageGroup where
  "zeroSnapshot = \<lparr>Key = '''', Messages = [], CreatedAt = zeroTime\<rparr>"

definition snapshot_reply :: "err + MessageGroup \<Rightarrow> group_ref \<times> err option" where
  "snapshot_reply r = (case r of Inl e \<Rightarrow> (GroupRef zeroSnapshot, Some e) | Inr g \<Rightarrow> (GroupRef g, None))"

definition SqlGroupStore_Add ::
  "golib \<Rightarrow> ('s, 'q) SqlGroupStore \<Rightarrow> 's ctx \<Rightarrow> string \<Rightarrow> msg \<Rightarrow> ('s, group_ref \<times> err option) prog" where
  "SqlGroupStore_Add L g ctx key m =
     (if ID m = '''' then returnP (NilGroup, Some (sql_err ErrMissingMsgID))
      else
        (case EncodeHeaders L (headers m) of
           Inl e \<Rightarrow> returnP (NilGroup, Some e)
         | Inr hb \<Rightarrow>
             (case payload m of
                GBytes p \<Rightarrow>
                  (let b = sg_base g;
                       seq = (case Headers_Int (headers m) HeaderSequenceNumber of None \<Rightarrow> 0 | Some n \<Rightarrow> n)
                   in bindP (gd_AddMember (gb_dialect b) ctx (gb_db b) (gb_table b) key (ID m) seq hb p (sg_maxGroupMembers g) (sg_leaseTTL g))
                        (\<lambda>(rows, e).
                          case e of
                            None \<Rightarrow> returnP (snapshot_reply (decodeGroupRows L rows))
                          | Some x \<Rightarrow>
                              bindP (groupBase_classifyQueryErr b ctx x) (\<lambda>c.
                                if \<not> errors_Is c ErrOverflowDropped then returnP (NilGroup, Some c)
                                else
                                  (case decodeGroupRows L rows of
                                     Inl _ \<Rightarrow> returnP (NilGroup, Some c)
                                   | Inr snap \<Rightarrow> returnP (GroupRef snap, Some c)))))
              | _ \<Rightarrow> returnP (NilGroup, Some (Errorf ''%w: got %T'' [ArgW (sql_err ErrInvalidPayload)])))))"

definition SqlGroupStore_ClaimGroup ::
  "golib \<Rightarrow> ('s, 'q) SqlGroupStore \<Rightarrow> 's ctx \<Rightarrow> string \<Rightarrow> ('s, MessageGroupClaim option \<times> err option) prog" where
  "SqlGroupStore_ClaimGroup L g ctx key =
     (let b = sg_base g
      in bindP (gd_ClaimGroup (gb_dialect b) ctx (gb_db b) (gb_table b) key (sg_lockedBy g) (sg_leaseTTL g)) (\<lambda>r.
           case r of
             Inl e \<Rightarrow> bindP (groupBase_classifyQueryErr b ctx e) (\<lambda>c. returnP (None, Some c))
           | Inr None \<Rightarrow> returnP (None, None)
           | Inr (Some cg) \<Rightarrow>
               (case decodeGroupRows L (cg_Rows cg) of
                  Inl e \<Rightarrow> returnP (None, Some e)
                | Inr snap \<Rightarrow> returnP (Some \<lparr>Key = Key snap, Messages = Messages snap, CreatedAt = CreatedAt snap, Epoch = cg_Epoch cg\<rparr>, None))))"

definition settle_reply :: "('s, 'q) groupBase \<Rightarrow> 's ctx \<Rightarrow> err + bool \<Rightarrow> ('s, err option) prog" where
  "settle_reply b ctx r =
     (case r of
        Inl e \<Rightarrow> bindP (groupBase_classifyQueryErr b ctx e) (\<lambda>c. returnP (Some c))
      | Inr _ \<Rightarrow> returnP None)"

definition SqlGroupStore_SettleGroup ::
  "('s, 'q) SqlGroupStore \<Rightarrow> 's ctx \<Rightarrow> MessageGroupClaim \<Rightarrow> ('s, err option) prog" where
  "SqlGroupStore_SettleGroup g ctx c =
     (let b = sg_base g
      in bindP (gd_SettleGroup (gb_dialect b) ctx (gb_db b) (gb_table b) (Key c) (sg_lockedBy g) (Epoch c)) (settle_reply b ctx))"

definition SqlGroupStore_AbandonGroup ::
  "('s, 'q) SqlGroupStore \<Rightarrow> 's ctx \<Rightarrow> MessageGroupClaim \<Rightarrow> ('s, err option) prog" where
  "SqlGroupStore_AbandonGroup g ctx c =
     (let b = sg_base g
      in bindP (gd_AbandonGroup (gb_dialect b) ctx (gb_db b) (gb_table b) (Key c) (sg_lockedBy g) (Epoch c)) (settle_reply b ctx))"

fun decode_groups :: "golib \<Rightarrow> GroupRows list \<Rightarrow> err + MessageGroup list" where
  "decode_groups L [] = Inr []"
| "decode_groups L (r # rs) =
     (case decodeGroupRows L r of
        Inl e \<Rightarrow> Inl e
      | Inr g \<Rightarrow> (case decode_groups L rs of Inl e \<Rightarrow> Inl e | Inr gs \<Rightarrow> Inr (g # gs)))"

definition SqlGroupStore_Expired ::
  "golib \<Rightarrow> ('s, 'q) SqlGroupStore \<Rightarrow> 's ctx \<Rightarrow> time \<Rightarrow> ('s, MessageGroup list \<times> err option) prog" where
  "SqlGroupStore_Expired L g ctx before =
     (let b = sg_base g
      in bindP (gd_ExpiredGroups (gb_dialect b) ctx (gb_db b) (gb_table b) before (sg_leaseTTL g) defaultExpiredGroupsLimit) (\<lambda>r.
           case r of
             Inl e \<Rightarrow> bindP (groupBase_classifyQueryErr b ctx e) (\<lambda>c. returnP ([], Some c))
           | Inr rows \<Rightarrow>
               (case decode_groups L rows of Inl e \<Rightarrow> returnP ([], Some e) | Inr gs \<Rightarrow> returnP (gs, None))))"

definition SqlGroupStore_RecoverInterval :: "('s, 'q) SqlGroupStore \<Rightarrow> duration" where
  "SqlGroupStore_RecoverInterval g = sg_leaseTTL g"

definition SqlGroupStore_EmitsLiveValue :: bool where "SqlGroupStore_EmitsLiveValue = False"

text \<open>The store as the interface value an aggregator is built with.\<close>

definition sql_mgs :: "golib \<Rightarrow> ('s, 'q) SqlGroupStore \<Rightarrow> 's MessageGroupStore" where
  "sql_mgs L g =
     \<lparr>mgs_Add = SqlGroupStore_Add L g, mgs_ClaimGroup = SqlGroupStore_ClaimGroup L g,
      mgs_SettleGroup = SqlGroupStore_SettleGroup g, mgs_AbandonGroup = SqlGroupStore_AbandonGroup g,
      mgs_Expired = SqlGroupStore_Expired L g, mgs_RecoverInterval = SqlGroupStore_RecoverInterval g,
      mgs_EmitsLiveValue = SqlGroupStore_EmitsLiveValue\<rparr>"

end
