(* ===== verification/Sqlite_Lease.thy ===== *)
theory Sqlite_Lease
  imports Sql_Lease "HOL-Library.Multiset"
begin

text \<open>
  The SQLite lease dialect (\<^verbatim>\<open>adapter/database/sql/sqlite/dialect.go\<close>, \<^verbatim>\<open>quote.go\<close>, the queue table of \<^verbatim>\<open>ddl.go\<close>),
  with its SQL statements as functions on a table. A table is the list of its rows; a statement
  is atomic, since SQLite serializes writers. The database is part of the state: its tables, its
  clock in microseconds, the faults of the statements to come (a statement can fail before it takes
  effect, or after) and the order in which the engine visits rows, which SQL leaves open.
  The column \<open>created_at\<close> is never read and is left out; table names are compared as strings.

  The dialect is an interpretation of the lease contract, which gives the queue over it its
  at-least-once guarantee. What it does not give is a fence that outlives the row: see the last section.
\<close>

section \<open>The database\<close>

record qrow =
  qr_id :: int
  qr_msg_id :: string
  qr_headers :: string
  qr_payload :: string
  qr_locked_by :: "string option"
  qr_locked_at :: "int option"
  qr_visible_after :: int
  qr_delivery_count :: int
  qr_lease_epoch :: int

datatype fault = Fine | Before err | After err

record sqlw =
  w_tables :: "string \<rightharpoonup> qrow list"
  w_now :: int
  w_faults :: "fault list"
  w_order :: "qrow list \<Rightarrow> qrow list"

abbreviation no_such_table :: err where "no_such_table \<equiv> Foreign ''no such table'' 0"

definition next_fault :: "sqlw \<Rightarrow> fault \<times> sqlw" where
  "next_fault s = (case w_faults s of [] \<Rightarrow> (Fine, s) | f # fs \<Rightarrow> (f, s\<lparr>w_faults := fs\<rparr>))"

text \<open>Any order the engine may choose; an order that is no permutation counts as the stored one.\<close>

definition visit :: "sqlw \<Rightarrow> qrow list \<Rightarrow> qrow list" where
  "visit s rs = (if mset (w_order s rs) = mset rs then w_order s rs else rs)"

text \<open>One statement on one table: \<open>f\<close> gets the clock and the visiting order.\<close>

definition statement ::
  "string \<Rightarrow> (int \<Rightarrow> (qrow list \<Rightarrow> qrow list) \<Rightarrow> qrow list \<Rightarrow> qrow list \<times> 'a) \<Rightarrow> (sqlw, err + 'a) prog" where
  "statement t f s0 =
     (case next_fault s0 of (flt, s) \<Rightarrow>
        (case flt of
           Before e \<Rightarrow> (Val (Inl e), s)
         | _ \<Rightarrow>
             (case w_tables s t of
                None \<Rightarrow> (Val (Inl no_such_table), s)
              | Some rs \<Rightarrow>
                  (case f (w_now s) (visit s) rs of (rs', a) \<Rightarrow>
                     (Val (case flt of After e \<Rightarrow> Inl e | _ \<Rightarrow> Inr a), s\<lparr>w_tables := (w_tables s)(t \<mapsto> rs')\<rparr>)))))"

text \<open>\<^verbatim>\<open>Duration.Microseconds\<close>: integer division truncates towards zero.\<close>

definition Microseconds :: "duration \<Rightarrow> int" where
  "Microseconds d = (if d < 0 then - ((- d) div 1000) else d div 1000)"

section \<open>Quoting\<close>

definition sqliteQuote :: "string \<Rightarrow> string" where
  "sqliteQuote name = ''\"'' @ concat (map (\<lambda>c. if c = CHR ''\"'' then [CHR ''\"'', CHR ''\"''] else [c]) name) @ ''\"''"

definition sqliteQuoteTable :: "string \<Rightarrow> err + string" where
  "sqliteQuoteTable table = (case ValidateIdent table of Some e \<Rightarrow> Inl e | None \<Rightarrow> Inr (sqliteQuote table))"

section \<open>The statements\<close>

definition claimable :: "int \<Rightarrow> int \<Rightarrow> qrow \<Rightarrow> bool" where
  "claimable now ttl r \<longleftrightarrow> qr_visible_after r \<le> now \<and> (case qr_locked_at r of None \<Rightarrow> True | Some t \<Rightarrow> t \<le> now - ttl)"

text \<open>A negative \<^verbatim>\<open>LIMIT\<close> of SQLite is no limit.\<close>

definition sql_limit :: "int \<Rightarrow> 'a list \<Rightarrow> 'a list" where
  "sql_limit n xs = (if n < 0 then xs else take (nat n) xs)"

definition claimed_row :: "qrow \<Rightarrow> ClaimedRow" where
  "claimed_row r = \<lparr>cr_ID = qr_id r, cr_MsgID = qr_msg_id r, cr_Headers = qr_headers r, cr_Payload = qr_payload r,
     cr_DeliveryCount = qr_delivery_count r, cr_LeaseEpoch = qr_lease_epoch r\<rparr>"

definition lease_row :: "int \<Rightarrow> string \<Rightarrow> qrow \<Rightarrow> qrow" where
  "lease_row now by r = r\<lparr>qr_locked_by := Some by, qr_locked_at := Some now,
     qr_lease_epoch := qr_lease_epoch r + 1, qr_delivery_count := qr_delivery_count r + 1\<rparr>"

definition claim_statement ::
  "string \<Rightarrow> int \<Rightarrow> int \<Rightarrow> int \<Rightarrow> (qrow list \<Rightarrow> qrow list) \<Rightarrow> qrow list \<Rightarrow> qrow list \<times> ClaimedRow list" where
  "claim_statement by ttl limit now ord rs =
     (let ids = set (map qr_id (sql_limit limit (sort_key qr_visible_after (filter (claimable now ttl) (ord rs)))));
          rs' = map (\<lambda>r. if qr_id r \<in> ids then lease_row now by r else r) rs
      in (rs', map claimed_row (ord (filter (\<lambda>r. qr_id r \<in> ids) rs'))))"

definition fenced :: "int \<Rightarrow> string \<Rightarrow> int \<Rightarrow> qrow \<Rightarrow> bool" where
  "fenced i by ep r \<longleftrightarrow> qr_id r = i \<and> qr_locked_by r = Some by \<and> qr_lease_epoch r = ep"

definition ack_statement :: "int \<Rightarrow> string \<Rightarrow> int \<Rightarrow> int \<Rightarrow> (qrow list \<Rightarrow> qrow list) \<Rightarrow> qrow list \<Rightarrow> qrow list \<times> int" where
  "ack_statement i by ep now ord rs = (filter (\<lambda>r. \<not> fenced i by ep r) rs, int (length (filter (fenced i by ep) rs)))"

definition nack_statement ::
  "int \<Rightarrow> string \<Rightarrow> int \<Rightarrow> int \<Rightarrow> int \<Rightarrow> (qrow list \<Rightarrow> qrow list) \<Rightarrow> qrow list \<Rightarrow> qrow list \<times> int" where
  "nack_statement i by ep d now ord rs =
     (map (\<lambda>r. if fenced i by ep r then r\<lparr>qr_locked_by := None, qr_locked_at := None, qr_visible_after := now + d\<rparr> else r) rs,
      int (length (filter (fenced i by ep) rs)))"

text \<open>A row id that is not given is one more than the largest id in the table, and 1 in an empty table.\<close>

definition fresh_rowid :: "qrow list \<Rightarrow> int" where
  "fresh_rowid rs = fold max (map qr_id rs) 0 + 1"

definition insert_statement ::
  "string \<Rightarrow> string \<Rightarrow> string \<Rightarrow> int \<Rightarrow> int \<Rightarrow> (qrow list \<Rightarrow> qrow list) \<Rightarrow> qrow list \<Rightarrow> qrow list \<times> unit" where
  "insert_statement mid h p d now ord rs =
     (rs @ [\<lparr>qr_id = fresh_rowid rs, qr_msg_id = mid, qr_headers = h, qr_payload = p, qr_locked_by = None, qr_locked_at = None,
             qr_visible_after = now + d, qr_delivery_count = 0, qr_lease_epoch = 0\<rparr>], ())"

section \<open>The dialect\<close>

definition sqlite_Claim ::
  "sqlw ctx \<Rightarrow> unit \<Rightarrow> string \<Rightarrow> int \<Rightarrow> string \<Rightarrow> duration \<Rightarrow> (sqlw, err + ClaimedRow list) prog" where
  "sqlite_Claim ctx q table limit by ttl =
     (case sqliteQuoteTable table of
        Inl e \<Rightarrow> returnP (Inl e)
      | Inr _ \<Rightarrow> statement table (claim_statement by (Microseconds ttl) limit))"

definition affected :: "err + int \<Rightarrow> err + bool" where
  "affected r = (case r of Inl e \<Rightarrow> Inl e | Inr n \<Rightarrow> Inr (n > 0))"

definition sqlite_Ack :: "sqlw ctx \<Rightarrow> unit \<Rightarrow> string \<Rightarrow> int \<Rightarrow> string \<Rightarrow> int \<Rightarrow> (sqlw, err + bool) prog" where
  "sqlite_Ack ctx q table i by ep =
     (case sqliteQuoteTable table of
        Inl e \<Rightarrow> returnP (Inl e)
      | Inr _ \<Rightarrow> bindP (statement table (ack_statement i by ep)) (\<lambda>r. returnP (affected r)))"

definition sqlite_Nack :: "sqlw ctx \<Rightarrow> unit \<Rightarrow> string \<Rightarrow> int \<Rightarrow> string \<Rightarrow> int \<Rightarrow> duration \<Rightarrow> (sqlw, err + bool) prog" where
  "sqlite_Nack ctx q table i by ep delay =
     (case sqliteQuoteTable table of
        Inl e \<Rightarrow> returnP (Inl e)
      | Inr _ \<Rightarrow> bindP (statement table (nack_statement i by ep (Microseconds delay))) (\<lambda>r. returnP (affected r)))"

definition sqlite_Insert ::
  "sqlw ctx \<Rightarrow> unit \<Rightarrow> string \<Rightarrow> string \<Rightarrow> string \<Rightarrow> string \<Rightarrow> duration \<Rightarrow> (sqlw, err option) prog" where
  "sqlite_Insert ctx q table mid h p delay =
     (case sqliteQuoteTable table of
        Inl e \<Rightarrow> returnP (Some e)
      | Inr _ \<Rightarrow> bindP (statement table (insert_statement mid h p (Microseconds delay)))
                   (\<lambda>r. returnP (case r of Inl e \<Rightarrow> Some e | Inr _ \<Rightarrow> None)))"

text \<open>The table is created when it is absent; the index statement that follows changes no rows.\<close>

definition create_statement :: "string \<Rightarrow> (sqlw, err option) prog" where
  "create_statement t s0 =
     (case next_fault s0 of (flt, s) \<Rightarrow>
        (case flt of
           Before e \<Rightarrow> (Val (Some e), s)
         | _ \<Rightarrow> (Val (case flt of After e \<Rightarrow> Some e | _ \<Rightarrow> None),
                 if w_tables s t = None then s\<lparr>w_tables := (w_tables s)(t \<mapsto> [])\<rparr> else s)))"

definition index_statement :: "string \<Rightarrow> (sqlw, err option) prog" where
  "index_statement t s0 =
     (case next_fault s0 of (flt, s) \<Rightarrow>
        (Val (case flt of Before e \<Rightarrow> Some e | After e \<Rightarrow> Some e | Fine \<Rightarrow> if w_tables s t = None then Some no_such_table else None), s))"

definition sqlite_EnsureSchema :: "sqlw ctx \<Rightarrow> unit \<Rightarrow> string \<Rightarrow> (sqlw, err option) prog" where
  "sqlite_EnsureSchema ctx q table =
     (case sqliteQuoteTable table of
        Inl e \<Rightarrow> returnP (Some e)
      | Inr _ \<Rightarrow>
          bindP (create_statement table) (\<lambda>e. case e of Some x \<Rightarrow> returnP (Some x) | None \<Rightarrow> index_statement table))"

definition sqlite_SchemaExists :: "sqlw ctx \<Rightarrow> unit \<Rightarrow> string \<Rightarrow> (sqlw, err + bool) prog" where
  "sqlite_SchemaExists ctx q table s0 =
     (case ValidateIdent table of
        Some e \<Rightarrow> (Val (Inl e), s0)
      | None \<Rightarrow>
          (case next_fault s0 of (flt, s) \<Rightarrow>
             (Val (case flt of Before e \<Rightarrow> Inl e | After e \<Rightarrow> Inl e | Fine \<Rightarrow> Inr (w_tables s table \<noteq> None)), s)))"

definition sqlite_LeaseDialect :: "(sqlw, unit, unit) LeaseDialect" where
  "sqlite_LeaseDialect =
     \<lparr>ld_Claim = sqlite_Claim, ld_Ack = sqlite_Ack, ld_Nack = sqlite_Nack, ld_Insert = sqlite_Insert,
      ld_EnsureSchema = sqlite_EnsureSchema, ld_SchemaExists = sqlite_SchemaExists, ld_lock = None\<rparr>"

section \<open>The dialect keeps the contract\<close>

definition row_view :: "qrow \<Rightarrow> lrow" where
  "row_view r = \<lparr>lw_MsgID = qr_msg_id r, lw_Headers = qr_headers r, lw_Payload = qr_payload r,
     lw_holder = qr_locked_by r, lw_epoch = qr_lease_epoch r, lw_count = qr_delivery_count r\<rparr>"

definition rows_view :: "qrow list \<Rightarrow> ltable" where
  "rows_view rs = map_of (map (\<lambda>r. (qr_id r, row_view r)) rs)"

definition sqlite_view :: "string \<Rightarrow> sqlw \<Rightarrow> ltable" where
  "sqlite_view t s = (case w_tables s t of None \<Rightarrow> Map.empty | Some rs \<Rightarrow> rows_view rs)"

text \<open>The primary key of every table.\<close>

definition keyed :: "qrow list \<Rightarrow> bool" where
  "keyed rs \<longleftrightarrow> distinct (map qr_id rs)"

definition sqlite_inv :: "string \<Rightarrow> sqlw \<Rightarrow> bool" where
  "sqlite_inv t s \<longleftrightarrow> (\<forall>rs. w_tables s t = Some rs \<longrightarrow> keyed rs)"

lemma visit_mset [simp]: "mset (visit s rs) = mset rs"
  by (simp add: visit_def)

lemma rows_view_iff: "keyed rs \<Longrightarrow> rows_view rs i = Some w \<longleftrightarrow> (\<exists>r \<in> set rs. qr_id r = i \<and> row_view r = w)"
  by (auto simp: rows_view_def keyed_def comp_def map_of_eq_Some_iff)

lemma rows_view_dom: "dom (rows_view rs) = qr_id ` set rs"
  by (force simp: rows_view_def dom_map_of_conv_image_fst)

lemma rows_view_map:
  assumes "\<And>r. qr_id (f r) = qr_id r" "\<And>r. row_view (f r) = g (qr_id r) (row_view r)"
  shows "rows_view (map f rs) = (\<lambda>i. map_option (g i) (rows_view rs i))"
  by (induction rs) (auto simp: rows_view_def assms fun_eq_iff)

lemma rows_view_filter:
  assumes "keyed rs" "\<And>r. P r \<longleftrightarrow> Q (qr_id r) (row_view r)"
  shows "rows_view (filter P rs) i = (case rows_view rs i of None \<Rightarrow> None | Some w \<Rightarrow> if Q i w then Some w else None)"
proof -
  have k: "keyed (filter P rs)" using assms(1) by (simp add: keyed_def distinct_map_filter)
  show ?thesis
  proof (cases "rows_view rs i")
    case None
    then have "i \<notin> qr_id ` set rs" by (metis domIff rows_view_dom)
    then have "i \<notin> dom (rows_view (filter P rs))" unfolding rows_view_dom by auto
    then show ?thesis using None by (simp add: domIff)
  next
    case (Some w)
    then obtain r where r: "r \<in> set rs" "qr_id r = i" "row_view r = w" using rows_view_iff [OF assms(1)] by blast
    have u: "r' = r" if "r' \<in> set rs" "qr_id r' = i" for r'
      using that r assms(1) by (simp add: keyed_def distinct_map inj_on_def)
    show ?thesis
    proof (cases "Q i w")
      case True
      then have "P r" using assms(2) [of r] r by simp
      then have "rows_view (filter P rs) i = Some w" using rows_view_iff [OF k] r by auto
      then show ?thesis using Some True by simp
    next
      case False
      then have n: "\<not> P r" using assms(2) [of r] r by simp
      have "qr_id r' \<noteq> i" if "r' \<in> set (filter P rs)" for r' using u [of r'] n that by auto
      then have "i \<notin> dom (rows_view (filter P rs))" unfolding rows_view_dom by blast
      then show ?thesis using Some False by (simp add: domIff)
    qed
  qed
qed

lemma fenced_view: "fenced i by ep r \<longleftrightarrow> qr_id r = i \<and> lw_holder (row_view r) = Some by \<and> lw_epoch (row_view r) = ep"
  by (simp add: fenced_def row_view_def)

lemma fenced_leased: "keyed rs \<Longrightarrow> (\<exists>r \<in> set rs. fenced i by ep r) \<longleftrightarrow> leased (rows_view rs) i by ep"
  unfolding leased_def by (simp add: rows_view_iff fenced_view) blast

lemma affected_fenced: "int (length (filter (fenced i by ep) rs)) > 0 \<longleftrightarrow> (\<exists>r \<in> set rs. fenced i by ep r)"
  by (auto simp: filter_empty_conv)

lemma fresh_rowid_new: "fresh_rowid rs \<notin> qr_id ` set rs"
proof -
  have "m \<le> fold max xs m \<and> (\<forall>x \<in> set xs. x \<le> fold max xs m)" for xs :: "int list" and m
    by (induction xs arbitrary: m) (auto, (metis max.bounded_iff)+)
  then have "\<forall>x \<in> set (map qr_id rs). x \<le> fold max (map qr_id rs) 0" by blast
  then show ?thesis by (auto simp: fresh_rowid_def)
qed

text \<open>What each statement does to the view.\<close>

lemma ack_statement_view:
  assumes "keyed rs" "ack_statement i by ep now ord rs = (rs', n)"
  shows "keyed rs' \<and> (n > 0 \<longleftrightarrow> leased (rows_view rs) i by ep)
    \<and> rows_view rs' = (if leased (rows_view rs) i by ep then (rows_view rs)(i := None) else rows_view rs)"
proof -
  have r: "rs' = filter (\<lambda>r. \<not> fenced i by ep r) rs" and n: "n > 0 \<longleftrightarrow> leased (rows_view rs) i by ep"
    using assms fenced_leased [OF assms(1)] affected_fenced by (auto simp: ack_statement_def)
  have "rows_view rs' k = (case rows_view rs k of None \<Rightarrow> None | Some w \<Rightarrow> if \<not> (k = i \<and> lw_holder w = Some by \<and> lw_epoch w = ep) then Some w else None)" for k
    unfolding r by (rule rows_view_filter [OF assms(1)]) (simp add: fenced_view)
  then have "rows_view rs' = (if leased (rows_view rs) i by ep then (rows_view rs)(i := None) else rows_view rs)"
    by (auto simp: fun_eq_iff leased_def split: option.splits)
  moreover have "keyed rs'" using assms(1) by (simp add: r keyed_def distinct_map_filter)
  ultimately show ?thesis using n by blast
qed

lemma nack_statement_view:
  assumes "keyed rs" "nack_statement i by ep d now ord rs = (rs', n)"
  shows "keyed rs' \<and> (n > 0 \<longleftrightarrow> leased (rows_view rs) i by ep)
    \<and> rows_view rs' = (if leased (rows_view rs) i by ep then (rows_view rs)(i := map_option unlease (rows_view rs i)) else rows_view rs)"
proof -
  let ?f = "\<lambda>r. if fenced i by ep r then r\<lparr>qr_locked_by := None, qr_locked_at := None, qr_visible_after := now + d\<rparr> else r"
  have r: "rs' = map ?f rs" and n: "n > 0 \<longleftrightarrow> leased (rows_view rs) i by ep"
    using assms fenced_leased [OF assms(1)] affected_fenced by (auto simp: nack_statement_def)
  have "rows_view rs' = (\<lambda>k. map_option (\<lambda>w. if k = i \<and> lw_holder w = Some by \<and> lw_epoch w = ep then unlease w else w) (rows_view rs k))"
    unfolding r by (rule rows_view_map) (auto simp: fenced_def row_view_def unlease_def)
  then have "rows_view rs' = (if leased (rows_view rs) i by ep then (rows_view rs)(i := map_option unlease (rows_view rs i)) else rows_view rs)"
    by (auto simp: fun_eq_iff leased_def map_option_case split: option.splits)
  moreover have "map qr_id rs' = map qr_id rs" by (simp add: r)
  ultimately show ?thesis using n assms(1) by (simp add: keyed_def)
qed

lemma insert_statement_view:
  assumes "keyed rs" "insert_statement mid h p d now ord rs = (rs', u)"
  shows "keyed rs' \<and> (\<exists>i. rows_view rs i = None \<and> rows_view rs' = (rows_view rs)(i \<mapsto> new_row mid h p))"
proof -
  have f: "fresh_rowid rs \<notin> qr_id ` set rs" by (rule fresh_rowid_new)
  then have "rows_view rs (fresh_rowid rs) = None" by (metis domIff rows_view_dom)
  moreover have "rows_view rs' = (rows_view rs)(fresh_rowid rs \<mapsto> new_row mid h p)"
    using assms(2) calculation
    by (auto simp: insert_statement_def rows_view_def map_of_append row_view_def new_row_def map_add_def fun_eq_iff split: option.splits)
  ultimately show ?thesis using f assms by (auto simp: insert_statement_def keyed_def)
qed

lemma length_sql_limit: "0 \<le> n \<Longrightarrow> int (length (sql_limit n xs)) \<le> n"
  by (simp add: sql_limit_def)

lemma set_sql_limit: "set (sql_limit n xs) \<subseteq> set xs"
  by (auto simp: sql_limit_def dest: in_set_takeD)

text \<open>Leasing a selection of the rows and reporting them, in any order.\<close>

lemma lease_selected_view:
  assumes "keyed rs" "set sel \<subseteq> set rs" and ids: "ids = set (map qr_id sel)"
    and r: "rs' = map (\<lambda>r. if qr_id r \<in> ids then lease_row now by r else r) rs"
    and out: "mset out = mset (map claimed_row (filter (\<lambda>r. qr_id r \<in> ids) rs'))"
  shows "keyed rs' \<and> ids \<subseteq> dom (rows_view rs)
    \<and> rows_view rs' = (\<lambda>i. if i \<in> ids then map_option (lease_to by) (rows_view rs i) else rows_view rs i)
    \<and> distinct (map cr_ID out) \<and> cr_ID ` set out = ids \<and> length out \<le> length sel
    \<and> (\<forall>x \<in> set out. rows_view rs' (cr_ID x) = Some (row_of x by))"
proof -
  let ?hit = "filter (\<lambda>r. qr_id r \<in> ids) rs'"
  have mid: "map qr_id rs' = map qr_id rs" by (simp add: r lease_row_def)
  then have k: "keyed rs'" using assms(1) by (simp add: keyed_def)
  have dom: "ids \<subseteq> dom (rows_view rs)" using assms(2) by (auto simp: ids rows_view_dom)
  have v: "rows_view rs' = (\<lambda>i. map_option (\<lambda>w. if i \<in> ids then lease_to by w else w) (rows_view rs i))"
    unfolding r by (rule rows_view_map) (auto simp: lease_row_def row_view_def lease_to_def)
  then have v': "rows_view rs' = (\<lambda>i. if i \<in> ids then map_option (lease_to by) (rows_view rs i) else rows_view rs i)"
    by (auto simp: fun_eq_iff map_option_case split: option.splits)
  have so: "set out = claimed_row ` set ?hit" using mset_eq_setD [OF out] by simp
  have cid: "mset (map cr_ID out) = mset (map qr_id ?hit)"
    unfolding mset_map out by (simp add: image_mset.compositionality comp_def claimed_row_def)
  have "distinct (map qr_id ?hit)" using k by (simp add: keyed_def distinct_map_filter)
  then have d: "distinct (map cr_ID out)" using mset_eq_imp_distinct_iff [OF cid] by blast
  have "qr_id ` set ?hit = ids"
  proof -
    have "qr_id ` set rs' = qr_id ` set rs" using arg_cong [OF mid, of set] by simp
    moreover have "ids \<subseteq> qr_id ` set rs" using dom by (simp add: rows_view_dom)
    moreover have "qr_id ` set ?hit = qr_id ` set rs' \<inter> ids" by auto
    ultimately show ?thesis by (simp only: Int_absorb1)
  qed
  then have ci: "cr_ID ` set out = ids" using mset_eq_setD [OF cid] by (simp only: list.set_map)
  have "length out = card ids" using d ci by (metis distinct_card length_map list.set_map)
  moreover have "card ids \<le> length sel" unfolding ids by (metis card_length length_map)
  ultimately have len: "length out \<le> length sel" by simp
  have "rows_view rs' (cr_ID x) = Some (row_of x by)" if x: "x \<in> set out" for x
  proof -
    obtain y where y: "y \<in> set rs'" "qr_id y \<in> ids" "x = claimed_row y" using x so by auto
    then have "qr_locked_by y = Some by" by (auto simp: r lease_row_def)
    then have "row_view y = row_of x by" by (simp add: y(3) row_view_def row_of_def claimed_row_def)
    then show ?thesis using rows_view_iff [OF k] y by (auto simp: claimed_row_def)
  qed
  then show ?thesis using k dom v' d ci len by blast
qed

lemma claim_statement_view:
  assumes "keyed rs" "claim_statement by ttl limit now ord rs = (rs', out)" and ord: "\<And>xs. mset (ord xs) = mset xs"
  shows "keyed rs' \<and> (\<exists>ids. ids \<subseteq> dom (rows_view rs)
    \<and> rows_view rs' = (\<lambda>i. if i \<in> ids then map_option (lease_to by) (rows_view rs i) else rows_view rs i)
    \<and> distinct (map cr_ID out) \<and> cr_ID ` set out = ids \<and> (0 \<le> limit \<longrightarrow> int (length out) \<le> limit)
    \<and> (\<forall>x \<in> set out. rows_view rs' (cr_ID x) = Some (row_of x by)))"
proof -
  define sel where "sel = sql_limit limit (sort_key qr_visible_after (filter (claimable now ttl) (ord rs)))"
  define ids where "ids = set (map qr_id sel)"
  have r: "rs' = map (\<lambda>r. if qr_id r \<in> ids then lease_row now by r else r) rs"
    and o: "out = map claimed_row (ord (filter (\<lambda>r. qr_id r \<in> ids) rs'))"
    using assms(2) by (auto simp: claim_statement_def sel_def ids_def Let_def)
  have "set sel \<subseteq> set (ord rs)" using set_sql_limit unfolding sel_def by fastforce
  then have sub: "set sel \<subseteq> set rs" using mset_eq_setD [OF ord [of rs]] by simp
  have "mset out = mset (map claimed_row (filter (\<lambda>r. qr_id r \<in> ids) rs'))" unfolding o mset_map ord ..
  note v = lease_selected_view [OF assms(1) sub ids_def r this]
  have "0 \<le> limit \<longrightarrow> int (length sel) \<le> limit" unfolding sel_def using length_sql_limit by blast
  then show ?thesis using v by (metis (no_types, lifting) of_nat_mono order_trans)
qed

lemma next_fault_frame [simp]:
  "w_tables (snd (next_fault s)) = w_tables s" "w_now (snd (next_fault s)) = w_now s" "w_order (snd (next_fault s)) = w_order s"
  by (simp_all add: next_fault_def split: list.splits)

lemma next_fault_same: "next_fault s = (flt, s') \<Longrightarrow> w_tables s' = w_tables s"
  using next_fault_frame(1) [of s] by simp

lemma sqlite_view_frame: "w_tables s' = w_tables s \<Longrightarrow> sqlite_view t s' = sqlite_view t s \<and> sqlite_inv t s' = sqlite_inv t s"
  by (simp add: sqlite_view_def sqlite_inv_def)

text \<open>A statement that returns normally: it had no effect and failed, or it took effect on the rows.\<close>

lemma statement_cases:
  assumes "statement t f s = (Val r, s')"
  obtains (idle) e where "r = Inl e" "w_tables s' = w_tables s"
  | (took) s1 rs rs' a where "w_tables s t = Some rs" "f (w_now s1) (visit s1) rs = (rs', a)" "w_tables s' = (w_tables s)(t \<mapsto> rs')"
      "r = Inr a \<or> (\<exists>e. r = Inl e)"
proof -
  obtain flt s1 where n: "next_fault s = (flt, s1)" by fastforce
  then have fr: "w_tables s1 = w_tables s" using next_fault_frame(1) [of s] by simp
  show thesis
  proof (cases "(\<exists>e. flt = Before e) \<or> w_tables s t = None")
    case True
    then show ?thesis using assms idle n fr by (auto simp: statement_def split: fault.splits)
  next
    case False
    then obtain rs where rs: "w_tables s1 t = Some rs" using fr by auto
    obtain rs' a where a: "f (w_now s1) (visit s1) rs = (rs', a)" by fastforce
    have "r = Inr a \<or> (\<exists>e. r = Inl e)" "w_tables s' = (w_tables s)(t \<mapsto> rs')"
      using assms False n fr rs a by (auto simp: statement_def split: fault.splits)
    then show ?thesis using took rs a fr by metis
  qed
qed

lemma sqlite_view_done: "w_tables s' = (w_tables s)(t \<mapsto> rs') \<Longrightarrow> sqlite_view t s' = rows_view rs' \<and> sqlite_inv t s' = keyed rs'"
  by (simp add: sqlite_view_def sqlite_inv_def)


lemma sqlite_Claim_law:
  assumes "sqlite_inv t s" "sqlite_Claim ctx q t n by ttl s = (Val r, s')"
  shows "sqlite_inv t s' \<and> (\<exists>ids. ids \<subseteq> dom (sqlite_view t s)
    \<and> sqlite_view t s' = (\<lambda>i. if i \<in> ids then map_option (lease_to by) (sqlite_view t s i) else sqlite_view t s i)
    \<and> (\<forall>rs. r = Inr rs \<longrightarrow> distinct (map cr_ID rs) \<and> cr_ID ` set rs = ids \<and> (0 \<le> n \<longrightarrow> int (length rs) \<le> n)
          \<and> (\<forall>x \<in> set rs. sqlite_view t s' (cr_ID x) = Some (row_of x by))))"
proof (cases "sqliteQuoteTable t")
  case (Inl e)
  then have "r = Inl e" "s' = s" using assms(2) by (auto simp: sqlite_Claim_def returnP_def)
  then show ?thesis using assms(1) by (auto intro!: exI [of _ "{}"])
next
  case (Inr qt)
  then have "statement t (claim_statement by (Microseconds ttl) n) s = (Val r, s')" using assms(2) by (simp add: sqlite_Claim_def)
  then show ?thesis
  proof (cases rule: statement_cases)
    case (idle e)
    then show ?thesis using sqlite_view_frame [OF idle(2)] assms(1) by (auto intro!: exI [of _ "{}"])
  next
    case (took s1 rs rs' a)
    have k: "keyed rs" using assms(1) took(1) by (simp add: sqlite_inv_def)
    have v: "sqlite_view t s = rows_view rs" using took(1) by (simp add: sqlite_view_def)
    from claim_statement_view [OF k took(2) visit_mset] sqlite_view_done [OF took(3)] took(4) show ?thesis
      unfolding v by auto
  qed
qed

text \<open>The settlements have the same shape: quote, run the statement, turn the affected rows into a verdict.\<close>

lemma settle_law:
  assumes "sqlite_inv t s"
    and "(case sqliteQuoteTable t of Inl e \<Rightarrow> returnP (Inl e) | Inr _ \<Rightarrow> bindP (statement t f) (\<lambda>r. returnP (affected r))) s = (Val r, s')"
    and f: "\<And>now ord rs rs' n. keyed rs \<Longrightarrow> f now ord rs = (rs', n) \<Longrightarrow>
      keyed rs' \<and> (n > 0 \<longleftrightarrow> P (rows_view rs)) \<and> rows_view rs' = (if P (rows_view rs) then g (rows_view rs) else rows_view rs)"
  shows "sqlite_inv t s' \<and>
    (case r of
       Inr a \<Rightarrow> a = P (sqlite_view t s) \<and> sqlite_view t s' = (if a then g (sqlite_view t s) else sqlite_view t s)
     | Inl e \<Rightarrow> sqlite_view t s' = sqlite_view t s \<or> P (sqlite_view t s) \<and> sqlite_view t s' = g (sqlite_view t s))"
proof (cases "sqliteQuoteTable t")
  case (Inl e)
  then show ?thesis using assms(1,2) by (auto simp: returnP_def)
next
  case (Inr qt)
  then obtain r0 where s: "statement t f s = (Val r0, s')" and r: "r = affected r0"
    using assms(2) by (auto simp: bindP_def returnP_def split: prod.splits res.splits)
  from s show ?thesis
  proof (cases rule: statement_cases)
    case (idle e)
    then show ?thesis using sqlite_view_frame [OF idle(2)] assms(1) r by (simp add: affected_def)
  next
    case (took s1 rs rs' n)
    have k: "keyed rs" using assms(1) took(1) by (simp add: sqlite_inv_def)
    have v: "sqlite_view t s = rows_view rs" using took(1) by (simp add: sqlite_view_def)
    from f [OF k took(2)] sqlite_view_done [OF took(3)] took(4) r show ?thesis
      unfolding v by (auto simp: affected_def split: if_splits)
  qed
qed

lemma sqlite_Insert_law:
  assumes "sqlite_inv t s" "sqlite_Insert ctx q t mid h p d s = (Val r, s')"
  shows "sqlite_inv t s' \<and> ((sqlite_view t s' = sqlite_view t s \<and> r \<noteq> None)
    \<or> (\<exists>i. sqlite_view t s i = None \<and> sqlite_view t s' = (sqlite_view t s)(i \<mapsto> new_row mid h p)))"
proof (cases "sqliteQuoteTable t")
  case (Inl e)
  then show ?thesis using assms by (auto simp: sqlite_Insert_def returnP_def)
next
  case (Inr qt)
  then obtain r0 where s: "statement t (insert_statement mid h p (Microseconds d)) s = (Val r0, s')"
    and r: "r = (case r0 of Inl e \<Rightarrow> Some e | Inr _ \<Rightarrow> None)"
    using assms(2) by (auto simp: sqlite_Insert_def bindP_def returnP_def split: prod.splits res.splits)
  from s show ?thesis
  proof (cases rule: statement_cases)
    case (idle e)
    then show ?thesis using sqlite_view_frame [OF idle(2)] assms(1) r by simp
  next
    case (took s1 rs rs' u)
    have k: "keyed rs" using assms(1) took(1) by (simp add: sqlite_inv_def)
    have v: "sqlite_view t s = rows_view rs" using took(1) by (simp add: sqlite_view_def)
    from insert_statement_view [OF k took(2)] sqlite_view_done [OF took(3)] show ?thesis unfolding v by auto
  qed
qed

lemma sqlite_SchemaExists_frame: "sqlite_SchemaExists ctx q t s = (r, s') \<Longrightarrow> w_tables s' = w_tables s"
  by (auto simp: sqlite_SchemaExists_def split: option.splits prod.splits dest!: next_fault_same)

interpretation sqlite: lease_dialect sqlite_LeaseDialect "()" t "sqlite_view t" "sqlite_inv t" id for t
proof (unfold_locales, goal_cases)
  case (1 s ctx n "by" ttl r s')
  then show ?case using sqlite_Claim_law [of t s ctx "()" n "by" ttl r s'] by (simp add: sqlite_LeaseDialect_def)
next
  case (2 s ctx i "by" ep ra s')
  then show ?case
    using settle_law [of t s "ack_statement i by ep" ra s' "\<lambda>v. leased v i by ep" "\<lambda>v. v(i := None)", OF _ _ ack_statement_view]
    by (simp add: sqlite_LeaseDialect_def sqlite_Ack_def)
next
  case (3 s ctx i "by" ep d ra s')
  then show ?case
    using settle_law [of t s "nack_statement i by ep (Microseconds d)" ra s' "\<lambda>v. leased v i by ep" "\<lambda>v. v(i := map_option unlease (v i))",
        OF _ _ nack_statement_view]
    by (simp add: sqlite_LeaseDialect_def sqlite_Nack_def)
next
  case (4 s ctx mid h p d ri s')
  then show ?case using sqlite_Insert_law [of t s ctx "()" mid h p d ri s'] by (simp add: sqlite_LeaseDialect_def)
next
  case (5 s ctx ra s')
  then have "w_tables s' = w_tables s"
    using sqlite_SchemaExists_frame [of ctx "()" t s "Val ra" s'] by (simp add: sqlite_LeaseDialect_def)
  from sqlite_view_frame [OF this] 5 show ?case by simp
qed

section \<open>Properties of the queue over SQLite\<close>

text \<open>Between two operations the clock may move, faults may come up, the engine may change its mind about orders.\<close>

definition sqlite_env :: "sqlw \<Rightarrow> sqlw \<Rightarrow> bool" where
  "sqlite_env s s' \<longleftrightarrow> w_tables s' = w_tables s"

abbreviation sqlite_base :: "string \<Rightarrow> (sqlw, unit, unit) adapterBase" where
  "sqlite_base t \<equiv> \<lparr>ab_db = (), ab_table = t, ab_dialect = sqlite_LeaseDialect\<rparr>"

text \<open>
  C23. At least once. A send of the outbound adapter that reports no error has stored the message, with its
  id, its encoded headers and its payload, as a new row of the table, unleased and never delivered, and has
  changed no other row. Then, over any interleaving of polls by any number of sources, acknowledgements,
  negative acknowledgements with or without requeue, sends, clock changes and statement
  failures (before or after they took effect), that row, and each row that was there before the send, stays,
  with its id, headers and payload and with a delivery count and lease epoch that never go back,
  until an acknowledgement of it is called while the caller holds its current lease. A poll
  that fails, a corrupt header blob or a negative acknowledgement without requeue loses nothing.
\<close>

theorem sqlite_queue_at_least_once:
  assumes "sqlite_inv t s0" and "so_base ob = sqlite_base t" and "so_resolver ob = None"
    and "SqlOutbound_SendAfter L ob ctx m d s0 = (Val None, s)"
    and "queue_run L (sqlite_base t) (sqlite_view t) sqlite_env as s s'"
  shows "\<exists>hb p i. EncodeHeaders L (headers m) = Inr hb \<and> payload m = GBytes p \<and> sqlite_view t s0 i = None
    \<and> sqlite_view t s = (sqlite_view t s0)(i \<mapsto> new_row (ID m) hb p)
    \<and> ((\<exists>w'. sqlite_view t s' i = Some w' \<and> later (new_row (ID m) hb p) w') \<or> (\<exists>by ep. (i, by, ep) \<in> set as))
    \<and> (\<forall>j w. sqlite_view t s0 j = Some w \<longrightarrow> (\<exists>w'. sqlite_view t s' j = Some w' \<and> later w w') \<or> (\<exists>by ep. (j, by, ep) \<in> set as))"
proof -
  have env: "sqlite_inv t v \<and> sqlite_view t v = sqlite_view t u" if "sqlite_env u v" "sqlite_inv t u" for u v
    using that sqlite_view_frame [of v u t] by (simp add: sqlite_env_def)
  obtain hb p i where a: "EncodeHeaders L (headers m) = Inr hb" "payload m = GBytes p" "sqlite_view t s0 i = None"
    and s: "sqlite_inv t s" "sqlite_view t s = (sqlite_view t s0)(i \<mapsto> new_row (ID m) hb p)"
    using sqlite.send_accepted [OF assms(1-4)] unfolding id_apply by blast
  have stays: "(\<exists>w'. sqlite_view t s' j = Some w' \<and> later w w') \<or> (\<exists>by ep. (j, by, ep) \<in> set as)"
    if "sqlite_view t s j = Some w" for j w
    using sqlite.at_least_once [OF assms(5) env s(1) that] by (rule conjunct2)
  have "sqlite_view t s i = Some (new_row (ID m) hb p)" by (simp add: s(2))
  from stays [OF this] have new: "(\<exists>w'. sqlite_view t s' i = Some w' \<and> later (new_row (ID m) hb p) w') \<or> (\<exists>by ep. (i, by, ep) \<in> set as)" .
  have "sqlite_view t s j = Some w" if "sqlite_view t s0 j = Some w" for j w using that a(3) by (auto simp: s(2))
  then have "\<forall>j w. sqlite_view t s0 j = Some w \<longrightarrow> (\<exists>w'. sqlite_view t s' j = Some w' \<and> later w w') \<or> (\<exists>by ep. (j, by, ep) \<in> set as)"
    using stays by simp
  with a s(2) new show ?thesis by (intro exI conjI)
qed

text \<open>
  What a poll hands out. A source built over SQLite uses the lease strategy, since the dialect has
  no row locks; its poll returns at most as many deliveries as asked for, of distinct rows that
  were in the table; each is a message with the row's payload and the headers that were
  decoded from it, stamped with the row's new delivery count; each row is leased to this
  source at the epoch its settlement is fenced on; and no row is lost, whether its headers
  decode or not. An acknowledgement of such a delivery, at any later time, removes its row
  and reports success exactly when that lease still stands.
\<close>

theorem sqlite_poll_leases:
  assumes "NewPollingSource rnd (Some ()) t (Some sqlite_LeaseDialect) opts = Inr sr"
    and "sqlite_inv t s" and "Source_Poll L sr ctx mx s = (Val (Inr ds), s')" and "0 \<le> mx"
  shows "int (length ds) \<le> mx
    \<and> (\<forall>i w. sqlite_view t s i = Some w \<longrightarrow> (\<exists>w'. sqlite_view t s' i = Some w' \<and> later w w'))
    \<and> (\<exists>xs hs. length hs = length xs \<and> distinct (map cr_ID xs) \<and> ds = map2 (lease_delivery sr) hs xs
        \<and> (\<forall>k < length xs. DecodeHeaders L (cr_Headers (xs ! k)) = Inr (hs ! k))
        \<and> (\<forall>x \<in> set xs. sqlite_view t s' (cr_ID x) = Some (row_of x (sr_lockedBy sr)))
        \<and> (\<forall>x \<in> set xs. \<forall>u u' c e. sqlite_inv t u \<longrightarrow> lease_ackClosure sr (cr_ID x) (cr_LeaseEpoch x) c u = (Val e, u') \<longrightarrow>
             (e = None \<longrightarrow> leased (sqlite_view t u) (cr_ID x) (sr_lockedBy sr) (cr_LeaseEpoch x) \<and> sqlite_view t u' = (sqlite_view t u)(cr_ID x := None))
             \<and> (\<not> leased (sqlite_view t u) (cr_ID x) (sr_lockedBy sr) (cr_LeaseEpoch x) \<longrightarrow> sqlite_view t u' = sqlite_view t u)))"
proof -
  obtain cfg where cfg: "source_of rnd (sqlite_base t) cfg = Inr sr"
    using assms(1) by (auto simp: NewPollingSource_def newAdapterBase_def split: sum.splits option.splits)
  have b: "sr_base sr = sqlite_base t" "sr_strategy sr \<noteq> StrategyLockForUpdate"
    using cfg by (auto simp: source_of_def sqlite_LeaseDialect_def split: if_splits)
  then have w: "sqlite.worker t sr" by (simp add: sqlite.worker_def)
  note p = sqlite.poll_delivers [OF w assms(2,3)]
  from p obtain xs where xs: "distinct (map cr_ID xs)" "ds = map (sqlite.delivery_of L sr) xs"
    "\<forall>x \<in> set xs. sqlite.decodes L x \<and> sqlite_view t s' (cr_ID x) = Some (row_of x (sr_lockedBy sr))"
    by auto
  let ?hs = "map (\<lambda>x. projr (DecodeHeaders L (cr_Headers x))) xs"
  have "ds = map2 (lease_delivery sr) ?hs xs"
    unfolding xs(2) sqlite.delivery_of_def by (induction xs) simp_all
  moreover have "\<forall>k < length xs. DecodeHeaders L (cr_Headers (xs ! k)) = Inr (?hs ! k)"
    using xs(3) by (auto simp: sqlite.decodes_def)
  moreover have "(e = None \<longrightarrow> leased (sqlite_view t u) i (sr_lockedBy sr) ep \<and> sqlite_view t u' = (sqlite_view t u)(i := None))
      \<and> (\<not> leased (sqlite_view t u) i (sr_lockedBy sr) ep \<longrightarrow> sqlite_view t u' = sqlite_view t u)"
    if "sqlite_inv t u" "lease_ackClosure sr i ep c u = (Val e, u')" for u u' i ep c e
    using sqlite.ack_effect [OF that(1) b(1) that(2)] by blast
  moreover have "\<forall>i w. sqlite_view t s i = Some w \<longrightarrow> (\<exists>w'. sqlite_view t s' i = Some w' \<and> later w w')"
    using p by (auto simp: sqlite.keeps_rows_def)
  moreover have "int (length ds) \<le> mx" using p assms(4) by simp
  ultimately show ?thesis using xs by (intro conjI exI [of _ xs] exI [of _ ?hs]) auto
qed


section \<open>The fence does not outlive the row\<close>

lemma visit_single [simp]: "visit s [r] = [r]" "visit s [] = []"
  by (simp_all add: visit_def)

lemma statement_fine:
  assumes "w_faults s = []" "w_tables s t = Some rs"
  shows "statement t f s = (case f (w_now s) (visit s) rs of (rs', a) \<Rightarrow> (Val (Inr a), s\<lparr>w_tables := (w_tables s)(t \<mapsto> rs')\<rparr>))"
  using assms by (simp add: statement_def next_fault_def)

lemma sqlite_fine:
  assumes "w_faults s = []" "w_tables s t = Some rs" "ValidateIdent t = None"
  shows "sqlite_Insert ctx q t mid h p d s = (Val None, s\<lparr>w_tables := (w_tables s)(t \<mapsto> fst (insert_statement mid h p (Microseconds d) (w_now s) (visit s) rs))\<rparr>)"
    "sqlite_Claim ctx q t n by ttl s = (case claim_statement by (Microseconds ttl) n (w_now s) (visit s) rs of (rs', a) \<Rightarrow>
       (Val (Inr a), s\<lparr>w_tables := (w_tables s)(t \<mapsto> rs')\<rparr>))"
    "sqlite_Ack ctx q t i by ep s = (case ack_statement i by ep (w_now s) (visit s) rs of (rs', k) \<Rightarrow>
       (Val (Inr (k > 0)), s\<lparr>w_tables := (w_tables s)(t \<mapsto> rs')\<rparr>))"
  using assms
  by (simp_all add: sqlite_Insert_def sqlite_Claim_def sqlite_Ack_def sqliteQuoteTable_def statement_fine bindP_def returnP_def affected_def
      split: prod.splits)

lemma claim_single:
  assumes "claimable now ttl r"
  shows "claim_statement by ttl 1 now (visit s) [r] = ([lease_row now by r], [claimed_row (lease_row now by r)])"
  using assms by (simp add: claim_statement_def sql_limit_def lease_row_def)

lemma ack_single:
  "ack_statement i by ep now ord [r] = (if fenced i by ep r then ([], 1) else ([r], 0))"
  by (simp add: ack_statement_def)

text \<open>
  C40. The fence of a lease does not survive its row. SQLite gives a new row the id of a deleted one,
  and the lease epoch of a new row starts again at zero, so a delivery that outlived its lease
  can settle another message. Here message A is claimed, its lease runs out, it is claimed
  again by the same source and acknowledged; message B is sent and claimed; then the first
  delivery of A is acknowledged late. Instead of reporting a stale lease the acknowledgement
  succeeds, and B is gone although no delivery of B was ever acknowledged. The contract of the
  dialect says that the fence makes a settlement idempotent against a lease that expired and was claimed again.
\<close>

theorem sqlite_rowid_reuse_defeats_fence:
  assumes "ValidateIdent t = None" "w_tables s t = Some []" "w_faults s = []"
    and "0 \<le> Microseconds ttl" "w_now s + Microseconds ttl \<le> later_now"
  shows "\<exists>s1 s2 s3 s4 s5 s6 s7 a1 a2 b.
      sqlite_Insert ctx () t ''A'' hA pA 0 s = (Val None, s1)
    \<and> sqlite_Claim ctx () t 1 by ttl s1 = (Val (Inr [a1]), s2) \<and> cr_MsgID a1 = ''A''
    \<and> sqlite_Claim ctx () t 1 by ttl (s2\<lparr>w_now := later_now\<rparr>) = (Val (Inr [a2]), s3) \<and> cr_MsgID a2 = ''A''
    \<and> sqlite_Ack ctx () t (cr_ID a2) by (cr_LeaseEpoch a2) s3 = (Val (Inr True), s4)
    \<and> sqlite_Insert ctx () t ''B'' hB pB 0 s4 = (Val None, s5)
    \<and> sqlite_Claim ctx () t 1 by ttl s5 = (Val (Inr [b]), s6) \<and> cr_MsgID b = ''B''
    \<and> sqlite_Ack ctx () t (cr_ID a1) by (cr_LeaseEpoch a1) s6 = (Val (Inr True), s7)
    \<and> sqlite_view t s7 = Map.empty"
proof -
  define A where "A = \<lparr>qr_id = 1, qr_msg_id = ''A'', qr_headers = hA, qr_payload = pA, qr_locked_by = None, qr_locked_at = None,
      qr_visible_after = w_now s, qr_delivery_count = 0, qr_lease_epoch = 0\<rparr>"
  define B where "B = \<lparr>qr_id = 1, qr_msg_id = ''B'', qr_headers = hB, qr_payload = pB, qr_locked_by = None, qr_locked_at = None,
      qr_visible_after = later_now, qr_delivery_count = 0, qr_lease_epoch = 0\<rparr>"
  define u where "u rs = s\<lparr>w_tables := (w_tables s)(t \<mapsto> rs)\<rparr>" for rs
  define v where "v rs = s\<lparr>w_tables := (w_tables s)(t \<mapsto> rs), w_now := later_now\<rparr>" for rs
  have upd: "(u rs)\<lparr>w_tables := (w_tables (u rs))(t \<mapsto> rs')\<rparr> = u rs'" "(v rs)\<lparr>w_tables := (w_tables (v rs))(t \<mapsto> rs')\<rparr> = v rs'"
    "(u rs)\<lparr>w_now := later_now\<rparr> = v rs" for rs rs' by (simp_all add: u_def v_def)
  have fu: "w_faults (u rs) = []" "w_tables (u rs) t = Some rs" "w_now (u rs) = w_now s" for rs using assms by (simp_all add: u_def)
  have fv: "w_faults (v rs) = []" "w_tables (v rs) t = Some rs" "w_now (v rs) = later_now" for rs using assms by (simp_all add: v_def)
  let ?a1 = "lease_row (w_now s) by A" and ?b = "lease_row later_now by B"
  let ?a2 = "lease_row later_now by ?a1"
  have s0: "s = u []" using assms(2) by (simp add: u_def fun_upd_idem)
  have c: "claimable (w_now s) (Microseconds ttl) A" "claimable later_now (Microseconds ttl) ?a1" "claimable later_now (Microseconds ttl) B"
    using assms(4,5) by (simp_all add: claimable_def A_def B_def lease_row_def)
  have f: "fenced 1 by 2 ?a2" "fenced 1 by 1 ?b" by (simp_all add: fenced_def lease_row_def A_def B_def)
  have ids: "cr_ID (claimed_row ?a1) = 1" "cr_LeaseEpoch (claimed_row ?a1) = 1" "cr_ID (claimed_row ?a2) = 1" "cr_LeaseEpoch (claimed_row ?a2) = 2"
    "cr_MsgID (claimed_row ?a1) = ''A''" "cr_MsgID (claimed_row ?a2) = ''A''" "cr_MsgID (claimed_row ?b) = ''B''"
    by (simp_all add: claimed_row_def lease_row_def A_def B_def)
  have i: "insert_statement ''A'' hA pA 0 (w_now s) ord [] = ([A], ())" "insert_statement ''B'' hB pB 0 later_now ord [] = ([B], ())" for ord
    by (simp_all add: insert_statement_def fresh_rowid_def A_def B_def)
  have z: "Microseconds 0 = 0" by (simp add: Microseconds_def)
  have "sqlite_Insert ctx () t ''A'' hA pA 0 (u []) = (Val None, u [A])"
    using sqlite_fine(1) [OF fu(1,2) assms(1), of ctx "()" "''A''" hA pA 0] by (simp add: z fu i upd)
  then have st1: "sqlite_Insert ctx () t ''A'' hA pA 0 s = (Val None, u [A])" unfolding s0 [symmetric] .
  have st2: "sqlite_Claim ctx () t 1 by ttl (u [A]) = (Val (Inr [claimed_row ?a1]), u [?a1])"
    using sqlite_fine(2) [OF fu(1,2) assms(1), of ctx "()" 1 "by" ttl "[A]"] by (simp add: fu upd claim_single [OF c(1)])
  have st3: "sqlite_Claim ctx () t 1 by ttl ((u [?a1])\<lparr>w_now := later_now\<rparr>) = (Val (Inr [claimed_row ?a2]), v [?a2])"
    using sqlite_fine(2) [OF fv(1,2) assms(1), of ctx "()" 1 "by" ttl "[?a1]"] by (simp add: fv upd claim_single [OF c(2)])
  have st4: "sqlite_Ack ctx () t (cr_ID (claimed_row ?a2)) by (cr_LeaseEpoch (claimed_row ?a2)) (v [?a2]) = (Val (Inr True), v [])"
    using sqlite_fine(3) [OF fv(1,2) assms(1), of ctx "()" 1 "by" 2 "[?a2]"] by (simp add: fv upd ack_single f ids)
  have st5: "sqlite_Insert ctx () t ''B'' hB pB 0 (v []) = (Val None, v [B])"
    using sqlite_fine(1) [OF fv(1,2) assms(1), of ctx "()" "''B''" hB pB 0] by (simp add: z fv i upd)
  have st6: "sqlite_Claim ctx () t 1 by ttl (v [B]) = (Val (Inr [claimed_row ?b]), v [?b])"
    using sqlite_fine(2) [OF fv(1,2) assms(1), of ctx "()" 1 "by" ttl "[B]"] by (simp add: fv upd claim_single [OF c(3)])
  have st7: "sqlite_Ack ctx () t (cr_ID (claimed_row ?a1)) by (cr_LeaseEpoch (claimed_row ?a1)) (v [?b]) = (Val (Inr True), v [])"
    using sqlite_fine(3) [OF fv(1,2) assms(1), of ctx "()" 1 "by" 1 "[?b]"] by (simp add: fv upd ack_single f ids)
  have e: "sqlite_view t (v []) = Map.empty" by (simp add: sqlite_view_def fv rows_view_def)
  show ?thesis
    by (intro exI conjI, rule st1, rule st2, rule ids(5), rule st3, rule ids(6), rule st4, rule st5, rule st6, rule ids(7), rule st7, rule e)
qed


definition demo_sqlite :: sqlw where
  "demo_sqlite = \<lparr>w_tables = [''q'' \<mapsto> []], w_now = 0, w_faults = [], w_order = id\<rparr>"

lemma valid_q: "ValidateIdent ''q'' = None"
  by code_simp

lemma demo_sqlite_simps [simp]:
  "w_tables demo_sqlite ''q'' = Some []" "w_faults demo_sqlite = []" "w_now demo_sqlite = 0"
  by (simp_all add: demo_sqlite_def)

theorem sqlite_rowid_reuse_defeats_fence_witness:
  "\<exists>s6 s7 b. cr_MsgID b = ''B'' \<and> sqlite_Claim (\<lambda>_. None) () ''q'' 1 ''w'' 1000 s6 = (Val (Inr [b]), s7)"
  using sqlite_rowid_reuse_defeats_fence [OF valid_q, of demo_sqlite 1000 1 "\<lambda>_. None" "''{}''" "''''" "''w''" "''{}''" "''''"]
  by (auto simp: Microseconds_def)

text \<open>A row inserted into an empty table, then polled and given back: it is still there.\<close>

definition demo_row :: qrow where
  "demo_row = \<lparr>qr_id = 1, qr_msg_id = ''m'', qr_headers = ''doc'', qr_payload = ''x'', qr_locked_by = None, qr_locked_at = None,
     qr_visible_after = 0, qr_delivery_count = 0, qr_lease_epoch = 0\<rparr>"

definition demo_full :: sqlw where
  "demo_full = demo_sqlite\<lparr>w_tables := [''q'' \<mapsto> [demo_row]]\<rparr>"

definition demo_source :: "(sqlw, unit, unit) Source" where
  "demo_source = \<lparr>sr_base = sqlite_base ''q'', sr_strategy = 0, sr_leaseTTL = 5 * Minute, sr_lockedBy = ''w'', sr_lockDialect = None\<rparr>"

lemma demo_full_simps [simp]:
  "w_tables demo_full ''q'' = Some [demo_row]" "w_faults demo_full = []" "w_now demo_full = 0" "sqlite_inv ''q'' demo_full"
  by (simp_all add: demo_full_def demo_sqlite_def sqlite_inv_def keyed_def)

lemma demo_poll:
  "\<exists>ds s'. Source_Poll demo_lib demo_source (\<lambda>_. None) 5 demo_full = (Val (Inr ds), s') \<and> length ds = 1"
proof -
  have c: "claimable 0 (Microseconds (5 * Minute)) demo_row" by (simp add: claimable_def demo_row_def)
  have "claim_statement ''w'' (Microseconds (5 * Minute)) 5 0 (visit demo_full) [demo_row]
      = ([lease_row 0 ''w'' demo_row], [claimed_row (lease_row 0 ''w'' demo_row)])"
    using c by (simp add: claim_statement_def sql_limit_def lease_row_def)
  moreover have "\<exists>h. DecodeHeaders demo_lib (cr_Headers (claimed_row (lease_row 0 ''w'' demo_row))) = Inr h"
    by (simp add: DecodeHeaders_def json_Unmarshal_def claimed_row_def lease_row_def demo_row_def)
  ultimately show ?thesis
    by (auto simp: Source_Poll_def pollLease_def demo_source_def sqlite_LeaseDialect_def sqlite_fine(2) [OF _ _ valid_q] bindP_def returnP_def Let_def)
qed

theorem sqlite_poll_leases_witness:
  "\<exists>ds s'. Source_Poll demo_lib demo_source (\<lambda>_. None) 5 demo_full = (Val (Inr ds), s') \<and> length ds = 1
     \<and> (\<exists>i w'. sqlite_view ''q'' s' i = Some w' \<and> lw_holder w' = Some ''w'')"
proof -
  obtain ds s' where p: "Source_Poll demo_lib demo_source (\<lambda>_. None) 5 demo_full = (Val (Inr ds), s')" "length ds = 1"
    using demo_poll by blast
  have n: "NewPollingSource '''' (Some ()) ''q'' (Some sqlite_LeaseDialect) [WithLockedBy ''w''] = Inr demo_source"
    by (simp add: NewPollingSource_def newAdapterBase_def valid_q source_of_def WithLockedBy_def sql_defaults_def sqlite_LeaseDialect_def demo_source_def)
  obtain xs hs where xs: "length hs = length xs" "ds = map2 (lease_delivery demo_source) hs xs"
    "\<forall>x \<in> set xs. sqlite_view ''q'' s' (cr_ID x) = Some (row_of x (sr_lockedBy demo_source))"
    using sqlite_poll_leases [OF n demo_full_simps(4) p(1)] by auto
  then have "xs ! 0 \<in> set xs" using p(2) by auto
  then have "sqlite_view ''q'' s' (cr_ID (xs ! 0)) = Some (row_of (xs ! 0) ''w'')" using xs(3) by (simp add: demo_source_def)
  moreover have "lw_holder (row_of (xs ! 0) ''w'') = Some ''w''" by (simp add: row_of_def)
  ultimately show ?thesis using p by blast
qed

text \<open>A message is sent to the empty table and polled: its row is there, leased, with the message's id and payload.\<close>

definition demo_out :: "(sqlw, unit, unit) SqlOutbound" where
  "demo_out = \<lparr>so_base = sqlite_base ''q'', so_resolver = None, so_strict = False\<rparr>"

definition demo_sent :: msg where
  "demo_sent = \<lparr>payload = GBytes ''x'',
     headers = [HeaderMessageID \<mapsto> GString ''m'', HeaderSequenceSize \<mapsto> GInt 3, HeaderTimestamp \<mapsto> GTime 7, ''n'' \<mapsto> GInt 5]\<rparr>"

lemma demo_send: "SqlOutbound_SendAfter demo_lib demo_out (\<lambda>_. None) demo_sent 0 demo_sqlite = (Val None, demo_full)"
proof -
  have e: "EncodeHeaders demo_lib (headers demo_sent) = Inr ''doc''"
    by (simp add: EncodeHeaders_def json_Marshal_def frame_headers_def demo_sent_def)
  have m: "payload demo_sent = GBytes ''x''" "ID demo_sent = ''m''"
    by (simp_all add: demo_sent_def ID_def Headers_String_def)
  have "sqlite_Insert (\<lambda>_. None) () ''q'' ''m'' ''doc'' ''x'' 0 demo_sqlite = (Val None, demo_full)"
    by (simp add: sqlite_fine(1) [OF _ _ valid_q] insert_statement_def fresh_rowid_def demo_full_def demo_row_def Microseconds_def demo_sqlite_def)
  then show ?thesis
    by (simp add: SqlOutbound_SendAfter_def e m demo_out_def resolveQuerier_def sqlite_LeaseDialect_def bindP_def returnP_def)
qed

theorem sqlite_queue_at_least_once_witness:
  "\<exists>s s' i w'. SqlOutbound_SendAfter demo_lib demo_out (\<lambda>_. None) demo_sent 0 demo_sqlite = (Val None, s)
     \<and> queue_run demo_lib (sqlite_base ''q'') (sqlite_view ''q'') sqlite_env [] s s'
     \<and> sqlite_view ''q'' s' i = Some w' \<and> lw_MsgID w' = ''m'' \<and> lw_Payload w' = ''x''"
proof -
  have inv: "sqlite_inv ''q'' demo_sqlite" by (simp add: sqlite_inv_def keyed_def)
  obtain ds s' where p: "Source_Poll demo_lib demo_source (\<lambda>_. None) 5 demo_full = (Val (Inr ds), s')" using demo_poll by blast
  have r: "queue_run demo_lib (sqlite_base ''q'') (sqlite_view ''q'') sqlite_env [] demo_full s'"
    by (rule queue_run.poll [OF queue_run.start _ _ p]) (simp_all add: demo_source_def)
  have ob: "so_base demo_out = sqlite_base ''q''" "so_resolver demo_out = None" by (simp_all add: demo_out_def)
  have m: "payload demo_sent = GBytes ''x''" "ID demo_sent = ''m''"
    by (simp_all add: demo_sent_def ID_def Headers_String_def)
  obtain i w' where "sqlite_view ''q'' s' i = Some w'" "lw_MsgID w' = ''m''" "lw_Payload w' = ''x''"
    using sqlite_queue_at_least_once [OF inv ob demo_send r] by (auto simp: later_def same_content_def new_row_def m)
  with demo_send r show ?thesis by blast
qed

end
