(* ===== verification/Sqlite_Group.thy ===== *)
theory Sqlite_Group
  imports Sql_Group Sqlite_Lease "HOL-Library.List_Lexorder" "HOL-Library.Product_Lexorder"
begin

text \<open>
  The SQLite group dialect (\<^verbatim>\<open>adapter/database/sql/sqlite/groupdialect.go\<close>, the tables of \<^verbatim>\<open>groupddl.go\<close>): the
  group table and the member table as lists of rows, each statement a function on one of them. A
  multi-statement operation runs under \<^verbatim>\<open>BEGIN IMMEDIATE\<close>, which excludes every other writer, so it is one
  step; \<open>withImmediateConn\<close> commits it or puts the tables back. Its refusal of a querier that cannot open a
  connection has no counterpart: the store passes a \<^verbatim>\<open>*sql.DB\<close>, which can. Every statement may fail and may
  find the clock advanced (\<open>gq_events\<close>). The two tables of a store are addressed by its base name.

  The lemmas: the invariant of the tables, what each operation does to them on every path,
  that a claim takes every member and a settlement exactly the claimed ones, the cap, and what a
  settlement does whose epoch has been used again.
\<close>

section \<open>Tables and statements\<close>

record grow =
  gw_key :: string
  gw_created :: int
  gw_epoch :: int
  gw_locked_by :: "string option"
  gw_locked_at :: "int option"

record mrow =
  mw_key :: string
  mw_id :: string
  mw_seq :: int
  mw_headers :: string
  mw_payload :: string
  mw_claimed :: "int option"

record gsql =
  gq_groups :: "string \<rightharpoonup> grow list"
  gq_members :: "string \<rightharpoonup> mrow list"
  gq_now :: int
  gq_events :: "(fault \<times> nat) list"
  gq_order :: "grow list \<Rightarrow> grow list"

definition next_event :: "gsql \<Rightarrow> fault \<times> gsql" where
  "next_event s =
     (case gq_events s of
        [] \<Rightarrow> (Fine, s)
      | (f, d) # es \<Rightarrow> (f, s\<lparr>gq_events := es, gq_now := gq_now s + int d\<rparr>))"

definition fault_err :: "fault \<Rightarrow> err option" where
  "fault_err f = (case f of Fine \<Rightarrow> None | Before e \<Rightarrow> Some e | After e \<Rightarrow> Some e)"

text \<open>
  One statement on the group table or on the member table, inside a transaction or reading only. A
  failed one has no effect that outlives the rollback.
\<close>

definition group_statement :: "(err \<Rightarrow> 'e) \<Rightarrow> string \<Rightarrow> (int \<Rightarrow> grow list \<Rightarrow> grow list \<times> (err + 'a)) \<Rightarrow> (gsql, 'e + 'a) prog" where
  "group_statement mk t f s0 =
     (case next_event s0 of (flt, s) \<Rightarrow>
        (case fault_err flt of
           Some e \<Rightarrow> (Val (Inl (mk e)), s)
         | None \<Rightarrow>
             (case gq_groups s t of
                None \<Rightarrow> (Val (Inl (mk no_such_table)), s)
              | Some gs \<Rightarrow>
                  (case f (gq_now s) gs of (gs', r) \<Rightarrow>
                     (Val (case r of Inl e \<Rightarrow> Inl (mk e) | Inr a \<Rightarrow> Inr a), s\<lparr>gq_groups := (gq_groups s)(t \<mapsto> gs')\<rparr>)))))"

definition member_statement :: "(err \<Rightarrow> 'e) \<Rightarrow> string \<Rightarrow> (mrow list \<Rightarrow> mrow list \<times> 'a) \<Rightarrow> (gsql, 'e + 'a) prog" where
  "member_statement mk t f s0 =
     (case next_event s0 of (flt, s) \<Rightarrow>
        (case fault_err flt of
           Some e \<Rightarrow> (Val (Inl (mk e)), s)
         | None \<Rightarrow>
             (case gq_members s t of
                None \<Rightarrow> (Val (Inl (mk no_such_table)), s)
              | Some ms \<Rightarrow>
                  (case f ms of (ms', a) \<Rightarrow> (Val (Inr a), s\<lparr>gq_members := (gq_members s)(t \<mapsto> ms')\<rparr>)))))"

text \<open>
  Opening the connection, \<^verbatim>\<open>BEGIN IMMEDIATE\<close>, the body, and \<^verbatim>\<open>COMMIT\<close> or \<^verbatim>\<open>ROLLBACK\<close>. A commit that reports
  a failure may have happened.
\<close>

definition withImmediateConn :: "(err \<Rightarrow> 'e) \<Rightarrow> (gsql, 'e + 'a) prog \<Rightarrow> (gsql, 'e + 'a) prog" where
  "withImmediateConn mk body s0 =
     (case next_event s0 of (f1, s1) \<Rightarrow>
        (case fault_err f1 of
           Some e \<Rightarrow> (Val (Inl (mk e)), s1)
         | None \<Rightarrow>
             (case next_event s1 of (f2, s2) \<Rightarrow>
                (case fault_err f2 of
                   Some e \<Rightarrow> (Val (Inl (mk e)), s2)
                 | None \<Rightarrow>
                     (case body s2 of
                        (Pan p, s3) \<Rightarrow> (Pan p, s3)
                      | (Val (Inl e), s3) \<Rightarrow> (Val (Inl e), s3\<lparr>gq_groups := gq_groups s2, gq_members := gq_members s2\<rparr>)
                      | (Val (Inr a), s3) \<Rightarrow>
                          (case next_event s3 of (f3, s4) \<Rightarrow>
                             (case f3 of
                                Fine \<Rightarrow> (Val (Inr a), s4)
                              | Before e \<Rightarrow> (Val (Inl (mk e)), s4\<lparr>gq_groups := gq_groups s2, gq_members := gq_members s2\<rparr>)
                              | After e \<Rightarrow> (Val (Inl (mk e)), s4))))))))"

definition is_group :: "string \<Rightarrow> grow \<Rightarrow> bool" where
  "is_group key g \<longleftrightarrow> gw_key g = key"

definition upsert_group :: "string \<Rightarrow> int \<Rightarrow> grow list \<Rightarrow> grow list \<times> (err + unit)" where
  "upsert_group key now gs =
     (if list_ex (is_group key) gs then gs
      else gs @ [\<lparr>gw_key = key, gw_created = now, gw_epoch = 0, gw_locked_by = None, gw_locked_at = None\<rparr>], Inr ())"

abbreviation ErrNoRows :: err where "ErrNoRows \<equiv> Foreign ''sql: no rows in result set'' 0"

definition lease_live :: "int \<Rightarrow> int \<Rightarrow> grow \<Rightarrow> bool" where
  "lease_live now ttl g \<longleftrightarrow> gw_locked_by g \<noteq> None \<and> (case gw_locked_at g of None \<Rightarrow> False | Some t \<Rightarrow> t > now - ttl)"

definition read_group :: "string \<Rightarrow> int \<Rightarrow> int \<Rightarrow> grow list \<Rightarrow> grow list \<times> (err + int \<times> bool)" where
  "read_group key ttl now gs =
     (gs, case find (is_group key) gs of None \<Rightarrow> Inl ErrNoRows | Some g \<Rightarrow> Inr (gw_created g, lease_live now ttl g))"

definition is_member :: "string \<Rightarrow> string \<Rightarrow> mrow \<Rightarrow> bool" where
  "is_member key mid m \<longleftrightarrow> mw_key m = key \<and> mw_id m = mid"

definition insert_member :: "string \<Rightarrow> string \<Rightarrow> int \<Rightarrow> string \<Rightarrow> string \<Rightarrow> mrow list \<Rightarrow> mrow list \<times> int" where
  "insert_member key mid seq h p ms =
     (if list_ex (is_member key mid) ms then (ms, 0)
      else (ms @ [\<lparr>mw_key = key, mw_id = mid, mw_seq = seq, mw_headers = h, mw_payload = p, mw_claimed = None\<rparr>], 1))"

definition members_of :: "string \<Rightarrow> mrow list \<Rightarrow> mrow list" where
  "members_of key ms = filter (\<lambda>m. mw_key m = key) ms"

definition sqliteCountMembers :: "string \<Rightarrow> mrow list \<Rightarrow> mrow list \<times> int" where
  "sqliteCountMembers key ms = (ms, int (length (members_of key ms)))"

definition member_row :: "mrow \<Rightarrow> MemberRow" where
  "member_row m = \<lparr>mr_MsgID = mw_id m, mr_Seq = mw_seq m, mr_Headers = mw_headers m, mr_Payload = mw_payload m\<rparr>"

definition select_rows :: "string \<Rightarrow> (int option \<Rightarrow> bool) \<Rightarrow> mrow list \<Rightarrow> MemberRow list" where
  "select_rows key P ms = map member_row (sort_key (\<lambda>m. (mw_seq m, mw_id m)) (filter (\<lambda>m. P (mw_claimed m)) (members_of key ms)))"

definition sqliteSelectMembers :: "string \<Rightarrow> (int option \<Rightarrow> bool) \<Rightarrow> mrow list \<Rightarrow> mrow list \<times> MemberRow list" where
  "sqliteSelectMembers key P ms = (ms, select_rows key P ms)"

abbreviation (input) live :: "int option \<Rightarrow> bool" where "live \<equiv> (\<lambda>c. c = None)"

section \<open>AddMember\<close>

abbreviation groupOverflowSite :: string where "groupOverflowSite \<equiv> ''msgin/sql/sqlite: AddMember''"

definition groupOverflow :: "string \<Rightarrow> int \<Rightarrow> int \<Rightarrow> bool \<Rightarrow> err" where
  "groupOverflow key n maxMembers leaseLive =
     (let e = Errorf ''%w: %s: group %q holds %d members, limit %d''
                [ArgW (Sentinel ErrOverflowDropped), ArgS groupOverflowSite, ArgS key, ArgD n, ArgD maxMembers]
      in if leaseLive then e else PermanentError e)"

definition withoutMember :: "MemberRow list \<Rightarrow> string \<Rightarrow> MemberRow list" where
  "withoutMember ms mid = filter (\<lambda>m. mr_MsgID m \<noteq> mid) ms"

text \<open>\<^verbatim>\<open>time.UnixMicro\<close>.\<close>

definition UnixMicro :: "int \<Rightarrow> time" where
  "UnixMicro us = us * 1000"

definition sqlite_add_tx ::
  "string \<Rightarrow> string \<Rightarrow> string \<Rightarrow> int \<Rightarrow> string \<Rightarrow> string \<Rightarrow> int \<Rightarrow> duration \<Rightarrow> (gsql, (GroupRows \<times> err) + GroupRows) prog" where
  "sqlite_add_tx t key mid seq h p maxMembers ttl =
     (let mk = (\<lambda>e. (noGroupRows, e)) in
      bindE (group_statement mk t (upsert_group key)) (\<lambda>_.
      bindE (group_statement mk t (read_group key (Microseconds ttl))) (\<lambda>(created, leaseLive).
      bindE (member_statement mk t (insert_member key mid seq h p)) (\<lambda>inserted.
      bindE (if inserted > 0 \<and> maxMembers \<noteq> UnboundedGroupMembers
             then bindE (member_statement mk t (sqliteCountMembers key)) (\<lambda>n.
                    returnP (Inr (if n > maxMembers then Some (groupOverflow key n maxMembers leaseLive) else None)))
             else returnP (Inr None)) (\<lambda>overflowErr.
      bindE (member_statement mk t (sqliteSelectMembers key live)) (\<lambda>members.
        let out = (\<lambda>ms. \<lparr>gr_Key = key, gr_CreatedAt = UnixMicro created, gr_Members = ms\<rparr>)
        in case overflowErr of
             Some e \<Rightarrow> returnP (Inl (out (withoutMember members mid), e))
           | None \<Rightarrow> returnP (Inr (out members))))))))"

definition sqlite_AddMember ::
  "gsql ctx \<Rightarrow> unit \<Rightarrow> string \<Rightarrow> string \<Rightarrow> string \<Rightarrow> int \<Rightarrow> string \<Rightarrow> string \<Rightarrow> int \<Rightarrow> duration \<Rightarrow> (gsql, GroupRows \<times> err option) prog" where
  "sqlite_AddMember ctx q table key mid seq h p maxMembers ttl =
     (if mid = '''' then returnP (noGroupRows, Some (sql_err ErrMissingMsgID))
      else
        (case ValidateMaxMembers groupOverflowSite maxMembers of
           Some e \<Rightarrow> returnP (noGroupRows, Some e)
         | None \<Rightarrow>
             (case ValidateIdent table of
                Some e \<Rightarrow> returnP (noGroupRows, Some e)
              | None \<Rightarrow>
                  bindP (withImmediateConn (\<lambda>e. (noGroupRows, e)) (sqlite_add_tx table key mid seq h p maxMembers ttl)) (\<lambda>r.
                    returnP (case r of Inl (rows, e) \<Rightarrow> (rows, Some e) | Inr rows \<Rightarrow> (rows, None))))))"

section \<open>ClaimGroup, SettleGroup, AbandonGroup\<close>

definition takeable :: "string \<Rightarrow> int \<Rightarrow> int \<Rightarrow> grow \<Rightarrow> bool" where
  "takeable key ttl now g \<longleftrightarrow>
     is_group key g \<and> (gw_locked_by g = None \<or> (case gw_locked_at g of None \<Rightarrow> False | Some t \<Rightarrow> t \<le> now - ttl))"

definition take_lease :: "string \<Rightarrow> string \<Rightarrow> int \<Rightarrow> int \<Rightarrow> grow list \<Rightarrow> grow list \<times> (err + int)" where
  "take_lease key by ttl now gs =
     (map (\<lambda>g. if takeable key ttl now g
                 then g\<lparr>gw_epoch := gw_epoch g + 1, gw_locked_by := Some by, gw_locked_at := Some now\<rparr> else g) gs,
      Inr (int (length (filter (takeable key ttl now) gs))))"

definition read_epoch :: "string \<Rightarrow> int \<Rightarrow> grow list \<Rightarrow> grow list \<times> (err + int \<times> int)" where
  "read_epoch key now gs =
     (gs, case find (is_group key) gs of None \<Rightarrow> Inl ErrNoRows | Some g \<Rightarrow> Inr (gw_epoch g, gw_created g))"

definition tag_members :: "string \<Rightarrow> int \<Rightarrow> mrow list \<Rightarrow> mrow list \<times> unit" where
  "tag_members key ep ms =
     (map (\<lambda>m. if mw_key m = key \<and> (case mw_claimed m of None \<Rightarrow> True | Some c \<Rightarrow> c < ep)
                 then m\<lparr>mw_claimed := Some ep\<rparr> else m) ms, ())"

definition sqlite_claim_tx :: "string \<Rightarrow> string \<Rightarrow> string \<Rightarrow> duration \<Rightarrow> (gsql, err + ClaimedGroup option) prog" where
  "sqlite_claim_tx t key by ttl =
     bindE (group_statement id t (take_lease key by (Microseconds ttl))) (\<lambda>n.
       if n = 0 then returnP (Inr None)
       else
         bindE (group_statement id t (read_epoch key)) (\<lambda>(newEpoch, created).
         bindE (member_statement id t (tag_members key newEpoch)) (\<lambda>_.
         bindE (member_statement id t (sqliteSelectMembers key (\<lambda>c. c = Some newEpoch))) (\<lambda>members.
           returnP (Inr (Some \<lparr>cg_Rows = \<lparr>gr_Key = key, gr_CreatedAt = UnixMicro created, gr_Members = members\<rparr>, cg_Epoch = newEpoch\<rparr>))))))"

definition sqlite_ClaimGroup ::
  "gsql ctx \<Rightarrow> unit \<Rightarrow> string \<Rightarrow> string \<Rightarrow> string \<Rightarrow> duration \<Rightarrow> (gsql, err + ClaimedGroup option) prog" where
  "sqlite_ClaimGroup ctx q table key by ttl =
     (case ValidateIdent table of
        Some e \<Rightarrow> returnP (Inl e)
      | None \<Rightarrow> withImmediateConn id (sqlite_claim_tx table key by ttl))"

definition group_fenced :: "string \<Rightarrow> string \<Rightarrow> int \<Rightarrow> grow \<Rightarrow> bool" where
  "group_fenced key by ep g \<longleftrightarrow> is_group key g \<and> gw_locked_by g = Some by \<and> gw_epoch g = ep"

definition sqliteGroupExists :: "string \<Rightarrow> int \<Rightarrow> grow list \<Rightarrow> grow list \<times> (err + bool)" where
  "sqliteGroupExists key now gs = (gs, Inr (list_ex (is_group key) gs))"

definition claimed_under :: "string \<Rightarrow> int \<Rightarrow> mrow \<Rightarrow> bool" where
  "claimed_under key ep m \<longleftrightarrow> mw_key m = key \<and> mw_claimed m = Some ep"

definition delete_claimed :: "string \<Rightarrow> int \<Rightarrow> mrow list \<Rightarrow> mrow list \<times> unit" where
  "delete_claimed key ep ms = (filter (\<lambda>m. \<not> claimed_under key ep m) ms, ())"

definition residual_group :: "string \<Rightarrow> string \<Rightarrow> int \<Rightarrow> int \<Rightarrow> grow list \<Rightarrow> grow list \<times> (err + int)" where
  "residual_group key by ep now gs =
     (map (\<lambda>g. if group_fenced key by ep g then g\<lparr>gw_locked_by := None, gw_locked_at := None, gw_created := now\<rparr> else g) gs,
      Inr (int (length (filter (group_fenced key by ep) gs))))"

definition delete_group :: "string \<Rightarrow> string \<Rightarrow> int \<Rightarrow> int \<Rightarrow> grow list \<Rightarrow> grow list \<times> (err + int)" where
  "delete_group key by ep now gs =
     (filter (\<lambda>g. \<not> group_fenced key by ep g) gs, Inr (int (length (filter (group_fenced key by ep) gs))))"

definition sqlite_settle_tx :: "string \<Rightarrow> string \<Rightarrow> string \<Rightarrow> int \<Rightarrow> (gsql, err + bool) prog" where
  "sqlite_settle_tx t key by ep =
     bindE (group_statement id t (sqliteGroupExists key)) (\<lambda>ex.
       if \<not> ex then returnP (Inr False)
       else
         bindE (member_statement id t (delete_claimed key ep)) (\<lambda>_.
         bindE (member_statement id t (sqliteCountMembers key)) (\<lambda>remaining.
         bindE (group_statement id t (if remaining > 0 then residual_group key by ep else delete_group key by ep)) (\<lambda>n.
           returnP (Inr (n > 0))))))"

definition sqlite_SettleGroup :: "gsql ctx \<Rightarrow> unit \<Rightarrow> string \<Rightarrow> string \<Rightarrow> string \<Rightarrow> int \<Rightarrow> (gsql, err + bool) prog" where
  "sqlite_SettleGroup ctx q table key by ep =
     (case ValidateIdent table of
        Some e \<Rightarrow> returnP (Inl e)
      | None \<Rightarrow> withImmediateConn id (sqlite_settle_tx table key by ep))"

definition untag_members :: "string \<Rightarrow> int \<Rightarrow> mrow list \<Rightarrow> mrow list \<times> unit" where
  "untag_members key ep ms = (map (\<lambda>m. if claimed_under key ep m then m\<lparr>mw_claimed := None\<rparr> else m) ms, ())"

definition free_group :: "string \<Rightarrow> string \<Rightarrow> int \<Rightarrow> int \<Rightarrow> grow list \<Rightarrow> grow list \<times> (err + int)" where
  "free_group key by ep now gs =
     (map (\<lambda>g. if group_fenced key by ep g then g\<lparr>gw_locked_by := None, gw_locked_at := None\<rparr> else g) gs,
      Inr (int (length (filter (group_fenced key by ep) gs))))"

definition sqlite_abandon_tx :: "string \<Rightarrow> string \<Rightarrow> string \<Rightarrow> int \<Rightarrow> (gsql, err + bool) prog" where
  "sqlite_abandon_tx t key by ep =
     bindE (group_statement id t (sqliteGroupExists key)) (\<lambda>ex.
       if \<not> ex then returnP (Inr False)
       else
         bindE (member_statement id t (untag_members key ep)) (\<lambda>_.
         bindE (group_statement id t (free_group key by ep)) (\<lambda>n. returnP (Inr (n > 0)))))"

definition sqlite_AbandonGroup :: "gsql ctx \<Rightarrow> unit \<Rightarrow> string \<Rightarrow> string \<Rightarrow> string \<Rightarrow> int \<Rightarrow> (gsql, err + bool) prog" where
  "sqlite_AbandonGroup ctx q table key by ep =
     (case ValidateIdent table of
        Some e \<Rightarrow> returnP (Inl e)
      | None \<Rightarrow> withImmediateConn id (sqlite_abandon_tx table key by ep))"

section \<open>ExpiredGroups and the schema\<close>

definition expired_group :: "int \<Rightarrow> time \<Rightarrow> int \<Rightarrow> grow \<Rightarrow> bool" where
  "expired_group ttl before now g \<longleftrightarrow>
     (gw_locked_by g \<noteq> None \<and> (case gw_locked_at g of None \<Rightarrow> False | Some t \<Rightarrow> t \<le> now - ttl))
     \<or> (before \<noteq> zeroTime \<and> gw_locked_by g = None \<and> gw_created g < before div 1000)"

definition visit_groups :: "gsql \<Rightarrow> grow list \<Rightarrow> grow list" where
  "visit_groups s gs = (if mset (gq_order s gs) = mset gs then gq_order s gs else gs)"

definition select_expired :: "(grow list \<Rightarrow> grow list) \<Rightarrow> int \<Rightarrow> time \<Rightarrow> int \<Rightarrow> int \<Rightarrow> grow list \<Rightarrow> grow list \<times> (err + (string \<times> int) list)" where
  "select_expired ord ttl before limit now gs =
     (gs, Inr (map (\<lambda>g. (gw_key g, gw_created g)) (sql_limit limit (sort_key gw_created (filter (expired_group ttl before now) (ord gs))))))"

fun expired_rows :: "string \<Rightarrow> (string \<times> int) list \<Rightarrow> (gsql, err + GroupRows list) prog" where
  "expired_rows t [] = returnP (Inr [])"
| "expired_rows t ((key, created) # cs) =
     bindE (member_statement id t (sqliteSelectMembers key live)) (\<lambda>members.
     bindE (expired_rows t cs) (\<lambda>out.
       returnP (Inr (\<lparr>gr_Key = key, gr_CreatedAt = UnixMicro created, gr_Members = members\<rparr> # out))))"

definition sqlite_ExpiredGroups :: "gsql ctx \<Rightarrow> unit \<Rightarrow> string \<Rightarrow> time \<Rightarrow> duration \<Rightarrow> int \<Rightarrow> (gsql, err + GroupRows list) prog" where
  "sqlite_ExpiredGroups ctx q table before ttl limit s =
     (case ValidateIdent table of
        Some e \<Rightarrow> (Val (Inl e), s)
      | None \<Rightarrow> bindE (group_statement id table (select_expired (visit_groups s) (Microseconds ttl) before limit)) (expired_rows table) s)"

text \<open>The two tables are created by one statement each when they are absent; the two index statements change no rows.\<close>

definition ddl_statement :: "(gsql \<Rightarrow> gsql) \<Rightarrow> (gsql, err option) prog" where
  "ddl_statement f s0 =
     (case next_event s0 of (flt, s) \<Rightarrow>
        (Val (fault_err flt), case flt of Before e \<Rightarrow> s | _ \<Rightarrow> f s))"

definition sqliteCreateGroupTable :: "string \<Rightarrow> gsql \<Rightarrow> gsql" where
  "sqliteCreateGroupTable t s = (if gq_groups s t = None then s\<lparr>gq_groups := (gq_groups s)(t \<mapsto> [])\<rparr> else s)"

definition sqliteCreateMemberTable :: "string \<Rightarrow> gsql \<Rightarrow> gsql" where
  "sqliteCreateMemberTable t s = (if gq_members s t = None then s\<lparr>gq_members := (gq_members s)(t \<mapsto> [])\<rparr> else s)"

fun exec_all :: "(gsql \<Rightarrow> gsql) list \<Rightarrow> (gsql, err option) prog" where
  "exec_all [] = returnP None"
| "exec_all (f # fs) = bindP (ddl_statement f) (\<lambda>r. case r of Some e \<Rightarrow> returnP (Some e) | None \<Rightarrow> exec_all fs)"

definition sqlite_EnsureGroupSchema :: "gsql ctx \<Rightarrow> unit \<Rightarrow> string \<Rightarrow> (gsql, err option) prog" where
  "sqlite_EnsureGroupSchema ctx q table =
     (case ValidateIdent table of
        Some e \<Rightarrow> returnP (Some e)
      | None \<Rightarrow> exec_all [sqliteCreateGroupTable table, sqliteCreateMemberTable table, id, id])"

definition sqlite_GroupSchemaExists :: "gsql ctx \<Rightarrow> unit \<Rightarrow> string \<Rightarrow> (gsql, err + bool) prog" where
  "sqlite_GroupSchemaExists ctx q table s0 =
     (case ValidateIdent table of
        Some e \<Rightarrow> (Val (Inl e), s0)
      | None \<Rightarrow>
          (case next_event s0 of (flt, s) \<Rightarrow>
             (Val (case fault_err flt of Some e \<Rightarrow> Inl e | None \<Rightarrow> Inr (gq_groups s table \<noteq> None)), s)))"

definition sqlite_GroupDialect :: "(gsql, unit) GroupDialect" where
  "sqlite_GroupDialect =
     \<lparr>gd_AddMember = sqlite_AddMember, gd_ClaimGroup = sqlite_ClaimGroup, gd_SettleGroup = sqlite_SettleGroup,
      gd_AbandonGroup = sqlite_AbandonGroup, gd_ExpiredGroups = sqlite_ExpiredGroups,
      gd_EnsureGroupSchema = sqlite_EnsureGroupSchema, gd_SchemaExists = sqlite_GroupSchemaExists\<rparr>"

section \<open>Statements and transactions\<close>

text \<open>The clock may have advanced between two statements, and events may have been used up.\<close>

definition adv :: "gsql \<Rightarrow> gsql \<Rightarrow> bool" where
  "adv s s' \<longleftrightarrow> gq_groups s' = gq_groups s \<and> gq_members s' = gq_members s \<and> gq_now s \<le> gq_now s' \<and> (gq_events s = [] \<longrightarrow> s' = s)"

lemma next_event_adv: "next_event s = (f, s') \<Longrightarrow> adv s s' \<and> (gq_events s = [] \<longrightarrow> f = Fine)"
  by (auto simp: next_event_def adv_def split: list.splits prod.splits)

lemma group_statement_yields:
  assumes "gq_groups s t = Some gs"
    and "\<And>e s1. adv s s1 \<Longrightarrow> gq_events s \<noteq> [] \<Longrightarrow> Q (Inl (mk e)) s1"
    and "\<And>s1 gs' r. adv s s1 \<Longrightarrow> f (gq_now s1) gs = (gs', r) \<Longrightarrow>
           Q (case r of Inl e \<Rightarrow> Inl (mk e) | Inr a \<Rightarrow> Inr a) (s1\<lparr>gq_groups := (gq_groups s)(t \<mapsto> gs')\<rparr>)"
  shows "yields (group_statement mk t f) Q s"
proof -
  obtain flt s1 where n: "next_event s = (flt, s1)" by fastforce
  from next_event_adv [OF n] have a: "adv s s1" and fine: "gq_events s = [] \<longrightarrow> flt = Fine" by auto
  show ?thesis
  proof (cases "fault_err flt")
    case None
    from a have g: "gq_groups s1 = gq_groups s" by (simp add: adv_def)
    obtain gs' r where f: "f (gq_now s1) gs = (gs', r)" by fastforce
    from assms(3) [OF a f] show ?thesis
      by (simp add: yields_def group_statement_def n None g assms(1) f)
  next
    case (Some e)
    then have "gq_events s \<noteq> []" using fine by (auto simp: fault_err_def)
    from assms(2) [OF a this] show ?thesis
      by (simp add: yields_def group_statement_def n Some)
  qed
qed

lemma member_statement_yields:
  assumes "gq_members s t = Some ms"
    and "\<And>e s1. adv s s1 \<Longrightarrow> gq_events s \<noteq> [] \<Longrightarrow> Q (Inl (mk e)) s1"
    and "\<And>s1 ms' a. adv s s1 \<Longrightarrow> f ms = (ms', a) \<Longrightarrow> Q (Inr a) (s1\<lparr>gq_members := (gq_members s)(t \<mapsto> ms')\<rparr>)"
  shows "yields (member_statement mk t f) Q s"
proof -
  obtain flt s1 where n: "next_event s = (flt, s1)" by fastforce
  from next_event_adv [OF n] have a: "adv s s1" and fine: "gq_events s = [] \<longrightarrow> flt = Fine" by auto
  show ?thesis
  proof (cases "fault_err flt")
    case None
    from a have g: "gq_members s1 = gq_members s" by (simp add: adv_def)
    obtain ms' r where f: "f ms = (ms', r)" by fastforce
    from assms(3) [OF a f] show ?thesis
      by (simp add: yields_def member_statement_def n None g assms(1) f)
  next
    case (Some e)
    then have "gq_events s \<noteq> []" using fine by (auto simp: fault_err_def)
    from assms(2) [OF a this] show ?thesis
      by (simp add: yields_def member_statement_def n Some)
  qed
qed


text \<open>The tables of \<open>t\<close> after a step, all others unchanged.\<close>

definition stored :: "string \<Rightarrow> gsql \<Rightarrow> grow list \<Rightarrow> mrow list \<Rightarrow> bool" where
  "stored t s gs ms \<longleftrightarrow> gq_groups s t = Some gs \<and> gq_members s t = Some ms"

definition wrote :: "string \<Rightarrow> gsql \<Rightarrow> grow list \<Rightarrow> mrow list \<Rightarrow> gsql \<Rightarrow> bool" where
  "wrote t s gs ms s' \<longleftrightarrow>
     gq_groups s' = (gq_groups s)(t \<mapsto> gs) \<and> gq_members s' = (gq_members s)(t \<mapsto> ms) \<and> gq_now s \<le> gq_now s'"

lemma wrote_stored: "wrote t s gs ms s' \<Longrightarrow> stored t s' gs ms"
  by (simp add: wrote_def stored_def)

lemma adv_wrote: "adv s s' \<Longrightarrow> stored t s gs ms \<Longrightarrow> wrote t s gs ms s'"
  by (simp add: adv_def wrote_def stored_def map_upd_triv)

lemma adv_refl [simp]: "adv s s"
  by (simp add: adv_def)

lemma adv_trans: "adv s s1 \<Longrightarrow> adv s1 s2 \<Longrightarrow> adv s s2"
  by (auto simp: adv_def)

lemma wrote_adv_left: "adv s s1 \<Longrightarrow> wrote t s1 gs ms s2 \<Longrightarrow> wrote t s gs ms s2"
  by (auto simp: adv_def wrote_def)

lemma wrote_adv_right: "wrote t s gs ms s1 \<Longrightarrow> adv s1 s2 \<Longrightarrow> wrote t s gs ms s2"
  by (auto simp: adv_def wrote_def)

text \<open>
  A transaction: its body's success is committed; its body's failure, or a failed begin or commit,
  leaves the tables as they were; a commit may also have happened although it is reported as failed.
\<close>

definition committed :: "(err \<Rightarrow> 'e) \<Rightarrow> gsql \<Rightarrow> ('e \<Rightarrow> bool) \<Rightarrow> ('a \<Rightarrow> gsql \<Rightarrow> bool) \<Rightarrow> 'e + 'a \<Rightarrow> gsql \<Rightarrow> bool" where
  "committed mk s E S r s' \<longleftrightarrow>
     (case r of
        Inr a \<Rightarrow> S a s'
      | Inl e \<Rightarrow> (gq_groups s' = gq_groups s \<and> gq_members s' = gq_members s \<and> (E e \<or> gq_events s \<noteq> [] \<and> (\<exists>x. e = mk x)))
               \<or> (gq_events s \<noteq> [] \<and> (\<exists>a x. e = mk x \<and> S a s')))"

lemma withImmediateConn_yields:
  assumes body: "\<And>s2. adv s s2 \<Longrightarrow>
      yields body (\<lambda>r s3. case r of Inl e \<Rightarrow> E e \<or> gq_events s \<noteq> [] \<and> (\<exists>x. e = mk x) | Inr a \<Rightarrow> S a s3 \<and> (gq_events s = [] \<longrightarrow> gq_events s3 = [])) s2"
    and later: "\<And>a s3 s4. S a s3 \<Longrightarrow> adv s3 s4 \<Longrightarrow> S a s4"
  shows "yields (withImmediateConn mk body) (committed mk s E S) s"
proof -
  obtain f1 s1 where n1: "next_event s = (f1, s1)" by fastforce
  obtain f2 s2 where n2: "next_event s1 = (f2, s2)" by fastforce
  note a1 = next_event_adv [OF n1] and a2 = next_event_adv [OF n2]
  have a: "adv s s2" and a': "adv s s1" using a1 a2 adv_trans by blast+
  have t1: "gq_groups s1 = gq_groups s" "gq_members s1 = gq_members s" using a' by (simp_all add: adv_def)
  have t2: "gq_groups s2 = gq_groups s" "gq_members s2 = gq_members s" using a by (simp_all add: adv_def)
  have e1: "gq_events s = [] \<Longrightarrow> f1 = Fine \<and> f2 = Fine" using a1 a2 a' by (auto simp: adv_def)
  obtain r3 s3 where b: "body s2 = (r3, s3)" by fastforce
  from yields_run [OF body [OF a] b] obtain r where r: "r3 = Val r"
    and post: "case r of Inl e \<Rightarrow> E e \<or> gq_events s \<noteq> [] \<and> (\<exists>x. e = mk x) | Inr a \<Rightarrow> S a s3 \<and> (gq_events s = [] \<longrightarrow> gq_events s3 = [])" by blast
  obtain f3 s4 where n3: "next_event s3 = (f3, s4)" by fastforce
  note a3 = next_event_adv [OF n3]
  have late: "S a s4" if "S a s3" for a using later [OF that] a3 by blast
  show ?thesis
  proof (cases "fault_err f1")
    case (Some x)
    then have "gq_events s \<noteq> []" using e1 by (auto simp: fault_err_def)
    then show ?thesis by (auto simp: yields_def withImmediateConn_def n1 Some committed_def t1)
  next
    case f1: None
    show ?thesis
    proof (cases "fault_err f2")
      case (Some x)
      then have "gq_events s \<noteq> []" using e1 by (auto simp: fault_err_def)
      then show ?thesis by (auto simp: yields_def withImmediateConn_def n1 n2 f1 Some committed_def t2)
    next
      case f2: None
      show ?thesis
      proof (cases r)
        case (Inl e)
        then show ?thesis using post
          by (simp add: yields_def withImmediateConn_def n1 n2 f1 f2 b r committed_def t2)
      next
        case (Inr x)
        have "gq_events s = [] \<Longrightarrow> f3 = Fine" using post a3 Inr by simp
        then show ?thesis using post late [of x] Inr
          by (cases f3) (auto simp: yields_def withImmediateConn_def n1 n2 f1 f2 b r n3 committed_def t2)
      qed
    qed
  qed
qed


section \<open>The invariant of the tables\<close>

text \<open>
  Primary keys, a group row for every member, and what a claim mark means: the group row is leased under
  exactly that epoch.
\<close>

definition tables_ok :: "grow list \<Rightarrow> mrow list \<Rightarrow> bool" where
  "tables_ok gs ms \<longleftrightarrow>
     distinct (map gw_key gs) \<and> distinct (map (\<lambda>m. (mw_key m, mw_id m)) ms)
     \<and> (\<forall>g\<in>set gs. (gw_locked_by g = None \<longleftrightarrow> gw_locked_at g = None))
     \<and> (\<forall>m\<in>set ms. \<exists>g\<in>set gs. gw_key g = mw_key m \<and> (case mw_claimed m of None \<Rightarrow> True | Some c \<Rightarrow> c = gw_epoch g \<and> gw_locked_by g \<noteq> None))"

lemma key_row_unique: "distinct (map gw_key gs) \<Longrightarrow> g \<in> set gs \<Longrightarrow> h \<in> set gs \<Longrightarrow> gw_key g = gw_key h \<Longrightarrow> g = h"
  by (metis distinct_map inj_onD)

lemma find_group:
  assumes "distinct (map gw_key gs)" "g \<in> set gs" "gw_key g = key"
  shows "find (is_group key) gs = Some g"
proof -
  obtain x where x: "find (is_group key) gs = Some x"
    using assms(2,3) by (cases "find (is_group key) gs") (auto simp: find_None_iff is_group_def)
  then have "x \<in> set gs" "gw_key x = key" by (auto simp: find_Some_iff is_group_def)
  with assms x show ?thesis using key_row_unique by fastforce
qed

lemma tables_okD:
  assumes "tables_ok gs ms"
  shows "distinct (map gw_key gs)" "distinct (map (\<lambda>m. (mw_key m, mw_id m)) ms)"
    and "g \<in> set gs \<Longrightarrow> gw_locked_by g = None \<longleftrightarrow> gw_locked_at g = None"
    and "m \<in> set ms \<Longrightarrow> \<exists>g\<in>set gs. gw_key g = mw_key m"
    and "m \<in> set ms \<Longrightarrow> mw_claimed m = Some c \<Longrightarrow> g \<in> set gs \<Longrightarrow> gw_key g = mw_key m \<Longrightarrow> c = gw_epoch g \<and> gw_locked_by g \<noteq> None"
proof -
  show "distinct (map gw_key gs)" "distinct (map (\<lambda>m. (mw_key m, mw_id m)) ms)"
    using assms by (simp_all add: tables_ok_def)
  show "g \<in> set gs \<Longrightarrow> gw_locked_by g = None \<longleftrightarrow> gw_locked_at g = None"
    using assms by (simp add: tables_ok_def)
  show "m \<in> set ms \<Longrightarrow> \<exists>g\<in>set gs. gw_key g = mw_key m"
    using assms by (auto simp: tables_ok_def)
  assume m: "m \<in> set ms" "mw_claimed m = Some c" "g \<in> set gs" "gw_key g = mw_key m"
  obtain h where "h \<in> set gs" "gw_key h = mw_key m"
      "case mw_claimed m of None \<Rightarrow> True | Some c \<Rightarrow> c = gw_epoch h \<and> gw_locked_by h \<noteq> None"
    using assms m(1) unfolding tables_ok_def by blast
  with m(2) have h: "h \<in> set gs" "gw_key h = mw_key m" "c = gw_epoch h" "gw_locked_by h \<noteq> None" by simp_all
  have "h = g" using h m assms key_row_unique [of gs h g] by (simp add: tables_ok_def)
  then show "c = gw_epoch g \<and> gw_locked_by g \<noteq> None" using h by simp
qed

lemma tables_okI:
  assumes "distinct (map gw_key gs)" "distinct (map (\<lambda>m. (mw_key m, mw_id m)) ms)"
    and "\<And>g. g \<in> set gs \<Longrightarrow> gw_locked_by g = None \<longleftrightarrow> gw_locked_at g = None"
    and "\<And>m. m \<in> set ms \<Longrightarrow> \<exists>g\<in>set gs. gw_key g = mw_key m \<and> (\<forall>c. mw_claimed m = Some c \<longrightarrow> c = gw_epoch g \<and> gw_locked_by g \<noteq> None)"
  shows "tables_ok gs ms"
  unfolding tables_ok_def
proof (intro conjI ballI)
  fix m assume "m \<in> set ms"
  from assms(4) [OF this] show "\<exists>g\<in>set gs. gw_key g = mw_key m \<and> (case mw_claimed m of None \<Rightarrow> True | Some c \<Rightarrow> c = gw_epoch g \<and> gw_locked_by g \<noteq> None)"
    by (auto split: option.splits)
qed (use assms(1-3) in auto)

text \<open>A claim takes the row of its key when it is free or its lease has run out.\<close>

definition claimed_groups :: "string \<Rightarrow> string \<Rightarrow> int \<Rightarrow> grow list \<Rightarrow> grow list" where
  "claimed_groups key by n gs =
     map (\<lambda>g. if gw_key g = key then g\<lparr>gw_epoch := gw_epoch g + 1, gw_locked_by := Some by, gw_locked_at := Some n\<rparr> else g) gs"

definition claimed_members :: "string \<Rightarrow> int \<Rightarrow> mrow list \<Rightarrow> mrow list" where
  "claimed_members key ep ms = map (\<lambda>m. if mw_key m = key then m\<lparr>mw_claimed := Some ep\<rparr> else m) ms"

lemma map_key_claimed [simp]: "map gw_key (claimed_groups key by n gs) = map gw_key gs"
  by (auto simp: claimed_groups_def)

lemma map_key_claimed_members [simp]:
  "map (\<lambda>m. (mw_key m, mw_id m)) (claimed_members key ep ms) = map (\<lambda>m. (mw_key m, mw_id m)) ms"
  by (auto simp: claimed_members_def)

lemma one_row_per_key: "distinct (map gw_key gs) \<Longrightarrow> g \<in> set gs \<Longrightarrow> length (filter (\<lambda>h. gw_key h = gw_key g) gs) = 1"
  by (induction gs) (auto simp: filter_empty_conv image_iff)

lemma take_lease_eq:
  assumes "distinct (map gw_key gs)" "g \<in> set gs" "takeable key ttl n g"
  shows "take_lease key by ttl n gs = (claimed_groups key by n gs, Inr 1)"
proof -
  have "takeable key ttl n h \<longleftrightarrow> gw_key h = key" if "h \<in> set gs" for h
    using key_row_unique [OF assms(1) that assms(2)] assms(3) by (auto simp: takeable_def is_group_def)
  then have "map (\<lambda>g. if takeable key ttl n g then g\<lparr>gw_epoch := gw_epoch g + 1, gw_locked_by := Some by, gw_locked_at := Some n\<rparr> else g) gs
        = claimed_groups key by n gs" and "filter (takeable key ttl n) gs = filter (\<lambda>h. gw_key h = gw_key g) gs"
    using assms(2,3) by (auto simp: claimed_groups_def intro!: filter_cong)
  moreover have "length (filter (\<lambda>h. gw_key h = gw_key g) gs) = 1"
    using assms(1,2) by (rule one_row_per_key)
  ultimately show ?thesis by (simp add: take_lease_def)
qed

lemma take_lease_none:
  assumes "\<And>g. g \<in> set gs \<Longrightarrow> \<not> takeable key ttl n g"
  shows "take_lease key by ttl n gs = (gs, Inr 0)"
  using assms by (simp add: take_lease_def filter_empty_conv cong: map_cong)

lemma tag_members_eq:
  assumes "tables_ok gs ms" "g \<in> set gs" "gw_key g = key"
  shows "tag_members key (gw_epoch g + 1) ms = (claimed_members key (gw_epoch g + 1) ms, ())"
proof -
  have "case mw_claimed m of None \<Rightarrow> True | Some c \<Rightarrow> c < gw_epoch g + 1"
    if "m \<in> set ms" "mw_key m = key" for m
    using tables_okD(5) [OF assms(1) that(1)] assms(2,3) that by (cases "mw_claimed m") auto
  then show ?thesis by (auto simp: tag_members_def claimed_members_def)
qed

lemma claim_keeps_ok:
  assumes ok: "tables_ok gs ms" and g: "g \<in> set gs" "gw_key g = key"
  shows "tables_ok (claimed_groups key by n gs) (claimed_members key (gw_epoch g + 1) ms)"
proof (rule tables_okI)
  fix m assume "m \<in> set (claimed_members key (gw_epoch g + 1) ms)"
  then obtain m0 where m0: "m0 \<in> set ms" "m = (if mw_key m0 = key then m0\<lparr>mw_claimed := Some (gw_epoch g + 1)\<rparr> else m0)"
    by (auto simp: claimed_members_def)
  obtain h where h: "h \<in> set gs" "gw_key h = mw_key m0" using tables_okD(4) [OF ok m0(1)] by blast
  have hg: "mw_key m0 = key \<Longrightarrow> h = g" using key_row_unique [OF tables_okD(1) [OF ok] h(1) g(1)] h g by simp
  define f where "f x = (if gw_key x = key then x\<lparr>gw_epoch := gw_epoch x + 1, gw_locked_by := Some by, gw_locked_at := Some n\<rparr> else x)" for x :: grow
  have "f h \<in> set (claimed_groups key by n gs)" using h(1) by (simp add: claimed_groups_def f_def)
  moreover have "gw_key (f h) = mw_key m \<and> (\<forall>c. mw_claimed m = Some c \<longrightarrow> c = gw_epoch (f h) \<and> gw_locked_by (f h) \<noteq> None)"
    using hg h tables_okD(5) [OF ok m0(1)] by (auto simp: f_def m0(2))
  ultimately show "\<exists>x\<in>set (claimed_groups key by n gs). gw_key x = mw_key m \<and> (\<forall>c. mw_claimed m = Some c \<longrightarrow> c = gw_epoch x \<and> gw_locked_by x \<noteq> None)"
    by blast
next
  fix x assume "x \<in> set (claimed_groups key by n gs)"
  then show "gw_locked_by x = None \<longleftrightarrow> gw_locked_at x = None"
    using tables_okD(3) [OF ok] by (auto simp: claimed_groups_def)
qed (use tables_okD(1,2) [OF ok] in simp_all)


section \<open>What the transactions do\<close>

text \<open>The result and the effect of a claim made at time \<open>n\<close>.\<close>

definition claim_result :: "string \<Rightarrow> grow \<Rightarrow> mrow list \<Rightarrow> ClaimedGroup" where
  "claim_result key g ms =
     \<lparr>cg_Rows = \<lparr>gr_Key = key, gr_CreatedAt = UnixMicro (gw_created g), gr_Members = select_rows key (\<lambda>_. True) ms\<rparr>,
      cg_Epoch = gw_epoch g + 1\<rparr>"

definition claim_effect ::
  "string \<Rightarrow> string \<Rightarrow> string \<Rightarrow> int \<Rightarrow> grow list \<Rightarrow> mrow list \<Rightarrow> gsql \<Rightarrow> ClaimedGroup option \<Rightarrow> gsql \<Rightarrow> bool" where
  "claim_effect t key by ttl gs ms s r s' \<longleftrightarrow>
     (\<exists>n. gq_now s \<le> n \<and> (gq_events s = [] \<longrightarrow> n = gq_now s) \<and>
        (case r of
           None \<Rightarrow> (\<forall>g\<in>set gs. \<not> takeable key ttl n g) \<and> wrote t s gs ms s'
         | Some c \<Rightarrow> \<exists>g\<in>set gs. takeable key ttl n g \<and> c = claim_result key g ms
                      \<and> wrote t s (claimed_groups key by n gs) (claimed_members key (gw_epoch g + 1) ms) s'))"

lemma insort_key_map: "(\<And>x. k (f x) = k x) \<Longrightarrow> insort_key k (f x) (map f xs) = map f (insort_key k x xs)"
  by (induction xs) auto

lemma sort_key_map: "(\<And>x. k (f x) = k x) \<Longrightarrow> sort_key k (map f xs) = map f (sort_key k xs)"
  by (induction xs) (auto simp: insort_key_map)

lemma select_claimed: "select_rows key (\<lambda>c. c = Some ep) (claimed_members key ep ms) = select_rows key (\<lambda>_. True) ms"
proof -
  define f where "f m = (if mw_key m = key then m\<lparr>mw_claimed := Some ep\<rparr> else m)" for m :: mrow
  have "filter (\<lambda>m. mw_claimed m = Some ep) (members_of key (map f ms)) = map f (members_of key ms)"
    by (induction ms) (auto simp: members_of_def f_def)
  moreover have "sort_key (\<lambda>m. (mw_seq m, mw_id m)) (map f xs) = map f (sort_key (\<lambda>m. (mw_seq m, mw_id m)) xs)" for xs
    by (rule sort_key_map) (simp add: f_def)
  moreover have "member_row (f m) = member_row m" for m by (simp add: f_def member_row_def)
  ultimately show ?thesis
    by (simp add: select_rows_def claimed_members_def f_def [symmetric])
qed

lemma claimed_group_found:
  assumes "distinct (map gw_key gs)" "g \<in> set gs" "gw_key g = key"
  shows "read_epoch key m (claimed_groups key by n gs) = (claimed_groups key by n gs, Inr (gw_epoch g + 1, gw_created g))"
proof -
  let ?g = "g\<lparr>gw_epoch := gw_epoch g + 1, gw_locked_by := Some by, gw_locked_at := Some n\<rparr>"
  have "?g \<in> set (claimed_groups key by n gs)" using assms(2,3) by (force simp: claimed_groups_def)
  from find_group [OF _ this, of key] assms show ?thesis by (simp add: read_epoch_def)
qed

text \<open>
  Inside a transaction that began in \<open>s0\<close>: the tables are now \<open>gs\<close> and \<open>ms\<close>, and without pending events the
  clock stands still.
\<close>

definition reached :: "string \<Rightarrow> gsql \<Rightarrow> grow list \<Rightarrow> mrow list \<Rightarrow> gsql \<Rightarrow> bool" where
  "reached t s0 gs ms s \<longleftrightarrow> wrote t s0 gs ms s \<and> (gq_events s0 = [] \<longrightarrow> gq_events s = [] \<and> gq_now s = gq_now s0)"

lemma reached_start: "stored t s0 gs ms \<Longrightarrow> adv s0 s \<Longrightarrow> reached t s0 gs ms s"
  by (auto simp: reached_def adv_wrote) (simp_all add: adv_def)

lemma reached_wrote: "reached t s0 gs ms s \<Longrightarrow> wrote t s0 gs ms s \<and> (gq_events s0 = [] \<longrightarrow> gq_events s = [])"
  by (simp add: reached_def)

lemma group_step:
  assumes at: "reached t s0 gs ms s"
    and "\<And>e s1. gq_events s0 \<noteq> [] \<Longrightarrow> Q (Inl (mk e)) s1"
    and "\<And>n gs' r s1. gq_now s0 \<le> n \<Longrightarrow> (gq_events s0 = [] \<Longrightarrow> n = gq_now s0) \<Longrightarrow> f n gs = (gs', r) \<Longrightarrow> reached t s0 gs' ms s1 \<Longrightarrow>
           Q (case r of Inl e \<Rightarrow> Inl (mk e) | Inr a \<Rightarrow> Inr a) s1"
  shows "yields (group_statement mk t f) Q s"
proof (rule group_statement_yields)
  show "gq_groups s t = Some gs" using at by (simp add: reached_def wrote_def)
next
  fix e s1 assume "gq_events s \<noteq> []"
  then have "gq_events s0 \<noteq> []" using at by (auto simp: reached_def)
  then show "Q (Inl (mk e)) s1" by (rule assms(2))
next
  fix s1 gs' r assume a: "adv s s1" and f: "f (gq_now s1) gs = (gs', r)"
  show "Q (case r of Inl e \<Rightarrow> Inl (mk e) | Inr a \<Rightarrow> Inr a) (s1\<lparr>gq_groups := (gq_groups s)(t \<mapsto> gs')\<rparr>)"
    by (rule assms(3) [OF _ _ f]) (use at a in \<open>auto simp: reached_def wrote_def adv_def\<close>)
qed

lemma member_step:
  assumes at: "reached t s0 gs ms s"
    and "\<And>e s1. gq_events s0 \<noteq> [] \<Longrightarrow> Q (Inl (mk e)) s1"
    and "\<And>ms' a s1. f ms = (ms', a) \<Longrightarrow> reached t s0 gs ms' s1 \<Longrightarrow> Q (Inr a) s1"
  shows "yields (member_statement mk t f) Q s"
proof (rule member_statement_yields)
  show "gq_members s t = Some ms" using at by (simp add: reached_def wrote_def)
next
  fix e s1 assume "gq_events s \<noteq> []"
  then have "gq_events s0 \<noteq> []" using at by (auto simp: reached_def)
  then show "Q (Inl (mk e)) s1" by (rule assms(2))
next
  fix s1 ms' a assume a: "adv s s1" and f: "f ms = (ms', a)"
  show "Q (Inr a) (s1\<lparr>gq_members := (gq_members s)(t \<mapsto> ms')\<rparr>)"
    by (rule assms(3) [OF f]) (use at a in \<open>auto simp: reached_def wrote_def adv_def\<close>)
qed

lemma claim_tail_yields:
  assumes ok: "tables_ok gs ms" and g: "g \<in> set gs" "gw_key g = key"
    and at: "reached t s0 (claimed_groups key by n gs) ms s"
  shows "yields (bindE (group_statement id t (read_epoch key)) (\<lambda>(newEpoch, created).
       bindE (member_statement id t (tag_members key newEpoch)) (\<lambda>_.
       bindE (member_statement id t (sqliteSelectMembers key (\<lambda>c. c = Some newEpoch))) (\<lambda>members.
         returnP (Inr (Some \<lparr>cg_Rows = \<lparr>gr_Key = key, gr_CreatedAt = UnixMicro created, gr_Members = members\<rparr>, cg_Epoch = newEpoch\<rparr>))))))
     (\<lambda>r s'. case r of Inl e \<Rightarrow> gq_events s0 \<noteq> []
        | Inr c \<Rightarrow> c = Some (claim_result key g ms) \<and> reached t s0 (claimed_groups key by n gs) (claimed_members key (gw_epoch g + 1) ms) s') s"
proof -
  have sel: "sqliteSelectMembers key (\<lambda>c. c = Some (gw_epoch g + 1)) (claimed_members key (gw_epoch g + 1) ms)
      = (claimed_members key (gw_epoch g + 1) ms, select_rows key (\<lambda>_. True) ms)"
    by (simp add: sqliteSelectMembers_def select_claimed)
  note found = claimed_group_found [OF tables_okD(1) [OF ok] g] and tag = tag_members_eq [OF ok g]
  show ?thesis
    unfolding yields_bindE
    apply (rule group_step [OF at], simp, clarsimp simp: found)
    apply (rule member_step, assumption, simp, clarsimp simp: tag)
    apply (rule member_step, assumption, simp, clarsimp simp: sel claim_result_def)
    done
qed

lemma claim_tx_yields:
  assumes ok: "tables_ok gs ms" and at: "reached t s0 gs ms s"
  shows "yields (sqlite_claim_tx t key by ttl)
     (\<lambda>r s'. case r of Inl e \<Rightarrow> gq_events s0 \<noteq> []
        | Inr c \<Rightarrow> claim_effect t key by (Microseconds ttl) gs ms s0 c s' \<and> (gq_events s0 = [] \<longrightarrow> gq_events s' = [])) s"
  unfolding sqlite_claim_tx_def yields_bindE
proof (rule group_step [OF at], goal_cases)
  case (1 e s1)
  then show ?case by simp
next
  case (2 n gs' r s1)
  show ?case
  proof (cases "\<exists>g\<in>set gs. takeable key (Microseconds ttl) n g")
    case False
    then have "gs' = gs \<and> r = Inr 0" using 2(3) take_lease_none by auto
    then show ?thesis using False 2 reached_wrote [OF 2(4)] by (auto simp: claim_effect_def)
  next
    case True
    then obtain g where g: "g \<in> set gs" "takeable key (Microseconds ttl) n g" by blast
    then have key: "gw_key g = key" by (simp add: takeable_def is_group_def)
    have r: "gs' = claimed_groups key by n gs" "r = Inr 1"
      using 2(3) take_lease_eq [OF tables_okD(1) [OF ok] g] by simp_all
    have "yields (bindE (group_statement id t (read_epoch key)) (\<lambda>(newEpoch, created).
       bindE (member_statement id t (tag_members key newEpoch)) (\<lambda>_.
       bindE (member_statement id t (sqliteSelectMembers key (\<lambda>c. c = Some newEpoch))) (\<lambda>members.
         returnP (Inr (Some \<lparr>cg_Rows = \<lparr>gr_Key = key, gr_CreatedAt = UnixMicro created, gr_Members = members\<rparr>, cg_Epoch = newEpoch\<rparr>))))))
      (\<lambda>r s'. case r of Inl e \<Rightarrow> gq_events s0 \<noteq> []
        | Inr c \<Rightarrow> claim_effect t key by (Microseconds ttl) gs ms s0 c s' \<and> (gq_events s0 = [] \<longrightarrow> gq_events s' = [])) s1"
      by (rule yields_mono [OF claim_tail_yields [OF ok g(1) key 2(4) [unfolded r(1)]]])
         (use g 2(1,2) in \<open>auto simp: claim_effect_def reached_def split: sum.splits\<close>)
    then show ?thesis by (simp add: r)
  qed
qed


text \<open>A settlement deletes the members claimed under its epoch; the row of the group goes with the last member.\<close>

definition unclaimed_by :: "string \<Rightarrow> int \<Rightarrow> mrow list \<Rightarrow> mrow list" where
  "unclaimed_by key ep ms = filter (\<lambda>m. \<not> claimed_under key ep m) ms"

definition settled_groups :: "string \<Rightarrow> string \<Rightarrow> int \<Rightarrow> int \<Rightarrow> mrow list \<Rightarrow> grow list \<Rightarrow> grow list" where
  "settled_groups key by ep n ms gs =
     (if members_of key ms \<noteq> []
      then map (\<lambda>g. if group_fenced key by ep g then g\<lparr>gw_locked_by := None, gw_locked_at := None, gw_created := n\<rparr> else g) gs
      else filter (\<lambda>g. \<not> group_fenced key by ep g) gs)"

definition settle_effect ::
  "string \<Rightarrow> string \<Rightarrow> string \<Rightarrow> int \<Rightarrow> grow list \<Rightarrow> mrow list \<Rightarrow> gsql \<Rightarrow> bool \<Rightarrow> gsql \<Rightarrow> bool" where
  "settle_effect t key by ep gs ms s applied s' \<longleftrightarrow>
     (if list_ex (is_group key) gs
      then (applied \<longleftrightarrow> list_ex (group_fenced key by ep) gs) \<and>
           (\<exists>n. gq_now s \<le> n \<and> wrote t s (settled_groups key by ep n (unclaimed_by key ep ms) gs) (unclaimed_by key ep ms) s')
      else \<not> applied \<and> wrote t s gs ms s')"

lemma settle_tx_step:
  assumes at: "reached t s0 gs ms s"
    and Q: "\<And>e s'. gq_events s0 \<noteq> [] \<Longrightarrow> Q (Inl e) s'"
      "\<And>s'. \<not> list_ex (is_group key) gs \<Longrightarrow> reached t s0 gs ms s' \<Longrightarrow> Q (Inr False) s'"
      "\<And>m a s'. list_ex (is_group key) gs \<Longrightarrow> gq_now s0 \<le> m \<Longrightarrow>
         reached t s0 (settled_groups key by ep m (unclaimed_by key ep ms) gs) (unclaimed_by key ep ms) s' \<Longrightarrow>
         a = list_ex (group_fenced key by ep) gs \<Longrightarrow> Q (Inr a) s'"
  shows "yields (sqlite_settle_tx t key by ep) Q s"
  unfolding sqlite_settle_tx_def yields_bindE
  apply (rule group_step [OF at], simp add: Q(1), clarsimp simp: sqliteGroupExists_def, thin_tac "gq_now s0 \<le> _")
  apply (intro conjI impI, rule Q(2), assumption+)
  apply (rule member_step, assumption, simp add: Q(1), clarsimp simp: delete_claimed_def unclaimed_by_def [symmetric])
  apply (rule member_step, assumption, simp add: Q(1), clarsimp simp: sqliteCountMembers_def)
  apply (intro conjI impI)
   apply (rule group_step, assumption, simp add: Q(1))
   apply (clarsimp simp: residual_group_def, rule Q(3), assumption+, simp add: settled_groups_def,
      (auto simp: list_ex_iff filter_empty_conv)[1])
  apply (rule group_step, assumption, simp add: Q(1))
  apply (clarsimp simp: delete_group_def, rule Q(3), assumption+, simp add: settled_groups_def,
      (auto simp: list_ex_iff filter_empty_conv)[1])
  done

lemma settle_tx_yields:
  assumes at: "reached t s0 gs ms s"
  shows "yields (sqlite_settle_tx t key by ep)
     (\<lambda>r s'. case r of Inl e \<Rightarrow> gq_events s0 \<noteq> []
        | Inr a \<Rightarrow> settle_effect t key by ep gs ms s0 a s' \<and> (gq_events s0 = [] \<longrightarrow> gq_events s' = [])) s"
  by (rule settle_tx_step [OF at]) (auto simp: settle_effect_def reached_def)

text \<open>An abandonment gives the members claimed under its epoch back.\<close>

definition untagged :: "string \<Rightarrow> int \<Rightarrow> mrow list \<Rightarrow> mrow list" where
  "untagged key ep ms = map (\<lambda>m. if claimed_under key ep m then m\<lparr>mw_claimed := None\<rparr> else m) ms"

definition freed_groups :: "string \<Rightarrow> string \<Rightarrow> int \<Rightarrow> grow list \<Rightarrow> grow list" where
  "freed_groups key by ep gs = map (\<lambda>g. if group_fenced key by ep g then g\<lparr>gw_locked_by := None, gw_locked_at := None\<rparr> else g) gs"

definition abandon_effect ::
  "string \<Rightarrow> string \<Rightarrow> string \<Rightarrow> int \<Rightarrow> grow list \<Rightarrow> mrow list \<Rightarrow> gsql \<Rightarrow> bool \<Rightarrow> gsql \<Rightarrow> bool" where
  "abandon_effect t key by ep gs ms s applied s' \<longleftrightarrow>
     (if list_ex (is_group key) gs
      then (applied \<longleftrightarrow> list_ex (group_fenced key by ep) gs) \<and> wrote t s (freed_groups key by ep gs) (untagged key ep ms) s'
      else \<not> applied \<and> wrote t s gs ms s')"

lemma abandon_tx_step:
  assumes at: "reached t s0 gs ms s"
    and Q: "\<And>e s'. gq_events s0 \<noteq> [] \<Longrightarrow> Q (Inl e) s'"
      "\<And>s'. \<not> list_ex (is_group key) gs \<Longrightarrow> reached t s0 gs ms s' \<Longrightarrow> Q (Inr False) s'"
      "\<And>a s'. list_ex (is_group key) gs \<Longrightarrow> reached t s0 (freed_groups key by ep gs) (untagged key ep ms) s' \<Longrightarrow>
         a = list_ex (group_fenced key by ep) gs \<Longrightarrow> Q (Inr a) s'"
  shows "yields (sqlite_abandon_tx t key by ep) Q s"
  unfolding sqlite_abandon_tx_def yields_bindE
  apply (rule group_step [OF at], simp add: Q(1), clarsimp simp: sqliteGroupExists_def)
  apply (intro conjI impI, rule Q(2), assumption+)
  apply (rule member_step, assumption, simp add: Q(1), clarsimp simp: untag_members_def untagged_def [symmetric])
  apply (rule group_step, assumption, simp add: Q(1))
  apply (clarsimp simp: free_group_def, rule Q(3), assumption+, simp add: freed_groups_def,
      auto simp: list_ex_iff filter_empty_conv)
  done

lemma abandon_tx_yields:
  assumes at: "reached t s0 gs ms s"
  shows "yields (sqlite_abandon_tx t key by ep)
     (\<lambda>r s'. case r of Inl e \<Rightarrow> gq_events s0 \<noteq> []
        | Inr a \<Rightarrow> abandon_effect t key by ep gs ms s0 a s' \<and> (gq_events s0 = [] \<longrightarrow> gq_events s' = [])) s"
  by (rule abandon_tx_step [OF at]) (auto simp: abandon_effect_def reached_def)

text \<open>Both keep the invariant, whoever calls them and with whatever epoch.\<close>

lemma fenced_epoch: "group_fenced key by ep g \<Longrightarrow> gw_key g = key \<and> gw_epoch g = ep"
  by (simp add: group_fenced_def is_group_def)

lemma settle_keeps_ok:
  assumes ok: "tables_ok gs ms"
  shows "tables_ok (settled_groups key by ep n (unclaimed_by key ep ms) gs) (unclaimed_by key ep ms)"
proof (rule tables_okI)
  let ?ms = "unclaimed_by key ep ms"
  let ?f = "\<lambda>g. if group_fenced key by ep g then g\<lparr>gw_locked_by := None, gw_locked_at := None, gw_created := n\<rparr> else g"
  have keys: "map gw_key (map ?f gs) = map gw_key gs" by simp
  show "distinct (map gw_key (settled_groups key by ep n ?ms gs))"
    using tables_okD(1) [OF ok] keys by (auto simp: settled_groups_def distinct_map_filter simp del: map_map)
  show "distinct (map (\<lambda>m. (mw_key m, mw_id m)) ?ms)"
    using tables_okD(2) [OF ok] by (simp add: unclaimed_by_def distinct_map_filter)
  show "gw_locked_by g = None \<longleftrightarrow> gw_locked_at g = None" if "g \<in> set (settled_groups key by ep n ?ms gs)" for g
    using that tables_okD(3) [OF ok] by (auto simp: settled_groups_def split: if_splits)
  fix m assume m: "m \<in> set ?ms"
  then have m0: "m \<in> set ms" "\<not> claimed_under key ep m" by (auto simp: unclaimed_by_def)
  obtain g where g: "g \<in> set gs" "gw_key g = mw_key m" using tables_okD(4) [OF ok m0(1)] by blast
  note c = tables_okD(5) [OF ok m0(1) _ g]
  show "\<exists>g\<in>set (settled_groups key by ep n ?ms gs). gw_key g = mw_key m \<and> (\<forall>c. mw_claimed m = Some c \<longrightarrow> c = gw_epoch g \<and> gw_locked_by g \<noteq> None)"
  proof (cases "group_fenced key by ep g")
    case True
    then have k: "mw_key m = key" "gw_epoch g = ep" using fenced_epoch g by auto
    then have "mw_claimed m = None" using m0(2) c by (cases "mw_claimed m") (auto simp: claimed_under_def)
    moreover have "members_of key ?ms \<noteq> []" using m k by (auto simp: members_of_def filter_empty_conv)
    moreover have "?f g \<in> set (map ?f gs)" using g(1) by simp
    ultimately show ?thesis using g(2) True by (intro bexI [of _ "?f g"]) (simp_all add: settled_groups_def)
  next
    case False
    then have "g \<in> set (settled_groups key by ep n ?ms gs)" using g(1) by (force simp: settled_groups_def)
    then show ?thesis using g c by blast
  qed
qed

lemma abandon_keeps_ok:
  assumes ok: "tables_ok gs ms"
  shows "tables_ok (freed_groups key by ep gs) (untagged key ep ms)"
proof (rule tables_okI)
  let ?f = "\<lambda>g. if group_fenced key by ep g then g\<lparr>gw_locked_by := None, gw_locked_at := None\<rparr> else g"
  have "map gw_key (map ?f gs) = map gw_key gs" by simp
  then show "distinct (map gw_key (freed_groups key by ep gs))"
    using tables_okD(1) [OF ok] by (simp add: freed_groups_def del: map_map)
  have "map (\<lambda>m. (mw_key m, mw_id m)) (untagged key ep ms) = map (\<lambda>m. (mw_key m, mw_id m)) ms" by (simp add: untagged_def)
  then show "distinct (map (\<lambda>m. (mw_key m, mw_id m)) (untagged key ep ms))" using tables_okD(2) [OF ok] by simp
  show "gw_locked_by g = None \<longleftrightarrow> gw_locked_at g = None" if "g \<in> set (freed_groups key by ep gs)" for g
    using that tables_okD(3) [OF ok] by (auto simp: freed_groups_def)
  fix m assume "m \<in> set (untagged key ep ms)"
  then obtain m0 where m0: "m0 \<in> set ms" "m = (if claimed_under key ep m0 then m0\<lparr>mw_claimed := None\<rparr> else m0)"
    by (auto simp: untagged_def)
  obtain g where g: "g \<in> set gs" "gw_key g = mw_key m0" using tables_okD(4) [OF ok m0(1)] by blast
  note c = tables_okD(5) [OF ok m0(1) _ g]
  have "?f g \<in> set (freed_groups key by ep gs)" using g(1) by (simp add: freed_groups_def)
  moreover have "gw_key (?f g) = mw_key m \<and> (\<forall>c. mw_claimed m = Some c \<longrightarrow> c = gw_epoch (?f g) \<and> gw_locked_by (?f g) \<noteq> None)"
    using c g(2) fenced_epoch [of key "by" ep g] by (cases "mw_claimed m0") (auto simp: m0(2) claimed_under_def)
  ultimately show "\<exists>g\<in>set (freed_groups key by ep gs). gw_key g = mw_key m \<and> (\<forall>c. mw_claimed m = Some c \<longrightarrow> c = gw_epoch g \<and> gw_locked_by g \<noteq> None)"
    by blast
qed


text \<open>An add makes sure of the group row, then stores the member unless its id is known or the group is full.\<close>

definition upserted :: "string \<Rightarrow> int \<Rightarrow> grow list \<Rightarrow> grow list" where
  "upserted key n gs = fst (upsert_group key n gs)"

definition new_member :: "string \<Rightarrow> string \<Rightarrow> int \<Rightarrow> string \<Rightarrow> string \<Rightarrow> mrow" where
  "new_member key mid seq h p = \<lparr>mw_key = key, mw_id = mid, mw_seq = seq, mw_headers = h, mw_payload = p, mw_claimed = None\<rparr>"

definition snapshot :: "string \<Rightarrow> grow \<Rightarrow> mrow list \<Rightarrow> GroupRows" where
  "snapshot key g ms = \<lparr>gr_Key = key, gr_CreatedAt = UnixMicro (gw_created g), gr_Members = select_rows key live ms\<rparr>"

definition add_effect ::
  "string \<Rightarrow> string \<Rightarrow> mrow \<Rightarrow> int \<Rightarrow> grow list \<Rightarrow> mrow list \<Rightarrow> gsql \<Rightarrow> GroupRows \<Rightarrow> gsql \<Rightarrow> bool" where
  "add_effect t key m maxm gs ms s rows s' \<longleftrightarrow>
     (\<exists>n g. gq_now s \<le> n \<and> g \<in> set (upserted key n gs) \<and> gw_key g = key \<and>
        (if list_ex (is_member key (mw_id m)) ms
         then rows = snapshot key g ms \<and> wrote t s (upserted key n gs) ms s'
         else (maxm = UnboundedGroupMembers \<or> int (length (members_of key ms)) < maxm)
              \<and> rows = snapshot key g (ms @ [m]) \<and> wrote t s (upserted key n gs) (ms @ [m]) s'))"

text \<open>The refusal of a member: permanent exactly when no live lease will drain the group.\<close>

definition add_refused :: "string \<Rightarrow> string \<Rightarrow> int \<Rightarrow> int \<Rightarrow> grow list \<Rightarrow> mrow list \<Rightarrow> gsql \<Rightarrow> GroupRows \<times> err \<Rightarrow> bool" where
  "add_refused key mid maxm ttl gs ms s r \<longleftrightarrow>
     (\<exists>n k g. gq_now s \<le> n \<and> gq_now s \<le> k \<and> (gq_events s = [] \<longrightarrow> k = gq_now s) \<and> g \<in> set (upserted key n gs) \<and> gw_key g = key \<and>
        \<not> list_ex (is_member key mid) ms \<and> maxm \<noteq> UnboundedGroupMembers \<and> maxm \<le> int (length (members_of key ms)) \<and>
        r = (snapshot key g ms, groupOverflow key (int (length (members_of key ms)) + 1) maxm (lease_live k ttl g)))"

lemma upserted_row:
  assumes "distinct (map gw_key gs)"
  obtains g where "g \<in> set (upserted key n gs)" "gw_key g = key" "find (is_group key) (upserted key n gs) = Some g"
proof -
  have d: "distinct (map gw_key (upserted key n gs))"
    using assms by (auto simp: upserted_def upsert_group_def list_ex_iff is_group_def)
  have "\<exists>g\<in>set (upserted key n gs). gw_key g = key"
    by (auto simp: upserted_def upsert_group_def list_ex_iff is_group_def)
  then show thesis using that find_group [OF d] by blast
qed

lemma without_new_member:
  assumes "\<not> list_ex (is_member key mid) ms"
  shows "withoutMember (select_rows key live (ms @ [new_member key mid seq h p])) mid = select_rows key live ms"
proof -
  let ?k = "\<lambda>m. (mw_seq m, mw_id m)"
  let ?xs = "filter (\<lambda>m. mw_claimed m = None) (members_of key ms)"
  have old: "mw_id m \<noteq> mid" if "m \<in> set ?xs" for m
    using assms that by (auto simp: list_ex_iff is_member_def members_of_def)
  have "filter (\<lambda>m. mw_id m \<noteq> mid) (sort_key ?k (?xs @ [new_member key mid seq h p]))
      = sort_key ?k (filter (\<lambda>m. mw_id m \<noteq> mid) (?xs @ [new_member key mid seq h p]))"
    by (rule filter_sort)
  also have "\<dots> = sort_key ?k ?xs" using old filter_True [of ?xs "\<lambda>m. mw_id m \<noteq> mid"] by (simp only: new_member_def filter_append) simp
  finally show ?thesis
    by (simp add: withoutMember_def select_rows_def members_of_def new_member_def filter_map comp_def member_row_def)
qed


lemma add_keeps_ok:
  assumes ok: "tables_ok gs ms"
  shows "tables_ok (upserted key n gs) ms"
    and "\<not> list_ex (is_member key mid) ms \<Longrightarrow> tables_ok (upserted key n gs) (ms @ [new_member key mid seq h p])"
proof -
  have d: "distinct (map gw_key (upserted key n gs))"
    using tables_okD(1) [OF ok] by (auto simp: upserted_def upsert_group_def list_ex_iff is_group_def)
  have lock: "gw_locked_by g = None \<longleftrightarrow> gw_locked_at g = None" if "g \<in> set (upserted key n gs)" for g
    using that tables_okD(3) [OF ok] by (auto simp: upserted_def upsert_group_def split: if_splits)
  have mem: "\<exists>g\<in>set (upserted key n gs). gw_key g = mw_key m \<and> (\<forall>c. mw_claimed m = Some c \<longrightarrow> c = gw_epoch g \<and> gw_locked_by g \<noteq> None)"
    if m: "m \<in> set ms" for m
  proof -
    obtain g where g: "g \<in> set gs" "gw_key g = mw_key m" using tables_okD(4) [OF ok m] by blast
    then show ?thesis using tables_okD(5) [OF ok m _ g]
      by (intro bexI [of _ g]) (auto simp: upserted_def upsert_group_def)
  qed
  show "tables_ok (upserted key n gs) ms" using d tables_okD(2) [OF ok] lock mem by (rule tables_okI)
  assume new: "\<not> list_ex (is_member key mid) ms"
  obtain g where g: "g \<in> set (upserted key n gs)" "gw_key g = key" by (rule upserted_row [OF tables_okD(1) [OF ok]])
  show "tables_ok (upserted key n gs) (ms @ [new_member key mid seq h p])"
  proof (rule tables_okI [OF d _ lock])
    show "distinct (map (\<lambda>m. (mw_key m, mw_id m)) (ms @ [new_member key mid seq h p]))"
      using tables_okD(2) [OF ok] new by (auto simp: new_member_def list_ex_iff is_member_def)
    fix m assume "m \<in> set (ms @ [new_member key mid seq h p])"
    then show "\<exists>g\<in>set (upserted key n gs). gw_key g = mw_key m \<and> (\<forall>c. mw_claimed m = Some c \<longrightarrow> c = gw_epoch g \<and> gw_locked_by g \<noteq> None)"
      using mem g by (auto simp: new_member_def)
  qed
qed

lemma add_tail_step:
  assumes at: "reached t s0 gs ms s"
    and Q: "\<And>e s'. gq_events s0 \<noteq> [] \<Longrightarrow> Q (Inl (noGroupRows, e)) s'"
      "\<And>s'. \<not> list_ex (is_member key mid) ms \<Longrightarrow> maxm \<noteq> UnboundedGroupMembers \<Longrightarrow> maxm \<le> int (length (members_of key ms)) \<Longrightarrow>
         Q (Inl (snapshot key g ms, groupOverflow key (int (length (members_of key ms)) + 1) maxm ll)) s'"
      "\<And>s'. list_ex (is_member key mid) ms \<Longrightarrow> reached t s0 gs ms s' \<Longrightarrow> Q (Inr (snapshot key g ms)) s'"
      "\<And>s'. \<not> list_ex (is_member key mid) ms \<Longrightarrow> maxm = UnboundedGroupMembers \<or> int (length (members_of key ms)) < maxm \<Longrightarrow>
         reached t s0 gs (ms @ [new_member key mid seq h p]) s' \<Longrightarrow> Q (Inr (snapshot key g (ms @ [new_member key mid seq h p]))) s'"
  shows "yields (bindE (member_statement (Pair noGroupRows) t (insert_member key mid seq h p)) (\<lambda>inserted.
      bindE (if inserted > 0 \<and> maxm \<noteq> UnboundedGroupMembers
             then bindE (member_statement (Pair noGroupRows) t (sqliteCountMembers key)) (\<lambda>n.
                    returnP (Inr (if n > maxm then Some (groupOverflow key n maxm ll) else None)))
             else returnP (Inr None)) (\<lambda>overflowErr.
      bindE (member_statement (Pair noGroupRows) t (sqliteSelectMembers key live)) (\<lambda>members.
        case overflowErr of
             Some e \<Rightarrow> returnP (Inl (\<lparr>gr_Key = key, gr_CreatedAt = UnixMicro (gw_created g), gr_Members = withoutMember members mid\<rparr>, e))
           | None \<Rightarrow> returnP (Inr \<lparr>gr_Key = key, gr_CreatedAt = UnixMicro (gw_created g), gr_Members = members\<rparr>))))) Q s"
proof (cases "list_ex (is_member key mid) ms")
  case True
  then have ins: "insert_member key mid seq h p ms = (ms, 0)" by (simp add: insert_member_def)
  show ?thesis
    unfolding yields_bindE
    apply (rule member_step [OF at], simp add: Q(1), clarsimp simp: ins)
    apply (rule member_step, assumption, simp add: Q(1), clarsimp simp: sqliteSelectMembers_def)
    apply (rule Q(3) [OF True, unfolded snapshot_def], assumption)
    done
next
  case False
  let ?m = "new_member key mid seq h p"
  have ins: "insert_member key mid seq h p ms = (ms @ [?m], 1)" using False by (simp add: insert_member_def new_member_def)
  have count: "int (length (members_of key (ms @ [?m]))) = int (length (members_of key ms)) + 1"
    by (simp add: members_of_def new_member_def)
  note refuse = Q(2) [OF False, unfolded snapshot_def] and store = Q(4) [OF False, unfolded snapshot_def]
  show ?thesis
  proof (cases "maxm = UnboundedGroupMembers")
    case True
    show ?thesis
      unfolding yields_bindE
      apply (rule member_step [OF at], simp add: Q(1), clarsimp simp: ins True)
      apply (rule member_step, assumption, simp add: Q(1), clarsimp simp: sqliteSelectMembers_def)
      apply (rule store, simp add: True, assumption)
      done
  next
    case bound: False
    show ?thesis
      unfolding yields_bindE
      apply (rule member_step [OF at], simp add: Q(1), clarsimp simp: ins bound)
      apply (rule member_step, assumption, simp add: Q(1), clarsimp simp: sqliteCountMembers_def count simp del: of_nat_Suc split del: if_split)
      apply (rule member_step, assumption, simp add: Q(1), clarsimp simp: sqliteSelectMembers_def without_new_member [OF False] split del: if_split)
      apply (cases "maxm \<le> int (length (members_of key ms))")
       apply (simp add: without_new_member [OF False], rule refuse [OF bound], assumption)
      apply (simp, rule store, simp, assumption)
      done
  qed
qed

lemma add_tx_step:
  assumes ok: "tables_ok gs ms" and at: "reached t s0 gs ms s"
    and Q: "\<And>e s'. gq_events s0 \<noteq> [] \<Longrightarrow> Q (Inl (noGroupRows, e)) s'"
      "\<And>re s'. add_refused key mid maxm (Microseconds ttl) gs ms s0 re \<Longrightarrow> Q (Inl re) s'"
      "\<And>rows s'. add_effect t key (new_member key mid seq h p) maxm gs ms s0 rows s' \<Longrightarrow> (gq_events s0 = [] \<longrightarrow> gq_events s' = []) \<Longrightarrow> Q (Inr rows) s'"
  shows "yields (sqlite_add_tx t key mid seq h p maxm ttl) Q s"
  unfolding sqlite_add_tx_def Let_def
proof (subst yields_bindE, rule group_step [OF at], goal_cases)
  case (1 e s1)
  then show ?case by (simp add: Q(1))
next
  case (2 n gs' r s1)
  then have r: "gs' = upserted key n gs" "r = Inr ()" by (auto simp: upserted_def upsert_group_def)
  obtain g where g: "g \<in> set (upserted key n gs)" "gw_key g = key" "find (is_group key) (upserted key n gs) = Some g"
    by (rule upserted_row [OF tables_okD(1) [OF ok]])
  have n: "gq_now s0 \<le> n" by (rule 2)
  show ?case
    unfolding r sum.case
  proof (subst yields_bindE, rule group_step [OF 2(4) [unfolded r]], goal_cases)
    case (1 e s2)
    then show ?case by (simp add: Q(1))
  next
    case (2 k gs2 r2 s2)
    then have r2: "gs2 = upserted key n gs" "r2 = Inr (gw_created g, lease_live k (Microseconds ttl) g)"
      by (auto simp: read_group_def g(3))
    show ?case
      unfolding r2 sum.case prod.case
    proof (rule add_tail_step [OF 2(4) [unfolded r2]], goal_cases)
      case (1 e s')
      then show ?case by (rule Q(1))
    next
      case (2 s')
      then show ?case using n g \<open>gq_now s0 \<le> k\<close> \<open>gq_events s0 = [] \<Longrightarrow> k = gq_now s0\<close>
        by (intro Q(2)) (auto simp: add_refused_def)
    next
      case (3 s')
      then show ?case using n g by (intro Q(3)) (auto simp: add_effect_def reached_def new_member_def)
    next
      case (4 s')
      then show ?case using n g by (intro Q(3)) (auto simp: add_effect_def reached_def new_member_def)
    qed
  qed
qed

section \<open>The operations\<close>

lemma claim_effect_later: "claim_effect t key by ttl gs ms s c s1 \<Longrightarrow> adv s1 s2 \<Longrightarrow> claim_effect t key by ttl gs ms s c s2"
  using wrote_adv_right by (cases c) (simp_all add: claim_effect_def, blast+)

lemma settle_effect_later: "settle_effect t key by ep gs ms s a s1 \<Longrightarrow> adv s1 s2 \<Longrightarrow> settle_effect t key by ep gs ms s a s2"
  by (auto simp: settle_effect_def split: if_splits intro: wrote_adv_right)

lemma abandon_effect_later: "abandon_effect t key by ep gs ms s a s1 \<Longrightarrow> adv s1 s2 \<Longrightarrow> abandon_effect t key by ep gs ms s a s2"
  by (auto simp: abandon_effect_def wrote_adv_right split: if_splits)

lemma add_effect_later: "add_effect t key m k gs ms s rows s1 \<Longrightarrow> adv s1 s2 \<Longrightarrow> add_effect t key m k gs ms s rows s2"
  by (cases "list_ex (is_member key (mw_id m)) ms") (auto simp: add_effect_def intro: wrote_adv_right)

text \<open>A transaction whose body can only fail with its statements.\<close>

lemma immediate_tx:
  assumes "\<And>s2. adv s s2 \<Longrightarrow> yields body (\<lambda>r s3. case r of Inl e \<Rightarrow> gq_events s \<noteq> []
      | Inr a \<Rightarrow> S a s3 \<and> (gq_events s = [] \<longrightarrow> gq_events s3 = [])) s2"
    and "\<And>a s3 s4. S a s3 \<Longrightarrow> adv s3 s4 \<Longrightarrow> S a s4"
  shows "yields (withImmediateConn id body) (committed id s (\<lambda>_. False) S) s"
  by (rule withImmediateConn_yields [OF yields_mono [OF assms(1)] assms(2)]) (auto split: sum.splits)

lemma ClaimGroup_yields:
  assumes "ValidateIdent t = None" "stored t s gs ms" "tables_ok gs ms"
  shows "yields (sqlite_ClaimGroup ctx q t key by ttl) (committed id s (\<lambda>_. False) (claim_effect t key by (Microseconds ttl) gs ms s)) s"
  unfolding sqlite_ClaimGroup_def assms(1) option.case
  by (rule immediate_tx [OF claim_tx_yields [OF assms(3) reached_start [OF assms(2)]] claim_effect_later])

lemma SettleGroup_yields:
  assumes "ValidateIdent t = None" "stored t s gs ms"
  shows "yields (sqlite_SettleGroup ctx q t key by ep) (committed id s (\<lambda>_. False) (settle_effect t key by ep gs ms s)) s"
  unfolding sqlite_SettleGroup_def assms(1) option.case
  by (rule immediate_tx [OF settle_tx_yields [OF reached_start [OF assms(2)]] settle_effect_later])

lemma AbandonGroup_yields:
  assumes "ValidateIdent t = None" "stored t s gs ms"
  shows "yields (sqlite_AbandonGroup ctx q t key by ep) (committed id s (\<lambda>_. False) (abandon_effect t key by ep gs ms s)) s"
  unfolding sqlite_AbandonGroup_def assms(1) option.case
  by (rule immediate_tx [OF abandon_tx_yields [OF reached_start [OF assms(2)]] abandon_effect_later])

lemma AddMember_yields:
  assumes "ValidateIdent t = None" "stored t s gs ms" "tables_ok gs ms" "mid \<noteq> ''''" "ValidateMaxMembers groupOverflowSite maxm = None"
  shows "yields (sqlite_AddMember ctx q t key mid seq h p maxm ttl)
     (\<lambda>(rows, e) s'. committed (Pair noGroupRows) s (add_refused key mid maxm (Microseconds ttl) gs ms s)
        (add_effect t key (new_member key mid seq h p) maxm gs ms s)
        (case e of None \<Rightarrow> Inr rows | Some x \<Rightarrow> Inl (rows, x)) s') s"
proof -
  have "yields (withImmediateConn (Pair noGroupRows) (sqlite_add_tx t key mid seq h p maxm ttl))
     (committed (Pair noGroupRows) s (add_refused key mid maxm (Microseconds ttl) gs ms s)
        (add_effect t key (new_member key mid seq h p) maxm gs ms s)) s"
  proof (rule withImmediateConn_yields)
    fix s2 assume "adv s s2"
    note at = reached_start [OF assms(2) this]
    show "yields (sqlite_add_tx t key mid seq h p maxm ttl)
      (\<lambda>r s3. case r of Inl e \<Rightarrow> add_refused key mid maxm (Microseconds ttl) gs ms s e \<or> gq_events s \<noteq> [] \<and> (\<exists>x. e = Pair noGroupRows x)
         | Inr a \<Rightarrow> add_effect t key (new_member key mid seq h p) maxm gs ms s a s3 \<and> (gq_events s = [] \<longrightarrow> gq_events s3 = [])) s2"
      by (rule add_tx_step [OF assms(3) at]) auto
  qed (rule add_effect_later)
  then show ?thesis
    unfolding sqlite_AddMember_def
    by (simp add: assms) (erule yields_mono, auto split: sum.splits)
qed


text \<open>
  \<open>ExpiredGroups\<close> reads without a transaction; here no other worker writes between its reads, so its members
  are those of one state.
\<close>

definition expired_result :: "(grow list \<Rightarrow> grow list) \<Rightarrow> int \<Rightarrow> time \<Rightarrow> int \<Rightarrow> int \<Rightarrow> grow list \<Rightarrow> mrow list \<Rightarrow> GroupRows list" where
  "expired_result ord ttl before limit n gs ms =
     map (\<lambda>g. snapshot (gw_key g) g ms) (sql_limit limit (sort_key gw_created (filter (expired_group ttl before n) (ord gs))))"

lemma expired_rows_yields:
  assumes "gq_members s t = Some ms"
  shows "yields (expired_rows t cs) (\<lambda>r s'. adv s s' \<and>
     (case r of Inl e \<Rightarrow> gq_events s \<noteq> []
      | Inr rows \<Rightarrow> rows = map (\<lambda>(k, c). \<lparr>gr_Key = k, gr_CreatedAt = UnixMicro c, gr_Members = select_rows k live ms\<rparr>) cs)) s"
  using assms
proof (induction cs arbitrary: s)
  case Nil
  then show ?case by simp
next
  case (Cons c cs)
  obtain k d where c: "c = (k, d)" by fastforce
  show ?case
    unfolding c expired_rows.simps
  proof (subst yields_bindE, rule member_statement_yields [OF Cons.prems], goal_cases)
    case (1 e s1)
    then show ?case by simp
  next
    case (2 s1 ms' a)
    then have r: "ms' = ms" "a = select_rows k live ms" by (auto simp: sqliteSelectMembers_def)
    have s1: "s1\<lparr>gq_members := (gq_members s)(t \<mapsto> ms)\<rparr> = s1" using 2(1) Cons.prems by (simp add: adv_def map_upd_triv)
    have m1: "gq_members s1 t = Some ms" using 2(1) Cons.prems by (simp add: adv_def)
    show ?case
      unfolding r s1 sum.case yields_bindE
      by (rule yields_mono [OF Cons.IH [OF m1]])
         (use 2(1) in \<open>auto simp: adv_def split: sum.splits\<close>)
  qed
qed

lemma ExpiredGroups_yields:
  assumes "ValidateIdent t = None" "stored t s gs ms"
  shows "yields (sqlite_ExpiredGroups ctx q t before ttl limit) (\<lambda>r s'. adv s s' \<and>
     (case r of Inl e \<Rightarrow> gq_events s \<noteq> []
      | Inr rows \<Rightarrow> \<exists>n\<ge>gq_now s. rows = expired_result (visit_groups s) (Microseconds ttl) before limit n gs ms)) s"
proof -
  have "yields (bindE (group_statement id t (select_expired (visit_groups s) (Microseconds ttl) before limit)) (expired_rows t))
    (\<lambda>r s'. adv s s' \<and> (case r of Inl e \<Rightarrow> gq_events s \<noteq> []
      | Inr rows \<Rightarrow> \<exists>n\<ge>gq_now s. rows = expired_result (visit_groups s) (Microseconds ttl) before limit n gs ms)) s"
  proof (subst yields_bindE, rule group_statement_yields [where gs = gs], goal_cases)
    case 1
    show ?case using assms(2) by (simp add: stored_def)
  next
    case (2 e s1)
    then show ?case by simp
  next
    case (3 s1 gs' r)
    then have r: "gs' = gs" "r = Inr (map (\<lambda>g. (gw_key g, gw_created g)) (sql_limit limit (sort_key gw_created (filter (expired_group (Microseconds ttl) before (gq_now s1)) (visit_groups s gs)))))"
      by (auto simp: select_expired_def)
    have s1: "s1\<lparr>gq_groups := (gq_groups s)(t \<mapsto> gs)\<rparr> = s1" using 3(1) assms(2) by (simp add: adv_def stored_def map_upd_triv)
    have m1: "gq_members s1 t = Some ms" using 3(1) assms(2) by (simp add: adv_def stored_def)
    show ?case
      unfolding r s1 sum.case
      by (rule yields_mono [OF expired_rows_yields [OF m1]])
         (use 3(1) in \<open>auto simp: adv_def expired_result_def snapshot_def comp_def split: sum.splits\<close>)
  qed
  then show ?thesis by (simp add: yields_def sqlite_ExpiredGroups_def assms(1))
qed

section \<open>Runs\<close>

text \<open>Any worker's operation, with any arguments, and time passing with any failures ahead.\<close>

datatype group_op =
    AddOp mrow
  | ClaimOp string string
  | SettleOp string string int
  | AbandonOp string string int
  | OtherOp

inductive group_step :: "string \<Rightarrow> group_op \<Rightarrow> gsql \<Rightarrow> gsql \<Rightarrow> bool" for t :: string where
  add: "sqlite_AddMember ctx q t key mid seq h p maxm ttl s = (r, s') \<Longrightarrow> group_step t (AddOp (new_member key mid seq h p)) s s'"
| claim: "sqlite_ClaimGroup ctx q t key by ttl s = (r, s') \<Longrightarrow> group_step t (ClaimOp key by) s s'"
| settle: "sqlite_SettleGroup ctx q t key by ep s = (r, s') \<Longrightarrow> group_step t (SettleOp key by ep) s s'"
| abandon: "sqlite_AbandonGroup ctx q t key by ep s = (r, s') \<Longrightarrow> group_step t (AbandonOp key by ep) s s'"
| expired: "sqlite_ExpiredGroups ctx q t before ttl limit s = (r, s') \<Longrightarrow> group_step t OtherOp s s'"
| time: "group_step t OtherOp s (s\<lparr>gq_now := gq_now s + int d, gq_events := es, gq_order := ord\<rparr>)"

inductive_cases group_step_cases: "group_step t op s s'"

definition same_member :: "mrow \<Rightarrow> mrow \<Rightarrow> bool" where
  "same_member m m' \<longleftrightarrow> m' = m\<lparr>mw_claimed := mw_claimed m'\<rparr>"

text \<open>What one operation may do to the members: keep, mark, add the one it names, or delete the claimed ones it settles.\<close>

definition members_kept :: "group_op \<Rightarrow> mrow list \<Rightarrow> mrow list \<Rightarrow> bool" where
  "members_kept op ms ms' \<longleftrightarrow>
     (\<forall>m\<in>set ms. (\<exists>m'\<in>set ms'. same_member m m') \<or> (\<exists>by ep. op = SettleOp (mw_key m) by ep \<and> mw_claimed m = Some ep))
     \<and> (\<forall>m'\<in>set ms'. (\<exists>m\<in>set ms. same_member m m') \<or> op = AddOp m')"

lemma same_member_refl [simp]: "same_member m m"
  by (simp add: same_member_def)

lemma members_kept_refl [simp]: "members_kept op ms ms"
  unfolding members_kept_def using same_member_refl by blast

lemma members_kept_map: "(\<And>m. same_member m (f m)) \<Longrightarrow> members_kept op ms (map f ms)"
  by (auto simp: members_kept_def)

definition ok_after :: "string \<Rightarrow> group_op \<Rightarrow> mrow list \<Rightarrow> gsql \<Rightarrow> bool" where
  "ok_after t op ms s' \<longleftrightarrow> (\<exists>gs' ms'. stored t s' gs' ms' \<and> tables_ok gs' ms' \<and> members_kept op ms ms')"

lemma ok_after_unchanged:
  "stored t s gs ms \<Longrightarrow> tables_ok gs ms \<Longrightarrow> gq_groups s' = gq_groups s \<Longrightarrow> gq_members s' = gq_members s \<Longrightarrow> ok_after t op ms s'"
  by (auto simp: ok_after_def stored_def)

lemma ok_after_committed:
  assumes "stored t s gs ms" "tables_ok gs ms" "committed mk s E S r s'" "\<And>a. S a s' \<Longrightarrow> ok_after t op ms s'"
  shows "ok_after t op ms s'"
  using assms(3,4) ok_after_unchanged [OF assms(1,2)] by (auto simp: committed_def split: sum.splits)


lemma ok_afterI: "wrote t s gs' ms' s' \<Longrightarrow> tables_ok gs' ms' \<Longrightarrow> members_kept op ms ms' \<Longrightarrow> ok_after t op ms s'"
  unfolding ok_after_def using wrote_stored by blast

lemma claim_ok_after:
  assumes "tables_ok gs ms" "claim_effect t key by ttl gs ms s c s'"
  shows "ok_after t op ms s'"
proof (cases c)
  case None
  then show ?thesis using assms ok_afterI [of t s gs ms s'] by (auto simp: claim_effect_def)
next
  case (Some x)
  then obtain n g where g: "g \<in> set gs" "takeable key ttl n g"
    and w: "wrote t s (claimed_groups key by n gs) (claimed_members key (gw_epoch g + 1) ms) s'"
    using assms(2) by (auto simp: claim_effect_def)
  have "gw_key g = key" using g(2) by (simp add: takeable_def is_group_def)
  from ok_afterI [OF w claim_keeps_ok [OF assms(1) g(1) this]] show ?thesis
    by (simp add: claimed_members_def members_kept_map same_member_def)
qed

lemma settle_ok_after:
  assumes "tables_ok gs ms" "settle_effect t key by ep gs ms s a s'"
  shows "ok_after t (SettleOp key by ep) ms s'"
proof (cases "list_ex (is_group key) gs")
  case False
  then show ?thesis using assms ok_afterI [of t s gs ms s'] by (simp add: settle_effect_def)
next
  case True
  then obtain n where w: "wrote t s (settled_groups key by ep n (unclaimed_by key ep ms) gs) (unclaimed_by key ep ms) s'"
    using assms(2) by (auto simp: settle_effect_def)
  have "members_kept (SettleOp key by ep) ms (unclaimed_by key ep ms)"
    unfolding members_kept_def
    by (auto simp: unclaimed_by_def claimed_under_def intro: same_member_refl)
  with ok_afterI [OF w settle_keeps_ok [OF assms(1)]] show ?thesis by blast
qed

lemma abandon_ok_after:
  assumes "tables_ok gs ms" "abandon_effect t key by ep gs ms s a s'"
  shows "ok_after t op ms s'"
proof (cases "list_ex (is_group key) gs")
  case False
  then show ?thesis using assms ok_afterI [of t s gs ms s'] by (simp add: abandon_effect_def)
next
  case True
  then have w: "wrote t s (freed_groups key by ep gs) (untagged key ep ms) s'"
    using assms(2) by (auto simp: abandon_effect_def)
  from ok_afterI [OF w abandon_keeps_ok [OF assms(1)]] show ?thesis
    by (simp add: untagged_def members_kept_map same_member_def)
qed

lemma add_ok_after:
  assumes "tables_ok gs ms" "add_effect t key (new_member key mid seq h p) k gs ms s rows s'"
  shows "ok_after t (AddOp (new_member key mid seq h p)) ms s'"
proof (cases "list_ex (is_member key mid) ms")
  case True
  then obtain n where "wrote t s (upserted key n gs) ms s'"
    using assms(2) by (auto simp: add_effect_def new_member_def)
  from ok_afterI [OF this add_keeps_ok(1) [OF assms(1)]] show ?thesis by simp
next
  case False
  then obtain n where w: "wrote t s (upserted key n gs) (ms @ [new_member key mid seq h p]) s'"
    using assms(2) by (auto simp: add_effect_def new_member_def)
  have "members_kept (AddOp (new_member key mid seq h p)) ms (ms @ [new_member key mid seq h p])"
    unfolding members_kept_def by (auto intro: same_member_refl)
  with ok_afterI [OF w add_keeps_ok(2) [OF assms(1) False]] show ?thesis by blast
qed

lemma group_step_ok:
  assumes v: "ValidateIdent t = None" and st: "stored t s gs ms" and ok: "tables_ok gs ms" and step: "group_step t op s s'"
  shows "ok_after t op ms s'"
  using step
proof (cases rule: group_step.cases)
  case (add ctx q key mid seq h p maxm ttl r)
  show ?thesis
  proof (cases "mid = '''' \<or> ValidateMaxMembers groupOverflowSite maxm \<noteq> None")
    case True
    then have "s' = s" using add(2) by (auto simp: sqlite_AddMember_def returnP_def split: if_splits)
    then show ?thesis using ok_after_unchanged [OF st ok] by simp
  next
    case False
    then have "mid \<noteq> ''''" "ValidateMaxMembers groupOverflowSite maxm = None" by auto
    from yields_run [OF AddMember_yields [OF v st ok this] add(2)] obtain rows e where
      "committed (Pair noGroupRows) s (add_refused key mid maxm (Microseconds ttl) gs ms s)
        (add_effect t key (new_member key mid seq h p) maxm gs ms s) (case e of None \<Rightarrow> Inr rows | Some x \<Rightarrow> Inl (rows, x)) s'" by auto
    from ok_after_committed [OF st ok this] show ?thesis using add_ok_after [OF ok] add(1) by blast
  qed
next
  case (claim ctx q key "by" ttl r)
  from yields_run [OF ClaimGroup_yields [OF v st ok] claim(2)] obtain x where
    "committed id s (\<lambda>_. False) (claim_effect t key by (Microseconds ttl) gs ms s) x s'" by blast
  from ok_after_committed [OF st ok this] show ?thesis using claim_ok_after [OF ok] by blast
next
  case (settle ctx q key "by" ep r)
  from yields_run [OF SettleGroup_yields [OF v st] settle(2)] obtain x where
    "committed id s (\<lambda>_. False) (settle_effect t key by ep gs ms s) x s'" by blast
  from ok_after_committed [OF st ok this] show ?thesis using settle_ok_after [OF ok] settle(1) by blast
next
  case (abandon ctx q key "by" ep r)
  from yields_run [OF AbandonGroup_yields [OF v st] abandon(2)] obtain x where
    "committed id s (\<lambda>_. False) (abandon_effect t key by ep gs ms s) x s'" by blast
  from ok_after_committed [OF st ok this] show ?thesis using abandon_ok_after [OF ok] by blast
next
  case (expired ctx q before ttl limit r)
  from yields_run [OF ExpiredGroups_yields [OF v st] expired(2)] have "adv s s'" by blast
  then show ?thesis using ok_after_unchanged [OF st ok] by (simp add: adv_def)
next
  case (time d es ord)
  then show ?thesis using ok_after_unchanged [OF st ok] by simp
qed


inductive group_reach :: "string \<Rightarrow> gsql \<Rightarrow> bool" for t :: string where
  created: "stored t s [] [] \<Longrightarrow> group_reach t s"
| step: "group_reach t s \<Longrightarrow> group_step t op s s' \<Longrightarrow> group_reach t s'"

lemma group_reach_ok:
  assumes "group_reach t s" "ValidateIdent t = None"
  shows "\<exists>gs ms. stored t s gs ms \<and> tables_ok gs ms"
  using assms
proof (induction rule: group_reach.induct)
  case (created s)
  then show ?case by (intro exI [of _ "[]"]) (simp add: tables_ok_def)
next
  case (step s op s')
  then obtain gs ms where "stored t s gs ms" "tables_ok gs ms" by blast
  from group_step_ok [OF step.prems this step.hyps(2)] show ?case unfolding ok_after_def by blast
qed

text \<open>
  C31. In every state that any interleaving of the workers' operations reaches from the empty schema, statement,
  commit and connection failures included, both tables satisfy their invariant, and one more operation keeps
  every member row with its content unless it is a settlement of that row's group under the epoch the row is
  claimed with; it adds no row but the one an add names.
\<close>

theorem sqlite_group_ledger:
  assumes "ValidateIdent t = None" "group_reach t s" "group_step t op s s'"
  shows "\<exists>gs ms gs' ms'. stored t s gs ms \<and> tables_ok gs ms \<and> stored t s' gs' ms' \<and> tables_ok gs' ms' \<and>
     (\<forall>m\<in>set ms. (\<exists>m'\<in>set ms'. m' = m\<lparr>mw_claimed := mw_claimed m'\<rparr>)
        \<or> (\<exists>by ep. op = SettleOp (mw_key m) by ep \<and> mw_claimed m = Some ep)) \<and>
     (\<forall>m'\<in>set ms'. (\<exists>m\<in>set ms. m' = m\<lparr>mw_claimed := mw_claimed m'\<rparr>) \<or> op = AddOp m')"
proof -
  obtain gs ms where st: "stored t s gs ms" "tables_ok gs ms" using group_reach_ok assms by blast
  from group_step_ok [OF assms(1) st assms(3)] obtain gs' ms' where
    "stored t s' gs' ms'" "tables_ok gs' ms'" "members_kept op ms ms'" unfolding ok_after_def by blast
  with st show ?thesis unfolding members_kept_def same_member_def by blast
qed

definition demo_groups :: gsql where
  "demo_groups = \<lparr>gq_groups = [''agg'' \<mapsto> []], gq_members = [''agg'' \<mapsto> []], gq_now = 0, gq_events = [], gq_order = id\<rparr>"

definition demo_added :: gsql where
  "demo_added = snd (sqlite_AddMember undefined () ''agg'' ''k'' ''a'' 1 ''{}'' ''x'' 10 (5 * Minute) demo_groups)"

lemma agg_ident: "ValidateIdent ''agg'' = None"
  by code_simp

lemma demo_groups_reach: "group_reach ''agg'' demo_groups"
  by (rule group_reach.created) (simp add: stored_def demo_groups_def)

lemma demo_added_step: "group_step ''agg'' (AddOp (new_member ''k'' ''a'' 1 ''{}'' ''x'')) demo_groups demo_added"
  unfolding demo_added_def by (rule group_step.add) (rule prod.collapse [symmetric])

theorem sqlite_group_ledger_witness:
  "\<exists>gs ms gs' ms'. stored ''agg'' demo_groups gs ms \<and> tables_ok gs ms \<and> stored ''agg'' demo_added gs' ms' \<and> tables_ok gs' ms' \<and>
     (\<forall>m\<in>set ms. (\<exists>m'\<in>set ms'. m' = m\<lparr>mw_claimed := mw_claimed m'\<rparr>)
        \<or> (\<exists>by ep. AddOp (new_member ''k'' ''a'' 1 ''{}'' ''x'') = SettleOp (mw_key m) by ep \<and> mw_claimed m = Some ep)) \<and>
     (\<forall>m'\<in>set ms'. (\<exists>m\<in>set ms. m' = m\<lparr>mw_claimed := mw_claimed m'\<rparr>) \<or> AddOp (new_member ''k'' ''a'' 1 ''{}'' ''x'') = AddOp m')"
  by (rule sqlite_group_ledger [OF agg_ident demo_groups_reach demo_added_step])

text \<open>A claim that took the group row \<open>g\<close> at time \<open>n\<close>.\<close>

definition claim_taken ::
  "string \<Rightarrow> string \<Rightarrow> string \<Rightarrow> int \<Rightarrow> grow list \<Rightarrow> mrow list \<Rightarrow> gsql \<Rightarrow> ClaimedGroup \<Rightarrow> gsql \<Rightarrow> int \<Rightarrow> grow \<Rightarrow> bool" where
  "claim_taken t key by ttl gs ms s c s' n g \<longleftrightarrow>
     gq_now s \<le> n \<and> g \<in> set gs \<and> takeable key ttl n g
     \<and> c = \<lparr>cg_Rows = \<lparr>gr_Key = key, gr_CreatedAt = UnixMicro (gw_created g),
              gr_Members = map member_row (sort_key (\<lambda>m. (mw_seq m, mw_id m)) (members_of key ms))\<rparr>,
            cg_Epoch = gw_epoch g + 1\<rparr>
     \<and> wrote t s (claimed_groups key by n gs) (claimed_members key (gw_epoch g + 1) ms) s'
     \<and> (\<forall>k < n + ttl. \<forall>h\<in>set (claimed_groups key by n gs). \<not> takeable key ttl k h)"

lemma claimed_not_takeable: "h \<in> set (claimed_groups key by n gs) \<Longrightarrow> k < n + ttl \<Longrightarrow> \<not> takeable key ttl k h"
  unfolding claimed_groups_def takeable_def is_group_def by (induction gs) (auto split: if_splits)

lemma claim_effect_Some: "claim_effect t key by ttl gs ms s (Some c) s' \<Longrightarrow> \<exists>n g. claim_taken t key by ttl gs ms s c s' n g"
proof -
  assume "claim_effect t key by ttl gs ms s (Some c) s'"
  then obtain n g where "gq_now s \<le> n" "g \<in> set gs" "takeable key ttl n g" "c = claim_result key g ms"
      "wrote t s (claimed_groups key by n gs) (claimed_members key (gw_epoch g + 1) ms) s'"
    by (auto simp: claim_effect_def)
  then have "claim_taken t key by ttl gs ms s c s' n g"
    by (simp add: claim_taken_def claim_result_def select_rows_def claimed_not_takeable)
  then show ?thesis by blast
qed

lemma claim_effect_None:
  "claim_effect t key by ttl gs ms s None s' \<Longrightarrow> (\<exists>n\<ge>gq_now s. \<forall>g\<in>set gs. \<not> takeable key ttl n g) \<and> wrote t s gs ms s'"
  by (auto simp: claim_effect_def)

text \<open>
  A claim takes a group exactly when it is free or its lease has run out, and then takes all of its members,
  a dead holder's included, in sequence order and with their stored content, under the next epoch; nothing
  else changes, and nobody can take the group again before the lease has run out. Without a takeable group,
  and on every error but a lost commit reply, the tables are as they were; there is no error without a failing
  statement.
\<close>

theorem sqlite_claim_takes_all:
  assumes "ValidateIdent t = None" "stored t s gs ms" "tables_ok gs ms"
  shows "yields (sqlite_ClaimGroup ctx q t key by ttl) (\<lambda>r s'.
     case r of
       Inr None \<Rightarrow> (\<exists>n\<ge>gq_now s. \<forall>g\<in>set gs. \<not> takeable key (Microseconds ttl) n g) \<and> wrote t s gs ms s'
     | Inr (Some c) \<Rightarrow> \<exists>n g. claim_taken t key by (Microseconds ttl) gs ms s c s' n g
     | Inl e \<Rightarrow> gq_events s \<noteq> [] \<and>
         (gq_groups s' = gq_groups s \<and> gq_members s' = gq_members s
          \<or> (\<exists>n\<ge>gq_now s. \<forall>g\<in>set gs. \<not> takeable key (Microseconds ttl) n g) \<and> wrote t s gs ms s'
          \<or> (\<exists>c n g. claim_taken t key by (Microseconds ttl) gs ms s c s' n g))) s"
proof (rule yields_mono [OF ClaimGroup_yields [OF assms]], goal_cases)
  case (1 r s')
  show ?case
  proof (cases r)
    case (Inl e)
    then consider "gq_events s \<noteq> []" "gq_groups s' = gq_groups s" "gq_members s' = gq_members s"
      | a where "gq_events s \<noteq> []" "claim_effect t key by (Microseconds ttl) gs ms s a s'"
      using 1 by (auto simp: committed_def)
    then show ?thesis
    proof cases
      case (2 a)
      then show ?thesis using Inl by (cases a) (auto dest!: claim_effect_None claim_effect_Some)
    qed (simp add: Inl)
  next
    case (Inr c)
    then have "claim_effect t key by (Microseconds ttl) gs ms s c s'" using 1 by (simp add: committed_def)
    then show ?thesis using Inr by (cases c) (auto dest!: claim_effect_None claim_effect_Some)
  qed
qed

text \<open>A group leased to one worker, with a claimed member and a late arrival.\<close>

definition demo_gs :: "grow list" where
  "demo_gs = [\<lparr>gw_key = ''k'', gw_created = 0, gw_epoch = 1, gw_locked_by = Some ''w1'', gw_locked_at = Some 0\<rparr>]"

definition demo_ms :: "mrow list" where
  "demo_ms = [(new_member ''k'' ''a'' 1 ''{}'' ''x'')\<lparr>mw_claimed := Some 1\<rparr>, new_member ''k'' ''b'' 2 ''{}'' ''y'']"

definition demo_leased :: gsql where
  "demo_leased = demo_groups\<lparr>gq_groups := [''agg'' \<mapsto> demo_gs], gq_members := [''agg'' \<mapsto> demo_ms]\<rparr>"

lemma demo_leased_stored: "stored ''agg'' demo_leased demo_gs demo_ms"
  by (simp add: stored_def demo_leased_def)

lemma demo_leased_ok: "tables_ok demo_gs demo_ms"
  by (simp add: tables_ok_def demo_gs_def demo_ms_def new_member_def)

theorem sqlite_claim_takes_all_witness:
  "yields (sqlite_ClaimGroup undefined () ''agg'' ''k'' ''w2'' (5 * Minute)) (\<lambda>r s'.
     case r of
       Inr None \<Rightarrow> (\<exists>n\<ge>gq_now demo_leased. \<forall>g\<in>set demo_gs. \<not> takeable ''k'' (Microseconds (5 * Minute)) n g) \<and> wrote ''agg'' demo_leased demo_gs demo_ms s'
     | Inr (Some c) \<Rightarrow> \<exists>n g. claim_taken ''agg'' ''k'' ''w2'' (Microseconds (5 * Minute)) demo_gs demo_ms demo_leased c s' n g
     | Inl e \<Rightarrow> gq_events demo_leased \<noteq> [] \<and>
         (gq_groups s' = gq_groups demo_leased \<and> gq_members s' = gq_members demo_leased
          \<or> (\<exists>n\<ge>gq_now demo_leased. \<forall>g\<in>set demo_gs. \<not> takeable ''k'' (Microseconds (5 * Minute)) n g) \<and> wrote ''agg'' demo_leased demo_gs demo_ms s'
          \<or> (\<exists>c n g. claim_taken ''agg'' ''k'' ''w2'' (Microseconds (5 * Minute)) demo_gs demo_ms demo_leased c s' n g))) demo_leased"
  by (rule sqlite_claim_takes_all [OF agg_ident demo_leased_stored demo_leased_ok])

text \<open>
  The settlement of the group row's current holder: the row is there, leased to the caller under its epoch; the
  claimed members are gone, the late ones stay.
\<close>

definition settled_by_holder ::
  "string \<Rightarrow> string \<Rightarrow> string \<Rightarrow> int \<Rightarrow> grow list \<Rightarrow> mrow list \<Rightarrow> gsql \<Rightarrow> gsql \<Rightarrow> bool" where
  "settled_by_holder t key by ep gs ms s s' \<longleftrightarrow>
     (\<exists>g\<in>set gs. group_fenced key by ep g) \<and>
     (\<exists>gs'. wrote t s gs' (filter (\<lambda>m. \<not> (mw_key m = key \<and> mw_claimed m = Some ep)) ms) s'
        \<and> filter (\<lambda>g. gw_key g \<noteq> key) gs' = filter (\<lambda>g. gw_key g \<noteq> key) gs
        \<and> (if \<exists>m\<in>set ms. mw_key m = key \<and> mw_claimed m = None
           then \<exists>g\<in>set gs. \<exists>n\<ge>gq_now s. group_fenced key by ep g
                  \<and> filter (\<lambda>g. gw_key g = key) gs' = [g\<lparr>gw_locked_by := None, gw_locked_at := None, gw_created := n\<rparr>]
           else \<forall>g\<in>set gs'. gw_key g \<noteq> key))"

lemma left_members:
  assumes ok: "tables_ok gs ms" and g: "g \<in> set gs" "group_fenced key by ep g"
  shows "members_of key (unclaimed_by key ep ms) \<noteq> [] \<longleftrightarrow> (\<exists>m\<in>set ms. mw_key m = key \<and> mw_claimed m = None)"
proof -
  have "mw_claimed m = None \<longleftrightarrow> \<not> claimed_under key ep m" if "m \<in> set ms" "mw_key m = key" for m
    using tables_okD(5) [OF ok that(1) _ g(1)] fenced_epoch [OF g(2)] that by (cases "mw_claimed m") (auto simp: claimed_under_def)
  then show ?thesis by (simp add: members_of_def unclaimed_by_def filter_empty_conv) blast
qed

lemma one_row_filter: "distinct (map gw_key gs) \<Longrightarrow> g \<in> set gs \<Longrightarrow> filter (\<lambda>h. gw_key h = gw_key g) gs = [g]"
proof (induction gs)
  case (Cons a gs)
  then show ?case by (cases "a = g") (auto simp: filter_empty_conv image_iff)
qed simp

lemma settle_effect_applied:
  assumes ok: "tables_ok gs ms" and e: "settle_effect t key by ep gs ms s True s'"
  shows "settled_by_holder t key by ep gs ms s s'"
proof -
  obtain g where g: "g \<in> set gs" "group_fenced key by ep g"
    using e by (auto simp: settle_effect_def list_ex_iff split: if_splits)
  have k: "gw_key g = key" using fenced_epoch [OF g(2)] by simp
  obtain n where n: "gq_now s \<le> n"
    and w: "wrote t s (settled_groups key by ep n (unclaimed_by key ep ms) gs) (unclaimed_by key ep ms) s'"
    using e by (auto simp: settle_effect_def split: if_splits)
  have row: "group_fenced key by ep h \<longleftrightarrow> gw_key h = key" if "h \<in> set gs" for h
    using key_row_unique [OF tables_okD(1) [OF ok] that g(1)] k g(2) fenced_epoch by auto
  have ms: "unclaimed_by key ep ms = filter (\<lambda>m. \<not> (mw_key m = key \<and> mw_claimed m = Some ep)) ms"
    by (simp add: unclaimed_by_def claimed_under_def)
  let ?f = "\<lambda>g. if group_fenced key by ep g then g\<lparr>gw_locked_by := None, gw_locked_at := None, gw_created := n\<rparr> else g"
  have others: "filter (\<lambda>g. gw_key g \<noteq> key) (settled_groups key by ep n (unclaimed_by key ep ms) gs) = filter (\<lambda>g. gw_key g \<noteq> key) gs"
    using row by (induction gs) (auto simp: settled_groups_def)
  have kept: "filter (\<lambda>g. gw_key g = key) (map ?f gs) = [g\<lparr>gw_locked_by := None, gw_locked_at := None, gw_created := n\<rparr>]"
  proof -
    have "filter (\<lambda>g. gw_key g = key) (map ?f gs) = map ?f (filter (\<lambda>g. gw_key g = key) gs)" by (induction gs) auto
    also have "filter (\<lambda>g. gw_key g = key) gs = [g]" using one_row_filter [OF tables_okD(1) [OF ok] g(1)] k by simp
    finally show ?thesis using g(2) by simp
  qed
  note left = left_members [OF ok g]
  have "if \<exists>m\<in>set ms. mw_key m = key \<and> mw_claimed m = None
        then \<exists>g\<in>set gs. \<exists>n\<ge>gq_now s. group_fenced key by ep g \<and>
               filter (\<lambda>g. gw_key g = key) (settled_groups key by ep n' (unclaimed_by key ep ms) gs) = [g\<lparr>gw_locked_by := None, gw_locked_at := None, gw_created := n\<rparr>]
        else \<forall>g\<in>set (settled_groups key by ep n' (unclaimed_by key ep ms) gs). gw_key g \<noteq> key" if "n' = n" for n'
  proof (cases "\<exists>m\<in>set ms. mw_key m = key \<and> mw_claimed m = None")
    case True
    then show ?thesis using left kept g n that by (simp only: settled_groups_def if_True) blast
  next
    case False
    then show ?thesis using left row by (auto simp: settled_groups_def)
  qed
  from this [OF refl] w others g show ?thesis unfolding settled_by_holder_def ms by blast
qed

text \<open>
  C32. A settlement applies exactly when the caller holds the group under that epoch. Then it deletes exactly the
  members claimed under it, a member that arrived during the lease stays and becomes a fresh unleased
  group, and the group row goes when none is left; other groups are untouched. When it does not apply and
  the row, if any, carries another epoch, nothing changes, and on an error the tables are as they were unless
  only the reply of the commit was lost.
\<close>

theorem sqlite_settle_exact:
  assumes "ValidateIdent t = None" "stored t s gs ms" "tables_ok gs ms"
  shows "yields (sqlite_SettleGroup ctx q t key by ep) (\<lambda>r s'.
     case r of
       Inr True \<Rightarrow> settled_by_holder t key by ep gs ms s s'
     | Inr False \<Rightarrow> (\<forall>g\<in>set gs. \<not> group_fenced key by ep g)
                    \<and> ((\<forall>g\<in>set gs. gw_key g = key \<longrightarrow> gw_epoch g \<noteq> ep) \<longrightarrow> wrote t s gs ms s')
     | Inl e \<Rightarrow> gq_events s \<noteq> [] \<and>
         (gq_groups s' = gq_groups s \<and> gq_members s' = gq_members s \<or> (\<exists>a. settle_effect t key by ep gs ms s a s'))) s"
proof (rule yields_mono [OF SettleGroup_yields [OF assms(1,2)]], goal_cases)
  case (1 r s')
  have other: "wrote t s gs ms s'" if e: "settle_effect t key by ep gs ms s False s'" and ep: "\<forall>g\<in>set gs. gw_key g = key \<longrightarrow> gw_epoch g \<noteq> ep"
  proof (cases "list_ex (is_group key) gs")
    case True
    have "\<not> group_fenced key by ep g" if "g \<in> set gs" for g using ep that fenced_epoch by blast
    moreover have "unclaimed_by key ep ms = ms"
      unfolding unclaimed_by_def
    proof (rule filter_True, rule ballI, rule notI)
      fix m assume m: "m \<in> set ms" "claimed_under key ep m"
      obtain g where "g \<in> set gs" "gw_key g = mw_key m" using tables_okD(4) [OF assms(3) m(1)] by blast
      with tables_okD(5) [OF assms(3) m(1) _ this] m ep show False by (auto simp: claimed_under_def)
    qed
    ultimately have "settled_groups key by ep n (unclaimed_by key ep ms) gs = gs" for n
      by (simp add: settled_groups_def cong: map_cong)
    with e True \<open>unclaimed_by key ep ms = ms\<close> show ?thesis by (auto simp: settle_effect_def)
  qed (use e in \<open>simp add: settle_effect_def\<close>)
  show ?case
  proof (cases r)
    case (Inl e)
    then show ?thesis using 1 by (auto simp: committed_def)
  next
    case (Inr a)
    then have e: "settle_effect t key by ep gs ms s a s'" using 1 by (simp add: committed_def)
    have "\<not> a \<Longrightarrow> \<forall>g\<in>set gs. \<not> group_fenced key by ep g"
      using e by (auto simp: settle_effect_def list_ex_iff group_fenced_def split: if_splits)
    then show ?thesis using e Inr settle_effect_applied [OF assms(3)] other by (cases a) simp_all
  qed
qed

theorem sqlite_settle_exact_witness:
  "yields (sqlite_SettleGroup undefined () ''agg'' ''k'' ''w1'' 1) (\<lambda>r s'.
     case r of
       Inr True \<Rightarrow> settled_by_holder ''agg'' ''k'' ''w1'' 1 demo_gs demo_ms demo_leased s'
     | Inr False \<Rightarrow> (\<forall>g\<in>set demo_gs. \<not> group_fenced ''k'' ''w1'' 1 g)
                    \<and> ((\<forall>g\<in>set demo_gs. gw_key g = ''k'' \<longrightarrow> gw_epoch g \<noteq> 1) \<longrightarrow> wrote ''agg'' demo_leased demo_gs demo_ms s')
     | Inl e \<Rightarrow> gq_events demo_leased \<noteq> [] \<and>
         (gq_groups s' = gq_groups demo_leased \<and> gq_members s' = gq_members demo_leased
          \<or> (\<exists>a. settle_effect ''agg'' ''k'' ''w1'' 1 demo_gs demo_ms demo_leased a s'))) demo_leased"
  by (rule sqlite_settle_exact [OF agg_ident demo_leased_stored demo_leased_ok])

lemma upserted_live:
  assumes "distinct (map gw_key gs)" "g \<in> set (upserted key n gs)" "gw_key g = key"
  shows "(\<exists>g\<in>set gs. gw_key g = key \<and> lease_live k ttl g) \<longleftrightarrow> lease_live k ttl g"
proof (cases "list_ex (is_group key) gs")
  case True
  then have "g \<in> set gs" using assms(2) by (simp add: upserted_def upsert_group_def)
  then show ?thesis using key_row_unique [OF assms(1)] assms(3) by blast
next
  case False
  then have none: "\<not> (\<exists>g\<in>set gs. gw_key g = key)" by (auto simp: list_ex_iff is_group_def)
  then have "g = \<lparr>gw_key = key, gw_created = n, gw_epoch = 0, gw_locked_by = None, gw_locked_at = None\<rparr>"
    using assms(2,3) False by (auto simp: upserted_def upsert_group_def)
  then have "gw_locked_by g = None" by (cases g) simp
  with none show ?thesis by (auto simp: lease_live_def)
qed

lemma groupOverflow_class:
  "errors_Is (groupOverflow key n k l) ErrOverflowDropped" "IsPermanent (Some (groupOverflow key n k l)) \<longleftrightarrow> \<not> l"
  by (simp_all add: groupOverflow_def Let_def err_simps)

text \<open>
  An add to a group of a bounded store stores the member under its id or finds it stored already, in which
  case no member changes, and returns the live members, this one among them unless it is claimed; no group
  grows beyond the limit. A full group refuses a new member with an overflow error that is permanent
  exactly when no live lease will drain the group, together with the live members, and leaves the tables
  as they were, as does every other error but a lost commit reply.
\<close>

theorem sqlite_add_bounded:
  assumes "ValidateIdent t = None" "stored t s gs ms" "tables_ok gs ms" "mid \<noteq> ''''" "1 \<le> maxm" "maxm \<le> maxGroupMembersCeiling"
  shows "yields (sqlite_AddMember ctx q t key mid seq h p maxm ttl) (\<lambda>(rows, e) s'.
     case e of
       None \<Rightarrow> add_effect t key (new_member key mid seq h p) maxm gs ms s rows s'
     | Some x \<Rightarrow>
         (gq_groups s' = gq_groups s \<and> gq_members s' = gq_members s \<and>
            (add_refused key mid maxm (Microseconds ttl) gs ms s (rows, x)
             \<and> errors_Is x ErrOverflowDropped
             \<and> (gq_events s = [] \<longrightarrow>
                  (IsPermanent (Some x) \<longleftrightarrow> \<not> (\<exists>g\<in>set gs. gw_key g = key \<and> lease_live (gq_now s) (Microseconds ttl) g)))
             \<or> gq_events s \<noteq> [] \<and> rows = noGroupRows))
         \<or> (gq_events s \<noteq> [] \<and> (\<exists>rows'. add_effect t key (new_member key mid seq h p) maxm gs ms s rows' s'))) s"
proof -
  have v: "ValidateMaxMembers groupOverflowSite maxm = None" using assms(5,6) by (simp add: ValidateMaxMembers_def)
  show ?thesis
  proof (rule yields_mono [OF AddMember_yields [OF assms(1-4) v]], goal_cases)
    case (1 r s')
    obtain rows e where r: "r = (rows, e)" by fastforce
    have ref: "errors_Is x ErrOverflowDropped \<and> (gq_events s = [] \<longrightarrow>
        (IsPermanent (Some x) \<longleftrightarrow> \<not> (\<exists>g\<in>set gs. gw_key g = key \<and> lease_live (gq_now s) (Microseconds ttl) g)))"
      if full: "add_refused key mid maxm (Microseconds ttl) gs ms s (rows, x)" for x
    proof -
      obtain n k g where g: "gq_events s = [] \<longrightarrow> k = gq_now s" "g \<in> set (upserted key n gs)" "gw_key g = key"
        and x: "x = groupOverflow key (int (length (members_of key ms)) + 1) maxm (lease_live k (Microseconds ttl) g)"
        using full unfolding add_refused_def prod.inject by blast
      have "(\<exists>g\<in>set gs. gw_key g = key \<and> lease_live k (Microseconds ttl) g) \<longleftrightarrow> lease_live k (Microseconds ttl) g"
        by (rule upserted_live [OF tables_okD(1) [OF assms(3)] g(2,3)])
      then show ?thesis using g(1) x groupOverflow_class by metis
    qed
    show ?case
      using 1 ref by (cases e) (auto simp: r committed_def)
  qed
qed


theorem sqlite_add_bounded_witness:
  "yields (sqlite_AddMember undefined () ''agg'' ''k'' ''c'' 3 ''{}'' ''z'' 2 (5 * Minute)) (\<lambda>(rows, e) s'.
     case e of
       None \<Rightarrow> add_effect ''agg'' ''k'' (new_member ''k'' ''c'' 3 ''{}'' ''z'') 2 demo_gs demo_ms demo_leased rows s'
     | Some x \<Rightarrow>
         (gq_groups s' = gq_groups demo_leased \<and> gq_members s' = gq_members demo_leased \<and>
            (add_refused ''k'' ''c'' 2 (Microseconds (5 * Minute)) demo_gs demo_ms demo_leased (rows, x)
             \<and> errors_Is x ErrOverflowDropped
             \<and> (gq_events demo_leased = [] \<longrightarrow>
                  (IsPermanent (Some x) \<longleftrightarrow> \<not> (\<exists>g\<in>set demo_gs. gw_key g = ''k'' \<and> lease_live (gq_now demo_leased) (Microseconds (5 * Minute)) g)))
             \<or> gq_events demo_leased \<noteq> [] \<and> rows = noGroupRows))
         \<or> (gq_events demo_leased \<noteq> [] \<and> (\<exists>rows'. add_effect ''agg'' ''k'' (new_member ''k'' ''c'' 3 ''{}'' ''z'') 2 demo_gs demo_ms demo_leased rows' s'))) demo_leased"
  by (rule sqlite_add_bounded [OF agg_ident demo_leased_stored demo_leased_ok]) simp_all

text \<open>
  A run on an empty schema: the first worker claims the group of \<open>a\<close> and stalls; its lease runs out, the second
  worker claims the group and settles it, which deletes the row. A later member \<open>b\<close> of the same key forms a new group,
  which the third worker claims: its epoch is 1 again.
\<close>

definition stale_run :: "gsql \<Rightarrow> gsql" where
  "stale_run s0 =
     (let minutes = (\<lambda>d s. s\<lparr>gq_now := gq_now s + d * 60000000\<rparr>);
          s1 = snd (sqlite_AddMember undefined () ''agg'' ''k'' ''a'' 1 ''{}'' ''x'' 10 (5 * Minute) s0);
          s2 = snd (sqlite_ClaimGroup undefined () ''agg'' ''k'' ''w1'' (5 * Minute) s1);
          s3 = snd (sqlite_ClaimGroup undefined () ''agg'' ''k'' ''w2'' (5 * Minute) (minutes 6 s2));
          s4 = snd (sqlite_SettleGroup undefined () ''agg'' ''k'' ''w2'' 2 s3);
          s5 = snd (sqlite_AddMember undefined () ''agg'' ''k'' ''b'' 1 ''{}'' ''y'' 10 (5 * Minute) s4)
      in snd (sqlite_ClaimGroup undefined () ''agg'' ''k'' ''w3'' (5 * Minute) s5))"

text \<open>
  The epoch of a group restarts when its row is deleted, and a settlement deletes the claimed members before it
  looks at the holder. So a settlement of a claim that expired long ago, by a worker that does not hold the
  group, reports that it did not apply but deletes the member that another worker holds under a live lease:
  after it the group is still leased and has no member left.
\<close>

theorem sqlite_stale_settle_deletes:
  "let s = stale_run demo_groups
   in gq_members s ''agg'' = Some [(new_member ''k'' ''b'' 1 ''{}'' ''y'')\<lparr>mw_claimed := Some 1\<rparr>]
      \<and> fst (sqlite_SettleGroup undefined () ''agg'' ''k'' ''w1'' 1 s) = Val (Inr False)
      \<and> gq_members (snd (sqlite_SettleGroup undefined () ''agg'' ''k'' ''w1'' 1 s)) ''agg'' = Some []
      \<and> gq_groups (snd (sqlite_SettleGroup undefined () ''agg'' ''k'' ''w1'' 1 s)) ''agg''
         = Some [\<lparr>gw_key = ''k'', gw_created = 360000000, gw_epoch = 1, gw_locked_by = Some ''w3'', gw_locked_at = Some 360000000\<rparr>]"
  by code_simp

end
