(* ===== verification/Server_Lease.thy ===== *)
theory Server_Lease
  imports Sqlite_Lease
begin

text \<open>
  The PostgreSQL and MySQL queue dialects (\<^verbatim>\<open>adapter/database/sql/postgres/dialect.go\<close>, \<^verbatim>\<open>mysql/dialect.go\<close>, \<^verbatim>\<open>quote.go\<close>, and the
  transaction helpers of \<^verbatim>\<open>lock.go\<close>). Unlike SQLite, a server runs several transactions at once: a claim skips the rows
  that an open transaction has locked, and a write to such a row is a lock wait, which ends here in an error. Row ids come from a
  sequence that never goes back. A header text is kept as its JSON column keeps it, or rejected. Every
  statement runs at one instant, which may be later than the one before; it can fail before or after it took effect.
  A value too long for its column is one of these failures. A transaction that a caller passes to a claim holds no row yet.
  Counters are unbounded here; their columns hold 32 and 64 bits.

  Both dialects interpret the lease contract, so the queue over them loses nothing; their ids name one message
  for ever, which the SQLite dialect does not give; and the two statements of the MySQL claim do what the one of PostgreSQL does.
\<close>

section \<open>The server\<close>

text \<open>What an open lock transaction will do to its row when it commits.\<close>

datatype pending = PUpdate qrow | PDelete int

fun pending_id :: "pending \<Rightarrow> int" where
  "pending_id (PUpdate r) = qr_id r"
| "pending_id (PDelete i) = i"

record lock_tx =
  ltx_start :: int
  ltx_table :: string
  ltx_change :: "pending option"

record srv =
  sv_rows :: "string \<rightharpoonup> qrow list"
  sv_seq :: "string \<Rightarrow> int"
  sv_json :: "string \<Rightarrow> string option"
  sv_now :: int
  sv_events :: "(fault \<times> nat) list"
  sv_order :: "qrow list \<Rightarrow> qrow list"
  sv_txs :: "nat \<rightharpoonup> lock_tx"
  sv_next :: nat

definition sv_event :: "srv \<Rightarrow> fault \<times> srv" where
  "sv_event s = (case sv_events s of [] \<Rightarrow> (Fine, s) | (f, d) # es \<Rightarrow> (f, s\<lparr>sv_events := es, sv_now := sv_now s + int d\<rparr>))"

definition sv_visit :: "srv \<Rightarrow> qrow list \<Rightarrow> qrow list" where
  "sv_visit s rs = (if mset (sv_order s rs) = mset rs then sv_order s rs else rs)"

text \<open>The rows of a table that open transactions have locked.\<close>

definition locked_ids :: "string \<Rightarrow> srv \<Rightarrow> int set" where
  "locked_ids t s = {i. \<exists>n x c. sv_txs s n = Some x \<and> ltx_table x = t \<and> ltx_change x = Some c \<and> pending_id c = i}"

abbreviation lock_timeout :: err where "lock_timeout \<equiv> Foreign ''lock wait timeout'' 0"
abbreviation bad_limit :: err where "bad_limit \<equiv> Foreign ''negative LIMIT'' 0"
abbreviation bad_json :: err where "bad_json \<equiv> Foreign ''invalid JSON'' 0"

text \<open>One statement outside a lock transaction; \<open>f\<close> gets the clock, the visiting order and the locked rows, and may be refused.\<close>

definition sv_statement ::
  "string \<Rightarrow> (int \<Rightarrow> (qrow list \<Rightarrow> qrow list) \<Rightarrow> int set \<Rightarrow> qrow list \<Rightarrow> err + qrow list \<times> 'a) \<Rightarrow> (srv, err + 'a) prog" where
  "sv_statement t f s0 =
     (case sv_event s0 of (flt, s) \<Rightarrow>
        (case flt of
           Before e \<Rightarrow> (Val (Inl e), s)
         | _ \<Rightarrow>
             (case sv_rows s t of
                None \<Rightarrow> (Val (Inl no_such_table), s)
              | Some rs \<Rightarrow>
                  (case f (sv_now s) (sv_visit s) (locked_ids t s) rs of
                     Inl e \<Rightarrow> (Val (Inl e), s)
                   | Inr (rs', a) \<Rightarrow> (Val (case flt of After e \<Rightarrow> Inl e | _ \<Rightarrow> Inr a), s\<lparr>sv_rows := (sv_rows s)(t \<mapsto> rs')\<rparr>)))))"

section \<open>Quoting\<close>

definition pg_quote :: "string \<Rightarrow> string" where
  "pg_quote name = ''\"'' @ concat (map (\<lambda>c. if c = CHR ''\"'' then [CHR ''\"'', CHR ''\"''] else [c]) name) @ ''\"''"

definition pgQuoteTable :: "string \<Rightarrow> err + string" where
  "pgQuoteTable table = (case ValidateIdent table of Some e \<Rightarrow> Inl e | None \<Rightarrow> Inr (pg_quote table))"

definition mysql_quote :: "string \<Rightarrow> string" where
  "mysql_quote name = [CHR 96] @ concat (map (\<lambda>c. if c = CHR 96 then [CHR 96, CHR 96] else [c]) name) @ [CHR 96]"

definition mysqlQuoteTable :: "string \<Rightarrow> err + string" where
  "mysqlQuoteTable table = (case ValidateIdent table of Some e \<Rightarrow> Inl e | None \<Rightarrow> Inr (mysql_quote table))"

definition quoted :: "(string \<Rightarrow> err + string) \<Rightarrow> string \<Rightarrow> (srv, err + 'a) prog \<Rightarrow> (srv, err + 'a) prog" where
  "quoted quote table m = (case quote table of Inl e \<Rightarrow> returnP (Inl e) | Inr _ \<Rightarrow> m)"

section \<open>Statements of the lease strategy\<close>

text \<open>\<^verbatim>\<open>SELECT ... ORDER BY visible_after ... LIMIT n FOR UPDATE SKIP LOCKED\<close>.\<close>

definition select_claimable :: "int \<Rightarrow> int \<Rightarrow> int \<Rightarrow> (qrow list \<Rightarrow> qrow list) \<Rightarrow> int set \<Rightarrow> qrow list \<Rightarrow> qrow list" where
  "select_claimable ttl limit now ord locked rs =
     take (nat limit) (sort_key qr_visible_after (filter (\<lambda>r. claimable now ttl r \<and> qr_id r \<notin> locked) (ord rs)))"

definition pg_claim_statement ::
  "string \<Rightarrow> int \<Rightarrow> int \<Rightarrow> int \<Rightarrow> (qrow list \<Rightarrow> qrow list) \<Rightarrow> int set \<Rightarrow> qrow list \<Rightarrow> err + qrow list \<times> ClaimedRow list" where
  "pg_claim_statement by ttl limit now ord locked rs =
     (if limit < 0 then Inl bad_limit
      else
        (let ids = set (map qr_id (select_claimable ttl limit now ord locked rs));
             rs' = map (\<lambda>r. if qr_id r \<in> ids then lease_row now by r else r) rs
         in Inr (rs', map claimed_row (ord (filter (\<lambda>r. qr_id r \<in> ids) rs')))))"

definition sv_settle :: "(qrow \<Rightarrow> bool) \<Rightarrow> (int \<Rightarrow> qrow list \<Rightarrow> qrow list) \<Rightarrow> int \<Rightarrow> (qrow list \<Rightarrow> qrow list) \<Rightarrow> int set \<Rightarrow> qrow list
    \<Rightarrow> err + qrow list \<times> int" where
  "sv_settle P change now ord locked rs =
     (if list_ex (\<lambda>r. P r \<and> qr_id r \<in> locked) rs then Inl lock_timeout
      else Inr (change now rs, int (length (filter P rs))))"

definition sv_delete :: "int \<Rightarrow> string \<Rightarrow> int \<Rightarrow> int \<Rightarrow> (qrow list \<Rightarrow> qrow list) \<Rightarrow> int set \<Rightarrow> qrow list \<Rightarrow> err + qrow list \<times> int" where
  "sv_delete i by ep = sv_settle (fenced i by ep) (\<lambda>now rs. filter (\<lambda>r. \<not> fenced i by ep r) rs)"

definition sv_release :: "int \<Rightarrow> string \<Rightarrow> int \<Rightarrow> int \<Rightarrow> int \<Rightarrow> (qrow list \<Rightarrow> qrow list) \<Rightarrow> int set \<Rightarrow> qrow list \<Rightarrow> err + qrow list \<times> int" where
  "sv_release i by ep d = sv_settle (fenced i by ep) (\<lambda>now rs.
     map (\<lambda>r. if fenced i by ep r then r\<lparr>qr_locked_by := None, qr_locked_at := None, qr_visible_after := now + d\<rparr> else r) rs)"

text \<open>An insert takes the next id of the sequence, also when it fails afterwards.\<close>

definition sv_insert :: "string \<Rightarrow> string \<Rightarrow> string \<Rightarrow> string \<Rightarrow> int \<Rightarrow> (srv, err option) prog" where
  "sv_insert t mid h p d s0 =
     (case sv_event s0 of (flt, s) \<Rightarrow>
        (case flt of
           Before e \<Rightarrow> (Val (Some e), s)
         | _ \<Rightarrow>
             (case sv_rows s t of
                None \<Rightarrow> (Val (Some no_such_table), s)
              | Some rs \<Rightarrow>
                  (case sv_json s h of
                     None \<Rightarrow> (Val (Some bad_json), s\<lparr>sv_seq := (sv_seq s)(t := sv_seq s t + 1)\<rparr>)
                   | Some h' \<Rightarrow>
                       (Val (case flt of After e \<Rightarrow> Some e | _ \<Rightarrow> None),
                        s\<lparr>sv_seq := (sv_seq s)(t := sv_seq s t + 1),
                          sv_rows := (sv_rows s)(t \<mapsto> rs @ [\<lparr>qr_id = sv_seq s t + 1, qr_msg_id = mid, qr_headers = h', qr_payload = p,
                            qr_locked_by = None, qr_locked_at = None, qr_visible_after = sv_now s + d, qr_delivery_count = 0, qr_lease_epoch = 0\<rparr>])\<rparr>)))))"

definition sv_create :: "string \<Rightarrow> (srv, err option) prog" where
  "sv_create t s0 =
     (case sv_event s0 of (flt, s) \<Rightarrow>
        (case flt of
           Before e \<Rightarrow> (Val (Some e), s)
         | _ \<Rightarrow> (Val (case flt of After e \<Rightarrow> Some e | _ \<Rightarrow> None),
                 if sv_rows s t = None then s\<lparr>sv_rows := (sv_rows s)(t \<mapsto> [])\<rparr> else s)))"

definition sv_index :: "string \<Rightarrow> (srv, err option) prog" where
  "sv_index t s0 =
     (case sv_event s0 of (flt, s) \<Rightarrow>
        (Val (case flt of Before e \<Rightarrow> Some e | After e \<Rightarrow> Some e | Fine \<Rightarrow> if sv_rows s t = None then Some no_such_table else None), s))"

definition sv_exists :: "string \<Rightarrow> (srv, err + bool) prog" where
  "sv_exists table s0 =
     (case ValidateIdent table of
        Some e \<Rightarrow> (Val (Inl e), s0)
      | None \<Rightarrow>
          (case sv_event s0 of (flt, s) \<Rightarrow>
             (Val (case flt of Before e \<Rightarrow> Inl e | After e \<Rightarrow> Inl e | Fine \<Rightarrow> Inr (sv_rows s table \<noteq> None)), s)))"

section \<open>The PostgreSQL dialect\<close>

text \<open>A querier: the pool, an open transaction, or something else. Writes in a caller's transaction are shown as of its commit.\<close>

datatype querier = Pool | InTx nat | OtherQ string

definition postgres_Claim :: "srv ctx \<Rightarrow> querier \<Rightarrow> string \<Rightarrow> int \<Rightarrow> string \<Rightarrow> duration \<Rightarrow> (srv, err + ClaimedRow list) prog" where
  "postgres_Claim ctx q table limit by ttl =
     quoted pgQuoteTable table (sv_statement table (pg_claim_statement by (Microseconds ttl) limit))"

definition postgres_Ack :: "srv ctx \<Rightarrow> querier \<Rightarrow> string \<Rightarrow> int \<Rightarrow> string \<Rightarrow> int \<Rightarrow> (srv, err + bool) prog" where
  "postgres_Ack ctx q table i by ep =
     quoted pgQuoteTable table (bindP (sv_statement table (sv_delete i by ep)) (\<lambda>r. returnP (affected r)))"

definition postgres_Nack :: "srv ctx \<Rightarrow> querier \<Rightarrow> string \<Rightarrow> int \<Rightarrow> string \<Rightarrow> int \<Rightarrow> duration \<Rightarrow> (srv, err + bool) prog" where
  "postgres_Nack ctx q table i by ep delay =
     quoted pgQuoteTable table (bindP (sv_statement table (sv_release i by ep (Microseconds delay))) (\<lambda>r. returnP (affected r)))"

definition postgres_Insert :: "srv ctx \<Rightarrow> querier \<Rightarrow> string \<Rightarrow> string \<Rightarrow> string \<Rightarrow> string \<Rightarrow> duration \<Rightarrow> (srv, err option) prog" where
  "postgres_Insert ctx q table mid h p delay =
     (case pgQuoteTable table of Inl e \<Rightarrow> returnP (Some e) | Inr _ \<Rightarrow> sv_insert table mid h p (Microseconds delay))"

definition postgres_EnsureSchema :: "srv ctx \<Rightarrow> querier \<Rightarrow> string \<Rightarrow> (srv, err option) prog" where
  "postgres_EnsureSchema ctx q table =
     (case pgQuoteTable table of
        Inl e \<Rightarrow> returnP (Some e)
      | Inr _ \<Rightarrow> bindP (sv_create table) (\<lambda>e. case e of Some x \<Rightarrow> returnP (Some x) | None \<Rightarrow> sv_index table))"

definition postgres_SchemaExists :: "srv ctx \<Rightarrow> querier \<Rightarrow> string \<Rightarrow> (srv, err + bool) prog" where
  "postgres_SchemaExists ctx q table = sv_exists table"

section \<open>The MySQL dialect\<close>

text \<open>\<^verbatim>\<open>mysqlScanClaim\<close>: the selected rows with the counts as they will be, and their ids.\<close>

definition bumped_row :: "qrow \<Rightarrow> ClaimedRow" where
  "bumped_row r = (let c = claimed_row r in c\<lparr>cr_DeliveryCount := cr_DeliveryCount c + 1, cr_LeaseEpoch := cr_LeaseEpoch c + 1\<rparr>)"

definition mysqlScanClaim :: "string \<Rightarrow> int \<Rightarrow> int \<Rightarrow> (srv, err + ClaimedRow list \<times> int list) prog" where
  "mysqlScanClaim table ttl limit =
     sv_statement table (\<lambda>now ord locked rs.
       if limit < 0 then Inl bad_limit
       else (let sel = select_claimable ttl limit now ord locked rs in Inr (rs, map bumped_row sel, map qr_id sel)))"

definition mysqlClaimInTx :: "string \<Rightarrow> int \<Rightarrow> string \<Rightarrow> duration \<Rightarrow> (srv, err + ClaimedRow list) prog" where
  "mysqlClaimInTx table limit by ttl =
     bindE (mysqlScanClaim table (Microseconds ttl) limit) (\<lambda>(out, ids).
       if ids = [] then returnP (Inr [])
       else
         bindE (sv_statement table (\<lambda>now ord locked rs.
                  Inr (map (\<lambda>r. if qr_id r \<in> set ids then lease_row now by r else r) rs, ()))) (\<lambda>_.
           returnP (Inr out)))"

text \<open>A transaction of the pool: an error rolls back; a commit may fail, or succeed and lose its reply.\<close>

definition sv_begin :: "(srv, err option) prog" where
  "sv_begin s0 = (case sv_event s0 of (flt, s) \<Rightarrow> (Val (case flt of Fine \<Rightarrow> None | Before e \<Rightarrow> Some e | After e \<Rightarrow> Some e), s))"

definition sv_transaction :: "(srv, err + 'a) prog \<Rightarrow> (srv, err + 'a) prog" where
  "sv_transaction m s0 =
     (case sv_begin s0 of
        (Val None, s) \<Rightarrow>
          (case m s of
             (Val (Inl e), s1) \<Rightarrow> (Val (Inl e), s1\<lparr>sv_rows := sv_rows s\<rparr>)
           | (Val (Inr a), s1) \<Rightarrow>
               (case sv_event s1 of (flt, s2) \<Rightarrow>
                  (case flt of
                     Fine \<Rightarrow> (Val (Inr a), s2)
                   | Before e \<Rightarrow> (Val (Inl e), s2\<lparr>sv_rows := sv_rows s\<rparr>)
                   | After e \<Rightarrow> (Val (Inl e), s2)))
           | (Pan v, s1) \<Rightarrow> (Pan v, s1))
      | (Val (Some e), s) \<Rightarrow> (Val (Inl e), s)
      | (Pan v, s) \<Rightarrow> (Pan v, s))"

definition mysql_Claim :: "srv ctx \<Rightarrow> querier \<Rightarrow> string \<Rightarrow> int \<Rightarrow> string \<Rightarrow> duration \<Rightarrow> (srv, err + ClaimedRow list) prog" where
  "mysql_Claim ctx q table limit by ttl =
     quoted mysqlQuoteTable table
       (case q of
          Pool \<Rightarrow> sv_transaction (mysqlClaimInTx table limit by ttl)
        | InTx n \<Rightarrow> mysqlClaimInTx table limit by ttl
        | OtherQ ty \<Rightarrow> returnP (Inl (Errorf
            ''msgin/sql/mysql: mysql Claim requires a *sql.DB or *sql.Tx Querier (its two-step claim must be atomic), got %T'' [ArgS ty])))"

definition mysql_Ack :: "srv ctx \<Rightarrow> querier \<Rightarrow> string \<Rightarrow> int \<Rightarrow> string \<Rightarrow> int \<Rightarrow> (srv, err + bool) prog" where
  "mysql_Ack ctx q table i by ep =
     quoted mysqlQuoteTable table (bindP (sv_statement table (sv_delete i by ep)) (\<lambda>r. returnP (affected r)))"

definition mysql_Nack :: "srv ctx \<Rightarrow> querier \<Rightarrow> string \<Rightarrow> int \<Rightarrow> string \<Rightarrow> int \<Rightarrow> duration \<Rightarrow> (srv, err + bool) prog" where
  "mysql_Nack ctx q table i by ep delay =
     quoted mysqlQuoteTable table (bindP (sv_statement table (sv_release i by ep (Microseconds delay))) (\<lambda>r. returnP (affected r)))"

definition mysql_Insert :: "srv ctx \<Rightarrow> querier \<Rightarrow> string \<Rightarrow> string \<Rightarrow> string \<Rightarrow> string \<Rightarrow> duration \<Rightarrow> (srv, err option) prog" where
  "mysql_Insert ctx q table mid h p delay =
     (case mysqlQuoteTable table of Inl e \<Rightarrow> returnP (Some e) | Inr _ \<Rightarrow> sv_insert table mid h p (Microseconds delay))"

definition mysql_EnsureSchema :: "srv ctx \<Rightarrow> querier \<Rightarrow> string \<Rightarrow> (srv, err option) prog" where
  "mysql_EnsureSchema ctx q table = (case mysqlQuoteTable table of Inl e \<Rightarrow> returnP (Some e) | Inr _ \<Rightarrow> sv_create table)"

definition mysql_SchemaExists :: "srv ctx \<Rightarrow> querier \<Rightarrow> string \<Rightarrow> (srv, err + bool) prog" where
  "mysql_SchemaExists ctx q table = sv_exists table"


section \<open>The lock strategy\<close>

abbreviation tx_done :: err where "tx_done \<equiv> Foreign ''sql.ErrTxDone'' 0"

definition BeginLockTx :: "querier \<Rightarrow> (srv, err + nat) prog" where
  "BeginLockTx q s0 =
     (case q of
        Pool \<Rightarrow>
          (case sv_event s0 of (flt, s) \<Rightarrow>
             (case flt of
                Fine \<Rightarrow> (Val (Inr (sv_next s)),
                  s\<lparr>sv_txs := (sv_txs s)(sv_next s \<mapsto> \<lparr>ltx_start = sv_now s, ltx_table = '''', ltx_change = None\<rparr>), sv_next := Suc (sv_next s)\<rparr>)
              | Before e \<Rightarrow> (Val (Inl e), s)
              | After e \<Rightarrow> (Val (Inl e), s)))
      | InTx n \<Rightarrow> (Val (Inr n), s0)
      | OtherQ ty \<Rightarrow> (Val (Inl (Errorf ''msgin/sql: lock strategy ClaimLock requires a *sql.DB or *sql.Tx Querier, got %T'' [ArgS ty])), s0))"

definition tx_rollback :: "nat \<Rightarrow> srv \<Rightarrow> srv" where
  "tx_rollback n s = s\<lparr>sv_txs := (sv_txs s)(n := None)\<rparr>"

fun apply_pending :: "pending \<Rightarrow> qrow list \<Rightarrow> qrow list" where
  "apply_pending (PUpdate r) rs = map (\<lambda>y. if qr_id y = qr_id r then r else y) rs"
| "apply_pending (PDelete i) rs = filter (\<lambda>y. qr_id y \<noteq> i) rs"

definition tx_commit :: "nat \<Rightarrow> srv \<Rightarrow> srv" where
  "tx_commit n s =
     (case sv_txs s n of
        None \<Rightarrow> s
      | Some x \<Rightarrow>
          tx_rollback n (case ltx_change x of
            None \<Rightarrow> s
          | Some c \<Rightarrow> s\<lparr>sv_rows := (sv_rows s)(ltx_table x := map_option (apply_pending c) (sv_rows s (ltx_table x)))\<rparr>))"

text \<open>The row a lock claim takes: visible, not leased and not locked.\<close>

definition lockable :: "int \<Rightarrow> int set \<Rightarrow> qrow \<Rightarrow> bool" where
  "lockable now locked r \<longleftrightarrow> qr_visible_after r \<le> now \<and> qr_locked_at r = None \<and> qr_id r \<notin> locked"

definition tx_select :: "(int \<Rightarrow> int \<Rightarrow> int) \<Rightarrow> nat \<Rightarrow> string \<Rightarrow> (srv, err + qrow option) prog" where
  "tx_select clk n t s0 =
     (case sv_txs s0 n of
        None \<Rightarrow> (Val (Inl tx_done), s0)
      | Some x \<Rightarrow>
          (case sv_event s0 of (flt, s) \<Rightarrow>
             (case flt of
                Fine \<Rightarrow>
                  (case sv_rows s t of
                     None \<Rightarrow> (Val (Inl no_such_table), s)
                   | Some rs \<Rightarrow>
                       (case sort_key qr_visible_after (filter (lockable (clk (ltx_start x) (sv_now s)) (locked_ids t s)) (sv_visit s rs)) of
                          [] \<Rightarrow> (Val (Inr None), s)
                        | r # _ \<Rightarrow> (Val (Inr (Some r)), s\<lparr>sv_txs := (sv_txs s)(n \<mapsto> x\<lparr>ltx_table := t, ltx_change := Some (PUpdate r)\<rparr>)\<rparr>)))
              | Before e \<Rightarrow> (Val (Inl e), s)
              | After e \<Rightarrow> (Val (Inl e), s))))"

text \<open>
  The statements that follow are on the row with a given id, which is the one the transaction holds; \<open>c\<close> is what they
  make of it.
\<close>

definition on_row :: "int \<Rightarrow> (qrow \<Rightarrow> pending) \<Rightarrow> pending \<Rightarrow> pending" where
  "on_row i f p = (case p of PUpdate r \<Rightarrow> if qr_id r = i then f r else p | PDelete j \<Rightarrow> p)"

definition tx_exec :: "(int \<Rightarrow> int \<Rightarrow> int) \<Rightarrow> nat \<Rightarrow> (int \<Rightarrow> pending \<Rightarrow> pending) \<Rightarrow> (srv, err option) prog" where
  "tx_exec clk n c s0 =
     (case sv_txs s0 n of
        None \<Rightarrow> (Val (Some tx_done), s0)
      | Some x \<Rightarrow>
          (case sv_event s0 of (flt, s) \<Rightarrow>
             (case flt of
                Fine \<Rightarrow> (Val None, s\<lparr>sv_txs := (sv_txs s)(n \<mapsto> x\<lparr>ltx_change := map_option (c (clk (ltx_start x) (sv_now s))) (ltx_change x)\<rparr>)\<rparr>)
              | Before e \<Rightarrow> (Val (Some e), s)
              | After e \<Rightarrow> (Val (Some e), s))))"

text \<open>
  The two dialects differ in the quoting and in the clock of a statement in a transaction, given the start of the transaction and
  the instant of the statement: PostgreSQL's \<^verbatim>\<open>now()\<close> is the start of the transaction, MySQL's \<^verbatim>\<open>UTC_TIMESTAMP(6)\<close> the
  instant of the statement.
\<close>

record lock_sql =
  lk_quote :: "string \<Rightarrow> err + string"
  lk_now :: "int \<Rightarrow> int \<Rightarrow> int"

definition postgres_lock :: lock_sql where
  "postgres_lock = \<lparr>lk_quote = pgQuoteTable, lk_now = (\<lambda>start now. start)\<rparr>"

definition mysql_lock :: lock_sql where
  "mysql_lock = \<lparr>lk_quote = mysqlQuoteTable, lk_now = (\<lambda>start now. now)\<rparr>"

definition ClaimLock_with :: "lock_sql \<Rightarrow> querier \<Rightarrow> string \<Rightarrow> (srv, err + nat LockedRow option) prog" where
  "ClaimLock_with ql q table =
     quoted (lk_quote ql) table
       (bindE (BeginLockTx q) (\<lambda>n.
          bindP (tx_select (lk_now ql) n table) (\<lambda>sel.
            case sel of
              Inl e \<Rightarrow> bindP (modifyP (tx_rollback n)) (\<lambda>_. returnP (Inl e))
            | Inr None \<Rightarrow> bindP (modifyP (tx_rollback n)) (\<lambda>_. returnP (Inr None))
            | Inr (Some r) \<Rightarrow>
                bindP (tx_exec (lk_now ql) n (\<lambda>_. on_row (qr_id r) (\<lambda>x. PUpdate (x\<lparr>qr_delivery_count := qr_delivery_count x + 1\<rparr>)))) (\<lambda>e.
                  case e of
                    Some x \<Rightarrow> bindP (modifyP (tx_rollback n)) (\<lambda>_. returnP (Inl x))
                  | None \<Rightarrow> returnP (Inr (Some \<lparr>lr_ID = qr_id r, lr_MsgID = qr_msg_id r, lr_Headers = qr_headers r,
                      lr_Payload = qr_payload r, lr_DeliveryCount = qr_delivery_count r + 1, lr_Tx = n\<rparr>))))))"

definition sv_commit :: "nat \<Rightarrow> (srv, err option) prog" where
  "sv_commit n s0 =
     (case sv_event s0 of (flt, s) \<Rightarrow>
        (case flt of
           Fine \<Rightarrow> (Val None, tx_commit n s)
         | Before e \<Rightarrow> (Val (Some e), tx_rollback n s)
         | After e \<Rightarrow> (Val (Some e), tx_commit n s)))"

definition SettleLockTx :: "(int \<Rightarrow> int \<Rightarrow> int) \<Rightarrow> nat \<Rightarrow> (int \<Rightarrow> pending \<Rightarrow> pending) \<Rightarrow> (srv, err option) prog" where
  "SettleLockTx clk n c =
     bindP (tx_exec clk n c) (\<lambda>e.
       case e of
         Some x \<Rightarrow> bindP (modifyP (tx_rollback n)) (\<lambda>_. returnP (Some x))
       | None \<Rightarrow>
           bindP (sv_commit n) (\<lambda>e.
             case e of
               Some x \<Rightarrow> bindP (modifyP (tx_rollback n)) (\<lambda>_. returnP (Some x))
             | None \<Rightarrow> returnP None))"

definition AckLock_with :: "lock_sql \<Rightarrow> nat LockedRow \<Rightarrow> string \<Rightarrow> (srv, err option) prog" where
  "AckLock_with ql lr table =
     (case lk_quote ql table of
        Inl e \<Rightarrow> bindP (modifyP (tx_rollback (lr_Tx lr))) (\<lambda>_. returnP (Some e))
      | Inr _ \<Rightarrow> SettleLockTx (lk_now ql) (lr_Tx lr) (\<lambda>_. on_row (lr_ID lr) (\<lambda>_. PDelete (lr_ID lr))))"

definition NackLock_with :: "lock_sql \<Rightarrow> nat LockedRow \<Rightarrow> string \<Rightarrow> duration \<Rightarrow> (srv, err option) prog" where
  "NackLock_with ql lr table delay =
     (case lk_quote ql table of
        Inl e \<Rightarrow> bindP (modifyP (tx_rollback (lr_Tx lr))) (\<lambda>_. returnP (Some e))
      | Inr _ \<Rightarrow>
          SettleLockTx (lk_now ql) (lr_Tx lr) (\<lambda>now. on_row (lr_ID lr) (\<lambda>r.
            PUpdate (r\<lparr>qr_locked_by := None, qr_locked_at := None, qr_visible_after := now + Microseconds delay\<rparr>))))"

definition postgres_ClaimLock :: "srv ctx \<Rightarrow> querier \<Rightarrow> string \<Rightarrow> string \<Rightarrow> (srv, err + nat LockedRow option) prog" where
  "postgres_ClaimLock ctx q table by = ClaimLock_with postgres_lock q table"

definition postgres_AckLock :: "srv ctx \<Rightarrow> nat LockedRow \<Rightarrow> string \<Rightarrow> (srv, err option) prog" where
  "postgres_AckLock ctx lr table = AckLock_with postgres_lock lr table"

definition postgres_NackLock :: "srv ctx \<Rightarrow> nat LockedRow \<Rightarrow> string \<Rightarrow> duration \<Rightarrow> (srv, err option) prog" where
  "postgres_NackLock ctx lr table delay = NackLock_with postgres_lock lr table delay"

definition mysql_ClaimLock :: "srv ctx \<Rightarrow> querier \<Rightarrow> string \<Rightarrow> string \<Rightarrow> (srv, err + nat LockedRow option) prog" where
  "mysql_ClaimLock ctx q table by = ClaimLock_with mysql_lock q table"

definition mysql_AckLock :: "srv ctx \<Rightarrow> nat LockedRow \<Rightarrow> string \<Rightarrow> (srv, err option) prog" where
  "mysql_AckLock ctx lr table = AckLock_with mysql_lock lr table"

definition mysql_NackLock :: "srv ctx \<Rightarrow> nat LockedRow \<Rightarrow> string \<Rightarrow> duration \<Rightarrow> (srv, err option) prog" where
  "mysql_NackLock ctx lr table delay = NackLock_with mysql_lock lr table delay"

section \<open>The dialects\<close>

definition postgres_LeaseDialect :: "(srv, querier, nat) LeaseDialect" where
  "postgres_LeaseDialect =
     \<lparr>ld_Claim = postgres_Claim, ld_Ack = postgres_Ack, ld_Nack = postgres_Nack, ld_Insert = postgres_Insert,
      ld_EnsureSchema = postgres_EnsureSchema, ld_SchemaExists = postgres_SchemaExists,
      ld_lock = Some \<lparr>kd_ClaimLock = postgres_ClaimLock, kd_AckLock = postgres_AckLock, kd_NackLock = postgres_NackLock\<rparr>\<rparr>"

definition mysql_LeaseDialect :: "(srv, querier, nat) LeaseDialect" where
  "mysql_LeaseDialect =
     \<lparr>ld_Claim = mysql_Claim, ld_Ack = mysql_Ack, ld_Nack = mysql_Nack, ld_Insert = mysql_Insert,
      ld_EnsureSchema = mysql_EnsureSchema, ld_SchemaExists = mysql_SchemaExists,
      ld_lock = Some \<lparr>kd_ClaimLock = mysql_ClaimLock, kd_AckLock = mysql_AckLock, kd_NackLock = mysql_NackLock\<rparr>\<rparr>"

section \<open>Statements and the view\<close>

definition sv_view :: "string \<Rightarrow> srv \<Rightarrow> ltable" where
  "sv_view t s = (case sv_rows s t of None \<Rightarrow> Map.empty | Some rs \<Rightarrow> rows_view rs)"

text \<open>Ids are unique and were drawn from the sequence; the JSON column behaves as \<open>js\<close> says.\<close>

definition sv_inv :: "(string \<Rightarrow> string option) \<Rightarrow> string \<Rightarrow> srv \<Rightarrow> bool" where
  "sv_inv js t s \<longleftrightarrow> sv_json s = js \<and> (\<forall>rs. sv_rows s t = Some rs \<longrightarrow> keyed rs \<and> (\<forall>r \<in> set rs. qr_id r \<le> sv_seq s t))"

definition sv_used :: "string \<Rightarrow> srv \<Rightarrow> int set" where
  "sv_used t s = {i. i \<le> sv_seq s t}"

definition sv_quiet :: "srv \<Rightarrow> srv \<Rightarrow> bool" where
  "sv_quiet s s' \<longleftrightarrow> sv_rows s' = sv_rows s \<and> sv_seq s' = sv_seq s \<and> sv_json s' = sv_json s \<and> sv_txs s' = sv_txs s \<and> sv_next s' = sv_next s"

lemma sv_event_quiet: "sv_event s = (flt, s') \<Longrightarrow> sv_quiet s s'"
  by (auto simp: sv_event_def sv_quiet_def split: list.splits)

lemma sv_visit_mset [simp]: "mset (sv_visit s rs) = mset rs"
  by (simp add: sv_visit_def)

lemma sv_quiet_view: "sv_quiet s s' \<Longrightarrow> sv_view t s' = sv_view t s \<and> sv_inv js t s' = sv_inv js t s \<and> sv_used t s' = sv_used t s"
  by (simp add: sv_quiet_def sv_view_def sv_inv_def sv_used_def)

text \<open>A statement: nothing happened and it failed, or the rows were replaced and nothing else.\<close>

lemma sv_statement_cases:
  assumes "sv_statement t f s = (Val r, s')"
  obtains (idle) e where "r = Inl e" "sv_quiet s s'"
  | (took) s1 rs rs' a where "sv_quiet s s1" "sv_rows s t = Some rs" "f (sv_now s1) (sv_visit s1) (locked_ids t s1) rs = Inr (rs', a)"
      "s' = s1\<lparr>sv_rows := (sv_rows s)(t \<mapsto> rs')\<rparr>" "r = Inr a \<or> (\<exists>e. r = Inl e)"
proof -
  obtain flt s1 where n: "sv_event s = (flt, s1)" by fastforce
  note q = sv_event_quiet [OF n]
  have rows: "sv_rows s1 = sv_rows s" using q by (simp add: sv_quiet_def)
  show thesis
  proof (cases "(\<exists>e. flt = Before e) \<or> sv_rows s t = None")
    case True
    then show ?thesis using assms idle n q rows by (auto simp: sv_statement_def split: fault.splits)
  next
    case False
    then obtain rs where rs: "sv_rows s t = Some rs" by auto
    show ?thesis
    proof (cases "f (sv_now s1) (sv_visit s1) (locked_ids t s1) rs")
      case (Inl e)
      then show ?thesis using assms idle n q rows rs False by (auto simp: sv_statement_def split: fault.splits)
    next
      case (Inr p)
      obtain rs' a where p: "p = (rs', a)" by fastforce
      have "r = Inr a \<or> (\<exists>e. r = Inl e)" "s' = s1\<lparr>sv_rows := (sv_rows s)(t \<mapsto> rs')\<rparr>"
        using assms False n rows rs Inr p by (auto simp: sv_statement_def split: fault.splits)
      then show ?thesis using took [OF q rs _ _] Inr p by blast
    qed
  qed
qed

lemma sv_took:
  assumes "sv_quiet s s1" "sv_rows s t = Some rs" "s' = s1\<lparr>sv_rows := (sv_rows s)(t \<mapsto> rs')\<rparr>"
  shows "sv_view t s = rows_view rs" "sv_view t s' = rows_view rs'" "sv_used t s' = sv_used t s"
    "sv_inv js t s \<Longrightarrow> keyed rs" "sv_inv js t s \<Longrightarrow> keyed rs' \<Longrightarrow> qr_id ` set rs' \<subseteq> qr_id ` set rs \<Longrightarrow> sv_inv js t s'"
  using assms by (auto simp: sv_view_def sv_quiet_def sv_used_def sv_inv_def subset_iff)


section \<open>Both dialects keep the lease contract\<close>

lemma select_sub: "(\<And>xs. mset (ord xs) = mset xs) \<Longrightarrow> set (select_claimable ttl limit now ord locked rs) \<subseteq> set rs"
proof -
  assume o: "\<And>xs. mset (ord xs) = mset xs"
  have "set (select_claimable ttl limit now ord locked rs) \<subseteq> set (filter (\<lambda>r. claimable now ttl r \<and> qr_id r \<notin> locked) (ord rs))"
    unfolding select_claimable_def by (rule order_trans [OF set_take_subset]) (simp only: set_sort order_refl)
  also have "\<dots> \<subseteq> set (ord rs)" by (rule filter_is_subset)
  also have "\<dots> = set rs" by (rule mset_eq_setD [OF o])
  finally show ?thesis .
qed

lemma select_length: "0 \<le> limit \<Longrightarrow> int (length (select_claimable ttl limit now ord locked rs)) \<le> limit"
  by (simp add: select_claimable_def)

text \<open>The effect of a claim on the view, as the contract states it.\<close>

definition claim_effect :: "int \<Rightarrow> string \<Rightarrow> ltable \<Rightarrow> err + ClaimedRow list \<Rightarrow> ltable \<Rightarrow> bool" where
  "claim_effect n by v r v' \<longleftrightarrow> (\<exists>ids. ids \<subseteq> dom v \<and> v' = (\<lambda>i. if i \<in> ids then map_option (lease_to by) (v i) else v i)
     \<and> (\<forall>rs. r = Inr rs \<longrightarrow> distinct (map cr_ID rs) \<and> cr_ID ` set rs = ids \<and> (0 \<le> n \<longrightarrow> int (length rs) \<le> n)
           \<and> (\<forall>x \<in> set rs. v' (cr_ID x) = Some (row_of x by))))"

lemma claim_effect_none: "r = Inl e \<or> r = Inr [] \<Longrightarrow> claim_effect n by v r v"
  unfolding claim_effect_def by (intro exI [of _ "{}"]) auto

lemma claim_effect_selected:
  assumes "keyed rs" "set sel \<subseteq> set rs" "0 \<le> n \<longrightarrow> int (length sel) \<le> n" "ids = set (map qr_id sel)"
    "rs' = map (\<lambda>r. if qr_id r \<in> ids then lease_row now by r else r) rs"
    "mset out = mset (map claimed_row (filter (\<lambda>r. qr_id r \<in> ids) rs'))" "r = Inr out \<or> (\<exists>e. r = Inl e)"
  shows "keyed rs' \<and> claim_effect n by (rows_view rs) r (rows_view rs') \<and> qr_id ` set rs' = qr_id ` set rs"
proof -
  note v = lease_selected_view [OF assms(1,2,4,5,6)]
  have "map qr_id rs' = map qr_id rs" by (simp add: assms(5) lease_row_def)
  then have "qr_id ` set rs' = qr_id ` set rs" by (metis list.set_map)
  moreover have "int (length out) \<le> n" if "0 \<le> n" using v assms(3) that by linarith
  ultimately show ?thesis using v assms(7) unfolding claim_effect_def by blast
qed

lemma pg_claim_law:
  assumes "sv_inv js t s" "sv_statement t (pg_claim_statement by ttl n) s = (Val r, s')"
  shows "sv_inv js t s' \<and> claim_effect n by (sv_view t s) r (sv_view t s') \<and> sv_used t s' = sv_used t s"
  using assms(2)
proof (cases rule: sv_statement_cases)
  case (idle e)
  then show ?thesis using assms(1) sv_quiet_view [OF idle(2), of t js] claim_effect_none by auto
next
  case (took s1 rs rs' out)
  note sv = sv_took [OF took(1,2,4)]
  define sel where "sel = select_claimable ttl n (sv_now s1) (sv_visit s1) (locked_ids t s1) rs"
  have n: "0 \<le> n" and rs': "rs' = map (\<lambda>r. if qr_id r \<in> set (map qr_id sel) then lease_row (sv_now s1) by r else r) rs"
    and out: "out = map claimed_row (sv_visit s1 (filter (\<lambda>r. qr_id r \<in> set (map qr_id sel)) rs'))"
    using took(3) by (auto simp: pg_claim_statement_def sel_def Let_def split: if_splits)
  have "mset out = mset (map claimed_row (filter (\<lambda>r. qr_id r \<in> set (map qr_id sel)) rs'))" unfolding out mset_map sv_visit_mset ..
  from claim_effect_selected [OF sv(4) [OF assms(1)] _ _ refl rs' this took(5)] select_sub select_length n
  have "keyed rs' \<and> claim_effect n by (rows_view rs) r (rows_view rs') \<and> qr_id ` set rs' = qr_id ` set rs"
    unfolding sel_def by (metis sv_visit_mset)
  then show ?thesis using sv(1,2,3) sv(5) [OF assms(1)] by simp
qed

text \<open>The settlements: a lock wait, or exactly the effect of the SQLite statement.\<close>

lemma sv_settle_law:
  assumes "sv_inv js t s" "bindP (sv_statement t (sv_settle P change)) (\<lambda>r. returnP (affected r)) s = (Val r, s')"
    and f: "\<And>now rs. keyed rs \<Longrightarrow> keyed (change now rs) \<and> qr_id ` set (change now rs) \<subseteq> qr_id ` set rs
      \<and> (int (length (filter P rs)) > 0 \<longleftrightarrow> Q (rows_view rs))
      \<and> rows_view (change now rs) = (if Q (rows_view rs) then g (rows_view rs) else rows_view rs)"
  shows "sv_inv js t s' \<and> sv_used t s' = sv_used t s \<and>
    (case r of
       Inr a \<Rightarrow> a = Q (sv_view t s) \<and> sv_view t s' = (if a then g (sv_view t s) else sv_view t s)
     | Inl e \<Rightarrow> sv_view t s' = sv_view t s \<or> Q (sv_view t s) \<and> sv_view t s' = g (sv_view t s))"
proof -
  obtain r0 where st: "sv_statement t (sv_settle P change) s = (Val r0, s')" and r: "r = affected r0"
    using assms(2) by (auto simp: bindP_def returnP_def split: prod.splits res.splits)
  from st show ?thesis
  proof (cases rule: sv_statement_cases)
    case (idle e)
    then show ?thesis using assms(1) sv_quiet_view [OF idle(2), of t js] r by (simp add: affected_def)
  next
    case (took s1 rs rs' k)
    note sv = sv_took [OF took(1,2,4)]
    have rs': "rs' = change (sv_now s1) rs" and k: "k = int (length (filter P rs))"
      using took(3) by (auto simp: sv_settle_def split: if_splits)
    note ch = f [OF sv(4) [OF assms(1)], of "sv_now s1", folded rs' k]
    have "sv_inv js t s'" using ch sv(5) [OF assms(1)] by blast
    moreover have "case r of
       Inr a \<Rightarrow> a = Q (rows_view rs) \<and> rows_view rs' = (if a then g (rows_view rs) else rows_view rs)
     | Inl e \<Rightarrow> rows_view rs' = rows_view rs \<or> Q (rows_view rs) \<and> rows_view rs' = g (rows_view rs)"
      using took(5) ch r by (auto simp: affected_def split: if_splits)
    ultimately show ?thesis unfolding sv(1) sv(2) sv(3) by simp
  qed
qed

lemma sv_delete_view:
  assumes "keyed rs"
  shows "keyed (filter (\<lambda>r. \<not> fenced i by ep r) rs) \<and> qr_id ` set (filter (\<lambda>r. \<not> fenced i by ep r) rs) \<subseteq> qr_id ` set rs
    \<and> (int (length (filter (fenced i by ep) rs)) > 0 \<longleftrightarrow> leased (rows_view rs) i by ep)
    \<and> rows_view (filter (\<lambda>r. \<not> fenced i by ep r) rs) = (if leased (rows_view rs) i by ep then (rows_view rs)(i := None) else rows_view rs)"
  using ack_statement_view [OF assms, of i "by" ep 0 id] by (auto simp: ack_statement_def)

lemma sv_release_view:
  assumes "keyed rs"
  shows "keyed (map (\<lambda>r. if fenced i by ep r then r\<lparr>qr_locked_by := None, qr_locked_at := None, qr_visible_after := now + d\<rparr> else r) rs)
    \<and> qr_id ` set (map (\<lambda>r. if fenced i by ep r then r\<lparr>qr_locked_by := None, qr_locked_at := None, qr_visible_after := now + d\<rparr> else r) rs) \<subseteq> qr_id ` set rs
    \<and> (int (length (filter (fenced i by ep) rs)) > 0 \<longleftrightarrow> leased (rows_view rs) i by ep)
    \<and> rows_view (map (\<lambda>r. if fenced i by ep r then r\<lparr>qr_locked_by := None, qr_locked_at := None, qr_visible_after := now + d\<rparr> else r) rs)
       = (if leased (rows_view rs) i by ep then (rows_view rs)(i := map_option unlease (rows_view rs i)) else rows_view rs)"
  using nack_statement_view [OF assms, of i "by" ep d now id] by (auto simp: nack_statement_def)

lemma sv_insert_law:
  assumes "sv_inv js t s" "sv_insert t mid h p d s = (Val r, s')"
  shows "sv_inv js t s' \<and> sv_used t s \<subseteq> sv_used t s' \<and> ((sv_view t s' = sv_view t s \<and> r \<noteq> None)
    \<or> (\<exists>i. i \<notin> sv_used t s \<and> sv_view t s i = None \<and> sv_view t s' = (sv_view t s)(i \<mapsto> new_row mid (the (js h)) p)))"
proof -
  obtain flt s1 where n: "sv_event s = (flt, s1)" by fastforce
  note q = sv_event_quiet [OF n]
  note same = sv_quiet_view [OF q, of t js]
  have i1: "sv_inv js t s1" using same assms(1) by simp
  have run: "sv_insert t mid h p d s = (case flt of Before e \<Rightarrow> (Val (Some e), s1) | _ \<Rightarrow>
      (case sv_rows s1 t of None \<Rightarrow> (Val (Some no_such_table), s1)
       | Some rs \<Rightarrow> (case js h of None \<Rightarrow> (Val (Some bad_json), s1\<lparr>sv_seq := (sv_seq s1)(t := sv_seq s1 t + 1)\<rparr>)
         | Some h' \<Rightarrow> (Val (case flt of After e \<Rightarrow> Some e | _ \<Rightarrow> None),
             s1\<lparr>sv_seq := (sv_seq s1)(t := sv_seq s1 t + 1), sv_rows := (sv_rows s1)(t \<mapsto> rs @ [\<lparr>qr_id = sv_seq s1 t + 1, qr_msg_id = mid,
               qr_headers = h', qr_payload = p, qr_locked_by = None, qr_locked_at = None, qr_visible_after = sv_now s1 + d,
               qr_delivery_count = 0, qr_lease_epoch = 0\<rparr>])\<rparr>))))"
    using i1 unfolding sv_insert_def n by (auto simp: sv_inv_def)
  show ?thesis
  proof (cases "(\<exists>e. flt = Before e) \<or> sv_rows s1 t = None")
    case True
    then have "s' = s1" "r \<noteq> None" using assms(2) unfolding run by (auto split: fault.splits)
    then show ?thesis using same assms(1) by simp
  next
    case False
    then obtain rs where rs: "sv_rows s1 t = Some rs" by auto
    have k: "keyed rs" "\<forall>r \<in> set rs. qr_id r \<le> sv_seq s1 t" using i1 rs by (auto simp: sv_inv_def)
    show ?thesis
    proof (cases "js h")
      case None
      then have "s' = s1\<lparr>sv_seq := (sv_seq s1)(t := sv_seq s1 t + 1)\<rparr>" "r \<noteq> None"
        using assms(2) False rs unfolding run by (auto split: fault.splits)
      moreover have "sv_inv js t (s1\<lparr>sv_seq := (sv_seq s1)(t := sv_seq s1 t + 1)\<rparr>)" using i1 rs k(2) by (auto simp: sv_inv_def)
      moreover have "sv_view t (s1\<lparr>sv_seq := (sv_seq s1)(t := sv_seq s1 t + 1)\<rparr>) = sv_view t s" using same by (simp add: sv_view_def)
      moreover have "sv_used t s \<subseteq> sv_used t (s1\<lparr>sv_seq := (sv_seq s1)(t := sv_seq s1 t + 1)\<rparr>)" using q by (auto simp: sv_used_def sv_quiet_def)
      ultimately show ?thesis by simp
    next
      case (Some h')
      let ?i = "sv_seq s1 t + 1"
      define x where "x = \<lparr>qr_id = ?i, qr_msg_id = mid, qr_headers = h', qr_payload = p, qr_locked_by = None, qr_locked_at = None,
        qr_visible_after = sv_now s1 + d, qr_delivery_count = 0, qr_lease_epoch = 0\<rparr>"
      have s': "s' = s1\<lparr>sv_seq := (sv_seq s1)(t := ?i), sv_rows := (sv_rows s1)(t \<mapsto> rs @ [x])\<rparr>"
        using assms(2) False rs Some unfolding run x_def by (auto split: fault.splits)
      have new: "?i \<notin> qr_id ` set rs" using k(2) by force
      then have none: "rows_view rs ?i = None" by (metis domIff rows_view_dom)
      have "keyed (rs @ [x])" using k(1) new by (simp add: keyed_def x_def)
      then have "sv_inv js t s'" using i1 k(2) by (auto simp: sv_inv_def s' x_def)
      moreover have "rows_view (rs @ [x]) = (rows_view rs)(?i \<mapsto> new_row mid h' p)"
        using none by (auto simp: rows_view_def map_of_append row_view_def new_row_def map_add_def fun_eq_iff x_def split: option.splits)
      moreover have "sv_view t s = rows_view rs" "sv_view t s' = rows_view (rs @ [x])" using same rs by (simp_all add: sv_view_def s')
      moreover have "sv_used t s \<subseteq> sv_used t s'" "?i \<notin> sv_used t s" using q by (auto simp: sv_used_def s' sv_quiet_def)
      ultimately show ?thesis using none Some by auto
    qed
  qed
qed


lemma bumped_leased: "claimed_row (lease_row now by r) = bumped_row r"
  by (simp add: bumped_row_def claimed_row_def lease_row_def Let_def)

definition only_rows :: "srv \<Rightarrow> srv \<Rightarrow> bool" where
  "only_rows s s' \<longleftrightarrow> sv_seq s' = sv_seq s \<and> sv_json s' = sv_json s \<and> sv_txs s' = sv_txs s \<and> sv_next s' = sv_next s"

lemma only_rows_quiet: "sv_quiet s s' \<Longrightarrow> only_rows s s'"
  by (simp add: sv_quiet_def only_rows_def)

lemma only_rows_trans: "only_rows s t \<Longrightarrow> only_rows t u \<Longrightarrow> only_rows s u"
  by (simp add: only_rows_def)

lemma sv_statement_only_rows: "sv_statement t f s = (Val r, s') \<Longrightarrow> only_rows s s'"
proof (erule sv_statement_cases, goal_cases)
  case (1 e)
  then show ?case by (simp add: only_rows_quiet)
next
  case (2 s1 rs rs' a)
  then show ?case by (simp add: only_rows_def sv_quiet_def)
qed

text \<open>The selected rows, once leased, are what the scan reported.\<close>

lemma scanned_mset:
  assumes "keyed rs" "set sel \<subseteq> set rs" "distinct sel" "ids = set (map qr_id sel)"
    "rs' = map (\<lambda>r. if qr_id r \<in> ids then lease_row now by r else r) rs"
  shows "mset (map bumped_row sel) = mset (map claimed_row (filter (\<lambda>r. qr_id r \<in> ids) rs'))"
proof -
  have inj: "inj_on qr_id (set rs)" and d: "distinct rs" using assms(1) by (simp_all add: keyed_def distinct_map)
  have hit: "filter (\<lambda>r. qr_id r \<in> ids) rs' = map (lease_row now by) (filter (\<lambda>r. qr_id r \<in> ids) rs)"
    unfolding assms(5) by (induction rs) (auto simp: lease_row_def)
  have "r \<in> set sel" if "r \<in> set rs" "qr_id r \<in> ids" for r
    using that assms(2,4) inj by (auto dest: inj_onD)
  then have "set sel = set (filter (\<lambda>r. qr_id r \<in> ids) rs)" using assms(2,4) by auto
  then have "mset sel = mset (filter (\<lambda>r. qr_id r \<in> ids) rs)"
    using set_eq_iff_mset_eq_distinct [OF assms(3) distinct_filter [OF d]] by blast
  then have "mset (map bumped_row sel) = mset (map bumped_row (filter (\<lambda>r. qr_id r \<in> ids) rs))" unfolding mset_map by simp
  then show ?thesis unfolding hit by (simp add: bumped_leased comp_def)
qed

lemma select_distinct: "(\<And>xs. mset (ord xs) = mset xs) \<Longrightarrow> distinct rs \<Longrightarrow> distinct (select_claimable ttl limit now ord locked rs)"
proof -
  assume o: "\<And>xs. mset (ord xs) = mset xs" and d: "distinct rs"
  have "distinct (ord rs)" using mset_eq_imp_distinct_iff [OF o] d by blast
  then show ?thesis unfolding select_claimable_def by (intro distinct_take) (simp only: distinct_sort distinct_filter)
qed

lemma mysqlClaimInTx_law:
  assumes "sv_inv js t s" "mysqlClaimInTx t n by ttl s = (Val r, s')"
  shows "only_rows s s' \<and> (\<forall>out. r = Inr out \<longrightarrow> sv_inv js t s' \<and> claim_effect n by (sv_view t s) r (sv_view t s'))"
proof -
  obtain r1 s1 where scan: "mysqlScanClaim t (Microseconds ttl) n s = (Val r1, s1)"
    using assms(2) by (auto simp: mysqlClaimInTx_def bindE_def bindP_def split: prod.splits res.splits)
  note o1 = sv_statement_only_rows [OF scan [unfolded mysqlScanClaim_def]]
  show ?thesis
  proof (cases r1)
    case (Inl e)
    then show ?thesis using assms(2) scan o1 by (auto simp: mysqlClaimInTx_def bindE_def bindP_def returnP_def)
  next
    case (Inr p)
    obtain out ids where p: "p = (out, ids)" by fastforce
    have "sv_statement t (\<lambda>now ord locked rs. if n < 0 then Inl bad_limit
        else (let sel = select_claimable (Microseconds ttl) n now ord locked rs in Inr (rs, map bumped_row sel, map qr_id sel))) s = (Val (Inr (out, ids)), s1)"
      using scan Inr p by (simp only: mysqlScanClaim_def)
    then obtain s0 rs where st: "sv_quiet s s0" "sv_rows s t = Some rs" "0 \<le> n"
      and sel: "out = map bumped_row (select_claimable (Microseconds ttl) n (sv_now s0) (sv_visit s0) (locked_ids t s0) rs)"
        "ids = map qr_id (select_claimable (Microseconds ttl) n (sv_now s0) (sv_visit s0) (locked_ids t s0) rs)"
      and s1: "sv_rows s1 t = Some rs"
    proof (cases rule: sv_statement_cases)
      case (took s0 rs rs' a)
      then have "0 \<le> n" "rs' = rs" by (simp_all add: Let_def split: if_splits)
      moreover have "a = (out, ids)" using took(5) by simp
      ultimately show ?thesis using that [of s0 rs] took(1-4) by (simp add: Let_def)
    qed simp
    define sel where "sel = select_claimable (Microseconds ttl) n (sv_now s0) (sv_visit s0) (locked_ids t s0) rs"
    have v: "sv_view t s = rows_view rs" "keyed rs" using st(2) assms(1) by (simp_all add: sv_view_def sv_inv_def)
    show ?thesis
    proof (cases "ids = []")
      case True
      then have "r = Inr []" "s' = s1" using assms(2) scan Inr p by (simp_all add: mysqlClaimInTx_def bindE_def bindP_def returnP_def)
      moreover have "sv_view t s1 = sv_view t s" "sv_inv js t s1"
        using s1 st(2) o1 assms(1) by (simp_all add: sv_view_def sv_inv_def only_rows_def)
      ultimately show ?thesis using o1 claim_effect_none by simp
    next
      case False
      let ?upd = "\<lambda>now ord locked rs. Inr (map (\<lambda>r. if qr_id r \<in> set ids then lease_row now by r else r) rs, ()) :: err + qrow list \<times> unit"
      obtain r2 where upd: "sv_statement t ?upd s1 = (Val r2, s')" and r: "r = (case r2 of Inl e \<Rightarrow> Inl e | Inr _ \<Rightarrow> Inr out)"
        using assms(2) scan Inr p False
        by (auto simp: mysqlClaimInTx_def bindE_def bindP_def returnP_def split: prod.splits res.splits sum.splits)
      note o2 = only_rows_trans [OF o1 sv_statement_only_rows [OF upd]]
      from upd show ?thesis
      proof (cases rule: sv_statement_cases)
        case (idle e)
        then show ?thesis using o2 r by simp
      next
        case (took s2 rs2 rs' u)
        have rs2: "rs2 = rs" using took(2) s1 by simp
        have rs': "rs' = map (\<lambda>r. if qr_id r \<in> set (map qr_id sel) then lease_row (sv_now s2) by r else r) rs"
          using took(3) rs2 sel(2) by (simp add: sel_def)
        have sub: "set sel \<subseteq> set rs" unfolding sel_def by (rule select_sub) (rule sv_visit_mset)
        have d: "distinct sel" unfolding sel_def using v(2) by (intro select_distinct sv_visit_mset) (simp add: keyed_def distinct_map)
        have len: "0 \<le> n \<longrightarrow> int (length sel) \<le> n" unfolding sel_def using select_length by blast
        have ro: "r = Inr out \<or> (\<exists>e. r = Inl e)" using r by (cases r2) simp_all
        have m: "mset out = mset (map claimed_row (filter (\<lambda>r. qr_id r \<in> set (map qr_id sel)) rs'))"
          unfolding sel(1) sel_def [symmetric] by (rule scanned_mset [OF v(2) sub d refl rs'])
        from claim_effect_selected [OF v(2) sub len refl rs' m ro]
        have e: "keyed rs'" "claim_effect n by (rows_view rs) r (rows_view rs')" "qr_id ` set rs' = qr_id ` set rs" by blast+
        have rows': "sv_rows s' t = Some rs'" using took(4) by simp
        then have "sv_view t s' = rows_view rs'" by (simp add: sv_view_def)
        moreover have "sv_inv js t s'"
          using e(1) arg_cong [OF e(3), of "\<lambda>A. \<forall>i\<in>A. i \<le> sv_seq s t"] rows' o2 assms(1) st(2) by (auto simp: sv_inv_def only_rows_def)
        ultimately show ?thesis using o2 e(2) v(1) by auto
      qed
    qed
  qed
qed

lemma mysql_lease_claim_law:
  assumes "sv_inv js t s" "sv_transaction (mysqlClaimInTx t n by ttl) s = (Val r, s')"
  shows "sv_inv js t s' \<and> claim_effect n by (sv_view t s) r (sv_view t s') \<and> sv_used t s' = sv_used t s"
proof -
  obtain flt s0 where b: "sv_event s = (flt, s0)" by fastforce
  note q = sv_event_quiet [OF b]
  note q' = sv_quiet_view [OF q, of t js]
  show ?thesis
  proof (cases "flt = Fine")
    case False
    then show ?thesis using assms b q' claim_effect_none by (auto simp: sv_transaction_def sv_begin_def split: fault.splits)
  next
    case True
    obtain x s1 where m: "mysqlClaimInTx t n by ttl s0 = (x, s1)" by fastforce
    obtain r1 where x: "x = Val r1" using assms(2) b True m by (cases x) (simp_all add: sv_transaction_def sv_begin_def)
    note law = mysqlClaimInTx_law [OF _ m [unfolded x], of js]
    have i0: "sv_inv js t s0" using q' assms(1) by simp
    have rolled: "sv_inv js t (u\<lparr>sv_rows := sv_rows s0\<rparr>) \<and> sv_view t (u\<lparr>sv_rows := sv_rows s0\<rparr>) = sv_view t s \<and> sv_used t (u\<lparr>sv_rows := sv_rows s0\<rparr>) = sv_used t s"
      if "only_rows s0 u" for u
      using that i0 q' by (simp add: only_rows_def sv_inv_def sv_view_def sv_used_def)
    have o1: "only_rows s0 s1" using law [OF i0] by blast
    show ?thesis
    proof (cases r1)
      case (Inl e)
      then have "r = Inl e" "s' = s1\<lparr>sv_rows := sv_rows s0\<rparr>" using assms(2) b True m x by (simp_all add: sv_transaction_def sv_begin_def)
      then show ?thesis using rolled [OF o1] claim_effect_none by simp
    next
      case (Inr out)
      have eff: "sv_inv js t s1" "claim_effect n by (sv_view t s) (Inr out) (sv_view t s1)" using law [OF i0] Inr q' by auto
      obtain f2 s2 where c: "sv_event s1 = (f2, s2)" by fastforce
      note q2 = sv_event_quiet [OF c]
      note q2' = sv_quiet_view [OF q2, of t js]
      have u: "sv_used t s1 = sv_used t s" using o1 q' by (simp add: only_rows_def sv_used_def)
      have fine: "claim_effect n by (sv_view t s) (Inl e) (sv_view t s2)" for e
        using eff(2) q2' unfolding claim_effect_def by auto
      show ?thesis
      proof (cases f2)
        case Fine
        then have "r = Inr out" "s' = s2" using assms(2) b True m x Inr c by (simp_all add: sv_transaction_def sv_begin_def)
        then show ?thesis using eff q2' u by simp
      next
        case (Before e)
        then have "r = Inl e" "s' = s2\<lparr>sv_rows := sv_rows s0\<rparr>" using assms(2) b True m x Inr c by (simp_all add: sv_transaction_def sv_begin_def)
        then show ?thesis using rolled [OF only_rows_trans [OF o1 only_rows_quiet [OF q2]]] claim_effect_none by simp
      next
        case (After e)
        then have "r = Inl e" "s' = s2" using assms(2) b True m x Inr c by (simp_all add: sv_transaction_def sv_begin_def)
        then show ?thesis using eff(1) fine q2' u by simp
      qed
    qed
  qed
qed


section \<open>Ids that are never reused\<close>

text \<open>
  A lease dialect whose ids are drawn once: \<open>used\<close> are the ids ever drawn. Then an id names one message for ever.
\<close>

locale unreused_dialect = lease_dialect +
  fixes used :: "'a \<Rightarrow> int set"
  assumes used_rows: "inv s \<Longrightarrow> dom (rows s) \<subseteq> used s"
    and used_claim: "inv s \<Longrightarrow> ld_Claim D ctx q table n by ttl s = (Val r, s') \<Longrightarrow> used s \<subseteq> used s'"
    and used_ack: "inv s \<Longrightarrow> ld_Ack D ctx q table i by ep s = (Val ra, s') \<Longrightarrow> used s \<subseteq> used s'"
    and used_nack: "inv s \<Longrightarrow> ld_Nack D ctx q table i by ep d s = (Val ra, s') \<Longrightarrow> used s \<subseteq> used s'"
    and used_exists: "inv s \<Longrightarrow> ld_SchemaExists D ctx q table s = (Val ra, s') \<Longrightarrow> used s \<subseteq> used s'"
    and used_insert: "inv s \<Longrightarrow> ld_Insert D ctx q table mid h p d s = (Val ri, s') \<Longrightarrow>
      used s \<subseteq> used s' \<and> (\<forall>i \<in> used s. rows s i = None \<longrightarrow> rows s' i = None)"
begin

text \<open>No id in use gets a new message: what is there now was there before.\<close>

definition steady :: "'a \<Rightarrow> 'a \<Rightarrow> bool" where
  "steady s s' \<longleftrightarrow> inv s' \<and> used s \<subseteq> used s' \<and> (\<forall>i \<in> used s. \<forall>w'. rows s' i = Some w' \<longrightarrow> (\<exists>w. rows s i = Some w \<and> later w w'))"

lemma steady_refl: "inv s \<Longrightarrow> steady s s"
  by (auto simp: steady_def later_refl)

lemma steady_trans:
  assumes "steady s t" "steady t u"
  shows "steady s u"
proof -
  have "\<exists>w. rows s i = Some w \<and> later w w'" if "i \<in> used s" "rows u i = Some w'" for i w'
    using assms that later_trans unfolding steady_def by (meson subsetD)
  then show ?thesis using assms unfolding steady_def by blast
qed

text \<open>An operation that only changes rows in place or removes them is steady.\<close>

lemma steady_if:
  assumes "inv s'" "used s \<subseteq> used s'" "\<And>i. rows s' i = None \<or> (\<exists>w w'. rows s i = Some w \<and> rows s' i = Some w' \<and> later w w')"
  shows "steady s s'"
  unfolding steady_def using assms by (metis option.distinct(1) option.inject)

lemma steady_claim:
  assumes "inv s" "ld_Claim D ctx q table n by ttl s = (Val r, s')"
  shows "steady s s'"
proof -
  obtain ids where i: "inv s'" and t: "rows s' = (\<lambda>i. if i \<in> ids then map_option (lease_to by) (rows s i) else rows s i)"
    using claim_law [OF assms] by blast
  show ?thesis
  proof (rule steady_if [OF i used_claim [OF assms]])
    fix i
    show "rows s' i = None \<or> (\<exists>w w'. rows s i = Some w \<and> rows s' i = Some w' \<and> later w w')"
      using fun_cong [OF t, of i] by (cases "rows s i") (auto simp: later_refl later_steps)
  qed
qed

lemma steady_nack:
  assumes "inv s" "ld_Nack D ctx q table i by ep d s = (Val r, s')"
  shows "steady s s'"
proof (rule steady_if)
  note law = nack_law [OF assms]
  show "inv s'" using law by blast
  show "used s \<subseteq> used s'" by (rule used_nack [OF assms])
  fix k
  have "rows s' k = rows s k \<or> rows s' k = map_option unlease (rows s k)" using law by (cases "k = i") (auto split: sum.splits if_splits)
  then show "rows s' k = None \<or> (\<exists>w w'. rows s k = Some w \<and> rows s' k = Some w' \<and> later w w')"
    by (cases "rows s k") (auto simp: later_refl later_steps)
qed

lemma steady_ack:
  assumes "inv s" "ld_Ack D ctx q table i by ep s = (Val r, s')"
  shows "steady s s'"
proof (rule steady_if)
  note law = ack_law [OF assms]
  show "inv s'" using law by blast
  show "used s \<subseteq> used s'" by (rule used_ack [OF assms])
  fix k
  have "rows s' k = rows s k \<or> rows s' k = None" using law by (cases "k = i") (auto split: sum.splits if_splits)
  then show "rows s' k = None \<or> (\<exists>w w'. rows s k = Some w \<and> rows s' k = Some w' \<and> later w w')"
    by (cases "rows s k") (auto simp: later_refl)
qed

lemma steady_exists:
  assumes "inv s" "ld_SchemaExists D ctx q table s = (Val r, s')"
  shows "steady s s'"
proof (rule steady_if)
  note law = exists_law [OF assms]
  show "inv s'" using law by blast
  show "used s \<subseteq> used s'" by (rule used_exists [OF assms])
  show "rows s' k = None \<or> (\<exists>w w'. rows s k = Some w \<and> rows s' k = Some w' \<and> later w w')" for k
    using law by (cases "rows s k") (auto simp: later_refl)
qed

lemma steady_insert:
  assumes "inv s" "ld_Insert D ctx q table mid h p d s = (Val r, s')"
  shows "steady s s'"
proof -
  note law = insert_law [OF assms] and u = used_insert [OF assms]
  have "\<exists>w. rows s i = Some w \<and> later w w'" if "i \<in> used s" "rows s' i = Some w'" for i w'
  proof (cases "rows s i")
    case None
    then show ?thesis using u that by auto
  next
    case (Some w)
    then have "rows s' i = rows s i" using law by auto
    then show ?thesis using Some that by (simp add: later_refl)
  qed
  then show ?thesis using law u unfolding steady_def by blast
qed

lemma steady_lease_rows:
  assumes "worker sr" "inv s" "lease_rows L sr ctx rs s = (Val ds, s')"
  shows "steady s s'"
  using assms(2,3)
proof (induction rs arbitrary: s ds)
  case Nil
  then show ?case by (simp add: returnP_def steady_refl)
next
  case (Cons x xs)
  note base = worker_base [OF assms(1)]
  show ?case
  proof (cases "DecodeHeaders L (cr_Headers x)")
    case (Inl e)
    obtain r s1 where n: "ld_Nack D ctx q table (cr_ID x) (sr_lockedBy sr) (cr_LeaseEpoch x) (corrupt_penalty L (cr_DeliveryCount x)) s = (Val r, s1)"
      and l: "lease_rows L sr ctx xs s1 = (Val ds, s')"
      using Cons.prems(2) Inl by (auto simp: base bindP_def split: prod.splits res.splits)
    note st = steady_nack [OF Cons.prems(1) n]
    then have "inv s1" by (simp add: steady_def)
    from steady_trans [OF st Cons.IH [OF this l]] show ?thesis .
  next
    case (Inr h)
    then obtain ds' where "lease_rows L sr ctx xs s = (Val ds', s')"
      using Cons.prems(2) by (auto simp: bindP_def returnP_def split: prod.splits res.splits)
    then show ?thesis by (rule Cons.IH [OF Cons.prems(1)])
  qed
qed

lemma steady_classify:
  assumes "inv s" "classifyQueryErr base ctx e s = (Val x, s')"
  shows "steady s s'"
proof -
  obtain r where "ld_SchemaExists D ctx q table s = (Val r, s')"
    using assms(2) by (auto simp: classifyQueryErr_def bindP_def returnP_def split: prod.splits res.splits)
  then show ?thesis by (rule steady_exists [OF assms(1)])
qed

lemma steady_poll:
  assumes "worker sr" "inv s" "Source_Poll L sr ctx mx s = (Val r, s')"
  shows "steady s s'"
proof -
  have b: "sr_base sr = base" using assms(1) by (simp add: worker_def)
  have p: "pollLease L sr ctx mx s = (Val r, s')" using assms by (simp add: Source_Poll_def worker_def)
  obtain c s1 where c: "ld_Claim D ctx q table mx (sr_lockedBy sr) (sr_leaseTTL sr) s = (Val c, s1)"
    using p by (auto simp: b pollLease_def bindP_def Let_def split: prod.splits res.splits)
  note st = steady_claim [OF assms(2) c]
  then have i1: "inv s1" by (simp add: steady_def)
  show ?thesis
  proof (cases c)
    case (Inl e)
    then obtain e' where "classifyQueryErr base ctx e s1 = (Val e', s')"
      using p c by (auto simp: b pollLease_def bindP_def returnP_def Let_def split: prod.splits res.splits)
    from steady_trans [OF st steady_classify [OF i1 this]] show ?thesis .
  next
    case (Inr rs)
    then obtain ds where "lease_rows L sr ctx rs s1 = (Val ds, s')"
      using p c by (auto simp: b pollLease_def bindP_def returnP_def Let_def split: prod.splits res.splits)
    from steady_trans [OF st steady_lease_rows [OF assms(1) i1 this]] show ?thesis .
  qed
qed

lemma steady_send:
  assumes "inv s" "so_base ob = base" "so_resolver ob = None" "SqlOutbound_SendAfter L ob ctx m d s = (Val e, s')"
  shows "steady s s'"
proof (cases "\<exists>hb p. EncodeHeaders L (headers m) = Inr hb \<and> payload m = GBytes p")
  case False
  then have "s' = s" using assms
    by (auto simp: SqlOutbound_SendAfter_def returnP_def split: sum.splits goval.splits)
  then show ?thesis using assms(1) by (simp add: steady_refl)
next
  case True
  then obtain hb p where h: "EncodeHeaders L (headers m) = Inr hb" "payload m = GBytes p" by blast
  obtain r s1 where i: "ld_Insert D ctx q table (ID m) hb p d s = (Val r, s1)"
    using assms h by (auto simp: SqlOutbound_SendAfter_def resolveQuerier_def bindP_def returnP_def split: prod.splits res.splits)
  note st = steady_insert [OF assms(1) i]
  then have i1: "inv s1" by (simp add: steady_def)
  show ?thesis
  proof (cases r)
    case None
    then show ?thesis using assms h i st by (auto simp: SqlOutbound_SendAfter_def resolveQuerier_def bindP_def returnP_def)
  next
    case (Some x)
    then obtain y where "ld_SchemaExists D ctx q table s1 = (Val y, s')"
      using assms h i by (auto simp: SqlOutbound_SendAfter_def resolveQuerier_def classifyQueryErr_def bindP_def returnP_def split: prod.splits res.splits)
    from steady_trans [OF st steady_exists [OF i1 this]] show ?thesis .
  qed
qed

lemma one_message:
  assumes "queue_run L base rows env as s s'" and "\<And>t u. env t u \<Longrightarrow> inv t \<Longrightarrow> inv u \<and> rows u = rows t \<and> used u = used t" and "inv s"
  shows "steady s s'"
  using assms(1,3)
proof (induction rule: queue_run.induct)
  case (start s)
  then show ?case by (rule steady_refl)
next
  case (world as s s1 s')
  note st = world.IH [OF world.prems]
  have "inv s1" using st by (simp add: steady_def)
  from assms(2) [OF world.hyps(2) this] st show ?case by (simp add: steady_def)
next
  case (poll as s s1 sr ctx mx r s')
  note st = poll.IH [OF poll.prems]
  have "inv s1" "worker sr" using st poll.hyps(2,3) by (simp_all add: steady_def worker_def)
  from steady_trans [OF st steady_poll [OF this(2,1) poll.hyps(4)]] show ?case .
next
  case (ack as s s1 sr i ep ctx e s')
  note st = ack.IH [OF ack.prems]
  have i1: "inv s1" using st by (simp add: steady_def)
  obtain r where "ld_Ack D ctx q table i (sr_lockedBy sr) ep s1 = (Val r, s')"
    using ack.hyps(2,3) by (auto simp: lease_ackClosure_def bindP_def returnP_def Let_def split: prod.splits res.splits)
  from steady_trans [OF st steady_ack [OF i1 this]] show ?case .
next
  case (nack as s s1 sr i ep ctx requeue d e s')
  note st = nack.IH [OF nack.prems]
  have i1: "inv s1" using st by (simp add: steady_def)
  obtain r where "ld_Nack D ctx q table i (sr_lockedBy sr) ep (if requeue then d else 0) s1 = (Val r, s')"
    using nack.hyps(2,3) by (auto simp: lease_nackClosure_def bindP_def returnP_def Let_def split: prod.splits res.splits)
  from steady_trans [OF st steady_nack [OF i1 this]] show ?case .
next
  case (send as s s1 ob ctx m d e s')
  note st = send.IH [OF send.prems]
  have i1: "inv s1" using st by (simp add: steady_def)
  from steady_trans [OF st steady_send [OF i1 send.hyps(2,3,4)]] show ?case .
qed

end


text \<open>What the operations of both dialects do, with the table name checked first.\<close>

lemma quoted_run:
  assumes "quoted quote t m s = (Val r, s')" "sv_inv js t s"
    "\<And>r s'. m s = (Val r, s') \<Longrightarrow> R r s'" "\<And>e. R (Inl e) s"
  shows "R r s'"
  using assms by (auto simp: quoted_def returnP_def split: sum.splits)

lemma sv_claim_law:
  assumes "sv_inv js t s" "ld_Claim D ctx Pool t n by ttl s = (Val r, s')" "D = postgres_LeaseDialect \<or> D = mysql_LeaseDialect"
  shows "sv_inv js t s' \<and> claim_effect n by (sv_view t s) r (sv_view t s') \<and> sv_used t s' = sv_used t s"
proof -
  let ?R = "\<lambda>r s'. sv_inv js t s' \<and> claim_effect n by (sv_view t s) r (sv_view t s') \<and> sv_used t s' = sv_used t s"
  have none: "?R (Inl e) s" for e using assms(1) claim_effect_none by blast
  from assms(3) show ?thesis
  proof
    assume "D = postgres_LeaseDialect"
    then have "quoted pgQuoteTable t (sv_statement t (pg_claim_statement by (Microseconds ttl) n)) s = (Val r, s')"
      using assms(2) by (simp add: postgres_LeaseDialect_def postgres_Claim_def)
    then show ?thesis by (rule quoted_run [where R = ?R, OF _ assms(1) pg_claim_law [OF assms(1)] none])
  next
    assume "D = mysql_LeaseDialect"
    then have "quoted mysqlQuoteTable t (sv_transaction (mysqlClaimInTx t n by ttl)) s = (Val r, s')"
      using assms(2) by (simp add: mysql_LeaseDialect_def mysql_Claim_def)
    then show ?thesis by (rule quoted_run [where R = ?R, OF _ assms(1) mysql_lease_claim_law [OF assms(1)] none])
  qed
qed

lemma sv_ack_law:
  assumes "sv_inv js t s" "ld_Ack D ctx q t i by ep s = (Val r, s')" "D = postgres_LeaseDialect \<or> D = mysql_LeaseDialect"
  shows "sv_inv js t s' \<and> sv_used t s' = sv_used t s \<and>
    (case r of
       Inr a \<Rightarrow> a = leased (sv_view t s) i by ep \<and> sv_view t s' = (if a then (sv_view t s)(i := None) else sv_view t s)
     | Inl e \<Rightarrow> sv_view t s' = sv_view t s \<or> leased (sv_view t s) i by ep \<and> sv_view t s' = (sv_view t s)(i := None))"
    (is "?R r s'")
proof -
  obtain quote where "quoted quote t (bindP (sv_statement t (sv_delete i by ep)) (\<lambda>r. returnP (affected r))) s = (Val r, s')"
    using assms(2,3) by (auto simp: postgres_LeaseDialect_def postgres_Ack_def mysql_LeaseDialect_def mysql_Ack_def)
  then show ?thesis
  proof (rule quoted_run [where R = ?R, OF _ assms(1)], goal_cases)
    case (1 r s')
    then show ?case
      unfolding sv_delete_def by (rule sv_settle_law [OF assms(1) _ sv_delete_view])
  qed (use assms(1) in simp)
qed

lemma sv_nack_law:
  assumes "sv_inv js t s" "ld_Nack D ctx q t i by ep d s = (Val r, s')" "D = postgres_LeaseDialect \<or> D = mysql_LeaseDialect"
  shows "sv_inv js t s' \<and> sv_used t s' = sv_used t s \<and>
    (case r of
       Inr a \<Rightarrow> a = leased (sv_view t s) i by ep \<and> sv_view t s' = (if a then (sv_view t s)(i := map_option unlease (sv_view t s i)) else sv_view t s)
     | Inl e \<Rightarrow> sv_view t s' = sv_view t s \<or> leased (sv_view t s) i by ep \<and> sv_view t s' = (sv_view t s)(i := map_option unlease (sv_view t s i)))"
    (is "?R r s'")
proof -
  obtain quote where "quoted quote t (bindP (sv_statement t (sv_release i by ep (Microseconds d))) (\<lambda>r. returnP (affected r))) s = (Val r, s')"
    using assms(2,3) by (auto simp: postgres_LeaseDialect_def postgres_Nack_def mysql_LeaseDialect_def mysql_Nack_def)
  then show ?thesis
  proof (rule quoted_run [where R = ?R, OF _ assms(1)], goal_cases)
    case (1 r s')
    then show ?case
      unfolding sv_release_def
      by (rule sv_settle_law [where g = "\<lambda>v. v(i := map_option unlease (v i))", OF assms(1) _ sv_release_view])
  qed (use assms(1) in simp)
qed

lemma sv_put_law:
  assumes "sv_inv js t s" "ld_Insert D ctx q t mid h p d s = (Val r, s')" "D = postgres_LeaseDialect \<or> D = mysql_LeaseDialect"
  shows "sv_inv js t s' \<and> sv_used t s \<subseteq> sv_used t s' \<and> ((sv_view t s' = sv_view t s \<and> r \<noteq> None)
    \<or> (\<exists>i. i \<notin> sv_used t s \<and> sv_view t s i = None \<and> sv_view t s' = (sv_view t s)(i \<mapsto> new_row mid (the (js h)) p)))"
proof (cases "ValidateIdent t")
  case None
  then have "sv_insert t mid h p (Microseconds d) s = (Val r, s')"
    using assms(2,3) by (auto simp: postgres_LeaseDialect_def postgres_Insert_def mysql_LeaseDialect_def mysql_Insert_def pgQuoteTable_def mysqlQuoteTable_def)
  then show ?thesis by (rule sv_insert_law [OF assms(1)])
next
  case (Some e)
  then have "r = Some e" "s' = s"
    using assms(2,3) by (auto simp: postgres_LeaseDialect_def postgres_Insert_def mysql_LeaseDialect_def mysql_Insert_def pgQuoteTable_def
        mysqlQuoteTable_def returnP_def)
  then show ?thesis using assms(1) by simp
qed

lemma sv_exists_law:
  assumes "sv_inv js t s" "ld_SchemaExists D ctx q t s = (Val r, s')" "D = postgres_LeaseDialect \<or> D = mysql_LeaseDialect"
  shows "sv_inv js t s' \<and> sv_view t s' = sv_view t s \<and> sv_used t s' = sv_used t s"
proof -
  have "sv_exists t s = (Val r, s')"
    using assms(2,3) by (auto simp: postgres_LeaseDialect_def postgres_SchemaExists_def mysql_LeaseDialect_def mysql_SchemaExists_def)
  then have "s' = s \<or> sv_quiet s s'" by (auto simp: sv_exists_def dest!: sv_event_quiet split: option.splits prod.splits)
  then show ?thesis using assms(1) sv_quiet_view by auto
qed

lemma sv_used_dom: "sv_inv js t s \<Longrightarrow> dom (sv_view t s) \<subseteq> sv_used t s"
  by (auto simp: sv_inv_def sv_view_def sv_used_def rows_view_dom split: option.splits)

lemma sv_lease_laws:
  assumes "D = postgres_LeaseDialect \<or> D = mysql_LeaseDialect"
  shows "unreused_dialect D Pool t (sv_view t) (sv_inv js t) (\<lambda>h. the (js h)) (sv_used t)"
proof (unfold_locales, goal_cases)
  case (1 s ctx n "by" ttl r s')
  then show ?case using sv_claim_law [OF 1 assms] unfolding claim_effect_def by blast
next
  case (2 s ctx i "by" ep ra s')
  then show ?case using sv_ack_law [OF 2 assms] by blast
next
  case (3 s ctx i "by" ep d ra s')
  then show ?case using sv_nack_law [OF 3 assms] by blast
next
  case (4 s ctx mid h p d ri s')
  then show ?case using sv_put_law [OF 4 assms] by blast
next
  case (5 s ctx ra s')
  then show ?case using sv_exists_law [OF 5 assms] by blast
next
  case (6 s)
  then show ?case by (rule sv_used_dom)
next
  case (7 s ctx n "by" ttl r s')
  then show ?case using sv_claim_law [OF 7 assms] by blast
next
  case (8 s ctx i "by" ep ra s')
  then show ?case using sv_ack_law [OF 8 assms] by blast
next
  case (9 s ctx i "by" ep d ra s')
  then show ?case using sv_nack_law [OF 9 assms] by blast
next
  case (10 s ctx ra s')
  then show ?case using sv_exists_law [OF 10 assms] by blast
next
  case (11 s ctx mid h p d ri s')
  then show ?case using sv_put_law [OF 11 assms] by auto
qed

interpretation postgres: unreused_dialect postgres_LeaseDialect Pool t "sv_view t" "sv_inv js t" "\<lambda>h. the (js h)" "sv_used t" for t js
  by (rule sv_lease_laws) simp

interpretation mysql: unreused_dialect mysql_LeaseDialect Pool t "sv_view t" "sv_inv js t" "\<lambda>h. the (js h)" "sv_used t" for t js
  by (rule sv_lease_laws) simp

text \<open>Between two operations the clock moves, failures come up, and transactions of others open and close.\<close>

definition sv_env :: "srv \<Rightarrow> srv \<Rightarrow> bool" where
  "sv_env s s' \<longleftrightarrow> sv_rows s' = sv_rows s \<and> sv_seq s' = sv_seq s \<and> sv_json s' = sv_json s"

abbreviation server_base :: "(srv, querier, nat) LeaseDialect \<Rightarrow> string \<Rightarrow> (srv, querier, nat) adapterBase" where
  "server_base D t \<equiv> \<lparr>ab_db = Pool, ab_table = t, ab_dialect = D\<rparr>"

text \<open>
  C24. The queue over PostgreSQL and over MySQL. Over any interleaving of polls, acknowledgements, negative acknowledgements, sends,
  clock changes, row locks of other transactions and failing statements and commits, a message in the table stays there with
  its content until an acknowledgement of it is called while the caller holds its current lease; and an id once drawn
  never names another message: what stands under it at the end is the message that stood under it at the start.
\<close>

theorem server_queue_keeps_messages:
  assumes "D = postgres_LeaseDialect \<or> D = mysql_LeaseDialect" "queue_run L (server_base D t) (sv_view t) sv_env as s s'" "sv_inv js t s"
  shows "(\<forall>i w. sv_view t s i = Some w \<longrightarrow> (\<exists>w'. sv_view t s' i = Some w' \<and> later w w') \<or> (\<exists>by ep. (i, by, ep) \<in> set as))
    \<and> (\<forall>i w'. i \<le> sv_seq s t \<longrightarrow> sv_view t s' i = Some w' \<longrightarrow> (\<exists>w. sv_view t s i = Some w \<and> later w w'))"
proof -
  have env: "sv_inv js t v \<and> sv_view t v = sv_view t u \<and> sv_used t v = sv_used t u" if "sv_env u v" "sv_inv js t u" for u v
    using that by (simp add: sv_env_def sv_inv_def sv_view_def sv_used_def)
  from assms(1) have "(\<forall>i w. sv_view t s i = Some w \<longrightarrow> (\<exists>w'. sv_view t s' i = Some w' \<and> later w w') \<or> (\<exists>by ep. (i, by, ep) \<in> set as))
    \<and> (\<forall>i \<in> sv_used t s. \<forall>w'. sv_view t s' i = Some w' \<longrightarrow> (\<exists>w. sv_view t s i = Some w \<and> later w w'))"
  proof
    assume D: "D = postgres_LeaseDialect"
    show ?thesis using postgres.at_least_once [OF assms(2) [unfolded D] _ assms(3)] postgres.one_message [OF assms(2) [unfolded D] env assms(3)] env
      unfolding postgres.steady_def by blast
  next
    assume D: "D = mysql_LeaseDialect"
    show ?thesis using mysql.at_least_once [OF assms(2) [unfolded D] _ assms(3)] mysql.one_message [OF assms(2) [unfolded D] env assms(3)] env
      unfolding mysql.steady_def by blast
  qed
  then show ?thesis by (auto simp: sv_used_def)
qed


section \<open>One statement or two\<close>

lemma sv_statement_calm:
  assumes "sv_events s = []" "sv_rows s t = Some rs"
  shows "sv_statement t f s = (case f (sv_now s) (sv_visit s) (locked_ids t s) rs of
    Inl e \<Rightarrow> (Val (Inl e), s) | Inr (rs', a) \<Rightarrow> (Val (Inr a), s\<lparr>sv_rows := (sv_rows s)(t \<mapsto> rs')\<rparr>))"
  using assms by (auto simp: sv_statement_def sv_event_def split: sum.splits)

lemma sv_transaction_calm:
  assumes "sv_events s = []" "m s = (Val r, s')" "sv_events s' = []" "\<And>e. r = Inl e \<Longrightarrow> s'\<lparr>sv_rows := sv_rows s\<rparr> = s'"
  shows "sv_transaction m s = (Val r, s')"
  using assms by (cases r) (simp_all add: sv_transaction_def sv_begin_def sv_event_def)

lemma mysqlClaimInTx_calm:
  assumes calm: "sv_events s = []" and rs: "sv_rows s t = Some rs" and n: "0 \<le> n"
    and sel: "sel = select_claimable (Microseconds ttl) n (sv_now s) (sv_visit s) (locked_ids t s) rs"
  shows "mysqlClaimInTx t n by ttl s = (Val (Inr (map bumped_row sel)),
    s\<lparr>sv_rows := (sv_rows s)(t \<mapsto> map (\<lambda>r. if qr_id r \<in> set (map qr_id sel) then lease_row (sv_now s) by r else r) rs)\<rparr>)"
proof -
  have same: "s\<lparr>sv_rows := (sv_rows s)(t \<mapsto> rs)\<rparr> = s" using rs by (simp add: map_upd_triv)
  have scan: "mysqlScanClaim t (Microseconds ttl) n s = (Val (Inr (map bumped_row sel, map qr_id sel)), s)"
    using n by (simp add: mysqlScanClaim_def sv_statement_calm [OF calm rs] Let_def sel same)
  show ?thesis
  proof (cases "sel = []")
    case True
    then show ?thesis using scan by (simp add: mysqlClaimInTx_def bindE_def bindP_def returnP_def same)
  next
    case False
    then show ?thesis using scan by (simp add: mysqlClaimInTx_def bindE_def bindP_def returnP_def sv_statement_calm [OF calm rs])
  qed
qed

lemma pg_claim_calm:
  assumes calm: "sv_events s = []" and rs: "sv_rows s t = Some rs" and n: "0 \<le> n"
    and sel: "sel = select_claimable ttl n (sv_now s) (sv_visit s) (locked_ids t s) rs"
    and rs': "rs' = map (\<lambda>r. if qr_id r \<in> set (map qr_id sel) then lease_row (sv_now s) by r else r) rs"
  shows "sv_statement t (pg_claim_statement by ttl n) s
    = (Val (Inr (map claimed_row (sv_visit s (filter (\<lambda>r. qr_id r \<in> set (map qr_id sel)) rs')))), s\<lparr>sv_rows := (sv_rows s)(t \<mapsto> rs')\<rparr>)"
  using n by (simp add: sv_statement_calm [OF calm rs] pg_claim_statement_def Let_def sel rs')

text \<open>
  C26. The MySQL claim, a locking read and an update in one transaction with the new counts computed by the client, is
  equivalent to the single statement of PostgreSQL: without failures both give the same error or the same rows (in whatever
  order they are returned) and leave the same table, for every table, limit, worker and lease time.
\<close>

theorem server_claims_agree:
  assumes "sv_events s = []" "\<forall>rs. sv_rows s t = Some rs \<longrightarrow> keyed rs"
  shows "\<exists>rp rm s'. postgres_Claim ctx q t n by ttl s = (Val rp, s') \<and> mysql_Claim ctx Pool t n by ttl s = (Val rm, s')
    \<and> (case rp of Inl e \<Rightarrow> rm = Inl e | Inr xs \<Rightarrow> (\<exists>ys. rm = Inr ys \<and> mset ys = mset xs))"
proof (cases "ValidateIdent t")
  case (Some e)
  then show ?thesis
    by (simp add: postgres_Claim_def mysql_Claim_def quoted_def pgQuoteTable_def mysqlQuoteTable_def returnP_def)
next
  case None
  then have run: "postgres_Claim ctx q t n by ttl s = sv_statement t (pg_claim_statement by (Microseconds ttl) n) s"
    "mysql_Claim ctx Pool t n by ttl s = sv_transaction (mysqlClaimInTx t n by ttl) s"
    by (simp_all add: postgres_Claim_def mysql_Claim_def quoted_def pgQuoteTable_def mysqlQuoteTable_def)
  show ?thesis
  proof (cases "sv_rows s t")
    case None
    then have "sv_statement t f s = (Val (Inl no_such_table), s)" for f :: "_ \<Rightarrow> _ \<Rightarrow> _ \<Rightarrow> _ \<Rightarrow> err + qrow list \<times> 'b"
      using assms(1) by (simp add: sv_statement_def sv_event_def)
    then show ?thesis using assms(1) None unfolding run
      by (simp add: sv_transaction_def sv_begin_def sv_event_def mysqlClaimInTx_def mysqlScanClaim_def sv_statement_def bindE_def bindP_def returnP_def)
  next
    case (Some rs)
    show ?thesis
    proof (cases "n < 0")
      case True
      then show ?thesis unfolding run using assms(1) Some
        by (simp add: sv_transaction_def sv_begin_def sv_event_def mysqlClaimInTx_def mysqlScanClaim_def sv_statement_def bindE_def bindP_def
            returnP_def pg_claim_statement_def)
    next
      case False
      then have n: "0 \<le> n" by simp
      define sel where "sel = select_claimable (Microseconds ttl) n (sv_now s) (sv_visit s) (locked_ids t s) rs"
      define rs' where "rs' = map (\<lambda>r. if qr_id r \<in> set (map qr_id sel) then lease_row (sv_now s) by r else r) rs"
      note my = mysqlClaimInTx_calm [OF assms(1) Some n sel_def, of "by", folded rs'_def]
      have tx: "sv_transaction (mysqlClaimInTx t n by ttl) s = (Val (Inr (map bumped_row sel)), s\<lparr>sv_rows := (sv_rows s)(t \<mapsto> rs')\<rparr>)"
        by (rule sv_transaction_calm [where s = s, OF assms(1)]) (simp_all add: my assms(1))
      have k: "keyed rs" using assms(2) Some by simp
      have sub: "set sel \<subseteq> set rs" unfolding sel_def by (rule select_sub) (rule sv_visit_mset)
      have d: "distinct sel" unfolding sel_def using k by (intro select_distinct sv_visit_mset) (simp add: keyed_def distinct_map)
      have "mset (map bumped_row sel) = mset (map claimed_row (sv_visit s (filter (\<lambda>r. qr_id r \<in> set (map qr_id sel)) rs')))"
        using scanned_mset [OF k sub d refl rs'_def] unfolding mset_map sv_visit_mset .
      then show ?thesis unfolding run tx pg_claim_calm [OF assms(1) Some n sel_def rs'_def] by auto
    qed
  qed
qed

definition demo_srv :: srv where
  "demo_srv = \<lparr>sv_rows = [''q'' \<mapsto> [demo_row]], sv_seq = (\<lambda>_. 1), sv_json = Some, sv_now = 0, sv_events = [], sv_order = id,
     sv_txs = Map.empty, sv_next = 0\<rparr>"

lemma demo_srv_inv: "sv_inv Some ''q'' demo_srv"
  by (simp add: sv_inv_def demo_srv_def keyed_def demo_row_def)

theorem server_claims_agree_witness:
  "\<exists>rp rm s'. postgres_Claim (\<lambda>_. None) Pool ''q'' 5 ''w'' (5 * Minute) demo_srv = (Val rp, s')
    \<and> mysql_Claim (\<lambda>_. None) Pool ''q'' 5 ''w'' (5 * Minute) demo_srv = (Val rm, s')
    \<and> (case rp of Inl e \<Rightarrow> rm = Inl e | Inr xs \<Rightarrow> (\<exists>ys. rm = Inr ys \<and> mset ys = mset xs))"
proof -
  have "sv_events demo_srv = []" "\<forall>rs. sv_rows demo_srv ''q'' = Some rs \<longrightarrow> keyed rs" by (simp_all add: demo_srv_def keyed_def)
  then show ?thesis by (rule server_claims_agree)
qed

text \<open>A worker claims the demonstration row and acknowledges it.\<close>

definition server_source :: "(srv, querier, nat) Source" where
  "server_source = \<lparr>sr_base = server_base mysql_LeaseDialect ''q'', sr_strategy = 0, sr_leaseTTL = 5 * Minute, sr_lockedBy = ''w'', sr_lockDialect = None\<rparr>"

theorem server_queue_keeps_messages_witness:
  "\<exists>e s'. queue_run demo_lib (server_base mysql_LeaseDialect ''q'') (sv_view ''q'') sv_env [] demo_srv s'
    \<and> lease_ackClosure server_source 1 7 (\<lambda>_. None) demo_srv = (Val e, s')
    \<and> (\<exists>w'. sv_view ''q'' s' 1 = Some w' \<and> later (row_view demo_row) w')"
proof -
  obtain x s' where a: "ld_Ack mysql_LeaseDialect (\<lambda>_. None) Pool ''q'' 1 ''w'' 7 demo_srv = (Val x, s')"
    by (simp add: mysql_LeaseDialect_def mysql_Ack_def quoted_def mysqlQuoteTable_def valid_q sv_statement_calm demo_srv_def sv_delete_def sv_settle_def
        fenced_def demo_row_def bindP_def returnP_def)
  then obtain e where e: "lease_ackClosure server_source 1 7 (\<lambda>_. None) demo_srv = (Val e, s')"
    by (simp add: lease_ackClosure_def server_source_def bindP_def returnP_def Let_def)
  have v: "sv_view ''q'' demo_srv 1 = Some (row_view demo_row)" by (simp add: sv_view_def demo_srv_def rows_view_def demo_row_def)
  have nl: "\<not> leased (sv_view ''q'' demo_srv) 1 (sr_lockedBy server_source) 7" by (simp add: leased_def v row_view_def demo_row_def)
  have b: "sr_base server_source = server_base mysql_LeaseDialect ''q''" by (simp add: server_source_def)
  have run: "queue_run demo_lib (server_base mysql_LeaseDialect ''q'') (sv_view ''q'') sv_env [] demo_srv s'"
    using queue_run.ack [OF queue_run.start b e, of demo_lib "sv_view ''q''" sv_env] nl by simp
  from server_queue_keeps_messages [OF _ run demo_srv_inv] v run e show ?thesis by (metis empty_iff empty_set)
qed

end
