(* ===== verification/Server_Lock.thy ===== *)
theory Server_Lock
  imports Server_Lease
begin

text \<open>
  The lock strategy of the queue over PostgreSQL and MySQL (\<open>ClaimLock_with\<close>, \<open>AckLock_with\<close> and \<open>NackLock_with\<close> of \<open>Server_Lease\<close>,
  driven by \<open>pollLock\<close> and the closures of \<open>Sql_Lease\<close>). A claim leaves a transaction open that holds the
  row; a settlement ends it; a crash rolls it back. The lemmas say of each operation that open transactions go on holding the
  rows they hold, no two the same one, and which row may disappear; together they give that the strategy
  delivers a message to one worker at a time and keeps it until that worker acknowledges it.
\<close>

section \<open>The lock strategy holds a message until it is settled\<close>

text \<open>
  The invariant: open transactions hold different rows of the table, all present, and will leave them present with the
  same content or delete them.
\<close>

definition holds :: "string \<Rightarrow> srv \<Rightarrow> nat \<Rightarrow> pending \<Rightarrow> bool" where
  "holds t s n c \<longleftrightarrow> (\<exists>x. sv_txs s n = Some x \<and> ltx_table x = t \<and> ltx_change x = Some c)"

definition sound_change :: "ltable \<Rightarrow> pending \<Rightarrow> bool" where
  "sound_change v c \<longleftrightarrow> (\<exists>w. v (pending_id c) = Some w \<and> (\<forall>r. c = PUpdate r \<longrightarrow> later w (row_view r)))"

definition lock_inv :: "(string \<Rightarrow> string option) \<Rightarrow> string \<Rightarrow> srv \<Rightarrow> bool" where
  "lock_inv js t s \<longleftrightarrow> sv_inv js t s \<and> (\<forall>n. sv_txs s n \<noteq> None \<longrightarrow> n < sv_next s) \<and> (\<forall>n c. holds t s n c \<longrightarrow> sound_change (sv_view t s) c)
     \<and> (\<forall>n m c d. holds t s n c \<longrightarrow> holds t s m d \<longrightarrow> pending_id c = pending_id d \<longrightarrow> n = m)"

text \<open>How the state moves: a transaction that holds a row keeps holding it as long as it is open, and rows stay unless they are in \<open>A\<close>.\<close>

definition same_rows_held :: "srv \<Rightarrow> srv \<Rightarrow> bool" where
  "same_rows_held s s' \<longleftrightarrow> sv_next s \<le> sv_next s' \<and> (\<forall>n < sv_next s. \<forall>x'. sv_txs s' n = Some x' \<longrightarrow> (\<exists>x. sv_txs s n = Some x
     \<and> (\<forall>c. ltx_change x = Some c \<longrightarrow> ltx_table x' = ltx_table x \<and> (\<exists>c'. ltx_change x' = Some c' \<and> pending_id c' = pending_id c))))"

definition lstep :: "(string \<Rightarrow> string option) \<Rightarrow> string \<Rightarrow> int set \<Rightarrow> srv \<Rightarrow> srv \<Rightarrow> bool" where
  "lstep js t A s s' \<longleftrightarrow> lock_inv js t s' \<and> same_rows_held s s' \<and> sv_seq s t \<le> sv_seq s' t
     \<and> (\<forall>i w. sv_view t s i = Some w \<longrightarrow> i \<in> A \<and> sv_view t s' i = None \<or> (\<exists>w'. sv_view t s' i = Some w' \<and> later w w'))
     \<and> (\<forall>i. i \<le> sv_seq s t \<longrightarrow> sv_view t s i = None \<longrightarrow> sv_view t s' i = None)"

lemma same_rows_held_trans:
  assumes "same_rows_held s t" "same_rows_held t u"
  shows "same_rows_held s u"
  unfolding same_rows_held_def
proof (intro conjI allI impI)
  show "sv_next s \<le> sv_next u" using assms by (simp add: same_rows_held_def)
  fix n x'' assume n: "n < sv_next s" "sv_txs u n = Some x''"
  then have "n < sv_next t" using assms(1) by (simp add: same_rows_held_def)
  then obtain x' where x': "sv_txs t n = Some x'" "\<And>c. ltx_change x' = Some c \<Longrightarrow> ltx_table x'' = ltx_table x' \<and> (\<exists>c'. ltx_change x'' = Some c' \<and> pending_id c' = pending_id c)"
    using assms(2) n(2) unfolding same_rows_held_def by blast
  obtain x where x: "sv_txs s n = Some x" "\<And>c. ltx_change x = Some c \<Longrightarrow> ltx_table x' = ltx_table x \<and> (\<exists>c'. ltx_change x' = Some c' \<and> pending_id c' = pending_id c)"
    using assms(1) n(1) x'(1) unfolding same_rows_held_def by blast
  have "ltx_table x'' = ltx_table x \<and> (\<exists>c'. ltx_change x'' = Some c' \<and> pending_id c' = pending_id c)" if "ltx_change x = Some c" for c
    using x(2) [OF that] x'(2) by metis
  then show "\<exists>x. sv_txs s n = Some x \<and> (\<forall>c. ltx_change x = Some c \<longrightarrow> ltx_table x'' = ltx_table x \<and> (\<exists>c'. ltx_change x'' = Some c' \<and> pending_id c' = pending_id c))"
    using x(1) by blast
qed

lemma lstep_kept:
  assumes "lstep js t A s s'" "sv_view t s i = Some w"
  obtains "i \<in> A" "sv_view t s' i = None" | w' where "sv_view t s' i = Some w'" "later w w'"
proof -
  have "i \<in> A \<and> sv_view t s' i = None \<or> (\<exists>w'. sv_view t s' i = Some w' \<and> later w w')"
    using assms(1) [unfolded lstep_def, THEN conjunct2, THEN conjunct2, THEN conjunct2, THEN conjunct1] assms(2) by simp
  then show thesis using that by auto
qed

lemma lstep_gone: "lstep js t A s s' \<Longrightarrow> i \<le> sv_seq s t \<Longrightarrow> sv_view t s i = None \<Longrightarrow> sv_view t s' i = None"
  by (simp add: lstep_def)

lemma lstep_trans:
  assumes inv: "lock_inv js t s" and st: "lstep js t A s u" "lstep js t B u v"
  shows "lstep js t (A \<union> B) s v"
proof -
  have seq: "sv_seq s t \<le> sv_seq u t" "sv_seq u t \<le> sv_seq v t" using st by (simp_all add: lstep_def)
  have used: "i \<le> sv_seq s t" if "sv_view t s i \<noteq> None" for i
    using inv that sv_used_dom [of js t s] by (auto simp: lock_inv_def sv_used_def dom_def)
  have gone: "sv_view t v i = None" if "i \<le> sv_seq s t" "sv_view t u i = None" for i
    using lstep_gone [OF st(2)] seq(1) that by simp
  have "i \<in> A \<union> B \<and> sv_view t v i = None \<or> (\<exists>w'. sv_view t v i = Some w' \<and> later w w')" if i: "sv_view t s i = Some w" for i w
  proof -
    from st(1) i show ?thesis
    proof (cases rule: lstep_kept)
      case 1
      then show ?thesis using gone used [of i] i by simp
    next
      case (2 w')
      from st(2) 2(1) show ?thesis by (cases rule: lstep_kept) (use 2(2) later_trans in blast)+
    qed
  qed
  moreover have "sv_view t v i = None" if "i \<le> sv_seq s t" "sv_view t s i = None" for i
    using lstep_gone [OF st(1) that] gone that(1) by simp
  moreover have "lock_inv js t v" "same_rows_held s v" using st same_rows_held_trans by (auto simp: lstep_def)
  ultimately show ?thesis unfolding lstep_def using seq by (intro conjI allI impI) auto
qed

lemma lstep_same_view:
  "lock_inv js t s' \<Longrightarrow> same_rows_held s s' \<Longrightarrow> sv_view t s' = sv_view t s \<Longrightarrow> sv_seq s' t = sv_seq s t \<Longrightarrow> lstep js t A s s'"
  by (simp add: lstep_def later_refl)

lemma lstep_idle: "lock_inv js t s \<Longrightarrow> sv_quiet s s' \<Longrightarrow> lstep js t {} s s'"
proof -
  assume a: "lock_inv js t s" "sv_quiet s s'"
  have v: "sv_view t s' = sv_view t s" "sv_inv js t s' = sv_inv js t s" using sv_quiet_view [OF a(2)] by auto
  have h: "holds t s' = holds t s" using a(2) by (simp add: holds_def sv_quiet_def fun_eq_iff)
  have "lock_inv js t s'" using a unfolding lock_inv_def v h by (simp add: sv_quiet_def)
  moreover have "same_rows_held s s'" using a(2) by (auto simp: same_rows_held_def sv_quiet_def)
  ultimately show ?thesis by (rule lstep_same_view) (rule v(1), use a(2) in \<open>simp add: sv_quiet_def\<close>)
qed

lemma lstep_inv: "lstep js t A s s' \<Longrightarrow> lock_inv js t s'"
  by (simp add: lstep_def)

text \<open>Opening and closing a transaction.\<close>

lemma lstep_begin:
  assumes "lock_inv js t s" "s' = s\<lparr>sv_txs := (sv_txs s)(sv_next s \<mapsto> \<lparr>ltx_start = st, ltx_table = t0, ltx_change = None\<rparr>), sv_next := Suc (sv_next s)\<rparr>"
  shows "lstep js t {} s s'"
proof -
  have v: "sv_view t s' = sv_view t s" "sv_inv js t s' = sv_inv js t s" by (simp_all add: assms(2) sv_view_def sv_inv_def)
  have h: "holds t s' n c \<Longrightarrow> holds t s n c" for n c by (auto simp: holds_def assms(2) split: if_splits)
  have "\<forall>n. sv_txs s' n \<noteq> None \<longrightarrow> n < sv_next s'" using assms by (auto simp: lock_inv_def less_Suc_eq)
  then have "lock_inv js t s'" using assms(1) h unfolding lock_inv_def v by blast
  moreover have "same_rows_held s s'" by (auto simp: same_rows_held_def assms(2))
  ultimately show ?thesis by (rule lstep_same_view) (rule v(1), simp add: assms(2))
qed

lemma lstep_rollback:
  assumes "lock_inv js t s"
  shows "lstep js t {} s (tx_rollback n s)"
proof -
  let ?s = "tx_rollback n s"
  have v: "sv_view t ?s = sv_view t s" "sv_inv js t ?s = sv_inv js t s" by (simp_all add: tx_rollback_def sv_view_def sv_inv_def)
  have h: "holds t ?s k c \<Longrightarrow> holds t s k c" for k c by (auto simp: holds_def tx_rollback_def split: if_splits)
  have "\<forall>k. sv_txs ?s k \<noteq> None \<longrightarrow> k < sv_next ?s" using assms by (auto simp: lock_inv_def tx_rollback_def)
  then have "lock_inv js t ?s" using assms h unfolding lock_inv_def v by blast
  moreover have "same_rows_held s ?s" by (auto simp: same_rows_held_def tx_rollback_def)
  ultimately show ?thesis by (rule lstep_same_view) (rule v(1), simp add: tx_rollback_def)
qed

text \<open>Setting what a transaction holds: a row nobody else holds, or another change of the row it already holds.\<close>

lemma lstep_set:
  assumes inv: "lock_inv js t s" and n: "sv_txs s n = Some x" and s': "s' = s\<lparr>sv_txs := (sv_txs s)(n \<mapsto> x')\<rparr>"
    and keep: "\<And>c. ltx_change x = Some c \<Longrightarrow> ltx_table x' = ltx_table x \<and> (\<exists>c'. ltx_change x' = Some c' \<and> pending_id c' = pending_id c)"
    and sound: "\<And>c. ltx_table x' = t \<Longrightarrow> ltx_change x' = Some c \<Longrightarrow> sound_change (sv_view t s) c \<and> (\<forall>m d. holds t s m d \<longrightarrow> pending_id d = pending_id c \<longrightarrow> m = n)"
  shows "lstep js t {} s s'"
proof -
  have v: "sv_view t s' = sv_view t s" "sv_inv js t s' = sv_inv js t s" by (simp_all add: s' sv_view_def sv_inv_def)
  have h: "holds t s' k c \<longleftrightarrow> (if k = n then ltx_table x' = t \<and> ltx_change x' = Some c else holds t s k c)" for k c
    by (auto simp: holds_def s')
  have "\<forall>k. sv_txs s' k \<noteq> None \<longrightarrow> k < sv_next s'" using inv n by (auto simp: lock_inv_def s')
  moreover have "sound_change (sv_view t s) c" if "holds t s' k c" for k c
  proof (cases "k = n")
    case True
    then have "ltx_table x' = t" "ltx_change x' = Some c" using that unfolding h by simp_all
    then show ?thesis using sound by blast
  next
    case False
    then have "holds t s k c" using that unfolding h by simp
    then show ?thesis using inv unfolding lock_inv_def by blast
  qed
  moreover have "k = m" if "holds t s' k c" "holds t s' m d" "pending_id c = pending_id d" for k m c d
  proof -
    have other: "holds t s j e \<Longrightarrow> ltx_table x' = t \<and> ltx_change x' = Some c' \<Longrightarrow> pending_id e = pending_id c' \<Longrightarrow> j = n" for j e c'
      using sound by blast
    have old: "holds t s k c \<Longrightarrow> holds t s m d \<Longrightarrow> k = m" using inv that(3) unfolding lock_inv_def by blast
    consider "k = n" "m = n" | "k = n" "m \<noteq> n" | "k \<noteq> n" "m = n" | "k \<noteq> n" "m \<noteq> n" by blast
    then show ?thesis
    proof cases
      case 2
      then have "ltx_table x' = t \<and> ltx_change x' = Some c" "holds t s m d" using that(1,2) unfolding h by simp_all
      from other [OF this(2,1)] that(3) show ?thesis using 2 by simp
    next
      case 3
      then have "ltx_table x' = t \<and> ltx_change x' = Some d" "holds t s k c" using that(1,2) unfolding h by simp_all
      from other [OF this(2,1) that(3)] show ?thesis using 3 by simp
    next
      case 4
      then have "holds t s k c" "holds t s m d" using that(1,2) unfolding h by simp_all
      then show ?thesis by (rule old)
    qed simp
  qed
  ultimately have "lock_inv js t s'" using inv unfolding lock_inv_def v by blast
  moreover have "same_rows_held s s'" using n keep by (auto simp: same_rows_held_def s')
  ultimately show ?thesis by (rule lstep_same_view) (rule v(1), simp add: s')
qed


lemma lstep_env:
  assumes inv: "lock_inv js t s" and env: "sv_rows s' = sv_rows s" "sv_seq s' = sv_seq s" "sv_json s' = sv_json s" "sv_next s' = sv_next s"
    and txs: "\<And>n x. sv_txs s' n = Some x \<Longrightarrow> sv_txs s n = Some x"
  shows "lstep js t {} s s'"
proof -
  have v: "sv_view t s' = sv_view t s" "sv_inv js t s' = sv_inv js t s" by (simp_all add: env sv_view_def sv_inv_def)
  have h: "holds t s' k c \<Longrightarrow> holds t s k c" for k c using txs by (auto simp: holds_def)
  have "n < sv_next s'" if "sv_txs s' n \<noteq> None" for n using inv txs that env(4) by (auto simp: lock_inv_def)
  then have "lock_inv js t s'" using inv h unfolding lock_inv_def v by blast
  moreover have "same_rows_held s s'" using txs by (auto simp: same_rows_held_def env)
  ultimately show ?thesis by (rule lstep_same_view) (rule v(1), simp add: env)
qed

lemma keyed_view: "keyed rs \<Longrightarrow> r \<in> set rs \<Longrightarrow> rows_view rs (qr_id r) = Some (row_view r)"
  by (simp add: rows_view_iff) blast

lemma apply_pending_view:
  "rows_view (apply_pending c rs) (pending_id c) = (case c of PDelete i \<Rightarrow> None | PUpdate r \<Rightarrow> map_option (\<lambda>_. row_view r) (rows_view rs (pending_id c)))"
  "i \<noteq> pending_id c \<Longrightarrow> rows_view (apply_pending c rs) i = rows_view rs i"
  by (cases c; induction rs; auto simp: rows_view_def)+

lemma apply_pending_ids: "qr_id ` set (apply_pending c rs) \<subseteq> qr_id ` set rs"
  by (cases c) (auto split: if_splits, metis image_eqI)

lemma apply_pending_keyed: "keyed rs \<Longrightarrow> keyed (apply_pending c rs)"
proof (cases c)
  case (PUpdate r)
  moreover have "map qr_id (map (\<lambda>y. if qr_id y = qr_id r then r else y) rs) = map qr_id rs" by (induction rs) auto
  ultimately show "keyed rs \<Longrightarrow> keyed (apply_pending c rs)" unfolding keyed_def by (simp del: map_map)
next
  case (PDelete i)
  then show "keyed rs \<Longrightarrow> keyed (apply_pending c rs)" by (auto simp: keyed_def distinct_map intro: inj_on_subset)
qed


text \<open>Committing a transaction: its row is updated or deleted, and it holds nothing any more.\<close>

lemma lstep_commit:
  assumes inv: "lock_inv js t s"
  shows "lstep js t {i. holds t s n (PDelete i)} s (tx_commit n s)"
proof (cases "\<exists>c. holds t s n c")
  case False
  then have same: "sv_view t (tx_commit n s) = sv_view t (tx_rollback n s)" "sv_inv js t (tx_commit n s) = sv_inv js t (tx_rollback n s)"
    "holds t (tx_commit n s) = holds t (tx_rollback n s)" "sv_seq (tx_commit n s) = sv_seq (tx_rollback n s)"
    "sv_txs (tx_commit n s) = sv_txs (tx_rollback n s)" "sv_next (tx_commit n s) = sv_next (tx_rollback n s)"
    by (auto simp: holds_def tx_commit_def tx_rollback_def sv_view_def sv_inv_def fun_eq_iff split: option.splits)
  have "lstep js t {i. holds t s n (PDelete i)} s (tx_rollback n s)"
    using lstep_rollback [OF inv, of n] False by simp
  then show ?thesis by (simp add: lstep_def same lock_inv_def same_rows_held_def)
next
  case True
  then obtain c x where x: "holds t s n c" "sv_txs s n = Some x" "ltx_table x = t" "ltx_change x = Some c" by (auto simp: holds_def)
  let ?s = "tx_commit n s"
  obtain w where w: "sv_view t s (pending_id c) = Some w" "\<And>r. c = PUpdate r \<Longrightarrow> later w (row_view r)"
    using inv x(1) unfolding lock_inv_def sound_change_def by blast
  then obtain rs where rs: "sv_rows s t = Some rs" by (auto simp: sv_view_def split: option.splits)
  have s': "?s = tx_rollback n (s\<lparr>sv_rows := (sv_rows s)(t \<mapsto> apply_pending c rs)\<rparr>)"
    using x rs by (simp add: tx_commit_def)
  have vs: "sv_view t s = rows_view rs" "sv_view t ?s = rows_view (apply_pending c rs)" by (simp_all add: s' sv_view_def tx_rollback_def rs)
  have k: "keyed rs" "\<forall>r \<in> set rs. qr_id r \<le> sv_seq s t" using inv rs by (auto simp: lock_inv_def sv_inv_def)
  have h: "holds t ?s m d \<Longrightarrow> m \<noteq> n \<and> holds t s m d" for m d by (auto simp: holds_def s' tx_rollback_def split: if_splits)
  have inv1: "sv_inv js t ?s" using inv apply_pending_keyed [OF k(1), of c] apply_pending_ids [of c rs] k(2)
    by (auto simp: lock_inv_def sv_inv_def s' tx_rollback_def)
  have other: "pending_id d \<noteq> pending_id c" if "holds t ?s m d" for m d
    using inv x(1) h [OF that] unfolding lock_inv_def by blast
  have "sound_change (sv_view t ?s) d" if "holds t ?s m d" for m d
  proof -
    have "sound_change (sv_view t s) d" using inv h [OF that] unfolding lock_inv_def by blast
    then show ?thesis using apply_pending_view(2) [OF other [OF that], of rs] by (simp add: sound_change_def vs)
  qed
  moreover have "k = m" if "holds t ?s k d" "holds t ?s m e" "pending_id d = pending_id e" for k m d e
    using inv h [OF that(1)] h [OF that(2)] that(3) unfolding lock_inv_def by blast
  moreover have "m < sv_next ?s" if "sv_txs ?s m \<noteq> None" for m
    using inv that by (auto simp: lock_inv_def s' tx_rollback_def split: if_splits)
  ultimately have "lock_inv js t ?s" using inv1 unfolding lock_inv_def by blast
  moreover have "same_rows_held s ?s" by (auto simp: same_rows_held_def s' tx_rollback_def)
  moreover have "sv_seq ?s t = sv_seq s t" by (simp add: s' tx_rollback_def)
  moreover have "holds t s n (PDelete i) \<and> sv_view t ?s i = None \<or> (\<exists>w'. sv_view t ?s i = Some w' \<and> later v w')" if "sv_view t s i = Some v" for i v
  proof (cases "i = pending_id c")
    case True
    then show ?thesis using apply_pending_view(1) [of c rs] that w x(1) vs by (cases c) auto
  next
    case False
    then show ?thesis using apply_pending_view(2) [OF False, of rs] that vs later_refl by auto
  qed
  moreover have "sv_view t ?s i = None" if "sv_view t s i = None" for i
    using apply_pending_view(1) [of c rs] apply_pending_view(2) [of i c rs] that vs by (cases "i = pending_id c") (auto split: pending.splits)
  ultimately show ?thesis unfolding lstep_def by simp
qed

text \<open>The two statements of a lock transaction.\<close>

lemma tx_select_step:
  assumes inv: "lock_inv js t s" and n: "sv_txs s n = Some x" "ltx_change x = None" and run: "tx_select clk n t s = (Val r, s')"
  shows "lstep js t {} s s' \<and> (\<forall>q. r = Inr (Some q) \<longrightarrow> holds t s' n (PUpdate q) \<and> sv_view t s' (qr_id q) = Some (row_view q)) \<and> sv_next s' = sv_next s"
proof -
  obtain flt s1 where ev: "sv_event s = (flt, s1)" by fastforce
  note q = sv_event_quiet [OF ev]
  have i1: "lock_inv js t s1" and l1: "lstep js t {} s s1" using lstep_idle [OF inv q] lstep_inv by blast+
  have n1: "sv_txs s1 n = Some x" using n(1) q by (simp add: sv_quiet_def)
  show ?thesis
  proof (cases "\<exists>q. r = Inr (Some q)")
    case False
    then have "s' = s1" using run ev n(1) by (auto simp: tx_select_def split: fault.splits option.splits list.splits)
    then show ?thesis using l1 False q by (auto simp: sv_quiet_def)
  next
    case True
    then obtain y where r: "r = Inr (Some y)" by blast
    then obtain rs ys where rs: "sv_rows s1 t = Some rs"
      and y: "sort_key qr_visible_after (filter (lockable (clk (ltx_start x) (sv_now s1)) (locked_ids t s1)) (sv_visit s1 rs)) = y # ys"
      and s': "s' = s1\<lparr>sv_txs := (sv_txs s1)(n \<mapsto> x\<lparr>ltx_table := t, ltx_change := Some (PUpdate y)\<rparr>)\<rparr>"
      using run ev n(1) by (auto simp: tx_select_def split: fault.splits option.splits list.splits)
    have "y \<in> set (sort_key qr_visible_after (filter (lockable (clk (ltx_start x) (sv_now s1)) (locked_ids t s1)) (sv_visit s1 rs)))" by (simp add: y)
    then have in_rs: "y \<in> set rs" and free: "qr_id y \<notin> locked_ids t s1"
      using mset_eq_setD [OF sv_visit_mset, of s1 rs] by (auto simp: lockable_def)
    have v: "sv_view t s1 (qr_id y) = Some (row_view y)"
      using i1 rs in_rs by (simp add: sv_view_def lock_inv_def sv_inv_def keyed_view)
    have l2: "lstep js t {} s1 s'"
    proof (rule lstep_set [OF i1 n1 s'], goal_cases)
      case (1 c)
      then show ?case using n(2) by simp
    next
      case (2 c)
      have "\<not> (holds t s1 m d \<and> pending_id d = qr_id y)" for m d using free by (auto simp: locked_ids_def holds_def)
      then show ?case using 2 v later_refl by (auto simp: sound_change_def)
    qed
    have "lstep js t {} s s'" using lstep_trans [OF inv l1 l2] by simp
    moreover have "holds t s' n (PUpdate y)" "sv_view t s' (qr_id y) = Some (row_view y)" "sv_next s' = sv_next s"
      using v q by (simp_all add: holds_def s' sv_view_def sv_quiet_def)
    ultimately show ?thesis using r by simp
  qed
qed

definition keeps_row :: "(int \<Rightarrow> pending \<Rightarrow> pending) \<Rightarrow> bool" where
  "keeps_row f \<longleftrightarrow> (\<forall>now c. pending_id (f now c) = pending_id c
     \<and> (\<forall>r. f now c = PUpdate r \<longrightarrow> (\<exists>r0. c = PUpdate r0 \<and> later (row_view r0) (row_view r))))"

lemma keeps_row_update: "keeps_row f \<Longrightarrow> f now c = PUpdate r \<Longrightarrow> \<exists>r0. c = PUpdate r0 \<and> later (row_view r0) (row_view r)"
  by (simp add: keeps_row_def)

lemma tx_exec_step:
  assumes inv: "lock_inv js t s" and f: "keeps_row f" and run: "tx_exec clk n f s = (Val r, s')"
  shows "lstep js t {} s s' \<and> sv_next s' = sv_next s \<and> (sv_txs s n = None \<longrightarrow> s' = s \<and> r \<noteq> None)
    \<and> (\<forall>x. sv_txs s n = Some x \<longrightarrow> (\<exists>x'. sv_txs s' n = Some x' \<and> ltx_table x' = ltx_table x
        \<and> (r = None \<longrightarrow> (\<exists>now. ltx_change x' = map_option (f now) (ltx_change x))) \<and> (r \<noteq> None \<longrightarrow> ltx_change x' = ltx_change x)))"
proof (cases "sv_txs s n")
  case None
  then show ?thesis using run lstep_idle [OF inv, of s] by (auto simp: tx_exec_def sv_quiet_def)
next
  case (Some x)
  obtain flt s1 where ev: "sv_event s = (flt, s1)" by fastforce
  note q = sv_event_quiet [OF ev]
  have i1: "lock_inv js t s1" and l1: "lstep js t {} s s1" using lstep_idle [OF inv q] lstep_inv by blast+
  have n1: "sv_txs s1 n = Some x" using Some q by (simp add: sv_quiet_def)
  show ?thesis
  proof (cases "r = None")
    case False
    then have "s' = s1" using run ev Some by (auto simp: tx_exec_def split: fault.splits)
    then show ?thesis using l1 False Some n1 q by (auto simp: sv_quiet_def)
  next
    case True
    define x' where "x' = x\<lparr>ltx_change := map_option (f (clk (ltx_start x) (sv_now s1))) (ltx_change x)\<rparr>"
    have s': "s' = s1\<lparr>sv_txs := (sv_txs s1)(n \<mapsto> x')\<rparr>" using run ev Some True by (auto simp: tx_exec_def x'_def split: fault.splits)
    have l2: "lstep js t {} s1 s'"
    proof (rule lstep_set [OF i1 n1 s'], goal_cases)
      case (1 c)
      then show ?case using f by (simp add: x'_def keeps_row_def)
    next
      case (2 c)
      then obtain c0 where c: "ltx_change x = Some c0" "c = f (clk (ltx_start x) (sv_now s1)) c0" "holds t s1 n c0" using n1 by (auto simp: x'_def holds_def)
      then have pid: "pending_id c = pending_id c0" using f by (simp add: keeps_row_def)
      have "sound_change (sv_view t s1) c0" using i1 c(3) unfolding lock_inv_def by blast
      then obtain w where w: "sv_view t s1 (pending_id c) = Some w" "\<And>r. c0 = PUpdate r \<Longrightarrow> later w (row_view r)"
        unfolding sound_change_def pid by blast
      have "later w (row_view r)" if cr: "c = PUpdate r" for r
      proof -
        obtain r0 where "c0 = PUpdate r0" "later (row_view r0) (row_view r)" using keeps_row_update [OF f, of "clk (ltx_start x) (sv_now s1)" c0 r] cr c(2) by auto
        then show ?thesis using w(2) later_trans by blast
      qed
      then have "sound_change (sv_view t s1) c" using w(1) by (simp add: sound_change_def)
      moreover have "m = n" if "holds t s1 m d" "pending_id d = pending_id c" for m d
      proof -
        have "pending_id d = pending_id c0" using that(2) pid by simp
        then show ?thesis using i1 that(1) c(3) unfolding lock_inv_def by blast
      qed
      ultimately show ?case by blast
    qed
    have "lstep js t {} s s'" using lstep_trans [OF inv l1 l2] by simp
    then show ?thesis using True Some q by (auto simp: s' x'_def sv_quiet_def)
  qed
qed


section \<open>Claiming and settling\<close>

text \<open>A row handed out: as long as its transaction is open, that transaction holds the row, whose content is the one handed out.\<close>

definition handed_out :: "string \<Rightarrow> srv \<Rightarrow> nat LockedRow \<Rightarrow> bool" where
  "handed_out t s lr \<longleftrightarrow> lr_Tx lr < sv_next s \<and> (sv_txs s (lr_Tx lr) \<noteq> None \<longrightarrow>
     (\<exists>c w. holds t s (lr_Tx lr) c \<and> pending_id c = lr_ID lr \<and> sv_view t s (lr_ID lr) = Some w
        \<and> lw_MsgID w = lr_MsgID lr \<and> lw_Headers w = lr_Headers lr \<and> lw_Payload w = lr_Payload lr))"

lemma handed_out_step:
  assumes "handed_out t s lr" "lock_inv js t s" "lstep js t A s s'"
  shows "handed_out t s' lr"
proof -
  have nx: "lr_Tx lr < sv_next s" "sv_next s \<le> sv_next s'"
    using assms by (auto simp: handed_out_def lstep_def same_rows_held_def)
  have "\<exists>c w. holds t s' (lr_Tx lr) c \<and> pending_id c = lr_ID lr \<and> sv_view t s' (lr_ID lr) = Some w
        \<and> lw_MsgID w = lr_MsgID lr \<and> lw_Headers w = lr_Headers lr \<and> lw_Payload w = lr_Payload lr"
    if x': "sv_txs s' (lr_Tx lr) = Some x'" for x'
  proof -
    have held: "same_rows_held s s'" using assms(3) by (simp add: lstep_def)
    obtain x where x: "sv_txs s (lr_Tx lr) = Some x"
      "\<And>c. ltx_change x = Some c \<Longrightarrow> ltx_table x' = ltx_table x \<and> (\<exists>c'. ltx_change x' = Some c' \<and> pending_id c' = pending_id c)"
      using held x' nx(1) unfolding same_rows_held_def by blast
    obtain c w where c: "holds t s (lr_Tx lr) c" "pending_id c = lr_ID lr" "sv_view t s (lr_ID lr) = Some w"
      and w: "lw_MsgID w = lr_MsgID lr" "lw_Headers w = lr_Headers lr" "lw_Payload w = lr_Payload lr"
      using assms(1) x(1) unfolding handed_out_def by auto
    have "ltx_change x = Some c" "ltx_table x = t" using c(1) x(1) by (auto simp: holds_def)
    then obtain c' where c': "holds t s' (lr_Tx lr) c'" "pending_id c' = lr_ID lr" using x(2) [of c] x' c(2) by (auto simp: holds_def)
    have "lock_inv js t s'" using assms(3) by (rule lstep_inv)
    then have "sound_change (sv_view t s') c'" using c'(1) unfolding lock_inv_def by blast
    then have "sv_view t s' (lr_ID lr) \<noteq> None" using c'(2) by (auto simp: sound_change_def)
    from assms(3) c(3) this show ?thesis using c' w
      by (cases rule: lstep_kept) (auto simp: later_def same_content_def)
  qed
  then show ?thesis using nx by (auto simp: handed_out_def)
qed

lemma BeginLockTx_step:
  assumes "lock_inv js t s" "BeginLockTx Pool s = (Val r, s')"
  shows "lstep js t {} s s' \<and> (\<forall>n. r = Inr n \<longrightarrow> (\<exists>x. sv_txs s' n = Some x \<and> ltx_change x = None) \<and> n < sv_next s')"
proof -
  obtain flt s1 where ev: "sv_event s = (flt, s1)" by fastforce
  note q = sv_event_quiet [OF ev]
  have i1: "lock_inv js t s1" and l1: "lstep js t {} s s1" using lstep_idle [OF assms(1) q] lstep_inv by blast+
  show ?thesis
  proof (cases "flt = Fine")
    case False
    then have "s' = s1" "\<exists>e. r = Inl e" using assms(2) ev by (auto simp: BeginLockTx_def split: fault.splits)
    then show ?thesis using l1 by auto
  next
    case True
    then have s': "s' = s1\<lparr>sv_txs := (sv_txs s1)(sv_next s1 \<mapsto> \<lparr>ltx_start = sv_now s1, ltx_table = '''', ltx_change = None\<rparr>), sv_next := Suc (sv_next s1)\<rparr>" "r = Inr (sv_next s1)"
      using assms(2) ev by (simp_all add: BeginLockTx_def)
    have "lstep js t {} s s'" using lstep_trans [OF assms(1) l1 lstep_begin [OF i1 s'(1)]] by simp
    then show ?thesis using s' by simp
  qed
qed

lemma on_row_keeps: "(\<And>now r. qr_id r = i \<Longrightarrow> pending_id (g now r) = i) \<Longrightarrow>
    (\<And>now r r'. g now r = PUpdate r' \<Longrightarrow> later (row_view r) (row_view r')) \<Longrightarrow> keeps_row (\<lambda>now. on_row i (g now))"
  by (auto simp: keeps_row_def on_row_def later_refl split: pending.splits)

lemma lstep_mono:
  assumes a: "lstep js t A s s'" "A \<subseteq> B"
  shows "lstep js t B s s'"
proof -
  have "i \<in> B \<and> sv_view t s' i = None \<or> (\<exists>w'. sv_view t s' i = Some w' \<and> later w w')" if "sv_view t s i = Some w" for i w
    using a(1) that by (cases rule: lstep_kept) (use a(2) in auto)
  then show ?thesis using a(1) by (simp add: lstep_def)
qed

lemma tx_commit_deletes:
  assumes "holds t s n (PDelete i)"
  shows "sv_view t (tx_commit n s) i = None"
proof -
  obtain x where x: "sv_txs s n = Some x" "ltx_table x = t" "ltx_change x = Some (PDelete i)" using assms by (auto simp: holds_def)
  then have "sv_rows (tx_commit n s) t = map_option (apply_pending (PDelete i)) (sv_rows s t)" by (simp add: tx_commit_def tx_rollback_def)
  moreover have "rows_view (apply_pending (PDelete i) rs) i = None" for rs using apply_pending_view(1) [of "PDelete i" rs] by simp
  ultimately show ?thesis by (simp add: sv_view_def split: option.split)
qed

lemma tx_closed: "sv_txs (tx_rollback n s) n = None" "sv_txs (tx_commit n s) n = None"
  by (auto simp: tx_rollback_def tx_commit_def split: option.splits)

lemma tx_exec_returns: "\<exists>a s1. tx_exec clk n f s = (Val a, s1)"
  by (cases "sv_txs s n"; cases "sv_event s"; cases "fst (sv_event s)") (simp_all add: tx_exec_def)

lemma sv_commit_returns: "\<exists>a s1. sv_commit n s = (Val a, s1)"
  by (cases "sv_event s"; cases "fst (sv_event s)") (simp_all add: sv_commit_def)

lemma sv_commit_step:
  assumes inv: "lock_inv js t s" and run: "sv_commit n s = (Val e, s')"
  shows "lstep js t {i. holds t s n (PDelete i)} s s' \<and> sv_txs s' n = None \<and> (e = None \<longrightarrow> (\<forall>i. holds t s n (PDelete i) \<longrightarrow> sv_view t s' i = None))"
proof -
  obtain flt s1 where ev: "sv_event s = (flt, s1)" by fastforce
  note q = sv_event_quiet [OF ev]
  have i1: "lock_inv js t s1" and l1: "lstep js t {} s s1" using lstep_idle [OF inv q] lstep_inv by blast+
  have h: "holds t s1 = holds t s" using q by (simp add: holds_def sv_quiet_def fun_eq_iff)
  have "s' = tx_commit n s1 \<or> s' = tx_rollback n s1 \<and> e \<noteq> None"
    using run ev by (auto simp: sv_commit_def split: fault.splits)
  then show ?thesis
  proof
    assume s': "s' = tx_commit n s1"
    have "lstep js t {i. holds t s n (PDelete i)} s s'"
      using lstep_trans [OF inv l1 lstep_commit [OF i1, of n]] by (simp add: s' h)
    then show ?thesis using tx_commit_deletes [of t s1 n] by (simp add: s' h tx_closed)
  next
    assume "s' = tx_rollback n s1 \<and> e \<noteq> None"
    then obtain y where s': "s' = tx_rollback n s1" "e = Some y" by blast
    have "lstep js t ({} \<union> {}) s s'" using lstep_trans [OF inv l1 lstep_rollback [OF i1, of n]] s' by simp
    then have "lstep js t {i. holds t s n (PDelete i)} s s'" by (rule lstep_mono) simp
    then show ?thesis by (simp add: s' tx_closed)
  qed
qed

text \<open>Settling closes the transaction, whatever happens; the row goes only if the statement deletes it.\<close>

lemma settle_step:
  assumes inv: "lock_inv js t s" and f: "keeps_row f" and run: "SettleLockTx clk n f s = (Val e, s')"
  shows "lstep js t {i. \<exists>now c. holds t s n c \<and> f now c = PDelete i} s s' \<and> sv_txs s' n = None
    \<and> (e = None \<longrightarrow> sv_txs s n \<noteq> None \<and> (\<forall>c. holds t s n c \<longrightarrow> (\<exists>now. \<forall>i. f now c = PDelete i \<longrightarrow> sv_view t s' i = None)))"
proof -
  obtain a s1 where a: "tx_exec clk n f s = (Val a, s1)" using tx_exec_returns by blast
  note x = tx_exec_step [OF inv f a]
  have l1: "lstep js t {} s s1" by (rule x [THEN conjunct1])
  have i1: "lock_inv js t s1" by (rule lstep_inv [OF l1])
  show ?thesis
  proof (cases a)
    case (Some y)
    then have s': "s' = tx_rollback n s1" "e = Some y" using run a by (simp_all add: SettleLockTx_def bindP_def modifyP_def returnP_def)
    have "lstep js t ({} \<union> {}) s s'" using lstep_trans [OF inv l1 lstep_rollback [OF i1, of n]] s' by simp
    then have "lstep js t {i. \<exists>now c. holds t s n c \<and> f now c = PDelete i} s s'" by (rule lstep_mono) simp
    then show ?thesis using s' by (simp add: tx_closed)
  next
    case None
    obtain b s2 where b: "sv_commit n s1 = (Val b, s2)" using sv_commit_returns by blast
    note c = sv_commit_step [OF i1 b]
    obtain z z' now where z: "sv_txs s n = Some z" "sv_txs s1 n = Some z'" "ltx_table z' = ltx_table z" "ltx_change z' = map_option (f now) (ltx_change z)"
      using x None by (cases "sv_txs s n") auto
    have h: "holds t s1 n d \<longleftrightarrow> (\<exists>c0. holds t s n c0 \<and> d = f now c0)" for d using z by (auto simp: holds_def)
    have l2: "lstep js t {i. holds t s1 n (PDelete i)} s1 s2" using c by blast
    have "lstep js t ({} \<union> {i. holds t s1 n (PDelete i)}) s s2" using lstep_trans [OF inv l1 l2] .
    then have l3: "lstep js t {i. \<exists>now c. holds t s n c \<and> f now c = PDelete i} s s2" by (rule lstep_mono) (auto simp: h dest!: sym [of "PDelete _"])
    show ?thesis
    proof (cases b)
      case None
      then have "s' = s2" using run a b \<open>a = None\<close> by (simp add: SettleLockTx_def bindP_def returnP_def)
      moreover have "\<exists>now. \<forall>i. f now c0 = PDelete i \<longrightarrow> sv_view t s2 i = None" if "holds t s n c0" for c0
      proof (intro exI allI impI)
        fix i assume "f now c0 = PDelete i"
        then have "holds t s1 n (PDelete i)" using that h by metis
        then show "sv_view t s2 i = None" using c None by blast
      qed
      ultimately show ?thesis using l3 c z(1) by auto
    next
      case (Some y)
      then have s': "s' = tx_rollback n s2" "e = Some y" using run a b None by (simp_all add: SettleLockTx_def bindP_def modifyP_def returnP_def)
      have "lstep js t ({i. \<exists>now c. holds t s n c \<and> f now c = PDelete i} \<union> {}) s s'"
        using lstep_trans [OF inv l3 lstep_rollback, of n] lstep_inv [OF l3] s' by simp
      then show ?thesis using s' by (simp add: tx_closed)
    qed
  qed
qed


lemma rollback_from:
  assumes "lock_inv js t s" "lstep js t {} s u"
  shows "lstep js t {} s (tx_rollback n u)"
  using lstep_trans [OF assms lstep_rollback [OF lstep_inv [OF assms(2)], of n]] by simp

lemma BeginLockTx_returns: "\<exists>r s1. BeginLockTx Pool s = (Val r, s1)"
  by (cases "sv_event s"; cases "fst (sv_event s)") (simp_all add: BeginLockTx_def)

lemma tx_select_returns: "\<exists>r s1. tx_select clk n t s = (Val r, s1)"
  by (cases "sv_txs s n"; cases "sv_event s"; cases "fst (sv_event s)") (auto simp: tx_select_def split: option.split list.split)

text \<open>A claim begins a transaction and leaves it open only when it hands out the row that it holds.\<close>

lemma ClaimLock_step:
  assumes inv: "lock_inv js t s" and run: "ClaimLock_with ql Pool t s = (Val r, s')"
  shows "lstep js t {} s s' \<and> (\<forall>lr. r = Inr (Some lr) \<longrightarrow> handed_out t s' lr)"
proof (cases "lk_quote ql t")
  case (Inl e)
  then show ?thesis using run lstep_idle [OF inv, of s] by (auto simp: ClaimLock_with_def quoted_def returnP_def sv_quiet_def)
next
  case (Inr qt)
  obtain a s1 where a: "BeginLockTx Pool s = (Val a, s1)" using BeginLockTx_returns by blast
  note begun = BeginLockTx_step [OF inv a]
  have l1: "lstep js t {} s s1" using begun by blast
  note i1 = lstep_inv [OF l1]
  show ?thesis
  proof (cases a)
    case (Inl e)
    then show ?thesis using run a \<open>lk_quote ql t = Inr qt\<close> l1 by (auto simp: ClaimLock_with_def quoted_def bindE_def bindP_def returnP_def)
  next
    case (Inr n)
    then obtain x where x: "sv_txs s1 n = Some x" "ltx_change x = None" and n: "n < sv_next s1" using begun by blast
    obtain b s2 where b: "tx_select (lk_now ql) n t s1 = (Val b, s2)" using tx_select_returns by blast
    note sel = tx_select_step [OF i1 x b]
    have l2: "lstep js t {} s s2" using lstep_trans [OF inv l1] sel by fastforce
    note i2 = lstep_inv [OF l2]
    show ?thesis
    proof (cases "\<exists>y. b = Inr (Some y)")
      case False
      then have "s' = tx_rollback n s2" "\<forall>lr. r \<noteq> Inr (Some lr)"
        using run a b Inr \<open>lk_quote ql t = Inr qt\<close>
        by (auto simp: ClaimLock_with_def quoted_def bindE_def bindP_def returnP_def modifyP_def split: sum.splits option.splits)
      then show ?thesis using rollback_from [OF inv l2] by simp
    next
      case True
      then obtain y where y: "b = Inr (Some y)" by blast
      define f where "f = (\<lambda>_ :: int. on_row (qr_id y) (\<lambda>x. PUpdate (x\<lparr>qr_delivery_count := qr_delivery_count x + 1\<rparr>)))"
      have held: "holds t s2 n (PUpdate y)" "sv_view t s2 (qr_id y) = Some (row_view y)" "sv_next s2 = sv_next s1" using sel y by blast+
      have f: "keeps_row f" unfolding f_def by (rule on_row_keeps) (auto simp: later_def same_content_def row_view_def)
      obtain c s3 where c: "tx_exec (lk_now ql) n f s2 = (Val c, s3)" using tx_exec_returns by blast
      note ex = tx_exec_step [OF i2 f c]
      have l3: "lstep js t {} s s3" using lstep_trans [OF inv l2] ex by fastforce
      have run3: "(case c of Some z \<Rightarrow> (Val (Inl z), tx_rollback n s3) | None \<Rightarrow> (Val (Inr (Some \<lparr>lr_ID = qr_id y, lr_MsgID = qr_msg_id y, lr_Headers = qr_headers y,
          lr_Payload = qr_payload y, lr_DeliveryCount = qr_delivery_count y + 1, lr_Tx = n\<rparr>)), s3)) = (Val r, s')"
        using run a b y Inr \<open>lk_quote ql t = Inr qt\<close> c
        by (cases c) (simp_all add: ClaimLock_with_def quoted_def bindE_def bindP_def returnP_def modifyP_def f_def)
      show ?thesis
      proof (cases c)
        case (Some z)
        then show ?thesis using run3 rollback_from [OF inv l3, of n] by auto
      next
        case None
        define lr where "lr = \<lparr>lr_ID = qr_id y, lr_MsgID = qr_msg_id y, lr_Headers = qr_headers y,
          lr_Payload = qr_payload y, lr_DeliveryCount = qr_delivery_count y + 1, lr_Tx = n\<rparr>"
        have s': "s' = s3" "r = Inr (Some lr)" using run3 None by (simp_all add: lr_def)
        have "handed_out t s2 lr" using held n by (auto simp: handed_out_def lr_def row_view_def)
        then have "handed_out t s3 lr" by (rule handed_out_step [OF _ i2 ex [THEN conjunct1]])
        then show ?thesis using s' l3 by simp
      qed
    qed
  qed
qed

text \<open>Settling a row that was handed out.\<close>

lemma AckLock_step:
  assumes inv: "lock_inv js t s" and h: "handed_out t s lr" and run: "AckLock_with ql lr t s = (Val e, s')"
  shows "lstep js t (if sv_txs s (lr_Tx lr) = None then {} else {lr_ID lr}) s s' \<and> sv_txs s' (lr_Tx lr) = None
    \<and> (e = None \<longrightarrow> sv_txs s (lr_Tx lr) \<noteq> None \<and> sv_view t s' (lr_ID lr) = None)"
proof (cases "lk_quote ql t")
  case (Inl x)
  then have s': "s' = tx_rollback (lr_Tx lr) s" "e = Some x" using run
    by (simp_all add: AckLock_with_def bindP_def modifyP_def returnP_def)
  have "lstep js t (if sv_txs s (lr_Tx lr) = None then {} else {lr_ID lr}) s s'"
    unfolding s' by (rule lstep_mono [OF lstep_rollback [OF inv]]) simp
  then show ?thesis using s' by (simp add: tx_closed)
next
  case (Inr qt)
  define f where "f = (\<lambda>_ :: int. on_row (lr_ID lr) (\<lambda>_. PDelete (lr_ID lr)))"
  have f: "keeps_row f" unfolding f_def by (rule on_row_keeps) auto
  have st: "SettleLockTx (lk_now ql) (lr_Tx lr) f s = (Val e, s')" using run Inr by (simp add: AckLock_with_def f_def)
  note x = settle_step [OF inv f st]
  have held: "pending_id c = lr_ID lr" "sv_txs s (lr_Tx lr) \<noteq> None" if "holds t s (lr_Tx lr) c" for c
    using h that by (auto simp: handed_out_def holds_def)
  have del: "f now c = PDelete (lr_ID lr)" if "holds t s (lr_Tx lr) c" for now c
    using held [OF that] by (cases c) (auto simp: f_def on_row_def)
  have "lstep js t (if sv_txs s (lr_Tx lr) = None then {} else {lr_ID lr}) s s'"
  proof (rule lstep_mono [OF x [THEN conjunct1]], rule subsetI)
    fix i assume "i \<in> {i. \<exists>now c. holds t s (lr_Tx lr) c \<and> f now c = PDelete i}"
    then obtain now c where c: "holds t s (lr_Tx lr) c" "f now c = PDelete i" by blast
    then show "i \<in> (if sv_txs s (lr_Tx lr) = None then {} else {lr_ID lr})" using del [OF c(1), of now] held(2) [OF c(1)] by simp
  qed
  moreover have "sv_txs s (lr_Tx lr) \<noteq> None \<and> sv_view t s' (lr_ID lr) = None" if "e = None"
  proof -
    have o1: "sv_txs s (lr_Tx lr) \<noteq> None" using x that by blast
    then obtain c where c: "holds t s (lr_Tx lr) c" using h by (auto simp: handed_out_def)
    then show ?thesis using o1 x that del by blast
  qed
  ultimately show ?thesis using x by blast
qed

text \<open>Between two operations no open transaction has deleted its row: only a settlement does, and it closes the transaction.\<close>

definition deleting :: "srv \<Rightarrow> nat set" where
  "deleting s = {n. \<exists>x i. sv_txs s n = Some x \<and> ltx_change x = Some (PDelete i)}"

lemma deleting_quiet: "sv_quiet s s' \<Longrightarrow> deleting s' = deleting s"
  by (simp add: deleting_def sv_quiet_def)

lemma deleting_event: "sv_event s = (flt, s') \<Longrightarrow> deleting s' = deleting s"
  using deleting_quiet sv_event_quiet by blast

lemma deleting_closed: "deleting (tx_rollback n s) = deleting s - {n}" "deleting (tx_commit n s) = deleting s - {n}"
  by (auto simp: deleting_def tx_rollback_def tx_commit_def split: option.splits if_splits)

lemma deleting_exec:
  assumes "tx_exec clk n f s = (Val r, s')"
  shows "deleting s' \<subseteq> deleting s \<union> {n}" "(\<And>now y i. f now (PUpdate y) \<noteq> PDelete i) \<Longrightarrow> deleting s' \<subseteq> deleting s"
proof -
  obtain flt s1 where ev: "sv_event s = (flt, s1)" by fastforce
  note q = deleting_event [OF ev]
  have s': "s' = s \<or> s' = s1 \<or> (\<exists>x. sv_txs s n = Some x \<and> s' = s1\<lparr>sv_txs := (sv_txs s1)(n \<mapsto> x\<lparr>ltx_change := map_option (f (clk (ltx_start x) (sv_now s1))) (ltx_change x)\<rparr>)\<rparr>)"
    using assms ev by (auto simp: tx_exec_def split: option.splits fault.splits)
  have txs: "sv_txs s1 = sv_txs s" using sv_event_quiet [OF ev] by (simp add: sv_quiet_def)
  show "deleting s' \<subseteq> deleting s \<union> {n}" using s' txs by (auto simp: deleting_def split: if_splits)
  assume f: "\<And>now y i. f now (PUpdate y) \<noteq> PDelete i"
  have "deleting (s1\<lparr>sv_txs := (sv_txs s1)(n \<mapsto> x\<lparr>ltx_change := map_option (f (clk (ltx_start x) (sv_now s1))) (ltx_change x)\<rparr>)\<rparr>) \<subseteq> deleting s" if "sv_txs s n = Some x" for x
  proof
    fix m assume m: "m \<in> deleting (s1\<lparr>sv_txs := (sv_txs s1)(n \<mapsto> x\<lparr>ltx_change := map_option (f (clk (ltx_start x) (sv_now s1))) (ltx_change x)\<rparr>)\<rparr>)"
    show "m \<in> deleting s"
    proof (cases "m = n")
      case True
      then obtain c i where "ltx_change x = Some c" "f (clk (ltx_start x) (sv_now s1)) c = PDelete i" using m by (auto simp: deleting_def)
      then show ?thesis using f that True by (cases c) (auto simp: deleting_def)
    next
      case False
      then show ?thesis using m txs by (auto simp: deleting_def)
    qed
  qed
  then show "deleting s' \<subseteq> deleting s" using s' q by blast
qed

lemma deleting_settle:
  assumes "SettleLockTx clk n f s = (Val e, s')"
  shows "deleting s' \<subseteq> deleting s"
proof -
  obtain a s1 where a: "tx_exec clk n f s = (Val a, s1)" using tx_exec_returns by blast
  note d1 = deleting_exec(1) [OF a]
  obtain flt s2 where ev: "sv_event s1 = (flt, s2)" by fastforce
  note d2 = deleting_event [OF ev]
  have "s' \<in> {tx_rollback n s1, tx_commit n s2, tx_rollback n (tx_rollback n s2), tx_rollback n (tx_commit n s2)}"
    using assms a ev by (auto simp: SettleLockTx_def sv_commit_def bindP_def modifyP_def returnP_def split: option.splits fault.splits)
  then have "deleting s' \<subseteq> deleting s1 - {n}" using d2 deleting_closed by auto
  then show ?thesis using d1 by blast
qed

lemma deleting_AckLock: "AckLock_with ql lr t s = (Val e, s') \<Longrightarrow> deleting s' \<subseteq> deleting s"
  using deleting_settle deleting_closed by (force simp: AckLock_with_def bindP_def modifyP_def returnP_def split: sum.splits)

lemma deleting_NackLock: "NackLock_with ql lr t d s = (Val e, s') \<Longrightarrow> deleting s' \<subseteq> deleting s"
  using deleting_settle deleting_closed by (force simp: NackLock_with_def bindP_def modifyP_def returnP_def split: sum.splits)

lemma NackLock_step:
  assumes inv: "lock_inv js t s" "deleting s = {}" and run: "NackLock_with ql lr t d s = (Val e, s')"
  shows "lstep js t {} s s' \<and> sv_txs s' (lr_Tx lr) = None"
proof (cases "lk_quote ql t")
  case (Inl x)
  then have "s' = tx_rollback (lr_Tx lr) s" using run by (simp add: NackLock_with_def bindP_def modifyP_def returnP_def)
  then show ?thesis using lstep_rollback [OF inv(1)] tx_closed by simp
next
  case (Inr qt)
  define f where "f = (\<lambda>now. on_row (lr_ID lr) (\<lambda>r. PUpdate (r\<lparr>qr_locked_by := None, qr_locked_at := None, qr_visible_after := now + Microseconds d\<rparr>)))"
  have f: "keeps_row f" unfolding f_def by (rule on_row_keeps) (auto simp: later_def same_content_def row_view_def)
  have st: "SettleLockTx (lk_now ql) (lr_Tx lr) f s = (Val e, s')" using run Inr by (simp add: NackLock_with_def f_def)
  note x = settle_step [OF inv(1) f st]
  have none: "{i. \<exists>now c. holds t s (lr_Tx lr) c \<and> f now c = PDelete i} = {}"
    using inv(2) by (auto simp: f_def on_row_def deleting_def holds_def split: pending.splits if_splits)
  show ?thesis using x unfolding none by blast
qed



section \<open>The queue over the lock strategy\<close>

text \<open>
  A run lists the rows handed out and the acknowledgements called on one whose transaction was open, with
  whether they succeeded. Workers poll with the lock strategy and settle what they got through the functions of
  the delivery; producers send; the clock moves, statements fail, and a crash or a lost connection ends a transaction.
\<close>

definition lock_env :: "srv \<Rightarrow> srv \<Rightarrow> bool" where
  "lock_env s s' \<longleftrightarrow> sv_rows s' = sv_rows s \<and> sv_seq s' = sv_seq s \<and> sv_json s' = sv_json s \<and> sv_next s' = sv_next s
     \<and> (\<forall>n x. sv_txs s' n = Some x \<longrightarrow> sv_txs s n = Some x)"

text \<open>The row that a poll claims.\<close>

definition polled :: "(srv, querier, nat) Source \<Rightarrow> srv ctx \<Rightarrow> srv \<Rightarrow> nat LockedRow list" where
  "polled sr ctx s =
     (case kd_ClaimLock (the (sr_lockDialect sr)) (WithoutCancel ctx) (ab_db (sr_base sr)) (ab_table (sr_base sr)) (sr_lockedBy sr) s of
        (Val (Inr (Some lr)), _) \<Rightarrow> [lr] | _ \<Rightarrow> [])"

definition lock_worker :: "(srv, querier, nat) LeaseDialect \<Rightarrow> string \<Rightarrow> (srv, querier, nat) Source \<Rightarrow> bool" where
  "lock_worker D t sr \<longleftrightarrow> sr_base sr = server_base D t \<and> sr_strategy sr = StrategyLockForUpdate \<and> sr_lockDialect sr = ld_lock D"

inductive lock_run ::
  "golib \<Rightarrow> (srv, querier, nat) LeaseDialect \<Rightarrow> string \<Rightarrow> nat LockedRow list \<Rightarrow> (int \<times> bool) list \<Rightarrow> srv \<Rightarrow> srv \<Rightarrow> bool"
  for L D t where
  start: "lock_run L D t [] [] s s"
| world: "lock_run L D t hs as s s1 \<Longrightarrow> lock_env s1 s' \<Longrightarrow> lock_run L D t hs as s s'"
| poll: "lock_run L D t hs as s s1 \<Longrightarrow> lock_worker D t sr \<Longrightarrow> Source_Poll L sr ctx mx s1 = (Val r, s') \<Longrightarrow>
    lock_run L D t (hs @ polled sr ctx s1) as s s'"
| ack: "lock_run L D t hs as s s1 \<Longrightarrow> lock_worker D t sr \<Longrightarrow> lr \<in> set hs \<Longrightarrow> lock_ackClosure sr lr ctx s1 = (Val e, s') \<Longrightarrow>
    lock_run L D t hs (if sv_txs s1 (lr_Tx lr) = None then as else as @ [(lr_ID lr, e = None)]) s s'"
| nack: "lock_run L D t hs as s s1 \<Longrightarrow> lock_worker D t sr \<Longrightarrow> lr \<in> set hs \<Longrightarrow> lock_nackClosure sr lr ctx requeue d s1 = (Val e, s') \<Longrightarrow>
    lock_run L D t hs as s s'"
| send: "lock_run L D t hs as s s1 \<Longrightarrow> so_base ob = server_base D t \<Longrightarrow> so_resolver ob = None \<Longrightarrow>
    SqlOutbound_SendAfter L ob ctx m d s1 = (Val e, s') \<Longrightarrow> lock_run L D t hs as s s'"


lemma deleting_begin: "BeginLockTx Pool s = (Val r, s') \<Longrightarrow> deleting s' \<subseteq> deleting s"
  by (cases "sv_event s"; cases "fst (sv_event s)")
    (auto simp: BeginLockTx_def deleting_def dest!: sv_event_quiet split: if_splits, (simp add: sv_quiet_def)+)

lemma deleting_select:
  assumes "tx_select clk n t s = (Val r, s')"
  shows "deleting s' \<subseteq> deleting s"
proof -
  obtain flt s1 where ev: "sv_event s = (flt, s1)" by fastforce
  have "s' = s1 \<or> (\<exists>x y. s' = s1\<lparr>sv_txs := (sv_txs s1)(n \<mapsto> x\<lparr>ltx_table := t, ltx_change := Some (PUpdate y)\<rparr>)\<rparr>) \<or> s' = s"
    using assms ev by (auto simp: tx_select_def split: fault.splits option.splits list.splits)
  then have "deleting s' \<subseteq> deleting s1 \<or> s' = s" by (auto simp: deleting_def split: if_splits)
  then show ?thesis using deleting_event [OF ev] by auto
qed

lemma deleting_ClaimLock:
  assumes run: "ClaimLock_with ql Pool t s = (Val r, s')"
  shows "deleting s' \<subseteq> deleting s"
proof (cases "lk_quote ql t")
  case (Inl e)
  then show ?thesis using run by (simp add: ClaimLock_with_def quoted_def returnP_def)
next
  case (Inr qt)
  obtain a s1 where a: "BeginLockTx Pool s = (Val a, s1)" using BeginLockTx_returns by blast
  note d1 = deleting_begin [OF a]
  show ?thesis
  proof (cases a)
    case (Inl e)
    then show ?thesis using run a \<open>lk_quote ql t = Inr qt\<close> d1 by (simp add: ClaimLock_with_def quoted_def bindE_def bindP_def returnP_def)
  next
    case (Inr n)
    obtain b s2 where b: "tx_select (lk_now ql) n t s1 = (Val b, s2)" using tx_select_returns by blast
    note d2 = deleting_select [OF b]
    show ?thesis
    proof (cases "\<exists>y. b = Inr (Some y)")
      case False
      then have "s' = tx_rollback n s2"
        using run a b Inr \<open>lk_quote ql t = Inr qt\<close>
        by (auto simp: ClaimLock_with_def quoted_def bindE_def bindP_def returnP_def modifyP_def split: sum.splits option.splits)
      then show ?thesis using d1 d2 deleting_closed by auto
    next
      case True
      then obtain y where y: "b = Inr (Some y)" by blast
      define f where "f = (\<lambda>_ :: int. on_row (qr_id y) (\<lambda>x. PUpdate (x\<lparr>qr_delivery_count := qr_delivery_count x + 1\<rparr>)))"
      obtain c s3 where c: "tx_exec (lk_now ql) n f s2 = (Val c, s3)" using tx_exec_returns by blast
      have d3: "deleting s3 \<subseteq> deleting s2" by (rule deleting_exec(2) [OF c]) (simp add: f_def on_row_def)
      have "s' = s3 \<or> s' = tx_rollback n s3"
        using run a b y Inr \<open>lk_quote ql t = Inr qt\<close> c
        by (cases c) (simp_all add: ClaimLock_with_def quoted_def bindE_def bindP_def returnP_def modifyP_def f_def)
      then show ?thesis using d1 d2 d3 deleting_closed(1) [of n s3] by auto
    qed
  qed
qed

lemma lstep_table:
  assumes inv: "lock_inv js t s" and i: "sv_inv js t s'" and txs: "sv_txs s' = sv_txs s" "sv_next s' = sv_next s" and seq: "sv_seq s t \<le> sv_seq s' t"
    and kept: "\<And>i w. sv_view t s i = Some w \<Longrightarrow> sv_view t s' i = Some w"
    and new: "\<And>i. i \<le> sv_seq s t \<Longrightarrow> sv_view t s i = None \<Longrightarrow> sv_view t s' i = None"
  shows "lstep js t {} s s'"
proof -
  have h: "holds t s' = holds t s" by (simp add: holds_def txs fun_eq_iff)
  have "sound_change (sv_view t s') c" if "holds t s n c" for n c
  proof -
    have "sound_change (sv_view t s) c" using inv that unfolding lock_inv_def by blast
    then show ?thesis using kept unfolding sound_change_def by blast
  qed
  then have "lock_inv js t s'" using inv i unfolding lock_inv_def h txs by blast
  moreover have "same_rows_held s s'" by (auto simp: same_rows_held_def txs)
  moreover have "\<exists>w'. sv_view t s' i = Some w' \<and> later w w'" if "sv_view t s i = Some w" for i w
    using kept [OF that] later_refl by blast
  ultimately show ?thesis using seq new by (simp add: lstep_def)
qed

lemma sv_insert_txs: "sv_insert t mid h p d s = (Val r, s') \<Longrightarrow> sv_txs s' = sv_txs s \<and> sv_next s' = sv_next s"
  by (cases "sv_event s"; cases "fst (sv_event s)")
    (auto simp: sv_insert_def sv_quiet_def dest!: sv_event_quiet split: option.splits)

lemma insert_step:
  assumes D: "D = postgres_LeaseDialect \<or> D = mysql_LeaseDialect" and inv: "lock_inv js t s" and run: "ld_Insert D ctx q t mid h p d s = (Val r, s')"
  shows "lstep js t {} s s' \<and> deleting s' = deleting s"
proof -
  have i: "sv_inv js t s" using inv by (simp add: lock_inv_def)
  note law = sv_put_law [OF i run D]
  have txs: "sv_txs s' = sv_txs s" "sv_next s' = sv_next s"
    using run D sv_insert_txs by (auto simp: postgres_LeaseDialect_def postgres_Insert_def mysql_LeaseDialect_def mysql_Insert_def returnP_def split: sum.splits)
  have seq: "sv_seq s t \<le> sv_seq s' t" using law by (auto simp: sv_used_def)
  have "lstep js t {} s s'"
  proof (rule lstep_table [OF inv _ txs seq])
    show "sv_inv js t s'" using law by blast
    show "sv_view t s' i = Some w" if "sv_view t s i = Some w" for i w using law that by auto
    show "sv_view t s' i = None" if "i \<le> sv_seq s t" "sv_view t s i = None" for i using law that by (auto simp: sv_used_def)
  qed
  then show ?thesis by (simp add: deleting_def txs)
qed

lemma exists_step:
  assumes D: "D = postgres_LeaseDialect \<or> D = mysql_LeaseDialect" and inv: "lock_inv js t s" and run: "ld_SchemaExists D ctx q t s = (Val r, s')"
  shows "lstep js t {} s s' \<and> deleting s' = deleting s"
proof -
  have "sv_exists t s = (Val r, s')"
    using run D by (auto simp: postgres_LeaseDialect_def postgres_SchemaExists_def mysql_LeaseDialect_def mysql_SchemaExists_def)
  then have "sv_quiet s s'" by (auto simp: sv_exists_def sv_quiet_def dest!: sv_event_quiet split: option.splits prod.splits)
  then show ?thesis using lstep_idle [OF inv] deleting_quiet by simp
qed


lemma lock_ops:
  assumes "D = postgres_LeaseDialect \<or> D = mysql_LeaseDialect"
  obtains K ql where "ld_lock D = Some K" "\<And>ctx q t by. kd_ClaimLock K ctx q t by = ClaimLock_with ql q t"
    "\<And>ctx lr t. kd_AckLock K ctx lr t = AckLock_with ql lr t" "\<And>ctx lr t d. kd_NackLock K ctx lr t d = NackLock_with ql lr t d"
  using assms
proof (rule disjE)
  assume D: "D = postgres_LeaseDialect"
  show thesis by (rule that [of "the (ld_lock D)" postgres_lock])
    (simp_all add: D postgres_LeaseDialect_def postgres_ClaimLock_def postgres_AckLock_def postgres_NackLock_def)
next
  assume D: "D = mysql_LeaseDialect"
  show thesis by (rule that [of "the (ld_lock D)" mysql_lock])
    (simp_all add: D mysql_LeaseDialect_def mysql_ClaimLock_def mysql_AckLock_def mysql_NackLock_def)
qed

text \<open>What the operations of the adapter do.\<close>

lemma poll_step:
  assumes D: "D = postgres_LeaseDialect \<or> D = mysql_LeaseDialect" and w: "lock_worker D t sr" and inv: "lock_inv js t s" "deleting s = {}"
    and run: "Source_Poll L sr ctx mx s = (Val r, s')"
  shows "lstep js t {} s s' \<and> deleting s' = {} \<and> (\<forall>lr \<in> set (polled sr ctx s). handed_out t s' lr)"
proof -
  obtain K ql where K: "ld_lock D = Some K" "\<And>ctx q t by. kd_ClaimLock K ctx q t by = ClaimLock_with ql q t"
    "\<And>ctx lr t d. kd_NackLock K ctx lr t d = NackLock_with ql lr t d"
    using lock_ops [OF D] by metis
  have b: "sr_base sr = server_base D t" "sr_lockDialect sr = Some K" using w K(1) by (simp_all add: lock_worker_def)
  have p: "pollLock L sr ctx mx s = (Val r, s')" using run w by (simp add: Source_Poll_def lock_worker_def)
  obtain c s1 where c: "ClaimLock_with ql Pool t s = (Val c, s1)"
    using p by (auto simp: pollLock_def b K bindP_def Let_def split: prod.splits res.splits)
  note cl = ClaimLock_step [OF inv(1) c]
  have l1: "lstep js t {} s s1" using cl by blast
  note i1 = lstep_inv [OF l1]
  have d1: "deleting s1 = {}" using deleting_ClaimLock [OF c] inv(2) by simp
  have polled: "polled sr ctx s = (case c of Inr (Some lr) \<Rightarrow> [lr] | _ \<Rightarrow> [])" by (simp add: polled_def b K c split: sum.split option.split)
  consider (err) e where "c = Inl e" | (none) "c = Inr None" | (row) lr where "c = Inr (Some lr)" by (metis obj_sumE option.exhaust)
  then show ?thesis
  proof cases
    case err
    then obtain x where "ld_SchemaExists D ctx Pool t s1 = (Val x, s')"
      using p c by (auto simp: pollLock_def b K classifyQueryErr_def bindP_def returnP_def Let_def split: prod.splits res.splits)
    then show ?thesis using exists_step [OF D i1] lstep_trans [OF inv(1) l1] d1 polled err by fastforce
  next
    case none
    then have "s' = s1" using p c by (simp add: pollLock_def b K bindP_def returnP_def Let_def)
    then show ?thesis using l1 d1 polled none by simp
  next
    case row
    then have h: "handed_out t s1 lr" using cl by blast
    show ?thesis
    proof (cases "DecodeHeaders L (lr_Headers lr)")
      case (Inl e)
      then obtain x dl where n: "NackLock_with ql lr t dl s1 = (Val x, s')"
        using p c row by (auto simp: pollLock_def b K bindP_def returnP_def Let_def split: prod.splits res.splits)
      note st = NackLock_step [OF i1 d1 n]
      have l2: "lstep js t {} s1 s'" using st by blast
      have "lstep js t {} s s'" using lstep_trans [OF inv(1) l1 l2] by simp
      moreover have "handed_out t s' lr" by (rule handed_out_step [OF h i1 l2])
      ultimately show ?thesis using deleting_NackLock [OF n] d1 polled row by simp
    next
      case (Inr hd)
      then have "s' = s1" using p c row by (simp add: pollLock_def b K bindP_def returnP_def Let_def)
      then show ?thesis using l1 d1 polled row h by simp
    qed
  qed
qed

lemma send_step:
  assumes D: "D = postgres_LeaseDialect \<or> D = mysql_LeaseDialect" and inv: "lock_inv js t s"
    and ob: "so_base ob = server_base D t" "so_resolver ob = None" and run: "SqlOutbound_SendAfter L ob ctx m d s = (Val e, s')"
  shows "lstep js t {} s s' \<and> deleting s' = deleting s"
proof (cases "\<exists>hb p. EncodeHeaders L (headers m) = Inr hb \<and> payload m = GBytes p")
  case False
  then have "s' = s" using ob run by (auto simp: SqlOutbound_SendAfter_def returnP_def split: sum.splits goval.splits)
  then show ?thesis using lstep_idle [OF inv, of s] by (simp add: sv_quiet_def)
next
  case True
  then obtain hb p where h: "EncodeHeaders L (headers m) = Inr hb" "payload m = GBytes p" by blast
  obtain r s1 where i: "ld_Insert D ctx Pool t (ID m) hb p d s = (Val r, s1)"
    using ob run h by (auto simp: SqlOutbound_SendAfter_def resolveQuerier_def bindP_def returnP_def split: prod.splits res.splits)
  note st = insert_step [OF D inv i]
  have l1: "lstep js t {} s s1" using st by blast
  show ?thesis
  proof (cases r)
    case None
    then show ?thesis using ob run h i st by (simp add: SqlOutbound_SendAfter_def resolveQuerier_def bindP_def returnP_def)
  next
    case (Some x)
    then obtain y where "ld_SchemaExists D ctx Pool t s1 = (Val y, s')"
      using ob run h i by (auto simp: SqlOutbound_SendAfter_def resolveQuerier_def classifyQueryErr_def bindP_def returnP_def split: prod.splits res.splits)
    note ex = exists_step [OF D lstep_inv [OF l1] this]
    have "lstep js t ({} \<union> {}) s s'" using lstep_trans [OF inv l1] ex by blast
    then show ?thesis using st ex by simp
  qed
qed

text \<open>What holds after a run that started in \<open>s\<close>, and how one more step keeps it.\<close>

definition lock_reached :: "(string \<Rightarrow> string option) \<Rightarrow> string \<Rightarrow> nat LockedRow list \<Rightarrow> (int \<times> bool) list \<Rightarrow> srv \<Rightarrow> srv \<Rightarrow> bool" where
  "lock_reached js t hs as s s' \<longleftrightarrow> lstep js t (fst ` set as) s s' \<and> deleting s' = {} \<and> (\<forall>lr \<in> set hs. handed_out t s' lr)
     \<and> (\<forall>i. (i, True) \<in> set as \<longrightarrow> i \<le> sv_seq s' t \<and> sv_view t s' i = None)"

lemma lock_reached_step:
  assumes inv: "lock_inv js t s" and r: "lock_reached js t hs as s s1" and st: "lstep js t A s1 s'" and d: "deleting s' = {}"
    and h: "\<forall>lr \<in> set hs'. handed_out t s' lr" and A: "A = fst ` set as'"
    and new: "\<And>i. (i, True) \<in> set as' \<Longrightarrow> i \<le> sv_seq s' t \<and> sv_view t s' i = None"
  shows "lock_reached js t (hs @ hs') (as @ as') s s'"
proof -
  have l: "lstep js t (fst ` set as) s s1" using r by (simp add: lock_reached_def)
  have "lstep js t (fst ` set (as @ as')) s s'" using lstep_trans [OF inv l st] by (simp add: A image_Un)
  moreover have "handed_out t s' lr" if "lr \<in> set hs" for lr
  proof -
    have "handed_out t s1 lr" using r that by (simp add: lock_reached_def)
    then show ?thesis by (rule handed_out_step [OF _ lstep_inv [OF l] st])
  qed
  moreover have "i \<le> sv_seq s' t \<and> sv_view t s' i = None" if "(i, True) \<in> set as" for i
  proof -
    have i: "i \<le> sv_seq s1 t" "sv_view t s1 i = None" using r that by (simp_all add: lock_reached_def)
    then show ?thesis using lstep_gone [OF st] st by (auto simp: lstep_def)
  qed
  ultimately show ?thesis using d h new by (auto simp: lock_reached_def)
qed

lemma lock_run_reached:
  assumes "lock_run L D t hs as s s'" and D: "D = postgres_LeaseDialect \<or> D = mysql_LeaseDialect" and inv: "lock_inv js t s" "deleting s = {}"
  shows "lock_reached js t hs as s s'"
  using assms(1) inv
proof (induction rule: lock_run.induct)
  case (start s)
  then show ?case using lstep_idle [of js t s s] by (simp add: lock_reached_def sv_quiet_def)
next
  case (world hs as s s1 s')
  note r = world.IH [OF world.prems]
  have i1: "lock_inv js t s1" using r by (auto simp: lock_reached_def intro: lstep_inv)
  have "lstep js t {} s1 s'" by (rule lstep_env [OF i1]) (use world.hyps(2) in \<open>simp_all add: lock_env_def\<close>)
  moreover have "deleting s' = {}"
  proof -
    have "deleting s1 = {}" using r by (simp add: lock_reached_def)
    then show ?thesis using world.hyps(2) unfolding deleting_def lock_env_def by blast
  qed
  ultimately show ?case using lock_reached_step [OF world.prems(1) r, of "{}" s' "[]" "[]"] by simp
next
  case (poll hs as s s1 sr ctx mx q s')
  note r = poll.IH [OF poll.prems]
  have i1: "lock_inv js t s1" "deleting s1 = {}" using r by (auto simp: lock_reached_def intro: lstep_inv)
  note p = poll_step [OF D poll.hyps(2) i1 poll.hyps(3)]
  show ?case using lock_reached_step [OF poll.prems(1) r, of "{}" s' "polled sr ctx s1" "[]"] p by simp
next
  case (ack hs as s s1 sr lr ctx e s')
  note r = ack.IH [OF ack.prems]
  have i1: "lock_inv js t s1" "deleting s1 = {}" using r by (auto simp: lock_reached_def intro: lstep_inv)
  obtain K ql where K: "ld_lock D = Some K" "\<And>ctx lr t. kd_AckLock K ctx lr t = AckLock_with ql lr t"
    using lock_ops [OF D] by metis
  have a: "AckLock_with ql lr t s1 = (Val e, s')" using ack.hyps(2,4) K by (simp add: lock_ackClosure_def lock_worker_def)
  have h: "handed_out t s1 lr" using r ack.hyps(3) by (simp add: lock_reached_def)
  note st = AckLock_step [OF i1(1) h a]
  have d: "deleting s' = {}" using deleting_AckLock [OF a] i1(2) by simp
  show ?case
  proof (cases "sv_txs s1 (lr_Tx lr) = None")
    case True
    then show ?thesis using lock_reached_step [OF ack.prems(1) r, of "{}" s' "[]" "[]"] st d by simp
  next
    case False
    then obtain w where "sv_view t s1 (lr_ID lr) = Some w" using h by (auto simp: handed_out_def)
    then have "lr_ID lr \<le> sv_seq s1 t" using i1(1) sv_used_dom [of js t s1] by (auto simp: lock_inv_def sv_used_def dom_def)
    moreover have l: "lstep js t {lr_ID lr} s1 s'" using st False by simp
    ultimately have "lr_ID lr \<le> sv_seq s' t" by (simp add: lstep_def)
    then show ?thesis using lock_reached_step [OF ack.prems(1) r l d, of "[]" "[(lr_ID lr, e = None)]"] st False by auto
  qed
next
  case (nack hs as s s1 sr lr ctx rq d e s')
  note r = nack.IH [OF nack.prems]
  have i1: "lock_inv js t s1" "deleting s1 = {}" using r by (auto simp: lock_reached_def intro: lstep_inv)
  obtain K ql where K: "ld_lock D = Some K" "\<And>ctx lr t d. kd_NackLock K ctx lr t d = NackLock_with ql lr t d"
    using lock_ops [OF D] by metis
  have a: "NackLock_with ql lr t (if rq then d else 0) s1 = (Val e, s')"
    using nack.hyps(2,4) K by (simp add: lock_nackClosure_def lock_worker_def)
  have d: "deleting s' = {}" using deleting_NackLock [OF a] i1(2) by simp
  show ?case using lock_reached_step [OF nack.prems(1) r, of "{}" s' "[]" "[]"] NackLock_step [OF i1 a] d by simp
next
  case (send hs as s s1 ob ctx m d e s')
  note r = send.IH [OF send.prems]
  have i1: "lock_inv js t s1" "deleting s1 = {}" using r by (auto simp: lock_reached_def intro: lstep_inv)
  note st = send_step [OF D i1(1) send.hyps(2-4)]
  show ?case using lock_reached_step [OF send.prems(1) r, of "{}" s' "[]" "[]"] st i1(2) by simp
qed


text \<open>
  C25. The lock strategy over PostgreSQL and over MySQL. Whatever the interleaving of polls, settlements, sends, failing statements
  and commits, and crashes: a message stays in the table with its content until an acknowledgement of it is called while
  the transaction that claimed it is open; once such an acknowledgement reported success the message is gone for ever; as long as
  the transaction of a row handed out is open the row is there with what was handed out; and two open transactions never
  hold the same message.
\<close>

theorem lock_queue_one_worker:
  assumes "D = postgres_LeaseDialect \<or> D = mysql_LeaseDialect" "lock_run L D t hs as s s'" "sv_inv js t s" "sv_txs s = Map.empty"
  shows "(\<forall>i w. sv_view t s i = Some w \<longrightarrow> (\<exists>w'. sv_view t s' i = Some w' \<and> later w w') \<or> (\<exists>ok. (i, ok) \<in> set as))
    \<and> (\<forall>i. (i, True) \<in> set as \<longrightarrow> sv_view t s' i = None)
    \<and> (\<forall>lr \<in> set hs. sv_txs s' (lr_Tx lr) \<noteq> None \<longrightarrow> (\<exists>w. sv_view t s' (lr_ID lr) = Some w
        \<and> lw_MsgID w = lr_MsgID lr \<and> lw_Headers w = lr_Headers lr \<and> lw_Payload w = lr_Payload lr))
    \<and> (\<forall>lr \<in> set hs. \<forall>lr' \<in> set hs. sv_txs s' (lr_Tx lr) \<noteq> None \<longrightarrow> sv_txs s' (lr_Tx lr') \<noteq> None \<longrightarrow> lr_ID lr = lr_ID lr'
        \<longrightarrow> lr_Tx lr = lr_Tx lr')"
proof (intro conjI)
  have inv: "lock_inv js t s" "deleting s = {}" using assms(3,4) by (simp_all add: lock_inv_def holds_def deleting_def)
  note r = lock_run_reached [OF assms(2,1) inv]
  have l: "lstep js t (fst ` set as) s s'" using r by (simp add: lock_reached_def)
  have "(\<exists>w'. sv_view t s' i = Some w' \<and> later w w') \<or> (\<exists>ok. (i, ok) \<in> set as)" if "sv_view t s i = Some w" for i w
    using l that by (cases rule: lstep_kept) auto
  then show "\<forall>i w. sv_view t s i = Some w \<longrightarrow> (\<exists>w'. sv_view t s' i = Some w' \<and> later w w') \<or> (\<exists>ok. (i, ok) \<in> set as)" by blast
  show "\<forall>i. (i, True) \<in> set as \<longrightarrow> sv_view t s' i = None" using r by (simp add: lock_reached_def)
  show "\<forall>lr \<in> set hs. sv_txs s' (lr_Tx lr) \<noteq> None \<longrightarrow> (\<exists>w. sv_view t s' (lr_ID lr) = Some w
      \<and> lw_MsgID w = lr_MsgID lr \<and> lw_Headers w = lr_Headers lr \<and> lw_Payload w = lr_Payload lr)"
    using r unfolding lock_reached_def handed_out_def by blast
  have "lr_Tx lr = lr_Tx lr'" if a: "lr \<in> set hs" "lr' \<in> set hs" "sv_txs s' (lr_Tx lr) \<noteq> None" "sv_txs s' (lr_Tx lr') \<noteq> None" "lr_ID lr = lr_ID lr'" for lr lr'
  proof -
    have "handed_out t s' lr" "handed_out t s' lr'" using r a(1,2) by (simp_all add: lock_reached_def)
    then obtain c c' where "holds t s' (lr_Tx lr) c" "pending_id c = lr_ID lr" "holds t s' (lr_Tx lr') c'" "pending_id c' = lr_ID lr'"
      using a(3,4) unfolding handed_out_def by blast
    then show ?thesis using lstep_inv [OF l] a(5) unfolding lock_inv_def by metis
  qed
  then show "\<forall>lr \<in> set hs. \<forall>lr' \<in> set hs. sv_txs s' (lr_Tx lr) \<noteq> None \<longrightarrow> sv_txs s' (lr_Tx lr') \<noteq> None \<longrightarrow> lr_ID lr = lr_ID lr'
      \<longrightarrow> lr_Tx lr = lr_Tx lr'" by blast
qed

text \<open>A worker with the lock strategy claims the demonstration row and acknowledges it.\<close>

definition lock_source :: "(srv, querier, nat) Source" where
  "lock_source = \<lparr>sr_base = server_base postgres_LeaseDialect ''q'', sr_strategy = 1, sr_leaseTTL = 5 * Minute, sr_lockedBy = ''w'',
     sr_lockDialect = ld_lock postgres_LeaseDialect\<rparr>"

definition demo_locked :: "nat LockedRow" where
  "demo_locked = \<lparr>lr_ID = 1, lr_MsgID = qr_msg_id demo_row, lr_Headers = qr_headers demo_row, lr_Payload = qr_payload demo_row,
     lr_DeliveryCount = qr_delivery_count demo_row + 1, lr_Tx = 0\<rparr>"

definition demo_claimed :: srv where
  "demo_claimed = demo_srv\<lparr>sv_txs := [0 \<mapsto> \<lparr>ltx_start = 0, ltx_table = ''q'', ltx_change = Some (PUpdate (demo_row\<lparr>qr_delivery_count := qr_delivery_count demo_row + 1\<rparr>))\<rparr>],
     sv_next := 1\<rparr>"

lemma demo_locks: "ClaimLock_with postgres_lock Pool ''q'' demo_srv = (Val (Inr (Some demo_locked)), demo_claimed)"
  by (simp add: ClaimLock_with_def postgres_lock_def quoted_def pgQuoteTable_def valid_q bindE_def bindP_def returnP_def BeginLockTx_def demo_srv_def sv_event_def
      tx_select_def sv_visit_def lockable_def locked_ids_def demo_row_def tx_exec_def on_row_def demo_locked_def demo_claimed_def)

lemma demo_lock_acks: "AckLock_with postgres_lock demo_locked ''q'' demo_claimed =
    (Val None, demo_claimed\<lparr>sv_txs := (sv_txs demo_claimed)(0 := None), sv_rows := [''q'' \<mapsto> []]\<rparr>)"
  by (simp add: AckLock_with_def postgres_lock_def pgQuoteTable_def valid_q SettleLockTx_def sv_commit_def bindP_def returnP_def tx_exec_def demo_claimed_def demo_srv_def sv_event_def
      on_row_def tx_commit_def tx_rollback_def demo_row_def demo_locked_def)

theorem lock_queue_one_worker_witness:
  "\<exists>s'. lock_run demo_lib postgres_LeaseDialect ''q'' [demo_locked] [(1, True)] demo_srv s' \<and> sv_view ''q'' demo_srv 1 \<noteq> None \<and> sv_view ''q'' s' 1 = None"
proof -
  have w: "lock_worker postgres_LeaseDialect ''q'' lock_source" by (simp add: lock_worker_def lock_source_def)
  have K: "kd_ClaimLock (the (ld_lock postgres_LeaseDialect)) = postgres_ClaimLock" "kd_AckLock (the (ld_lock postgres_LeaseDialect)) = postgres_AckLock"
    by (simp_all add: postgres_LeaseDialect_def)
  obtain h where h: "DecodeHeaders demo_lib (qr_headers demo_row) = Inr h" by (simp add: demo_row_def DecodeHeaders_def json_Unmarshal_def)
  have p: "\<exists>r. Source_Poll demo_lib lock_source (\<lambda>_. None) 1 demo_srv = (Val r, demo_claimed)" "polled lock_source (\<lambda>_. None) demo_srv = [demo_locked]"
    by (simp_all add: Source_Poll_def pollLock_def polled_def lock_source_def K postgres_ClaimLock_def demo_locks bindP_def returnP_def Let_def demo_locked_def h)
  then obtain r where r: "Source_Poll demo_lib lock_source (\<lambda>_. None) 1 demo_srv = (Val r, demo_claimed)" by blast
  let ?s = "demo_claimed\<lparr>sv_txs := (sv_txs demo_claimed)(0 := None), sv_rows := [''q'' \<mapsto> []]\<rparr>"
  have a: "lock_ackClosure lock_source demo_locked (\<lambda>_. None) demo_claimed = (Val None, ?s)"
    by (simp add: lock_ackClosure_def lock_source_def K postgres_AckLock_def demo_lock_acks)
  have run1: "lock_run demo_lib postgres_LeaseDialect ''q'' [demo_locked] [] demo_srv demo_claimed"
    using lock_run.poll [OF lock_run.start w r] p(2) by simp
  have run: "lock_run demo_lib postgres_LeaseDialect ''q'' [demo_locked] [(1, True)] demo_srv ?s"
    using lock_run.ack [OF run1 w _ a] by (simp add: demo_locked_def demo_claimed_def)
  have v: "sv_view ''q'' demo_srv 1 \<noteq> None" by (simp add: sv_view_def demo_srv_def rows_view_def demo_row_def)
  have t: "sv_txs demo_srv = Map.empty" by (simp add: demo_srv_def)
  from lock_queue_one_worker [OF _ run demo_srv_inv t] run v show ?thesis by auto
qed


section \<open>When a negative acknowledgement counts its delay from\<close>

text \<open>
  C39. The delay of a negative acknowledgement under the lock strategy. On MySQL the row becomes visible the delay after the
  negative acknowledgement. On PostgreSQL \<^verbatim>\<open>now()\<close> is the start of the transaction, which is the claim: the row becomes
  visible the delay after the claim, so when the handler took at least the delay the row can be claimed again at once.
\<close>

theorem postgres_nack_delay_from_claim:
  assumes calm: "sv_events s = []" and t: "ValidateIdent t = None" and rs: "sv_rows s t = Some rs" and r: "r \<in> set rs" "qr_id r = lr_ID lr"
    and x: "sv_txs s (lr_Tx lr) = Some x" "ltx_table x = t" "ltx_change x = Some (PUpdate y)" "qr_id y = lr_ID lr"
  shows "\<exists>sp sm rp rm. postgres_NackLock ctx lr t d s = (Val None, sp) \<and> mysql_NackLock ctx lr t d s = (Val None, sm)
    \<and> rp \<in> set (the (sv_rows sp t)) \<and> qr_id rp = lr_ID lr \<and> qr_visible_after rp = ltx_start x + Microseconds d
    \<and> rm \<in> set (the (sv_rows sm t)) \<and> qr_id rm = lr_ID lr \<and> qr_visible_after rm = sv_now s + Microseconds d
    \<and> (ltx_start x + Microseconds d \<le> sv_now s \<longrightarrow> lockable (sv_now s) {} rp) \<and> (0 < Microseconds d \<longrightarrow> \<not> lockable (sv_now s) {} rm)"
proof -
  define freed where "freed now = y\<lparr>qr_locked_by := None, qr_locked_at := None, qr_visible_after := now + Microseconds d\<rparr>" for now
  define moved where "moved now = s\<lparr>sv_rows := (sv_rows s)(t \<mapsto> map (\<lambda>z. if qr_id z = lr_ID lr then freed now else z) rs), sv_txs := (sv_txs s)(lr_Tx lr := None)\<rparr>" for now
  have run: "NackLock_with ql lr t d s = (Val None, moved (lk_now ql (ltx_start x) (sv_now s)))" if "lk_quote ql t = Inr qt" for ql qt
    using that calm rs x unfolding moved_def freed_def
    by (simp add: NackLock_with_def SettleLockTx_def tx_exec_def sv_event_def sv_commit_def tx_commit_def tx_rollback_def on_row_def bindP_def returnP_def)
  have "freed now \<in> set (the (sv_rows (moved now) t))" "qr_id (freed now) = lr_ID lr" "qr_visible_after (freed now) = now + Microseconds d"
    "lockable (sv_now s) {} (freed now) \<longleftrightarrow> now + Microseconds d \<le> sv_now s" for now
    using r x(4) by (auto simp: moved_def freed_def lockable_def image_iff)
  moreover have "postgres_NackLock ctx lr t d s = (Val None, moved (ltx_start x))"
    using run [of postgres_lock "pg_quote t"] t by (simp add: postgres_NackLock_def postgres_lock_def pgQuoteTable_def)
  moreover have "mysql_NackLock ctx lr t d s = (Val None, moved (sv_now s))"
    using run [of mysql_lock "mysql_quote t"] t by (simp add: mysql_NackLock_def mysql_lock_def mysqlQuoteTable_def)
  ultimately show ?thesis by (intro exI [of _ "moved (ltx_start x)"] exI [of _ "moved (sv_now s)"] exI [of _ "freed (ltx_start x)"] exI [of _ "freed (sv_now s)"]) simp
qed

text \<open>A handler takes ten seconds on the demonstration row and asks for five seconds of delay.\<close>

theorem postgres_nack_delay_from_claim_witness:
  "\<exists>sp rp. postgres_NackLock (\<lambda>_. None) demo_locked ''q'' (5 * Second) (demo_claimed\<lparr>sv_now := 10000000\<rparr>) = (Val None, sp)
    \<and> rp \<in> set (the (sv_rows sp ''q'')) \<and> lockable 10000000 {} rp"
proof -
  let ?s = "demo_claimed\<lparr>sv_now := 10000000\<rparr>"
  let ?x = "\<lparr>ltx_start = 0, ltx_table = ''q'', ltx_change = Some (PUpdate (demo_row\<lparr>qr_delivery_count := qr_delivery_count demo_row + 1\<rparr>))\<rparr>"
  have f: "sv_events ?s = []" "sv_rows ?s ''q'' = Some [demo_row]" "demo_row \<in> set [demo_row]" "qr_id demo_row = lr_ID demo_locked"
    "sv_txs ?s (lr_Tx demo_locked) = Some ?x" "ltx_table ?x = ''q''"
    "ltx_change ?x = Some (PUpdate (demo_row\<lparr>qr_delivery_count := qr_delivery_count demo_row + 1\<rparr>))"
    "qr_id (demo_row\<lparr>qr_delivery_count := qr_delivery_count demo_row + 1\<rparr>) = lr_ID demo_locked"
    by (simp_all add: demo_claimed_def demo_srv_def demo_locked_def demo_row_def)
  have m: "ltx_start ?x + Microseconds (5 * Second) \<le> sv_now ?s" by (simp add: Microseconds_def)
  show ?thesis using postgres_nack_delay_from_claim [OF f(1) valid_q f(2-8), of "\<lambda>_. None" "5 * Second"] m by auto
qed

end
