(* ===== verification/Cron_Sql.thy ===== *)
theory Cron_Sql
  imports Sql_Lease Sqlite_Lease
begin

text \<open>
  The SQL coordinators of the cron source (\<^verbatim>\<open>adapter/cron/sqllock.go\<close>, \<^verbatim>\<open>sqlelector.go\<close>, \<^verbatim>\<open>sqlutil.go\<close>,
  \<^verbatim>\<open>dialect.go\<close>): the per-fire locker and the leader elector with their PostgreSQL, MySQL and SQLite dialects. The
  tables are lists of rows, a statement is a function on them that runs at one instant of the database
  clock and may fail, lose its reply, or, for an \<^verbatim>\<open>INSERT IGNORE\<close>, have its error demoted to a warning.
  Strings compare exactly, as under a binary collation (the reference DDL for MySQL leaves the collation to the database's default). How a driver stores a fire time in a timestamp column of
  PostgreSQL and MySQL is the argument \<open>col\<close>.

  The locker contract and the elector contract are locales, interpreted on all three dialects: a fire is won at most
  once, and two holders never lead within one lease, however the statements of their calls interleave. The three statements of the MySQL elector are equivalent to
  the single statement of the others.
\<close>

section \<open>The database\<close>

record fired_row =
  fr_scope :: string
  fr_fire_ts :: int
  fr_claimed_at :: int

record leader_row =
  el_scope :: string
  el_holder :: string
  el_expires_at :: int

datatype stmt_event = Runs | Fails err | Loses err | Demotes

record crondb =
  db_fired :: "string \<rightharpoonup> fired_row list"
  db_leases :: "string \<rightharpoonup> leader_row list"
  db_now :: int
  db_events :: "(stmt_event \<times> nat) list"

definition next_stmt :: "crondb \<Rightarrow> stmt_event \<times> crondb" where
  "next_stmt s =
     (case db_events s of
        [] \<Rightarrow> (Runs, s)
      | (e, d) # es \<Rightarrow> (e, s\<lparr>db_events := es, db_now := db_now s + int d\<rparr>))"

definition stmt_reply :: "stmt_event \<Rightarrow> 'a \<Rightarrow> err + 'a" where
  "stmt_reply ev a = (case ev of Loses e \<Rightarrow> Inl e | _ \<Rightarrow> Inr a)"

definition fired_stmt :: "string \<Rightarrow> (bool \<Rightarrow> int \<Rightarrow> fired_row list \<Rightarrow> fired_row list \<times> 'a) \<Rightarrow> (crondb, err + 'a) prog" where
  "fired_stmt t f s0 =
     (case next_stmt s0 of (ev, s) \<Rightarrow>
        (case ev of
           Fails e \<Rightarrow> (Val (Inl e), s)
         | _ \<Rightarrow>
             (case db_fired s t of
                None \<Rightarrow> (Val (Inl no_such_table), s)
              | Some rs \<Rightarrow>
                  (case f (ev = Demotes) (db_now s) rs of (rs', a) \<Rightarrow>
                     (Val (stmt_reply ev a), s\<lparr>db_fired := (db_fired s)(t \<mapsto> rs')\<rparr>)))))"

definition lease_stmt :: "string \<Rightarrow> (bool \<Rightarrow> int \<Rightarrow> leader_row list \<Rightarrow> leader_row list \<times> 'a) \<Rightarrow> (crondb, err + 'a) prog" where
  "lease_stmt t f s0 =
     (case next_stmt s0 of (ev, s) \<Rightarrow>
        (case ev of
           Fails e \<Rightarrow> (Val (Inl e), s)
         | _ \<Rightarrow>
             (case db_leases s t of
                None \<Rightarrow> (Val (Inl no_such_table), s)
              | Some rs \<Rightarrow>
                  (case f (ev = Demotes) (db_now s) rs of (rs', a) \<Rightarrow>
                     (Val (stmt_reply ev a), s\<lparr>db_leases := (db_leases s)(t \<mapsto> rs')\<rparr>)))))"

definition ddl_stmt :: "(crondb \<Rightarrow> crondb) \<Rightarrow> (crondb, err option) prog" where
  "ddl_stmt f s0 =
     (case next_stmt s0 of (ev, s) \<Rightarrow>
        (case ev of Fails e \<Rightarrow> (Val (Some e), s) | Loses e \<Rightarrow> (Val (Some e), f s) | _ \<Rightarrow> (Val None, f s)))"

section \<open>Identifiers\<close>

abbreviation cron_err :: "cron_sentinel \<Rightarrow> err" where "cron_err e \<equiv> Sentinel (MsgCron e)"

definition validateIdent :: "string \<Rightarrow> err option" where
  "validateIdent name =
     (if \<not> identPattern name then Some (Errorf ''%w: %q'' [ArgW (cron_err CronErrInvalidTableName), ArgS name]) else None)"

definition quote_with :: "char \<Rightarrow> string \<Rightarrow> string" where
  "quote_with c n = [c] @ concat (map (\<lambda>x. if x = c then [c, c] else [x]) n) @ [c]"

definition pgQuote :: "string \<Rightarrow> string" where "pgQuote = quote_with (CHR 34)"
definition mysqlQuote :: "string \<Rightarrow> string" where "mysqlQuote = quote_with (CHR 96)"
definition cron_sqliteQuote :: "string \<Rightarrow> string" where "cron_sqliteQuote = quote_with (CHR 34)"

definition quoteTable :: "(string \<Rightarrow> string) \<Rightarrow> string \<Rightarrow> err + string" where
  "quoteTable q table = (case validateIdent table of Some e \<Rightarrow> Inl e | None \<Rightarrow> Inr (q table))"

definition on_table :: "(string \<Rightarrow> string) \<Rightarrow> string \<Rightarrow> (crondb, err + 'a) prog \<Rightarrow> (crondb, err + 'a) prog" where
  "on_table q table m = (case quoteTable q table of Inl e \<Rightarrow> returnP (Inl e) | Inr _ \<Rightarrow> m)"

section \<open>The locker dialects\<close>

record ('s, 'q) LockerDialect =
  kd_ClaimFire :: "'s ctx \<Rightarrow> 'q \<Rightarrow> string \<Rightarrow> string \<Rightarrow> time \<Rightarrow> ('s, err + bool) prog"
  kd_PurgeFired :: "'s ctx \<Rightarrow> 'q \<Rightarrow> string \<Rightarrow> duration \<Rightarrow> ('s, err + int) prog"
  kd_EnsureFiredSchema :: "'s ctx \<Rightarrow> 'q \<Rightarrow> string \<Rightarrow> ('s, err option) prog"

definition is_fire :: "string \<Rightarrow> int \<Rightarrow> fired_row \<Rightarrow> bool" where
  "is_fire scope ts r \<longleftrightarrow> fr_scope r = scope \<and> fr_fire_ts r = ts"

text \<open>\<^verbatim>\<open>INSERT ... ON CONFLICT DO NOTHING RETURNING scope\<close>: the returned row, if any.\<close>

definition insert_returning :: "string \<Rightarrow> int \<Rightarrow> bool \<Rightarrow> int \<Rightarrow> fired_row list \<Rightarrow> fired_row list \<times> string option" where
  "insert_returning scope ts dem now rs =
     (if list_ex (is_fire scope ts) rs then (rs, None)
      else (rs @ [\<lparr>fr_scope = scope, fr_fire_ts = ts, fr_claimed_at = now\<rparr>], Some scope))"

definition purge_fired :: "int \<Rightarrow> bool \<Rightarrow> int \<Rightarrow> fired_row list \<Rightarrow> fired_row list \<times> int" where
  "purge_fired old dem now rs =
     (filter (\<lambda>r. \<not> fr_claimed_at r < now - old) rs, int (length (filter (\<lambda>r. fr_claimed_at r < now - old) rs)))"

definition create_fired :: "string \<Rightarrow> crondb \<Rightarrow> crondb" where
  "create_fired t s = (if db_fired s t = None then s\<lparr>db_fired := (db_fired s)(t \<mapsto> [])\<rparr> else s)"

definition postgresLocker_ClaimFire :: "(time \<Rightarrow> int) \<Rightarrow> crondb ctx \<Rightarrow> unit \<Rightarrow> string \<Rightarrow> string \<Rightarrow> time \<Rightarrow> (crondb, err + bool) prog" where
  "postgresLocker_ClaimFire col ctx q table scope fire =
     on_table pgQuote table
       (bindE (fired_stmt table (insert_returning scope (col fire))) (\<lambda>returned. returnP (Inr (returned \<noteq> None))))"

definition postgresLocker_PurgeFired :: "crondb ctx \<Rightarrow> unit \<Rightarrow> string \<Rightarrow> duration \<Rightarrow> (crondb, err + int) prog" where
  "postgresLocker_PurgeFired ctx q table olderThan =
     on_table pgQuote table (fired_stmt table (purge_fired (Microseconds olderThan)))"

definition ensure_two :: "(string \<Rightarrow> string) \<Rightarrow> string \<Rightarrow> string \<Rightarrow> (crondb \<Rightarrow> crondb) \<Rightarrow> (crondb, err option) prog" where
  "ensure_two q table idx f =
     (case quoteTable q table of
        Inl e \<Rightarrow> returnP (Some e)
      | Inr _ \<Rightarrow>
          bindP (ddl_stmt f) (\<lambda>r.
            case r of
              Some e \<Rightarrow> returnP (Some e)
            | None \<Rightarrow> (case quoteTable q (table @ idx) of Inl e \<Rightarrow> returnP (Some e) | Inr _ \<Rightarrow> ddl_stmt id)))"

definition postgresLocker_EnsureFiredSchema :: "crondb ctx \<Rightarrow> unit \<Rightarrow> string \<Rightarrow> (crondb, err option) prog" where
  "postgresLocker_EnsureFiredSchema ctx q table = ensure_two pgQuote table ''_claimed_idx'' (create_fired table)"

definition PostgresLocker :: "(time \<Rightarrow> int) \<Rightarrow> (crondb, unit) LockerDialect" where
  "PostgresLocker col =
     \<lparr>kd_ClaimFire = postgresLocker_ClaimFire col, kd_PurgeFired = postgresLocker_PurgeFired,
      kd_EnsureFiredSchema = postgresLocker_EnsureFiredSchema\<rparr>"

text \<open>\<^verbatim>\<open>INSERT IGNORE\<close> reports the rows it inserted: none on a duplicate key and none on a demoted error.\<close>

definition insert_ignore :: "string \<Rightarrow> int \<Rightarrow> bool \<Rightarrow> int \<Rightarrow> fired_row list \<Rightarrow> fired_row list \<times> int" where
  "insert_ignore scope ts dem now rs =
     (if dem \<or> list_ex (is_fire scope ts) rs then (rs, 0)
      else (rs @ [\<lparr>fr_scope = scope, fr_fire_ts = ts, fr_claimed_at = now\<rparr>], 1))"

definition select_fire :: "string \<Rightarrow> int \<Rightarrow> bool \<Rightarrow> int \<Rightarrow> fired_row list \<Rightarrow> fired_row list \<times> bool" where
  "select_fire scope ts dem now rs = (rs, list_ex (is_fire scope ts) rs)"

definition mysqlLocker_ClaimFire :: "(time \<Rightarrow> int) \<Rightarrow> crondb ctx \<Rightarrow> unit \<Rightarrow> string \<Rightarrow> string \<Rightarrow> time \<Rightarrow> (crondb, err + bool) prog" where
  "mysqlLocker_ClaimFire col ctx q table scope fire =
     on_table mysqlQuote table
       (bindE (fired_stmt table (insert_ignore scope (col fire))) (\<lambda>n.
          if n = 1 then returnP (Inr True)
          else bindE (fired_stmt table (select_fire scope (col fire))) (\<lambda>found.
                 if \<not> found
                 then returnP (Inl (Errorf ''%w: scope %q fire %s (INSERT IGNORE affected no row and none exists)''
                        [ArgW (cron_err ErrLockerClaimFailed), ArgS scope, ArgV (GTime fire)]))
                 else returnP (Inr False))))"

definition mysqlLocker_PurgeFired :: "crondb ctx \<Rightarrow> unit \<Rightarrow> string \<Rightarrow> duration \<Rightarrow> (crondb, err + int) prog" where
  "mysqlLocker_PurgeFired ctx q table olderThan =
     on_table mysqlQuote table (fired_stmt table (purge_fired (Microseconds olderThan)))"

definition mysqlLocker_EnsureFiredSchema :: "crondb ctx \<Rightarrow> unit \<Rightarrow> string \<Rightarrow> (crondb, err option) prog" where
  "mysqlLocker_EnsureFiredSchema ctx q table =
     (case quoteTable mysqlQuote table of
        Inl e \<Rightarrow> returnP (Some e)
      | Inr _ \<Rightarrow> (case quoteTable mysqlQuote (table @ ''_claimed_idx'') of
                  Inl e \<Rightarrow> returnP (Some e) | Inr _ \<Rightarrow> ddl_stmt (create_fired table)))"

definition MySQLLocker :: "(time \<Rightarrow> int) \<Rightarrow> (crondb, unit) LockerDialect" where
  "MySQLLocker col =
     \<lparr>kd_ClaimFire = mysqlLocker_ClaimFire col, kd_PurgeFired = mysqlLocker_PurgeFired,
      kd_EnsureFiredSchema = mysqlLocker_EnsureFiredSchema\<rparr>"

definition sqliteLocker_ClaimFire :: "crondb ctx \<Rightarrow> unit \<Rightarrow> string \<Rightarrow> string \<Rightarrow> time \<Rightarrow> (crondb, err + bool) prog" where
  "sqliteLocker_ClaimFire ctx q table scope fire =
     on_table cron_sqliteQuote table
       (bindE (fired_stmt table (insert_returning scope (fire div 1000))) (\<lambda>returned. returnP (Inr (returned \<noteq> None))))"

definition sqliteLocker_PurgeFired :: "crondb ctx \<Rightarrow> unit \<Rightarrow> string \<Rightarrow> duration \<Rightarrow> (crondb, err + int) prog" where
  "sqliteLocker_PurgeFired ctx q table olderThan =
     on_table cron_sqliteQuote table (fired_stmt table (purge_fired (Microseconds olderThan)))"

definition sqliteLocker_EnsureFiredSchema :: "crondb ctx \<Rightarrow> unit \<Rightarrow> string \<Rightarrow> (crondb, err option) prog" where
  "sqliteLocker_EnsureFiredSchema ctx q table = ensure_two cron_sqliteQuote table ''_claimed_idx'' (create_fired table)"

definition SQLiteLocker :: "(crondb, unit) LockerDialect" where
  "SQLiteLocker =
     \<lparr>kd_ClaimFire = sqliteLocker_ClaimFire, kd_PurgeFired = sqliteLocker_PurgeFired,
      kd_EnsureFiredSchema = sqliteLocker_EnsureFiredSchema\<rparr>"

section \<open>The elector dialects\<close>

record ('s, 'q) ElectorDialect =
  ed_AcquireOrRenew :: "'s ctx \<Rightarrow> 'q \<Rightarrow> string \<Rightarrow> string \<Rightarrow> string \<Rightarrow> duration \<Rightarrow> ('s, err + bool) prog"
  ed_EnsureLeaseSchema :: "'s ctx \<Rightarrow> 'q \<Rightarrow> string \<Rightarrow> ('s, err option) prog"

definition is_scope :: "string \<Rightarrow> leader_row \<Rightarrow> bool" where
  "is_scope scope r \<longleftrightarrow> el_scope r = scope"

definition renewable :: "string \<Rightarrow> int \<Rightarrow> leader_row \<Rightarrow> bool" where
  "renewable holder now r \<longleftrightarrow> el_holder r = holder \<or> el_expires_at r < now"

text \<open>\<^verbatim>\<open>INSERT ... ON CONFLICT (scope) DO UPDATE ... WHERE ... RETURNING holder\<close>.\<close>

definition upsert_lease :: "string \<Rightarrow> string \<Rightarrow> int \<Rightarrow> bool \<Rightarrow> int \<Rightarrow> leader_row list \<Rightarrow> leader_row list \<times> string option" where
  "upsert_lease scope holder us dem now rs =
     (case find (is_scope scope) rs of
        None \<Rightarrow> (rs @ [\<lparr>el_scope = scope, el_holder = holder, el_expires_at = now + us\<rparr>], Some holder)
      | Some r \<Rightarrow>
          if renewable holder now r
          then (map (\<lambda>x. if is_scope scope x then x\<lparr>el_holder := holder, el_expires_at := now + us\<rparr> else x) rs, Some holder)
          else (rs, None))"

definition create_leases :: "string \<Rightarrow> crondb \<Rightarrow> crondb" where
  "create_leases t s = (if db_leases s t = None then s\<lparr>db_leases := (db_leases s)(t \<mapsto> [])\<rparr> else s)"

definition ensure_one :: "(string \<Rightarrow> string) \<Rightarrow> string \<Rightarrow> (crondb, err option) prog" where
  "ensure_one q table = (case quoteTable q table of Inl e \<Rightarrow> returnP (Some e) | Inr _ \<Rightarrow> ddl_stmt (create_leases table))"

definition postgresElector_AcquireOrRenew ::
  "crondb ctx \<Rightarrow> unit \<Rightarrow> string \<Rightarrow> string \<Rightarrow> string \<Rightarrow> duration \<Rightarrow> (crondb, err + bool) prog" where
  "postgresElector_AcquireOrRenew ctx q table scope holder ttl =
     on_table pgQuote table
       (bindE (lease_stmt table (upsert_lease scope holder (Microseconds ttl))) (\<lambda>got. returnP (Inr (got = Some holder))))"

definition postgresElector_EnsureLeaseSchema :: "crondb ctx \<Rightarrow> unit \<Rightarrow> string \<Rightarrow> (crondb, err option) prog" where
  "postgresElector_EnsureLeaseSchema ctx q table = ensure_one pgQuote table"

definition PostgresElector :: "(crondb, unit) ElectorDialect" where
  "PostgresElector = \<lparr>ed_AcquireOrRenew = postgresElector_AcquireOrRenew, ed_EnsureLeaseSchema = postgresElector_EnsureLeaseSchema\<rparr>"

text \<open>
  The three steps of the MySQL elector. An \<^verbatim>\<open>UPDATE\<close> counts the rows whose values changed, so renewing a lease within one
  microsecond counts none.
\<close>

definition update_lease :: "string \<Rightarrow> string \<Rightarrow> int \<Rightarrow> bool \<Rightarrow> int \<Rightarrow> leader_row list \<Rightarrow> leader_row list \<times> int" where
  "update_lease scope holder us dem now rs =
     (let hit = (\<lambda>r. is_scope scope r \<and> renewable holder now r);
          new = (\<lambda>r. r\<lparr>el_holder := holder, el_expires_at := now + us\<rparr>)
      in (map (\<lambda>r. if hit r then new r else r) rs, int (length (filter (\<lambda>r. hit r \<and> new r \<noteq> r) rs))))"

definition select_lease :: "string \<Rightarrow> bool \<Rightarrow> int \<Rightarrow> leader_row list \<Rightarrow> leader_row list \<times> (string \<times> bool) option" where
  "select_lease scope dem now rs = (rs, map_option (\<lambda>r. (el_holder r, el_expires_at r < now)) (find (is_scope scope) rs))"

definition insert_lease :: "string \<Rightarrow> string \<Rightarrow> int \<Rightarrow> bool \<Rightarrow> int \<Rightarrow> leader_row list \<Rightarrow> leader_row list \<times> int" where
  "insert_lease scope holder us dem now rs =
     (if dem \<or> list_ex (is_scope scope) rs then (rs, 0)
      else (rs @ [\<lparr>el_scope = scope, el_holder = holder, el_expires_at = now + us\<rparr>], 1))"

definition mysqlElector_AcquireOrRenew ::
  "crondb ctx \<Rightarrow> unit \<Rightarrow> string \<Rightarrow> string \<Rightarrow> string \<Rightarrow> duration \<Rightarrow> (crondb, err + bool) prog" where
  "mysqlElector_AcquireOrRenew ctx q table scope holder ttl =
     on_table mysqlQuote table
       (let micros = Microseconds ttl in
        bindE (lease_stmt table (update_lease scope holder micros)) (\<lambda>n.
          if n \<ge> 1 then returnP (Inr True)
          else
            bindE (lease_stmt table (select_lease scope)) (\<lambda>row.
              case row of
                Some (curHolder, expired) \<Rightarrow> returnP (Inr (curHolder = holder \<and> \<not> expired))
              | None \<Rightarrow>
                  bindE (lease_stmt table (insert_lease scope holder micros)) (\<lambda>ins.
                    if ins = 1 then returnP (Inr True)
                    else
                      bindE (lease_stmt table (select_lease scope)) (\<lambda>row.
                        case row of
                          None \<Rightarrow> returnP (Inl (Errorf ''%w: scope %q (INSERT IGNORE affected no row and none exists)''
                                    [ArgW (cron_err ErrElectorAcquireFailed), ArgS scope]))
                        | Some (curHolder, _) \<Rightarrow> returnP (Inr (curHolder = holder)))))))"

definition mysqlElector_EnsureLeaseSchema :: "crondb ctx \<Rightarrow> unit \<Rightarrow> string \<Rightarrow> (crondb, err option) prog" where
  "mysqlElector_EnsureLeaseSchema ctx q table = ensure_one mysqlQuote table"

definition MySQLElector :: "(crondb, unit) ElectorDialect" where
  "MySQLElector = \<lparr>ed_AcquireOrRenew = mysqlElector_AcquireOrRenew, ed_EnsureLeaseSchema = mysqlElector_EnsureLeaseSchema\<rparr>"

definition sqliteElector_AcquireOrRenew ::
  "crondb ctx \<Rightarrow> unit \<Rightarrow> string \<Rightarrow> string \<Rightarrow> string \<Rightarrow> duration \<Rightarrow> (crondb, err + bool) prog" where
  "sqliteElector_AcquireOrRenew ctx q table scope holder ttl =
     on_table cron_sqliteQuote table
       (bindE (lease_stmt table (upsert_lease scope holder (Microseconds ttl))) (\<lambda>got. returnP (Inr (got = Some holder))))"

definition sqliteElector_EnsureLeaseSchema :: "crondb ctx \<Rightarrow> unit \<Rightarrow> string \<Rightarrow> (crondb, err option) prog" where
  "sqliteElector_EnsureLeaseSchema ctx q table = ensure_one cron_sqliteQuote table"

definition SQLiteElector :: "(crondb, unit) ElectorDialect" where
  "SQLiteElector = \<lparr>ed_AcquireOrRenew = sqliteElector_AcquireOrRenew, ed_EnsureLeaseSchema = sqliteElector_EnsureLeaseSchema\<rparr>"

text \<open>
  The same acquisitions statement by statement, since other instances can run statements of theirs in between: \<open>elect_stmt\<close> runs
  the statement that a call stands at and gives the one it stands at next, or the verdict. \<open>elect_alone\<close>
  is a call that nobody interleaves with.
\<close>

datatype elect_pc = AtUpsert | AtUpdate | AtVerify | AtInsert | AtRecheck

definition elect_stmt :: "string \<Rightarrow> elect_pc \<Rightarrow> string \<Rightarrow> string \<Rightarrow> duration \<Rightarrow> (crondb, elect_pc + (err + bool)) prog" where
  "elect_stmt table p scope holder ttl =
     (case p of
        AtUpsert \<Rightarrow>
          bindP (lease_stmt table (upsert_lease scope holder (Microseconds ttl))) (\<lambda>r.
            returnP (Inr (case r of Inl e \<Rightarrow> Inl e | Inr got \<Rightarrow> Inr (got = Some holder))))
      | AtUpdate \<Rightarrow>
          bindP (lease_stmt table (update_lease scope holder (Microseconds ttl))) (\<lambda>r.
            returnP (case r of Inl e \<Rightarrow> Inr (Inl e) | Inr n \<Rightarrow> if n \<ge> 1 then Inr (Inr True) else Inl AtVerify))
      | AtVerify \<Rightarrow>
          bindP (lease_stmt table (select_lease scope)) (\<lambda>r.
            returnP (case r of
                Inl e \<Rightarrow> Inr (Inl e)
              | Inr None \<Rightarrow> Inl AtInsert
              | Inr (Some (curHolder, expired)) \<Rightarrow> Inr (Inr (curHolder = holder \<and> \<not> expired))))
      | AtInsert \<Rightarrow>
          bindP (lease_stmt table (insert_lease scope holder (Microseconds ttl))) (\<lambda>r.
            returnP (case r of Inl e \<Rightarrow> Inr (Inl e) | Inr ins \<Rightarrow> if ins = 1 then Inr (Inr True) else Inl AtRecheck))
      | AtRecheck \<Rightarrow>
          bindP (lease_stmt table (select_lease scope)) (\<lambda>r.
            returnP (Inr (case r of
                Inl e \<Rightarrow> Inl e
              | Inr None \<Rightarrow> Inl (Errorf ''%w: scope %q (INSERT IGNORE affected no row and none exists)''
                                [ArgW (cron_err ErrElectorAcquireFailed), ArgS scope])
              | Inr (Some (curHolder, _)) \<Rightarrow> Inr (curHolder = holder)))))"

datatype elector_kind = OnPostgres | OnMySQL | OnSQLite

fun elector_of :: "elector_kind \<Rightarrow> (crondb, unit) ElectorDialect" where
  "elector_of OnPostgres = PostgresElector"
| "elector_of OnMySQL = MySQLElector"
| "elector_of OnSQLite = SQLiteElector"

fun elect_first :: "elector_kind \<Rightarrow> elect_pc" where
  "elect_first OnPostgres = AtUpsert"
| "elect_first OnMySQL = AtUpdate"
| "elect_first OnSQLite = AtUpsert"

inductive elect_alone :: "string \<Rightarrow> string \<Rightarrow> string \<Rightarrow> duration \<Rightarrow> elect_pc \<Rightarrow> crondb \<Rightarrow> err + bool \<Rightarrow> crondb \<Rightarrow> bool"
  for table scope holder ttl where
  verdict: "elect_stmt table p scope holder ttl s = (Val (Inr v), s') \<Longrightarrow> elect_alone table scope holder ttl p s v s'"
| go_on: "elect_stmt table p scope holder ttl s = (Val (Inl p'), s1) \<Longrightarrow> elect_alone table scope holder ttl p' s1 v s' \<Longrightarrow>
    elect_alone table scope holder ttl p s v s'"

section \<open>The coordinators\<close>

abbreviation defaultFiredTable :: string where "defaultFiredTable \<equiv> ''msgin_cron_fired''"
abbreviation defaultLeaseTable :: string where "defaultLeaseTable \<equiv> ''msgin_cron_leader''"
abbreviation cron_defaultLeaseTTL :: duration where "cron_defaultLeaseTTL \<equiv> 30 * Second"

record ('s, 'q) SQLLocker =
  sl_db :: 'q
  sl_table :: string
  sl_dialect :: "('s, 'q) LockerDialect"

definition WithLockerTable :: "string \<Rightarrow> (string \<Rightarrow> string) option" where
  "WithLockerTable table = Some (\<lambda>_. table)"

definition NewSQLLocker :: "'q option \<Rightarrow> ('s, 'q) LockerDialect option \<Rightarrow> (string \<Rightarrow> string) option list \<Rightarrow> err + ('s, 'q) SQLLocker" where
  "NewSQLLocker db dialect opts =
     (case db of
        None \<Rightarrow> Inl (Sentinel ErrNilAdapter)
      | Some q \<Rightarrow>
          (case dialect of
             None \<Rightarrow> Inl (cron_err CronErrNilDialect)
           | Some d \<Rightarrow>
               (case apply_opts 0 opts defaultFiredTable of
                  Inl i \<Rightarrow> Inl (nilOptionAt ''cron.NewSQLLocker'' i)
                | Inr table \<Rightarrow>
                    (case validateIdent table of
                       Some e \<Rightarrow> Inl e
                     | None \<Rightarrow> Inr \<lparr>sl_db = q, sl_table = table, sl_dialect = d\<rparr>))))"

definition SQLLocker_Claim :: "('s, 'q) SQLLocker \<Rightarrow> 's ctx \<Rightarrow> string \<Rightarrow> time \<Rightarrow> ('s, err + bool) prog" where
  "SQLLocker_Claim l ctx scope fire = kd_ClaimFire (sl_dialect l) ctx (sl_db l) (sl_table l) scope fire"

definition SQLLocker_Purge :: "('s, 'q) SQLLocker \<Rightarrow> 's ctx \<Rightarrow> duration \<Rightarrow> ('s, err + int) prog" where
  "SQLLocker_Purge l ctx olderThan =
     (if olderThan \<le> 0 then returnP (Inl (cron_err CronErrInvalidRetention))
      else kd_PurgeFired (sl_dialect l) ctx (sl_db l) (sl_table l) olderThan)"

definition SQLLocker_EnsureSchema :: "('s, 'q) SQLLocker \<Rightarrow> 's ctx \<Rightarrow> ('s, err option) prog" where
  "SQLLocker_EnsureSchema l ctx = kd_EnsureFiredSchema (sl_dialect l) ctx (sl_db l) (sl_table l)"

record electorConfig =
  ec_table :: string
  ec_instanceID :: string
  ec_leaseTTL :: duration
  ec_ttlSet :: bool

definition WithElectorTable :: "string \<Rightarrow> (electorConfig \<Rightarrow> electorConfig) option" where
  "WithElectorTable table = Some (\<lambda>c. c\<lparr>ec_table := table\<rparr>)"

definition WithElectorInstanceID :: "string \<Rightarrow> (electorConfig \<Rightarrow> electorConfig) option" where
  "WithElectorInstanceID i = Some (\<lambda>c. if i \<noteq> '''' then c\<lparr>ec_instanceID := i\<rparr> else c)"

definition cron_WithLeaseTTL :: "duration \<Rightarrow> (electorConfig \<Rightarrow> electorConfig) option" where
  "cron_WithLeaseTTL d = Some (\<lambda>c. c\<lparr>ec_leaseTTL := d, ec_ttlSet := True\<rparr>)"

record ('s, 'q) SQLElector =
  se_db :: 'q
  se_table :: string
  se_instanceID :: string
  se_leaseTTL :: duration
  se_dialect :: "('s, 'q) ElectorDialect"

text \<open>\<open>rnd\<close> are the random bytes of \<open>randomID\<close>.\<close>

definition NewSQLElector ::
  "string \<Rightarrow> 'q option \<Rightarrow> ('s, 'q) ElectorDialect option \<Rightarrow> (electorConfig \<Rightarrow> electorConfig) option list \<Rightarrow> err + ('s, 'q) SQLElector" where
  "NewSQLElector rnd db dialect opts =
     (case db of
        None \<Rightarrow> Inl (Sentinel ErrNilAdapter)
      | Some q \<Rightarrow>
          (case dialect of
             None \<Rightarrow> Inl (cron_err CronErrNilDialect)
           | Some d \<Rightarrow>
               (case apply_opts 0 opts \<lparr>ec_table = defaultLeaseTable, ec_instanceID = NewID rnd, ec_leaseTTL = cron_defaultLeaseTTL, ec_ttlSet = False\<rparr> of
                  Inl i \<Rightarrow> Inl (nilOptionAt ''cron.NewSQLElector'' i)
                | Inr cfg \<Rightarrow>
                    (case validateIdent (ec_table cfg) of
                       Some e \<Rightarrow> Inl e
                     | None \<Rightarrow>
                         if ec_ttlSet cfg \<and> ec_leaseTTL cfg \<le> 0 then Inl (cron_err CronErrInvalidLeaseTTL)
                         else Inr \<lparr>se_db = q, se_table = ec_table cfg, se_instanceID = ec_instanceID cfg,
                                   se_leaseTTL = ec_leaseTTL cfg, se_dialect = d\<rparr>))))"

definition SQLElector_IsLeader :: "('s, 'q) SQLElector \<Rightarrow> 's ctx \<Rightarrow> string \<Rightarrow> ('s, err + bool) prog" where
  "SQLElector_IsLeader e ctx scope =
     ed_AcquireOrRenew (se_dialect e) ctx (se_db e) (se_table e) scope (se_instanceID e) (se_leaseTTL e)"

definition SQLElector_EnsureSchema :: "('s, 'q) SQLElector \<Rightarrow> 's ctx \<Rightarrow> ('s, err option) prog" where
  "SQLElector_EnsureSchema e ctx = ed_EnsureLeaseSchema (se_dialect e) ctx (se_db e) (se_table e)"

section \<open>What a statement does\<close>

text \<open>The state right before a statement: time may have passed; without pending events nothing has changed.\<close>

definition quiet :: "crondb \<Rightarrow> bool" where
  "quiet s \<longleftrightarrow> db_events s = []"

definition later_db :: "crondb \<Rightarrow> crondb \<Rightarrow> bool" where
  "later_db s s' \<longleftrightarrow> db_fired s' = db_fired s \<and> db_leases s' = db_leases s \<and> db_now s \<le> db_now s' \<and> (quiet s \<longrightarrow> s' = s)"

lemma next_stmt_later: "next_stmt s = (ev, s') \<Longrightarrow> later_db s s' \<and> (quiet s \<longrightarrow> ev = Runs)"
  by (auto simp: next_stmt_def later_db_def quiet_def split: list.splits prod.splits)

lemma fired_stmt_yields:
  assumes rs: "db_fired s t = Some rs"
    and err: "\<And>e s1. later_db s s1 \<Longrightarrow> \<not> quiet s \<Longrightarrow> Q (Inl e) s1"
    and run: "\<And>dem s1 rs' a r. later_db s s1 \<Longrightarrow> (quiet s \<Longrightarrow> \<not> dem \<and> r = Inr a) \<Longrightarrow> f dem (db_now s1) rs = (rs', a) \<Longrightarrow>
       r = Inr a \<or> (\<exists>e. r = Inl e) \<Longrightarrow> Q r (s1\<lparr>db_fired := (db_fired s)(t \<mapsto> rs')\<rparr>)"
  shows "yields (fired_stmt t f) Q s"
proof -
  obtain ev s1 where n: "next_stmt s = (ev, s1)" by fastforce
  from next_stmt_later [OF n] have l: "later_db s s1" and ev: "quiet s \<Longrightarrow> ev = Runs" by auto
  have t1: "db_fired s1 = db_fired s" using l by (simp add: later_db_def)
  obtain rs' a where f: "f (ev = Demotes) (db_now s1) rs = (rs', a)" by fastforce
  show ?thesis
  proof (cases "\<exists>e. ev = Fails e")
    case True
    then have "\<not> quiet s" using ev by auto
    with err [OF l] True show ?thesis by (auto simp: yields_def fired_stmt_def n)
  next
    case False
    have "Q (stmt_reply ev a) (s1\<lparr>db_fired := (db_fired s)(t \<mapsto> rs')\<rparr>)"
      by (rule run [OF l _ f]) (auto simp: stmt_reply_def dest: ev split: stmt_event.splits)
    then show ?thesis using False f by (cases ev) (simp_all add: yields_def fired_stmt_def n t1 rs)
  qed
qed

lemma lease_stmt_yields:
  assumes rs: "db_leases s t = Some rs"
    and err: "\<And>e s1. later_db s s1 \<Longrightarrow> \<not> quiet s \<Longrightarrow> Q (Inl e) s1"
    and run: "\<And>dem s1 rs' a r. later_db s s1 \<Longrightarrow> (quiet s \<Longrightarrow> \<not> dem \<and> r = Inr a) \<Longrightarrow> f dem (db_now s1) rs = (rs', a) \<Longrightarrow>
       r = Inr a \<or> (\<exists>e. r = Inl e) \<Longrightarrow> Q r (s1\<lparr>db_leases := (db_leases s)(t \<mapsto> rs')\<rparr>)"
  shows "yields (lease_stmt t f) Q s"
proof -
  obtain ev s1 where n: "next_stmt s = (ev, s1)" by fastforce
  from next_stmt_later [OF n] have l: "later_db s s1" and ev: "quiet s \<Longrightarrow> ev = Runs" by auto
  have t1: "db_leases s1 = db_leases s" using l by (simp add: later_db_def)
  obtain rs' a where f: "f (ev = Demotes) (db_now s1) rs = (rs', a)" by fastforce
  show ?thesis
  proof (cases "\<exists>e. ev = Fails e")
    case True
    then have "\<not> quiet s" using ev by auto
    with err [OF l] True show ?thesis by (auto simp: yields_def lease_stmt_def n)
  next
    case False
    have "Q (stmt_reply ev a) (s1\<lparr>db_leases := (db_leases s)(t \<mapsto> rs')\<rparr>)"
      by (rule run [OF l _ f]) (auto simp: stmt_reply_def dest: ev split: stmt_event.splits)
    then show ?thesis using False f by (cases ev) (simp_all add: yields_def lease_stmt_def n t1 rs)
  qed
qed

section \<open>The locker contract\<close>

text \<open>
  What the cron source relies on: a claim wins only a fire nobody holds and records it; it reports a loss
  only for a fire somebody holds; claims forget nothing. Without failures a claim wins exactly a free fire.
\<close>

locale fire_locker =
  fixes claim :: "string \<Rightarrow> time \<Rightarrow> ('s, err + bool) prog"
    and held :: "'s \<Rightarrow> (string \<times> int) set"
    and key :: "time \<Rightarrow> int"
    and inv :: "'s \<Rightarrow> bool"
    and calm :: "'s \<Rightarrow> bool"
  assumes claim_law: "inv s \<Longrightarrow> yields (claim scope fire) (\<lambda>r s'.
      inv s' \<and> held s \<subseteq> held s' \<and> held s' \<subseteq> insert (scope, key fire) (held s)
      \<and> (r = Inr True \<longrightarrow> (scope, key fire) \<notin> held s \<and> (scope, key fire) \<in> held s')
      \<and> (r = Inr False \<longrightarrow> (scope, key fire) \<in> held s)
      \<and> (calm s \<longrightarrow> r = Inr ((scope, key fire) \<notin> held s))) s"
begin

text \<open>Claims of any instances one after the other, each with its verdict.\<close>

inductive claims :: "'s \<Rightarrow> (string \<times> time \<times> (err + bool)) list \<Rightarrow> 's \<Rightarrow> bool" where
  none: "claims s [] s"
| claimed: "claims s cs s1 \<Longrightarrow> claim scope fire s1 = (Val r, s2) \<Longrightarrow> claims s (cs @ [(scope, fire, r)]) s2"
| idle: "claims s cs s1 \<Longrightarrow> inv s1 \<Longrightarrow> inv s2 \<Longrightarrow> held s2 = held s1 \<Longrightarrow> claims s cs s2"

definition won :: "(string \<times> time \<times> (err + bool)) list \<Rightarrow> (string \<times> int) list" where
  "won cs = map (\<lambda>(scope, fire, r). (scope, key fire)) (filter (\<lambda>(scope, fire, r). r = Inr True) cs)"

lemma won_snoc: "won (cs @ [(scope, fire, r)]) = won cs @ (if r = Inr True then [(scope, key fire)] else [])"
  by (simp add: won_def)

lemma claim_returns:
  assumes "inv s"
  obtains r s' where "claim scope fire s = (Val r, s')" "inv s'" "calm s \<longrightarrow> r = Inr ((scope, key fire) \<notin> held s)"
proof -
  obtain x s' where c: "claim scope fire s = (x, s')" by fastforce
  from yields_run [OF claim_law [OF assms] c] show thesis using that c by blast
qed

lemma won_in: "(scope, fire, Inr True) \<in> set cs \<Longrightarrow> (scope, key fire) \<in> set (won cs)"
  by (force simp: won_def)

lemma won_once:
  assumes "claims s cs s'" "inv s"
  shows "inv s' \<and> distinct (won cs) \<and> set (won cs) \<subseteq> held s' \<and> held s \<subseteq> held s' \<and> set (won cs) \<inter> held s = {}"
  using assms
proof (induction rule: claims.induct)
  case (none s)
  then show ?case by (simp add: won_def)
next
  case (claimed s cs s1 scope fire r s2)
  then have IH: "inv s1" "distinct (won cs)" "set (won cs) \<subseteq> held s1" "held s \<subseteq> held s1" "set (won cs) \<inter> held s = {}" by auto
  from yields_run [OF claim_law [OF IH(1)] claimed.hyps(2)]
  have "inv s2" "held s1 \<subseteq> held s2" "r = Inr True \<longrightarrow> (scope, key fire) \<notin> held s1 \<and> (scope, key fire) \<in> held s2" by auto
  then show ?case using IH by (auto simp: won_snoc)
next
  case (idle s cs s1 s2)
  then show ?case by simp
qed

end


text \<open>The three built-in dialects; \<open>col\<close> is how a fire time is stored.\<close>

definition builtin_locker :: "(crondb, unit) SQLLocker \<Rightarrow> (time \<Rightarrow> int) \<Rightarrow> bool" where
  "builtin_locker l col \<longleftrightarrow>
     sl_dialect l = PostgresLocker col \<or> sl_dialect l = MySQLLocker col \<or> sl_dialect l = SQLiteLocker \<and> col = (\<lambda>fire. fire div 1000)"

definition fired_keys :: "string \<Rightarrow> crondb \<Rightarrow> (string \<times> int) set" where
  "fired_keys t s = (case db_fired s t of None \<Rightarrow> {} | Some rs \<Rightarrow> (\<lambda>r. (fr_scope r, fr_fire_ts r)) ` set rs)"

definition locker_ready :: "(crondb, unit) SQLLocker \<Rightarrow> (time \<Rightarrow> int) \<Rightarrow> crondb \<Rightarrow> bool" where
  "locker_ready l col s \<longleftrightarrow> builtin_locker l col \<and> validateIdent (sl_table l) = None \<and> db_fired s (sl_table l) \<noteq> None"

definition claim_law_at :: "string \<Rightarrow> string \<Rightarrow> int \<Rightarrow> crondb \<Rightarrow> err + bool \<Rightarrow> crondb \<Rightarrow> bool" where
  "claim_law_at t scope ts s r s' \<longleftrightarrow>
     db_fired s' t \<noteq> None \<and> fired_keys t s \<subseteq> fired_keys t s' \<and> fired_keys t s' \<subseteq> insert (scope, ts) (fired_keys t s)
     \<and> (r = Inr True \<longrightarrow> (scope, ts) \<notin> fired_keys t s \<and> (scope, ts) \<in> fired_keys t s')
     \<and> (r = Inr False \<longrightarrow> (scope, ts) \<in> fired_keys t s)
     \<and> (quiet s \<longrightarrow> r = Inr ((scope, ts) \<notin> fired_keys t s))"

lemma fire_held: "db_fired s t = Some rs \<Longrightarrow> list_ex (is_fire scope ts) rs \<longleftrightarrow> (scope, ts) \<in> fired_keys t s"
  by (auto simp: list_ex_iff is_fire_def fired_keys_def)

lemma returning_claim_law:
  assumes "db_fired s t \<noteq> None"
  shows "yields (bindE (fired_stmt t (insert_returning scope ts)) (\<lambda>returned. returnP (Inr (returned \<noteq> None)))) (claim_law_at t scope ts s) s"
proof -
  obtain rs where rs: "db_fired s t = Some rs" using assms by blast
  show ?thesis
    unfolding yields_bindE
  proof (rule fired_stmt_yields [OF rs], goal_cases)
    case (1 e s1)
    then show ?case using rs by (auto simp: claim_law_at_def later_db_def fired_keys_def)
  next
    case (2 dem s1 rs' a r)
    show ?case
    proof (cases "list_ex (is_fire scope ts) rs")
      case True
      then have k: "(scope, ts) \<in> fired_keys t s" using fire_held [OF rs] by blast
      have "rs' = rs" "a = None" using 2(3) True by (simp_all add: insert_returning_def)
      then show ?thesis using 2 k rs by (auto simp: claim_law_at_def fired_keys_def)
    next
      case False
      then have k: "(scope, ts) \<notin> fired_keys t s" using fire_held [OF rs] by blast
      have "rs' = rs @ [\<lparr>fr_scope = scope, fr_fire_ts = ts, fr_claimed_at = db_now s1\<rparr>]" "a = Some scope"
        using 2(3) False by (simp_all add: insert_returning_def)
      then show ?thesis using 2 k rs by (auto simp: claim_law_at_def fired_keys_def)
    qed
  qed
qed

lemma mysql_claim_law:
  assumes "db_fired s t \<noteq> None"
  shows "yields (bindE (fired_stmt t (insert_ignore scope ts)) (\<lambda>n.
          if n = 1 then returnP (Inr True)
          else bindE (fired_stmt t (select_fire scope ts)) (\<lambda>found.
                 if \<not> found then returnP (Inl e) else returnP (Inr False)))) (claim_law_at t scope ts s) s"
proof -
  obtain rs where rs: "db_fired s t = Some rs" using assms by blast
  have look: "yields (bindE (fired_stmt t (select_fire scope ts)) (\<lambda>found.
                 if \<not> found then returnP (Inl e) else returnP (Inr False))) (claim_law_at t scope ts s) s1"
    if s1: "db_fired s1 = db_fired s" "quiet s \<longrightarrow> quiet s1 \<and> (scope, ts) \<in> fired_keys t s" for s1
    unfolding yields_bindE
  proof (rule fired_stmt_yields [where rs = rs], goal_cases)
    case (2 e s2)
    then show ?case using rs s1 by (auto simp: claim_law_at_def later_db_def fired_keys_def)
  next
    case (3 dem s2 rs' a r)
    then have "rs' = rs" "a = list_ex (is_fire scope ts) rs" by (auto simp: select_fire_def)
    then show ?case using 3 rs s1 fire_held [OF rs, of scope ts] by (auto simp: claim_law_at_def fired_keys_def)
  qed (use s1 rs in simp)
  show ?thesis
    unfolding yields_bindE
  proof (rule fired_stmt_yields [OF rs], goal_cases)
    case (1 e s1)
    then show ?case using rs by (auto simp: claim_law_at_def later_db_def fired_keys_def)
  next
    case (2 dem s1 rs' a r)
    show ?case
    proof (cases "dem \<or> list_ex (is_fire scope ts) rs")
      case True
      then have ra: "rs' = rs" "a = 0" using 2(3) by (auto simp: insert_ignore_def split: if_splits)
      have s1: "db_fired (s1\<lparr>db_fired := (db_fired s)(t \<mapsto> rs')\<rparr>) = db_fired s" using ra rs by (simp add: map_upd_triv)
      have q: "quiet s \<longrightarrow> quiet (s1\<lparr>db_fired := (db_fired s)(t \<mapsto> rs')\<rparr>) \<and> (scope, ts) \<in> fired_keys t s"
        using 2(1,2) True fire_held [OF rs] by (auto simp: later_db_def quiet_def)
      show ?thesis
      proof (cases "r = Inr a")
        case True
        then show ?thesis using look [OF s1 q] ra by simp
      next
        case False
        then have "\<not> quiet s" "\<exists>e. r = Inl e" using 2 by auto
        then show ?thesis using s1 rs by (auto simp: claim_law_at_def fired_keys_def ra)
      qed
    next
      case False
      then have k: "(scope, ts) \<notin> fired_keys t s" using fire_held [OF rs] by blast
      have "rs' = rs @ [\<lparr>fr_scope = scope, fr_fire_ts = ts, fr_claimed_at = db_now s1\<rparr>]" "a = 1"
        using 2(3) False by (simp_all add: insert_ignore_def)
      then show ?thesis using 2 k rs by (auto simp: claim_law_at_def fired_keys_def)
    qed
  qed
qed

lemma builtin_claim_law:
  assumes "locker_ready l col s"
  shows "yields (SQLLocker_Claim l ctx scope fire) (claim_law_at (sl_table l) scope (col fire) s) s"
proof -
  have t: "db_fired s (sl_table l) \<noteq> None" and v: "validateIdent (sl_table l) = None" and b: "builtin_locker l col"
    using assms by (simp_all add: locker_ready_def)
  from b consider "sl_dialect l = PostgresLocker col" | "sl_dialect l = MySQLLocker col"
    | "sl_dialect l = SQLiteLocker" "col = (\<lambda>fire. fire div 1000)" by (auto simp: builtin_locker_def)
  then show ?thesis
  proof cases
    case 1
    then show ?thesis using returning_claim_law [OF t, of scope "col fire"] v
      by (simp add: SQLLocker_Claim_def PostgresLocker_def postgresLocker_ClaimFire_def on_table_def quoteTable_def)
  next
    case 2
    then show ?thesis using mysql_claim_law [OF t, of scope "col fire"] v
      by (simp add: SQLLocker_Claim_def MySQLLocker_def mysqlLocker_ClaimFire_def on_table_def quoteTable_def)
  next
    case 3
    then show ?thesis using returning_claim_law [OF t, of scope "col fire"] v
      by (simp add: SQLLocker_Claim_def SQLiteLocker_def sqliteLocker_ClaimFire_def on_table_def quoteTable_def)
  qed
qed

interpretation sql_locker: fire_locker "SQLLocker_Claim l ctx" "fired_keys (sl_table l)" col "locker_ready l col" quiet for l ctx col
proof
  fix s scope fire assume r: "locker_ready l col s"
  show "yields (SQLLocker_Claim l ctx scope fire) (\<lambda>r s'.
      locker_ready l col s' \<and> fired_keys (sl_table l) s \<subseteq> fired_keys (sl_table l) s'
      \<and> fired_keys (sl_table l) s' \<subseteq> insert (scope, col fire) (fired_keys (sl_table l) s)
      \<and> (r = Inr True \<longrightarrow> (scope, col fire) \<notin> fired_keys (sl_table l) s \<and> (scope, col fire) \<in> fired_keys (sl_table l) s')
      \<and> (r = Inr False \<longrightarrow> (scope, col fire) \<in> fired_keys (sl_table l) s)
      \<and> (quiet s \<longrightarrow> r = Inr ((scope, col fire) \<notin> fired_keys (sl_table l) s))) s"
    by (rule yields_mono [OF builtin_claim_law [OF r]], insert r, unfold claim_law_at_def locker_ready_def, blast)
qed


text \<open>
  Whatever instances claim, in whatever order, with statements that fail, lose their reply or have an error
  demoted, each (scope, fire) is won by at most one claim, one that no earlier row holds, on every built-in
  dialect; and a claim without failures wins exactly when nobody holds the fire.
\<close>

theorem cron_fire_won_once:
  assumes "locker_ready l col s" "sql_locker.claims l ctx col s cs s'"
  shows "distinct (map (\<lambda>(scope, fire, r). (scope, col fire)) (filter (\<lambda>(scope, fire, r). r = Inr True) cs))
    \<and> (\<forall>scope fire. (scope, fire, Inr True) \<in> set cs \<longrightarrow>
         (scope, col fire) \<notin> fired_keys (sl_table l) s \<and> (scope, col fire) \<in> fired_keys (sl_table l) s')
    \<and> (quiet s' \<longrightarrow> (\<forall>scope fire. fst (SQLLocker_Claim l ctx scope fire s') = Val (Inr ((scope, col fire) \<notin> fired_keys (sl_table l) s'))))"
proof (intro conjI allI impI)
  note once = sql_locker.won_once [OF assms(2,1)]
  show "distinct (map (\<lambda>(scope, fire, r). (scope, col fire)) (filter (\<lambda>(scope, fire, r). r = Inr True) cs))"
    using once by (simp add: sql_locker.won_def)
  fix scope fire
  show "(scope, col fire) \<notin> fired_keys (sl_table l) s" "(scope, col fire) \<in> fired_keys (sl_table l) s'"
    if "(scope, fire, Inr True) \<in> set cs"
    using IntI [OF sql_locker.won_in [OF that]] subsetD [OF _ sql_locker.won_in [OF that]] once by (metis empty_iff)+
  assume q: "quiet s'"
  have "locker_ready l col s'" using once by (rule conjunct1)
  from sql_locker.claim_returns [OF this, of ctx scope fire] obtain r s2 where
    "SQLLocker_Claim l ctx scope fire s' = (Val r, s2)" "quiet s' \<longrightarrow> r = Inr ((scope, col fire) \<notin> fired_keys (sl_table l) s')"
    by metis
  with q show "fst (SQLLocker_Claim l ctx scope fire s') = Val (Inr ((scope, col fire) \<notin> fired_keys (sl_table l) s'))"
    by simp
qed

definition demo_cron :: crondb where
  "demo_cron = \<lparr>db_fired = [''fired'' \<mapsto> []], db_leases = [''leader'' \<mapsto> []], db_now = 0, db_events = []\<rparr>"

definition demo_locker :: "(crondb, unit) SQLLocker" where
  "demo_locker = \<lparr>sl_db = (), sl_table = ''fired'', sl_dialect = SQLiteLocker\<rparr>"

lemma demo_locker_ready: "locker_ready demo_locker (\<lambda>fire. fire div 1000) demo_cron"
proof -
  have "validateIdent ''fired'' = None" by code_simp
  then show ?thesis by (simp add: locker_ready_def builtin_locker_def demo_locker_def demo_cron_def)
qed

theorem cron_fire_won_once_witness:
  "\<exists>cs s'. sql_locker.claims demo_locker undefined (\<lambda>fire. fire div 1000) demo_cron cs s' \<and> length cs = 2
     \<and> distinct (map (\<lambda>(scope, fire, r). (scope, fire div 1000)) (filter (\<lambda>(scope, fire, r). r = Inr True) cs))
     \<and> (\<forall>scope fire. (scope, fire, Inr True) \<in> set cs \<longrightarrow>
          (scope, fire div 1000) \<notin> fired_keys (sl_table demo_locker) demo_cron \<and> (scope, fire div 1000) \<in> fired_keys (sl_table demo_locker) s')
     \<and> (quiet s' \<longrightarrow> (\<forall>scope fire. fst (SQLLocker_Claim demo_locker undefined scope fire s')
          = Val (Inr ((scope, fire div 1000) \<notin> fired_keys (sl_table demo_locker) s'))))"
proof -
  let ?c = "SQLLocker_Claim demo_locker undefined ''job'' 60000000000"
  obtain r1 s1 where 1: "?c demo_cron = (Val r1, s1)" and ready: "locker_ready demo_locker (\<lambda>fire. fire div 1000) s1"
    by (rule sql_locker.claim_returns [OF demo_locker_ready])
  have c1: "sql_locker.claims demo_locker undefined (\<lambda>fire. fire div 1000) demo_cron ([] @ [(''job'', 60000000000, r1)]) s1"
    by (rule sql_locker.claimed [OF sql_locker.none 1])
  obtain r2 s2 where 2: "?c s1 = (Val r2, s2)" by (rule sql_locker.claim_returns [OF ready])
  note run = sql_locker.claimed [OF c1 2]
  show ?thesis
    using run cron_fire_won_once [OF demo_locker_ready run] by (intro exI conjI) (assumption | simp)+
qed


section \<open>The elector contract\<close>

text \<open>
  What leadership rests on, statement by statement: a statement of an acquisition either leaves the lease alone or sets
  it, at its instant, to its holder until that instant plus the time to live, and it sets a lease of another holder only after
  that one has run out; the statement that decides for leadership leaves, or finds, a lease of its holder.
\<close>

definition took_lease :: "int \<Rightarrow> int \<Rightarrow> string \<Rightarrow> int \<Rightarrow> (string \<times> int) option \<Rightarrow> (string \<times> int) option \<Rightarrow> bool" where
  "took_lease lo hi holder us before after \<longleftrightarrow>
     (\<exists>n. lo \<le> n \<and> n \<le> hi \<and> after = Some (holder, n + us) \<and> (\<forall>h e. before = Some (h, e) \<longrightarrow> h = holder \<or> e < n))"

locale leader_elector =
  fixes exec :: "'p \<Rightarrow> string \<Rightarrow> string \<Rightarrow> duration \<Rightarrow> ('s, 'p + (err + bool)) prog"
    and enter :: 'p
    and lease :: "'s \<Rightarrow> string \<Rightarrow> (string \<times> int) option"
    and clock :: "'s \<Rightarrow> int"
    and inv :: "'s \<Rightarrow> bool"
  assumes exec_law: "inv s \<Longrightarrow> yields (exec p scope holder ttl) (\<lambda>r s'.
      inv s' \<and> clock s \<le> clock s' \<and> (\<forall>x. x \<noteq> scope \<longrightarrow> lease s' x = lease s x)
      \<and> (lease s' scope = lease s scope \<or> took_lease (clock s) (clock s') holder (Microseconds ttl) (lease s scope) (lease s' scope))
      \<and> (r = Inr (Inr True) \<longrightarrow> (\<exists>e. lease s' scope = Some (holder, e)))) s"
begin

text \<open>
  Calls of any holders, each with a time to live of its own, their statements interleaved in any way, calls that are
  given up in the middle, and time passing. A call in flight stands at a statement; one that is decided for leadership is
  logged with the expiry of the lease at that instant.
\<close>

inductive elections ::
  "(string \<Rightarrow> duration) \<Rightarrow> 's \<Rightarrow> (nat \<rightharpoonup> string \<times> string \<times> 'p) \<Rightarrow> (string \<times> string \<times> int) list \<Rightarrow> 's \<Rightarrow> bool"
  for ttl :: "string \<Rightarrow> duration" where
  start: "elections ttl s Map.empty [] s"
| called: "elections ttl s cs ws s1 \<Longrightarrow> cs n = None \<Longrightarrow> elections ttl s (cs(n \<mapsto> (scope, holder, enter))) ws s1"
| went_on: "elections ttl s cs ws s1 \<Longrightarrow> cs n = Some (scope, holder, p) \<Longrightarrow> exec p scope holder (ttl holder) s1 = (Val (Inl p'), s2) \<Longrightarrow>
    elections ttl s (cs(n \<mapsto> (scope, holder, p'))) ws s2"
| elected: "elections ttl s cs ws s1 \<Longrightarrow> cs n = Some (scope, holder, p) \<Longrightarrow> exec p scope holder (ttl holder) s1 = (Val (Inr (Inr True)), s2) \<Longrightarrow>
    elections ttl s (cs(n := None)) (ws @ [(scope, holder, snd (the (lease s2 scope)))]) s2"
| refused: "elections ttl s cs ws s1 \<Longrightarrow> cs n = Some (scope, holder, p) \<Longrightarrow> exec p scope holder (ttl holder) s1 = (Val (Inr v), s2) \<Longrightarrow>
    v \<noteq> Inr True \<Longrightarrow> elections ttl s (cs(n := None)) ws s2"
| given_up: "elections ttl s cs ws s1 \<Longrightarrow> elections ttl s (cs(n := None)) ws s1"
| passed: "elections ttl s cs ws s1 \<Longrightarrow> inv s1 \<Longrightarrow> inv s2 \<Longrightarrow> lease s2 = lease s1 \<Longrightarrow> clock s1 \<le> clock s2 \<Longrightarrow> elections ttl s cs ws s2"

text \<open>Every past term is still the current one, extended, or ended before the current holder's began.\<close>

definition term_kept :: "(string \<Rightarrow> duration) \<Rightarrow> string \<Rightarrow> int \<Rightarrow> (string \<times> int) option \<Rightarrow> bool" where
  "term_kept ttl h e cur \<longleftrightarrow> (\<exists>h' e'. cur = Some (h', e') \<and> (h' = h \<and> e \<le> e' \<or> e < e' - Microseconds (ttl h')))"

definition terms_ok :: "(string \<Rightarrow> duration) \<Rightarrow> 's \<Rightarrow> (string \<times> string \<times> int) list \<Rightarrow> bool" where
  "terms_ok ttl s ws \<longleftrightarrow>
     (\<forall>(scope, h, e) \<in> set ws. term_kept ttl h e (lease s scope))
     \<and> (\<forall>scope h e. lease s scope = Some (h, e) \<longrightarrow> e - Microseconds (ttl h) \<le> clock s)"

lemma term_kept_took:
  assumes "term_kept ttl h e cur" "took_lease lo hi holder (Microseconds (ttl holder)) cur after"
    and "\<And>h' e'. cur = Some (h', e') \<Longrightarrow> e' - Microseconds (ttl h') \<le> lo"
  shows "term_kept ttl h e after"
proof -
  obtain h' e' where c: "cur = Some (h', e')" "h' = h \<and> e \<le> e' \<or> e < e' - Microseconds (ttl h')"
    using assms(1) by (auto simp: term_kept_def)
  obtain n where n: "lo \<le> n" "after = Some (holder, n + Microseconds (ttl holder))" "h' = holder \<or> e' < n"
    using assms(2) c(1) by (auto simp: took_lease_def)
  have "e' - Microseconds (ttl h') \<le> lo" using assms(3) c(1) by blast
  then show ?thesis using c(2) n by (auto simp: term_kept_def)
qed

lemma terms_ok_step:
  assumes ok: "terms_ok ttl s ws" and c: "clock s \<le> clock s'" and other: "\<forall>x. x \<noteq> scope \<longrightarrow> lease s' x = lease s x"
    and t: "lease s' scope = lease s scope \<or> took_lease (clock s) (clock s') holder (Microseconds (ttl holder)) (lease s scope) (lease s' scope)"
  shows "terms_ok ttl s' ws"
proof -
  have age: "e - Microseconds (ttl h) \<le> clock s" if "lease s x = Some (h, e)" for x h e using ok that by (auto simp: terms_ok_def)
  have kept: "term_kept ttl h e (lease s' x)" if "term_kept ttl h e (lease s x)" for x h e
  proof (cases "x = scope")
    case True
    then show ?thesis using t that term_kept_took [OF that [unfolded True] _ age] by auto
  qed (use other that in simp)
  have "e - Microseconds (ttl h) \<le> clock s'" if "lease s' x = Some (h, e)" for x h e
  proof (cases "x = scope \<and> lease s' x \<noteq> lease s x")
    case True
    then show ?thesis using t that by (auto simp: took_lease_def)
  next
    case False
    then have "lease s x = Some (h, e)" using other that by (cases "x = scope") auto
    from age [OF this] c show ?thesis by simp
  qed
  moreover have "\<forall>(scope, h, e) \<in> set ws. term_kept ttl h e (lease s' scope)"
    using ok kept by (auto simp: terms_ok_def)
  ultimately show ?thesis by (simp add: terms_ok_def)
qed

text \<open>Terms of different holders of one scope do not overlap.\<close>

definition disjoint_terms :: "(string \<Rightarrow> duration) \<Rightarrow> (string \<times> string \<times> int) list \<Rightarrow> bool" where
  "disjoint_terms ttl ws \<longleftrightarrow>
     (\<forall>i j scope h e h' e'. i < j \<longrightarrow> j < length ws \<longrightarrow> ws ! i = (scope, h, e) \<longrightarrow> ws ! j = (scope, h', e') \<longrightarrow> h \<noteq> h' \<longrightarrow>
        e < e' - Microseconds (ttl h'))"

lemma disjoint_snoc:
  assumes "disjoint_terms ttl ws" "\<And>h e. (scope, h, e) \<in> set ws \<Longrightarrow> h \<noteq> h' \<Longrightarrow> e < e' - Microseconds (ttl h')"
  shows "disjoint_terms ttl (ws @ [(scope, h', e')])"
  unfolding disjoint_terms_def
proof (intro allI impI)
  fix i j sc h e k f
  assume a: "i < j" "j < length (ws @ [(scope, h', e')])" "(ws @ [(scope, h', e')]) ! i = (sc, h, e)"
    "(ws @ [(scope, h', e')]) ! j = (sc, k, f)" "h \<noteq> k"
  show "e < f - Microseconds (ttl k)"
  proof (cases "j = length ws")
    case True
    then have "ws ! i = (scope, h, e)" "k = h'" "f = e'" using a by (auto simp: nth_append)
    then show ?thesis using assms(2) a True by (metis nth_mem)
  next
    case False
    then have "j < length ws" using a(2) by simp
    then show ?thesis using assms(1) a unfolding disjoint_terms_def by (simp add: nth_append)
  qed
qed

lemma stmt_terms:
  assumes "inv s" "terms_ok ttl s ws" "exec p scope holder (ttl holder) s = (Val r, s')"
  shows "inv s' \<and> terms_ok ttl s' ws \<and> (r = Inr (Inr True) \<longrightarrow> (\<exists>e. lease s' scope = Some (holder, e)))"
proof -
  note law = yields_run [OF exec_law [OF assms(1)] assms(3)]
  then show ?thesis using terms_ok_step [OF assms(2), of s' scope holder] by blast
qed

lemma elections_ok:
  assumes "elections ttl s cs ws s'" "inv s" "\<And>x. lease s x = None"
  shows "inv s' \<and> terms_ok ttl s' ws \<and> disjoint_terms ttl ws"
  using assms
proof (induction rule: elections.induct)
  case (start s)
  then show ?case by (simp add: terms_ok_def disjoint_terms_def)
next
  case (called s cs ws s1 n scope holder)
  then show ?case by blast
next
  case (went_on s cs ws s1 n scope holder p p' s2)
  then have IH: "inv s1" "terms_ok ttl s1 ws" "disjoint_terms ttl ws" by auto
  from stmt_terms [OF IH(1,2) went_on.hyps(3)] IH(3) show ?case by blast
next
  case (elected s cs ws s1 n scope holder p s2)
  then have IH: "inv s1" "terms_ok ttl s1 ws" "disjoint_terms ttl ws" by auto
  from stmt_terms [OF IH(1,2) elected.hyps(3)] obtain e2 where s2: "inv s2" "terms_ok ttl s2 ws" "lease s2 scope = Some (holder, e2)" by blast
  have "e < e2 - Microseconds (ttl holder)" if "(scope, h, e) \<in> set ws" "h \<noteq> holder" for h e
  proof -
    have "term_kept ttl h e (lease s2 scope)" using s2(2) that(1) by (auto simp: terms_ok_def)
    then show ?thesis using s2(3) that(2) by (auto simp: term_kept_def)
  qed
  then have "disjoint_terms ttl (ws @ [(scope, holder, e2)])" by (intro disjoint_snoc IH(3)) simp
  moreover have "terms_ok ttl s2 (ws @ [(scope, holder, e2)])" using s2(2,3) by (auto simp: terms_ok_def term_kept_def)
  ultimately show ?case using s2(1,3) by simp
next
  case (refused s cs ws s1 n scope holder p v s2)
  then have IH: "inv s1" "terms_ok ttl s1 ws" "disjoint_terms ttl ws" by auto
  from stmt_terms [OF IH(1,2) refused.hyps(3)] IH(3) show ?case by blast
next
  case (given_up s cs ws s1 n)
  then show ?case by blast
next
  case (passed s cs ws s1 s2)
  then have "terms_ok ttl s2 ws" using terms_ok_step [of ttl s1 ws s2] by simp
  then show ?case using passed by simp
qed

end

definition row_lease :: "leader_row list \<Rightarrow> string \<Rightarrow> (string \<times> int) option" where
  "row_lease rs scope = map_option (\<lambda>r. (el_holder r, el_expires_at r)) (find (is_scope scope) rs)"

definition lease_of :: "string \<Rightarrow> crondb \<Rightarrow> string \<Rightarrow> (string \<times> int) option" where
  "lease_of t s scope = (case db_leases s t of None \<Rightarrow> None | Some rs \<Rightarrow> row_lease rs scope)"

definition leases_ok :: "string \<Rightarrow> crondb \<Rightarrow> bool" where
  "leases_ok t s \<longleftrightarrow> (\<exists>rs. db_leases s t = Some rs \<and> distinct (map el_scope rs))"

lemma find_map_same: "(\<And>x. P (f x) = P x) \<Longrightarrow> find P (map f xs) = map_option f (find P xs)"
  by (induction xs) auto

lemma find_append: "find P (xs @ ys) = (case find P xs of None \<Rightarrow> find P ys | Some x \<Rightarrow> Some x)"
  by (induction xs) auto

lemma find_scope: "find (is_scope x) rs = Some r \<Longrightarrow> el_scope r = x \<and> r \<in> set rs"
  by (auto simp: find_Some_iff is_scope_def)

text \<open>What the writing statements do to the lease of one scope.\<close>

definition leases_step :: "string \<Rightarrow> string \<Rightarrow> int \<Rightarrow> int \<Rightarrow> leader_row list \<Rightarrow> leader_row list \<Rightarrow> bool" where
  "leases_step scope holder us n rs rs' \<longleftrightarrow>
     distinct (map el_scope rs') \<and> (\<forall>x. x \<noteq> scope \<longrightarrow> row_lease rs' x = row_lease rs x)
     \<and> row_lease rs' scope = Some (holder, n + us) \<and> (\<forall>h e. row_lease rs scope = Some (h, e) \<longrightarrow> h = holder \<or> e < n)"

lemma append_step:
  assumes "distinct (map el_scope rs)" "find (is_scope scope) rs = None"
  shows "leases_step scope holder us n rs (rs @ [\<lparr>el_scope = scope, el_holder = holder, el_expires_at = n + us\<rparr>])"
proof -
  have "\<forall>x\<in>set rs. el_scope x \<noteq> scope" using assms(2) by (auto simp: find_None_iff is_scope_def)
  then show ?thesis using assms
    by (auto simp: leases_step_def row_lease_def find_append is_scope_def split: option.splits)
qed

lemma renew_step:
  assumes d: "distinct (map el_scope rs)" and r: "find (is_scope scope) rs = Some r" "renewable holder n r"
    and f: "\<And>x. el_scope (f x) = el_scope x" "\<And>x. el_scope x \<noteq> scope \<Longrightarrow> f x = x" "f r = r\<lparr>el_holder := holder, el_expires_at := n + us\<rparr>"
  shows "leases_step scope holder us n rs (map f rs)"
proof -
  have fnd: "find (is_scope x) (map f rs) = map_option f (find (is_scope x) rs)" for x
    by (rule find_map_same) (simp add: is_scope_def f(1))
  have other: "row_lease (map f rs) x = row_lease rs x" if "x \<noteq> scope" for x
    using f(2) that by (cases "find (is_scope x) rs") (auto simp: row_lease_def fnd dest: find_scope)
  have "map el_scope (map f rs) = map el_scope rs" by (simp add: f(1))
  then show ?thesis using d r f(3) other by (auto simp: leases_step_def row_lease_def fnd renewable_def simp del: map_map)
qed

text \<open>The \<^verbatim>\<open>UPDATE\<close> of the MySQL elector: it changed the lease, or it changed nothing and any lease of the holder is already as it would set it.\<close>

lemma update_lease_cases:
  assumes d: "distinct (map el_scope rs)" and u: "update_lease scope holder us dem n rs = (rs', k)"
  obtains (changed) "k \<ge> 1" "leases_step scope holder us n rs rs'"
  | (same) "k = 0" "rs' = rs" "\<And>r. find (is_scope scope) rs = Some r \<Longrightarrow> renewable holder n r \<Longrightarrow> el_holder r = holder \<and> el_expires_at r = n + us"
proof -
  define hit where "hit r \<longleftrightarrow> is_scope scope r \<and> renewable holder n r" for r
  define new where "new r = r\<lparr>el_holder := holder, el_expires_at := n + us\<rparr>" for r :: leader_row
  have rs': "rs' = map (\<lambda>r. if hit r then new r else r) rs" and k: "k = int (length (filter (\<lambda>r. hit r \<and> new r \<noteq> r) rs))"
    using u unfolding update_lease_def Let_def hit_def new_def by auto
  show thesis
  proof (cases "\<exists>r\<in>set rs. hit r \<and> new r \<noteq> r")
    case True
    then obtain r where r: "r \<in> set rs" "hit r" "new r \<noteq> r" by blast
    have sc: "el_scope r = scope" using r(2) by (simp add: hit_def is_scope_def)
    obtain x where x: "find (is_scope scope) rs = Some x" using r(1) sc
      by (cases "find (is_scope scope) rs") (auto simp: find_None_iff is_scope_def)
    have "x = r" using find_scope [OF x] r(1) sc d by (metis distinct_map inj_onD)
    then have "leases_step scope holder us n rs (map (\<lambda>r. if hit r then new r else r) rs)"
      using r x by (intro renew_step [OF d x]) (auto simp: hit_def new_def is_scope_def)
    moreover have "k \<ge> 1" using r k by (auto simp: Suc_le_eq filter_empty_conv simp flip: length_greater_0_conv)
    ultimately show thesis using changed rs' by blast
  next
    case False
    have "rs' = rs" unfolding rs' using False by (auto intro!: map_idI)
    moreover have "k = 0" using False k by (simp add: filter_empty_conv)
    moreover have "el_holder r = holder \<and> el_expires_at r = n + us"
      if f: "find (is_scope scope) rs = Some r" and ren: "renewable holder n r" for r
    proof -
      have "hit r" using find_scope [OF f] ren by (simp add: hit_def is_scope_def)
      then have "new r = r" using False find_scope [OF f] by blast
      then have "el_holder (new r) = el_holder r" "el_expires_at (new r) = el_expires_at r" by simp_all
      then show ?thesis by (simp add: new_def)
    qed
    ultimately show thesis using same by blast
  qed
qed

text \<open>What one statement of an acquisition does.\<close>

definition stmt_law_at :: "string \<Rightarrow> string \<Rightarrow> string \<Rightarrow> int \<Rightarrow> crondb \<Rightarrow> elect_pc + (err + bool) \<Rightarrow> crondb \<Rightarrow> bool" where
  "stmt_law_at t scope holder us s r s' \<longleftrightarrow>
     leases_ok t s' \<and> db_now s \<le> db_now s' \<and> (\<forall>x. x \<noteq> scope \<longrightarrow> lease_of t s' x = lease_of t s x)
     \<and> (lease_of t s' scope = lease_of t s scope \<or> took_lease (db_now s) (db_now s') holder us (lease_of t s scope) (lease_of t s' scope))
     \<and> (r = Inr (Inr True) \<longrightarrow> (\<exists>e. lease_of t s' scope = Some (holder, e)))"

lemma stmt_law_write:
  assumes "db_leases s t = Some rs" "leases_step scope holder us (db_now s') rs rs'" "db_leases s' t = Some rs'" "db_now s \<le> db_now s'"
  shows "stmt_law_at t scope holder us s r s'"
proof -
  have l: "lease_of t s x = row_lease rs x" "lease_of t s' x = row_lease rs' x" for x using assms(1,3) by (simp_all add: lease_of_def)
  have "took_lease (db_now s) (db_now s') holder us (row_lease rs scope) (row_lease rs' scope)"
    using assms(2,4) by (auto simp: took_lease_def leases_step_def)
  then show ?thesis using assms by (auto simp: stmt_law_at_def leases_ok_def l leases_step_def)
qed

lemma stmt_law_same:
  assumes "db_leases s t = Some rs" "distinct (map el_scope rs)" "db_leases s' t = Some rs" "db_now s \<le> db_now s'"
    and "r = Inr (Inr True) \<Longrightarrow> \<exists>e. row_lease rs scope = Some (holder, e)"
  shows "stmt_law_at t scope holder us s r s'"
  using assms by (auto simp: stmt_law_at_def leases_ok_def lease_of_def)

lemma elect_stmt_yields:
  assumes rs: "db_leases s t = Some rs" "distinct (map el_scope rs)"
    and st: "\<And>dem n rs' a. f dem n rs = (rs', a) \<Longrightarrow>
      leases_step scope holder us n rs rs' \<or> rs' = rs \<and> (k (Inr a) = Inr (Inr True) \<longrightarrow> (\<exists>e. row_lease rs scope = Some (holder, e)))"
    and err: "\<And>e. k (Inl e) \<noteq> Inr (Inr True)"
  shows "yields (bindP (lease_stmt t f) (\<lambda>r. returnP (k r))) (stmt_law_at t scope holder us s) s"
  unfolding yields_bindP yields_returnP
proof (rule lease_stmt_yields [OF rs(1)], goal_cases)
  case (1 e s1)
  then show ?case using stmt_law_same [OF rs, of s1 "k (Inl e)"] rs(1) err by (simp add: later_db_def)
next
  case (2 dem s1 rs' a r)
  define s' where "s' = s1\<lparr>db_leases := (db_leases s)(t \<mapsto> rs')\<rparr>"
  have now: "db_now s \<le> db_now s'" "db_now s' = db_now s1" "db_leases s' t = Some rs'" using 2(1) by (simp_all add: later_db_def s'_def)
  from st [OF 2(3)] have "stmt_law_at t scope holder us s (k r) s'"
  proof (elim disjE conjE)
    assume "leases_step scope holder us (db_now s1) rs rs'"
    then show ?thesis using stmt_law_write [OF rs(1) _ now(3,1)] now(2) by simp
  next
    assume a: "rs' = rs" "k (Inr a) = Inr (Inr True) \<longrightarrow> (\<exists>e. row_lease rs scope = Some (holder, e))"
    have "k r = Inr (Inr True) \<Longrightarrow> \<exists>e. row_lease rs scope = Some (holder, e)" using 2(4) a(2) err by auto
    then show ?thesis using stmt_law_same [OF rs _ now(1)] now(3) a(1) by simp
  qed
  then show ?case by (simp add: s'_def)
qed

lemma upsert_steps:
  assumes d: "distinct (map el_scope rs)" and u: "upsert_lease scope holder us dem n rs = (rs', a)"
  shows "leases_step scope holder us n rs rs' \<or> rs' = rs \<and> a = None"
proof (cases "find (is_scope scope) rs")
  case None
  then show ?thesis using append_step [OF d None] u by (auto simp: upsert_lease_def)
next
  case (Some x)
  let ?f = "\<lambda>x. if is_scope scope x then x\<lparr>el_holder := holder, el_expires_at := n + us\<rparr> else x"
  have "leases_step scope holder us n rs (map ?f rs)" if "renewable holder n x"
    using Some by (intro renew_step [OF d Some that]) (auto simp: is_scope_def dest: find_scope)
  then show ?thesis using Some u by (auto simp: upsert_lease_def split: if_splits)
qed

lemma insert_steps:
  assumes d: "distinct (map el_scope rs)" and i: "insert_lease scope holder us dem n rs = (rs', a)"
  shows "leases_step scope holder us n rs rs' \<or> rs' = rs \<and> a = 0"
proof (cases "dem \<or> list_ex (is_scope scope) rs")
  case True
  then show ?thesis using i by (auto simp: insert_lease_def)
next
  case False
  then have "find (is_scope scope) rs = None" by (auto simp: find_None_iff list_ex_iff)
  from append_step [OF d this] False i show ?thesis by (auto simp: insert_lease_def)
qed

lemma select_holder: "select_lease scope dem n rs = (rs', Some (h, x)) \<Longrightarrow> rs' = rs \<and> (\<exists>e. row_lease rs scope = Some (h, e))"
  by (auto simp: select_lease_def row_lease_def)

lemma elect_stmt_law:
  assumes "leases_ok t s"
  shows "yields (elect_stmt t p scope holder ttl) (stmt_law_at t scope holder (Microseconds ttl) s) s"
proof -
  obtain rs where rs: "db_leases s t = Some rs" "distinct (map el_scope rs)" using assms by (auto simp: leases_ok_def)
  show ?thesis
  proof (cases p)
    case AtUpsert
    show ?thesis unfolding elect_stmt_def AtUpsert elect_pc.case
      by (rule elect_stmt_yields [OF rs]) (use upsert_steps [OF rs(2)] in \<open>fastforce+\<close>)
  next
    case AtUpdate
    show ?thesis unfolding elect_stmt_def AtUpdate elect_pc.case
    proof (rule elect_stmt_yields [OF rs], goal_cases)
      case (1 dem n rs' a)
      from rs(2) 1 show ?case by (cases rule: update_lease_cases) auto
    qed simp
  next
    case AtVerify
    show ?thesis unfolding elect_stmt_def AtVerify elect_pc.case
    proof (rule elect_stmt_yields [OF rs], goal_cases)
      case (1 dem n rs' a)
      then show ?case using select_holder [of scope dem n rs rs'] by (auto simp: select_lease_def split: option.splits)
    qed simp
  next
    case AtInsert
    show ?thesis unfolding elect_stmt_def AtInsert elect_pc.case
      by (rule elect_stmt_yields [OF rs]) (use insert_steps [OF rs(2)] in \<open>fastforce+\<close>)
  next
    case AtRecheck
    show ?thesis unfolding elect_stmt_def AtRecheck elect_pc.case
    proof (rule elect_stmt_yields [OF rs], goal_cases)
      case (1 dem n rs' a)
      then show ?case using select_holder [of scope dem n rs rs'] by (auto simp: select_lease_def split: option.splits)
    qed simp
  qed
qed

interpretation sql_elector: leader_elector "elect_stmt t" p0 "lease_of t" db_now "leases_ok t" for t p0
proof
  fix s p scope holder and ttl :: duration assume "leases_ok t s"
  from elect_stmt_law [OF this] show "yields (elect_stmt t p scope holder ttl) (\<lambda>r s'.
      leases_ok t s' \<and> db_now s \<le> db_now s' \<and> (\<forall>x. x \<noteq> scope \<longrightarrow> lease_of t s' x = lease_of t s x)
      \<and> (lease_of t s' scope = lease_of t s scope
         \<or> took_lease (db_now s) (db_now s') holder (Microseconds ttl) (lease_of t s scope) (lease_of t s' scope))
      \<and> (r = Inr (Inr True) \<longrightarrow> (\<exists>e. lease_of t s' scope = Some (holder, e)))) s"
    by (rule yields_mono) (simp add: stmt_law_at_def)
qed

text \<open>The statements of a call, run one after the other, are the call.\<close>

lemma lease_stmt_returns: "\<exists>r s'. lease_stmt t f s = (Val r, s')"
  by (cases "next_stmt s"; cases "fst (next_stmt s)"; cases "db_leases (snd (next_stmt s)) t") (auto simp: lease_stmt_def split: prod.split)

lemma alone_then:
  assumes run: "bindE (lease_stmt t f) g s = (Val v, s')"
    and st: "elect_stmt t p scope holder ttl = bindP (lease_stmt t f) (\<lambda>r. returnP (k r))"
    and err: "\<And>e. k (Inl e) = Inr (Inl e)"
    and ok: "\<And>a s1. g a s1 = (Val v, s') \<Longrightarrow> k (Inr a) = Inr v \<and> s' = s1 \<or> (\<exists>p'. k (Inr a) = Inl p' \<and> elect_alone t scope holder ttl p' s1 v s')"
  shows "elect_alone t scope holder ttl p s v s'"
proof -
  obtain r s1 where r: "lease_stmt t f s = (Val r, s1)" using lease_stmt_returns by blast
  have e: "elect_stmt t p scope holder ttl s = (Val (k r), s1)" using r by (simp add: st bindP_def returnP_def)
  show ?thesis
  proof (cases r)
    case (Inl x)
    then have "v = Inl x" "s' = s1" using run r by (simp_all add: bindE_def bindP_def returnP_def)
    then show ?thesis using e err Inl by (auto intro: elect_alone.verdict)
  next
    case (Inr a)
    then have "g a s1 = (Val v, s')" using run r by (simp add: bindE_def bindP_def)
    from ok [OF this] e Inr show ?thesis by (auto intro: elect_alone.intros)
  qed
qed

definition mysql_steps :: "string \<Rightarrow> string \<Rightarrow> string \<Rightarrow> int \<Rightarrow> err \<Rightarrow> (crondb, err + bool) prog" where
  "mysql_steps t scope holder us e =
     bindE (lease_stmt t (update_lease scope holder us)) (\<lambda>n.
       if n \<ge> 1 then returnP (Inr True)
       else
         bindE (lease_stmt t (select_lease scope)) (\<lambda>row.
           case row of
             Some (curHolder, expired) \<Rightarrow> returnP (Inr (curHolder = holder \<and> \<not> expired))
           | None \<Rightarrow>
               bindE (lease_stmt t (insert_lease scope holder us)) (\<lambda>ins.
                 if ins = 1 then returnP (Inr True)
                 else
                   bindE (lease_stmt t (select_lease scope)) (\<lambda>row.
                     case row of None \<Rightarrow> returnP (Inl e) | Some (curHolder, _) \<Rightarrow> returnP (Inr (curHolder = holder))))))"

lemma acquire_alone:
  assumes v: "validateIdent t = None" and run: "ed_AcquireOrRenew (elector_of b) ctx () t scope holder ttl s = (Val r, s')"
  shows "elect_alone t scope holder ttl (elect_first b) s r s'"
proof -
  have up: "elect_alone t scope holder ttl AtUpsert s r s'"
    if "bindE (lease_stmt t (upsert_lease scope holder (Microseconds ttl))) (\<lambda>got. returnP (Inr (got = Some holder))) s = (Val r, s')"
    by (rule alone_then [OF that, where k = "\<lambda>r. Inr (case r of Inl e \<Rightarrow> Inl e | Inr got \<Rightarrow> Inr (got = Some holder))"])
      (auto simp: elect_stmt_def returnP_def)
  show ?thesis
  proof (cases b)
    case OnMySQL
    from run have m: "mysql_steps t scope holder (Microseconds ttl) (Errorf ''%w: scope %q (INSERT IGNORE affected no row and none exists)''
        [ArgW (cron_err ErrElectorAcquireFailed), ArgS scope]) s = (Val r, s')"
      by (simp add: OnMySQL MySQLElector_def mysqlElector_AcquireOrRenew_def on_table_def quoteTable_def v mysql_steps_def Let_def)
    have re: "elect_alone t scope holder ttl AtRecheck u r s'"
      if "bindE (lease_stmt t (select_lease scope)) (\<lambda>row. case row of
            None \<Rightarrow> returnP (Inl (Errorf ''%w: scope %q (INSERT IGNORE affected no row and none exists)''
              [ArgW (cron_err ErrElectorAcquireFailed), ArgS scope])) | Some (curHolder, _) \<Rightarrow> returnP (Inr (curHolder = holder))) u = (Val r, s')" for u
      by (rule alone_then [OF that, where k = "\<lambda>r. Inr (case r of Inl e \<Rightarrow> Inl e
              | Inr None \<Rightarrow> Inl (Errorf ''%w: scope %q (INSERT IGNORE affected no row and none exists)''
                                [ArgW (cron_err ErrElectorAcquireFailed), ArgS scope])
              | Inr (Some (curHolder, _)) \<Rightarrow> Inr (curHolder = holder))"])
        (auto simp: elect_stmt_def returnP_def split: option.splits)
    have ins: "elect_alone t scope holder ttl AtInsert u r s'"
      if "bindE (lease_stmt t (insert_lease scope holder (Microseconds ttl))) (\<lambda>ins. if ins = 1 then returnP (Inr True) else
            bindE (lease_stmt t (select_lease scope)) (\<lambda>row. case row of
            None \<Rightarrow> returnP (Inl (Errorf ''%w: scope %q (INSERT IGNORE affected no row and none exists)''
              [ArgW (cron_err ErrElectorAcquireFailed), ArgS scope])) | Some (curHolder, _) \<Rightarrow> returnP (Inr (curHolder = holder)))) u = (Val r, s')" for u
      by (rule alone_then [OF that, where k = "\<lambda>r. case r of Inl e \<Rightarrow> Inr (Inl e) | Inr ins \<Rightarrow> if ins = 1 then Inr (Inr True) else Inl AtRecheck"])
        (auto simp: elect_stmt_def returnP_def intro: re split: if_splits)
    show ?thesis unfolding OnMySQL elect_first.simps
    proof (rule alone_then [OF m [unfolded mysql_steps_def],
          where k = "\<lambda>r. case r of Inl e \<Rightarrow> Inr (Inl e) | Inr n \<Rightarrow> if n \<ge> 1 then Inr (Inr True) else Inl AtVerify"], goal_cases)
      case (3 a s1)
      show ?case
      proof (cases "a \<ge> 1")
        case False
        then have sel: "bindE (lease_stmt t (select_lease scope)) (\<lambda>row. case row of
              Some (curHolder, expired) \<Rightarrow> returnP (Inr (curHolder = holder \<and> \<not> expired))
            | None \<Rightarrow> bindE (lease_stmt t (insert_lease scope holder (Microseconds ttl))) (\<lambda>ins. if ins = 1 then returnP (Inr True) else
                bindE (lease_stmt t (select_lease scope)) (\<lambda>row. case row of
                None \<Rightarrow> returnP (Inl (Errorf ''%w: scope %q (INSERT IGNORE affected no row and none exists)''
                  [ArgW (cron_err ErrElectorAcquireFailed), ArgS scope])) | Some (curHolder, _) \<Rightarrow> returnP (Inr (curHolder = holder))))) s1 = (Val r, s')"
          using 3 by simp
        have "elect_alone t scope holder ttl AtVerify s1 r s'"
          by (rule alone_then [OF sel, where k = "\<lambda>r. case r of Inl e \<Rightarrow> Inr (Inl e) | Inr None \<Rightarrow> Inl AtInsert
              | Inr (Some (curHolder, expired)) \<Rightarrow> Inr (Inr (curHolder = holder \<and> \<not> expired))"])
            (auto simp: elect_stmt_def returnP_def intro: ins split: option.splits)
        then show ?thesis using False by simp
      qed (use 3 in \<open>auto simp: returnP_def\<close>)
    qed (simp_all add: elect_stmt_def)
  qed (use run up in \<open>simp_all add: PostgresElector_def SQLiteElector_def postgresElector_AcquireOrRenew_def sqliteElector_AcquireOrRenew_def
        on_table_def quoteTable_def v\<close>)
qed

text \<open>
  C28. Leadership is exclusive on every built-in elector dialect: whatever holders try to acquire or renew, with the statements of
  their calls interleaved in any way (so that another instance can insert or take over the lease between the update, the read and the
  insert of the MySQL dialect), with statements that fail or lose their reply, calls given up in the middle and time passing, the
  term of a later leader of a scope starts (its expiry minus its time to live) after the term of every earlier leader with another
  identity has expired. The statements are those of the dialects: a call of \<^verbatim>\<open>AcquireOrRenew\<close> that runs alone is such a sequence of
  steps, with its verdict and its effect on the database.
\<close>

theorem elector_exclusive:
  assumes "leases_ok t s" "\<forall>x. lease_of t s x = None" "sql_elector.elections t (elect_first b) ttl s cs ws s'"
    and "i < j" "j < length ws" "ws ! i = (scope, h, e)" "ws ! j = (scope, h', e')" "h \<noteq> h'"
  shows "e < e' - Microseconds (ttl h')
    \<and> (\<forall>ctx x holder d u r u'. validateIdent t = None \<longrightarrow> ed_AcquireOrRenew (elector_of b) ctx () t x holder d u = (Val r, u') \<longrightarrow>
         elect_alone t x holder d (elect_first b) u r u')"
proof -
  have "sql_elector.disjoint_terms ttl ws"
    using sql_elector.elections_ok [OF assms(3,1)] assms(2) by blast
  with assms(4-8) have "e < e' - Microseconds (ttl h')" unfolding sql_elector.disjoint_terms_def by blast
  with acquire_alone show ?thesis by blast
qed

definition demo_ttl :: duration where "demo_ttl = 5 * Second"

definition demo_led :: "int \<Rightarrow> string \<Rightarrow> int \<Rightarrow> crondb" where
  "demo_led now holder expires = demo_cron\<lparr>db_now := now,
     db_leases := [''leader'' \<mapsto> [\<lparr>el_scope = ''job'', el_holder = holder, el_expires_at = expires\<rparr>]]\<rparr>"

text \<open>
  Two instances find no lease and race for it: \<open>a\<close> inserts first, the insert of \<open>b\<close> is ignored and its recheck refuses it. Six seconds
  later the lease has run out and \<open>b\<close> takes it over.
\<close>

lemma demo_elections:
  "\<exists>cs. sql_elector.elections ''leader'' (elect_first OnMySQL) (\<lambda>_. demo_ttl) demo_cron cs [(''job'', ''a'', 5000000), (''job'', ''b'', 11000000)]
     (demo_led 6000000 ''b'' 11000000)"
proof -
  let ?run = "sql_elector.elections ''leader'' (elect_first OnMySQL) (\<lambda>_. demo_ttl) demo_cron"
  let ?do = "\<lambda>p h. elect_stmt ''leader'' p ''job'' h demo_ttl"
  note run = elect_stmt_def bindP_def returnP_def lease_stmt_def next_stmt_def stmt_reply_def update_lease_def select_lease_def
    insert_lease_def demo_cron_def demo_led_def is_scope_def renewable_def Microseconds_def demo_ttl_def Let_def
  have absent: "?do AtUpdate h demo_cron = (Val (Inl AtVerify), demo_cron)" "?do AtVerify h demo_cron = (Val (Inl AtInsert), demo_cron)"
    "?do AtInsert h demo_cron = (Val (Inr (Inr True)), demo_led 0 h 5000000)" for h by (simp_all add: run)
  have lost: "?do AtInsert ''b'' (demo_led 0 ''a'' 5000000) = (Val (Inl AtRecheck), demo_led 0 ''a'' 5000000)"
    "?do AtRecheck ''b'' (demo_led 0 ''a'' 5000000) = (Val (Inr (Inr False)), demo_led 0 ''a'' 5000000)"
    "?do AtUpdate ''b'' (demo_led 6000000 ''a'' 5000000) = (Val (Inr (Inr True)), demo_led 6000000 ''b'' 11000000)" by (simp_all add: run)
  have l: "lease_of ''leader'' (demo_led n h x) ''job'' = Some (h, x)" for n h x
    by (simp add: lease_of_def demo_led_def row_lease_def is_scope_def)
  have ok: "leases_ok ''leader'' (demo_led n h x)" for n h x by (simp add: leases_ok_def demo_led_def)
  define pos where "pos x y ws s \<longleftrightarrow> (\<exists>cs. ?run cs ws s \<and> cs 0 = map_option (\<lambda>p. (''job'', ''a'', p)) x \<and> cs 1 = map_option (\<lambda>p. (''job'', ''b'', p)) y)"
    for x y ws s
  have a_on: "pos (Some p') y ws s2" if "pos (Some p) y ws s1" "?do p ''a'' s1 = (Val (Inl p'), s2)" for p p' y ws s1 s2
    using that sql_elector.went_on [where n = 0] unfolding pos_def by fastforce
  have b_on: "pos x (Some p') ws s2" if "pos x (Some p) ws s1" "?do p ''b'' s1 = (Val (Inl p'), s2)" for p p' x ws s1 s2
    using that sql_elector.went_on [where n = 1] unfolding pos_def by fastforce
  have same: "lease_of ''leader'' (demo_led n h x) = lease_of ''leader'' (demo_led m h x)" for n m h x
    by (simp add: lease_of_def demo_led_def fun_eq_iff)
  have later: "?run cs ws (demo_led 6000000 ''a'' 5000000)" if "?run cs ws (demo_led 0 ''a'' 5000000)" for cs ws
    by (rule sql_elector.passed [OF that ok ok same]) (simp add: demo_led_def)
  have a_won: "pos None y (ws @ [(''job'', ''a'', x)]) s2"
    if p: "pos (Some p) y ws s1" and w: "?do p ''a'' s1 = (Val (Inr (Inr True)), s2)" "lease_of ''leader'' s2 ''job'' = Some (''a'', x)" for p y ws s1 s2 x
  proof -
    obtain cs where cs: "?run cs ws s1" "cs 0 = Some (''job'', ''a'', p)" "cs 1 = map_option (\<lambda>p. (''job'', ''b'', p)) y" using p by (auto simp: pos_def)
    have "?run (cs(0 := None)) (ws @ [(''job'', ''a'', x)]) s2" using sql_elector.elected [OF cs(1,2) w(1)] w(2) by simp
    then show ?thesis using cs(3) unfolding pos_def by force
  qed
  have b_won: "pos y None (ws @ [(''job'', ''b'', x)]) s2"
    if p: "pos y (Some p) ws s1" and w: "?do p ''b'' s1 = (Val (Inr (Inr True)), s2)" "lease_of ''leader'' s2 ''job'' = Some (''b'', x)" for p y ws s1 s2 x
  proof -
    obtain cs where cs: "?run cs ws s1" "cs 1 = Some (''job'', ''b'', p)" "cs 0 = map_option (\<lambda>p. (''job'', ''a'', p)) y" using p by (auto simp: pos_def)
    have "?run (cs(1 := None)) (ws @ [(''job'', ''b'', x)]) s2" using sql_elector.elected [OF cs(1,2) w(1)] w(2) by simp
    then show ?thesis using cs(3) unfolding pos_def by force
  qed
  have "pos None None [] demo_cron" using sql_elector.start unfolding pos_def by force
  then have "pos (Some AtUpdate) None [] demo_cron"
    using sql_elector.called [where n = 0 and scope = "''job''" and holder = "''a''"] unfolding pos_def by fastforce
  then have "pos (Some AtUpdate) (Some AtUpdate) [] demo_cron"
    using sql_elector.called [where n = 1 and scope = "''job''" and holder = "''b''"] unfolding pos_def by fastforce
  then have "pos (Some AtInsert) (Some AtInsert) [] demo_cron"
    by (rule b_on [OF b_on [OF a_on [OF a_on [OF _ absent(1)] absent(2)] absent(1)] absent(2)])
  then have "pos None (Some AtInsert) [(''job'', ''a'', 5000000)] (demo_led 0 ''a'' 5000000)"
    using a_won [OF _ absent(3) l, of _ "[]"] by simp
  then have "pos None (Some AtRecheck) [(''job'', ''a'', 5000000)] (demo_led 0 ''a'' 5000000)" using b_on lost(1) by blast
  then have "pos None None [(''job'', ''a'', 5000000)] (demo_led 0 ''a'' 5000000)"
    using sql_elector.refused [where n = 1] lost(2) unfolding pos_def by fastforce
  then have "pos None None [(''job'', ''a'', 5000000)] (demo_led 6000000 ''a'' 5000000)"
    unfolding pos_def using later by blast
  then have "pos None (Some AtUpdate) [(''job'', ''a'', 5000000)] (demo_led 6000000 ''a'' 5000000)"
    using sql_elector.called [where n = 1 and scope = "''job''" and holder = "''b''"] unfolding pos_def by fastforce
  from b_won [OF this lost(3) l] show ?thesis unfolding pos_def by auto
qed

theorem elector_exclusive_witness:
  "\<exists>cs. sql_elector.elections ''leader'' (elect_first OnMySQL) (\<lambda>_. demo_ttl) demo_cron cs
      [(''job'', ''a'', 5000000), (''job'', ''b'', 11000000)] (demo_led 6000000 ''b'' 11000000)
    \<and> (5000000 :: int) < 11000000 - Microseconds demo_ttl"
proof -
  have s: "leases_ok ''leader'' demo_cron" by (simp add: leases_ok_def demo_cron_def)
  have n: "\<forall>x. lease_of ''leader'' demo_cron x = None" by (simp add: lease_of_def demo_cron_def row_lease_def)
  from demo_elections obtain cs where r: "sql_elector.elections ''leader'' (elect_first OnMySQL) (\<lambda>_. demo_ttl) demo_cron cs
      [(''job'', ''a'', 5000000), (''job'', ''b'', 11000000)] (demo_led 6000000 ''b'' 11000000)" by blast
  show ?thesis using r elector_exclusive [OF s n r, of 0 1 "''job''" "''a''" 5000000 "''b''" 11000000] by auto
qed

section \<open>One statement or three\<close>

lemma lease_stmt_quiet:
  assumes "quiet s" "db_leases s t = Some rs"
  shows "lease_stmt t f s = (case f False (db_now s) rs of (rs', a) \<Rightarrow> (Val (Inr a), s\<lparr>db_leases := (db_leases s)(t \<mapsto> rs')\<rparr>))"
  using assms by (simp add: lease_stmt_def next_stmt_def quiet_def stmt_reply_def)

lemma bindE_run: "m s = (Val r, s1) \<Longrightarrow> bindE m f s = (case r of Inl e \<Rightarrow> (Val (Inl e), s1) | Inr a \<Rightarrow> f a s1)"
  by (cases r) (simp_all add: bindE_def bindP_def returnP_def)

lemma update_misses:
  assumes "\<And>r. r \<in> set rs \<Longrightarrow> is_scope scope r \<Longrightarrow> \<not> renewable holder n r"
  shows "update_lease scope holder us dem n rs = (rs, 0)"
proof -
  have "map (\<lambda>r. if is_scope scope r \<and> renewable holder n r then r\<lparr>el_holder := holder, el_expires_at := n + us\<rparr> else r) rs = rs"
    using assms by (intro map_idI) auto
  then show ?thesis using assms by (auto simp: update_lease_def filter_empty_conv)
qed

text \<open>The two writing statements have the same effect on a table with at most one row per scope.\<close>

lemma update_like_upsert:
  assumes "distinct (map el_scope rs)" "find (is_scope scope) rs = Some x"
  shows "fst (update_lease scope holder us False n rs) = fst (upsert_lease scope holder us False n rs)"
proof -
  have only: "r = x" if "r \<in> set rs" "is_scope scope r" for r
    using that assms find_scope [OF assms(2)] by (metis distinct_map inj_onD is_scope_def)
  show ?thesis
  proof (cases "renewable holder n x")
    case True
    then have "(is_scope scope r \<and> renewable holder n r) = is_scope scope r" if "r \<in> set rs" for r using only that by blast
    then show ?thesis using True assms(2) by (auto simp: update_lease_def upsert_lease_def)
  next
    case False
    then have "update_lease scope holder us False n rs = (rs, 0)" using only by (intro update_misses) blast
    then show ?thesis using False assms(2) by (simp add: upsert_lease_def)
  qed
qed

lemma mysql_steps_upsert:
  assumes q: "quiet s" and rs: "db_leases s t = Some rs" "distinct (map el_scope rs)" and us: "0 \<le> us"
  shows "mysql_steps t scope holder us e s =
    bindE (lease_stmt t (upsert_lease scope holder us)) (\<lambda>got. returnP (Inr (got = Some holder))) s"
proof (cases "find (is_scope scope) rs")
  case None
  then have no: "\<not> list_ex (is_scope scope) rs" "\<And>r. r \<in> set rs \<Longrightarrow> \<not> is_scope scope r" by (auto simp: list_ex_iff find_None_iff)
  have u: "update_lease scope holder us False (db_now s) rs = (rs, 0)" by (rule update_misses) (use no in blast)
  have same: "s\<lparr>db_leases := (db_leases s)(t \<mapsto> rs)\<rparr> = s" using rs(1) by (simp add: map_upd_triv)
  show ?thesis
    by (simp add: mysql_steps_def bindE_def bindP_def returnP_def lease_stmt_quiet [OF q rs(1)] u same select_lease_def None
        insert_lease_def no(1) upsert_lease_def)
next
  case (Some x)
  have same: "s\<lparr>db_leases := (db_leases s)(t \<mapsto> rs)\<rparr> = s" using rs(1) by (simp add: map_upd_triv)
  obtain rs' k where u: "update_lease scope holder us False (db_now s) rs = (rs', k)" by fastforce
  have up: "fst (upsert_lease scope holder us False (db_now s) rs) = rs'" using update_like_upsert [OF rs(2) Some] u by (metis fst_conv)
  have got: "snd (upsert_lease scope holder us False (db_now s) rs) = (if renewable holder (db_now s) x then Some holder else None)"
    using Some by (simp add: upsert_lease_def)
  obtain ups where ups: "upsert_lease scope holder us False (db_now s) rs = (rs', ups)" "ups = (if renewable holder (db_now s) x then Some holder else None)"
    using up got by (metis prod.collapse)
  from rs(2) u show ?thesis
  proof (cases rule: update_lease_cases)
    case changed
    have "renewable holder (db_now s) x"
      using changed(2) Some by (auto simp: leases_step_def row_lease_def renewable_def)
    then show ?thesis using changed(1) ups
      by (simp add: mysql_steps_def bindE_def bindP_def returnP_def lease_stmt_quiet [OF q rs(1)] u)
  next
    case same': same
    have "(el_holder x = holder \<and> \<not> el_expires_at x < db_now s) = renewable holder (db_now s) x"
      using same'(3) [OF Some] us unfolding renewable_def by auto
    then show ?thesis using ups same'(1,2)
      by (simp add: mysql_steps_def bindE_def bindP_def returnP_def lease_stmt_quiet [OF q rs(1)] u same select_lease_def Some)
  qed
qed

text \<open>
  C29. The three elector dialects are equivalent: without failures and interference, the update, read and insert of the
  MySQL dialect, the one upsert of the PostgreSQL dialect and that of the SQLite dialect give the same verdict or error
  and leave the same table, for every table, scope, holder and non-negative time to live.
\<close>

theorem elector_dialects_agree:
  assumes "quiet s" "0 \<le> ttl" "\<forall>rs. db_leases s t = Some rs \<longrightarrow> distinct (map el_scope rs)"
  shows "mysqlElector_AcquireOrRenew ctx q t scope holder ttl s = postgresElector_AcquireOrRenew ctx q t scope holder ttl s
    \<and> sqliteElector_AcquireOrRenew ctx q t scope holder ttl s = postgresElector_AcquireOrRenew ctx q t scope holder ttl s"
proof
  show "sqliteElector_AcquireOrRenew ctx q t scope holder ttl s = postgresElector_AcquireOrRenew ctx q t scope holder ttl s"
    by (simp add: sqliteElector_AcquireOrRenew_def postgresElector_AcquireOrRenew_def on_table_def quoteTable_def split: option.splits)
  have us: "0 \<le> Microseconds ttl" using assms(2) by (simp add: Microseconds_def)
  have step: "mysql_steps t scope holder (Microseconds ttl) e s =
    bindE (lease_stmt t (upsert_lease scope holder (Microseconds ttl))) (\<lambda>got. returnP (Inr (got = Some holder))) s" for e
  proof (cases "db_leases s t")
    case None
    then show ?thesis using assms(1)
      by (simp add: mysql_steps_def bindE_def bindP_def returnP_def lease_stmt_def next_stmt_def quiet_def)
  next
    case (Some rs)
    then show ?thesis using mysql_steps_upsert [OF assms(1) Some _ us] assms(3) by blast
  qed
  show "mysqlElector_AcquireOrRenew ctx q t scope holder ttl s = postgresElector_AcquireOrRenew ctx q t scope holder ttl s"
  proof (cases "validateIdent t")
    case None
    show ?thesis
      unfolding mysqlElector_AcquireOrRenew_def postgresElector_AcquireOrRenew_def on_table_def quoteTable_def Let_def
        mysql_steps_def [symmetric] None option.case sum.case by (rule step)
  next
    case (Some e)
    then show ?thesis
      by (simp add: mysqlElector_AcquireOrRenew_def postgresElector_AcquireOrRenew_def on_table_def quoteTable_def)
  qed
qed

theorem elector_dialects_agree_witness:
  "quiet (demo_led 3000000 ''a'' 5000000)
   \<and> mysqlElector_AcquireOrRenew undefined () ''leader'' ''job'' ''b'' demo_ttl (demo_led 3000000 ''a'' 5000000)
     = postgresElector_AcquireOrRenew undefined () ''leader'' ''job'' ''b'' demo_ttl (demo_led 3000000 ''a'' 5000000)
   \<and> sqliteElector_AcquireOrRenew undefined () ''leader'' ''job'' ''b'' demo_ttl (demo_led 3000000 ''a'' 5000000)
     = postgresElector_AcquireOrRenew undefined () ''leader'' ''job'' ''b'' demo_ttl (demo_led 3000000 ''a'' 5000000)"
proof -
  have "quiet (demo_led 3000000 ''a'' 5000000)" "0 \<le> demo_ttl"
    "\<forall>rs. db_leases (demo_led 3000000 ''a'' 5000000) ''leader'' = Some rs \<longrightarrow> distinct (map el_scope rs)"
    by (simp_all add: quiet_def demo_led_def demo_cron_def demo_ttl_def)
  from elector_dialects_agree [OF this] this(1) show ?thesis by blast
qed

end
