(* ===== verification/Cron.thy ===== *)
theory Cron
  imports Cron_Sql
begin

text \<open>
  The cron source (\<^verbatim>\<open>adapter/cron/source.go\<close>, \<^verbatim>\<open>coordinator.go\<close>): options, construction, the coordination gate and the
  firing loop. The schedule parser is a third-party package: a schedule is its \<^verbatim>\<open>Next\<close>, with \<open>None\<close> for the zero time, and
  whether it is an \<^verbatim>\<open>@every\<close> schedule; what the loop relies on is that \<^verbatim>\<open>Next\<close> is later than its argument. The loop waits in
  selects: \<open>env\<close> is what the rest of the program does meanwhile, step by step, and the loop may run for ever, so it is a
  partial function. Besides its error it returns the fires it handed over, each with the clock at the hand-over.

  The lemmas: the loop returns once its context is cancelled, fires ascend along the schedule's grid, an instant that
  passes during a slow hand-over is skipped, and under a SQL locker no fire is delivered by two instances.
\<close>

section \<open>Construction\<close>

type_synonym location = string

record schedule =
  sched_Next :: "location \<Rightarrow> time \<Rightarrow> time option"
  sched_every :: bool

type_synonym 's Elector = "'s ctx \<Rightarrow> string \<Rightarrow> ('s, err + bool) prog"
type_synonym 's Locker = "'s ctx \<Rightarrow> string \<Rightarrow> time \<Rightarrow> ('s, err + bool) prog"
type_synonym 's gate = "'s ctx \<Rightarrow> time \<Rightarrow> ('s, err + bool) prog"
type_synonym 's error_log = "err \<Rightarrow> time \<Rightarrow> ('s, unit) prog"

record 's cron_config =
  cc_clock :: "'s \<Rightarrow> time"
  cc_location :: location
  cc_scope :: string
  cc_scopeSet :: bool
  cc_elector :: "'s Elector option"
  cc_locker :: "'s Locker option"
  cc_logger :: "'s error_log"
  cc_seconds :: bool

type_synonym 's cron_Option = "('s cron_config \<Rightarrow> 's cron_config) option"

definition cron_WithClock :: "('s \<Rightarrow> time) option \<Rightarrow> 's cron_Option" where
  "cron_WithClock c = Some (\<lambda>cfg. case c of None \<Rightarrow> cfg | Some clk \<Rightarrow> cfg\<lparr>cc_clock := clk\<rparr>)"

definition WithLocation :: "location option \<Rightarrow> 's cron_Option" where
  "WithLocation l = Some (\<lambda>cfg. case l of None \<Rightarrow> cfg | Some loc \<Rightarrow> cfg\<lparr>cc_location := loc\<rparr>)"

definition WithSeconds :: "'s cron_Option" where
  "WithSeconds = Some (\<lambda>cfg. cfg\<lparr>cc_seconds := True\<rparr>)"

definition WithScope :: "string \<Rightarrow> 's cron_Option" where
  "WithScope scope = Some (\<lambda>cfg. cfg\<lparr>cc_scope := scope, cc_scopeSet := True\<rparr>)"

definition WithCronLogger :: "'s error_log option \<Rightarrow> 's cron_Option" where
  "WithCronLogger l = Some (\<lambda>cfg. case l of None \<Rightarrow> cfg | Some lg \<Rightarrow> cfg\<lparr>cc_logger := lg\<rparr>)"

definition WithElector :: "'s Elector option \<Rightarrow> 's cron_Option" where
  "WithElector e = Some (\<lambda>cfg. cfg\<lparr>cc_elector := e\<rparr>)"

definition WithLocker :: "'s Locker option \<Rightarrow> 's cron_Option" where
  "WithLocker l = Some (\<lambda>cfg. cfg\<lparr>cc_locker := l\<rparr>)"

definition discardLogger :: "'s error_log" where
  "discardLogger e fire = returnP ()"

record 's cronSource =
  cs_schedule :: schedule
  cs_factory :: "time \<Rightarrow> ('s, goval) prog"
  cs_clock :: "'s \<Rightarrow> time"
  cs_location :: location
  cs_scope :: string
  cs_gate :: "'s gate option"
  cs_logger :: "'s error_log"

definition wireGate :: "'s cronSource \<Rightarrow> 's cron_config \<Rightarrow> err + 's cronSource" where
  "wireGate src cfg =
     (if cc_elector cfg \<noteq> None \<and> cc_locker cfg \<noteq> None then Inl (cron_err ErrConflictingCoordinator)
      else if cc_locker cfg \<noteq> None \<and> sched_every (cs_schedule src) then Inl (cron_err ErrLockerRequiresGridSchedule)
      else Inr
        (case cc_elector cfg of
           Some e \<Rightarrow> src\<lparr>cs_gate := Some (\<lambda>ctx _. e ctx (cs_scope src))\<rparr>
         | None \<Rightarrow>
             (case cc_locker cfg of
                Some l \<Rightarrow> src\<lparr>cs_gate := Some (\<lambda>ctx fire. l ctx (cs_scope src) fire)\<rparr>
              | None \<Rightarrow> src)))"

text \<open>
  \<open>parse5\<close> and \<open>parse6\<close> are \<^verbatim>\<open>ParseStandard\<close> and the parser with a seconds field; \<open>wall\<close> is the real clock and \<open>s\<close> the world
  at the call, whose clock the satisfiability probe reads.
\<close>

definition NewSource ::
  "('s \<Rightarrow> time) \<Rightarrow> (string \<Rightarrow> err + schedule) \<Rightarrow> (string \<Rightarrow> err + schedule) \<Rightarrow> string \<Rightarrow> (time \<Rightarrow> ('s, goval) prog) option
    \<Rightarrow> 's cron_Option list \<Rightarrow> 's \<Rightarrow> err + 's cronSource" where
  "NewSource wall parse5 parse6 spec factory opts s =
     (case apply_opts 0 opts \<lparr>cc_clock = wall, cc_location = ''UTC'', cc_scope = '''', cc_scopeSet = False, cc_elector = None,
             cc_locker = None, cc_logger = discardLogger, cc_seconds = False\<rparr> of
        Inl i \<Rightarrow> Inl (nilOptionAt ''cron.NewSource'' i)
      | Inr cfg \<Rightarrow>
          (case (if cc_seconds cfg then parse6 spec else parse5 spec) of
             Inl e \<Rightarrow> Inl (Errorf ''%w: %q: %v'' [ArgW (cron_err ErrInvalidSchedule), ArgS spec, ArgE e])
           | Inr schedule \<Rightarrow>
               (case factory of
                  None \<Rightarrow> Inl (cron_err ErrNilFactory)
                | Some f \<Rightarrow>
                    if sched_Next schedule (cc_location cfg) (cc_clock cfg s) = None
                    then Inl (Errorf ''%w: %q has no future occurrence'' [ArgW (cron_err ErrInvalidSchedule), ArgS spec])
                    else
                      (let scope = (if cc_scopeSet cfg \<and> cc_scope cfg \<noteq> '''' then cc_scope cfg else spec)
                       in wireGate
                            \<lparr>cs_schedule = schedule, cs_factory = f, cs_clock = cc_clock cfg, cs_location = cc_location cfg,
                             cs_scope = scope, cs_gate = None, cs_logger = cc_logger cfg\<rparr> cfg))))"

definition cron_EmitsLiveValue :: "'s cronSource \<Rightarrow> bool" where
  "cron_EmitsLiveValue src = True"

section \<open>The firing loop\<close>

definition is_ctx_error :: "err \<Rightarrow> bool" where
  "is_ctx_error e \<longleftrightarrow> Canceled \<in> set (err_tree e) \<or> DeadlineExceeded \<in> set (err_tree e)"

definition win :: "'s cronSource \<Rightarrow> 's ctx \<Rightarrow> time \<Rightarrow> ('s, bool) prog" where
  "win src ctx fireTime =
     (case cs_gate src of
        None \<Rightarrow> returnP True
      | Some g \<Rightarrow>
          bindP (g ctx fireTime) (\<lambda>r.
            case r of
              Inl e \<Rightarrow> if \<not> is_ctx_error e then bindP (cs_logger src e fireTime) (\<lambda>_. returnP False) else returnP False
            | Inr w \<Rightarrow> returnP w))"

definition noopAck :: "'s ctx \<Rightarrow> ('s, err option) prog" where
  "noopAck ctx = returnP None"

definition noopNack :: "'s ctx \<Rightarrow> bool \<Rightarrow> duration \<Rightarrow> ('s, err option) prog" where
  "noopNack ctx requeue delay = returnP None"

text \<open>\<open>rnd\<close> reads the random bytes of the new message's id.\<close>

definition fire_delivery :: "'s cronSource \<Rightarrow> ('s \<Rightarrow> string) \<Rightarrow> time \<Rightarrow> ('s, 's Delivery) prog" where
  "fire_delivery src rnd fire =
     bindP (cs_factory src fire) (\<lambda>v s.
       (Val \<lparr>Msg = New (cs_clock src s) (rnd s) v [WithClock (Some (cs_clock src s))], Ack = noopAck, Nack = noopNack\<rparr>, s))"

definition next_instant :: "'s cronSource \<Rightarrow> time \<Rightarrow> time option" where
  "next_instant src t = sched_Next (cs_schedule src) (cs_location src) t"

text \<open>\<^verbatim>\<open>Time.Sub\<close> saturates.\<close>

definition time_Sub :: "time \<Rightarrow> time \<Rightarrow> duration" where
  "time_Sub t u = max MinInt64 (min MaxInt64 (t - u))"

text \<open>A \<^verbatim>\<open>select\<close> that blocks until a case is ready: the case taken and the world then.\<close>

partial_function (option) wait_ready :: "('s \<Rightarrow> 's) \<Rightarrow> ('s \<Rightarrow> nat) \<Rightarrow> ('s \<Rightarrow> bool) list \<Rightarrow> 's \<Rightarrow> (nat \<times> 's) option" where
  "wait_ready env pck ready s =
     (case go_select (map (\<lambda>r. r (env s)) ready) (pck (env s)) of
        Some i \<Rightarrow> Some (i, env s)
      | None \<Rightarrow> wait_ready env pck ready (env s))"

text \<open>The inner loop: past every instant that has elapsed. \<open>Some None\<close> is the zero time.\<close>

partial_function (option) skip_missed :: "(time \<Rightarrow> time option) \<Rightarrow> time \<Rightarrow> time \<Rightarrow> time option option" where
  "skip_missed nxt now t =
     (if t \<le> now then (case nxt t of None \<Rightarrow> Some None | Some t' \<Rightarrow> skip_missed nxt now t') else Some (Some t))"

record 's fires_out =
  fo_ready :: "'s \<Rightarrow> bool"
  fo_put :: "'s Delivery \<Rightarrow> 's \<Rightarrow> 's"

type_synonym fires = "(time \<times> time) list"

definition await_done :: "('s \<Rightarrow> 's) \<Rightarrow> ('s \<Rightarrow> nat) \<Rightarrow> 's ctx \<Rightarrow> fires \<Rightarrow> ('s, err option \<times> fires) oprog" where
  "await_done env pck ctx sent s =
     (case wait_ready env pck [\<lambda>s'. ctx s' \<noteq> None] s of None \<Rightarrow> None | Some (_, s') \<Rightarrow> returnO (ctx s', sent) s')"

partial_function (option) stream_loop ::
  "'s cronSource \<Rightarrow> ('s \<Rightarrow> 's) \<Rightarrow> ('s \<Rightarrow> nat) \<Rightarrow> ('s \<Rightarrow> string) \<Rightarrow> 's ctx \<Rightarrow> 's fires_out \<Rightarrow> time option \<Rightarrow> fires
    \<Rightarrow> ('s, err option \<times> fires) oprog" where
  "stream_loop src env pck rnd ctx out nxt sent s =
     (case nxt of
        None \<Rightarrow> await_done env pck ctx sent s
      | Some t \<Rightarrow>
          (case skip_missed (next_instant src) (cs_clock src s) t of
             None \<Rightarrow> None
           | Some None \<Rightarrow> await_done env pck ctx sent s
           | Some (Some fire) \<Rightarrow>
               (case wait_ready env pck
                       [\<lambda>s'. cs_clock src s + time_Sub fire (cs_clock src s) \<le> cs_clock src s', \<lambda>s'. ctx s' \<noteq> None] s of
                  None \<Rightarrow> None
                | Some (i, s1) \<Rightarrow>
                    if i \<noteq> 0 then returnO (ctx s1, sent) s1
                    else
                      (case win src ctx fire s1 of
                         (Pan v, s2) \<Rightarrow> Some (Pan v, s2)
                       | (Val w, s2) \<Rightarrow>
                           if \<not> w then stream_loop src env pck rnd ctx out (next_instant src fire) sent s2
                           else
                             (case fire_delivery src rnd fire s2 of
                                (Pan v, s3) \<Rightarrow> Some (Pan v, s3)
                              | (Val d, s3) \<Rightarrow>
                                  (case wait_ready env pck [fo_ready out, \<lambda>s'. ctx s' \<noteq> None] s3 of
                                     None \<Rightarrow> None
                                   | Some (j, s4) \<Rightarrow>
                                       if j \<noteq> 0 then returnO (ctx s4, sent) s4
                                       else stream_loop src env pck rnd ctx out (next_instant src fire)
                                              (sent @ [(fire, cs_clock src (fo_put out d s4))]) (fo_put out d s4)))))))"

definition cron_Stream ::
  "'s cronSource \<Rightarrow> ('s \<Rightarrow> 's) \<Rightarrow> ('s \<Rightarrow> nat) \<Rightarrow> ('s \<Rightarrow> string) \<Rightarrow> 's ctx \<Rightarrow> 's fires_out \<Rightarrow> ('s, err option \<times> fires) oprog" where
  "cron_Stream src env pck rnd ctx out s =
     stream_loop src env pck rnd ctx out (next_instant src (cs_clock src s)) [] s"

section \<open>The loop's contract\<close>

lemma skip_missed_returns:
  assumes later: "\<And>t u. nxt t = Some u \<Longrightarrow> t < u"
  obtains r where "skip_missed nxt now t = Some r"
    "\<And>u. r = Some u \<Longrightarrow> now < u \<and> t \<le> u \<and> (\<lambda>a b. nxt a = Some b)\<^sup>*\<^sup>* t u"
proof -
  have "\<exists>r. skip_missed nxt now t = Some r \<and> (\<forall>u. r = Some u \<longrightarrow> now < u \<and> t \<le> u \<and> (\<lambda>a b. nxt a = Some b)\<^sup>*\<^sup>* t u)"
  proof (induction "nat (now - t + 1)" arbitrary: t rule: less_induct)
    case less
    show ?case
    proof (cases "t \<le> now")
      case True
      show ?thesis
      proof (cases "nxt t")
        case None
        then show ?thesis using True by (subst skip_missed.simps) simp
      next
        case (Some u)
        have tu: "t < u" by (rule later [OF Some])
        then have "nat (now - u + 1) < nat (now - t + 1)" using True by simp
        from less [OF this] obtain r where r: "skip_missed nxt now u = Some r"
          "\<And>v. r = Some v \<Longrightarrow> now < v \<and> u \<le> v \<and> (\<lambda>a b. nxt a = Some b)\<^sup>*\<^sup>* u v" by blast
        have "skip_missed nxt now t = Some r" using True Some r(1) by (subst skip_missed.simps) simp
        moreover have "now < v \<and> t \<le> v \<and> (\<lambda>a b. nxt a = Some b)\<^sup>*\<^sup>* t v" if "r = Some v" for v
          using r(2) [OF that] tu Some converse_rtranclp_into_rtranclp [of "\<lambda>a b. nxt a = Some b" t u v] by simp
        ultimately show ?thesis by blast
      qed
    next
      case False
      then show ?thesis by (subst skip_missed.simps) auto
    qed
  qed
  then show thesis using that by blast
qed


text \<open>
  What a world owes the loop: it winds down, so that after finitely many steps the context is done and a select with
  both cases ready takes the second; a schedule's next instant is later; the gate and the factory return.
  \<open>wf sent s\<close> is what is known of the world after the fires \<open>sent\<close>, \<open>won sent fire s\<close> once the gate has granted one more.
\<close>

locale stream_world =
  fixes src :: "'s cronSource" and env :: "'s \<Rightarrow> 's" and pck :: "'s \<Rightarrow> nat" and rnd :: "'s \<Rightarrow> string" and ctx :: "'s ctx"
    and out :: "'s fires_out" and rank :: "'s \<Rightarrow> nat"
    and wf :: "time list \<Rightarrow> 's \<Rightarrow> bool" and won :: "time list \<Rightarrow> time \<Rightarrow> 's \<Rightarrow> bool"
  assumes later: "next_instant src t = Some u \<Longrightarrow> t < u"
    and env_rank: "rank (env s) \<le> rank s - 1"
    and rank_zero: "rank s = 0 \<Longrightarrow> ctx s \<noteq> None \<and> go_select [True, True] (pck s) = Some 1"
    and env_wf: "wf sent s \<Longrightarrow> wf sent (env s)"
    and env_won: "won sent fire s \<Longrightarrow> won sent fire (env s)"
    and won_wf: "won sent fire s \<Longrightarrow> wf sent s"
    and win_law: "wf sent s \<Longrightarrow> yields (win src ctx fire) (\<lambda>w s'. rank s' \<le> rank s \<and> wf sent s' \<and> (w \<longrightarrow> won sent fire s')) s"
    and delivery_law: "won sent fire s \<Longrightarrow> yields (fire_delivery src rnd fire) (\<lambda>d s'. rank s' \<le> rank s \<and> won sent fire s') s"
    and put_law: "won sent fire s \<Longrightarrow> rank (fo_put out d s) \<le> rank s \<and> wf (sent @ [fire]) (fo_put out d s)"
begin

text \<open>A wait ends; while the world has not wound down it may take either case, at the end only the context's.\<close>

lemma wait_returns:
  assumes p: "P s" "\<And>s. P s \<Longrightarrow> P (env s)"
  obtains i s' where "wait_ready env pck (ready @ [\<lambda>s'. ctx s' \<noteq> None]) s = Some (i, s')" "P s'" "rank s' \<le> rank s - 1"
    "i < length ready \<and> (ready ! i) s' \<or> i = length ready \<and> ctx s' \<noteq> None"
    "length ready = 1 \<Longrightarrow> rank s' = 0 \<Longrightarrow> i = 1"
proof -
  let ?r = "ready @ [\<lambda>s'. ctx s' \<noteq> None]"
  have "\<exists>i s'. wait_ready env pck ?r s = Some (i, s') \<and> P s' \<and> rank s' \<le> rank s - 1
    \<and> go_select (map (\<lambda>r. r s') ?r) (pck s') = Some i"
    using p(1)
  proof (induction "rank s" arbitrary: s rule: less_induct)
    case less
    have env: "P (env s)" "rank (env s) \<le> rank s - 1" using p(2) [OF less.prems] env_rank by auto
    show ?case
    proof (cases "go_select (map (\<lambda>r. r (env s)) ?r) (pck (env s))")
      case (Some i)
      then show ?thesis using env by (subst wait_ready.simps) simp
    next
      case None
      then have "ctx (env s) = None" unfolding go_select_None by (auto simp: nth_append dest: spec [of _ "length ready"])
      then have "rank (env s) \<noteq> 0" using rank_zero by blast
      then have lt: "rank (env s) < rank s" using env(2) by linarith
      from less.hyps [OF lt env(1)] obtain i s' where r: "wait_ready env pck ?r (env s) = Some (i, s')" "P s'"
        "rank s' \<le> rank (env s) - 1" "go_select (map (\<lambda>r. r s') ?r) (pck s') = Some i" by blast
      moreover have "wait_ready env pck ?r s = Some (i, s')" using None r(1) by (subst wait_ready.simps) simp
      moreover have "rank s' \<le> rank s - 1" using r(3) lt by linarith
      ultimately show ?thesis by blast
    qed
  qed
  then obtain i s' where w: "wait_ready env pck ?r s = Some (i, s')" "P s'" "rank s' \<le> rank s - 1"
    and sel: "go_select (map (\<lambda>r. r s') ?r) (pck s') = Some i" by blast
  have case_taken: "i < length ready \<and> (ready ! i) s' \<or> i = length ready \<and> ctx s' \<noteq> None"
    using go_select_ready [OF sel] by (cases "i < length ready") (auto simp: nth_append not_less)
  have "i = 1" if one: "length ready = 1" and z: "rank s' = 0"
  proof -
    obtain r where r: "ready = [r]" using one by (metis length_0_conv length_Suc_conv One_nat_def)
    have both: "ctx s' \<noteq> None" "go_select [True, True] (pck s') = Some 1" using rank_zero [OF z] by auto
    show ?thesis
    proof (cases "r s'")
      case True
      then show ?thesis using sel both r by simp
    next
      case False
      then show ?thesis using case_taken r by auto
    qed
  qed
  from that [OF w case_taken this] show thesis .
qed

definition on_grid :: "time option \<Rightarrow> time \<Rightarrow> bool" where
  "on_grid nxt f \<longleftrightarrow> (\<exists>t. nxt = Some t \<and> (\<lambda>a b. next_instant src a = Some b)\<^sup>*\<^sup>* t f)"

lemma grid_later: "(\<lambda>a b. next_instant src a = Some b)\<^sup>*\<^sup>* t f \<Longrightarrow> t \<le> f"
  by (induction rule: rtranclp_induct) (auto dest: later)

text \<open>The fires ascend, and each is later than the hand-over of every earlier one.\<close>

definition in_order :: "fires \<Rightarrow> bool" where
  "in_order sent \<longleftrightarrow> sorted_wrt (\<lambda>(f, h) (f', h'). f < f' \<and> h < f') sent"

definition loop_result :: "time option \<Rightarrow> fires \<Rightarrow> (err option \<times> fires) res \<times> 's \<Rightarrow> bool" where
  "loop_result nxt sent r \<longleftrightarrow>
     (\<exists>e more s'. r = (Val (Some e, sent @ more), s') \<and> ctx s' = Some e \<and> wf (map fst (sent @ more)) s'
        \<and> in_order (sent @ more) \<and> (\<forall>(f, h) \<in> set more. on_grid nxt f))"

lemma loop_result_stop: "ctx s \<noteq> None \<Longrightarrow> wf (map fst sent) s \<Longrightarrow> in_order sent \<Longrightarrow> loop_result nxt sent (Val (ctx s, sent), s)"
  unfolding loop_result_def by (auto intro!: exI [of _ "[]"])

lemma on_grid_next: "on_grid nxt f \<Longrightarrow> on_grid (next_instant src f) g \<Longrightarrow> on_grid nxt g"
  unfolding on_grid_def
  by (metis (mono_tags, lifting) converse_rtranclp_into_rtranclp rtranclp_trans)

lemma loop_result_next:
  assumes "on_grid nxt f" "loop_result (next_instant src f) sent r"
  shows "loop_result nxt sent r"
  using assms on_grid_next [OF assms(1)] unfolding loop_result_def by blast

lemma loop_result_sent:
  assumes f: "on_grid nxt f" and r: "loop_result (next_instant src f) (sent @ [(f, h)]) r"
  shows "loop_result nxt sent r"
proof -
  from r obtain e more s' where m: "r = (Val (Some e, sent @ (f, h) # more), s')" "ctx s' = Some e"
    "wf (map fst (sent @ (f, h) # more)) s'" "in_order (sent @ (f, h) # more)" "\<forall>(f', h') \<in> set more. on_grid (next_instant src f) f'"
    unfolding loop_result_def by auto
  have "\<forall>(f', h') \<in> set ((f, h) # more). on_grid nxt f'" using m(5) f on_grid_next [OF f] by auto
  then show ?thesis using m(1-4) unfolding loop_result_def by blast
qed

lemma await_returns:
  assumes "wf (map fst sent) s" "in_order sent"
  shows "\<exists>r. await_done env pck ctx sent s = Some r \<and> loop_result nxt sent r"
proof -
  obtain i s' where w: "wait_ready env pck ([] @ [\<lambda>s'. ctx s' \<noteq> None]) s = Some (i, s')" "wf (map fst sent) s'"
    "i < length ([] :: ('s \<Rightarrow> bool) list) \<and> ([] ! i) s' \<or> i = length ([] :: ('s \<Rightarrow> bool) list) \<and> ctx s' \<noteq> None"
    using wait_returns [of "wf (map fst sent)" s "[]", OF assms(1) env_wf] by metis
  then show ?thesis using loop_result_stop [of s' sent nxt] assms(2) by (auto simp: await_done_def returnO_def)
qed

lemma in_order_snoc:
  assumes "in_order sent" "\<And>f' h'. (f', h') \<in> set sent \<Longrightarrow> f' < f \<and> h' < f"
  shows "in_order (sent @ [(f, h)])"
  using assms unfolding in_order_def by (force simp: sorted_wrt_append)

text \<open>What the loop keeps at its head: the pointer is past every fire, and past its hand-over unless the clock is too.\<close>

definition past :: "fires \<Rightarrow> time option \<Rightarrow> time \<Rightarrow> bool" where
  "past sent nxt now \<longleftrightarrow> (\<forall>(f, h) \<in> set sent. \<forall>t. nxt = Some t \<longrightarrow> f < t \<and> (h < t \<or> h \<le> now))"

lemma past_fire: "past sent (Some t) now \<Longrightarrow> now < fire \<Longrightarrow> t \<le> fire \<Longrightarrow> (f, h) \<in> set sent \<Longrightarrow> f < fire \<and> h < fire"
  unfolding past_def by fastforce

lemma past_next: "(\<And>f h. (f, h) \<in> set sent \<Longrightarrow> f < fire \<and> h < fire) \<Longrightarrow> past sent (next_instant src fire) now"
  unfolding past_def by (fastforce dest: later)

lemma past_sent:
  assumes "\<And>f h. (f, h) \<in> set sent \<Longrightarrow> f < fire \<and> h < fire"
  shows "past (sent @ [(fire, now)]) (next_instant src fire) now"
  using past_next [of sent fire now] assms unfolding past_def by (auto dest: later)

lemma stream_returns:
  assumes "wf (map fst sent) s" "in_order sent" "past sent nxt (cs_clock src s)"
  shows "\<exists>r. stream_loop src env pck rnd ctx out nxt sent s = Some r \<and> loop_result nxt sent r"
  using assms
proof (induction "rank s" arbitrary: s sent nxt rule: less_induct)
  case less
  show ?case
  proof (cases nxt)
    case None
    then show ?thesis using await_returns [OF less.prems(1,2)] by (subst stream_loop.simps) simp
  next
    case nxt: (Some t)
    obtain p where skip: "skip_missed (next_instant src) (cs_clock src s) t = Some p"
      "\<And>u. p = Some u \<Longrightarrow> cs_clock src s < u \<and> t \<le> u \<and> (\<lambda>a b. next_instant src a = Some b)\<^sup>*\<^sup>* t u"
      using skip_missed_returns [of "next_instant src" "cs_clock src s" t, OF later] by blast
    show ?thesis
    proof (cases p)
      case None
      then show ?thesis using await_returns [OF less.prems(1,2)] nxt skip(1) by (subst stream_loop.simps) simp
    next
      case p: (Some fire)
      have fire: "cs_clock src s < fire" "t \<le> fire" and grid: "on_grid nxt fire" using skip(2) [OF p] nxt by (auto simp: on_grid_def)
      have before: "f < fire \<and> h < fire" if "(f, h) \<in> set sent" for f h
        using past_fire [OF less.prems(3) [unfolded nxt] fire that] .
      let ?due = "\<lambda>s'. cs_clock src s + time_Sub fire (cs_clock src s) \<le> cs_clock src s'"
      obtain i s1 where w: "wait_ready env pck ([?due] @ [\<lambda>s'. ctx s' \<noteq> None]) s = Some (i, s1)" "wf (map fst sent) s1"
        "rank s1 \<le> rank s - 1" "i < length [?due] \<and> ([?due] ! i) s1 \<or> i = length [?due] \<and> ctx s1 \<noteq> None"
        "length [?due] = 1 \<Longrightarrow> rank s1 = 0 \<Longrightarrow> i = 1"
        using wait_returns [of "wf (map fst sent)" s "[?due]", OF less.prems(1) env_wf] by metis
      note loop = stream_loop.simps [of src env pck rnd ctx out nxt sent s] and head = nxt skip(1) p w(1) [simplified]
      show ?thesis
      proof (cases "i = 0")
        case False
        then have "ctx s1 \<noteq> None" using w(4) by auto
        then show ?thesis using False loop_result_stop [of s1 sent nxt] w(2) less.prems(2) by (subst loop) (simp add: head returnO_def)
      next
        case i: True
        then have lt: "rank s1 < rank s" using w(3,5) by (cases "rank s1 = 0") auto
        obtain b s2 where win: "win src ctx fire s1 = (Val b, s2)" "rank s2 \<le> rank s1" "wf (map fst sent) s2" "b \<longrightarrow> won (map fst sent) fire s2"
          using yields_run [OF win_law [OF w(2)]] by (metis surj_pair)
        show ?thesis
        proof (cases b)
          case False
          have "rank s2 < rank s" using lt win(2) by simp
          from less.hyps [OF this win(3) less.prems(2) past_next [OF before]] obtain r where
            r: "stream_loop src env pck rnd ctx out (next_instant src fire) sent s2 = Some r" "loop_result (next_instant src fire) sent r" by blast
          then show ?thesis using loop_result_next [OF grid r(2)] False win(1) i by (subst loop) (simp add: head)
        next
          case b: True
          then have w2: "won (map fst sent) fire s2" using win(4) by blast
          obtain d s3 where del: "fire_delivery src rnd fire s2 = (Val d, s3)" "rank s3 \<le> rank s2" "won (map fst sent) fire s3"
            using yields_run [OF delivery_law [OF w2]] by (metis surj_pair)
          obtain j s4 where x: "wait_ready env pck ([fo_ready out] @ [\<lambda>s'. ctx s' \<noteq> None]) s3 = Some (j, s4)" "won (map fst sent) fire s4"
            "rank s4 \<le> rank s3 - 1" "j < length [fo_ready out] \<and> ([fo_ready out] ! j) s4 \<or> j = length [fo_ready out] \<and> ctx s4 \<noteq> None"
            using wait_returns [of "won (map fst sent) fire" s3 "[fo_ready out]", OF del(3) env_won] by metis
          note head = head win(1) del(1) x(1) [simplified]
          show ?thesis
          proof (cases "j = 0")
            case False
            then have "ctx s4 \<noteq> None" using x(4) by auto
            then show ?thesis using False loop_result_stop [of s4 sent nxt] won_wf [OF x(2)] less.prems(2) i b
              by (subst loop) (simp add: head returnO_def)
          next
            case j: True
            let ?s5 = "fo_put out d s4"
            let ?sent = "sent @ [(fire, cs_clock src ?s5)]"
            have put: "rank ?s5 \<le> rank s4" "wf (map fst ?sent) ?s5" using put_law [OF x(2)] by simp_all
            have "rank ?s5 < rank s" using put(1) x(3) del(2) win(2) lt by linarith
            from less.hyps [OF this put(2) in_order_snoc [OF less.prems(2) before] past_sent [OF before]] obtain r where
              r: "stream_loop src env pck rnd ctx out (next_instant src fire) ?sent ?s5 = Some r" "loop_result (next_instant src fire) ?sent r" by blast
            then show ?thesis using loop_result_sent [OF grid r(2)] i b j by (subst loop) (simp add: head)
          qed
        qed
      qed
    qed
  qed
qed

text \<open>A whole run: it returns the context's error, and the fires are as the loop's contract says.\<close>

lemma stream_run:
  assumes "wf [] s"
  obtains e sent s' where "cron_Stream src env pck rnd ctx out s = Some (Val (Some e, sent), s')" "ctx s' = Some e"
    "wf (map fst sent) s'" "in_order sent"
    "\<And>f h. (f, h) \<in> set sent \<Longrightarrow> cs_clock src s < f \<and> (\<lambda>a b. next_instant src a = Some b)\<^sup>+\<^sup>+ (cs_clock src s) f"
proof -
  have "wf (map fst []) s" "in_order []" "past [] (next_instant src (cs_clock src s)) (cs_clock src s)"
    using assms by (simp_all add: in_order_def past_def)
  from stream_returns [OF this] obtain e more s' where r: "cron_Stream src env pck rnd ctx out s = Some (Val (Some e, more), s')"
    "ctx s' = Some e" "wf (map fst more) s'" "in_order more" "\<forall>(f, h) \<in> set more. on_grid (next_instant src (cs_clock src s)) f"
    unfolding loop_result_def cron_Stream_def by auto
  have "cs_clock src s < f \<and> (\<lambda>a b. next_instant src a = Some b)\<^sup>+\<^sup>+ (cs_clock src s) f" if fh: "(f, h) \<in> set more" for f h
  proof -
    obtain t where t: "next_instant src (cs_clock src s) = Some t" "(\<lambda>a b. next_instant src a = Some b)\<^sup>*\<^sup>* t f"
      using r(5) fh unfolding on_grid_def by blast
    then show ?thesis using later [OF t(1)] grid_later [OF t(2)] rtranclp_into_tranclp2 [of "\<lambda>a b. next_instant src a = Some b", OF t] by simp
  qed
  then show thesis using that r(1-4) by blast
qed

end

section \<open>A world with rival instances\<close>

text \<open>
  What happens to a source while it waits, as a script: the clock moves (in either direction), the consumer gets ready to
  receive, another instance claims a fire in the same table, the context is cancelled. Each step comes with
  the scheduler's pick. At the end of the script the context is cancelled if it was not.
\<close>

datatype world_event = ClockMoves int | Receives | Rival string time | Cancels err

record cron_world =
  cw_db :: crondb
  cw_clock :: time
  cw_done :: "err option"
  cw_receiver :: bool
  cw_pick :: nat
  cw_rivals :: "(string \<times> time) list"
  cw_got :: "msg list"
  cw_script :: "(world_event \<times> nat) list"

definition world_locker :: "(crondb, unit) SQLLocker \<Rightarrow> cron_world Locker" where
  "world_locker l ctx scope fire w =
     (case SQLLocker_Claim l (\<lambda>d. ctx (w\<lparr>cw_db := d\<rparr>)) scope fire (cw_db w) of (r, d) \<Rightarrow> (r, w\<lparr>cw_db := d\<rparr>))"

definition rival_claims :: "(crondb, unit) SQLLocker \<Rightarrow> string \<Rightarrow> time \<Rightarrow> cron_world \<Rightarrow> cron_world" where
  "rival_claims l scope fire w =
     (case world_locker l (\<lambda>_. None) scope fire w of
        (Val (Inr True), w') \<Rightarrow> w'\<lparr>cw_rivals := cw_rivals w' @ [(scope, fire)]\<rparr>
      | (_, w') \<Rightarrow> w')"

fun world_step :: "(crondb, unit) SQLLocker \<Rightarrow> world_event \<Rightarrow> cron_world \<Rightarrow> cron_world" where
  "world_step l (ClockMoves d) w = w\<lparr>cw_clock := cw_clock w + d\<rparr>"
| "world_step l Receives w = w\<lparr>cw_receiver := True\<rparr>"
| "world_step l (Rival scope fire) w = rival_claims l scope fire w"
| "world_step l (Cancels e) w = w\<lparr>cw_done := (case cw_done w of None \<Rightarrow> Some e | Some x \<Rightarrow> Some x)\<rparr>"

definition cron_env :: "(crondb, unit) SQLLocker \<Rightarrow> cron_world \<Rightarrow> cron_world" where
  "cron_env l w =
     (case cw_script w of
        [] \<Rightarrow> w\<lparr>cw_done := (case cw_done w of None \<Rightarrow> Some Canceled | Some x \<Rightarrow> Some x), cw_pick := 1\<rparr>
      | (e, p) # es \<Rightarrow> (world_step l e w)\<lparr>cw_script := es, cw_pick := p\<rparr>)"

definition world_out :: "cron_world fires_out" where
  "world_out = \<lparr>fo_ready = cw_receiver, fo_put = (\<lambda>d w. w\<lparr>cw_receiver := False, cw_got := cw_got w @ [Msg d]\<rparr>)\<rparr>"

definition world_rank :: "cron_world \<Rightarrow> nat" where
  "world_rank w = 2 * length (cw_script w) + (if cw_done w \<noteq> None \<and> cw_pick w = 1 then 0 else 1)"

text \<open>A schedule that advances; one that does is its own \<open>advancing\<close>.\<close>

definition advances :: "schedule \<Rightarrow> bool" where
  "advances sch \<longleftrightarrow> (\<forall>loc t u. sched_Next sch loc t = Some u \<longrightarrow> t < u)"

definition advancing :: "schedule \<Rightarrow> schedule" where
  "advancing sch = sch\<lparr>sched_Next := (\<lambda>loc t. case sched_Next sch loc t of Some u \<Rightarrow> if t < u then Some u else None | None \<Rightarrow> None)\<rparr>"

lemma advancing_id: "advances sch \<Longrightarrow> advancing sch = sch"
proof -
  assume a: "advances sch"
  then have "(case sched_Next sch loc t of Some u \<Rightarrow> if t < u then Some u else None | None \<Rightarrow> None) = sched_Next sch loc t" for loc t
    by (auto simp: advances_def split: option.splits)
  then show ?thesis by (simp add: advancing_def)
qed

definition job :: "schedule \<Rightarrow> location \<Rightarrow> string \<Rightarrow> (time \<Rightarrow> goval) \<Rightarrow> cron_world gate option \<Rightarrow> cron_world cronSource" where
  "job sch loc scope f g =
     \<lparr>cs_schedule = sch, cs_factory = (\<lambda>fire. returnP (f fire)), cs_clock = cw_clock, cs_location = loc, cs_scope = scope,
      cs_gate = g, cs_logger = discardLogger\<rparr>"

lemma job_later: "next_instant (job (advancing sch) loc scope f g) t = Some u \<Longrightarrow> t < u"
  by (auto simp: next_instant_def job_def advancing_def split: option.splits if_splits)

lemma world_select: "world_rank w = 0 \<Longrightarrow> cw_done w \<noteq> None \<and> go_select [True, True] (cw_pick w) = Some 1"
  by (auto simp: world_rank_def go_select_def upt_rec split: if_splits)

lemma rival_keeps:
  "cw_script (rival_claims l scope fire w) = cw_script w" "cw_done (rival_claims l scope fire w) = cw_done w"
  by (auto simp: rival_claims_def world_locker_def split: prod.splits res.splits sum.splits bool.splits)

lemma env_world_rank: "world_rank (cron_env l w) \<le> world_rank w - 1"
proof (cases "cw_script w")
  case Nil
  then show ?thesis by (auto simp: world_rank_def cron_env_def split: option.splits)
next
  case (Cons x es)
  obtain e p where "x = (e, p)" by fastforce
  then show ?thesis using Cons by (cases e) (auto simp: world_rank_def cron_env_def rival_keeps)
qed

subsection \<open>A gate that answers by itself\<close>

definition verdict_gate :: "(time \<Rightarrow> cron_world \<Rightarrow> err + bool) \<Rightarrow> cron_world gate" where
  "verdict_gate g ctx fire w = (Val (g fire w), w)"

definition granted :: "(time \<Rightarrow> cron_world \<Rightarrow> err + bool) \<Rightarrow> time list \<Rightarrow> cron_world \<Rightarrow> bool" where
  "granted g sent w \<longleftrightarrow> (\<forall>f \<in> set sent. \<exists>w. g f w = Inr True)"

interpretation verdict_stream: stream_world "job (advancing sch) loc scope f (Some (verdict_gate g))" "cron_env l" cw_pick rnd cw_done
  world_out world_rank "granted g" "\<lambda>sent fire. granted g (sent @ [fire])" for sch loc scope f g l rnd
proof (unfold_locales, goal_cases)
  case (7 sent s fire)
  have gate: "win (job (advancing sch) loc scope f (Some (verdict_gate g))) cw_done fire s
      = (Val (case g fire s of Inl e \<Rightarrow> False | Inr b \<Rightarrow> b), s)"
    by (simp add: win_def job_def verdict_gate_def discardLogger_def bindP_def returnP_def split: sum.splits)
  show ?case using 7 by (auto simp: yields_def gate granted_def split: sum.splits)
next
  case (8 sent fire s)
  then show ?case by (simp add: fire_delivery_def job_def yields_def bindP_def returnP_def)
next
  case (9 sent fire s d)
  then show ?case by (simp add: world_rank_def world_out_def granted_def)
qed (auto simp: granted_def env_world_rank [simplified] dest: job_later world_select)

text \<open>
  C30. Whatever the clock does, whatever the gate answers and whenever the consumer receives, the firing loop of a source
  whose schedule advances returns the context's error once it is cancelled. The fires it handed over are instants of the
  schedule counted from the clock at the start, ascending, each granted by the gate (so none whose coordinator failed),
  and each later than the hand-over of every fire before it: an instant that passes during a slow hand-over is skipped.
\<close>

theorem cron_fires_on_grid:
  assumes "advances sch"
  shows "\<exists>e sent w'. cron_Stream (job sch loc scope f (Some (verdict_gate g))) (cron_env l) cw_pick rnd cw_done world_out w
      = Some (Val (Some e, sent), w') \<and> cw_done w' = Some e
    \<and> sorted_wrt (\<lambda>(f, h) (f', h'). f < f' \<and> h < f') sent
    \<and> (\<forall>(fire, h) \<in> set sent. cw_clock w < fire \<and> (\<lambda>a b. sched_Next sch loc a = Some b)\<^sup>+\<^sup>+ (cw_clock w) fire
         \<and> (\<exists>w. g fire w = Inr True))"
proof -
  have src: "next_instant (job sch loc scope f (Some (verdict_gate g))) = sched_Next sch loc"
    "cs_clock (job sch loc scope f (Some (verdict_gate g))) = cw_clock" by (simp_all add: next_instant_def job_def fun_eq_iff)
  have "granted g [] w" by (simp add: granted_def)
  then show ?thesis
  proof (rule verdict_stream.stream_run [of g w sch loc scope f l rnd, unfolded advancing_id [OF assms] src], goal_cases)
    case (1 e sent w')
    have "\<exists>w. g fire w = Inr True" if "(fire, h) \<in> set sent" for fire h using 1(3) that by (force simp: granted_def)
    then show ?case using 1(1,2,5) 1(4) [unfolded verdict_stream.in_order_def] by blast
  qed
qed

text \<open>A schedule for every full minute, and a world in which two minutes pass.\<close>

definition every_minute :: schedule where
  "every_minute = \<lparr>sched_Next = (\<lambda>loc t. Some ((t div Minute + 1) * Minute)), sched_every = False\<rparr>"

lemma every_minute_advances: "advances every_minute"
proof -
  have "t < (t div Minute + 1) * Minute" for t :: int
  proof -
    have "t mod Minute < Minute" by simp
    moreover have "t = t div Minute * Minute + t mod Minute" by simp
    ultimately show ?thesis by (simp add: distrib_right)
  qed
  then show ?thesis by (simp add: advances_def every_minute_def)
qed

definition demo_world :: cron_world where
  "demo_world = \<lparr>cw_db = demo_cron, cw_clock = 0, cw_done = None, cw_receiver = False, cw_pick = 0, cw_rivals = [], cw_got = [],
     cw_script = [(ClockMoves Minute, 0), (Receives, 0), (Rival ''job'' (2 * Minute), 0), (ClockMoves Minute, 0), (Receives, 0)]\<rparr>"

theorem cron_fires_on_grid_witness:
  "\<exists>e sent w'. cron_Stream (job every_minute ''UTC'' ''job'' GTime (Some (verdict_gate (\<lambda>fire w. Inr True)))) (cron_env demo_locker)
      cw_pick (\<lambda>_. '''') cw_done world_out demo_world = Some (Val (Some e, sent), w') \<and> cw_done w' = Some e
    \<and> sorted_wrt (\<lambda>(f, h) (f', h'). f < f' \<and> h < f') sent
    \<and> (\<forall>(fire, h) \<in> set sent. cw_clock demo_world < fire \<and> (\<lambda>a b. sched_Next every_minute ''UTC'' a = Some b)\<^sup>+\<^sup>+ (cw_clock demo_world) fire
         \<and> (\<exists>w :: cron_world. (Inr True :: err + bool) = Inr True))"
  by (rule cron_fires_on_grid [OF every_minute_advances])

subsection \<open>A SQL locker as the gate\<close>

definition fire_key :: "(time \<Rightarrow> int) \<Rightarrow> string \<Rightarrow> time \<Rightarrow> string \<times> int" where
  "fire_key col scope fire = (scope, col fire)"

text \<open>Two lists of keys, each key once and recorded since the start.\<close>

definition apart :: "'k set \<Rightarrow> 'k set \<Rightarrow> 'k list \<Rightarrow> 'k list \<Rightarrow> bool" where
  "apart old now xs ys \<longleftrightarrow> distinct (xs @ ys) \<and> set (xs @ ys) \<subseteq> now - old \<and> old \<subseteq> now"

lemma apart_mono: "apart old now xs ys \<Longrightarrow> now \<subseteq> now' \<Longrightarrow> apart old now' xs ys"
  unfolding apart_def by auto

lemma apart_left: "apart old now xs ys \<Longrightarrow> now \<subseteq> now' \<Longrightarrow> k \<notin> now \<Longrightarrow> k \<in> now' \<Longrightarrow> apart old now' (xs @ [k]) ys"
  unfolding apart_def by auto

lemma apart_right: "apart old now xs ys \<Longrightarrow> now \<subseteq> now' \<Longrightarrow> k \<notin> now \<Longrightarrow> k \<in> now' \<Longrightarrow> apart old now' xs (ys @ [k])"
  unfolding apart_def by auto

lemma apart_prefix: "apart old now (xs @ [k]) ys \<Longrightarrow> apart old now xs ys"
  unfolding apart_def by auto

text \<open>\<open>db0\<close> is the database at the start; the fires sent and those the rivals won are apart.\<close>

definition claimed_apart ::
  "(crondb, unit) SQLLocker \<Rightarrow> (time \<Rightarrow> int) \<Rightarrow> string \<Rightarrow> crondb \<Rightarrow> time list \<Rightarrow> cron_world \<Rightarrow> bool" where
  "claimed_apart l col scope db0 sent w \<longleftrightarrow>
     locker_ready l col (cw_db w)
     \<and> apart (fired_keys (sl_table l) db0) (fired_keys (sl_table l) (cw_db w)) (map (fire_key col scope) sent)
         (map (\<lambda>(sc, f). fire_key col sc f) (cw_rivals w))"

lemma world_locker_law:
  assumes "locker_ready l col (cw_db w)"
  obtains r d where "world_locker l ctx scope fire w = (Val r, w\<lparr>cw_db := d\<rparr>)" "locker_ready l col d"
    "fired_keys (sl_table l) (cw_db w) \<subseteq> fired_keys (sl_table l) d"
    "r = Inr True \<Longrightarrow> fire_key col scope fire \<notin> fired_keys (sl_table l) (cw_db w) \<and> fire_key col scope fire \<in> fired_keys (sl_table l) d"
proof -
  let ?ctx = "\<lambda>d. ctx (w\<lparr>cw_db := d\<rparr>)"
  obtain x d where c: "SQLLocker_Claim l ?ctx scope fire (cw_db w) = (x, d)" by fastforce
  from yields_run [OF sql_locker.claim_law [OF assms] c] obtain r where r: "x = Val r" "locker_ready l col d"
    "fired_keys (sl_table l) (cw_db w) \<subseteq> fired_keys (sl_table l) d"
    "r = Inr True \<longrightarrow> (scope, col fire) \<notin> fired_keys (sl_table l) (cw_db w) \<and> (scope, col fire) \<in> fired_keys (sl_table l) d" by blast
  then show thesis using that c by (simp add: world_locker_def fire_key_def)
qed

lemma claimed_apart_db:
  assumes "claimed_apart l col scope db0 sent w" "locker_ready l col d" "fired_keys (sl_table l) (cw_db w) \<subseteq> fired_keys (sl_table l) d"
  shows "claimed_apart l col scope db0 sent (w\<lparr>cw_db := d\<rparr>)"
  using assms apart_mono unfolding claimed_apart_def by (metis cron_world.select_convs(1) cron_world.select_convs(6) cron_world.surjective cron_world.update_convs(1))

lemma claimed_apart_prefix: "claimed_apart l col scope db0 (sent @ [fire]) w \<Longrightarrow> claimed_apart l col scope db0 sent w"
  unfolding claimed_apart_def by (auto intro: apart_prefix)

lemma claimed_apart_rival:
  assumes "claimed_apart l col scope db0 sent w"
  shows "claimed_apart l col scope db0 sent (rival_claims l sc fire w)"
proof -
  have ready: "locker_ready l col (cw_db w)" and a: "apart (fired_keys (sl_table l) db0) (fired_keys (sl_table l) (cw_db w))
      (map (fire_key col scope) sent) (map (\<lambda>(sc, f). fire_key col sc f) (cw_rivals w))"
    using assms by (simp_all add: claimed_apart_def)
  obtain r d where r: "world_locker l (\<lambda>_. None) sc fire w = (Val r, w\<lparr>cw_db := d\<rparr>)" "locker_ready l col d"
    "fired_keys (sl_table l) (cw_db w) \<subseteq> fired_keys (sl_table l) d"
    "r = Inr True \<Longrightarrow> fire_key col sc fire \<notin> fired_keys (sl_table l) (cw_db w) \<and> fire_key col sc fire \<in> fired_keys (sl_table l) d"
    using world_locker_law [OF ready, of "\<lambda>_. None" sc fire] by blast
  show ?thesis
  proof (cases "r = Inr True")
    case True
    have "apart (fired_keys (sl_table l) db0) (fired_keys (sl_table l) d) (map (fire_key col scope) sent)
        (map (\<lambda>(sc, f). fire_key col sc f) (cw_rivals w) @ [fire_key col sc fire])"
      using r(4) [OF True] by (intro apart_right [OF a r(3)]) blast+
    then show ?thesis using r(2) by (simp add: rival_claims_def r(1) True claimed_apart_def)
  next
    case False
    then have "rival_claims l sc fire w = w\<lparr>cw_db := d\<rparr>" by (auto simp: rival_claims_def r(1) split: sum.splits bool.splits)
    then show ?thesis using claimed_apart_db [OF assms r(2,3)] by simp
  qed
qed

lemma claimed_apart_env: "claimed_apart l col scope db0 sent w \<Longrightarrow> claimed_apart l col scope db0 sent (cron_env l w)"
proof -
  assume a: "claimed_apart l col scope db0 sent w"
  have "claimed_apart l col scope db0 sent (world_step l e w)" for e
    using a claimed_apart_rival [OF a] by (cases e) (simp_all add: claimed_apart_def)
  then show ?thesis using a by (auto simp: cron_env_def claimed_apart_def split: list.splits)
qed

abbreviation locked_job :: "schedule \<Rightarrow> location \<Rightarrow> string \<Rightarrow> (time \<Rightarrow> goval) \<Rightarrow> (crondb, unit) SQLLocker \<Rightarrow> cron_world cronSource" where
  "locked_job sch loc scope f l \<equiv> job sch loc scope f (Some (\<lambda>ctx fire. world_locker l ctx scope fire))"

lemma locked_win:
  assumes "claimed_apart l col scope db0 sent w"
  shows "yields (win (locked_job sch loc scope f l) cw_done fire)
    (\<lambda>b w'. world_rank w' \<le> world_rank w \<and> claimed_apart l col scope db0 sent w' \<and> (b \<longrightarrow> claimed_apart l col scope db0 (sent @ [fire]) w')) w"
proof -
  have ready: "locker_ready l col (cw_db w)" and a: "apart (fired_keys (sl_table l) db0) (fired_keys (sl_table l) (cw_db w))
      (map (fire_key col scope) sent) (map (\<lambda>(sc, f). fire_key col sc f) (cw_rivals w))"
    using assms by (simp_all add: claimed_apart_def)
  obtain r d where r: "world_locker l cw_done scope fire w = (Val r, w\<lparr>cw_db := d\<rparr>)" "locker_ready l col d"
    "fired_keys (sl_table l) (cw_db w) \<subseteq> fired_keys (sl_table l) d"
    "r = Inr True \<Longrightarrow> fire_key col scope fire \<notin> fired_keys (sl_table l) (cw_db w) \<and> fire_key col scope fire \<in> fired_keys (sl_table l) d"
    using world_locker_law [OF ready, of cw_done scope fire] by blast
  have "win (locked_job sch loc scope f l) cw_done fire w = (Val (r = Inr True), w\<lparr>cw_db := d\<rparr>)"
    by (auto simp: win_def job_def r(1) discardLogger_def bindP_def returnP_def split: sum.splits)
  moreover have "claimed_apart l col scope db0 (sent @ [fire]) (w\<lparr>cw_db := d\<rparr>)" if "r = Inr True"
    using apart_left [OF a r(3)] r(2) r(4) [OF that] by (simp add: claimed_apart_def)
  ultimately show ?thesis using claimed_apart_db [OF assms r(2,3)] by (simp add: yields_def world_rank_def)
qed

interpretation locked_stream: stream_world "locked_job (advancing sch) loc scope f l" "cron_env l" cw_pick rnd cw_done
  world_out world_rank "claimed_apart l col scope db0" "\<lambda>sent fire. claimed_apart l col scope db0 (sent @ [fire])"
  for sch loc scope f l rnd col db0
proof (unfold_locales, goal_cases)
  case (7 sent s fire)
  then show ?case by (rule locked_win)
next
  case (8 sent fire s)
  then show ?case by (simp add: fire_delivery_def job_def yields_def bindP_def returnP_def)
next
  case (9 sent fire s d)
  then show ?case by (simp add: world_rank_def world_out_def claimed_apart_def)
qed (auto simp: env_world_rank [simplified] dest: job_later world_select intro: claimed_apart_env claimed_apart_prefix)

lemma NewSource_locked:
  assumes "NewSource wall parse5 parse6 spec (Some (\<lambda>fire. returnP (f fire))) [cron_WithClock (Some cw_clock), WithLocker (Some (world_locker l))] w = Inr src"
  obtains sch where "parse5 spec = Inr sch" "src = locked_job sch ''UTC'' spec f l" "\<not> sched_every sch" "sched_Next sch ''UTC'' (cw_clock w) \<noteq> None"
  using assms
  by (auto simp: NewSource_def cron_WithClock_def WithLocker_def wireGate_def job_def split: sum.splits if_splits)

text \<open>
  C27. Sources that coordinate through a SQL locker never deliver a fire twice. For a source as \<open>NewSource\<close> builds it with a
  locker over any of the built-in dialects, in every interleaving with clock changes, slow consumers, claims of rival instances
  in the same table and failing statements: the loop returns when it is cancelled, the fires it delivered are distinct keys
  that were not held at the start and are recorded at the end, and no rival won any of them.
\<close>

theorem cron_locked_single_fire:
  assumes "NewSource wall parse5 parse6 spec (Some (\<lambda>fire. returnP (f fire))) [cron_WithClock (Some cw_clock), WithLocker (Some (world_locker l))] w0 = Inr src"
    and "\<forall>sch. parse5 spec = Inr sch \<longrightarrow> advances sch" "locker_ready l col (cw_db w)" "cw_rivals w = []"
  shows "\<exists>e sent w'. cron_Stream src (cron_env l) cw_pick rnd cw_done world_out w = Some (Val (Some e, sent), w') \<and> cw_done w' = Some e
    \<and> distinct (map (\<lambda>(fire, h). (spec, col fire)) sent)
    \<and> (\<forall>(fire, h) \<in> set sent. (spec, col fire) \<notin> fired_keys (sl_table l) (cw_db w) \<and> (spec, col fire) \<in> fired_keys (sl_table l) (cw_db w')
         \<and> (\<forall>(scope, fire') \<in> set (cw_rivals w'). (scope, col fire') \<noteq> (spec, col fire)))"
proof -
  obtain sch where sch: "parse5 spec = Inr sch" "src = locked_job sch ''UTC'' spec f l"
    by (rule NewSource_locked [OF assms(1)])
  then have adv: "advancing sch = sch" using assms(2) advancing_id by blast
  have "claimed_apart l col spec (cw_db w) [] w" using assms(3,4) by (simp add: claimed_apart_def apart_def)
  then show ?thesis
  proof (rule locked_stream.stream_run [of l col spec "cw_db w" w sch "''UTC''" f rnd, unfolded adv sch(2) [symmetric]], goal_cases)
    case (1 e sent w')
    have key: "map (fire_key col spec) (map fst sent) = map (\<lambda>(fire, h). (spec, col fire)) sent" by (auto simp: fire_key_def)
    have ap: "apart (fired_keys (sl_table l) (cw_db w)) (fired_keys (sl_table l) (cw_db w')) (map (\<lambda>(fire, h). (spec, col fire)) sent)
        (map (\<lambda>(sc, f). (sc, col f)) (cw_rivals w'))"
      using 1(3) unfolding claimed_apart_def key fire_key_def by (rule conjunct2)
    have "(spec, col fire) \<notin> fired_keys (sl_table l) (cw_db w) \<and> (spec, col fire) \<in> fired_keys (sl_table l) (cw_db w')
         \<and> (\<forall>(scope, fire') \<in> set (cw_rivals w'). (scope, col fire') \<noteq> (spec, col fire))" if "(fire, h) \<in> set sent" for fire h
    proof -
      have "(spec, col fire) \<in> set (map (\<lambda>(fire, h). (spec, col fire)) sent)" using that by force
      note k = this
      have "(spec, col fire) \<notin> set (map (\<lambda>(sc, f). (sc, col f)) (cw_rivals w'))" using ap k unfolding apart_def distinct_append by blast
      then have "\<forall>(scope, fire') \<in> set (cw_rivals w'). (scope, col fire') \<noteq> (spec, col fire)" by force
      then show ?thesis using ap k unfolding apart_def by auto
    qed
    moreover have "distinct (map (\<lambda>(fire, h). (spec, col fire)) sent)" using ap unfolding apart_def distinct_append by blast
    ultimately show ?case using 1(1,2) by blast
  qed
qed

theorem cron_locked_single_fire_witness:
  "\<exists>src e sent w'. NewSource cw_clock (\<lambda>_. Inr every_minute) (\<lambda>_. Inr every_minute) ''job'' (Some (\<lambda>fire. returnP (GTime fire)))
       [cron_WithClock (Some cw_clock), WithLocker (Some (world_locker demo_locker))] demo_world = Inr src
    \<and> cron_Stream src (cron_env demo_locker) cw_pick (\<lambda>_. '''') cw_done world_out demo_world = Some (Val (Some e, sent), w') \<and> cw_done w' = Some e
    \<and> distinct (map (\<lambda>(fire, h). (''job'', fire div 1000)) sent)
    \<and> (\<forall>(fire, h) \<in> set sent. (''job'', fire div 1000) \<notin> fired_keys (sl_table demo_locker) (cw_db demo_world)
         \<and> (''job'', fire div 1000) \<in> fired_keys (sl_table demo_locker) (cw_db w')
         \<and> (\<forall>(scope, fire') \<in> set (cw_rivals w'). (scope, fire' div 1000) \<noteq> (''job'', fire div 1000)))"
proof -
  have new: "NewSource cw_clock (\<lambda>_. Inr every_minute) (\<lambda>_. Inr every_minute) ''job'' (Some (\<lambda>fire. returnP (GTime fire)))
       [cron_WithClock (Some cw_clock), WithLocker (Some (world_locker demo_locker))] demo_world
     = Inr (locked_job every_minute ''UTC'' ''job'' GTime demo_locker)"
    by (simp add: NewSource_def cron_WithClock_def WithLocker_def wireGate_def job_def every_minute_def Let_def)
  have "\<forall>sch. (Inr every_minute :: err + schedule) = Inr sch \<longrightarrow> advances sch" using every_minute_advances by simp
  moreover have "locker_ready demo_locker (\<lambda>fire. fire div 1000) (cw_db demo_world)" "cw_rivals demo_world = []"
    using demo_locker_ready by (simp_all add: demo_world_def)
  ultimately show ?thesis using new cron_locked_single_fire [OF new, of "\<lambda>fire. fire div 1000" demo_world "\<lambda>_. ''''"] by blast
qed

end
