(* ===== verification/Spec2Isabelle.thy ===== *)
theory Spec2Isabelle
  imports Producer Exchange Aggregator Channels Channel_Store Resilience Sse_Server Sse_Client Http_Outbound Sqlite_Group Server_Lock Cron
begin

text \<open>
  A verification library for \<^verbatim>\<open>msgin\<close>, a Go library of enterprise integration patterns.

  \<^bold>\<open>The program.\<close> A message is a payload with immutable headers (\<^verbatim>\<open>message.go\<close>). Endpoints move
  messages between adapters and handlers: a consumer (\<^verbatim>\<open>endpoint/consumer.go\<close>) takes deliveries
  from a polling or pushing source through an admission stage (credits, rate limiter, circuit
  breaker), runs a handler on them and settles each with an acknowledgement, a requeue, a
  dead-letter or an invalid-message divert; a producer (\<^verbatim>\<open>endpoint/producer.go\<close>) sends with
  retries inside a budget; an exchange (\<^verbatim>\<open>endpoint/exchange.go\<close>) pairs requests with replies by
  correlation id. Handlers are composed of steps (\<^verbatim>\<open>handler.go\<close>, \<^verbatim>\<open>routing/\<close>, \<^verbatim>\<open>transform/\<close>), among
  them the aggregator, which collects messages in a group store and releases complete groups.
  Channels (\<^verbatim>\<open>channel/\<close>) connect handlers: direct, publish-subscribe with a topic registry, and a
  queue over a channel store. The in-memory stores are in \<^verbatim>\<open>adapter/memory/\<close>; \<^verbatim>\<open>adapter/http/\<close> holds the
  HTTP adapters, among them a server-sent event server and client; \<^verbatim>\<open>adapter/database/sql/\<close> queues and groups
  in SQL tables, through dialects that own the SQL; \<^verbatim>\<open>adapter/cron/\<close> a source that fires on a schedule, with a
  SQL locker and a SQL elector that keep several instances from firing together.

  \<^bold>\<open>How it is modelled.\<close> An effectful Go function is a program over an arbitrary world state that
  returns or panics (\<open>('s, 'a) prog\<close> of \<open>Prelude\<close>); \<^verbatim>\<open>defer\<close> and \<^verbatim>\<open>recover\<close> are combinators, a nil
  error is \<open>None\<close>, an error is a tree that \<^verbatim>\<open>errors.Is\<close> searches (\<open>Errors\<close>). A loop that need not end
  is a \<^verbatim>\<open>partial_function\<close> over option programs, whose \<open>None\<close> is not returning; the loops that are
  claimed to end are total functions or have a theorem that they return. Code that goroutines
  interleave is a step relation over the critical sections, with the invariants proved by rule
  induction over reachable states. Durations, times and sizes are integers with their bounds stated,
  and wrap-around is written out (\<open>wrap64\<close>) where the code can reach it. User callbacks,
  the clock, random bytes, transports and third-party parsers are arguments of the definitions.

  \<^bold>\<open>Theories.\<close>
  \<^item> \<open>Prelude\<close>: Go values, programs with panics, contexts, select, decimal rendering, shared lemmas.
  \<^item> \<open>Errors\<close>: sentinels, wrapping, \<^verbatim>\<open>Permanent\<close>, \<^verbatim>\<open>RetryAfter\<close> and their classifiers, option and range
    guards (\<^verbatim>\<open>errors.go\<close>, \<^verbatim>\<open>reliability.go\<close>, the packages' \<^verbatim>\<open>helpers.go\<close>).
  \<^item> \<open>Message\<close>: headers, messages, payload assertion, codecs (\<^verbatim>\<open>message.go\<close>, \<^verbatim>\<open>payload.go\<close>, \<^verbatim>\<open>codec.go\<close>).
  \<^item> \<open>Handlers\<close>: steps, chain, filter, predicates, router, splitter, activator, transformer. The
    children of a split are stamped and ordered; decisions of router and filter are exact.
  \<^item> \<open>Queue_Store\<close>: the in-memory queue store with epochs and capacity slots
    (\<^verbatim>\<open>adapter/memory/queuestore.go\<close>): FIFO claims, slot accounting under concurrency.
  \<^item> \<open>Channel_Store\<close>: the \<^verbatim>\<open>ChannelStore\<close> contract as a locale, interpreted on the in-memory store, and the
    queue channel over it (\<^verbatim>\<open>store.go\<close>, \<^verbatim>\<open>channel/queuechannel.go\<close>): no accepted message is lost,
    settled deliveries are fenced.
  \<^item> \<open>Group_Store\<close>: the \<^verbatim>\<open>MessageGroupStore\<close> contract as a locale and its in-memory implementation
    (\<^verbatim>\<open>groupstore.go\<close>, \<^verbatim>\<open>adapter/memory/groupstore.go\<close>): refinement of a per-key log, bounds.
  \<^item> \<open>Aggregator\<close> (\<^verbatim>\<open>routing/aggregator.go\<close>): the release protocol ends and frees its claim, a split
    followed by aggregation is the identity on the parts, the reaper loses nothing.
  \<^item> \<open>Channels\<close>: direct and publish-subscribe channels, topic registry, broker (\<^verbatim>\<open>channel/\<close>,
    \<^verbatim>\<open>adapter/memory/memory.go\<close>), with the subscription contract as a locale interpreted twice.
  \<^item> \<open>Resilience\<close>: circuit breaker and backoff (\<^verbatim>\<open>resilience/\<close>): the breaker's protocol as an invariant,
    bounds of every delay, floating-point infinities and NaN included.
  \<^item> \<open>Consumer\<close> and \<open>Ingress\<close>: dispatch, settlement, admission, attempt tracking, construction, pull and
    push loops (\<^verbatim>\<open>endpoint/consumer.go\<close>, \<^verbatim>\<open>attempts.go\<close>, \<^verbatim>\<open>credit.go\<close>, \<^verbatim>\<open>poller.go\<close>, \<^verbatim>\<open>flowcontrol.go\<close>): each
    delivery is settled once, credits are conserved, poison is dead-lettered at its limit.
  \<^item> \<open>Producer\<close> (\<^verbatim>\<open>endpoint/producer.go\<close>): a send returns within its budget, failures are accounted for.
  \<^item> \<open>Exchange\<close> (\<^verbatim>\<open>endpoint/exchange.go\<close>, \<^verbatim>\<open>endpoint/gateway.go\<close>): replies reach their caller or the
    unmatched path exactly once, nobody is stuck.
  \<^item> \<open>Http_Config\<close> (\<^verbatim>\<open>adapter/http/options.go\<close>): options and checks, header maps, bodies.
  \<^item> \<open>Sse\<close> (\<^verbatim>\<open>adapter/http/sse.go\<close>): the event stream round trip, the contract of the parser.
  \<^item> \<open>Sse_Server\<close> (\<^verbatim>\<open>adapter/http/sse_server.go\<close>): order, bounds and replay of the fan-out.
  \<^item> \<open>Sse_Client\<close> (\<^verbatim>\<open>adapter/http/sseclient.go\<close>): reconnect pacing and the resume position.
  \<^item> \<open>Http_Inbound\<close> (\<^verbatim>\<open>adapter/http/encode.go\<close>, \<^verbatim>\<open>inbound.go\<close>, \<^verbatim>\<open>stdlib/inbound.go\<close>): one final status per request,
    no forged core header, no split response.
  \<^item> \<open>Http_Outbound\<close> (\<^verbatim>\<open>adapter/http/outbound.go\<close>, \<^verbatim>\<open>exchange.go\<close>): classification of every status, redacted
    transport errors, whole replies.
  \<^item> \<open>Sql_Lease\<close> (\<^verbatim>\<open>adapter/database/sql/source.go\<close>, \<^verbatim>\<open>outbound.go\<close>, \<^verbatim>\<open>queuestore.go\<close>, \<^verbatim>\<open>framing.go\<close>, \<^verbatim>\<open>base.go\<close>): the queue adapters
    over a dialect, with the lease contract as a locale; header framing round trip.
  \<^item> \<open>Sqlite_Lease\<close> (\<^verbatim>\<open>adapter/database/sql/sqlite/dialect.go\<close>): the SQLite statements as functions on tables, an
    interpretation of the lease contract: an accepted message stays until a fenced acknowledgement.
  \<^item> \<open>Server_Lease\<close> and \<open>Server_Lock\<close> (\<^verbatim>\<open>adapter/database/sql/postgres/dialect.go\<close>, \<^verbatim>\<open>mysql/dialect.go\<close>, \<^verbatim>\<open>lock.go\<close>): both
    dialects over a server with row locks and transactions, interpretations of the lease contract whose ids are never
    reused; the two claims agree; the lock strategy gives a message to one worker at a time.
  \<^item> \<open>Sql_Group\<close> (\<^verbatim>\<open>adapter/database/sql/groupstore.go\<close>) and \<open>Sqlite_Group\<close> (\<^verbatim>\<open>sqlite/groupdialect.go\<close>): the group store over a
    dialect and its SQLite transactions: table invariant under failures, exact settlements.
  \<^item> \<open>Cron_Sql\<close> (\<^verbatim>\<open>adapter/cron/dialect.go\<close>, \<^verbatim>\<open>sqllock.go\<close>, \<^verbatim>\<open>sqlelector.go\<close>): the locker and elector contracts as locales,
    interpreted on the PostgreSQL, MySQL and SQLite dialects; leadership terms never overlap, however the statements of
    acquisitions interleave; the elector dialects agree.
  \<^item> \<open>Cron\<close> (\<^verbatim>\<open>adapter/cron/source.go\<close>): the firing loop returns on cancellation and fires along the grid; with a
    SQL locker no fire is delivered twice.

  \<^bold>\<open>What modelling showed.\<close> Some theorems state behaviour that differs from the documentation:
  a settlement passes the epoch fence once its group was deleted (\<open>Group_Store\<close>), a panicking
  release strategy strands a residual claim (\<open>Aggregator\<close>), a slowly redelivered poison message is
  never dead-lettered (\<open>Consumer\<close>), an oversized event's remaining lines are dispatched
  (\<open>Sse\<close>), a connection without an id loses the resume position (\<open>Sse_Client\<close>), and an error mapped
  to a status the server rejects is answered with 200 (\<open>Http_Inbound\<close>); the SQLite queue reuses row ids, so a
  stale acknowledgement can delete another message (\<open>Sqlite_Lease\<close>), and a stale group settlement that reports
  not-applied still deletes members (\<open>Sqlite_Group\<close>); on PostgreSQL the delay of a negative acknowledgement under the
  lock strategy counts from the claim (\<open>Server_Lock\<close>).

  \<^bold>\<open>Not modelled.\<close> Log lines and their hooks' output; goroutine start-up and shutdown of the
  consumer (\<^verbatim>\<open>Run\<close>, \<^verbatim>\<open>startWorkers\<close>, \<^verbatim>\<open>drainWorkers\<close>); the token bucket, whose accrual is a float64 sum; the
  PostgreSQL and MySQL group dialects, whose transactions of several statements run at isolation levels weaker than
  serializable; the deduplication inbox; the expression predicates, which rest on a third-party compiler; the
  texts of the reference DDL builders; test harnesses. SQL statements are functions on tables: each runs atomically at one
  instant of the database clock, and strings compare exactly, as under a binary collation (the reference DDL of MySQL leaves
  the collation to the database). The two statements of a MySQL fire claim run without another instance's between
  them; the first one alone decides who wins. Where an admission or a queue waits (for a credit, for a slot) the model of the
  single call does not return; the step relations show that others can free it. The counters of the breaker and of
  the tables are unbounded integers.
\<close>

end
